(* ===== verification/Prelude.thy ===== *)
theory Prelude
  imports Main "HOL-Library.List_Lexorder" "HOL-Library.Char_ord" "HOL-Library.Product_Lexorder"
    "HOL-Library.Word"
begin

unbundle bit_operations_syntax

text \<open>
  Shared vocabulary of the development: the machine integer types, Rust's ordered maps
  (\<open>BTreeMap\<close>) as strictly sorted association lists, ordered sets (\<open>BTreeSet\<close>) as strictly
  sorted lists, the \<open>sort\<close>/\<open>dedup\<close> idiom, and two interfaces (locales) that several components
  share: a keyed store with lookup-after-insert laws, and a state machine whose operations keep an
  invariant.  Strings are byte strings (\<open>char list\<close>): Rust's \<open>String\<close> is UTF-8 and its order is
  the lexicographic order of the bytes, which is the order of \<open>List_Lexorder\<close> over \<open>Char_ord\<close>.
\<close>

section \<open>Integers\<close>

type_synonym u8 = "8 word"
type_synonym u32 = "32 word"
type_synonym u64 = "64 word"
type_synonym u128 = "128 word"

definition u32_max :: nat where "u32_max = 4294967295"
definition u64_max :: nat where "u64_max = 18446744073709551615"

text \<open>\<open>u32::try_from(n).unwrap_or(u32::MAX)\<close> on a \<open>usize\<close>.\<close>

definition u32_from_usize :: "nat \<Rightarrow> nat" where
  "u32_from_usize n = (if n \<le> u32_max then n else u32_max)"

text \<open>\<open>a.saturating_add(b)\<close> on \<open>u32\<close> values held as naturals.\<close>

definition u32_saturating_add :: "nat \<Rightarrow> nat \<Rightarrow> nat" where
  "u32_saturating_add a b = min (a + b) u32_max"

lemma u32_from_usize_le [simp]: "u32_from_usize n \<le> u32_max"
  by (simp add: u32_from_usize_def)

lemma u32_from_usize_id [simp]: "n \<le> u32_max \<Longrightarrow> u32_from_usize n = n"
  by (simp add: u32_from_usize_def)

lemma u32_saturating_add_id: "a + b \<le> u32_max \<Longrightarrow> u32_saturating_add a b = a + b"
  by (simp add: u32_saturating_add_def)

lemma u32_from_usize_eq_0 [simp]: "u32_from_usize n = 0 \<longleftrightarrow> n = 0"
  by (simp add: u32_from_usize_def u32_max_def)

lemma u32_saturating_add_eq_0 [simp]: "u32_saturating_add a b = 0 \<longleftrightarrow> a = 0 \<and> b = 0"
  by (auto simp: u32_saturating_add_def u32_max_def min_def split: if_splits)

text \<open>Evaluation compares through \<open>int\<close>: natural numbers compute in unary.\<close>

lemma u32_from_usize_code [code]: "u32_from_usize n = (if int n \<le> 4294967295 then n else u32_max)"
  by (auto simp: u32_from_usize_def u32_max_def)

lemma u32_saturating_add_code [code]:
  "u32_saturating_add a b = (if int a + int b \<le> 4294967295 then a + b else u32_max)"
  by (auto simp: u32_saturating_add_def u32_max_def)

section \<open>Decimal text\<close>

text \<open>What \<open>to_string\<close> and \<open>{}\<close> print for an unsigned integer.\<close>

definition digit_char :: "nat \<Rightarrow> char" where
  "digit_char d = char_of (48 + d)"

fun show_nat :: "nat \<Rightarrow> string" where
  "show_nat n = (if n < 10 then [digit_char n] else show_nat (n div 10) @ [digit_char (n mod 10)])"

declare show_nat.simps [simp del]

definition digit_val :: "char \<Rightarrow> nat" where
  "digit_val c = of_char c - 48"

definition is_digit :: "char \<Rightarrow> bool" where
  "is_digit c \<longleftrightarrow> 48 \<le> (of_char c :: nat) \<and> (of_char c :: nat) \<le> 57"

definition read_nat :: "string \<Rightarrow> nat" where
  "read_nat s = foldl (\<lambda>n c. 10 * n + digit_val c) 0 s"

lemma of_char_digit: "d < 10 \<Longrightarrow> (of_char (digit_char d) :: nat) = 48 + d"
  by (simp add: digit_char_def)

lemma digit_val_char [simp]: "d < 10 \<Longrightarrow> digit_val (digit_char d) = d"
  by (simp add: digit_val_def of_char_digit)

lemma is_digit_char [simp]: "d < 10 \<Longrightarrow> is_digit (digit_char d)"
  by (simp add: is_digit_def of_char_digit)

lemma read_show_nat [simp]: "read_nat (show_nat n) = n"
proof (induction n rule: show_nat.induct)
  case (1 n)
  show ?case
  proof (cases "n < 10")
    case True
    then show ?thesis by (subst show_nat.simps) (simp add: read_nat_def)
  next
    case False
    with 1 have "foldl (\<lambda>n c. 10 * n + digit_val c) 0 (show_nat (n div 10)) = n div 10"
      by (simp add: read_nat_def)
    with False show ?thesis by (subst show_nat.simps) (simp add: read_nat_def)
  qed
qed

lemma show_nat_inj [simp]: "show_nat m = show_nat n \<longleftrightarrow> m = n"
  by (metis read_show_nat)

lemma show_nat_digits: "c \<in> set (show_nat n) \<Longrightarrow> is_digit c"
proof (induction n rule: show_nat.induct)
  case (1 n)
  then show ?case
    by (cases "n < 10") (auto simp: show_nat.simps [of n])
qed

lemma show_nat_nonempty [simp]: "show_nat n \<noteq> []"
  by (subst show_nat.simps) simp

section \<open>Hexadecimal text\<close>

definition hex_char :: "nat \<Rightarrow> char" where
  "hex_char d = (if d < 10 then char_of (48 + d) else char_of (87 + d))"

text \<open>\<open>{:016x}\<close>\<close>

definition hex16 :: "u64 \<Rightarrow> string" where
  "hex16 w = map (\<lambda>i. hex_char (unat (drop_bit (4 * i) w AND 0xf))) (rev [0..<16])"

lemma of_char_hex: "d < 16 \<Longrightarrow> (of_char (hex_char d) :: nat) = (if d < 10 then 48 + d else 87 + d)"
  by (simp add: hex_char_def)

lemma hex_char_inj: "a < 16 \<Longrightarrow> b < 16 \<Longrightarrow> hex_char a = hex_char b \<longleftrightarrow> a = b"
proof
  assume ab: "a < 16" "b < 16" and "hex_char a = hex_char b"
  then have "(of_char (hex_char a) :: nat) = of_char (hex_char b)" by simp
  with ab show "a = b" by (simp add: of_char_hex split: if_splits)
qed simp

section \<open>Ordered maps: \<open>BTreeMap\<close>\<close>

type_synonym ('k, 'v) btree = "('k \<times> 'v) list"

fun bt_insert :: "'k::linorder \<Rightarrow> 'v \<Rightarrow> ('k, 'v) btree \<Rightarrow> ('k, 'v) btree" where
  "bt_insert k v [] = [(k, v)]"
| "bt_insert k v ((k', v') # m) =
     (if k < k' then (k, v) # (k', v') # m
      else if k = k' then (k, v) # m
      else (k', v') # bt_insert k v m)"

definition bt_get :: "('k, 'v) btree \<Rightarrow> 'k \<Rightarrow> 'v option" where
  "bt_get m k = map_of m k"

definition bt_keys :: "('k, 'v) btree \<Rightarrow> 'k list" where
  "bt_keys m = map fst m"

definition bt_values :: "('k, 'v) btree \<Rightarrow> 'v list" where
  "bt_values m = map snd m"

definition bt_remove :: "'k \<Rightarrow> ('k, 'v) btree \<Rightarrow> ('k, 'v) btree" where
  "bt_remove k m = filter (\<lambda>kv. fst kv \<noteq> k) m"

text \<open>\<open>get_mut\<close> followed by an assignment: the entry is changed in place, an absent key is left alone.\<close>

definition bt_modify :: "'k \<Rightarrow> ('v \<Rightarrow> 'v) \<Rightarrow> ('k, 'v) btree \<Rightarrow> ('k, 'v) btree" where
  "bt_modify k f m = map (\<lambda>(k', v). (k', if k' = k then f v else v)) m"

text \<open>\<open>entry(k).or_default().push(x)\<close> on a map of vectors.\<close>

definition bt_push :: "'k::linorder \<Rightarrow> 'v \<Rightarrow> ('k, 'v list) btree \<Rightarrow> ('k, 'v list) btree" where
  "bt_push k x m = bt_insert k ((case bt_get m k of Some xs \<Rightarrow> xs | None \<Rightarrow> []) @ [x]) m"

definition bt_ok :: "('k::linorder, 'v) btree \<Rightarrow> bool" where
  "bt_ok m \<longleftrightarrow> sorted_wrt (<) (map fst m)"

named_theorems bt_simps \<open>lookup laws of the ordered maps\<close>

lemma bt_ok_Nil [simp]: "bt_ok []"
  by (simp add: bt_ok_def)

lemma bt_ok_Cons: "bt_ok (kv # m) \<longleftrightarrow> (\<forall>k \<in> fst ` set m. fst kv < k) \<and> bt_ok m"
  by (auto simp: bt_ok_def)

lemma bt_insert_keys: "fst ` set (bt_insert k v m) = insert k (fst ` set m)"
  by (induction k v m rule: bt_insert.induct) auto

lemma bt_ok_insert [simp]: "bt_ok m \<Longrightarrow> bt_ok (bt_insert k v m)"
proof (induction k v m rule: bt_insert.induct)
  case (1 k v)
  then show ?case by (simp add: bt_ok_Cons)
next
  case (2 k v k' v' m)
  then show ?case
    by (auto simp: bt_ok_Cons bt_insert_keys)
qed

lemma bt_get_Nil [bt_simps, simp]: "bt_get [] k = None"
  by (simp add: bt_get_def)

lemma bt_get_Cons [bt_simps]: "bt_get ((k', v) # m) k = (if k = k' then Some v else bt_get m k)"
  by (simp add: bt_get_def)

lemma bt_get_insert [bt_simps, simp]:
  "bt_ok m \<Longrightarrow> bt_get (bt_insert k v m) k' = (if k' = k then Some v else bt_get m k')"
proof (induction k v m rule: bt_insert.induct)
  case (1 k v)
  then show ?case by (simp add: bt_get_def)
next
  case (2 k v k1 v1 m)
  then show ?case
    by (auto simp: bt_ok_Cons bt_get_def)
qed

lemma bt_keys_distinct: "bt_ok m \<Longrightarrow> distinct (map fst m)"
  by (induction m) (auto simp: bt_ok_Cons)

lemma bt_keys_sorted: "bt_ok m \<Longrightarrow> sorted (map fst m)"
  by (induction m) (auto simp: bt_ok_Cons less_imp_le)

lemma bt_get_Some_iff: "bt_ok m \<Longrightarrow> bt_get m k = Some v \<longleftrightarrow> (k, v) \<in> set m"
  by (auto simp: bt_get_def bt_keys_distinct)

lemma bt_get_None_iff: "bt_get m k = None \<longleftrightarrow> k \<notin> fst ` set m"
  by (simp add: bt_get_def map_of_eq_None_iff)

lemma bt_get_in_set: "bt_get m k = Some v \<Longrightarrow> (k, v) \<in> set m"
  by (simp add: bt_get_def map_of_SomeD)

lemma bt_modify_keys [simp]: "map fst (bt_modify k f m) = map fst m"
  by (induction m) (auto simp: bt_modify_def)

lemma bt_ok_modify [simp]: "bt_ok (bt_modify k f m) = bt_ok m"
  by (simp add: bt_ok_def)

lemma bt_get_modify [bt_simps]:
  "bt_get (bt_modify k f m) k' = (if k' = k then map_option f (bt_get m k) else bt_get m k')"
  by (induction m) (auto simp: bt_get_def bt_modify_def)

lemma length_bt_modify [simp]: "length (bt_modify k f m) = length m"
  by (simp add: bt_modify_def)

lemma bt_ok_push [simp]: "bt_ok m \<Longrightarrow> bt_ok (bt_push k x m)"
  by (simp add: bt_push_def)

lemma bt_get_push [bt_simps]:
  "bt_ok m \<Longrightarrow> bt_get (bt_push k x m) k' =
     (if k' = k then Some ((case bt_get m k of Some xs \<Rightarrow> xs | None \<Rightarrow> []) @ [x]) else bt_get m k')"
  by (simp add: bt_push_def)

lemma bt_get_remove [bt_simps]: "bt_get (bt_remove k m) k' = (if k' = k then None else bt_get m k')"
  by (induction m) (auto simp: bt_get_def bt_remove_def)

lemma bt_ok_remove [simp]: "bt_ok m \<Longrightarrow> bt_ok (bt_remove k m)"
  by (induction m) (auto simp: bt_ok_Cons bt_remove_def)

lemma bt_keys_conv [simp]: "set (bt_keys m) = fst ` set m"
  by (simp add: bt_keys_def)

lemma bt_get_Some_key: "bt_get m k = Some v \<Longrightarrow> k \<in> fst ` set m"
  by (metis bt_get_None_iff option.distinct(1))

section \<open>Ordered sets: \<open>BTreeSet\<close>, and \<open>sort\<close> with \<open>dedup\<close>\<close>

abbreviation bs_insert :: "'a::linorder \<Rightarrow> 'a list \<Rightarrow> 'a list" where
  "bs_insert \<equiv> List.insort_insert"

definition bs_ok :: "'a::linorder list \<Rightarrow> bool" where
  "bs_ok s \<longleftrightarrow> sorted s \<and> distinct s"

lemma bs_ok_Nil [simp]: "bs_ok []"
  by (simp add: bs_ok_def)

lemma bs_ok_insert [simp]: "bs_ok s \<Longrightarrow> bs_ok (bs_insert x s)"
  by (simp add: bs_ok_def sorted_insort_insert distinct_insort_insert)

lemma bs_insert_set [simp]: "set (bs_insert x s) = insert x (set s)"
  by (simp add: set_insort_insert)

lemma bs_ok_fold_insert: "bs_ok s \<Longrightarrow> bs_ok (fold bs_insert xs s)"
  by (induction xs arbitrary: s) auto

lemma set_fold_bs_insert: "set (fold bs_insert xs s) = set xs \<union> set s"
  by (induction xs arbitrary: s) auto

lemma length_bs: "bs_ok s \<Longrightarrow> length s = card (set s)"
  by (simp add: bs_ok_def distinct_card)

text \<open>\<open>v.sort(); v.dedup()\<close>\<close>

definition sort_dedup :: "'a::linorder list \<Rightarrow> 'a list" where
  "sort_dedup xs = remdups_adj (sort xs)"

lemma set_sort_dedup [simp]: "set (sort_dedup xs) = set xs"
  by (simp add: sort_dedup_def)

lemma distinct_remdups_adj_sorted: "sorted xs \<Longrightarrow> distinct (remdups_adj xs)"
  by (induction xs rule: remdups_adj.induct) (auto simp: less_le)

lemma distinct_sort_dedup [simp]: "distinct (sort_dedup xs)"
  by (simp add: sort_dedup_def distinct_remdups_adj_sorted)

lemma length_sort_dedup: "length (sort_dedup xs) = card (set xs)"
  by (metis distinct_card distinct_sort_dedup set_sort_dedup)

lemma sort_dedup_Nil [simp]: "sort_dedup [] = []"
  by (simp add: sort_dedup_def)

lemma sort_dedup_eq_Nil [simp]: "sort_dedup xs = [] \<longleftrightarrow> xs = []"
  by (metis set_empty set_sort_dedup)

section \<open>Interface: a keyed store\<close>

text \<open>
  What the clients of an ordered map rely on: a lookup after an insert, and the invariant.  The
  client lemmas are proved once here, for the fold that fills a map from a list.
\<close>

locale keyed_store =
  fixes get :: "'m \<Rightarrow> 'k \<Rightarrow> 'v option"
    and ins :: "'k \<Rightarrow> 'v \<Rightarrow> 'm \<Rightarrow> 'm"
    and ok :: "'m \<Rightarrow> bool"
  assumes ok_ins: "ok m \<Longrightarrow> ok (ins k v m)"
    and get_ins: "ok m \<Longrightarrow> get (ins k v m) k' = (if k' = k then Some v else get m k')"
begin

lemma ok_fold: "ok m \<Longrightarrow> ok (fold (\<lambda>x. ins (f x) (g x)) xs m)"
  by (induction xs arbitrary: m) (auto simp: ok_ins)

lemma get_fold_notin:
  "ok m \<Longrightarrow> k \<notin> f ` set xs \<Longrightarrow> get (fold (\<lambda>x. ins (f x) (g x)) xs m) k = get m k"
  by (induction xs arbitrary: m) (auto simp: ok_ins get_ins)

lemma get_fold_in:
  assumes "ok m" "inj_on f (set xs)" "x \<in> set xs"
  shows "get (fold (\<lambda>x. ins (f x) (g x)) xs m) (f x) = Some (g x)"
  using assms
proof (induction xs arbitrary: m)
  case Nil
  then show ?case by simp
next
  case (Cons y ys)
  show ?case
  proof (cases "x \<in> set ys")
    case True
    with Cons show ?thesis by (auto simp: ok_ins)
  next
    case False
    with Cons.prems have "x = y" and "f x \<notin> f ` set ys"
      by (auto simp: inj_on_def)
    then show ?thesis
      using Cons.prems by (simp add: get_fold_notin ok_ins get_ins)
  qed
qed

lemma get_fold_Some:
  "ok m \<Longrightarrow> get (fold (\<lambda>x. ins (f x) (g x)) xs m) k = Some v \<Longrightarrow>
     get m k = Some v \<or> (\<exists>x \<in> set xs. f x = k \<and> g x = v)"
proof (induction xs arbitrary: m)
  case Nil
  then show ?case by simp
next
  case (Cons x xs)
  from Cons.prems have "get (fold (\<lambda>x. ins (f x) (g x)) xs (ins (f x) (g x) m)) k = Some v"
    by simp
  from Cons.IH [OF ok_ins [OF Cons.prems(1)] this] show ?case
    using Cons.prems(1) by (auto simp: get_ins split: if_splits)
qed

end

interpretation bt: keyed_store bt_get bt_insert bt_ok
  by unfold_locales (auto simp: bt_simps)

section \<open>Interface: a state machine with an invariant\<close>

text \<open>
  Several components are driven by a sequence of operations.  A machine is a step function and a
  predicate that every step keeps; runs are \<open>fold\<close>s.
\<close>

locale invariant_machine =
  fixes step :: "'op \<Rightarrow> 's \<Rightarrow> 's"
    and inv :: "'s \<Rightarrow> bool"
  assumes step_inv: "inv s \<Longrightarrow> inv (step op s)"
begin

lemma run_inv: "inv s \<Longrightarrow> inv (fold step ops s)"
  by (induction ops arbitrary: s) (auto simp: step_inv)

lemma run_prefix_inv: "inv s \<Longrightarrow> inv (fold step (take n ops) s)"
  by (rule run_inv)

lemma run_frame:
  assumes frame: "\<And>op s. inv s \<Longrightarrow> f (step op s) = f s" and "inv s"
  shows "f (fold step ops s) = f s"
  using assms(2) by (induction ops arbitrary: s) (simp_all add: frame step_inv)

lemma run_mono:
  assumes mono: "\<And>op s. inv s \<Longrightarrow> r s (step op s)"
    and refl: "\<And>s. r s s"
    and trans: "\<And>a b c. r a b \<Longrightarrow> r b c \<Longrightarrow> r a c"
    and "inv s"
  shows "r s (fold step ops s)"
  using \<open>inv s\<close>
proof (induction ops arbitrary: s)
  case Nil
  then show ?case by (simp add: refl)
next
  case (Cons op ops)
  have "r s (step op s)" by (rule mono [OF Cons.prems])
  moreover have "r (step op s) (fold step ops (step op s))"
    by (rule Cons.IH) (rule step_inv [OF Cons.prems])
  ultimately show ?case by (simp add: trans)
qed

end

end
