(* ===== verification/Vocabulary.thy ===== *)
theory Vocabulary
  imports Prelude
begin

text \<open>
  The data every component of the engine speaks: node identities (the FNV-1a hash of the node
  name, \<open>crates/core/src/handle.rs\<close>), terminal states (\<open>context.rs\<close>), trigger rules, receive modes
  and edges (\<open>binding.rs\<close>), execution classes (\<open>task.rs\<close>), and node policies
  (\<open>assembly.rs\<close>).  A \<open>Duration\<close> is its total number of nanoseconds as a \<open>u128\<close>, which is
  what \<open>Duration::as_nanos\<close> returns; a policy's backoff factor is an \<open>f64\<close> and is kept as its bit
  pattern, which is how the code compares and encodes it.
\<close>

section \<open>Node identities\<close>

type_synonym node_id = u64

definition FNV_OFFSET :: u64 where "FNV_OFFSET = 0xcbf29ce484222325"
definition FNV_PRIME :: u64 where "FNV_PRIME = 0x00000100000001b3"

definition fnv_step :: "u64 \<Rightarrow> u8 \<Rightarrow> u64" where
  "fnv_step hash b = (hash XOR ucast b) * FNV_PRIME"

definition as_bytes :: "string \<Rightarrow> u8 list" where
  "as_bytes s = map of_char s"

text \<open>\<open>NodeId::from_name\<close>: the loop over the bytes of the name.\<close>

definition from_name :: "string \<Rightarrow> node_id" where
  "from_name name = foldl fnv_step FNV_OFFSET (as_bytes name)"

section \<open>States, rules, modes and edges\<close>

datatype TerminalState =
    Succeeded | Failed | TimedOut | Skipped | UpstreamSkipped | UpstreamFailed
  | Cancelled | Abandoned | SatisfiedFromPrior

datatype TriggerRule = AllSucceeded | AllTerminal | AnyFailed

datatype ReceiveMode = Owned | Shared | CloneOnRead

datatype ExecutionClass = AwaitBound | Blocking | Compute

datatype FailureMode = ContinueIndependent | StopOnFirstFailure

datatype DurableWitness = Present | Absent

record DataEdge =
  de_upstream :: node_id
  de_position :: nat
  de_mode :: ReceiveMode

record OrderingEdge =
  oe_upstream :: node_id

section \<open>Policies\<close>

type_synonym duration = u128

text \<open>\<open>Duration::MAX\<close>: \<open>u64::MAX\<close> seconds and 999999999 nanoseconds.\<close>

definition DURATION_MAX :: duration where
  "DURATION_MAX = 18446744073709551615 * 1000000000 + 999999999"

record Backoff =
  bo_base :: duration
  bo_factor :: u64
  bo_cap :: duration

record CostVector =
  cv_working_memory :: u64
  cv_output_residency :: u64
  cv_blocking_threads :: u32
  cv_compute_threads :: u32

definition default_cost :: CostVector where
  "default_cost = \<lparr>cv_working_memory = 0, cv_output_residency = 0,
     cv_blocking_threads = 0, cv_compute_threads = 0\<rparr>"

definition cost_is_zero :: "CostVector \<Rightarrow> bool" where
  "cost_is_zero c \<longleftrightarrow> cv_working_memory c = 0 \<and> cv_output_residency c = 0
     \<and> cv_blocking_threads c = 0 \<and> cv_compute_threads c = 0"

record Placement =
  pl_cpu :: "string option"
  pl_memory :: "string option"
  pl_node_selectors :: "(string \<times> string) list"
  pl_tolerations :: "string list"

record NodePolicy =
  np_durable :: bool
  np_retained :: bool
  np_retries :: u32
  np_backoff :: Backoff
  np_timeout :: "duration option"
  np_teardown :: bool
  np_cost :: CostVector
  np_class_override :: "ExecutionClass option"
  np_placement :: "Placement option"

text \<open>The factor is the bit pattern of \<open>2.0\<close>; the base is 100 milliseconds.\<close>

definition default_backoff :: Backoff where
  "default_backoff = \<lparr>bo_base = 100000000, bo_factor = 0x4000000000000000, bo_cap = DURATION_MAX\<rparr>"

definition default_policy :: NodePolicy where
  "default_policy = \<lparr>np_durable = False, np_retained = False, np_retries = 0,
     np_backoff = default_backoff, np_timeout = None, np_teardown = False,
     np_cost = default_cost, np_class_override = None, np_placement = None\<rparr>"

section \<open>FNV-1a separates single-byte changes\<close>

definition FNV_PRIME_INV :: u64 where "FNV_PRIME_INV = 0xce965057aff6957b"

lemma fnv_prime_inverse: "FNV_PRIME * FNV_PRIME_INV = 1"
  by (simp add: FNV_PRIME_def FNV_PRIME_INV_def)

lemma fnv_prime_mult_inj: "a * FNV_PRIME = b * FNV_PRIME \<longleftrightarrow> a = b"
proof
  assume "a * FNV_PRIME = b * FNV_PRIME"
  then have "a * (FNV_PRIME * FNV_PRIME_INV) = b * (FNV_PRIME * FNV_PRIME_INV)"
    by (metis mult.assoc)
  then show "a = b" by (simp add: fnv_prime_inverse)
qed simp

lemma xor_right_inj: "(a XOR c = b XOR c) \<longleftrightarrow> a = (b :: u64)"
proof
  assume "a XOR c = b XOR c"
  then have "(a XOR c) XOR c = (b XOR c) XOR c" by simp
  then show "a = b" by (simp add: xor.assoc)
qed simp

lemma ucast_u8_u64_inj: "(ucast b :: u64) = ucast b' \<longleftrightarrow> b = (b' :: u8)"
proof
  assume "(ucast b :: u64) = ucast b'"
  then have "(ucast (ucast b :: u64) :: u8) = ucast (ucast b' :: u64)" by simp
  then show "b = b'" by (simp add: ucast_up_ucast_id is_up)
qed simp

lemma fnv_step_inj_hash: "fnv_step h b = fnv_step h' b \<longleftrightarrow> h = h'"
  by (simp add: fnv_step_def fnv_prime_mult_inj xor_right_inj)

lemma fnv_step_inj_byte: "fnv_step h b = fnv_step h b' \<longleftrightarrow> b = b'"
proof -
  have "(h XOR ucast b = h XOR ucast b') \<longleftrightarrow> (ucast b :: u64) = ucast b'"
    using xor_right_inj [of "ucast b" h "ucast b'"] by (simp add: xor.commute)
  then show ?thesis by (simp add: fnv_step_def fnv_prime_mult_inj ucast_u8_u64_inj)
qed

lemma foldl_fnv_inj: "foldl fnv_step h s = foldl fnv_step h' s \<longleftrightarrow> h = h'"
  by (induction s arbitrary: h h') (simp_all add: fnv_step_inj_hash)

lemma of_char_u8_inj: "(of_char c :: u8) = of_char d \<longleftrightarrow> c = d"
proof
  assume "(of_char c :: u8) = of_char d"
  then have "unat (of_nat (of_char c) :: u8) = unat (of_nat (of_char d) :: u8)"
    by (simp add: of_nat_of_char)
  then have "(of_char c :: nat) mod 256 = of_char d mod 256"
    by (simp add: unat_of_nat)
  then show "c = d" by simp
qed simp

lemma as_bytes_inj [simp]: "as_bytes s = as_bytes t \<longleftrightarrow> s = t"
proof
  assume "as_bytes s = as_bytes t"
  moreover have "inj (of_char :: char \<Rightarrow> u8)"
    by (rule injI) (simp add: of_char_u8_inj)
  ultimately show "s = t"
    by (simp add: as_bytes_def inj_map_eq_map)
qed simp

lemma length_as_bytes [simp]: "length (as_bytes s) = length s"
  by (simp add: as_bytes_def)

text \<open>
  Two names that differ in exactly one byte never share an identity: the hash step is a
  bijection of the running hash, so the difference survives every later byte.
\<close>

theorem from_name_single_byte:
  assumes "c \<noteq> d"
  shows "from_name (p @ c # s) \<noteq> from_name (p @ d # s)"
  using assms
  by (simp add: from_name_def as_bytes_def foldl_fnv_inj fnv_step_inj_byte of_char_u8_inj)

theorem from_name_single_byte_witness:
  "from_name (''loa'' @ CHR ''d'' # ''_v1'') \<noteq> from_name (''loa'' @ CHR ''f'' # ''_v1'')"
  by (rule from_name_single_byte) simp

end
