(* ===== verification/Slot.thy ===== *)
theory Slot
  imports Prelude Vocabulary
begin

text \<open>
  The residency ledger and the output slot (\<open>crates/core/src/slot.rs\<close>): a once-writable container
  with consumer leases, whose value is released when every consumer is terminal and returned.  A slot
  is shared behind a mutex; the model is the state under the lock, one function per method, and the
  ledger (an object shared by all slots and by admission) as an explicit second state.
  The lease counters are \<open>u32\<close> in the code; here they are the numbers of leases they count.  The two agree
  as long as fewer than \<open>2 ^ 32\<close> leases are taken out on one slot.
\<close>

section \<open>The residency ledger\<close>

record ResidencyLedger =
  rl_current :: u64
  rl_peak :: u64

definition ledger_new :: ResidencyLedger where
  "ledger_new = \<lparr>rl_current = 0, rl_peak = 0\<rparr>"

definition ledger_charge :: "u64 \<Rightarrow> ResidencyLedger \<Rightarrow> ResidencyLedger" where
  "ledger_charge bytes l =
     (let new = rl_current l + bytes in l\<lparr>rl_current := new, rl_peak := max (rl_peak l) new\<rparr>)"

definition ledger_release :: "u64 \<Rightarrow> ResidencyLedger \<Rightarrow> ResidencyLedger" where
  "ledger_release bytes l = l\<lparr>rl_current := rl_current l - bytes\<rparr>"

section \<open>The slot\<close>

datatype 'v Content = Empty | Filled 'v | Released

text \<open>
  \<open>sl_clones\<close> is the number of live \<open>Arc\<close> clones handed out by reads: the strong count beyond the
  slot's own reference, which \<open>Arc::try_unwrap\<close> inspects.
\<close>

record 'v SlotInner =
  sl_node :: node_id
  sl_name :: string
  sl_retained :: bool
  sl_residency :: u64
  sl_content :: "'v Content"
  sl_clones :: nat
  sl_open_leases :: nat
  sl_terminal_count :: nat
  sl_returned_count :: nat
  sl_total_consumers :: nat
  sl_residency_released :: bool

datatype SlotPanic =
    ReadBeforeFill | ReadAfterRelease | TakenBeforeFill | AlreadyConsumed | MoreThanOneHolder

datatype RedeemError = RedeemReleased | NeverFilled

definition slot_new :: "node_id \<Rightarrow> string \<Rightarrow> nat \<Rightarrow> bool \<Rightarrow> u64 \<Rightarrow> 'v SlotInner" where
  "slot_new node name consumers retained residency =
     \<lparr>sl_node = node, sl_name = name, sl_retained = retained, sl_residency = residency,
      sl_content = Empty, sl_clones = 0, sl_open_leases = 0, sl_terminal_count = 0, sl_returned_count = 0,
      sl_total_consumers = consumers, sl_residency_released = False\<rparr>"

text \<open>\<open>fill\<close>: the second fill is refused and hands the value back.\<close>

definition fill ::
  "'v \<Rightarrow> 'v SlotInner \<times> ResidencyLedger \<Rightarrow> ('v + unit) \<times> 'v SlotInner \<times> ResidencyLedger" where
  "fill v = (\<lambda>(s, l).
     (case sl_content s of
        Empty \<Rightarrow> (Inr (), s\<lparr>sl_content := Filled v\<rparr>, ledger_charge (sl_residency s) l)
      | _ \<Rightarrow> (Inl v, s, l)))"

definition is_filled :: "'v SlotInner \<Rightarrow> bool" where
  "is_filled s = (case sl_content s of Filled _ \<Rightarrow> True | _ \<Rightarrow> False)"

definition release_residency :: "'v SlotInner \<times> ResidencyLedger \<Rightarrow> 'v SlotInner \<times> ResidencyLedger" where
  "release_residency = (\<lambda>(s, l).
     if \<not> sl_residency_released s
     then (s\<lparr>sl_residency_released := True\<rparr>, ledger_release (sl_residency s) l) else (s, l))"

definition reclaim :: "'v SlotInner \<times> ResidencyLedger \<Rightarrow> 'v SlotInner \<times> ResidencyLedger" where
  "reclaim = (\<lambda>(s, l). release_residency (s\<lparr>sl_content := Released\<rparr>, l))"

definition try_release :: "'v SlotInner \<times> ResidencyLedger \<Rightarrow> 'v SlotInner \<times> ResidencyLedger" where
  "try_release = (\<lambda>(s, l).
     if sl_retained s then (s, l)
     else if \<not> is_filled s then (s, l)
     else
       (let all_terminal = (sl_terminal_count s \<ge> sl_total_consumers s);
            all_returned = (sl_returned_count s \<ge> sl_total_consumers s \<and> sl_open_leases s = 0)
        in if all_terminal \<and> all_returned then reclaim (s, l) else (s, l)))"

text \<open>\<open>read_arc\<close>, behind \<open>SlotRef::read\<close> and \<open>ConsumerLease::read\<close>: a clone of the \<open>Arc\<close>, or a panic.\<close>

definition read_arc :: "'v SlotInner \<Rightarrow> (SlotPanic + 'v) \<times> 'v SlotInner" where
  "read_arc s =
     (case sl_content s of
        Filled v \<Rightarrow> (Inr v, s\<lparr>sl_clones := sl_clones s + 1\<rparr>)
      | Empty \<Rightarrow> (Inl ReadBeforeFill, s)
      | Released \<Rightarrow> (Inl ReadAfterRelease, s))"

text \<open>\<open>clone_value\<close>: the \<open>Arc\<close> clone is gone when the call returns.\<close>

definition clone_value :: "'v SlotInner \<Rightarrow> SlotPanic + 'v" where
  "clone_value s = fst (read_arc s)"

definition drop_clone :: "'v SlotInner \<Rightarrow> 'v SlotInner" where
  "drop_clone s = s\<lparr>sl_clones := sl_clones s - 1\<rparr>"

text \<open>A lease is its \<open>marked_terminal\<close> flag.\<close>

definition enter :: "'v SlotInner \<Rightarrow> bool \<times> 'v SlotInner" where
  "enter s = (False, s\<lparr>sl_open_leases := sl_open_leases s + 1\<rparr>)"

definition mark_terminal :: "bool \<Rightarrow> 'v SlotInner \<Rightarrow> bool \<times> 'v SlotInner" where
  "mark_terminal marked s =
     (if \<not> marked then (True, s\<lparr>sl_terminal_count := sl_terminal_count s + 1\<rparr>) else (marked, s))"

definition lease_drop :: "bool \<Rightarrow> 'v SlotInner \<times> ResidencyLedger \<Rightarrow> 'v SlotInner \<times> ResidencyLedger" where
  "lease_drop marked = (\<lambda>(s, l).
     (let s = s\<lparr>sl_open_leases := sl_open_leases s - 1, sl_returned_count := sl_returned_count s + 1\<rparr>;
          s = (if \<not> marked then s\<lparr>sl_terminal_count := sl_terminal_count s + 1\<rparr> else s)
      in try_release (s, l)))"

text \<open>
  \<open>take\<close> consumes the lease: the content is replaced first, the value is unwrapped if it has no other
  holder, and the lease is dropped on every path, panics included.
\<close>

definition take_value ::
  "bool \<Rightarrow> 'v SlotInner \<times> ResidencyLedger \<Rightarrow> (SlotPanic + 'v) \<times> 'v SlotInner \<times> ResidencyLedger" where
  "take_value marked = (\<lambda>(s, l).
     (let taken = sl_content s; s = s\<lparr>sl_content := Released\<rparr> in
      case taken of
        Filled v \<Rightarrow>
          if sl_clones s > 0 then (Inl MoreThanOneHolder, lease_drop marked (s, l))
          else
            (let (s, l) = release_residency (s, l);
                 s = (if \<not> marked then s\<lparr>sl_terminal_count := sl_terminal_count s + 1\<rparr> else s)
             in (Inr v, lease_drop True (s, l)))
      | Empty \<Rightarrow> (Inl TakenBeforeFill, lease_drop marked (s, l))
      | Released \<Rightarrow> (Inl AlreadyConsumed, lease_drop marked (s, l))))"

definition redeem ::
  "'v SlotInner \<times> ResidencyLedger \<Rightarrow> (SlotPanic + RedeemError + 'v) \<times> 'v SlotInner \<times> ResidencyLedger" where
  "redeem = (\<lambda>(s, l).
     (let taken = sl_content s; s' = s\<lparr>sl_content := Released\<rparr> in
      case taken of
        Filled v \<Rightarrow>
          if sl_clones s > 0 then (Inl MoreThanOneHolder, s', l)
          else (Inr (Inr v), release_residency (s', l))
      | Empty \<Rightarrow> (Inr (Inl NeverFilled), s'\<lparr>sl_content := Empty\<rparr>, l)
      | Released \<Rightarrow> (Inr (Inl RedeemReleased), s', l)))"

section \<open>A slot in use\<close>

datatype 'v slot_op =
    OpFill 'v | OpEnter | OpRead | OpDropClone | OpMark nat | OpDropLease nat | OpTake nat | OpRedeem

text \<open>The slot, the ledger, and the flags of the live leases.\<close>

type_synonym 'v slot_sys = "'v SlotInner \<times> ResidencyLedger \<times> bool list"

definition drop_nth :: "nat \<Rightarrow> 'a list \<Rightarrow> 'a list" where
  "drop_nth k xs = take k xs @ drop (Suc k) xs"

fun slot_step :: "'v slot_op \<Rightarrow> 'v slot_sys \<Rightarrow> 'v slot_sys" where
  "slot_step (OpFill v) (s, l, ms) = (case fill v (s, l) of (_, s', l') \<Rightarrow> (s', l', ms))"
| "slot_step OpEnter (s, l, ms) = (case enter s of (m, s') \<Rightarrow> (s', l, ms @ [m]))"
| "slot_step OpRead (s, l, ms) = (case read_arc s of (_, s') \<Rightarrow> (s', l, ms))"
| "slot_step OpDropClone (s, l, ms) = (drop_clone s, l, ms)"
| "slot_step (OpMark k) (s, l, ms) =
     (if k < length ms then (case mark_terminal (ms ! k) s of (m, s') \<Rightarrow> (s', l, ms[k := m])) else (s, l, ms))"
| "slot_step (OpDropLease k) (s, l, ms) =
     (if k < length ms then (case lease_drop (ms ! k) (s, l) of (s', l') \<Rightarrow> (s', l', drop_nth k ms))
      else (s, l, ms))"
| "slot_step (OpTake k) (s, l, ms) =
     (if k < length ms then (case take_value (ms ! k) (s, l) of (_, s', l') \<Rightarrow> (s', l', drop_nth k ms))
      else (s, l, ms))"
| "slot_step OpRedeem (s, l, ms) = (case redeem (s, l) of (_, s', l') \<Rightarrow> (s', l', ms))"

definition marked_count :: "bool list \<Rightarrow> nat" where
  "marked_count ms = length (filter id ms)"

text \<open>The bookkeeping invariant: open leases and counters agree with the live leases.\<close>

definition slot_inv :: "'v slot_sys \<Rightarrow> bool" where
  "slot_inv = (\<lambda>(s, l, ms).
     sl_open_leases s = length ms \<and> sl_terminal_count s = sl_returned_count s + marked_count ms)"

lemma marked_count_simps [simp]:
  "marked_count [] = 0" "marked_count (m # ms) = (if m then Suc (marked_count ms) else marked_count ms)"
  "marked_count (ms @ ns) = marked_count ms + marked_count ns"
  by (simp_all add: marked_count_def)

lemma marked_count_drop_nth:
  "k < length ms \<Longrightarrow> marked_count ms = marked_count (drop_nth k ms) + (if ms ! k then 1 else 0)"
  by (subst id_take_nth_drop [of k ms]) (simp_all add: drop_nth_def del: append_take_drop_id)

lemma marked_count_update:
  "k < length ms \<Longrightarrow> \<not> ms ! k \<Longrightarrow> marked_count (ms[k := True]) = Suc (marked_count ms)"
  using marked_count_drop_nth [of k ms]
  by (simp add: upd_conv_take_nth_drop drop_nth_def)

lemma length_drop_nth [simp]: "k < length ms \<Longrightarrow> length (drop_nth k ms) = length ms - 1"
  by (simp add: drop_nth_def)

lemma drop_nth_Nil [simp]: "k < length ms \<Longrightarrow> drop_nth k ms = [] \<longleftrightarrow> length ms \<le> Suc 0"
  using length_drop_nth [of k ms] by (auto simp flip: length_0_conv)

lemmas slot_defs = fill_def enter_def read_arc_def drop_clone_def mark_terminal_def lease_drop_def
  take_value_def redeem_def try_release_def reclaim_def release_residency_def is_filled_def
  ledger_charge_def ledger_release_def Let_def

lemma slot_step_inv:
  assumes "slot_inv sys" shows "slot_inv (slot_step op sys)"
proof -
  obtain s l ms where sys: "sys = (s, l, ms)" by (cases sys) auto
  show ?thesis
  proof (cases op)
    case (OpMark k)
    show ?thesis
    proof (cases "k < length ms \<and> \<not> ms ! k")
      case True
      with assms show ?thesis
        by (simp add: sys OpMark slot_inv_def slot_defs marked_count_update split: Content.splits)
    next
      case False
      have "ms ! k \<Longrightarrow> ms[k := True] = ms" using list_update_id [of ms k] by simp
      with False assms show ?thesis
        by (cases "k < length ms") (simp_all add: sys OpMark slot_inv_def slot_defs)
    qed
  next
    case (OpDropLease k)
    with assms marked_count_drop_nth [of k ms] show ?thesis
      by (auto simp: sys slot_inv_def slot_defs split: Content.splits)
  next
    case (OpTake k)
    with assms marked_count_drop_nth [of k ms] show ?thesis
      by (auto simp: sys slot_inv_def slot_defs split: Content.splits)
  qed (use assms in \<open>auto simp: sys slot_inv_def slot_defs split: Content.splits\<close>)
qed

interpretation slot: invariant_machine slot_step slot_inv
  by unfold_locales (rule slot_step_inv)

text \<open>
  A take or a redemption that finds another holder of the value panics after it has emptied the slot,
  and the residency is not given back.
\<close>

fun held_elsewhere :: "'v slot_op \<Rightarrow> 'v slot_sys \<Rightarrow> bool" where
  "held_elsewhere (OpTake k) (s, l, ms) \<longleftrightarrow> k < length ms \<and> fst (take_value (ms ! k) (s, l)) = Inl MoreThanOneHolder"
| "held_elsewhere OpRedeem (s, l, ms) \<longleftrightarrow> fst (redeem (s, l)) = Inl MoreThanOneHolder"
| "held_elsewhere _ _ \<longleftrightarrow> False"

fun slot_leaks :: "'v slot_op list \<Rightarrow> 'v slot_sys \<Rightarrow> bool" where
  "slot_leaks [] sys \<longleftrightarrow> False"
| "slot_leaks (op # ops) sys \<longleftrightarrow> held_elsewhere op sys \<or> slot_leaks ops (slot_step op sys)"

text \<open>What the ledger carries for a slot over a base charge \<open>b\<close>.\<close>

definition residency_books :: "u64 \<Rightarrow> u64 \<Rightarrow> bool \<Rightarrow> 'v slot_sys \<Rightarrow> bool" where
  "residency_books b residency leaked = (\<lambda>(s, l, ms).
     sl_residency s = residency
     \<and> (sl_content s \<noteq> Released \<longrightarrow> \<not> sl_residency_released s \<and> \<not> leaked)
     \<and> rl_current l = b + (if is_filled s \<or> leaked then residency else 0))"

lemma residency_step:
  assumes "residency_books b residency leaked sys"
  shows "residency_books b residency (leaked \<or> held_elsewhere op sys) (slot_step op sys)"
proof -
  obtain s l ms where sys: "sys = (s, l, ms)" by (cases sys) auto
  show ?thesis
    using assms
    by (cases op) (auto simp: sys residency_books_def slot_defs split: Content.splits)
qed

lemma residency_run:
  "residency_books b residency leaked sys \<Longrightarrow> residency_books b residency (leaked \<or> slot_leaks ops sys) (fold slot_step ops sys)"
proof (induction ops arbitrary: leaked sys)
  case (Cons op ops)
  from Cons.IH [OF residency_step [OF Cons.prems, of op]] show ?case by (simp add: disj_assoc)
qed simp

text \<open>
  C35. A slot keeps its books under every sequence of uses, panicking ones included: the open-lease
  count is the number of live leases, a returned lease is a terminal one, and over what the ledger
  carried before it carries the slot's residency exactly while the slot holds its value, once, however
  the value leaves it; the only exception is a take or a redemption that panics because the value has
  another holder, after which the residency is carried for ever.
\<close>

theorem slot_accounting:
  assumes "fold slot_step ops (slot_new node name consumers retained residency, l, []) = (s, l', ms)"
  shows "sl_open_leases s = length ms \<and> sl_terminal_count s = sl_returned_count s + marked_count ms
    \<and> rl_current l' = rl_current l
        + (if is_filled s \<or> slot_leaks ops (slot_new node name consumers retained residency, l, []) then residency else 0)"
proof -
  let ?start = "(slot_new node name consumers retained residency, l, [])"
  have "slot_inv (fold slot_step ops ?start)"
    by (rule slot.run_inv) (simp add: slot_inv_def slot_new_def)
  moreover have "residency_books (rl_current l) residency False ?start"
    by (simp add: residency_books_def slot_new_def is_filled_def)
  from residency_run [OF this, of ops]
  have "residency_books (rl_current l) residency (slot_leaks ops ?start) (fold slot_step ops ?start)" by simp
  ultimately show ?thesis unfolding assms by (simp add: slot_inv_def residency_books_def)
qed

theorem slot_accounting_witness:
  "\<exists>s l ms. fold slot_step [OpFill (7 :: nat), OpEnter, OpTake 0] (slot_new 1 ''a'' 1 False 10, ledger_new, []) = (s, l, ms)
     \<and> ms = [] \<and> sl_open_leases s = 0 \<and> rl_current l = 0"
proof -
  let ?ops = "[OpFill (7 :: nat), OpEnter, OpTake 0]" and ?start = "(slot_new 1 ''a'' 1 False 10, ledger_new, [])"
  obtain s l ms where f: "fold slot_step ?ops ?start = (s, l, ms)" by (cases "fold slot_step ?ops ?start") auto
  have "\<not> is_filled (fst (fold slot_step ?ops ?start)) \<and> \<not> slot_leaks ?ops ?start \<and> snd (snd (fold slot_step ?ops ?start)) = []"
    by code_simp
  then have "\<not> is_filled s" "\<not> slot_leaks ?ops ?start" "ms = []" unfolding f by simp_all
  with slot_accounting [OF f] f show ?thesis by (simp add: ledger_new_def)
qed

fun is_move :: "'v slot_op \<Rightarrow> bool" where
  "is_move (OpTake _) = True"
| "is_move OpRedeem = True"
| "is_move _ = False"

text \<open>
  A live lease pins the value: no read, fill, mark, or return of another lease takes the value out
  of a filled slot as long as a lease is live afterwards; only moving it out (take, redeem) does.
\<close>

theorem lease_pins_value:
  assumes "slot_inv (s, l, ms)" "sl_content s = Filled v" "\<not> is_move op"
    and "slot_step op (s, l, ms) = (s', l', ms')" "ms' \<noteq> []"
  shows "sl_content s' = Filled v"
proof (cases op)
  case (OpDropLease k)
  have "ms' = drop_nth k ms \<or> ms' = ms"
    using assms(4) OpDropLease by (auto split: if_splits prod.splits)
  with assms OpDropLease show ?thesis
    by (cases "k < length ms") (auto simp: slot_inv_def slot_defs drop_nth_def split: if_splits)
qed (use assms in \<open>auto simp: slot_defs split: if_splits\<close>)

definition filled_slot :: "nat slot_sys" where
  "filled_slot = fold slot_step [OpFill 7, OpEnter, OpEnter] (slot_new 1 ''a'' 2 False 10, ledger_new, [])"

theorem lease_pins_value_witness:
  "sl_content (fst (slot_step (OpDropLease 0) filled_slot)) = Filled 7"
proof -
  have init: "slot_inv ((slot_new 1 ''a'' 2 False 10 :: nat SlotInner), ledger_new, [])"
    by (simp add: slot_inv_def slot_new_def ledger_new_def)
  obtain s l ms where f: "filled_slot = (s, l, ms)" by (cases filled_slot) auto
  obtain s' l' ms' where g: "slot_step (OpDropLease 0) (s, l, ms) = (s', l', ms')"
    by (cases "slot_step (OpDropLease 0) (s, l, ms)") auto
  have inv: "slot_inv (s, l, ms)" unfolding f [symmetric] filled_slot_def by (rule slot.run_inv [OF init])
  have "sl_content (fst filled_slot) = Filled 7" by code_simp
  then have filled: "sl_content s = Filled 7" by (simp add: f)
  have "snd (snd (slot_step (OpDropLease 0) filled_slot)) \<noteq> []" by code_simp
  then have live: "ms' \<noteq> []" unfolding f g by simp
  have "sl_content s' = Filled 7" by (rule lease_pins_value [OF inv filled _ g live]) simp
  then show ?thesis unfolding f g by simp
qed

fun first_fill :: "'v slot_op list \<Rightarrow> 'v option" where
  "first_fill [] = None"
| "first_fill (OpFill v # ops) = Some v"
| "first_fill (_ # ops) = first_fill ops"

lemma first_fill_snoc:
  "first_fill (ops @ [op]) = (case first_fill ops of Some v \<Rightarrow> Some v
     | None \<Rightarrow> (case op of OpFill v \<Rightarrow> Some v | _ \<Rightarrow> None))"
proof (induction ops)
  case Nil
  then show ?case by (cases op) simp_all
next
  case (Cons x ops)
  then show ?case by (cases x) simp_all
qed

definition content_from :: "'v slot_op list \<Rightarrow> 'v SlotInner \<Rightarrow> bool" where
  "content_from ops s \<longleftrightarrow> (case sl_content s of
       Empty \<Rightarrow> first_fill ops = None
     | Filled v \<Rightarrow> first_fill ops = Some v
     | Released \<Rightarrow> first_fill ops \<noteq> None \<and> \<not> sl_retained s \<and> sl_returned_count s \<ge> sl_total_consumers s)"

lemma content_history:
  assumes "list_all (\<lambda>op. \<not> is_move op) ops"
  shows "content_from ops (fst (fold slot_step ops (slot_new node name consumers retained residency, l, [])))"
  using assms
proof (induction ops rule: rev_induct)
  case Nil
  then show ?case by (simp add: content_from_def slot_new_def)
next
  case (snoc op ops)
  obtain s l' ms where f: "fold slot_step ops (slot_new node name consumers retained residency, l, []) = (s, l', ms)"
    by (cases "fold slot_step ops (slot_new node name consumers retained residency, l, [])") auto
  from snoc f have ih: "content_from ops s" by simp
  have "content_from (ops @ [op]) (fst (slot_step op (s, l', ms)))"
    using ih snoc.prems
    by (cases op) (auto simp: content_from_def first_fill_snoc slot_defs split: Content.splits option.splits)
  then show ?case by (simp add: f)
qed

text \<open>
  C33. Reads never fail early: as long as the value is not moved out, and the slot is retained or
  fewer leases have returned than it has consumers, every read after a fill returns the value of the
  first fill.
\<close>

theorem slot_read_safe:
  assumes "list_all (\<lambda>op. \<not> is_move op) ops" "first_fill ops = Some v"
    and "fold slot_step ops (slot_new node name consumers retained residency, l, []) = (s, l', ms)"
    and "sl_retained s \<or> sl_returned_count s < sl_total_consumers s"
  shows "fst (read_arc s) = Inr v"
  using content_history [OF assms(1), of node name consumers retained residency l] assms(2-)
  by (auto simp: content_from_def read_arc_def split: Content.splits)

theorem slot_read_safe_witness:
  "\<exists>s l ms. fold slot_step [OpFill (7 :: nat), OpEnter, OpRead, OpDropClone, OpDropLease 0, OpEnter, OpFill 9]
       (slot_new 1 ''a'' 2 False 10, ledger_new, []) = (s, l, ms)
     \<and> fst (read_arc s) = Inr 7"
proof -
  let ?ops = "[OpFill (7 :: nat), OpEnter, OpRead, OpDropClone, OpDropLease 0, OpEnter, OpFill 9]"
  obtain s l ms where f: "fold slot_step ?ops (slot_new 1 ''a'' 2 False 10, ledger_new, []) = (s, l, ms)"
    by (cases "fold slot_step ?ops (slot_new 1 ''a'' 2 False 10, ledger_new, [])") auto
  have "sl_returned_count (fst (fold slot_step ?ops (slot_new 1 ''a'' 2 False 10, ledger_new, [])))
      < sl_total_consumers (fst (fold slot_step ?ops (slot_new 1 ''a'' 2 False 10, ledger_new, [])))"
    by code_simp
  with f have "sl_returned_count s < sl_total_consumers s" by simp
  then have "fst (read_arc s) = Inr 7" by (intro slot_read_safe [OF _ _ f]) simp_all
  with f show ?thesis by blast
qed

text \<open>
  A lease counts as a consumer, not as an attempt: when the only consumer's first attempt enters,
  reads and returns, the slot is released, and its second attempt's read panics, although a failed
  attempt that will be retried is documented to find its input again.
\<close>

lemma retry_loses_input:
  "case fold slot_step [OpFill (7 :: nat), OpEnter, OpRead, OpDropClone, OpDropLease 0, OpEnter]
      (slot_new 1 ''a'' 1 False 10, ledger_new, []) of
     (s, l, ms) \<Rightarrow> sl_content s = Released \<and> fst (read_arc s) = Inl ReadAfterRelease \<and> rl_current l = 0"
  by code_simp

end
