(* ===== verification/Errors.thy ===== *)
theory Errors
  imports Vocabulary
begin

text \<open>
  The two error types a task author meets (\<open>crates/core/src/error.rs\<close>): a task's own failure, with
  the class that decides whether it is retried, and a rehydration failure.  A boxed source error is
  kept as what the code can observe of it, its rendered text.
\<close>

section \<open>Task errors\<close>

datatype TaskErrorClass = Retryable | Permanent | Skip

record TaskError =
  te_class :: TaskErrorClass
  te_message :: string
  te_source :: "string option"

definition task_error_new :: "TaskErrorClass \<Rightarrow> string \<Rightarrow> TaskError" where
  "task_error_new c message = \<lparr>te_class = c, te_message = message, te_source = None\<rparr>"

definition task_error_with_source :: "TaskErrorClass \<Rightarrow> string \<Rightarrow> string \<Rightarrow> TaskError" where
  "task_error_with_source c message source = \<lparr>te_class = c, te_message = message, te_source = Some source\<rparr>"

definition retryable :: "string \<Rightarrow> TaskError" where
  "retryable message = task_error_new Retryable message"

definition retryable_from :: "string \<Rightarrow> string \<Rightarrow> TaskError" where
  "retryable_from message source = task_error_with_source Retryable message source"

definition permanent :: "string \<Rightarrow> TaskError" where
  "permanent message = task_error_new Permanent message"

definition permanent_from :: "string \<Rightarrow> string \<Rightarrow> TaskError" where
  "permanent_from message source = task_error_with_source Permanent message source"

definition skip_error :: "string \<Rightarrow> TaskError" where
  "skip_error message = task_error_new Skip message"

definition is_retryable :: "TaskError \<Rightarrow> bool" where
  "is_retryable e \<longleftrightarrow> te_class e = Retryable"

definition is_permanent :: "TaskError \<Rightarrow> bool" where
  "is_permanent e \<longleftrightarrow> te_class e = Permanent"

definition is_skip :: "TaskError \<Rightarrow> bool" where
  "is_skip e \<longleftrightarrow> te_class e = Skip"

definition task_error_display :: "TaskError \<Rightarrow> string" where
  "task_error_display e =
     (case te_class e of Retryable \<Rightarrow> ''retryable'' | Permanent \<Rightarrow> ''permanent'' | Skip \<Rightarrow> ''skip'')
     @ '': '' @ te_message e"

section \<open>Rehydration errors\<close>

datatype RehydrateClass = RehydrateAbsent | Transient | Corruption

record RehydrateError =
  re_class :: RehydrateClass
  re_message :: string
  re_source :: "string option"

definition rehydrate_error_new :: "RehydrateClass \<Rightarrow> string \<Rightarrow> RehydrateError" where
  "rehydrate_error_new c message = \<lparr>re_class = c, re_message = message, re_source = None\<rparr>"

definition absent :: "string \<Rightarrow> RehydrateError" where
  "absent message = rehydrate_error_new RehydrateAbsent message"

definition transient :: "string \<Rightarrow> RehydrateError" where
  "transient message = rehydrate_error_new Transient message"

definition corruption :: "string \<Rightarrow> RehydrateError" where
  "corruption message = rehydrate_error_new Corruption message"

definition rehydrate_with_source :: "string \<Rightarrow> RehydrateError \<Rightarrow> RehydrateError" where
  "rehydrate_with_source source e = e\<lparr>re_source := Some source\<rparr>"

definition is_absent :: "RehydrateError \<Rightarrow> bool" where
  "is_absent e \<longleftrightarrow> re_class e = RehydrateAbsent"

definition is_transient :: "RehydrateError \<Rightarrow> bool" where
  "is_transient e \<longleftrightarrow> re_class e = Transient"

definition is_corruption :: "RehydrateError \<Rightarrow> bool" where
  "is_corruption e \<longleftrightarrow> re_class e = Corruption"

definition rehydrate_error_display :: "RehydrateError \<Rightarrow> string" where
  "rehydrate_error_display e =
     ''rehydrate ''
     @ (case re_class e of
          RehydrateAbsent \<Rightarrow> ''absent'' | Transient \<Rightarrow> ''transient'' | Corruption \<Rightarrow> ''corruption'')
     @ '': '' @ re_message e"

text \<open>Every error is in exactly one class, and the constructors put it there.\<close>

lemma task_error_class_cases:
  "is_retryable e \<or> is_permanent e \<or> is_skip e"
  by (cases "te_class e") (simp_all add: is_retryable_def is_permanent_def is_skip_def)

lemmas task_error_defs = task_error_new_def task_error_with_source_def retryable_def retryable_from_def
  permanent_def permanent_from_def skip_error_def

end
