(* ===== verification/Scratch.thy ===== *)
theory Scratch
  imports Errors
begin

text \<open>
  The durable scratch store (\<open>crates/core/src/scratch.rs\<close>): a key-value store of opaque bytes per node
  and run, one file per key under \<open><base>/<pipeline>/<run>/scratch/<node>/\<close>, written by the
  temp-file, fsync, rename discipline.

  The file system is a store of entries by path, a path being its list of segments.  Every
  \<open>std::fs\<close> call is one operation on it.  What can go wrong is a schedule of faults, one per call:
  the call fails, or the process stops there, in both cases after a part of its effect.  The order in
  which a disk makes cached writes durable is not modelled: \<open>sync_all\<close> changes nothing here.
\<close>

section \<open>The file system\<close>

type_synonym path = "string list"

datatype FsEntry = FileEntry "u8 list" | DirEntry

datatype IoError = NotFound | OtherError

datatype Fault = Fine | Fails nat | Crashes nat

record Fs =
  fs_entries :: "(path \<times> FsEntry) list"
  fs_faults :: "Fault list"
  fs_crashed :: bool
  fs_pid :: u32
  fs_counter :: u64

type_synonym 'a io = "Fs \<Rightarrow> (IoError + 'a) \<times> Fs"

definition fs_at :: "Fs \<Rightarrow> path \<Rightarrow> FsEntry option" where
  "fs_at fs p = map_of (fs_entries fs) p"

definition fs_put :: "path \<Rightarrow> FsEntry \<Rightarrow> Fs \<Rightarrow> Fs" where
  "fs_put p e fs = fs\<lparr>fs_entries := (p, e) # filter (\<lambda>x. fst x \<noteq> p) (fs_entries fs)\<rparr>"

definition fs_del :: "path \<Rightarrow> Fs \<Rightarrow> Fs" where
  "fs_del p fs = fs\<lparr>fs_entries := filter (\<lambda>x. fst x \<noteq> p) (fs_entries fs)\<rparr>"

text \<open>A call under the fault schedule: \<open>part n\<close> is the effect a call that fails has had by then.\<close>

definition sys :: "(nat \<Rightarrow> Fs \<Rightarrow> Fs) \<Rightarrow> 'a io \<Rightarrow> 'a io" where
  "sys part m fs =
     (if fs_crashed fs then (Inl OtherError, fs)
      else
        case fs_faults fs of
          [] \<Rightarrow> m fs
        | Fine # faults \<Rightarrow> m (fs\<lparr>fs_faults := faults\<rparr>)
        | Fails n # faults \<Rightarrow> (Inl OtherError, part n (fs\<lparr>fs_faults := faults\<rparr>))
        | Crashes n # faults \<Rightarrow> (Inl OtherError, (part n (fs\<lparr>fs_faults := faults\<rparr>))\<lparr>fs_crashed := True\<rparr>))"

definition io_then :: "'a io \<Rightarrow> ('a \<Rightarrow> 'b io) \<Rightarrow> 'b io" where
  "io_then m k fs = (case m fs of (Inl e, fs') \<Rightarrow> (Inl e, fs') | (Inr a, fs') \<Rightarrow> k a fs')"

definition no_effect :: "nat \<Rightarrow> Fs \<Rightarrow> Fs" where
  "no_effect n fs = fs"

text \<open>\<open>create_dir_all\<close>: the missing directories from the root down.\<close>

definition dir_prefixes :: "path \<Rightarrow> path list" where
  "dir_prefixes dir = map (\<lambda>n. take n dir) [1..<Suc (length dir)]"

fun make_dirs :: "path list \<Rightarrow> unit io" where
  "make_dirs [] fs = (Inr (), fs)"
| "make_dirs (d # ds) fs =
     (case fs_at fs d of
        Some (FileEntry _) \<Rightarrow> (Inl OtherError, fs)
      | Some DirEntry \<Rightarrow> make_dirs ds fs
      | None \<Rightarrow> make_dirs ds (fs_put d DirEntry fs))"

definition create_dir_all :: "path \<Rightarrow> unit io" where
  "create_dir_all dir =
     sys (\<lambda>n fs. snd (make_dirs (take n (dir_prefixes dir)) fs)) (make_dirs (dir_prefixes dir))"

definition file_create :: "path \<Rightarrow> unit io" where
  "file_create p = sys no_effect (\<lambda>fs.
     case fs_at fs p of
       Some DirEntry \<Rightarrow> (Inl OtherError, fs)
     | _ \<Rightarrow> (Inr (), fs_put p (FileEntry []) fs))"

text \<open>\<open>write_all\<close> on a file just created: the bytes, or a prefix of them when it fails.\<close>

definition file_write_all :: "path \<Rightarrow> u8 list \<Rightarrow> unit io" where
  "file_write_all p bytes =
     sys (\<lambda>n. fs_put p (FileEntry (take n bytes))) (\<lambda>fs. (Inr (), fs_put p (FileEntry bytes) fs))"

definition file_sync :: "path \<Rightarrow> unit io" where
  "file_sync p = sys no_effect (\<lambda>fs. (Inr (), fs))"

definition fs_rename :: "path \<Rightarrow> path \<Rightarrow> unit io" where
  "fs_rename a b = sys no_effect (\<lambda>fs.
     case fs_at fs a of
       None \<Rightarrow> (Inl NotFound, fs)
     | Some e \<Rightarrow>
         (case fs_at fs b of
            Some DirEntry \<Rightarrow> (Inl OtherError, fs)
          | _ \<Rightarrow> (Inr (), fs_put b e (fs_del a fs))))"

definition fs_remove_file :: "path \<Rightarrow> unit io" where
  "fs_remove_file p = sys no_effect (\<lambda>fs.
     case fs_at fs p of
       None \<Rightarrow> (Inl NotFound, fs)
     | Some DirEntry \<Rightarrow> (Inl OtherError, fs)
     | Some (FileEntry _) \<Rightarrow> (Inr (), fs_del p fs))"

definition under :: "path \<Rightarrow> path \<Rightarrow> bool" where
  "under dir p \<longleftrightarrow> take (length dir) p = dir"

text \<open>\<open>remove_dir_all\<close>: everything at and below the directory; when it fails, some of it.\<close>

definition fs_remove_dir_all :: "path \<Rightarrow> unit io" where
  "fs_remove_dir_all dir =
     sys (\<lambda>n fs. fold fs_del (take n (filter (\<lambda>p. under dir p \<and> p \<noteq> dir) (map fst (fs_entries fs)))) fs)
       (\<lambda>fs. case fs_at fs dir of
          None \<Rightarrow> (Inl NotFound, fs)
        | Some (FileEntry _) \<Rightarrow> (Inl OtherError, fs)
        | Some DirEntry \<Rightarrow>
            (Inr (), fs\<lparr>fs_entries := filter (\<lambda>x. \<not> under dir (fst x)) (fs_entries fs)\<rparr>))"

definition fs_read :: "path \<Rightarrow> u8 list io" where
  "fs_read p = sys no_effect (\<lambda>fs.
     case fs_at fs p of
       None \<Rightarrow> (Inl NotFound, fs)
     | Some DirEntry \<Rightarrow> (Inl OtherError, fs)
     | Some (FileEntry bytes) \<Rightarrow> (Inr bytes, fs))"

definition dir_children :: "path \<Rightarrow> Fs \<Rightarrow> string list" where
  "dir_children dir fs =
     map last (filter (\<lambda>p. length p = Suc (length dir) \<and> under dir p) (map fst (fs_entries fs)))"

definition fs_read_dir :: "path \<Rightarrow> string list io" where
  "fs_read_dir dir = sys no_effect (\<lambda>fs.
     case fs_at fs dir of
       None \<Rightarrow> (Inl NotFound, fs)
     | Some (FileEntry _) \<Rightarrow> (Inl OtherError, fs)
     | Some DirEntry \<Rightarrow> (Inr (dir_children dir fs), fs))"

text \<open>One step of the directory iterator, and \<open>DirEntry::file_type\<close>.\<close>

definition next_entry :: "string \<Rightarrow> string io" where
  "next_entry name = sys no_effect (\<lambda>fs. (Inr name, fs))"

definition entry_is_file :: "path \<Rightarrow> bool io" where
  "entry_is_file p = sys no_effect (\<lambda>fs.
     case fs_at fs p of
       None \<Rightarrow> (Inl NotFound, fs)
     | Some (FileEntry _) \<Rightarrow> (Inr True, fs)
     | Some DirEntry \<Rightarrow> (Inr False, fs))"

section \<open>Names on disk\<close>

definition SCRATCH_DIR_NAME :: string where
  "SCRATCH_DIR_NAME = ''scratch''"

text \<open>A byte is written high nibble first; the empty key has the fixed name \<open>00\<close>.\<close>

definition hex_byte :: "u8 \<Rightarrow> string" where
  "hex_byte b = [hex_char (unat (drop_bit 4 b)), hex_char (unat (b AND 0x0f))]"

definition encode_key :: "u8 list \<Rightarrow> string" where
  "encode_key key = (if key = [] then ''00'' else concat (map hex_byte key))"

definition node_segment :: "node_id \<Rightarrow> string" where
  "node_segment node = hex16 node"

text \<open>
  \<open>path_segment\<close> walks the characters: in a UTF-8 byte string every byte that is not a continuation
  byte starts one, and a character beyond ASCII is never safe.
\<close>

definition char_starts :: "string \<Rightarrow> char list" where
  "char_starts s = filter (\<lambda>c. of_char c < (128 :: nat) \<or> of_char c \<ge> (192 :: nat)) s"

definition segment_safe :: "nat \<Rightarrow> char \<Rightarrow> bool" where
  "segment_safe i c \<longleftrightarrow>
     (let n = of_char c :: nat in
        (97 \<le> n \<and> n \<le> 122) \<or> (65 \<le> n \<and> n \<le> 90) \<or> (48 \<le> n \<and> n \<le> 57) \<or> c = CHR ''-'' \<or> c = CHR ''_''
        \<or> (c = CHR ''.'' \<and> i \<noteq> 0))"

definition path_segment :: "string \<Rightarrow> string" where
  "path_segment s =
     (if s = [] then ''_''
      else map (\<lambda>(i, c). if segment_safe i c then c else CHR ''_'') (enumerate 0 (char_starts s)))"

definition namespace_path :: "path \<Rightarrow> string \<Rightarrow> string \<Rightarrow> node_id \<Rightarrow> path" where
  "namespace_path base pipeline run node =
     base @ [path_segment pipeline, path_segment run, SCRATCH_DIR_NAME, node_segment node]"

text \<open>\<open>file_name().to_str()\<close>; the names of entries are UTF-8 here.\<close>

definition file_name :: "path \<Rightarrow> string option" where
  "file_name p = (if p = [] \<or> last p = ''..'' then None else Some (last p))"

fun contains_str :: "string \<Rightarrow> string \<Rightarrow> bool" where
  "contains_str needle s =
     (take (length needle) s = needle \<or> (case s of [] \<Rightarrow> False | _ # s' \<Rightarrow> contains_str needle s'))"

declare contains_str.simps [simp del]

definition is_write_temp :: "string \<Rightarrow> bool" where
  "is_write_temp name \<longleftrightarrow> take 1 name = ''.'' \<and> contains_str ''.tmp.'' name"

section \<open>The store\<close>

datatype ScratchOp = ScratchRead | ScratchWrite

definition scratch_op_label :: "ScratchOp \<Rightarrow> string" where
  "scratch_op_label op = (case op of ScratchRead \<Rightarrow> ''read'' | ScratchWrite \<Rightarrow> ''write'')"

datatype ScratchError = ScratchIo ScratchOp IoError

text \<open>The text of an \<open>io::Error\<close> is the operating system's: a parameter.\<close>

definition scratch_error_display :: "(IoError \<Rightarrow> string) \<Rightarrow> ScratchError \<Rightarrow> string" where
  "scratch_error_display io_text e =
     (case e of ScratchIo op source \<Rightarrow> ''scratch '' @ scratch_op_label op @ '' failed: '' @ io_text source)"

definition task_error_from_scratch :: "(IoError \<Rightarrow> string) \<Rightarrow> ScratchError \<Rightarrow> TaskError" where
  "task_error_from_scratch io_text e =
     (case e of ScratchIo op source \<Rightarrow>
        retryable_from (''durable scratch '' @ scratch_op_label op @ '' failed'') (io_text source))"

record ScratchStore =
  ss_dir :: "path option"

definition for_node :: "path \<Rightarrow> string \<Rightarrow> string \<Rightarrow> node_id \<Rightarrow> ScratchStore" where
  "for_node base pipeline run node = \<lparr>ss_dir = Some (namespace_path base pipeline run node)\<rparr>"

definition unwired :: ScratchStore where
  "unwired = \<lparr>ss_dir = None\<rparr>"

definition key_path :: "path \<Rightarrow> u8 list \<Rightarrow> path" where
  "key_path dir key = dir @ [encode_key key]"

definition next_tmp_counter :: "Fs \<Rightarrow> u64 \<times> Fs" where
  "next_tmp_counter fs = (fs_counter fs, fs\<lparr>fs_counter := fs_counter fs + 1\<rparr>)"

definition tmp_name_of :: "path \<Rightarrow> u32 \<Rightarrow> u64 \<Rightarrow> string" where
  "tmp_name_of final_path pid counter =
     ''.'' @ (case file_name final_path of Some n \<Rightarrow> n | None \<Rightarrow> ''scratch'') @ ''.tmp.''
     @ show_nat (unat pid) @ ''.'' @ show_nat (unat counter)"

definition write_and_rename :: "path \<Rightarrow> path \<Rightarrow> u8 list \<Rightarrow> unit io" where
  "write_and_rename tmp_path final_path value =
     io_then (file_create tmp_path) (\<lambda>_.
     io_then (file_write_all tmp_path value) (\<lambda>_.
     io_then (file_sync tmp_path) (\<lambda>_.
     fs_rename tmp_path final_path)))"

definition atomic_write :: "path \<Rightarrow> path \<Rightarrow> u8 list \<Rightarrow> unit io" where
  "atomic_write dir final_path value =
     io_then (create_dir_all dir) (\<lambda>_ fs.
       let (counter, fs) = next_tmp_counter fs;
           tmp_path = dir @ [tmp_name_of final_path (fs_pid fs) counter];
           (write_result, fs) = write_and_rename tmp_path final_path value fs
       in case write_result of
            Inl e \<Rightarrow> (Inl e, snd (fs_remove_file tmp_path fs))
          | Inr _ \<Rightarrow> (Inr (), snd (file_sync dir fs)))"

definition map_io_err :: "ScratchOp \<Rightarrow> (IoError + 'a) \<times> Fs \<Rightarrow> (ScratchError + 'a) \<times> Fs" where
  "map_io_err op = (\<lambda>(r, fs). (case r of Inl e \<Rightarrow> Inl (ScratchIo op e) | Inr a \<Rightarrow> Inr a, fs))"

definition scratch_get ::
  "ScratchStore \<Rightarrow> u8 list \<Rightarrow> Fs \<Rightarrow> (ScratchError + u8 list option) \<times> Fs" where
  "scratch_get s key fs =
     (case ss_dir s of
        None \<Rightarrow> (Inl (ScratchIo ScratchRead NotFound), fs)
      | Some dir \<Rightarrow>
          (case fs_read (key_path dir key) fs of
             (Inr bytes, fs') \<Rightarrow> (Inr (Some bytes), fs')
           | (Inl NotFound, fs') \<Rightarrow> (Inr None, fs')
           | (Inl source, fs') \<Rightarrow> (Inl (ScratchIo ScratchRead source), fs')))"

definition scratch_put ::
  "ScratchStore \<Rightarrow> u8 list \<Rightarrow> u8 list \<Rightarrow> Fs \<Rightarrow> (ScratchError + unit) \<times> Fs" where
  "scratch_put s key value fs =
     (case ss_dir s of
        None \<Rightarrow> (Inl (ScratchIo ScratchWrite NotFound), fs)
      | Some dir \<Rightarrow> map_io_err ScratchWrite (atomic_write dir (key_path dir key) value fs))"

definition scratch_remove :: "ScratchStore \<Rightarrow> u8 list \<Rightarrow> Fs \<Rightarrow> (ScratchError + unit) \<times> Fs" where
  "scratch_remove s key fs =
     (case ss_dir s of
        None \<Rightarrow> (Inr (), fs)
      | Some dir \<Rightarrow>
          (case fs_remove_file (key_path dir key) fs of
             (Inr _, fs') \<Rightarrow> (Inr (), fs')
           | (Inl NotFound, fs') \<Rightarrow> (Inr (), fs')
           | (Inl source, fs') \<Rightarrow> (Inl (ScratchIo ScratchWrite source), fs')))"

definition remove_on_success :: "ScratchStore \<Rightarrow> Fs \<Rightarrow> (ScratchError + unit) \<times> Fs" where
  "remove_on_success s fs =
     (case ss_dir s of
        None \<Rightarrow> (Inr (), fs)
      | Some dir \<Rightarrow>
          (case fs_remove_dir_all dir fs of
             (Inr _, fs') \<Rightarrow> (Inr (), fs')
           | (Inl NotFound, fs') \<Rightarrow> (Inr (), fs')
           | (Inl source, fs') \<Rightarrow> (Inl (ScratchIo ScratchWrite source), fs')))"

text \<open>\<open>carry_forward\<close>: the loop over the prior run's entries.\<close>

fun carry_entries :: "path \<Rightarrow> path \<Rightarrow> string list \<Rightarrow> Fs \<Rightarrow> (ScratchError + unit) \<times> Fs" where
  "carry_entries prior_dir resumed_dir [] fs = (Inr (), fs)"
| "carry_entries prior_dir resumed_dir (name # names) fs =
     (case next_entry name fs of
        (Inl e, fs) \<Rightarrow> (Inl (ScratchIo ScratchRead e), fs)
      | (Inr entry_name, fs) \<Rightarrow>
          if is_write_temp entry_name then carry_entries prior_dir resumed_dir names fs
          else
            (case entry_is_file (prior_dir @ [entry_name]) fs of
               (Inl e, fs) \<Rightarrow> (Inl (ScratchIo ScratchRead e), fs)
             | (Inr is_file, fs) \<Rightarrow>
                 if \<not> is_file then carry_entries prior_dir resumed_dir names fs
                 else
                   (case fs_read (prior_dir @ [entry_name]) fs of
                      (Inl e, fs) \<Rightarrow> (Inl (ScratchIo ScratchRead e), fs)
                    | (Inr value, fs) \<Rightarrow>
                        (case atomic_write resumed_dir (resumed_dir @ [entry_name]) value fs of
                           (Inl e, fs) \<Rightarrow> (Inl (ScratchIo ScratchWrite e), fs)
                         | (Inr _, fs) \<Rightarrow> carry_entries prior_dir resumed_dir names fs))))"

definition carry_forward ::
  "path \<Rightarrow> string \<Rightarrow> string \<Rightarrow> string \<Rightarrow> node_id \<Rightarrow> Fs \<Rightarrow> (ScratchError + unit) \<times> Fs" where
  "carry_forward base pipeline prior resumed node fs =
     (let prior_dir = namespace_path base pipeline prior node;
          resumed_dir = namespace_path base pipeline resumed node
      in case fs_read_dir prior_dir fs of
           (Inr entries, fs) \<Rightarrow> carry_entries prior_dir resumed_dir entries fs
         | (Inl NotFound, fs) \<Rightarrow> (Inr (), fs)
         | (Inl source, fs) \<Rightarrow> (Inl (ScratchIo ScratchRead source), fs))"


section \<open>Key names are distinct, except for the empty key\<close>

lemma unat_high_nibble: "unat (drop_bit 4 (b :: u8)) = unat b div 16"
  by (subst unat_drop_bit_eq) (simp add: drop_bit_eq_div)

lemma unat_low_nibble: "unat ((b :: u8) AND 0x0f) = unat b mod 16"
proof -
  have "unat (b AND 0x0f) = unat b AND mask 4"
    by (simp add: unsigned_and_eq mask_eq_exp_minus_1)
  then show ?thesis by (simp add: take_bit_eq_mod flip: take_bit_eq_mask)
qed

lemma hex_byte_inj [simp]: "hex_byte b = hex_byte c \<longleftrightarrow> b = c"
proof
  assume eq: "hex_byte b = hex_byte c"
  have "unat b < 256" "unat c < 256" using unsigned_less [of b] unsigned_less [of c] by simp_all
  moreover from this eq have "unat b div 16 = unat c div 16" "unat b mod 16 = unat c mod 16"
    by (simp_all add: hex_byte_def unat_high_nibble unat_low_nibble hex_char_inj)
  ultimately have "unat b = unat c" by (metis div_mult_mod_eq)
  then show "b = c" by (rule unsigned_word_eqI)
qed simp

lemma length_hex_byte [simp]: "length (hex_byte b) = 2"
  by (simp add: hex_byte_def)

lemma concat_hex_inj: "concat (map hex_byte k) = concat (map hex_byte k') \<Longrightarrow> k = k'"
proof (induction k arbitrary: k')
  case Nil
  then show ?case by (cases k') (auto simp: hex_byte_def)
next
  case (Cons b k)
  then obtain c k1 where k': "k' = c # k1" by (cases k') (auto simp: hex_byte_def)
  with Cons show ?case by (auto simp: append_eq_append_conv)
qed

lemma hex_zero: "''00'' = concat (map hex_byte [0])"
  by code_simp

lemma encode_key_concat: "encode_key k = concat (map hex_byte (if k = [] then [0] else k))"
  by (simp add: encode_key_def hex_zero)

lemma encode_key_eq_iff:
  "encode_key k = encode_key k' \<longleftrightarrow> (if k = [] then [0] else k) = (if k' = [] then [0] else k')"
proof
  assume "encode_key k = encode_key k'"
  then show "(if k = [] then [0] else k) = (if k' = [] then [0] else k')"
    unfolding encode_key_concat by (rule concat_hex_inj)
qed (simp add: encode_key_concat)

definition hex_name :: "string \<Rightarrow> bool" where
  "hex_name n \<longleftrightarrow> n \<noteq> [] \<and> set n \<subseteq> hex_char ` {..<16}"

lemma encode_key_hex: "hex_name (encode_key k)"
proof -
  have "set (hex_byte b) \<subseteq> hex_char ` {..<16}" for b
  proof -
    have "unat b < 256" using unsigned_less [of b] by simp
    then show ?thesis by (auto simp: hex_byte_def unat_high_nibble unat_low_nibble)
  qed
  moreover have "encode_key k \<noteq> []"
    by (cases k) (simp_all add: encode_key_concat hex_byte_def)
  ultimately show ?thesis by (auto simp: hex_name_def encode_key_concat)
qed

lemma hex_char_not_special: "d < 16 \<Longrightarrow> hex_char d \<noteq> CHR ''.'' \<and> hex_char d \<noteq> CHR ''/''"
proof -
  assume d: "d < 16"
  have "(of_char (hex_char d) :: nat) \<noteq> of_char (CHR ''.'')" "(of_char (hex_char d) :: nat) \<noteq> of_char (CHR ''/'')"
    using d by (auto simp: of_char_hex)
  then show ?thesis by auto
qed

lemma hex_name_safe: "hex_name n \<Longrightarrow> n \<noteq> [] \<and> CHR ''.'' \<notin> set n \<and> CHR ''/'' \<notin> set n"
  using hex_char_not_special by (fastforce simp: hex_name_def)

lemma hex_name_not_tmp: "hex_name n \<Longrightarrow> n \<noteq> tmp_name_of p pid c"
  using hex_name_safe [of n] by (auto simp: tmp_name_of_def)

lemma hex_name_not_write_temp: "hex_name n \<Longrightarrow> \<not> is_write_temp n"
  using hex_name_safe [of n] by (cases n) (auto simp: is_write_temp_def)

text \<open>
  Two keys share a file exactly when they are equal, with one exception: the empty key has the
  name of the one-byte key zero, so the two overwrite each other.
\<close>

theorem key_collision:
  "encode_key k = encode_key k' \<longleftrightarrow> k = k' \<or> {k, k'} = {[], [0]}"
  by (auto simp: encode_key_eq_iff doubleton_eq_iff split: if_splits)


section \<open>Frame lemmas of the file system\<close>

named_theorems fs_simps \<open>what an operation does to the entry at a path\<close>

lemma fs_at_put [fs_simps]: "fs_at (fs_put p e fs) q = (if q = p then Some e else fs_at fs q)"
proof -
  have "map_of (filter (\<lambda>x. fst x \<noteq> p) xs) q = (if q = p then None else map_of xs q)"
    for xs :: "(path \<times> FsEntry) list"
    by (induction xs) auto
  then show ?thesis by (simp add: fs_at_def fs_put_def)
qed

lemma fs_at_del [fs_simps]: "fs_at (fs_del p fs) q = (if q = p then None else fs_at fs q)"
proof -
  have "map_of (filter (\<lambda>x. fst x \<noteq> p) xs) q = (if q = p then None else map_of xs q)"
    for xs :: "(path \<times> FsEntry) list"
    by (induction xs) auto
  then show ?thesis by (simp add: fs_at_def fs_del_def)
qed

lemma fs_at_update [fs_simps]:
  "fs_at (fs\<lparr>fs_faults := a\<rparr>) q = fs_at fs q" "fs_at (fs\<lparr>fs_crashed := b\<rparr>) q = fs_at fs q"
  "fs_at (fs\<lparr>fs_counter := c\<rparr>) q = fs_at fs q"
  by (simp_all add: fs_at_def)

lemma sys_frame:
  assumes "\<And>n fs. fs_at (part n fs) q = fs_at fs q" "\<And>fs. fs_at (snd (m fs)) q = fs_at fs q"
  shows "fs_at (snd (sys part m fs)) q = fs_at fs q"
  using assms by (simp add: sys_def fs_simps split: list.split Fault.split)

lemma sys_InrE:
  assumes "sys part m fs = (Inr a, fs')"
  obtains faults where "m (fs\<lparr>fs_faults := faults\<rparr>) = (Inr a, fs')"
proof (cases "fs_faults fs")
  case Nil
  have same: "fs\<lparr>fs_faults := fs_faults fs\<rparr> = fs" by simp
  from assms Nil have "m fs = (Inr a, fs')" by (simp add: sys_def split: if_splits)
  then show thesis using that [of "fs_faults fs"] same by simp
next
  case (Cons f faults)
  with assms have "m (fs\<lparr>fs_faults := faults\<rparr>) = (Inr a, fs')"
    by (simp add: sys_def split: if_splits Fault.splits)
  then show thesis by (rule that)
qed

lemma no_effect_at [fs_simps]: "fs_at (no_effect n fs) q = fs_at fs q"
  by (simp add: no_effect_def)

lemma make_dirs_frame [fs_simps]: "q \<notin> set ds \<Longrightarrow> fs_at (snd (make_dirs ds fs)) q = fs_at fs q"
  by (induction ds fs rule: make_dirs.induct) (auto simp: fs_simps split: option.split FsEntry.split)

lemma create_dir_all_frame:
  "q \<notin> set (dir_prefixes dir) \<Longrightarrow> fs_at (snd (create_dir_all dir fs)) q = fs_at fs q"
  unfolding create_dir_all_def
  by (rule sys_frame) (auto intro!: make_dirs_frame dest: in_set_takeD)

lemma dir_prefixes_length: "p \<in> set (dir_prefixes dir) \<Longrightarrow> length p \<le> length dir"
  by (auto simp: dir_prefixes_def)

lemma file_create_frame: "q \<noteq> p \<Longrightarrow> fs_at (snd (file_create p fs)) q = fs_at fs q"
  unfolding file_create_def
  by (rule sys_frame) (auto simp: fs_simps split: option.split FsEntry.split)

lemma file_write_frame: "q \<noteq> p \<Longrightarrow> fs_at (snd (file_write_all p b fs)) q = fs_at fs q"
  unfolding file_write_all_def by (rule sys_frame) (auto simp: fs_simps)

lemma file_sync_frame [simp]: "fs_at (snd (file_sync p fs)) q = fs_at fs q"
  unfolding file_sync_def by (rule sys_frame) (auto simp: fs_simps)

lemma fs_rename_frame: "q \<noteq> a \<Longrightarrow> q \<noteq> b \<Longrightarrow> fs_at (snd (fs_rename a b fs)) q = fs_at fs q"
  unfolding fs_rename_def by (rule sys_frame) (auto simp: fs_simps split: option.split FsEntry.split)

lemma fs_remove_file_frame: "q \<noteq> p \<Longrightarrow> fs_at (snd (fs_remove_file p fs)) q = fs_at fs q"
  unfolding fs_remove_file_def by (rule sys_frame) (auto simp: fs_simps split: option.split FsEntry.split)

lemma fs_read_frame [simp]: "fs_at (snd (fs_read p fs)) q = fs_at fs q"
  unfolding fs_read_def by (rule sys_frame) (auto simp: fs_simps split: option.split FsEntry.split)

lemma fs_read_dir_frame [simp]: "fs_at (snd (fs_read_dir p fs)) q = fs_at fs q"
  unfolding fs_read_dir_def by (rule sys_frame) (auto simp: fs_simps split: option.split FsEntry.split)

lemma next_entry_frame [simp]: "fs_at (snd (next_entry p fs)) q = fs_at fs q"
  unfolding next_entry_def by (rule sys_frame) (auto simp: fs_simps)

lemma entry_is_file_frame [simp]: "fs_at (snd (entry_is_file p fs)) q = fs_at fs q"
  unfolding entry_is_file_def
  by (rule sys_frame) (auto simp: fs_simps split: option.split FsEntry.split)

lemma file_write_Inr: "file_write_all p b fs = (Inr u, fs') \<Longrightarrow> fs_at fs' p = Some (FileEntry b)"
  unfolding file_write_all_def by (auto elim!: sys_InrE simp: fs_simps)

lemma fs_rename_Inr: "fs_rename a b fs = (Inr u, fs') \<Longrightarrow> fs_at fs' b = fs_at fs a"
  unfolding fs_rename_def
  by (auto elim!: sys_InrE simp: fs_simps split: option.splits FsEntry.splits)

lemma fs_rename_Inl: "fs_rename a b fs = (Inl e, fs') \<Longrightarrow> fs_at fs' q = fs_at fs q"
  unfolding fs_rename_def sys_def
  by (auto simp: fs_simps split: if_splits list.splits Fault.splits option.splits FsEntry.splits)

lemma fs_read_Inr: "fs_read p fs = (Inr b, fs') \<Longrightarrow> fs_at fs p = Some (FileEntry b)"
  unfolding fs_read_def by (auto elim!: sys_InrE simp: fs_simps split: option.splits FsEntry.splits)

lemma entry_is_file_Inr:
  "entry_is_file p fs = (Inr b, fs') \<Longrightarrow> b = (\<exists>c. fs_at fs p = Some (FileEntry c))"
  unfolding entry_is_file_def
  by (auto elim!: sys_InrE simp: fs_simps split: option.splits FsEntry.splits)

lemma next_entry_Inr: "next_entry n fs = (Inr b, fs') \<Longrightarrow> b = n"
  unfolding next_entry_def by (auto elim!: sys_InrE)

section \<open>The atomic write\<close>

lemma tmp_name_fresh: "tmp_name_of (dir @ [n]) pid c \<noteq> n"
proof (cases "n = ''..''")
  case True
  then show ?thesis by (simp add: tmp_name_of_def file_name_def)
next
  case False
  then have "length (tmp_name_of (dir @ [n]) pid c) > length n"
    by (simp add: tmp_name_of_def file_name_def)
  then show ?thesis by auto
qed

lemma write_and_rename_frame:
  assumes "q \<noteq> tmp" "q \<noteq> final"
  shows "fs_at (snd (write_and_rename tmp final v fs)) q = fs_at fs q"
proof -
  obtain r1 f1 where 1: "file_create tmp fs = (r1, f1)" by fastforce
  obtain r2 f2 where 2: "file_write_all tmp v f1 = (r2, f2)" by fastforce
  obtain r3 f3 where 3: "file_sync tmp f2 = (r3, f3)" by fastforce
  have "fs_at f1 q = fs_at fs q" "fs_at f2 q = fs_at f1 q" "fs_at f3 q = fs_at f2 q"
    using file_create_frame [of q tmp fs] file_write_frame [of q tmp v f1] file_sync_frame [of tmp f2 q]
      1 2 3 assms by simp_all
  with 1 2 3 assms show ?thesis
    by (simp add: write_and_rename_def io_then_def fs_rename_frame split: sum.split)
qed

lemma write_and_rename_final:
  assumes "write_and_rename tmp final v fs = (r, fs')" "tmp \<noteq> final"
  shows "(r = Inr () \<longrightarrow> fs_at fs' final = Some (FileEntry v))
    \<and> (r \<noteq> Inr () \<longrightarrow> fs_at fs' final = fs_at fs final)"
proof -
  obtain r1 f1 where 1: "file_create tmp fs = (r1, f1)" by fastforce
  obtain r2 f2 where 2: "file_write_all tmp v f1 = (r2, f2)" by fastforce
  obtain r3 f3 where 3: "file_sync tmp f2 = (r3, f3)" by fastforce
  obtain r4 f4 where 4: "fs_rename tmp final f3 = (r4, f4)" by fastforce
  have k: "fs_at f1 final = fs_at fs final" "fs_at f2 final = fs_at f1 final" "fs_at f3 q = fs_at f2 q" for q
    using file_create_frame [of final tmp fs] file_write_frame [of final tmp v f1]
      file_sync_frame [of tmp f2 q] 1 2 3 assms(2) by auto
  have w: "r2 = Inr () \<Longrightarrow> fs_at f2 tmp = Some (FileEntry v)" using 2 file_write_Inr by simp
  have "r4 = Inr () \<or> (\<exists>e. r4 = Inl e)" by (cases r4) auto
  then show ?thesis
    using assms(1) 1 2 3 4 k w fs_rename_Inr [of tmp final f3 "()" f4] fs_rename_Inl [of tmp final f3 _ f4]
    by (auto simp: write_and_rename_def io_then_def split: sum.splits)
qed

text \<open>
  What an atomic write can leave behind, whatever faults strike: the old or the new value at the
  target, the new one if it reports success, and nothing else changed but missing directories and
  the temporary file.
\<close>

lemma atomic_write_spec:
  assumes "atomic_write dir (dir @ [n]) v fs = (r, fs')"
  shows "fs_at fs' (dir @ [n]) = (if r = Inr () then Some (FileEntry v) else fs_at fs (dir @ [n]))"
    and "\<lbrakk>q \<notin> set (dir_prefixes dir); q \<noteq> dir @ [n]; \<And>pid c. q \<noteq> dir @ [tmp_name_of (dir @ [n]) pid c]\<rbrakk>
      \<Longrightarrow> fs_at fs' q = fs_at fs q"
proof -
  obtain r1 f1 where 1: "create_dir_all dir fs = (r1, f1)" by fastforce
  define f2 where "f2 = f1\<lparr>fs_counter := fs_counter f1 + 1\<rparr>"
  define t where "t = dir @ [tmp_name_of (dir @ [n]) (fs_pid f2) (fs_counter f1)]"
  obtain r3 f3 where 3: "write_and_rename t (dir @ [n]) v f2 = (r3, f3)" by fastforce
  have notprefix: "dir @ [m] \<notin> set (dir_prefixes dir)" for m
    using dir_prefixes_length [of "dir @ [m]" dir] by auto
  have tn: "t \<noteq> dir @ [n]" by (simp add: t_def tmp_name_fresh)
  have res: "atomic_write dir (dir @ [n]) v fs = (case r1 of Inl e \<Rightarrow> (Inl e, f1) | Inr _ \<Rightarrow>
      (case r3 of Inl e \<Rightarrow> (Inl e, snd (fs_remove_file t f3)) | Inr _ \<Rightarrow> (Inr (), snd (file_sync dir f3))))"
    using 1 3 unfolding f2_def t_def
    by (cases r1; cases r3) (simp_all add: atomic_write_def io_then_def next_tmp_counter_def Let_def)
  have f1: "q \<notin> set (dir_prefixes dir) \<Longrightarrow> fs_at f1 q = fs_at fs q" for q
    using create_dir_all_frame [of q dir fs] 1 by simp
  have f2: "fs_at f2 q = fs_at f1 q" for q by (simp add: f2_def fs_simps)
  show "fs_at fs' (dir @ [n]) = (if r = Inr () then Some (FileEntry v) else fs_at fs (dir @ [n]))"
    using res assms(1) write_and_rename_final [OF 3 tn] f1 [OF notprefix] f2 tn
    by (auto simp: fs_remove_file_frame split: sum.splits)
  show "fs_at fs' q = fs_at fs q"
    if "q \<notin> set (dir_prefixes dir)" "q \<noteq> dir @ [n]" "\<And>pid c. q \<noteq> dir @ [tmp_name_of (dir @ [n]) pid c]"
    using res assms(1) write_and_rename_frame [of q t "dir @ [n]" v f2] 3 f1 [OF that(1)] f2 that(2,3)
    by (auto simp: t_def fs_remove_file_frame split: sum.splits)
qed


section \<open>What a later process reads\<close>

definition restart :: "Fs \<Rightarrow> Fs" where
  "restart fs = fs\<lparr>fs_faults := [], fs_crashed := False\<rparr>"

definition stored :: "ScratchStore \<Rightarrow> u8 list \<Rightarrow> Fs \<Rightarrow> ScratchError + u8 list option" where
  "stored s key fs = fst (scratch_get s key (restart fs))"

lemma stored_conv:
  "stored s key fs = (case ss_dir s of None \<Rightarrow> Inl (ScratchIo ScratchRead NotFound)
     | Some dir \<Rightarrow> (case fs_at fs (dir @ [encode_key key]) of
         None \<Rightarrow> Inr None
       | Some DirEntry \<Rightarrow> Inl (ScratchIo ScratchRead OtherError)
       | Some (FileEntry b) \<Rightarrow> Inr (Some b)))"
  by (auto simp: stored_def restart_def scratch_get_def fs_read_def sys_def fs_simps key_path_def
      split: option.split FsEntry.split)

lemma stored_for_node:
  "stored (for_node base pl run node) key fs =
     (case fs_at fs (namespace_path base pl run node @ [encode_key key]) of
         None \<Rightarrow> Inr None
       | Some DirEntry \<Rightarrow> Inl (ScratchIo ScratchRead OtherError)
       | Some (FileEntry b) \<Rightarrow> Inr (Some b))"
  by (simp add: stored_conv for_node_def)

text \<open>
  C17. A put is atomic under every schedule of failures and crashes: a later process reads the new
  value under the key if the put reported success and the old one otherwise, and every key with
  another name on disk reads as before.
\<close>

theorem scratch_put_atomic:
  assumes "scratch_put s k v fs = (r, fs')"
  shows "stored s k' fs' =
    (if encode_key k' = encode_key k \<and> r = Inr () then Inr (Some v) else stored s k' fs)"
proof (cases "ss_dir s")
  case None
  with assms show ?thesis by (auto simp: scratch_put_def stored_conv)
next
  case (Some dir)
  obtain w f where w: "atomic_write dir (dir @ [encode_key k]) v fs = (w, f)" by fastforce
  with assms Some have rw: "r = Inr () \<longleftrightarrow> w = Inr ()" "fs' = f"
    by (auto simp: scratch_put_def map_io_err_def key_path_def split: sum.splits)
  have frame: "fs_at f (dir @ [encode_key k']) = fs_at fs (dir @ [encode_key k'])"
    if "encode_key k' \<noteq> encode_key k"
    using that atomic_write_spec(2) [OF w, of "dir @ [encode_key k']"] hex_name_not_tmp [OF encode_key_hex]
      dir_prefixes_length [of "dir @ [encode_key k']" dir] by auto
  show ?thesis
    using atomic_write_spec(1) [OF w] frame rw Some
    by (cases "encode_key k' = encode_key k") (simp_all add: stored_conv)
qed

definition fs_sample :: Fs where
  "fs_sample = \<lparr>fs_entries = [], fs_faults = [Fine, Fine, Fails 1], fs_crashed = False,
     fs_pid = 7, fs_counter = 0\<rparr>"

definition store_sample :: ScratchStore where
  "store_sample = for_node [''runs''] ''daily'' ''r1'' 5"

text \<open>The write of the second byte fails: the first value stays.\<close>

theorem scratch_put_atomic_witness:
  "\<exists>fs'. scratch_put store_sample [1] [9, 8] fs_sample = (Inl (ScratchIo ScratchWrite OtherError), fs')
     \<and> stored store_sample [1] fs' = stored store_sample [1] fs_sample"
proof -
  obtain r fs' where p: "scratch_put store_sample [1] [9, 8] fs_sample = (r, fs')" by fastforce
  have "fst (scratch_put store_sample [1] [9, 8] fs_sample) = Inl (ScratchIo ScratchWrite OtherError)"
    by code_simp
  with p have r: "r = Inl (ScratchIo ScratchWrite OtherError)" by simp
  with p scratch_put_atomic [OF p, of "[1]"] show ?thesis by auto
qed

text \<open>Removal: an absent key is not an error, and the others are untouched.\<close>

lemma fs_remove_file_result:
  "fs_remove_file p fs = (Inr u, fs') \<Longrightarrow> fs_at fs' p = None"
  "fs_remove_file p fs = (Inl e, fs') \<Longrightarrow> fs_at fs' p = fs_at fs p"
  unfolding fs_remove_file_def sys_def
  by (auto simp: fs_simps no_effect_def
      split: if_splits list.splits Fault.splits option.splits FsEntry.splits)

lemma fs_remove_file_NotFound: "fs_remove_file p fs = (Inl NotFound, fs') \<Longrightarrow> fs_at fs p = None"
  unfolding fs_remove_file_def sys_def
  by (auto simp: fs_simps no_effect_def
      split: if_splits list.splits Fault.splits option.splits FsEntry.splits)

lemma scratch_remove_stored:
  assumes "scratch_remove s k fs = (r, fs')" "ss_dir s = Some dir"
  shows "stored s k' fs' =
    (if encode_key k' = encode_key k \<and> r = Inr () then Inr None else stored s k' fs)"
proof -
  obtain w f where w: "fs_remove_file (dir @ [encode_key k]) fs = (w, f)" by fastforce
  have "fs' = f" using assms w by (auto simp: scratch_remove_def key_path_def split: sum.splits IoError.splits)
  moreover have "r = Inr () \<longrightarrow> fs_at f (dir @ [encode_key k]) = None"
    using assms w fs_remove_file_result fs_remove_file_NotFound
    by (fastforce simp: scratch_remove_def key_path_def split: sum.splits IoError.splits)
  moreover have "r \<noteq> Inr () \<longrightarrow> fs_at f (dir @ [encode_key k]) = fs_at fs (dir @ [encode_key k])"
    using assms w fs_remove_file_result
    by (fastforce simp: scratch_remove_def key_path_def split: sum.splits IoError.splits)
  moreover have "encode_key k' \<noteq> encode_key k \<longrightarrow>
      fs_at f (dir @ [encode_key k']) = fs_at fs (dir @ [encode_key k'])"
    using fs_remove_file_frame [of "dir @ [encode_key k']" "dir @ [encode_key k]" fs] w by auto
  ultimately show ?thesis
    using assms(2) by (cases "encode_key k' = encode_key k"; cases "r = Inr ()") (simp_all add: stored_conv)
qed


section \<open>Carrying scratch forward\<close>

definition carried :: "path \<Rightarrow> path \<Rightarrow> Fs \<Rightarrow> Fs \<Rightarrow> bool" where
  "carried P R fs fs' \<longleftrightarrow>
     (\<forall>m. fs_at fs' (P @ [m]) = fs_at fs (P @ [m]))
     \<and> (\<forall>h. hex_name h \<longrightarrow> fs_at fs' (R @ [h]) = fs_at fs (R @ [h])
          \<or> (\<exists>b. fs_at fs (P @ [h]) = Some (FileEntry b) \<and> fs_at fs' (R @ [h]) = Some (FileEntry b)))"

lemma carried_refl: "(\<And>q. fs_at fs' q = fs_at fs q) \<Longrightarrow> carried P R fs fs'"
  by (simp add: carried_def)

lemma carried_trans: "carried P R fs fs1 \<Longrightarrow> carried P R fs1 fs2 \<Longrightarrow> carried P R fs fs2"
  unfolding carried_def by metis

lemma carried_same: "(\<And>q. fs_at fs1 q = fs_at fs q) \<Longrightarrow> carried P R fs1 fs2 \<Longrightarrow> carried P R fs fs2"
  by (simp add: carried_def)

lemma carried_write:
  assumes "P \<noteq> R" "length P = length R" "fs_at fs (P @ [n]) = Some (FileEntry v)"
    and w: "atomic_write R (R @ [n]) v fs = (r, fs')"
  shows "carried P R fs fs'"
proof -
  have "fs_at fs' (P @ [m]) = fs_at fs (P @ [m])" for m
    using atomic_write_spec(2) [OF w, of "P @ [m]"] dir_prefixes_length [of "P @ [m]" R] assms(1,2) by auto
  moreover have "fs_at fs' (R @ [h]) = fs_at fs (R @ [h])
      \<or> (\<exists>b. fs_at fs (P @ [h]) = Some (FileEntry b) \<and> fs_at fs' (R @ [h]) = Some (FileEntry b))"
    if "hex_name h" for h
  proof (cases "h = n")
    case True
    then show ?thesis using atomic_write_spec(1) [OF w] assms(3) by auto
  next
    case False
    then show ?thesis
      using atomic_write_spec(2) [OF w, of "R @ [h]"] dir_prefixes_length [of "R @ [h]" R]
        hex_name_not_tmp [OF that] by auto
  qed
  ultimately show ?thesis by (simp add: carried_def)
qed

text \<open>The four ways one round of the loop can go.\<close>

lemma carry_entries_cases:
  assumes "carry_entries P R (n # names) fs = (r, fs')"
  obtains (stop) "r \<noteq> Inr ()" "\<And>q. fs_at fs' q = fs_at fs q"
    | (skip) f where "\<And>q. fs_at f q = fs_at fs q" "carry_entries P R names f = (r, fs')"
        "is_write_temp n \<or> \<not> (\<exists>b. fs_at fs (P @ [n]) = Some (FileEntry b))"
    | (fail) f v e where "\<And>q. fs_at f q = fs_at fs q" "fs_at fs (P @ [n]) = Some (FileEntry v)"
        "atomic_write R (R @ [n]) v f = (Inl e, fs')" "r \<noteq> Inr ()"
    | (copy) f v f' where "\<And>q. fs_at f q = fs_at fs q" "fs_at fs (P @ [n]) = Some (FileEntry v)"
        "atomic_write R (R @ [n]) v f = (Inr (), f')" "carry_entries P R names f' = (r, fs')"
proof -
  obtain r1 f1 where 1: "next_entry n fs = (r1, f1)" by fastforce
  obtain r2 f2 where 2: "entry_is_file (P @ [n]) f1 = (r2, f2)" by fastforce
  obtain r3 f3 where 3: "fs_read (P @ [n]) f2 = (r3, f3)" by fastforce
  have k: "fs_at f1 q = fs_at fs q" "fs_at f2 q = fs_at fs q" "fs_at f3 q = fs_at fs q" for q
    using 1 2 3 next_entry_frame [of n fs q] entry_is_file_frame [of "P @ [n]" f1 q]
      fs_read_frame [of "P @ [n]" f2 q] by simp_all
  note [simp] = 1 2 3
  show thesis
  proof (cases r1)
    case Inl
    then show thesis using assms k(1) by (intro stop) auto
  next
    case (Inr name)
    then have name: "name = n" using next_entry_Inr [OF 1 [unfolded Inr]] by simp
    show thesis
    proof (cases "is_write_temp n")
      case True
      then show thesis using assms Inr name by (intro skip [OF k(1)]) simp_all
    next
      case False
      note nw = False
      show thesis
      proof (cases r2)
        case Inl
        then show thesis using assms \<open>r1 = Inr name\<close> name nw k(2) by (intro stop) auto
      next
        case (Inr is_file)
        then have f: "is_file \<longleftrightarrow> (\<exists>b. fs_at fs (P @ [n]) = Some (FileEntry b))"
          using entry_is_file_Inr [OF 2 [unfolded Inr]] k(1) by simp
        show thesis
        proof (cases "\<not> is_file")
          case True
          then show thesis using assms \<open>r1 = Inr name\<close> Inr name nw f by (intro skip [OF k(2)]) simp_all
        next
          case False
          show thesis
          proof (cases r3)
            case Inl
            then show thesis using assms \<open>r1 = Inr name\<close> \<open>r2 = Inr is_file\<close> name nw False k(3) by (intro stop) auto
          next
            case (Inr v)
            then have v: "fs_at fs (P @ [n]) = Some (FileEntry v)"
              using fs_read_Inr [OF 3 [unfolded Inr]] k(2) by simp
            obtain r4 f4 where 4: "atomic_write R (R @ [n]) v f3 = (r4, f4)" by fastforce
            show thesis
              using assms \<open>r1 = Inr name\<close> \<open>r2 = Inr is_file\<close> Inr name nw False 4
                fail [OF k(3) v] copy [OF k(3) v]
              by (cases r4) auto
          qed
        qed
      qed
    qed
  qed
qed

lemma carry_entries_carried:
  assumes "P \<noteq> R" "length P = length R"
  shows "carry_entries P R names fs = (r, fs') \<Longrightarrow> carried P R fs fs'"
proof (induction names arbitrary: fs)
  case Nil
  then show ?case by (simp add: carried_refl)
next
  case (Cons n names)
  from Cons.prems show ?case
  proof (cases rule: carry_entries_cases)
    case stop
    then show ?thesis by (simp add: carried_refl)
  next
    case (skip f)
    then show ?thesis using Cons.IH carried_same by blast
  next
    case (fail f v e)
    then show ?thesis using carried_write [OF assms] carried_same by metis
  next
    case (copy f v f')
    then have "carried P R fs f'" using carried_write [OF assms] carried_same by metis
    then show ?thesis using Cons.IH [OF copy(4)] by (rule carried_trans)
  qed
qed

lemma carry_entries_complete:
  assumes "P \<noteq> R" "length P = length R" and h: "hex_name h" and src: "fs_at fs (P @ [h]) = Some (FileEntry b)"
    and "carry_entries P R names fs = (Inr (), fs')" "h \<in> set names"
  shows "fs_at fs' (R @ [h]) = Some (FileEntry b)"
  using assms(4-)
proof (induction names arbitrary: fs)
  case Nil
  then show ?case by simp
next
  case (Cons n names)
  from Cons.prems(2) show ?case
  proof (cases rule: carry_entries_cases)
    case stop
    then show ?thesis by simp
  next
    case (skip f)
    then have "h \<noteq> n" using Cons.prems(1) hex_name_not_write_temp [OF h] by auto
    with Cons.prems(3) have "h \<in> set names" by simp
    then show ?thesis using Cons.IH [OF _ skip(2)] skip(1) Cons.prems(1) by simp
  next
    case (fail f v e)
    then show ?thesis by simp
  next
    case (copy f v f')
    have same: "fs_at f' (P @ [h]) = Some (FileEntry b)"
      using carried_write [OF assms(1,2) _ copy(3)] copy(1,2) Cons.prems(1) by (simp add: carried_def)
    show ?thesis
    proof (cases "h \<in> set names")
      case True
      then show ?thesis using Cons.IH [OF same copy(4)] by simp
    next
      case False
      then have "n = h" using Cons.prems(3) by simp
      then have "fs_at f' (R @ [h]) = Some (FileEntry b)"
        using atomic_write_spec(1) [OF copy(3)] copy(2) Cons.prems(1) by simp
      then show ?thesis
        using carry_entries_carried [OF assms(1,2) copy(4)] h same by (fastforce simp: carried_def)
    qed
  qed
qed

text \<open>A file system is a tree when every entry below a directory segment has its parent directory.\<close>

definition fs_tree :: "Fs \<Rightarrow> bool" where
  "fs_tree fs \<longleftrightarrow> (\<forall>(p, e) \<in> set (fs_entries fs). length p > 1 \<longrightarrow> fs_at fs (butlast p) = Some DirEntry)"

lemma fs_at_mem: "fs_at fs p = Some e \<Longrightarrow> (p, e) \<in> set (fs_entries fs)"
  by (simp add: fs_at_def map_of_SomeD)

lemma dir_children_mem: "fs_at fs (dir @ [n]) = Some e \<Longrightarrow> n \<in> set (dir_children dir fs)"
proof -
  assume "fs_at fs (dir @ [n]) = Some e"
  then have "dir @ [n] \<in> set (map fst (fs_entries fs))" by (force dest: fs_at_mem)
  then show ?thesis by (force simp: dir_children_def under_def)
qed

lemma fs_read_dir_Inr: "fs_read_dir d fs = (Inr names, fs') \<Longrightarrow> names = dir_children d fs"
  unfolding fs_read_dir_def
  by (auto elim!: sys_InrE simp: fs_simps dir_children_def split: option.splits FsEntry.splits)

lemma fs_read_dir_NotFound: "fs_read_dir d fs = (Inl NotFound, fs') \<Longrightarrow> fs_at fs d = None"
  unfolding fs_read_dir_def sys_def
  by (auto simp: fs_simps no_effect_def
      split: if_splits list.splits Fault.splits option.splits FsEntry.splits)

lemma namespace_path_ne:
  "path_segment p \<noteq> path_segment q \<Longrightarrow> namespace_path base pl p n \<noteq> namespace_path base pl q n"
  by (simp add: namespace_path_def)

lemma length_namespace_path: "length (namespace_path base pl p n) = length base + 4"
  by (simp add: namespace_path_def)

text \<open>
  C39. Carry-forward between two runs with different directory names, under every fault schedule:
  the prior run reads as before; in the resumed run each key reads as before or as in the prior run;
  and when it reports success, every key the prior run holds reads the same in the resumed run.
\<close>

theorem carry_forward_copies:
  assumes "path_segment prior \<noteq> path_segment resumed" "fs_tree fs" "base \<noteq> []"
    and cf: "carry_forward base pl prior resumed node fs = (r, fs')"
  shows "stored (for_node base pl prior node) key fs' = stored (for_node base pl prior node) key fs
    \<and> (stored (for_node base pl resumed node) key fs' = stored (for_node base pl resumed node) key fs
       \<or> stored (for_node base pl resumed node) key fs' = stored (for_node base pl prior node) key fs)
    \<and> (r = Inr () \<longrightarrow> (\<forall>v. stored (for_node base pl prior node) key fs = Inr (Some v)
         \<longrightarrow> stored (for_node base pl resumed node) key fs' = Inr (Some v)))"
proof -
  define P where "P = namespace_path base pl prior node"
  define R where "R = namespace_path base pl resumed node"
  define h where "h = encode_key key"
  have ne: "P \<noteq> R" and len: "length P = length R" and h: "hex_name h"
    using namespace_path_ne [OF assms(1)] by (simp_all add: P_def R_def h_def length_namespace_path encode_key_hex)
  obtain d f where d: "fs_read_dir P fs = (d, f)" by fastforce
  have f: "fs_at f q = fs_at fs q" for q using d fs_read_dir_frame [of P fs q] by simp
  have cd: "carried P R fs fs' \<and>
      (r = Inr () \<longrightarrow> (\<forall>b. fs_at fs (P @ [h]) = Some (FileEntry b) \<longrightarrow> fs_at fs' (R @ [h]) = Some (FileEntry b)))"
  proof (cases d)
    case (Inl e)
    have parent: "fs_at fs P = Some DirEntry" if "fs_at fs (P @ [h]) = Some x" for x
    proof -
      have "length (P @ [h]) > 1" by (simp add: P_def namespace_path_def)
      then show ?thesis using fs_at_mem [OF that] assms(2) by (auto simp: fs_tree_def dest!: bspec)
    qed
    have "carried P R fs fs'" "r = Inr () \<longrightarrow> e = NotFound"
      using cf Inl d f by (auto simp: carry_forward_def carried_refl simp flip: P_def split: IoError.splits)
    then show ?thesis using parent fs_read_dir_NotFound d Inl by fastforce
  next
    case (Inr names)
    have ce: "carry_entries P R names f = (r, fs')"
      using cf Inr d by (simp add: carry_forward_def flip: P_def R_def)
    have "carried P R fs fs'"
      using carry_entries_carried [OF ne len ce] f carried_same by blast
    moreover have "fs_at fs' (R @ [h]) = Some (FileEntry b)"
      if "r = Inr ()" "fs_at fs (P @ [h]) = Some (FileEntry b)" for b
      using carry_entries_complete [OF ne len h, of f b names fs'] ce that f dir_children_mem [OF that(2)]
        fs_read_dir_Inr [of P fs names f] d Inr by simp
    ultimately show ?thesis by blast
  qed
  from cd have p: "fs_at fs' (P @ [h]) = fs_at fs (P @ [h])" by (simp add: carried_def)
  from cd h have q: "fs_at fs' (R @ [h]) = fs_at fs (R @ [h]) \<or> fs_at fs' (R @ [h]) = fs_at fs (P @ [h])"
    by (auto simp: carried_def)
  from cd have s: "r = Inr () \<Longrightarrow> fs_at fs (P @ [h]) = Some (FileEntry b) \<Longrightarrow> fs_at fs' (R @ [h]) = Some (FileEntry b)" for b
    by blast
  show ?thesis
  proof (intro conjI impI allI)
    show "stored (for_node base pl prior node) key fs' = stored (for_node base pl prior node) key fs"
      using p by (simp add: stored_for_node flip: P_def h_def)
    show "stored (for_node base pl resumed node) key fs' = stored (for_node base pl resumed node) key fs
       \<or> stored (for_node base pl resumed node) key fs' = stored (for_node base pl prior node) key fs"
      using q by (auto simp: stored_for_node simp flip: P_def R_def h_def)
    show "stored (for_node base pl resumed node) key fs' = Inr (Some v)"
      if "r = Inr ()" "stored (for_node base pl prior node) key fs = Inr (Some v)" for v
      using s [OF that(1)] that(2)
      by (simp add: stored_for_node flip: P_def R_def h_def split: option.splits FsEntry.splits)
  qed
qed

definition fs_carry_sample :: Fs where
  "fs_carry_sample = snd (scratch_put (for_node [''runs''] ''p'' ''r1'' 5) [1] [42]
     (fs_sample\<lparr>fs_faults := []\<rparr>))"

theorem carry_forward_copies_witness:
  "\<exists>fs'. carry_forward [''runs''] ''p'' ''r1'' ''r2'' 5 fs_carry_sample = (Inr (), fs')
     \<and> stored (for_node [''runs''] ''p'' ''r2'' 5) [1] fs' = Inr (Some [42])"
proof -
  obtain r fs' where cf: "carry_forward [''runs''] ''p'' ''r1'' ''r2'' 5 fs_carry_sample = (r, fs')" by fastforce
  have r: "fst (carry_forward [''runs''] ''p'' ''r1'' ''r2'' 5 fs_carry_sample) = Inr ()" by code_simp
  have seg: "path_segment ''r1'' \<noteq> path_segment ''r2''" by code_simp
  have tree: "fs_tree fs_carry_sample" unfolding fs_tree_def by code_simp
  have src: "stored (for_node [''runs''] ''p'' ''r1'' 5) [1] fs_carry_sample = Inr (Some [42])" by code_simp
  show ?thesis using carry_forward_copies [OF seg tree _ cf] r cf src by simp
qed

text \<open>Two run identities can have the same directory: the segment is not injective.\<close>

lemma path_segment_collision: "path_segment ''a/b'' = path_segment ''a_b''"
  by code_simp

lemma namespace_collision:
  "for_node base pl ''a/b'' node = for_node base pl ''a_b'' node"
  by (simp add: for_node_def namespace_path_def path_segment_collision)


section \<open>Isolation of nodes\<close>

lemma nibble_bound: "unat (drop_bit n w AND (0xf :: u64)) < 16"
proof -
  have "drop_bit n w AND (0xf :: u64) \<le> 0xf" by (simp add: word_and_le1)
  then show ?thesis by (simp add: word_le_nat_alt)
qed

lemma nibble_eq_bits:
  assumes "\<And>i. i < 16 \<Longrightarrow> drop_bit (4 * i) a AND 0xf = drop_bit (4 * i) b AND (0xf :: u64)"
  shows "a = b"
proof (rule bit_word_eqI)
  fix k assume "k < LENGTH(64)"
  then have i: "k div 4 < 16" by simp
  have m: "(0xf :: u64) = mask 4" by (simp add: mask_eq_exp_minus_1)
  have "bit (drop_bit (4 * (k div 4)) w AND (0xf :: u64)) (k mod 4) = bit w k" for w
  proof -
    have "k mod 4 < 64" by (rule less_trans [of _ 4]) simp_all
    then show ?thesis by (simp add: m bit_simps)
  qed
  with assms [OF i] show "bit a k = bit b k" by metis
qed

lemma node_segment_inj [simp]: "node_segment a = node_segment b \<longleftrightarrow> a = b"
proof
  assume eq: "node_segment a = node_segment b"
  have "drop_bit (4 * i) a AND 0xf = drop_bit (4 * i) b AND (0xf :: u64)" if "i < 16" for i
  proof -
    have "hex_char (unat (drop_bit (4 * i) a AND 0xf)) = hex_char (unat (drop_bit (4 * i) b AND 0xf))"
      using eq that by (simp add: node_segment_def hex16_def)
    then show ?thesis using nibble_bound by (simp add: hex_char_inj) (rule unsigned_word_eqI)
  qed
  then show "a = b" by (rule nibble_eq_bits)
qed simp

text \<open>A put through one node's handle never changes what another node of the run reads.\<close>

lemma scratch_isolated:
  assumes "scratch_put (for_node base pl run node) k v fs = (r, fs')" "node' \<noteq> node"
  shows "stored (for_node base pl run node') k' fs' = stored (for_node base pl run node') k' fs"
proof -
  define P where "P = namespace_path base pl run node"
  define Q where "Q = namespace_path base pl run node'"
  have ne: "Q \<noteq> P" "length Q = length P" using assms(2) by (simp_all add: P_def Q_def namespace_path_def)
  obtain w where w: "atomic_write P (P @ [encode_key k]) v fs = (w, fs')"
    using assms(1) by (auto simp: scratch_put_def for_node_def map_io_err_def key_path_def
        simp flip: P_def split: prod.splits)
  have "fs_at fs' (Q @ [encode_key k']) = fs_at fs (Q @ [encode_key k'])"
    using atomic_write_spec(2) [OF w, of "Q @ [encode_key k']"]
      dir_prefixes_length [of "Q @ [encode_key k']" P] ne by auto
  then show ?thesis by (simp add: stored_for_node flip: Q_def)
qed

end
