(* ===== verification/Context.thy ===== *)
theory Context
  imports Scratch
begin

text \<open>
  What a task is told (\<open>crates/core/src/context.rs\<close>): the cancellation tree of run and attempt
  tokens, the typed resource registry with its bootstrap validation, the covered states of a teardown
  node, and the run context with its builder.

  A shared \<open>AtomicBool\<close> is a cell of a heap, named by its address.  A Rust type is its type id, a
  natural number; \<open>type_name\<close> is the compiler's and a parameter.  A \<open>HashMap\<close> whose iteration
  order nothing observes is an ordered map.
\<close>

section \<open>Cancellation\<close>

type_synonym flag_heap = "bool list"

datatype CancellationSource =
  CancellationSource (cs_flag: nat) (cs_parent: "CancellationSource option")

record CancellationSignal =
  sig_flag :: nat
  sig_parent :: "CancellationSource option"

definition source_new :: "flag_heap \<Rightarrow> CancellationSource \<times> flag_heap" where
  "source_new h = (CancellationSource (length h) None, h @ [False])"

definition source_child :: "CancellationSource \<Rightarrow> flag_heap \<Rightarrow> CancellationSource \<times> flag_heap" where
  "source_child s h = (CancellationSource (length h) (Some s), h @ [False])"

fun source_is_cancelled :: "flag_heap \<Rightarrow> CancellationSource \<Rightarrow> bool" where
  "source_is_cancelled h (CancellationSource f None) = h ! f"
| "source_is_cancelled h (CancellationSource f (Some p)) = (h ! f \<or> source_is_cancelled h p)"

definition source_signal :: "CancellationSource \<Rightarrow> CancellationSignal" where
  "source_signal s = \<lparr>sig_flag = cs_flag s, sig_parent = cs_parent s\<rparr>"

definition source_cancel :: "CancellationSource \<Rightarrow> flag_heap \<Rightarrow> flag_heap" where
  "source_cancel s h = h[cs_flag s := True]"

definition signal_is_cancelled :: "flag_heap \<Rightarrow> CancellationSignal \<Rightarrow> bool" where
  "signal_is_cancelled h s \<longleftrightarrow>
     h ! sig_flag s \<or> (case sig_parent s of None \<Rightarrow> False | Some p \<Rightarrow> source_is_cancelled h p)"

datatype CancellationOrigin = FailureUnderStop | ExternalInterrupt

lemma signal_of_source [simp]: "signal_is_cancelled h (source_signal s) = source_is_cancelled h s"
  by (cases "(h, s)" rule: source_is_cancelled.cases) (simp_all add: signal_is_cancelled_def source_signal_def)

section \<open>Resources\<close>

type_synonym type_id = nat

text \<open>A \<open>dyn Any\<close>: the type id the compiler stored with the value.\<close>

datatype 'a Any = Any (any_type: type_id) (any_value: 'a)

definition downcast_ref :: "type_id \<Rightarrow> 'a Any \<Rightarrow> 'a option" where
  "downcast_ref ty a = (if any_type a = ty then Some (any_value a) else None)"

datatype RegistryError = Duplicate string

record 'a ResourceRegistry =
  rg_resources :: "(type_id, 'a Any) btree"

definition registry_builder :: "'a ResourceRegistry" where
  "registry_builder = \<lparr>rg_resources = []\<rparr>"

definition register_resource ::
  "(type_id \<Rightarrow> string) \<Rightarrow> 'a Any \<Rightarrow> 'a ResourceRegistry \<Rightarrow> RegistryError + 'a ResourceRegistry" where
  "register_resource type_name resource b =
     (let ty = any_type resource in
      if bt_get (rg_resources b) ty \<noteq> None then Inl (Duplicate (type_name ty))
      else Inr (b\<lparr>rg_resources := bt_insert ty resource (rg_resources b)\<rparr>))"

definition registry_get :: "type_id \<Rightarrow> 'a ResourceRegistry \<Rightarrow> 'a option" where
  "registry_get ty r = Option.bind (bt_get (rg_resources r) ty) (downcast_ref ty)"

definition registry_len :: "'a ResourceRegistry \<Rightarrow> nat" where
  "registry_len r = length (rg_resources r)"

definition registry_is_empty :: "'a ResourceRegistry \<Rightarrow> bool" where
  "registry_is_empty r \<longleftrightarrow> rg_resources r = []"

record ResourceRequirement =
  rr_type_id :: type_id
  rr_type_name :: string

definition requirement_of :: "(type_id \<Rightarrow> string) \<Rightarrow> type_id \<Rightarrow> ResourceRequirement" where
  "requirement_of type_name ty = \<lparr>rr_type_id = ty, rr_type_name = type_name ty\<rparr>"

type_synonym requirements = "(type_id, ResourceRequirement) btree"

definition requirements_new :: requirements where
  "requirements_new = []"

definition require :: "(type_id \<Rightarrow> string) \<Rightarrow> type_id \<Rightarrow> requirements \<Rightarrow> requirements" where
  "require type_name ty rs =
     (let req = requirement_of type_name ty in bt_insert (rr_type_id req) req rs)"

definition requires :: "type_id \<Rightarrow> requirements \<Rightarrow> bool" where
  "requires ty rs \<longleftrightarrow> bt_get rs ty \<noteq> None"

definition requirements_iter :: "requirements \<Rightarrow> ResourceRequirement list" where
  "requirements_iter rs = bt_values rs"

record MissingResourceError =
  mr_type_name :: string
  mr_requiring_nodes :: "node_id list"

record BootstrapFailure =
  bf_errors :: "MissingResourceError list"

datatype BootstrapOutcome = BootstrapSucceeded | BootstrapFailed

definition bootstrap_outcome :: "BootstrapFailure \<Rightarrow> BootstrapOutcome" where
  "bootstrap_outcome f = BootstrapFailed"

definition attempts_recorded :: "BootstrapFailure \<Rightarrow> nat" where
  "attempts_recorded f = 0"

definition note_missing ::
  "node_id \<Rightarrow> ResourceRequirement \<Rightarrow> (type_id, MissingResourceError) btree
     \<Rightarrow> (type_id, MissingResourceError) btree" where
  "note_missing node req missing =
     (let entry = (case bt_get missing (rr_type_id req) of
            Some e \<Rightarrow> e
          | None \<Rightarrow> \<lparr>mr_type_name = rr_type_name req, mr_requiring_nodes = []\<rparr>);
          entry = (if node \<in> set (mr_requiring_nodes entry) then entry
            else entry\<lparr>mr_requiring_nodes := mr_requiring_nodes entry @ [node]\<rparr>)
      in bt_insert (rr_type_id req) entry missing)"

definition check_requirement ::
  "'a ResourceRegistry \<Rightarrow> node_id \<Rightarrow> ResourceRequirement \<Rightarrow> (type_id, MissingResourceError) btree
     \<Rightarrow> (type_id, MissingResourceError) btree" where
  "check_requirement r node req missing =
     (if bt_get (rg_resources r) (rr_type_id req) \<noteq> None then missing else note_missing node req missing)"

definition missing_resources ::
  "'a ResourceRegistry \<Rightarrow> (node_id \<times> requirements) list \<Rightarrow> (type_id, MissingResourceError) btree" where
  "missing_resources r declarations =
     fold (\<lambda>(node, reqs). fold (check_requirement r node) (requirements_iter reqs)) declarations []"

definition validate_requirements ::
  "'a ResourceRegistry \<Rightarrow> (node_id \<times> requirements) list \<Rightarrow> BootstrapFailure + unit" where
  "validate_requirements r declarations =
     (let missing = missing_resources r declarations in
      if missing = [] then Inr () else Inl \<lparr>bf_errors = bt_values missing\<rparr>)"

definition surface_requirements :: "(node_id \<times> requirements) list \<Rightarrow> (node_id \<times> string) list" where
  "surface_requirements declarations =
     concat (map (\<lambda>(node, reqs). map (\<lambda>req. (node, rr_type_name req)) (requirements_iter reqs)) declarations)"

definition missing_display :: "(node_id list \<Rightarrow> string) \<Rightarrow> MissingResourceError \<Rightarrow> string" where
  "missing_display debug_nodes e =
     ''resource `'' @ mr_type_name e @ ''` is required but was never registered; required by ''
     @ show_nat (length (mr_requiring_nodes e)) @ '' node(s): '' @ debug_nodes (mr_requiring_nodes e)"

definition bootstrap_failure_display :: "(node_id list \<Rightarrow> string) \<Rightarrow> BootstrapFailure \<Rightarrow> string" where
  "bootstrap_failure_display debug_nodes f =
     ''bootstrap failed: '' @ show_nat (length (bf_errors f)) @ '' unmet resource requirement(s)''
     @ concat (map (\<lambda>e. ''; '' @ missing_display debug_nodes e) (bf_errors f))"

section \<open>Covered states and the run context\<close>

type_synonym covered_states = "(node_id, TerminalState) btree"

definition covered_with :: "node_id \<Rightarrow> TerminalState \<Rightarrow> covered_states \<Rightarrow> covered_states" where
  "covered_with node st cs = bt_insert node st cs"

definition covered_get :: "node_id \<Rightarrow> covered_states \<Rightarrow> TerminalState option" where
  "covered_get node cs = bt_get cs node"

record DataInterval =
  di_start :: string
  di_end :: string

record LogSpan =
  sp_run :: string
  sp_node :: node_id
  sp_attempt :: u32

record 'a RunContext =
  rc_run :: string
  rc_pipeline :: string
  rc_node :: node_id
  rc_attempt :: u32
  rc_max_attempts :: u32
  rc_parameters :: "'a Any option"
  rc_data_interval :: "DataInterval option"
  rc_cancellation :: CancellationSignal
  rc_span :: LogSpan
  rc_resources :: "'a ResourceRegistry"
  rc_scratch :: ScratchStore
  rc_covered :: "covered_states option"
  rc_temp_dir :: "path option"

record 'a RunContextBuilder =
  rb_run :: string
  rb_pipeline :: string
  rb_node :: node_id
  rb_attempt :: u32
  rb_max_attempts :: u32
  rb_parameters :: "'a Any option"
  rb_data_interval :: "DataInterval option"
  rb_cancellation :: "CancellationSignal option"
  rb_resources :: "'a ResourceRegistry"
  rb_scratch_root :: "path option"
  rb_covered :: "covered_states option"
  rb_temp_dir :: "path option"

definition context_builder :: "string \<Rightarrow> string \<Rightarrow> node_id \<Rightarrow> 'a RunContextBuilder" where
  "context_builder run pipeline node =
     \<lparr>rb_run = run, rb_pipeline = pipeline, rb_node = node, rb_attempt = 1, rb_max_attempts = 1,
      rb_parameters = None, rb_data_interval = None, rb_cancellation = None,
      rb_resources = registry_builder, rb_scratch_root = None, rb_covered = None, rb_temp_dir = None\<rparr>"

definition with_attempt :: "u32 \<Rightarrow> 'a RunContextBuilder \<Rightarrow> 'a RunContextBuilder" where
  "with_attempt n b = b\<lparr>rb_attempt := n\<rparr>"

definition with_max_attempts :: "u32 \<Rightarrow> 'a RunContextBuilder \<Rightarrow> 'a RunContextBuilder" where
  "with_max_attempts n b = b\<lparr>rb_max_attempts := n\<rparr>"

definition with_parameters :: "'a Any \<Rightarrow> 'a RunContextBuilder \<Rightarrow> 'a RunContextBuilder" where
  "with_parameters p b = b\<lparr>rb_parameters := Some p\<rparr>"

definition with_data_interval :: "DataInterval \<Rightarrow> 'a RunContextBuilder \<Rightarrow> 'a RunContextBuilder" where
  "with_data_interval i b = b\<lparr>rb_data_interval := Some i\<rparr>"

definition with_cancellation :: "CancellationSignal \<Rightarrow> 'a RunContextBuilder \<Rightarrow> 'a RunContextBuilder" where
  "with_cancellation s b = b\<lparr>rb_cancellation := Some s\<rparr>"

definition with_resources :: "'a ResourceRegistry \<Rightarrow> 'a RunContextBuilder \<Rightarrow> 'a RunContextBuilder" where
  "with_resources r b = b\<lparr>rb_resources := r\<rparr>"

definition with_scratch_root :: "path \<Rightarrow> 'a RunContextBuilder \<Rightarrow> 'a RunContextBuilder" where
  "with_scratch_root base b = b\<lparr>rb_scratch_root := Some base\<rparr>"

definition with_covered :: "covered_states \<Rightarrow> 'a RunContextBuilder \<Rightarrow> 'a RunContextBuilder" where
  "with_covered c b = b\<lparr>rb_covered := Some c\<rparr>"

definition with_temp_dir :: "path \<Rightarrow> 'a RunContextBuilder \<Rightarrow> 'a RunContextBuilder" where
  "with_temp_dir d b = b\<lparr>rb_temp_dir := Some d\<rparr>"

definition context_build :: "'a RunContextBuilder \<Rightarrow> flag_heap \<Rightarrow> 'a RunContext \<times> flag_heap" where
  "context_build b h =
     (let (cancellation, h) = (case rb_cancellation b of
            Some s \<Rightarrow> (s, h)
          | None \<Rightarrow> (let (src, h) = source_new h in (source_signal src, h)));
          span = \<lparr>sp_run = rb_run b, sp_node = rb_node b, sp_attempt = rb_attempt b\<rparr>;
          scratch = (case rb_scratch_root b of
            Some base \<Rightarrow> for_node base (rb_pipeline b) (rb_run b) (rb_node b)
          | None \<Rightarrow> unwired)
      in (\<lparr>rc_run = rb_run b, rc_pipeline = rb_pipeline b, rc_node = rb_node b,
           rc_attempt = rb_attempt b, rc_max_attempts = rb_max_attempts b,
           rc_parameters = rb_parameters b, rc_data_interval = rb_data_interval b,
           rc_cancellation = cancellation, rc_span = span, rc_resources = rb_resources b,
           rc_scratch = scratch, rc_covered = rb_covered b, rc_temp_dir = rb_temp_dir b\<rparr>, h))"

definition context_for_test :: "flag_heap \<Rightarrow> 'a RunContext \<times> flag_heap" where
  "context_for_test = context_build
     (context_builder ''test-run'' ''test-pipeline'' (from_name ''test-node''))"

definition context_parameters :: "type_id \<Rightarrow> 'a RunContext \<Rightarrow> 'a option" where
  "context_parameters ty c = Option.bind (rc_parameters c) (downcast_ref ty)"


section \<open>The cancellation tree against its specification\<close>

text \<open>
  The specification is the tree itself: each token has a parent or none, a set of tokens was
  cancelled, and a token observes cancellation when it or an ancestor was.
\<close>

datatype cancel_op = NewRun | NewChild nat | Cancel nat

type_synonym cancel_sys = "flag_heap \<times> CancellationSource list"

fun cancel_step :: "cancel_op \<Rightarrow> cancel_sys \<Rightarrow> cancel_sys" where
  "cancel_step NewRun (h, ss) = (case source_new h of (s, h') \<Rightarrow> (h', ss @ [s]))"
| "cancel_step (NewChild i) (h, ss) =
     (if i < length ss then (case source_child (ss ! i) h of (s, h') \<Rightarrow> (h', ss @ [s])) else (h, ss))"
| "cancel_step (Cancel i) (h, ss) = (if i < length ss then (source_cancel (ss ! i) h, ss) else (h, ss))"

type_synonym cancel_spec = "nat option list \<times> nat set"

fun cancel_spec_step :: "cancel_op \<Rightarrow> cancel_spec \<Rightarrow> cancel_spec" where
  "cancel_spec_step NewRun (ps, raised) = (ps @ [None], raised)"
| "cancel_spec_step (NewChild i) (ps, raised) = (if i < length ps then (ps @ [Some i], raised) else (ps, raised))"
| "cancel_spec_step (Cancel i) (ps, raised) = (if i < length ps then (ps, insert i raised) else (ps, raised))"

definition parent_rel :: "nat option list \<Rightarrow> (nat \<times> nat) set" where
  "parent_rel ps = {(i, j). i < length ps \<and> ps ! i = Some j}"

definition spec_cancelled :: "cancel_spec \<Rightarrow> nat \<Rightarrow> bool" where
  "spec_cancelled = (\<lambda>(ps, raised) i. \<exists>j \<in> raised. (i, j) \<in> (parent_rel ps)\<^sup>*)"

definition cancel_abs :: "cancel_sys \<times> cancel_spec \<Rightarrow> bool" where
  "cancel_abs = (\<lambda>((h, ss), (ps, raised)).
     length h = length ss \<and> length ps = length ss
     \<and> (\<forall>i < length ss. cs_flag (ss ! i) = i \<and> cs_parent (ss ! i) = map_option ((!) ss) (ps ! i)
          \<and> (\<forall>j. ps ! i = Some j \<longrightarrow> j < i) \<and> h ! i = (i \<in> raised))
     \<and> (\<forall>i \<in> raised. i < length ss))"

definition cancel_pair_step :: "cancel_op \<Rightarrow> cancel_sys \<times> cancel_spec \<Rightarrow> cancel_sys \<times> cancel_spec" where
  "cancel_pair_step op = (\<lambda>(c, a). (cancel_step op c, cancel_spec_step op a))"

lemma cancel_abs_step: "cancel_abs ca \<Longrightarrow> cancel_abs (cancel_pair_step op ca)"
proof -
  assume abs: "cancel_abs ca"
  obtain h ss ps raised where ca: "ca = ((h, ss), (ps, raised))" by (metis surj_pair)
  have eq: "map_option ((!) (ss @ [s])) (ps ! i) = map_option ((!) ss) (ps ! i)" if "i < length ss" for i s
    using abs that by (cases "ps ! i") (force simp: cancel_abs_def ca nth_append)+
  show "cancel_abs (cancel_pair_step op ca)"
  proof (cases op)
    case NewRun
    then show ?thesis
      using abs eq by (auto simp: ca cancel_pair_step_def cancel_abs_def source_new_def nth_append less_Suc_eq)
  next
    case (NewChild i)
    then show ?thesis
      using abs eq by (auto simp: ca cancel_pair_step_def cancel_abs_def source_child_def nth_append less_Suc_eq)
  next
    case (Cancel i)
    then show ?thesis
      using abs by (auto simp: ca cancel_pair_step_def cancel_abs_def source_cancel_def nth_list_update)
  qed
qed

interpretation cancel_sim: invariant_machine cancel_pair_step cancel_abs
  by unfold_locales (rule cancel_abs_step)

lemma fold_cancel_pair:
  "fold cancel_pair_step ops (c, a) = (fold cancel_step ops c, fold cancel_spec_step ops a)"
  by (induction ops arbitrary: c a) (simp_all add: cancel_pair_step_def)

lemma spec_cancelled_unfold:
  assumes "i < length ps"
  shows "spec_cancelled (ps, raised) i \<longleftrightarrow>
    i \<in> raised \<or> (case ps ! i of None \<Rightarrow> False | Some p \<Rightarrow> spec_cancelled (ps, raised) p)"
proof -
  have "(i, j) \<in> (parent_rel ps)\<^sup>* \<longleftrightarrow> j = i \<or> (\<exists>p. ps ! i = Some p \<and> (p, j) \<in> (parent_rel ps)\<^sup>*)" for j
    using assms by (auto simp: parent_rel_def elim: converse_rtranclE intro: converse_rtrancl_into_rtrancl)
  then show ?thesis by (auto simp: spec_cancelled_def split: option.split)
qed

lemma source_unfold:
  "source_is_cancelled h s \<longleftrightarrow>
     h ! cs_flag s \<or> (case cs_parent s of None \<Rightarrow> False | Some p \<Rightarrow> source_is_cancelled h p)"
  by (cases "(h, s)" rule: source_is_cancelled.cases) simp_all

lemma cancel_abs_observes:
  assumes abs: "cancel_abs ((h, ss), (ps, raised))"
  shows "i < length ss \<Longrightarrow> source_is_cancelled h (ss ! i) = spec_cancelled (ps, raised) i"
proof (induction i rule: less_induct)
  case (less i)
  have i: "i < length ps" "cs_flag (ss ! i) = i" "cs_parent (ss ! i) = map_option ((!) ss) (ps ! i)"
    "h ! i = (i \<in> raised)" "\<And>j. ps ! i = Some j \<Longrightarrow> j < i"
    using abs less.prems by (auto simp: cancel_abs_def)
  show ?case
    using i less.IH less.prems
    by (subst source_unfold, subst spec_cancelled_unfold) (auto split: option.split)
qed

text \<open>
  C27. Over any sequence of new runs, attempt children and cancellations, the signal of a token
  observes cancellation exactly when the token or one of its ancestors was cancelled: a run's
  cancellation reaches every attempt below it, an attempt's reaches only itself and what is below it.
\<close>

theorem cancellation_refines:
  assumes "fold cancel_step ops ([], []) = (h, ss)" "i < length ss"
  shows "signal_is_cancelled h (source_signal (ss ! i)) =
    spec_cancelled (fold cancel_spec_step ops ([], {})) i"
proof -
  obtain ps raised where a: "fold cancel_spec_step ops ([], {}) = (ps, raised)" by fastforce
  have "cancel_abs (([], []), ([], {}))" by (simp add: cancel_abs_def)
  from cancel_sim.run_inv [OF this, of ops] assms(1) a have "cancel_abs ((h, ss), (ps, raised))"
    by (simp add: fold_cancel_pair)
  from cancel_abs_observes [OF this assms(2)] a show ?thesis by simp
qed

theorem cancellation_refines_witness:
  "\<exists>h ss. fold cancel_step [NewRun, NewChild 0, NewChild 0, Cancel 1] ([], []) = (h, ss)
     \<and> signal_is_cancelled h (source_signal (ss ! 1)) \<and> \<not> signal_is_cancelled h (source_signal (ss ! 2))"
proof -
  let ?ops = "[NewRun, NewChild 0, NewChild 0, Cancel 1]"
  obtain h ss where c: "fold cancel_step ?ops ([], []) = (h, ss)" by fastforce
  then have l: "length ss = 3" by (auto simp: source_new_def source_child_def source_cancel_def)
  have a: "fold cancel_spec_step ?ops ([], {}) = ([None, Some 0, Some 0], {1})" by simp
  have "spec_cancelled ([None, Some 0, Some 0], {1}) 1" "\<not> spec_cancelled ([None, Some 0, Some 0], {1}) 2"
    by (simp_all add: spec_cancelled_unfold)
  then show ?thesis
    using c l cancellation_refines [OF c, of 1] cancellation_refines [OF c, of 2] a by auto
qed

section \<open>Bootstrap validation is exact\<close>

lemma bt_eq_sorted_keys:
  "bt_ok m \<Longrightarrow> m = map (\<lambda>k. (k, the (bt_get m k))) (sorted_list_of_set (set (bt_keys m)))"
proof -
  assume ok: "bt_ok m"
  have "sorted_list_of_set (set (map fst m)) = map fst m"
    by (rule sorted_list_of_set.idem_if_sorted_distinct) (rule bt_keys_sorted [OF ok], rule bt_keys_distinct [OF ok])
  then have "sorted_list_of_set (set (bt_keys m)) = map fst m" by (simp only: bt_keys_def)
  moreover have "map (\<lambda>k. (k, the (bt_get m k))) (map fst m) = m"
  proof -
    have "(k, the (bt_get m k)) = kv" if "kv \<in> set m" "k = fst kv" for k kv
      using bt_get_Some_iff [OF ok, of k "snd kv"] that by (cases kv) simp
    then show ?thesis by (simp add: map_idI)
  qed
  ultimately show ?thesis by simp
qed

definition requirements_ok :: "(type_id \<Rightarrow> string) \<Rightarrow> requirements \<Rightarrow> bool" where
  "requirements_ok tn rs \<longleftrightarrow> bt_ok rs \<and> (\<forall>(ty, req) \<in> set rs. req = requirement_of tn ty)"

lemma requirements_ok_new [simp]: "requirements_ok tn requirements_new"
  by (simp add: requirements_ok_def requirements_new_def)

lemma set_bt_insert: "bt_ok m \<Longrightarrow> set (bt_insert k v m) \<subseteq> insert (k, v) (set m)"
  by (induction k v m rule: bt_insert.induct) (auto simp: bt_ok_Cons)

lemma requirements_ok_require [simp]: "requirements_ok tn rs \<Longrightarrow> requirements_ok tn (require tn ty rs)"
  using set_bt_insert [of rs ty "requirement_of tn ty"]
  by (auto simp: requirements_ok_def require_def requirement_of_def Let_def)

text \<open>The nodes of a declaration list, in order, that declare a type; each node once.\<close>

definition push_new :: "'a \<Rightarrow> 'a list \<Rightarrow> 'a list" where
  "push_new x xs = (if x \<in> set xs then xs else xs @ [x])"

definition requiring :: "(node_id \<times> type_id) list \<Rightarrow> type_id \<Rightarrow> node_id list" where
  "requiring ds ty = fold push_new (map fst (filter (\<lambda>d. snd d = ty) ds)) []"

definition declared_pairs :: "(node_id \<times> requirements) list \<Rightarrow> (node_id \<times> type_id) list" where
  "declared_pairs decls = concat (map (\<lambda>(node, reqs). map (\<lambda>ty. (node, ty)) (bt_keys reqs)) decls)"

definition unregistered :: "'a ResourceRegistry \<Rightarrow> (node_id \<times> requirements) list \<Rightarrow> type_id set" where
  "unregistered r decls =
     {ty. (\<exists>node reqs. (node, reqs) \<in> set decls \<and> requires ty reqs) \<and> bt_get (rg_resources r) ty = None}"

lemma requiring_snoc: "requiring (ds @ [(n, ty)]) t =
    (if ty = t then push_new n (requiring ds t) else requiring ds t)"
  by (simp add: requiring_def)

lemma requiring_eq_Nil: "requiring ds t = [] \<longleftrightarrow> t \<notin> snd ` set ds"
proof -
  have ne: "xs \<noteq> [] \<Longrightarrow> fold push_new ys xs \<noteq> []" for xs ys :: "node_id list"
    by (induction ys arbitrary: xs) (auto simp: push_new_def)
  show ?thesis
  proof (cases "map fst (filter (\<lambda>d. snd d = t) ds)")
    case Nil
    then show ?thesis by (auto simp: requiring_def filter_empty_conv)
  next
    case (Cons n ns)
    then have "\<exists>d. d \<in> set (filter (\<lambda>d. snd d = t) ds)" by (cases "filter (\<lambda>d. snd d = t) ds") auto
    then have "t \<in> snd ` set ds" by force
    then show ?thesis using ne [of "[n]" ns] by (simp add: requiring_def Cons push_new_def)
  qed
qed

definition missing_inv ::
  "(type_id \<Rightarrow> string) \<Rightarrow> 'a ResourceRegistry \<Rightarrow> (node_id \<times> type_id) list
     \<Rightarrow> (type_id, MissingResourceError) btree \<Rightarrow> bool" where
  "missing_inv tn r ds m \<longleftrightarrow> bt_ok m \<and> (\<forall>ty. bt_get m ty =
     (if bt_get (rg_resources r) ty = None \<and> requiring ds ty \<noteq> []
      then Some \<lparr>mr_type_name = tn ty, mr_requiring_nodes = requiring ds ty\<rparr> else None))"

lemma missing_inv_step:
  assumes "missing_inv tn r ds m"
  shows "missing_inv tn r (ds @ [(n, ty)]) (check_requirement r n (requirement_of tn ty) m)"
proof (cases "bt_get (rg_resources r) ty")
  case None
  have new: "push_new n (requiring ds ty) \<noteq> []" by (auto simp: push_new_def)
  have "check_requirement r n (requirement_of tn ty) m =
      bt_insert ty \<lparr>mr_type_name = tn ty, mr_requiring_nodes = push_new n (requiring ds ty)\<rparr> m"
  proof (cases "requiring ds ty = []")
    case True
    then have "bt_get m ty = None" using assms None by (simp add: missing_inv_def)
    then show ?thesis
      using None True by (simp add: check_requirement_def note_missing_def requirement_of_def push_new_def Let_def)
  next
    case False
    then have "bt_get m ty = Some \<lparr>mr_type_name = tn ty, mr_requiring_nodes = requiring ds ty\<rparr>"
      using assms None by (simp add: missing_inv_def)
    then show ?thesis
      using None by (simp add: check_requirement_def note_missing_def requirement_of_def push_new_def Let_def)
  qed
  then show ?thesis
    using assms None new by (simp add: missing_inv_def requiring_snoc)
next
  case (Some x)
  then show ?thesis
    using assms by (auto simp: missing_inv_def check_requirement_def requirement_of_def requiring_snoc)
qed

lemma missing_inv_reqs:
  assumes "missing_inv tn r ds m" "requirements_ok tn reqs"
  shows "missing_inv tn r (ds @ map (\<lambda>ty. (n, ty)) (bt_keys reqs))
    (fold (check_requirement r n) (requirements_iter reqs) m)"
proof -
  have "\<forall>(ty, req) \<in> set kvs. req = requirement_of tn ty \<Longrightarrow> missing_inv tn r ds m \<Longrightarrow>
      missing_inv tn r (ds @ map (\<lambda>kv. (n, fst kv)) kvs) (fold (check_requirement r n) (map snd kvs) m)"
    for kvs :: requirements
  proof (induction kvs arbitrary: ds m)
    case (Cons kv kvs)
    then have "missing_inv tn r (ds @ [(n, fst kv)]) (check_requirement r n (snd kv) m)"
      using missing_inv_step by auto
    from Cons.IH [OF _ this] Cons.prems show ?case by simp
  qed simp
  from this [of reqs] assms show ?thesis
    by (simp add: requirements_ok_def requirements_iter_def bt_values_def bt_keys_def comp_def)
qed

lemma missing_inv_all:
  assumes "\<forall>(n, reqs) \<in> set decls. requirements_ok tn reqs"
  shows "missing_inv tn r (declared_pairs decls) (missing_resources r decls)"
proof -
  have "missing_inv tn r ds m \<Longrightarrow> missing_inv tn r (ds @ declared_pairs decls)
      (fold (\<lambda>(node, reqs). fold (check_requirement r node) (requirements_iter reqs)) decls m)" for ds m
    using assms
  proof (induction decls arbitrary: ds m)
    case (Cons d decls)
    obtain n reqs where d: "d = (n, reqs)" by fastforce
    with Cons.prems have "missing_inv tn r (ds @ map (\<lambda>ty. (n, ty)) (bt_keys reqs))
        (fold (check_requirement r n) (requirements_iter reqs) m)"
      by (intro missing_inv_reqs) auto
    from Cons.IH [OF this] Cons.prems show ?case by (simp add: d declared_pairs_def)
  qed (simp add: declared_pairs_def)
  from this [of "[]" "[]"] show ?thesis by (simp add: missing_inv_def requiring_def missing_resources_def)
qed

text \<open>
  Bootstrap validation accepts exactly the registries that hold every declared type, and
  otherwise reports each missing type once, in the order of the types, with the nodes that declare
  it, each once and in declaration order.
\<close>

theorem validate_requirements_exact:
  assumes "\<forall>(n, reqs) \<in> set decls. requirements_ok tn reqs"
  shows "validate_requirements r decls =
    (if unregistered r decls = {} then Inr ()
     else Inl \<lparr>bf_errors = map (\<lambda>ty. \<lparr>mr_type_name = tn ty,
            mr_requiring_nodes = requiring (declared_pairs decls) ty\<rparr>)
          (sorted_list_of_set (unregistered r decls))\<rparr>)"
proof -
  define m where "m = missing_resources r decls"
  have inv: "missing_inv tn r (declared_pairs decls) m" using missing_inv_all [OF assms] by (simp add: m_def)
  have mem: "requiring (declared_pairs decls) ty \<noteq> [] \<longleftrightarrow> (\<exists>n reqs. (n, reqs) \<in> set decls \<and> requires ty reqs)" for ty
    unfolding requiring_eq_Nil requires_def bt_get_None_iff declared_pairs_def by force
  have get: "bt_get m ty = (if ty \<in> unregistered r decls
      then Some \<lparr>mr_type_name = tn ty, mr_requiring_nodes = requiring (declared_pairs decls) ty\<rparr> else None)" for ty
    using inv mem by (simp add: missing_inv_def unregistered_def)
  have keys: "set (bt_keys m) = unregistered r decls"
  proof (intro set_eqI)
    show "ty \<in> set (bt_keys m) \<longleftrightarrow> ty \<in> unregistered r decls" for ty
      using get [of ty] bt_get_None_iff [of m ty] by (cases "ty \<in> unregistered r decls") simp_all
  qed
  have ok: "bt_ok m" using inv by (simp add: missing_inv_def)
  have fin: "finite (unregistered r decls)" using keys by (metis List.finite_set)
  have m: "m = map (\<lambda>k. (k, the (bt_get m k))) (sorted_list_of_set (unregistered r decls))"
    using bt_eq_sorted_keys [OF ok] keys by simp
  have vals: "bt_values m = map (\<lambda>ty. \<lparr>mr_type_name = tn ty,
      mr_requiring_nodes = requiring (declared_pairs decls) ty\<rparr>) (sorted_list_of_set (unregistered r decls))"
    unfolding bt_values_def by (subst m) (simp add: get fin)
  have "m = [] \<longleftrightarrow> unregistered r decls = {}" using keys by (auto simp: bt_keys_def)
  then show ?thesis using vals by (simp add: validate_requirements_def flip: m_def)
qed

definition sample_type_name :: "type_id \<Rightarrow> string" where
  "sample_type_name ty = ''T'' @ show_nat ty"

definition sample_decls :: "(node_id \<times> requirements) list" where
  "sample_decls = [(7, require sample_type_name 1 requirements_new),
     (9, require sample_type_name 1 (require sample_type_name 2 requirements_new))]"

definition sample_registry :: "nat ResourceRegistry" where
  "sample_registry = \<lparr>rg_resources = [(2, Any 2 5)]\<rparr>"

theorem validate_requirements_exact_witness:
  "validate_requirements sample_registry sample_decls =
     Inl \<lparr>bf_errors = [\<lparr>mr_type_name = ''T1'', mr_requiring_nodes = [7, 9]\<rparr>]\<rparr>"
proof -
  have ok: "\<forall>(n, reqs) \<in> set sample_decls. requirements_ok sample_type_name reqs"
    by (simp add: sample_decls_def)
  have "requires ty (require sample_type_name 1 requirements_new) \<longleftrightarrow> ty = 1"
    "requires ty (require sample_type_name 1 (require sample_type_name 2 requirements_new)) \<longleftrightarrow> ty = 1 \<or> ty = 2" for ty
    by (simp_all add: requires_def require_def requirement_of_def requirements_new_def bt_get_def)
  then have u: "unregistered sample_registry sample_decls = {1}"
    by (auto simp: unregistered_def sample_decls_def sample_registry_def bt_get_def)
  have "requiring (declared_pairs sample_decls) 1 = [7, 9]" by code_simp
  moreover have "sample_type_name 1 = ''T1''" by code_simp
  ultimately show ?thesis
    using validate_requirements_exact [OF ok, of sample_registry] by (simp add: u)
qed

text \<open>A builder's context carries what it was given, and nothing is wired by default.\<close>

lemma context_build_fields:
  assumes "context_build (with_max_attempts m (with_attempt a (context_builder run pl node))) h = (c, h')"
  shows "rc_attempt c = a \<and> rc_max_attempts c = m \<and> rc_node c = node \<and> rc_scratch c = unwired
    \<and> \<not> signal_is_cancelled h' (rc_cancellation c) \<and> sp_attempt (rc_span c) = a"
  using assms by (auto simp: context_build_def with_max_attempts_def with_attempt_def context_builder_def
      source_new_def Let_def)

end
