(* ===== verification/Attempt.thy ===== *)
theory Attempt
  imports Complex_Main Context Slot
begin

text \<open>
  The attempt runner (\<open>crates/core/src/execution.rs\<close>): one attempt of a task with its records, the
  race of an attempt against its deadline, panic containment, and the bounded retry loop with its
  backoff schedule.

  A future is what its polls do, one after the other: it suspends, leaving the task in some state, or
  it is done with a value.  A panic inside a poll is a result of that poll.  Awaiting a future that is
  never done does not return: the value is \<open>None\<close>.  A task's body, the timer, the jitter source and the
  \<open>f64\<close> operations are parameters, the fields of \<open>AttemptEnv\<close> and \<open>F64\<close>.
\<close>

section \<open>Events and outcomes\<close>

datatype AttemptEvent =
    NodeAdmitted string
  | AttemptStarted string u32
  | AttemptSucceeded string u32
  | AttemptFailed string u32
  | AttemptTimedOut string u32
  | BackoffStarted string u32 duration
  | AttemptPanicked string u32 string
  | NodeTerminal string TerminalState

datatype AttemptOutcome =
    SucceededOutcome | PermanentFailure | RetryEligibleFailure | SkippedOutcome | TimedOutOutcome | Panicked

definition terminal_state :: "AttemptOutcome \<Rightarrow> TerminalState" where
  "terminal_state out =
     (case out of
        SucceededOutcome \<Rightarrow> Succeeded
      | PermanentFailure \<Rightarrow> Failed
      | RetryEligibleFailure \<Rightarrow> Failed
      | SkippedOutcome \<Rightarrow> Skipped
      | TimedOutOutcome \<Rightarrow> TimedOut
      | Panicked \<Rightarrow> Failed)"

definition is_success :: "AttemptOutcome \<Rightarrow> bool" where
  "is_success out \<longleftrightarrow> out = SucceededOutcome"

definition is_retry_eligible :: "AttemptOutcome \<Rightarrow> bool" where
  "is_retry_eligible out \<longleftrightarrow> out \<in> {RetryEligibleFailure, TimedOutOutcome}"

definition is_failure :: "AttemptOutcome \<Rightarrow> bool" where
  "is_failure out \<longleftrightarrow> out \<in> {PermanentFailure, RetryEligibleFailure, TimedOutOutcome, Panicked}"

section \<open>Futures and the race\<close>

codatatype ('t, 'a) Body = Done 't 'a | Suspended 't "('t, 'a) Body"

partial_function (option) await_body :: "('t, 'a) Body \<Rightarrow> ('t \<times> 'a) option" where
  "await_body b = (case b of Done t a \<Rightarrow> Some (t, a) | Suspended t b' \<Rightarrow> await_body b')"

datatype ('a, 'b) Race = RaceA 'a | RaceB 'b

datatype 'a Poll = Ready 'a | Pending

record ('t, 'a, 'u, 'b) RaceFuture =
  rf_a :: "('t, 'a) Body option"
  rf_b :: "('u, 'b) Body option"

definition race :: "('t, 'a) Body \<Rightarrow> ('u, 'b) Body \<Rightarrow> ('t, 'a, 'u, 'b) RaceFuture" where
  "race a b = \<lparr>rf_a = Some a, rf_b = Some b\<rparr>"

text \<open>
  One poll of the race: the work first, the deadline second; the winner drops the loser.  The task is
  left in the state of the last poll of its own future.
\<close>

definition race_poll_b ::
  "'t \<Rightarrow> ('t, 'a, 'u, 'b) RaceFuture \<Rightarrow> 't \<times> ('a, 'b) Race Poll \<times> ('t, 'a, 'u, 'b) RaceFuture" where
  "race_poll_b t f =
     (case rf_b f of
        Some (Done _ out) \<Rightarrow> (t, Ready (RaceB out), \<lparr>rf_a = None, rf_b = None\<rparr>)
      | Some (Suspended _ b) \<Rightarrow> (t, Pending, f\<lparr>rf_b := Some b\<rparr>)
      | None \<Rightarrow> (t, Pending, f))"

definition race_poll ::
  "'t \<Rightarrow> ('t, 'a, 'u, 'b) RaceFuture \<Rightarrow> 't \<times> ('a, 'b) Race Poll \<times> ('t, 'a, 'u, 'b) RaceFuture" where
  "race_poll t f =
     (case rf_a f of
        Some (Done t' out) \<Rightarrow> (t', Ready (RaceA out), \<lparr>rf_a = None, rf_b = None\<rparr>)
      | Some (Suspended t' a) \<Rightarrow> race_poll_b t' (f\<lparr>rf_a := Some a\<rparr>)
      | None \<Rightarrow> race_poll_b t f)"

partial_function (option) await_race ::
  "'t \<Rightarrow> ('t, 'a, 'u, 'b) RaceFuture \<Rightarrow> ('t \<times> ('a, 'b) Race) option" where
  "await_race t f =
     (case race_poll t f of
        (t', Ready r, _) \<Rightarrow> Some (t', r)
      | (t', Pending, f') \<Rightarrow> await_race t' f')"

section \<open>The parameters and the state\<close>

datatype PanicPayload = StrPayload string | StringPayload string | OtherPayload

record 'f F64 =
  f_from_bits :: "u64 \<Rightarrow> 'f"
  f_as_secs :: "duration \<Rightarrow> 'f"
  f_powi :: "'f \<Rightarrow> int \<Rightarrow> 'f"
  f_mul :: "'f \<Rightarrow> 'f \<Rightarrow> 'f"
  f_is_finite :: "'f \<Rightarrow> bool"
  f_try_duration :: "'f \<Rightarrow> duration option"
  f_clamp01 :: "'f \<Rightarrow> 'f"
  f_one_minus :: "'f \<Rightarrow> 'f"

record ('t, 'v, 'j, 'f, 'x) AttemptEnv =
  ae_task :: "'t \<Rightarrow> 'x RunContext \<Rightarrow> ('t, PanicPayload + TaskError + 'v) Body"
  ae_timer :: "duration \<Rightarrow> (unit, unit) Body"
  ae_next_unit :: "'j \<Rightarrow> 'f \<times> 'j"
  ae_f64 :: "'f F64"
  ae_run :: string
  ae_pipeline :: string

text \<open>
  The task, its output slot with the residency ledger, the event sink, the jitter source, the panic
  attribution of this thread, the cancellation flags and whether the caller's permit is held.
\<close>

record ('t, 'v, 'j) AttemptWorld =
  aw_task :: 't
  aw_slot :: "'v SlotInner"
  aw_ledger :: ResidencyLedger
  aw_sink :: "AttemptEvent list"
  aw_jitter :: 'j
  aw_current_node :: "string option"
  aw_flags :: flag_heap
  aw_permit :: bool

definition emit :: "AttemptEvent \<Rightarrow> ('t, 'v, 'j) AttemptWorld \<Rightarrow> ('t, 'v, 'j) AttemptWorld" where
  "emit event w = w\<lparr>aw_sink := aw_sink w @ [event]\<rparr>"

definition drop_permit :: "('t, 'v, 'j) AttemptWorld \<Rightarrow> ('t, 'v, 'j) AttemptWorld" where
  "drop_permit w = w\<lparr>aw_permit := False\<rparr>"

section \<open>Records of one attempt\<close>

definition UNKNOWN_PANIC :: string where
  "UNKNOWN_PANIC = ''unknown panic''"

definition outcome_record :: "string \<Rightarrow> u32 \<Rightarrow> AttemptOutcome \<Rightarrow> string option \<Rightarrow> AttemptEvent" where
  "outcome_record node attempt out panic_message =
     (case out of
        SucceededOutcome \<Rightarrow> AttemptSucceeded node attempt
      | TimedOutOutcome \<Rightarrow> AttemptTimedOut node attempt
      | Panicked \<Rightarrow>
          AttemptPanicked node attempt (case panic_message of Some m \<Rightarrow> m | None \<Rightarrow> UNKNOWN_PANIC)
      | _ \<Rightarrow> AttemptFailed node attempt)"

definition emit_attempt_outcome_record ::
  "string \<Rightarrow> u32 \<Rightarrow> AttemptOutcome \<Rightarrow> string option
     \<Rightarrow> ('t, 'v, 'j) AttemptWorld \<Rightarrow> ('t, 'v, 'j) AttemptWorld" where
  "emit_attempt_outcome_record node attempt out panic_message =
     emit (outcome_record node attempt out panic_message)"

definition emit_node_terminal ::
  "string \<Rightarrow> TerminalState \<Rightarrow> ('t, 'v, 'j) AttemptWorld \<Rightarrow> ('t, 'v, 'j) AttemptWorld" where
  "emit_node_terminal node st = emit (NodeTerminal node st)"

definition emit_closing_events ::
  "string \<Rightarrow> u32 \<Rightarrow> AttemptOutcome \<Rightarrow> string option
     \<Rightarrow> ('t, 'v, 'j) AttemptWorld \<Rightarrow> ('t, 'v, 'j) AttemptWorld" where
  "emit_closing_events node attempt out panic_message w =
     emit_node_terminal node (terminal_state out)
       (emit_attempt_outcome_record node attempt out panic_message w)"

definition emit_opening ::
  "string \<Rightarrow> u32 \<Rightarrow> ('t, 'v, 'j) AttemptWorld \<Rightarrow> ('t, 'v, 'j) AttemptWorld" where
  "emit_opening node attempt w = emit (AttemptStarted node attempt) (emit (NodeAdmitted node) w)"

text \<open>The classification of a task's result; the slot is filled only on success.\<close>

definition classify_and_fill ::
  "TaskError + 'v \<Rightarrow> ('t, 'v, 'j) AttemptWorld \<Rightarrow> AttemptOutcome \<times> ('t, 'v, 'j) AttemptWorld" where
  "classify_and_fill result w =
     (case result of
        Inr value \<Rightarrow>
          (case fill value (aw_slot w, aw_ledger w) of
             (Inr _, s, l) \<Rightarrow> (SucceededOutcome, w\<lparr>aw_slot := s, aw_ledger := l\<rparr>)
           | (Inl _, s, l) \<Rightarrow> (PermanentFailure, w\<lparr>aw_slot := s, aw_ledger := l\<rparr>))
      | Inl err \<Rightarrow>
          (case te_class err of
             Permanent \<Rightarrow> (PermanentFailure, w)
           | Retryable \<Rightarrow> (RetryEligibleFailure, w)
           | Skip \<Rightarrow> (SkippedOutcome, w)))"

section \<open>One attempt, panics not caught\<close>

type_synonym ('t, 'v, 'j) attempt_result =
  "((PanicPayload + AttemptOutcome) \<times> ('t, 'v, 'j) AttemptWorld) option"

definition run_one_attempt ::
  "('t, 'v, 'j, 'f, 'x) AttemptEnv \<Rightarrow> string \<Rightarrow> 'x RunContext \<Rightarrow> ('t, 'v, 'j) AttemptWorld
     \<Rightarrow> ('t, 'v, 'j) attempt_result" where
  "run_one_attempt e node ctx w =
     (let attempt = rc_attempt ctx; w = emit_opening node attempt w in
      case await_body (ae_task e (aw_task w) ctx) of
        None \<Rightarrow> None
      | Some (t, Inl payload) \<Rightarrow> Some (Inl payload, w\<lparr>aw_task := t\<rparr>)
      | Some (t, Inr result) \<Rightarrow>
          (let (out, w) = classify_and_fill result (w\<lparr>aw_task := t\<rparr>)
           in Some (Inr out, emit_attempt_outcome_record node attempt out None w)))"

definition run_attempt ::
  "('t, 'v, 'j, 'f, 'x) AttemptEnv \<Rightarrow> string \<Rightarrow> 'x RunContext \<Rightarrow> ('t, 'v, 'j) AttemptWorld
     \<Rightarrow> ('t, 'v, 'j) attempt_result" where
  "run_attempt e node ctx w =
     (case run_one_attempt e node ctx w of
        None \<Rightarrow> None
      | Some (Inl payload, w) \<Rightarrow> Some (Inl payload, w)
      | Some (Inr out, w) \<Rightarrow> Some (Inr out, emit_node_terminal node (terminal_state out) w))"

text \<open>The permit is dropped when the work ends, or with the work when the deadline wins or it unwinds.\<close>

definition run_attempt_with_timeout ::
  "('t, 'v, 'j, 'f, 'x) AttemptEnv \<Rightarrow> string \<Rightarrow> 'x RunContext \<Rightarrow> (unit, unit) Body
     \<Rightarrow> ('t, 'v, 'j) AttemptWorld \<Rightarrow> ('t, 'v, 'j) attempt_result" where
  "run_attempt_with_timeout e node ctx deadline w =
     (let attempt = rc_attempt ctx; w = emit_opening node attempt w in
      case await_race (aw_task w) (race (ae_task e (aw_task w) ctx) deadline) of
        None \<Rightarrow> None
      | Some (t, RaceA (Inl payload)) \<Rightarrow> Some (Inl payload, drop_permit (w\<lparr>aw_task := t\<rparr>))
      | Some (t, RaceA (Inr result)) \<Rightarrow>
          (let (out, w) = classify_and_fill result (drop_permit (w\<lparr>aw_task := t\<rparr>))
           in Some (Inr out, emit_closing_events node attempt out None w))
      | Some (t, RaceB _) \<Rightarrow>
          (let w = drop_permit (w\<lparr>aw_task := t\<rparr>)
           in Some (Inr TimedOutOutcome, emit_closing_events node attempt TimedOutOutcome None w)))"

section \<open>Blocking timeouts\<close>

record TimeoutDecision =
  td_outcome :: AttemptOutcome

definition mark_blocking_timed_out ::
  "string \<Rightarrow> 'x RunContext \<Rightarrow> ('t, 'v, 'j) AttemptWorld \<Rightarrow> TimeoutDecision \<times> ('t, 'v, 'j) AttemptWorld" where
  "mark_blocking_timed_out node ctx w =
     (let out = TimedOutOutcome
      in (\<lparr>td_outcome = out\<rparr>, emit_closing_events node (rc_attempt ctx) out None w))"

text \<open>The zombie observer is asked whether a zombie is live.\<close>

definition retry_may_start :: "TimeoutDecision \<Rightarrow> bool \<Rightarrow> bool" where
  "retry_may_start d live_zombie \<longleftrightarrow> is_retry_eligible (td_outcome d) \<and> \<not> live_zombie"

text \<open>The late-result barrier: a value that arrives late reaches neither the slot nor the scratch.\<close>

definition barrier_fill_slot :: "'v SlotInner \<Rightarrow> 'v \<Rightarrow> bool \<times> 'v SlotInner" where
  "barrier_fill_slot s v = (False, s)"

definition barrier_write_scratch :: bool where
  "barrier_write_scratch = False"

section \<open>Backoff and jitter\<close>

text \<open>One draw of the splitmix generator: the 53-bit integer, and its quotient by \<open>2 ^ 53\<close>, an exact \<open>f64\<close>.\<close>

definition seeded_draw :: "u64 \<Rightarrow> u64 \<times> u64" where
  "seeded_draw st =
     (let st = st + 0x9E3779B97F4A7C15;
          z = st;
          z = (z XOR drop_bit 30 z) * 0xBF58476D1CE4E5B9;
          z = (z XOR drop_bit 27 z) * 0x94D049BB133111EB;
          z = z XOR drop_bit 31 z
      in (drop_bit 11 z, st))"

definition seeded_next_unit :: "u64 \<Rightarrow> real \<times> u64" where
  "seeded_next_unit st = (let (n, st) = seeded_draw st in (real (unat n) / 2 ^ 53, st))"

definition no_jitter_next_unit :: "unit \<Rightarrow> real \<times> unit" where
  "no_jitter_next_unit u = (0, u)"

definition i32_max :: int where "i32_max = 2147483647"

definition nominal_delay :: "'f F64 \<Rightarrow> Backoff \<Rightarrow> u32 \<Rightarrow> duration" where
  "nominal_delay f b n =
     (let base_secs = f_as_secs f (bo_base b);
          exponent = (if uint n \<le> i32_max then uint n else i32_max);
          scaled = f_mul f base_secs (f_powi f (f_from_bits f (bo_factor b)) exponent)
      in if \<not> f_is_finite f scaled then bo_cap b
         else
           (let nominal = (case f_try_duration f scaled of Some d \<Rightarrow> d | None \<Rightarrow> bo_cap b)
            in min nominal (bo_cap b)))"

definition delay_for :: "'f F64 \<Rightarrow> ('j \<Rightarrow> 'f \<times> 'j) \<Rightarrow> Backoff \<Rightarrow> u32 \<Rightarrow> 'j \<Rightarrow> duration \<times> 'j" where
  "delay_for f next_unit b n jitter =
     (let nominal = nominal_delay f b n;
          (unit_draw, jitter) = next_unit jitter;
          draw = f_clamp01 f unit_draw;
          jittered_secs = f_mul f (f_as_secs f nominal) (f_one_minus f draw);
          jittered = (case f_try_duration f jittered_secs of Some d \<Rightarrow> d | None \<Rightarrow> nominal)
      in (min jittered (bo_cap b), jitter))"

record RetryConfig =
  rt_max_attempts :: u32
  rt_backoff :: Backoff

definition retry_config_new :: "u32 \<Rightarrow> Backoff \<Rightarrow> RetryConfig" where
  "retry_config_new max_attempts backoff =
     \<lparr>rt_max_attempts = max max_attempts 1, rt_backoff = backoff\<rparr>"

text \<open>The default schedule's factor is the bit pattern of \<open>2.0\<close>.\<close>

definition retry_config_default :: RetryConfig where
  "retry_config_default =
     \<lparr>rt_max_attempts = 1,
      rt_backoff = \<lparr>bo_base = 0, bo_factor = 0x4000000000000000, bo_cap = DURATION_MAX\<rparr>\<rparr>"

definition schedule_backoff ::
  "('t, 'v, 'j, 'f, 'x) AttemptEnv \<Rightarrow> string \<Rightarrow> u32 \<Rightarrow> RetryConfig \<Rightarrow> ('t, 'v, 'j) AttemptWorld
     \<Rightarrow> duration \<times> ('t, 'v, 'j) AttemptWorld" where
  "schedule_backoff e node attempt config w =
     (let (delay, jitter) = delay_for (ae_f64 e) (ae_next_unit e) (rt_backoff config) (attempt - 1) (aw_jitter w)
      in (delay, emit (BackoffStarted node attempt delay) (w\<lparr>aw_jitter := jitter\<rparr>)))"

section \<open>Panic containment\<close>

definition panic_message :: "PanicPayload \<Rightarrow> string" where
  "panic_message payload =
     (case payload of StrPayload s \<Rightarrow> s | StringPayload s \<Rightarrow> s | OtherPayload \<Rightarrow> UNKNOWN_PANIC)"

definition attribution_set :: "string \<Rightarrow> string option \<Rightarrow> string option \<times> string option" where
  "attribution_set node current = (current, Some node)"

definition attribution_drop :: "string option \<Rightarrow> string option \<Rightarrow> string option" where
  "attribution_drop previous current = previous"

definition caught_body ::
  "('t, 'v, 'j, 'f, 'x) AttemptEnv \<Rightarrow> string \<Rightarrow> 'x RunContext \<Rightarrow> ('t, 'v, 'j) AttemptWorld
     \<Rightarrow> ((PanicPayload + TaskError + 'v) \<times> ('t, 'v, 'j) AttemptWorld) option" where
  "caught_body e node ctx w =
     (let (previous, current) = attribution_set node (aw_current_node w) in
      case await_body (ae_task e (aw_task w) ctx) of
        None \<Rightarrow> None
      | Some (t, r) \<Rightarrow> Some (r, w\<lparr>aw_task := t, aw_current_node := attribution_drop previous current\<rparr>))"

text \<open>The race of the caught body with a deadline; the guard is dropped with the body.\<close>

definition caught_race ::
  "('t, 'v, 'j, 'f, 'x) AttemptEnv \<Rightarrow> string \<Rightarrow> 'x RunContext \<Rightarrow> (unit, unit) Body
     \<Rightarrow> ('t, 'v, 'j) AttemptWorld
     \<Rightarrow> ((PanicPayload + TaskError + 'v, unit) Race \<times> ('t, 'v, 'j) AttemptWorld) option" where
  "caught_race e node ctx deadline w =
     (let (previous, current) = attribution_set node (aw_current_node w) in
      case await_race (aw_task w) (race (ae_task e (aw_task w) ctx) deadline) of
        None \<Rightarrow> None
      | Some (t, r) \<Rightarrow> Some (r, w\<lparr>aw_task := t, aw_current_node := attribution_drop previous current\<rparr>))"

definition settle_caught ::
  "PanicPayload + TaskError + 'v \<Rightarrow> ('t, 'v, 'j) AttemptWorld
     \<Rightarrow> (AttemptOutcome \<times> string option) \<times> ('t, 'v, 'j) AttemptWorld" where
  "settle_caught caught w =
     (case caught of
        Inr result \<Rightarrow> (let (out, w) = classify_and_fill result w in ((out, None), w))
      | Inl payload \<Rightarrow> ((Panicked, Some (panic_message payload)), w))"

definition settle_race ::
  "(PanicPayload + TaskError + 'v, unit) Race \<Rightarrow> ('t, 'v, 'j) AttemptWorld
     \<Rightarrow> (AttemptOutcome \<times> string option) \<times> ('t, 'v, 'j) AttemptWorld" where
  "settle_race r w =
     (case r of RaceA caught \<Rightarrow> settle_caught caught w | RaceB _ \<Rightarrow> ((TimedOutOutcome, None), w))"

definition run_one_attempt_caught ::
  "('t, 'v, 'j, 'f, 'x) AttemptEnv \<Rightarrow> string \<Rightarrow> 'x RunContext \<Rightarrow> ('t, 'v, 'j) AttemptWorld
     \<Rightarrow> (AttemptOutcome \<times> ('t, 'v, 'j) AttemptWorld) option" where
  "run_one_attempt_caught e node ctx w =
     (let attempt = rc_attempt ctx; w = emit_opening node attempt w in
      case caught_body e node ctx w of
        None \<Rightarrow> None
      | Some (caught, w) \<Rightarrow>
          (let ((out, message), w) = settle_caught caught w
           in Some (out, emit_attempt_outcome_record node attempt out message w)))"

definition run_attempt_caught ::
  "('t, 'v, 'j, 'f, 'x) AttemptEnv \<Rightarrow> string \<Rightarrow> 'x RunContext \<Rightarrow> ('t, 'v, 'j) AttemptWorld
     \<Rightarrow> (AttemptOutcome \<times> ('t, 'v, 'j) AttemptWorld) option" where
  "run_attempt_caught e node ctx w =
     (case run_one_attempt_caught e node ctx w of
        None \<Rightarrow> None
      | Some (out, w) \<Rightarrow> Some (out, emit_node_terminal node (terminal_state out) w))"

definition run_one_attempt_caught_timed ::
  "('t, 'v, 'j, 'f, 'x) AttemptEnv \<Rightarrow> string \<Rightarrow> 'x RunContext \<Rightarrow> (unit, unit) Body
     \<Rightarrow> ('t, 'v, 'j) AttemptWorld \<Rightarrow> (AttemptOutcome \<times> ('t, 'v, 'j) AttemptWorld) option" where
  "run_one_attempt_caught_timed e node ctx deadline w =
     (let attempt = rc_attempt ctx; w = emit_opening node attempt w in
      case caught_race e node ctx deadline w of
        None \<Rightarrow> None
      | Some (r, w) \<Rightarrow>
          (let ((out, message), w) = settle_race r w
           in Some (out, emit_attempt_outcome_record node attempt out message w)))"

definition run_attempt_caught_with_timeout ::
  "('t, 'v, 'j, 'f, 'x) AttemptEnv \<Rightarrow> string \<Rightarrow> 'x RunContext \<Rightarrow> (unit, unit) Body
     \<Rightarrow> ('t, 'v, 'j) AttemptWorld \<Rightarrow> (AttemptOutcome \<times> ('t, 'v, 'j) AttemptWorld) option" where
  "run_attempt_caught_with_timeout e node ctx deadline w =
     (let attempt = rc_attempt ctx; w = emit_opening node attempt w in
      case caught_race e node ctx deadline w of
        None \<Rightarrow> None
      | Some (r, w) \<Rightarrow>
          (let ((out, message), w) = settle_race r (drop_permit w)
           in Some (out, emit_closing_events node attempt out message w)))"

section \<open>The retry loops\<close>

definition attempt_context ::
  "('t, 'v, 'j, 'f, 'x) AttemptEnv \<Rightarrow> string \<Rightarrow> RetryConfig \<Rightarrow> u32 \<Rightarrow> flag_heap \<Rightarrow> 'x RunContext \<times> flag_heap" where
  "attempt_context e node config attempt =
     context_build (with_max_attempts (rt_max_attempts config) (with_attempt attempt
       (context_builder (ae_run e) (ae_pipeline e) (from_name node))))"

lemma unat_attempt_Suc: "attempt < (m :: u32) \<Longrightarrow> unat (attempt + 1) = Suc (unat attempt)"
proof -
  assume "attempt < m"
  then have "unat attempt < unat m" by (simp add: word_less_nat_alt)
  moreover have "unat m < 2 ^ 32" using unsigned_less [of m] by simp
  ultimately have "Suc (unat attempt) < 2 ^ 32" by linarith
  then show ?thesis by (simp add: unat_word_ariths)
qed

lemma attempt_measure:
  "attempt < (m :: u32) \<Longrightarrow> unat m - unat (attempt + 1) < unat m - unat attempt"
  using unat_attempt_Suc [of attempt m] by (simp add: word_less_nat_alt)

text \<open>
  The loop shared by the three variants, which differ in the attempt \<open>one\<close> they run.  It ends because
  the attempt number stays below the configured maximum.
\<close>

function retry_loop ::
  "('x RunContext \<Rightarrow> ('t, 'v, 'j) AttemptWorld \<Rightarrow> ('t, 'v, 'j) attempt_result)
     \<Rightarrow> ('t, 'v, 'j, 'f, 'x) AttemptEnv \<Rightarrow> string \<Rightarrow> RetryConfig \<Rightarrow> u32 \<Rightarrow> ('t, 'v, 'j) AttemptWorld
     \<Rightarrow> ('t, 'v, 'j) attempt_result" where
  "retry_loop one e node config attempt w =
     (let (ctx, flags) = attempt_context e node config attempt (aw_flags w) in
      case one ctx (w\<lparr>aw_flags := flags\<rparr>) of
        None \<Rightarrow> None
      | Some (Inl payload, w) \<Rightarrow> Some (Inl payload, w)
      | Some (Inr out, w) \<Rightarrow>
          if is_retry_eligible out \<and> attempt < rt_max_attempts config
          then
            (let (delay, w) = schedule_backoff e node attempt config w in
             case await_body (ae_timer e delay) of
               None \<Rightarrow> None
             | Some _ \<Rightarrow> retry_loop one e node config (attempt + 1) w)
          else Some (Inr out, emit_node_terminal node (terminal_state out) w))"
  by pat_completeness auto

termination
  by (relation "measure (\<lambda>(one, e, node, config, attempt, w). unat (rt_max_attempts config) - unat attempt)")
    (auto simp: attempt_measure)

declare retry_loop.simps [simp del]

definition run_with_retries ::
  "('t, 'v, 'j, 'f, 'x) AttemptEnv \<Rightarrow> string \<Rightarrow> RetryConfig \<Rightarrow> ('t, 'v, 'j) AttemptWorld
     \<Rightarrow> ('t, 'v, 'j) attempt_result" where
  "run_with_retries e node config w = retry_loop (run_one_attempt e node) e node config 1 w"

definition lift_caught ::
  "(AttemptOutcome \<times> ('t, 'v, 'j) AttemptWorld) option \<Rightarrow> ('t, 'v, 'j) attempt_result" where
  "lift_caught r = map_option (\<lambda>(out, w). (Inr out, w)) r"

definition run_with_retries_caught ::
  "('t, 'v, 'j, 'f, 'x) AttemptEnv \<Rightarrow> string \<Rightarrow> RetryConfig \<Rightarrow> ('t, 'v, 'j) AttemptWorld
     \<Rightarrow> ('t, 'v, 'j) attempt_result" where
  "run_with_retries_caught e node config w =
     retry_loop (\<lambda>ctx w. lift_caught (run_one_attempt_caught e node ctx w)) e node config 1 w"

definition one_attempt_timed ::
  "('t, 'v, 'j, 'f, 'x) AttemptEnv \<Rightarrow> string \<Rightarrow> duration option \<Rightarrow> 'x RunContext
     \<Rightarrow> ('t, 'v, 'j) AttemptWorld \<Rightarrow> (AttemptOutcome \<times> ('t, 'v, 'j) AttemptWorld) option" where
  "one_attempt_timed e node timeout ctx w =
     (case timeout of
        Some budget \<Rightarrow> run_one_attempt_caught_timed e node ctx (ae_timer e budget) w
      | None \<Rightarrow> run_one_attempt_caught e node ctx w)"

definition run_with_retries_caught_timed ::
  "('t, 'v, 'j, 'f, 'x) AttemptEnv \<Rightarrow> string \<Rightarrow> RetryConfig \<Rightarrow> duration option
     \<Rightarrow> ('t, 'v, 'j) AttemptWorld \<Rightarrow> ('t, 'v, 'j) attempt_result" where
  "run_with_retries_caught_timed e node config timeout w =
     retry_loop (\<lambda>ctx w. lift_caught (one_attempt_timed e node timeout ctx w)) e node config 1 w"

section \<open>The panic strategy gate\<close>

datatype PanicStrategy = Unwind | Abort

record BootstrapRefusal =
  br_message :: string

definition check_panic_strategy :: "PanicStrategy \<Rightarrow> BootstrapRefusal + unit" where
  "check_panic_strategy strategy =
     (case strategy of
        Unwind \<Rightarrow> Inr ()
      | Abort \<Rightarrow> Inl \<lparr>br_message =
          ''dagr cannot run under `panic = \"abort\"`: a task panic ''
          @ ''would abort the whole process uncontained. Set `panic = \"unwind\"` ''
          @ ''in the relevant Cargo profile (e.g. `[profile.release] panic = ''
          @ ''\"unwind\"`) and rebuild.''\<rparr>)"

definition detect_panic_strategy :: "bool \<Rightarrow> PanicStrategy" where
  "detect_panic_strategy cfg_abort = (if cfg_abort then Abort else Unwind)"


section \<open>Futures, poll by poll\<close>

text \<open>The result of a future that is done in exactly its poll \<open>n\<close>, counted from zero.\<close>

fun done_after :: "nat \<Rightarrow> ('t, 'a) Body \<Rightarrow> ('t \<times> 'a) option" where
  "done_after 0 b = (case b of Done t a \<Rightarrow> Some (t, a) | Suspended _ _ \<Rightarrow> None)"
| "done_after (Suc n) b = (case b of Done _ _ \<Rightarrow> None | Suspended _ b' \<Rightarrow> done_after n b')"

definition ends :: "('t, 'a) Body \<Rightarrow> bool" where
  "ends b \<longleftrightarrow> (\<exists>n. done_after n b \<noteq> None)"

lemma await_body_Done [simp]: "await_body (Done t a) = Some (t, a)"
  by (subst await_body.simps) simp

lemma await_body_Suspended [simp]: "await_body (Suspended t b) = await_body b"
  by (subst await_body.simps) simp

lemma await_body_done: "done_after n b = Some r \<Longrightarrow> await_body b = Some r"
  by (induction n arbitrary: b) (auto split: Body.splits)

lemma await_ends: "ends b \<Longrightarrow> \<exists>t a. await_body b = Some (t, a)"
  by (force simp: ends_def dest: await_body_done)

lemma await_race_step:
  "await_race t0 (race (Done t x) b) = Some (t, RaceA x)"
  "await_race t0 (race (Suspended t a) (Done u y)) = Some (t, RaceB y)"
  "await_race t0 (race (Suspended t a) (Suspended u b)) = await_race t (race a b)"
  by (subst await_race.simps, simp add: race_poll_def race_poll_b_def race_def)+

text \<open>The race ends with its deadline at the latest, and the work wins a poll in which both are done.\<close>

lemma race_winner:
  assumes "done_after j b = Some (u, y)"
  shows "\<exists>t r. await_race t0 (race a b) = Some (t, r) \<and>
    (if \<exists>i \<le> j. done_after i a \<noteq> None
     then \<exists>x i. r = RaceA x \<and> done_after i a = Some (t, x) else r = RaceB y)"
  using assms
proof (induction j arbitrary: t0 a b)
  case 0
  then obtain b: "b = Done u y" by (simp split: Body.splits)
  show ?case
  proof (cases a)
    case (Done t x)
    then have "done_after 0 a = Some (t, x)" by simp
    then show ?thesis using Done await_race_step(1) by (metis le0 option.distinct(1))
  next
    case (Suspended t a')
    then show ?thesis by (simp add: b await_race_step)
  qed
next
  case (Suc j)
  then obtain u' b' where b: "b = Suspended u' b'" "done_after j b' = Some (u, y)" by (simp split: Body.splits)
  show ?case
  proof (cases a)
    case (Done t x)
    then have "done_after 0 a = Some (t, x)" by simp
    then show ?thesis using Done await_race_step(1) by (metis le0 option.distinct(1))
  next
    case (Suspended t a')
    from Suc.IH [OF b(2), of t a'] obtain s r where r: "await_race t (race a' b') = Some (s, r)"
      "if \<exists>i \<le> j. done_after i a' \<noteq> None
       then \<exists>x i. r = RaceA x \<and> done_after i a' = Some (s, x) else r = RaceB y" by blast
    have "(\<exists>i \<le> Suc j. done_after i a \<noteq> None) \<longleftrightarrow> (\<exists>i \<le> j. done_after i a' \<noteq> None)"
    proof
      assume "\<exists>i \<le> Suc j. done_after i a \<noteq> None"
      then obtain i where i: "i \<le> Suc j" "done_after i a \<noteq> None" by blast
      then obtain k where "i = Suc k" using Suspended by (cases i) auto
      with i Suspended show "\<exists>i \<le> j. done_after i a' \<noteq> None" by auto
    next
      assume "\<exists>i \<le> j. done_after i a' \<noteq> None"
      then obtain i where "i \<le> j" "done_after i a' \<noteq> None" by blast
      with Suspended show "\<exists>i \<le> Suc j. done_after i a \<noteq> None" by (intro exI [of _ "Suc i"]) auto
    qed
    note late = this
    have race: "await_race t0 (race a b) = Some (s, r)"
      using r(1) by (simp add: Suspended b(1) await_race_step)
    show ?thesis
    proof (cases "\<exists>i \<le> j. done_after i a' \<noteq> None")
      case True
      with r(2) obtain x i where x: "r = RaceA x" "done_after i a' = Some (s, x)" by (simp only: if_True) blast
      then have "done_after (Suc i) a = Some (s, x)" using Suspended by simp
      then show ?thesis using race x(1) True late by (simp only: if_True) blast
    next
      case False
      then show ?thesis using race r(2) late by (simp only: if_False) blast
    qed
  qed
qed

section \<open>What one attempt leaves behind\<close>

lemma terminal_state_simps [simp]:
  "terminal_state SucceededOutcome = Succeeded" "terminal_state PermanentFailure = Failed"
  "terminal_state RetryEligibleFailure = Failed" "terminal_state SkippedOutcome = Skipped"
  "terminal_state TimedOutOutcome = TimedOut" "terminal_state Panicked = Failed"
  by (simp_all add: terminal_state_def)

lemmas emit_defs = emit_def emit_opening_def emit_attempt_outcome_record_def emit_node_terminal_def
  emit_closing_events_def drop_permit_def

lemma classify_cases:
  obtains (filled) v l where "r = Inr v" "sl_content (aw_slot w) = Empty"
      "classify_and_fill r w =
        (SucceededOutcome, w\<lparr>aw_slot := (aw_slot w)\<lparr>sl_content := Filled v\<rparr>, aw_ledger := l\<rparr>)"
    | (rejected) v where "r = Inr v" "sl_content (aw_slot w) \<noteq> Empty"
      "classify_and_fill r w = (PermanentFailure, w)"
    | (failed) out where "classify_and_fill r w = (out, w)"
      "out \<in> {PermanentFailure, RetryEligibleFailure, SkippedOutcome}" "\<forall>v. r \<noteq> Inr v"
proof (cases r)
  case (Inl err)
  then show thesis by (cases "te_class err") (auto intro!: failed simp: classify_and_fill_def)
next
  case (Inr v)
  then show thesis
    using filled [of v "ledger_charge (sl_residency (aw_slot w)) (aw_ledger w)"] rejected [of v]
    by (cases "sl_content (aw_slot w)") (simp_all add: classify_and_fill_def fill_def)
qed

lemma classify_frame:
  assumes "classify_and_fill r w = (out, w')"
  shows "aw_sink w' = aw_sink w \<and> aw_permit w' = aw_permit w \<and> aw_current_node w' = aw_current_node w
    \<and> aw_task w' = aw_task w \<and> aw_jitter w' = aw_jitter w \<and> aw_flags w' = aw_flags w"
  using assms by (cases r w rule: classify_cases) auto

lemma classify_slot:
  assumes "classify_and_fill r w = (out, w')" "sl_content (aw_slot w) = Empty"
  shows "if out = SucceededOutcome then \<exists>v. r = Inr v \<and> sl_content (aw_slot w') = Filled v
    else aw_slot w' = aw_slot w \<and> aw_ledger w' = aw_ledger w"
  using assms by (cases r w rule: classify_cases) auto

lemma classify_outcome:
  "classify_and_fill r w = (out, w') \<Longrightarrow> out \<noteq> TimedOutOutcome \<and> out \<noteq> Panicked"
  by (cases r w rule: classify_cases) auto

lemma settle_caught_frame:
  assumes "settle_caught r w = ((out, m), w')"
  shows "aw_sink w' = aw_sink w \<and> aw_permit w' = aw_permit w \<and> aw_current_node w' = aw_current_node w
    \<and> out \<noteq> TimedOutOutcome"
proof (cases r)
  case (Inl p)
  with assms show ?thesis by (auto simp: settle_caught_def)
next
  case (Inr x)
  obtain out1 w1 where c: "classify_and_fill x w = (out1, w1)" by fastforce
  with assms Inr have "out1 = out" "w1 = w'" by (simp_all add: settle_caught_def)
  then show ?thesis using classify_frame [OF c] classify_outcome [OF c] by simp
qed

lemma settle_caught_slot:
  assumes "settle_caught r w = ((out, m), w')" "sl_content (aw_slot w) = Empty"
  shows "if out = SucceededOutcome then \<exists>v. sl_content (aw_slot w') = Filled v
    else aw_slot w' = aw_slot w \<and> aw_ledger w' = aw_ledger w"
proof (cases r)
  case (Inl p)
  with assms show ?thesis by (auto simp: settle_caught_def)
next
  case (Inr x)
  obtain out1 w1 where c: "classify_and_fill x w = (out1, w1)" by fastforce
  with assms Inr have "out1 = out" "w1 = w'" by (simp_all add: settle_caught_def)
  then show ?thesis using classify_slot [OF c assms(2)] by (auto split: if_splits)
qed

text \<open>
  C15. An attempt raced against a deadline that fires always returns, with its two opening records,
  one outcome record and one terminal record, the permit released and the panic attribution
  restored.  It times out exactly when the work is not done by the poll in which the deadline is, and
  then the slot is untouched.
\<close>

theorem timeout_decides:
  assumes "done_after j deadline = Some u"
  shows "\<exists>out m w'. run_attempt_caught_with_timeout e node ctx deadline w = Some (out, w')
    \<and> aw_sink w' = aw_sink w @ [NodeAdmitted node, AttemptStarted node (rc_attempt ctx),
         outcome_record node (rc_attempt ctx) out m, NodeTerminal node (terminal_state out)]
    \<and> \<not> aw_permit w' \<and> aw_current_node w' = aw_current_node w
    \<and> (out = TimedOutOutcome \<longleftrightarrow> (\<forall>i \<le> j. done_after i (ae_task e (aw_task w) ctx) = None))
    \<and> (out = TimedOutOutcome \<longrightarrow> aw_slot w' = aw_slot w \<and> aw_ledger w' = aw_ledger w)"
proof -
  define w0 where "w0 = emit_opening node (rc_attempt ctx) w"
  have same: "aw_task w0 = aw_task w" "aw_current_node w0 = aw_current_node w" "aw_slot w0 = aw_slot w"
    "aw_ledger w0 = aw_ledger w" "aw_sink w0 = aw_sink w @ [NodeAdmitted node, AttemptStarted node (rc_attempt ctx)]"
    by (simp_all add: w0_def emit_defs)
  obtain v y where d: "done_after j deadline = Some (v, y)" using assms by (cases u) simp
  let ?late = "\<forall>i \<le> j. done_after i (ae_task e (aw_task w) ctx) = None"
  from race_winner [OF d, of "aw_task w" "ae_task e (aw_task w) ctx"] obtain t r where
    race: "await_race (aw_task w) (race (ae_task e (aw_task w) ctx) deadline) = Some (t, r)"
    and rr: "if \<exists>i \<le> j. done_after i (ae_task e (aw_task w) ctx) \<noteq> None
      then \<exists>x i. r = RaceA x \<and> done_after i (ae_task e (aw_task w) ctx) = Some (t, x) else r = RaceB y"
    by blast
  define late where "late \<longleftrightarrow> ?late"
  have "(\<exists>i \<le> j. done_after i (ae_task e (aw_task w) ctx) \<noteq> None) \<longleftrightarrow> \<not> late"
    unfolding late_def by (simp only: not_all not_imp)
  with rr have r: "if \<not> late then \<exists>x. r = RaceA x else r = RaceB y"
    by (cases late) auto
  define w1 where "w1 = drop_permit (w0\<lparr>aw_task := t, aw_current_node := aw_current_node w\<rparr>)"
  have w1: "aw_sink w1 = aw_sink w0" "\<not> aw_permit w1" "aw_current_node w1 = aw_current_node w"
    "aw_slot w1 = aw_slot w" "aw_ledger w1 = aw_ledger w"
    by (simp_all add: w1_def emit_defs same)
  obtain out m w2 where s: "settle_race r w1 = ((out, m), w2)" by (metis surj_pair)
  have run: "run_attempt_caught_with_timeout e node ctx deadline w
      = Some (out, emit_closing_events node (rc_attempt ctx) out m w2)"
    using race s same(1,2)
    by (simp add: run_attempt_caught_with_timeout_def caught_race_def attribution_set_def attribution_drop_def
        Let_def w1_def flip: w0_def)
  have fr: "aw_sink w2 = aw_sink w1 \<and> aw_permit w2 = aw_permit w1 \<and> aw_current_node w2 = aw_current_node w1
    \<and> (out = TimedOutOutcome \<longleftrightarrow> late) \<and> (out = TimedOutOutcome \<longrightarrow> w2 = w1)"
  proof (cases r)
    case (RaceA x)
    with s have "settle_caught x w1 = ((out, m), w2)" by (simp add: settle_race_def)
    from settle_caught_frame [OF this] r RaceA show ?thesis by (auto split: if_splits)
  next
    case (RaceB x)
    with s r show ?thesis by (auto simp: settle_race_def split: if_splits)
  qed
  have close: "aw_sink (emit_closing_events node a o' m' x) =
      aw_sink x @ [outcome_record node a o' m', NodeTerminal node (terminal_state o')]"
    "aw_permit (emit_closing_events node a o' m' x) = aw_permit x"
    "aw_current_node (emit_closing_events node a o' m' x) = aw_current_node x"
    "aw_slot (emit_closing_events node a o' m' x) = aw_slot x"
    "aw_ledger (emit_closing_events node a o' m' x) = aw_ledger x"
    for a o' m' and x :: "('a, 'b, 'c) AttemptWorld"
    by (simp_all add: emit_defs)
  show ?thesis
    unfolding run late_def [symmetric] using fr w1 same(5)
    by (intro exI [of _ out] exI [of _ m] exI [of _ "emit_closing_events node (rc_attempt ctx) out m w2"])
      (simp add: close)
qed


definition slow_env :: "(nat, nat, unit, real, unit) AttemptEnv" where
  "slow_env = \<lparr>ae_task = (\<lambda>t ctx. Suspended t (Suspended (t + 1) (Done (t + 2) (Inr (Inr 5))))),
     ae_timer = (\<lambda>d. Suspended () (Done () ())), ae_next_unit = no_jitter_next_unit,
     ae_f64 = \<lparr>f_from_bits = (\<lambda>b. 2), f_as_secs = (\<lambda>d. real (unat d) / 10 ^ 9), f_powi = (\<lambda>x n. x ^ nat n),
       f_mul = (*), f_is_finite = (\<lambda>x. True), f_try_duration = (\<lambda>x. Some (word_of_int \<lfloor>x * 10 ^ 9\<rfloor>)),
       f_clamp01 = (\<lambda>x. max 0 (min 1 x)), f_one_minus = (\<lambda>x. 1 - x)\<rparr>,
     ae_run = ''r'', ae_pipeline = ''p''\<rparr>"

definition fresh_world :: "(nat, nat, unit) AttemptWorld" where
  "fresh_world = \<lparr>aw_task = 0, aw_slot = slot_new 1 ''n'' 1 False 8, aw_ledger = ledger_new, aw_sink = [],
     aw_jitter = (), aw_current_node = None, aw_flags = [], aw_permit = True\<rparr>"

text \<open>Work of three polls against a deadline of two times out.\<close>

theorem timeout_decides_witness:
  "\<exists>w'. run_attempt_caught_with_timeout slow_env ''n'' (fst (context_for_test [])) (Suspended () (Done () ()))
       fresh_world = Some (TimedOutOutcome, w') \<and> \<not> aw_permit w'"
proof -
  have d: "done_after 1 (Suspended () (Done () ())) = Some ((), ())" by simp
  have "done_after i (ae_task slow_env (aw_task fresh_world) ctx) = None" if "i \<le> 1" for i ctx
  proof -
    have "i = 0 \<or> i = 1" using that by auto
    then show ?thesis by (auto simp: slow_env_def)
  qed
  then show ?thesis
    using timeout_decides [OF d, of slow_env "''n''" "fst (context_for_test [])" fresh_world] by auto
qed

section \<open>Delays stay below the cap\<close>

lemma nominal_delay_le_cap: "nominal_delay f b n \<le> bo_cap b"
  by (simp add: nominal_delay_def Let_def)

lemma delay_for_le_cap: "delay_for f u b n j = (d, j') \<Longrightarrow> d \<le> bo_cap b"
  by (auto simp: delay_for_def Let_def split: prod.splits)

lemma seeded_draw_bound: "unat (fst (seeded_draw st)) < 2 ^ 53"
proof -
  have "unat (drop_bit 11 z) < 2 ^ 53" for z :: u64
  proof -
    have "unat z < 2 ^ 64" using unsigned_less [of z] by simp
    then show ?thesis by (subst unat_drop_bit_eq) (simp add: drop_bit_eq_div)
  qed
  then show ?thesis unfolding seeded_draw_def Let_def fst_conv .
qed

lemma seeded_unit_range: "0 \<le> fst (seeded_next_unit st) \<and> fst (seeded_next_unit st) < 1"
proof -
  have "real (unat (fst (seeded_draw st))) < 2 ^ 53"
    using seeded_draw_bound [of st] by (metis of_nat_less_numeral_power_cancel_iff)
  then have "real (unat (fst (seeded_draw st))) / 2 ^ 53 < 1" by simp
  moreover have "0 \<le> real (unat (fst (seeded_draw st))) / 2 ^ 53" by (simp only: zero_le_divide_iff of_nat_0_le_iff) simp
  ultimately show ?thesis by (simp add: seeded_next_unit_def split_beta)
qed

section \<open>The log of a retried node\<close>

fun retry_log :: "string \<Rightarrow> u32 \<Rightarrow> (AttemptOutcome \<times> string option) list \<Rightarrow> duration list \<Rightarrow> AttemptEvent list" where
  "retry_log node n [] ds = []"
| "retry_log node n [(out, m)] ds =
     [NodeAdmitted node, AttemptStarted node n, outcome_record node n out m, NodeTerminal node (terminal_state out)]"
| "retry_log node n ((out, m) # next # oms) ds =
     [NodeAdmitted node, AttemptStarted node n, outcome_record node n out m, BackoffStarted node n (hd ds)]
     @ retry_log node (n + 1) (next # oms) (tl ds)"

definition retry_rounds ::
  "RetryConfig \<Rightarrow> u32 \<Rightarrow> AttemptOutcome \<Rightarrow> (AttemptOutcome \<times> string option) list \<Rightarrow> duration list \<Rightarrow> bool" where
  "retry_rounds config n out oms ds \<longleftrightarrow>
     oms \<noteq> [] \<and> fst (last oms) = out \<and> Suc (length ds) = length oms
     \<and> (\<forall>om \<in> set (butlast oms). is_retry_eligible (fst om))
     \<and> unat n + length ds \<le> unat (rt_max_attempts config)
     \<and> (is_retry_eligible out \<longrightarrow> unat n + length ds = unat (rt_max_attempts config))
     \<and> (\<forall>d \<in> set ds. d \<le> bo_cap (rt_backoff config))"

text \<open>
  The interface of an attempt the loop can run: it adds its two opening records and one outcome
  record to the sink, and fills an empty slot exactly when it succeeds.
\<close>

locale attempt_runner =
  fixes one :: "'x RunContext \<Rightarrow> ('t, 'v, 'j) AttemptWorld \<Rightarrow> ('t, 'v, 'j) attempt_result"
    and node :: string
  assumes one_log: "one ctx w = Some (Inr out, w') \<Longrightarrow>
      \<exists>m. aw_sink w' = aw_sink w @ [NodeAdmitted node, AttemptStarted node (rc_attempt ctx),
        outcome_record node (rc_attempt ctx) out m]"
    and one_slot: "one ctx w = Some (r, w') \<Longrightarrow> sl_content (aw_slot w) = Empty \<Longrightarrow>
      if r = Inr SucceededOutcome then \<exists>v. sl_content (aw_slot w') = Filled v
      else aw_slot w' = aw_slot w \<and> aw_ledger w' = aw_ledger w"
begin

lemma loop_cases:
  assumes "retry_loop one e node config n w = Some (r, w')"
  obtains (panic) ctx w0 p where "one ctx w0 = Some (Inl p, w')" "r = Inl p"
      "aw_sink w0 = aw_sink w" "aw_slot w0 = aw_slot w" "aw_ledger w0 = aw_ledger w"
    | (last) ctx w0 out w1 where "one ctx w0 = Some (Inr out, w1)" "r = Inr out"
      "aw_sink w0 = aw_sink w" "aw_slot w0 = aw_slot w" "aw_ledger w0 = aw_ledger w" "rc_attempt ctx = n"
      "w' = emit_node_terminal node (terminal_state out) w1"
      "\<not> (is_retry_eligible out \<and> n < rt_max_attempts config)"
    | (again) ctx w0 out w1 d w2 where "one ctx w0 = Some (Inr out, w1)"
      "aw_sink w0 = aw_sink w" "aw_slot w0 = aw_slot w" "aw_ledger w0 = aw_ledger w" "rc_attempt ctx = n"
      "is_retry_eligible out" "n < rt_max_attempts config"
      "schedule_backoff e node n config w1 = (d, w2)"
      "retry_loop one e node config (n + 1) w2 = Some (r, w')"
proof -
  obtain ctx fl where c: "attempt_context e node config n (aw_flags w) = (ctx, fl)" by fastforce
  then have n: "rc_attempt ctx = n"
    by (auto simp: attempt_context_def context_build_def with_max_attempts_def with_attempt_def
        context_builder_def Let_def split: prod.splits)
  define w0 where "w0 = w\<lparr>aw_flags := fl\<rparr>"
  have w0: "aw_sink w0 = aw_sink w" "aw_slot w0 = aw_slot w" "aw_ledger w0 = aw_ledger w"
    by (simp_all add: w0_def)
  obtain q w1 where one: "one ctx w0 = Some (q, w1)"
    using assms c by (subst (asm) retry_loop.simps) (auto simp: w0_def split: option.splits)
  note unf = assms [unfolded retry_loop.simps [of one e node config n w] c Let_def prod.case w0_def [symmetric] one]
  show thesis
  proof (cases q)
    case (Inl p)
    with unf one show thesis by (intro panic [of ctx w0 p]) (simp_all add: w0)
  next
    case (Inr out)
    show thesis
    proof (cases "is_retry_eligible out \<and> n < rt_max_attempts config")
      case False
      with unf Inr one show thesis by (intro last [of ctx w0 out w1]) (auto simp: w0 n)
    next
      case True
      obtain d w2 where d: "schedule_backoff e node n config w1 = (d, w2)" by fastforce
      with unf Inr True have "retry_loop one e node config (n + 1) w2 = Some (r, w')"
        by (simp split: option.splits)
      with one Inr True d show thesis by (intro again [of ctx w0 out w1 d w2]) (simp_all add: w0 n)
    qed
  qed
qed

lemma schedule_backoff_frame:
  assumes "schedule_backoff e node n config w = (d, w')"
  shows "aw_sink w' = aw_sink w @ [BackoffStarted node n d] \<and> aw_slot w' = aw_slot w
    \<and> aw_ledger w' = aw_ledger w \<and> d \<le> bo_cap (rt_backoff config)"
proof -
  obtain d1 j where j: "delay_for (ae_f64 e) (ae_next_unit e) (rt_backoff config) (n - 1) (aw_jitter w) = (d1, j)"
    by fastforce
  with assms show ?thesis using delay_for_le_cap [OF j] by (auto simp: schedule_backoff_def emit_def)
qed

lemma loop_log:
  assumes "retry_loop one e node config n w = Some (Inr out, w')" "n \<le> rt_max_attempts config"
  shows "\<exists>oms ds. aw_sink w' = aw_sink w @ retry_log node n oms ds \<and> retry_rounds config n out oms ds"
  using assms
proof (induction "unat (rt_max_attempts config) - unat n" arbitrary: n w rule: less_induct)
  case less
  from less.prems(1) show ?case
  proof (cases rule: loop_cases)
    case (panic ctx w0 p)
    then show ?thesis by simp
  next
    case (last ctx w0 out' w1)
    then obtain m where m: "aw_sink w1 = aw_sink w @ [NodeAdmitted node, AttemptStarted node n, outcome_record node n out m]"
      using one_log [OF last(1)] by auto
    have max: "unat n \<le> unat (rt_max_attempts config)" using less.prems(2) by (simp add: word_le_nat_alt)
    have "is_retry_eligible out \<Longrightarrow> unat n = unat (rt_max_attempts config)"
      using last(2,8) max by (simp add: word_less_nat_alt)
    then show ?thesis
      using last m max by (intro exI [of _ "[(out, m)]"] exI [of _ "[]"])
        (simp add: retry_rounds_def emit_node_terminal_def emit_def)
  next
    case (again ctx w0 out' w1 d w2)
    then obtain m where m: "aw_sink w1 = aw_sink w @ [NodeAdmitted node, AttemptStarted node n, outcome_record node n out' m]"
      using one_log [OF again(1)] by auto
    note suc = unat_attempt_Suc [OF again(7)]
    have lt: "unat (rt_max_attempts config) - unat (n + 1) < unat (rt_max_attempts config) - unat n"
      by (rule attempt_measure [OF again(7)])
    have le: "n + 1 \<le> rt_max_attempts config"
      using again(7) suc by (simp add: word_le_nat_alt word_less_nat_alt)
    from less.hyps [OF lt again(9) le] obtain oms ds where
      log: "aw_sink w' = aw_sink w2 @ retry_log node (n + 1) oms ds" "retry_rounds config (n + 1) out oms ds" by blast
    note bo = schedule_backoff_frame [OF again(8)]
    obtain x oms' where oms: "oms = x # oms'" using log(2) by (cases oms) (auto simp: retry_rounds_def)
    show ?thesis
      using log m bo again(6) suc
      by (intro exI [of _ "(out', m) # oms"] exI [of _ "d # ds"]) (auto simp: oms retry_rounds_def)
  qed
qed

lemma loop_slot:
  assumes "retry_loop one e node config n w = Some (r, w')" "sl_content (aw_slot w) = Empty"
  shows "if r = Inr SucceededOutcome then \<exists>v. sl_content (aw_slot w') = Filled v
    else aw_slot w' = aw_slot w \<and> aw_ledger w' = aw_ledger w"
  using assms
proof (induction "unat (rt_max_attempts config) - unat n" arbitrary: n w rule: less_induct)
  case less
  from less.prems(1) show ?case
  proof (cases rule: loop_cases)
    case (panic ctx w0 p)
    then show ?thesis using one_slot [OF panic(1)] less.prems(2) by simp
  next
    case (last ctx w0 out' w1)
    then show ?thesis
      using one_slot [OF last(1)] less.prems(2) by (simp add: emit_node_terminal_def emit_def)
  next
    case (again ctx w0 out' w1 d w2)
    have "out' \<noteq> SucceededOutcome" using again(6) by (auto simp: is_retry_eligible_def)
    then have w1: "aw_slot w1 = aw_slot w" "aw_ledger w1 = aw_ledger w"
      using one_slot [OF again(1)] less.prems(2) again(3,4) by simp_all
    from schedule_backoff_frame [OF again(8)] w1 have w2: "aw_slot w2 = aw_slot w" "aw_ledger w2 = aw_ledger w"
      by simp_all
    show ?thesis
      using less.hyps [OF attempt_measure [OF again(7)] again(9)] less.prems(2) w2 by simp
  qed
qed

end


section \<open>The three attempts meet the interface\<close>

lemma opening_frame [simp]:
  "aw_sink (emit_opening node a w) = aw_sink w @ [NodeAdmitted node, AttemptStarted node a]"
  "aw_slot (emit_opening node a w) = aw_slot w" "aw_ledger (emit_opening node a w) = aw_ledger w"
  "aw_task (emit_opening node a w) = aw_task w" "aw_current_node (emit_opening node a w) = aw_current_node w"
  by (simp_all add: emit_defs)

lemma record_frame [simp]:
  "aw_sink (emit_attempt_outcome_record node a out m w) = aw_sink w @ [outcome_record node a out m]"
  "aw_slot (emit_attempt_outcome_record node a out m w) = aw_slot w"
  "aw_ledger (emit_attempt_outcome_record node a out m w) = aw_ledger w"
  by (simp_all add: emit_defs)

definition attempt_spec ::
  "string \<Rightarrow> u32 \<Rightarrow> ('t, 'v, 'j) AttemptWorld \<Rightarrow> AttemptOutcome \<Rightarrow> ('t, 'v, 'j) AttemptWorld \<Rightarrow> bool" where
  "attempt_spec node a w out w' \<longleftrightarrow>
     (\<exists>m. aw_sink w' = aw_sink w @ [NodeAdmitted node, AttemptStarted node a, outcome_record node a out m])
     \<and> (sl_content (aw_slot w) = Empty \<longrightarrow>
         (if out = SucceededOutcome then \<exists>v. sl_content (aw_slot w') = Filled v
          else aw_slot w' = aw_slot w \<and> aw_ledger w' = aw_ledger w))"

lemma run_one_attempt_spec:
  assumes "run_one_attempt e node ctx w = Some (r, w')"
  shows "(\<exists>p. r = Inl p \<and> aw_slot w' = aw_slot w \<and> aw_ledger w' = aw_ledger w)
    \<or> (\<exists>out. r = Inr out \<and> attempt_spec node (rc_attempt ctx) w out w')"
proof -
  obtain t b where b: "await_body (ae_task e (aw_task w) ctx) = Some (t, b)"
    using assms by (auto simp: run_one_attempt_def Let_def split: option.splits)
  show ?thesis
  proof (cases b)
    case (Inl p)
    with assms b show ?thesis by (auto simp: run_one_attempt_def Let_def)
  next
    case (Inr x)
    obtain out w1 where c: "classify_and_fill x ((emit_opening node (rc_attempt ctx) w)\<lparr>aw_task := t\<rparr>) = (out, w1)"
      by fastforce
    with assms b Inr have w': "r = Inr out" "w' = emit_attempt_outcome_record node (rc_attempt ctx) out None w1"
      by (auto simp: run_one_attempt_def Let_def)
    show ?thesis
      unfolding w' attempt_spec_def using classify_frame [OF c] classify_slot [OF c] by auto
  qed
qed

lemma settled_spec:
  assumes "settle_race r w1 = ((out, m), w2)"
    and "aw_sink w1 = aw_sink w @ [NodeAdmitted node, AttemptStarted node a]" "aw_slot w1 = aw_slot w"
      "aw_ledger w1 = aw_ledger w"
  shows "attempt_spec node a w out (emit_attempt_outcome_record node a out m w2)"
proof (cases r)
  case (RaceA x)
  with assms(1) have s: "settle_caught x w1 = ((out, m), w2)" by (simp add: settle_race_def)
  show ?thesis
    unfolding attempt_spec_def using settle_caught_frame [OF s] settle_caught_slot [OF s] assms(2-) by auto
next
  case (RaceB x)
  with assms show ?thesis by (auto simp: settle_race_def attempt_spec_def)
qed

lemma caught_spec:
  assumes "run_one_attempt_caught e node ctx w = Some (out, w')"
  shows "attempt_spec node (rc_attempt ctx) w out w'"
proof -
  obtain t b where b: "await_body (ae_task e (aw_task w) ctx) = Some (t, b)"
    using assms by (auto simp: run_one_attempt_caught_def caught_body_def Let_def split: option.splits prod.splits)
  define w1 where "w1 = (emit_opening node (rc_attempt ctx) w)
      \<lparr>aw_task := t, aw_current_node := aw_current_node w\<rparr>"
  obtain o1 m w2 where s: "settle_race (RaceA b) w1 = ((o1, m), w2)" by (metis surj_pair)
  with assms b have w': "o1 = out" "w' = emit_attempt_outcome_record node (rc_attempt ctx) out m w2"
    by (auto simp: run_one_attempt_caught_def caught_body_def attribution_set_def attribution_drop_def
        settle_race_def Let_def w1_def)
  show ?thesis unfolding w'(2) using settled_spec [OF s] w'(1) by (simp add: w1_def)
qed

lemma caught_timed_spec:
  assumes "run_one_attempt_caught_timed e node ctx deadline w = Some (out, w')"
  shows "attempt_spec node (rc_attempt ctx) w out w'"
proof -
  obtain t b where b: "await_race (aw_task w) (race (ae_task e (aw_task w) ctx) deadline) = Some (t, b)"
    using assms by (auto simp: run_one_attempt_caught_timed_def caught_race_def Let_def split: option.splits prod.splits)
  define w1 where "w1 = (emit_opening node (rc_attempt ctx) w)
      \<lparr>aw_task := t, aw_current_node := aw_current_node w\<rparr>"
  obtain o1 m w2 where s: "settle_race b w1 = ((o1, m), w2)" by (metis surj_pair)
  with assms b have w': "o1 = out" "w' = emit_attempt_outcome_record node (rc_attempt ctx) out m w2"
    by (auto simp: run_one_attempt_caught_timed_def caught_race_def attribution_set_def attribution_drop_def
        Let_def w1_def)
  show ?thesis unfolding w'(2) using settled_spec [OF s] w'(1) by (simp add: w1_def)
qed

lemma one_attempt_timed_spec:
  "one_attempt_timed e node timeout ctx w = Some (out, w') \<Longrightarrow> attempt_spec node (rc_attempt ctx) w out w'"
  by (cases timeout) (auto simp: one_attempt_timed_def intro: caught_spec caught_timed_spec)

lemma lift_caught_Some: "lift_caught r = Some (q, w) \<longleftrightarrow> (\<exists>out. r = Some (out, w) \<and> q = Inr out)"
  by (auto simp: lift_caught_def)

interpretation uncaught: attempt_runner "run_one_attempt e node" node for e node
proof unfold_locales
  fix ctx w out w'
  assume "run_one_attempt e node ctx w = Some (Inr out, w')"
  from run_one_attempt_spec [OF this] show "\<exists>m. aw_sink w' = aw_sink w @
      [NodeAdmitted node, AttemptStarted node (rc_attempt ctx), outcome_record node (rc_attempt ctx) out m]"
    by (simp add: attempt_spec_def)
next
  fix ctx w r w'
  assume "run_one_attempt e node ctx w = Some (r, w')" "sl_content (aw_slot w) = Empty"
  with run_one_attempt_spec [OF this(1)] show "if r = Inr SucceededOutcome
      then \<exists>v. sl_content (aw_slot w') = Filled v else aw_slot w' = aw_slot w \<and> aw_ledger w' = aw_ledger w"
    by (auto simp: attempt_spec_def split: if_splits)
qed

interpretation timed: attempt_runner "\<lambda>ctx w. lift_caught (one_attempt_timed e node timeout ctx w)" node
  for e node timeout
proof unfold_locales
  fix ctx w out w'
  assume "lift_caught (one_attempt_timed e node timeout ctx w) = Some (Inr out, w')"
  then show "\<exists>m. aw_sink w' = aw_sink w @
      [NodeAdmitted node, AttemptStarted node (rc_attempt ctx), outcome_record node (rc_attempt ctx) out m]"
    using one_attempt_timed_spec by (fastforce simp: lift_caught_Some attempt_spec_def)
next
  fix ctx w r w'
  assume "lift_caught (one_attempt_timed e node timeout ctx w) = Some (r, w')" "sl_content (aw_slot w) = Empty"
  then show "if r = Inr SucceededOutcome
      then \<exists>v. sl_content (aw_slot w') = Filled v else aw_slot w' = aw_slot w \<and> aw_ledger w' = aw_ledger w"
    using one_attempt_timed_spec by (fastforce simp: lift_caught_Some attempt_spec_def split: if_splits)
qed

section \<open>The retry loop's guarantees\<close>

text \<open>Without a timeout the timed loop is the plain one.\<close>

lemma timed_None: "run_with_retries_caught_timed e node config None w = run_with_retries_caught e node config w"
  by (simp add: run_with_retries_caught_timed_def run_with_retries_caught_def one_attempt_timed_def)

lemma retry_config_max: "1 \<le> rt_max_attempts (retry_config_new n b)"
  by (simp add: retry_config_new_def)

text \<open>
  C25. The records of a retried node, whenever the loop returns: attempts numbered from one, each with
  its admission, start and outcome record; a backoff after each but the last, which are all
  retry-eligible; at most the configured number of attempts, and all of them used up when the last
  one is retry-eligible; no delay beyond the cap; and one terminal record, at the end, carrying the
  last outcome.
\<close>

theorem retry_log_exact:
  assumes "run_with_retries_caught_timed e node (retry_config_new k b) timeout w = Some (Inr out, w')"
  shows "\<exists>oms ds. aw_sink w' = aw_sink w @ retry_log node 1 oms ds
    \<and> oms \<noteq> [] \<and> fst (last oms) = out \<and> Suc (length ds) = length oms
    \<and> (\<forall>om \<in> set (butlast oms). is_retry_eligible (fst om))
    \<and> length oms \<le> max (unat k) 1 \<and> (is_retry_eligible out \<longrightarrow> length oms = max (unat k) 1)
    \<and> (\<forall>d \<in> set ds. d \<le> bo_cap b)"
proof -
  have max: "unat (rt_max_attempts (retry_config_new k b)) = max (unat k) 1"
    by (simp add: retry_config_new_def max_def word_le_nat_alt)
  from timed.loop_log [OF assms [unfolded run_with_retries_caught_timed_def] retry_config_max]
  obtain oms ds where "aw_sink w' = aw_sink w @ retry_log node 1 oms ds"
    "retry_rounds (retry_config_new k b) 1 out oms ds" by blast
  then show ?thesis
    unfolding retry_rounds_def max by (intro exI [of _ oms] exI [of _ ds]) (auto simp: retry_config_new_def)
qed

text \<open>
  A node's slot is filled by its retry loop exactly when the loop reports success; a loop that
  reports anything else leaves an empty slot and the residency ledger as they were.
\<close>

theorem retry_fills_once:
  assumes "run_with_retries_caught_timed e node config timeout w = Some (r, w')" "sl_content (aw_slot w) = Empty"
  shows "if r = Inr SucceededOutcome then \<exists>v. sl_content (aw_slot w') = Filled v
    else aw_slot w' = aw_slot w \<and> aw_ledger w' = aw_ledger w"
  using timed.loop_slot [OF assms(1) [unfolded run_with_retries_caught_timed_def] assms(2)] .

lemma settled_returns: "\<exists>out m w'. settle_race r w = ((out, m), w')"
  by (metis surj_pair)

lemma one_attempt_timed_returns:
  assumes "\<And>d. ends (ae_timer e d)" "timeout = None \<Longrightarrow> ends (ae_task e (aw_task w) ctx)"
  shows "\<exists>out w'. one_attempt_timed e node timeout ctx w = Some (out, w')"
proof (cases timeout)
  case None
  with assms(2) await_ends obtain t b where "await_body (ae_task e (aw_task w) ctx) = Some (t, b)" by blast
  then show ?thesis
    using None by (simp add: one_attempt_timed_def run_one_attempt_caught_def caught_body_def attribution_set_def
        Let_def split: prod.split)
next
  case (Some budget)
  obtain j u y where "done_after j (ae_timer e budget) = Some (u, y)"
    using assms(1) [of budget] by (auto simp: ends_def)
  from race_winner [OF this, of "aw_task w" "ae_task e (aw_task w) ctx"] obtain t r where
    "await_race (aw_task w) (race (ae_task e (aw_task w) ctx) (ae_timer e budget)) = Some (t, r)" by blast
  then show ?thesis
    using Some by (simp add: one_attempt_timed_def run_one_attempt_caught_timed_def caught_race_def
        attribution_set_def Let_def split: prod.split)
qed

lemma retry_loop_returns:
  assumes "\<And>d. ends (ae_timer e d)" "\<And>t ctx. timeout = None \<Longrightarrow> ends (ae_task e t ctx)"
  shows "\<exists>out w'. retry_loop (\<lambda>ctx w. lift_caught (one_attempt_timed e node timeout ctx w)) e node config n w
      = Some (Inr out, w')"
proof (induction "unat (rt_max_attempts config) - unat n" arbitrary: n w rule: less_induct)
  case less
  obtain ctx fl where c: "attempt_context e node config n (aw_flags w) = (ctx, fl)" by fastforce
  obtain out w1 where one: "one_attempt_timed e node timeout ctx (w\<lparr>aw_flags := fl\<rparr>) = Some (out, w1)"
    using one_attempt_timed_returns [OF assms(1) assms(2)] by blast
  obtain d w2 where d: "schedule_backoff e node n config w1 = (d, w2)" by fastforce
  obtain t a where timer: "await_body (ae_timer e d) = Some (t, a)" using await_ends [OF assms(1)] by blast
  show ?case
  proof (cases "is_retry_eligible out \<and> n < rt_max_attempts config")
    case True
    then have "unat (rt_max_attempts config) - unat (n + 1) < unat (rt_max_attempts config) - unat n"
      by (intro attempt_measure) simp
    from less.hyps [OF this, of w2] True show ?thesis
      by (subst retry_loop.simps) (simp add: c one d timer lift_caught_def)
  next
    case False
    then show ?thesis
      by (subst retry_loop.simps) (auto simp: c one lift_caught_def)
  qed
qed

text \<open>
  C26. The retry loop always returns an outcome, however the attempts go, when the timer's waits end
  and, without a timeout, the task's own futures end: with a timeout even a task that never finishes
  is brought to an outcome.
\<close>

theorem retry_returns:
  assumes "\<And>d. ends (ae_timer e d)" "\<And>t ctx. timeout = None \<Longrightarrow> ends (ae_task e t ctx)"
  shows "\<exists>out w'. run_with_retries_caught_timed e node config timeout w = Some (Inr out, w')"
  unfolding run_with_retries_caught_timed_def by (rule retry_loop_returns) (rule assms, simp add: assms)

text \<open>A task that always needs three polls, against a timer of two.\<close>

lemma slow_env_timer: "ends (ae_timer slow_env d)"
  unfolding ends_def slow_env_def by (intro exI [of _ 1]) simp

theorem retry_returns_witness:
  "\<exists>out w'. run_with_retries_caught_timed slow_env ''n'' (retry_config_new 2 default_backoff) (Some 5) fresh_world
     = Some (Inr out, w')"
  by (rule retry_returns) (simp_all add: slow_env_timer)

lemma slow_run:
  obtains out w' where "run_with_retries_caught_timed slow_env ''n'' (retry_config_new 2 default_backoff) (Some 5)
    fresh_world = Some (Inr out, w')"
  using retry_loop_returns [of slow_env "Some 5", OF slow_env_timer]
  unfolding run_with_retries_caught_timed_def by blast

theorem retry_log_exact_witness:
  "\<exists>out w' oms ds. run_with_retries_caught_timed slow_env ''n'' (retry_config_new 2 default_backoff) (Some 5)
     fresh_world = Some (Inr out, w') \<and> aw_sink w' = retry_log ''n'' 1 oms ds \<and> length oms \<le> 2"
proof -
  obtain out w' where run: "run_with_retries_caught_timed slow_env ''n'' (retry_config_new 2 default_backoff)
      (Some 5) fresh_world = Some (Inr out, w')" by (rule slow_run)
  moreover from retry_log_exact [OF run] obtain oms ds where
    "aw_sink w' = aw_sink fresh_world @ retry_log ''n'' 1 oms ds" "length oms \<le> max (unat (2 :: u32)) 1" by blast
  ultimately show ?thesis by (auto simp: fresh_world_def)
qed

theorem retry_fills_once_witness:
  "\<exists>out w'. run_with_retries_caught_timed slow_env ''n'' (retry_config_new 2 default_backoff) (Some 5)
     fresh_world = Some (Inr out, w')
     \<and> (if (Inr out :: PanicPayload + AttemptOutcome) = Inr SucceededOutcome
        then \<exists>v. sl_content (aw_slot w') = Filled v else aw_slot w' = aw_slot fresh_world)"
proof -
  obtain out w' where run: "run_with_retries_caught_timed slow_env ''n'' (retry_config_new 2 default_backoff)
      (Some 5) fresh_world = Some (Inr out, w')" by (rule slow_run)
  have "sl_content (aw_slot fresh_world) = Empty" by (simp add: fresh_world_def slot_new_def)
  from retry_fills_once [OF run this] run show ?thesis by (auto split: if_splits)
qed

section \<open>Panic attribution across interleaved attempts\<close>

text \<open>
  The guard is held across suspensions, not for one poll: when two attempts on one thread overlap and
  the first to start ends first, the thread is left attributed to it after both are over.
\<close>

lemma attribution_leak:
  assumes "attribution_set first None = (p1, c1)" "attribution_set second c1 = (p2, c2)"
  shows "attribution_drop p2 (attribution_drop p1 c2) = Some first"
  using assms by (simp add: attribution_set_def attribution_drop_def)

end
