(* ===== verification/Flow.thy ===== *)
theory Flow
  imports Vocabulary
begin

text \<open>
  Flow construction (\<open>crates/core/src/flow.rs\<close> and the binding builder of \<open>binding.rs\<close>): a flow
  accumulates nodes in a map keyed by name, a handle is the identity derived from the name, and
  \<open>finish\<close> freezes the flow into an immutable pipeline.  A Rust task type enters as a \<open>TaskDecl\<close>:
  the associated constants of the type that registration reads.
\<close>

section \<open>Nodes, flows, pipelines\<close>

record StableTypeNames =
  st_task :: string
  st_inputs :: "string list"
  st_output :: string

record PipelineNode =
  pn_name :: string
  pn_id :: node_id
  pn_group :: "string option"
  pn_edges :: "DataEdge list"
  pn_ordering_edges :: "OrderingEdge list"
  pn_trigger_rule :: TriggerRule
  pn_policy :: NodePolicy
  pn_declared_class :: ExecutionClass
  pn_durable_witness :: DurableWitness
  pn_output_is_unit :: bool
  pn_registration_count :: nat
  pn_stable_names :: "StableTypeNames option"

record Pipeline =
  pp_nodes :: "(string, PipelineNode) btree"
  pp_env_allowlist :: "string list"
  pp_failure_mode :: FailureMode

text \<open>\<open>Flow\<close> and \<open>Pipeline\<close> have the same fields; \<open>finish\<close> moves them across.\<close>

record FlowBuilder =
  fl_nodes :: "(string, PipelineNode) btree"
  fl_env_allowlist :: "string list"
  fl_failure_mode :: FailureMode

record TaskDecl =
  td_execution_class :: ExecutionClass
  td_output_is_unit :: bool

definition flow_new :: FlowBuilder where
  "flow_new = \<lparr>fl_nodes = [], fl_env_allowlist = [], fl_failure_mode = ContinueIndependent\<rparr>"

definition allow_env_capture :: "string list \<Rightarrow> FlowBuilder \<Rightarrow> FlowBuilder" where
  "allow_env_capture names fl = fl\<lparr>fl_env_allowlist := fl_env_allowlist fl @ names\<rparr>"

definition set_failure_mode :: "FailureMode \<Rightarrow> FlowBuilder \<Rightarrow> FlowBuilder" where
  "set_failure_mode mode fl = fl\<lparr>fl_failure_mode := mode\<rparr>"

text \<open>\<open>insert_node\<close>: a second registration of a name overwrites the node and counts the collision.\<close>

definition insert_node :: "string \<Rightarrow> PipelineNode \<Rightarrow> FlowBuilder \<Rightarrow> FlowBuilder" where
  "insert_node name node fl =
     (let node' = (case bt_get (fl_nodes fl) name of
                     Some existing \<Rightarrow> node\<lparr>pn_registration_count := pn_registration_count existing + 1\<rparr>
                   | None \<Rightarrow> node)
      in fl\<lparr>fl_nodes := bt_insert name node' (fl_nodes fl)\<rparr>)"

text \<open>
  The binding builder: \<open>depends_on\<close> numbers the bound handles by position,
  \<open>ordered_after\<close> turns each ordering handle into an ordering edge.
\<close>

definition into_data_edges :: "(node_id \<times> ReceiveMode) list \<Rightarrow> DataEdge list" where
  "into_data_edges deps =
     map (\<lambda>(position, upstream, mode). \<lparr>de_upstream = upstream, de_position = position, de_mode = mode\<rparr>)
       (enumerate 0 deps)"

definition into_ordering_edges :: "node_id list \<Rightarrow> OrderingEdge list" where
  "into_ordering_edges ups = map (\<lambda>u. \<lparr>oe_upstream = u\<rparr>) ups"

definition register_source_in_group_with ::
  "string \<Rightarrow> TaskDecl \<Rightarrow> string option \<Rightarrow> NodePolicy \<Rightarrow> DurableWitness \<Rightarrow> TriggerRule \<Rightarrow> node_id list
     \<Rightarrow> FlowBuilder \<Rightarrow> FlowBuilder \<times> node_id" where
  "register_source_in_group_with name task grp policy durable_witness trigger_rule ord_ups fl =
     (let node = \<lparr>pn_name = name, pn_id = from_name name, pn_group = grp, pn_edges = [],
                  pn_ordering_edges = into_ordering_edges ord_ups, pn_trigger_rule = trigger_rule,
                  pn_policy = policy, pn_declared_class = td_execution_class task,
                  pn_durable_witness = durable_witness, pn_output_is_unit = td_output_is_unit task,
                  pn_registration_count = 1, pn_stable_names = None\<rparr>
      in (insert_node name node fl, from_name name))"

text \<open>A node with data dependencies always keeps the default rule \<open>AllSucceeded\<close>.\<close>

definition register_in_group_with ::
  "string \<Rightarrow> TaskDecl \<Rightarrow> (node_id \<times> ReceiveMode) list \<Rightarrow> string option \<Rightarrow> NodePolicy \<Rightarrow> DurableWitness
     \<Rightarrow> node_id list \<Rightarrow> FlowBuilder \<Rightarrow> FlowBuilder \<times> node_id" where
  "register_in_group_with name task deps grp policy durable_witness ord_ups fl =
     (let node = \<lparr>pn_name = name, pn_id = from_name name, pn_group = grp,
                  pn_edges = into_data_edges deps,
                  pn_ordering_edges = into_ordering_edges ord_ups, pn_trigger_rule = AllSucceeded,
                  pn_policy = policy, pn_declared_class = td_execution_class task,
                  pn_durable_witness = durable_witness, pn_output_is_unit = td_output_is_unit task,
                  pn_registration_count = 1, pn_stable_names = None\<rparr>
      in (insert_node name node fl, from_name name))"

definition register_source :: "string \<Rightarrow> TaskDecl \<Rightarrow> FlowBuilder \<Rightarrow> FlowBuilder \<times> node_id" where
  "register_source name task =
     register_source_in_group_with name task None default_policy Absent AllSucceeded []"

definition register_source_with_trigger ::
  "string \<Rightarrow> TaskDecl \<Rightarrow> NodePolicy \<Rightarrow> TriggerRule \<Rightarrow> FlowBuilder \<Rightarrow> FlowBuilder \<times> node_id" where
  "register_source_with_trigger name task policy rule =
     register_source_in_group_with name task None policy Absent rule []"

definition register_source_durable ::
  "string \<Rightarrow> TaskDecl \<Rightarrow> NodePolicy \<Rightarrow> FlowBuilder \<Rightarrow> FlowBuilder \<times> node_id" where
  "register_source_durable name task policy =
     register_source_in_group_with name task None (policy\<lparr>np_durable := True\<rparr>) Present AllSucceeded []"

definition register_source_ordered_after_with_trigger ::
  "string \<Rightarrow> TaskDecl \<Rightarrow> node_id list \<Rightarrow> NodePolicy \<Rightarrow> TriggerRule \<Rightarrow> FlowBuilder
     \<Rightarrow> FlowBuilder \<times> node_id" where
  "register_source_ordered_after_with_trigger name task ordering_upstreams policy rule =
     register_source_in_group_with name task None policy Absent rule ordering_upstreams"

text \<open>A teardown is an \<open>AllTerminal\<close> source ordered after the nodes it covers.\<close>

definition register_teardown_with ::
  "string \<Rightarrow> TaskDecl \<Rightarrow> node_id list \<Rightarrow> NodePolicy \<Rightarrow> FlowBuilder \<Rightarrow> FlowBuilder \<times> node_id" where
  "register_teardown_with name task covered policy =
     register_source_in_group_with name task None (policy\<lparr>np_teardown := True\<rparr>) Absent AllTerminal covered"

definition register ::
  "string \<Rightarrow> TaskDecl \<Rightarrow> (node_id \<times> ReceiveMode) list \<Rightarrow> FlowBuilder \<Rightarrow> FlowBuilder \<times> node_id" where
  "register name task deps = register_in_group_with name task deps None default_policy Absent []"

definition register_with ::
  "string \<Rightarrow> TaskDecl \<Rightarrow> (node_id \<times> ReceiveMode) list \<Rightarrow> NodePolicy \<Rightarrow> FlowBuilder
     \<Rightarrow> FlowBuilder \<times> node_id" where
  "register_with name task deps policy = register_in_group_with name task deps None policy Absent []"

definition register_durable ::
  "string \<Rightarrow> TaskDecl \<Rightarrow> (node_id \<times> ReceiveMode) list \<Rightarrow> NodePolicy \<Rightarrow> FlowBuilder
     \<Rightarrow> FlowBuilder \<times> node_id" where
  "register_durable name task deps policy =
     register_in_group_with name task deps None (policy\<lparr>np_durable := True\<rparr>) Present []"

definition register_ordered_after ::
  "string \<Rightarrow> TaskDecl \<Rightarrow> (node_id \<times> ReceiveMode) list \<Rightarrow> node_id list \<Rightarrow> FlowBuilder
     \<Rightarrow> FlowBuilder \<times> node_id" where
  "register_ordered_after name task deps ordering_upstreams =
     register_in_group_with name task deps None default_policy Absent ordering_upstreams"

text \<open>\<open>set_stable_names\<close> writes the first node, in name order, that carries the identity.\<close>

fun set_stable_names_in ::
  "node_id \<Rightarrow> StableTypeNames \<Rightarrow> (string, PipelineNode) btree \<Rightarrow> (string, PipelineNode) btree" where
  "set_stable_names_in i names [] = []"
| "set_stable_names_in i names ((k, n) # m) =
     (if pn_id n = i then (k, n\<lparr>pn_stable_names := Some names\<rparr>) # m
      else (k, n) # set_stable_names_in i names m)"

definition set_stable_names :: "node_id \<Rightarrow> StableTypeNames \<Rightarrow> FlowBuilder \<Rightarrow> FlowBuilder" where
  "set_stable_names i names fl = fl\<lparr>fl_nodes := set_stable_names_in i names (fl_nodes fl)\<rparr>"

definition finish :: "FlowBuilder \<Rightarrow> Pipeline" where
  "finish fl = \<lparr>pp_nodes = fl_nodes fl, pp_env_allowlist = fl_env_allowlist fl,
     pp_failure_mode = fl_failure_mode fl\<rparr>"

section \<open>Reading a pipeline\<close>

definition nodes_of :: "Pipeline \<Rightarrow> PipelineNode list" where
  "nodes_of p = bt_values (pp_nodes p)"

text \<open>\<open>Pipeline::node\<close>: the first node, in name order, that carries the identity.\<close>

definition node_by_id :: "Pipeline \<Rightarrow> node_id \<Rightarrow> PipelineNode option" where
  "node_by_id p i = List.find (\<lambda>n. pn_id n = i) (nodes_of p)"

definition effective_class :: "PipelineNode \<Rightarrow> ExecutionClass" where
  "effective_class n = (case np_class_override (pn_policy n) of Some c \<Rightarrow> c | None \<Rightarrow> pn_declared_class n)"

definition output_is_durable :: "PipelineNode \<Rightarrow> bool" where
  "output_is_durable n \<longleftrightarrow> pn_durable_witness n = Present"

definition is_teardown :: "PipelineNode \<Rightarrow> bool" where
  "is_teardown n \<longleftrightarrow> np_teardown (pn_policy n)"

text \<open>The names an edge list resolves to: an identity that no node carries is dropped.\<close>

definition resolve_names :: "Pipeline \<Rightarrow> node_id list \<Rightarrow> string list" where
  "resolve_names p ids = List.map_filter (\<lambda>i. map_option pn_name (node_by_id p i)) ids"

definition data_upstreams :: "PipelineNode \<Rightarrow> node_id list" where
  "data_upstreams n = map de_upstream (pn_edges n)"

definition ordering_upstream_ids :: "PipelineNode \<Rightarrow> node_id list" where
  "ordering_upstream_ids n = map oe_upstream (pn_ordering_edges n)"

definition teardown_covered_nodes :: "Pipeline \<Rightarrow> (string, string list) btree" where
  "teardown_covered_nodes p =
     fold (\<lambda>n. bt_insert (pn_name n) (sort_dedup (resolve_names p (ordering_upstream_ids n))))
       (filter is_teardown (nodes_of p)) []"

section \<open>Well-formedness\<close>

text \<open>
  What every flow built by the registrars satisfies: the map is ordered, every entry is stored
  under its node's name, and the identity is the hash of the name.
\<close>

definition nodes_wf :: "(string, PipelineNode) btree \<Rightarrow> bool" where
  "nodes_wf m \<longleftrightarrow> bt_ok m \<and> (\<forall>(k, n) \<in> set m. pn_name n = k \<and> pn_id n = from_name k)"

definition pipeline_wf :: "Pipeline \<Rightarrow> bool" where
  "pipeline_wf p \<longleftrightarrow> nodes_wf (pp_nodes p)"

text \<open>No two node names of the pipeline share their 64-bit identity.\<close>

definition ids_distinct :: "Pipeline \<Rightarrow> bool" where
  "ids_distinct p \<longleftrightarrow> distinct (map pn_id (nodes_of p))"

lemma nodes_wf_Nil [simp]: "nodes_wf []"
  by (simp add: nodes_wf_def)

lemma bt_insert_in_set: "kv \<in> set (bt_insert k v m) \<Longrightarrow> kv = (k, v) \<or> kv \<in> set m"
  by (induction k v m rule: bt_insert.induct) (auto split: if_splits)

lemma nodes_wf_insert:
  assumes "nodes_wf m" "pn_name n = k" "pn_id n = from_name k"
  shows "nodes_wf (bt_insert k n m)"
  using assms by (fastforce simp: nodes_wf_def dest: bt_insert_in_set)

lemma insert_node_wf:
  assumes "nodes_wf (fl_nodes fl)" "pn_name n = name" "pn_id n = from_name name"
  shows "nodes_wf (fl_nodes (insert_node name n fl))"
  using assms by (auto simp: insert_node_def Let_def nodes_wf_insert split: option.splits)

lemma register_source_wf:
  "nodes_wf (fl_nodes fl) \<Longrightarrow>
     nodes_wf (fl_nodes (fst (register_source_in_group_with name task g pol dw r ord fl)))"
  by (simp add: register_source_in_group_with_def insert_node_wf)

lemma register_wf:
  "nodes_wf (fl_nodes fl) \<Longrightarrow>
     nodes_wf (fl_nodes (fst (register_in_group_with name task deps g pol dw ord fl)))"
  by (simp add: register_in_group_with_def insert_node_wf)

lemma set_stable_names_keys: "map fst (set_stable_names_in i names m) = map fst m"
  by (induction m rule: set_stable_names_in.induct) auto

lemma set_stable_names_wf: "nodes_wf m \<Longrightarrow> nodes_wf (set_stable_names_in i names m)"
  by (induction m rule: set_stable_names_in.induct) (auto simp: nodes_wf_def bt_ok_def
      set_stable_names_keys dest: arg_cong [where f = set])

section \<open>Construction scripts: edges point backwards\<close>

text \<open>
  A construction script is the sequence of registrations a flow function performs.  A handle can
  only be obtained from a registration, so a script is well-handled when each registration uses
  identities that an earlier one returned; the registrars have no other way to name an upstream.
\<close>

datatype registration =
    RegSource string TaskDecl "string option" NodePolicy DurableWitness TriggerRule "node_id list"
  | RegData string TaskDecl "(node_id \<times> ReceiveMode) list" "string option" NodePolicy DurableWitness
      "node_id list"

fun reg_name :: "registration \<Rightarrow> string" where
  "reg_name (RegSource name _ _ _ _ _ _) = name"
| "reg_name (RegData name _ _ _ _ _ _) = name"

fun reg_upstreams :: "registration \<Rightarrow> node_id list" where
  "reg_upstreams (RegSource _ _ _ _ _ _ ord_ups) = ord_ups"
| "reg_upstreams (RegData _ _ deps _ _ _ ord_ups) = map fst deps @ ord_ups"

fun apply_reg :: "registration \<Rightarrow> FlowBuilder \<Rightarrow> FlowBuilder" where
  "apply_reg (RegSource name task grp pol dw rule ord_ups) fl =
     fst (register_source_in_group_with name task grp pol dw rule ord_ups fl)"
| "apply_reg (RegData name task deps grp pol dw ord_ups) fl =
     fst (register_in_group_with name task deps grp pol dw ord_ups fl)"

definition build :: "registration list \<Rightarrow> Pipeline" where
  "build regs = finish (fold apply_reg regs flow_new)"

fun well_handled :: "node_id set \<Rightarrow> registration list \<Rightarrow> bool" where
  "well_handled issued [] = True"
| "well_handled issued (r # rs) =
     (set (reg_upstreams r) \<subseteq> issued \<and> well_handled (insert (from_name (reg_name r)) issued) rs)"

definition all_upstream_ids :: "PipelineNode \<Rightarrow> node_id list" where
  "all_upstream_ids n = data_upstreams n @ ordering_upstream_ids n"

text \<open>The rank grows along every edge, and no edge dangles: the graph is acyclic and closed.\<close>

definition ranked :: "Pipeline \<Rightarrow> (node_id \<Rightarrow> nat) \<Rightarrow> bool" where
  "ranked p rank \<longleftrightarrow> (\<forall>n \<in> set (nodes_of p). \<forall>u \<in> set (all_upstream_ids n). rank u < rank (pn_id n))"

definition edges_closed :: "Pipeline \<Rightarrow> bool" where
  "edges_closed p \<longleftrightarrow>
     (\<forall>n \<in> set (nodes_of p). \<forall>u \<in> set (all_upstream_ids n). u \<in> pn_id ` set (nodes_of p))"

lemma upstream_ids_data [simp]: "map de_upstream (into_data_edges deps) = map fst deps"
proof -
  have "map de_upstream (into_data_edges deps) = map (\<lambda>x. fst (snd x)) (enumerate 0 deps)"
    by (auto simp: into_data_edges_def)
  also have "\<dots> = map fst (map snd (enumerate 0 deps))"
    by (simp only: map_map comp_def)
  finally show ?thesis by (simp only: map_snd_enumerate)
qed

lemma upstream_ids_ordering [simp]: "map oe_upstream (into_ordering_edges ups) = ups"
  by (simp add: into_ordering_edges_def comp_def)

lemma apply_reg_nodes:
  assumes "(k, n) \<in> set (fl_nodes (apply_reg r fl))"
  shows "(k, n) \<in> set (fl_nodes fl) \<or>
     (pn_id n = from_name (reg_name r) \<and> all_upstream_ids n = reg_upstreams r)"
  using assms
  by (cases r) (auto simp: register_source_in_group_with_def register_in_group_with_def insert_node_def
      Let_def all_upstream_ids_def data_upstreams_def ordering_upstream_ids_def
      split: option.splits dest!: bt_insert_in_set)

lemma apply_reg_keys:
  "fst ` set (fl_nodes (apply_reg r fl)) = insert (reg_name r) (fst ` set (fl_nodes fl))"
  by (cases r) (auto simp: register_source_in_group_with_def register_in_group_with_def insert_node_def
      Let_def bt_insert_keys)

lemma apply_reg_wf: "nodes_wf (fl_nodes fl) \<Longrightarrow> nodes_wf (fl_nodes (apply_reg r fl))"
  by (cases r) (simp_all add: register_source_wf register_wf)

interpretation builder: invariant_machine apply_reg "\<lambda>fl. nodes_wf (fl_nodes fl)"
  by unfold_locales (rule apply_reg_wf)

lemma build_wf: "pipeline_wf (build regs)"
  using builder.run_inv [of flow_new regs]
  by (simp add: pipeline_wf_def build_def finish_def flow_new_def)

lemma build_keys: "fst ` set (pp_nodes (build regs)) = set (map reg_name regs)"
proof -
  have "fst ` set (fl_nodes (fold apply_reg rs fl)) = set (map reg_name rs) \<union> fst ` set (fl_nodes fl)"
    for rs fl
    by (induction rs arbitrary: fl) (simp_all add: apply_reg_keys)
  from this [of regs flow_new] show ?thesis
    by (simp add: build_def finish_def flow_new_def)
qed

lemma fold_apply_reg_origin:
  "(k, n) \<in> set (fl_nodes (fold apply_reg regs fl)) \<Longrightarrow> (k, n) \<notin> set (fl_nodes fl) \<Longrightarrow>
     \<exists>i < length regs. pn_id n = from_name (reg_name (regs ! i)) \<and>
        all_upstream_ids n = reg_upstreams (regs ! i)"
proof (induction regs arbitrary: fl)
  case Nil
  then show ?case by simp
next
  case (Cons r rs)
  show ?case
  proof (cases "(k, n) \<in> set (fl_nodes (apply_reg r fl))")
    case True
    with Cons.prems(2) have "pn_id n = from_name (reg_name r) \<and> all_upstream_ids n = reg_upstreams r"
      by (auto dest: apply_reg_nodes)
    then show ?thesis by (intro exI [of _ 0]) simp
  next
    case False
    with Cons.prems(1) Cons.IH [of "apply_reg r fl"] obtain i where "i < length rs"
      "pn_id n = from_name (reg_name (rs ! i)) \<and> all_upstream_ids n = reg_upstreams (rs ! i)"
      by auto
    then show ?thesis by (intro exI [of _ "Suc i"]) simp
  qed
qed

lemma well_handled_index:
  "well_handled issued regs \<Longrightarrow> i < length regs \<Longrightarrow>
     set (reg_upstreams (regs ! i)) \<subseteq> issued \<union> set (take i (map (from_name \<circ> reg_name) regs))"
proof (induction regs arbitrary: issued i)
  case Nil
  then show ?case by simp
next
  case (Cons r rs)
  show ?case
  proof (cases i)
    case 0
    with Cons.prems show ?thesis by simp
  next
    case (Suc j)
    with Cons.prems Cons.IH [of "insert (from_name (reg_name r)) issued" j] show ?thesis by simp
  qed
qed

definition reg_rank :: "registration list \<Rightarrow> node_id \<Rightarrow> nat" where
  "reg_rank regs i = length (takeWhile (\<lambda>j. j \<noteq> i) (map (from_name \<circ> reg_name) regs))"

lemma rank_nth: "distinct xs \<Longrightarrow> i < length xs \<Longrightarrow> length (takeWhile (\<lambda>j. j \<noteq> xs ! i) xs) = i"
proof (induction xs arbitrary: i)
  case Nil
  then show ?case by simp
next
  case (Cons x xs)
  then show ?case by (cases i) auto
qed

lemma rank_take: "x \<in> set (take i xs) \<Longrightarrow> length (takeWhile (\<lambda>j. j \<noteq> x) xs) < i"
proof (induction xs arbitrary: i)
  case Nil
  then show ?case by simp
next
  case (Cons y ys)
  then show ?case by (cases i) auto
qed

lemma nodes_of_build_origin:
  assumes "n \<in> set (nodes_of (build regs))"
  obtains i where "i < length regs" "pn_id n = from_name (reg_name (regs ! i))"
    "all_upstream_ids n = reg_upstreams (regs ! i)"
proof -
  from assms obtain k where "(k, n) \<in> set (fl_nodes (fold apply_reg regs flow_new))"
    by (auto simp: nodes_of_def build_def finish_def bt_values_def)
  then show thesis
    using fold_apply_reg_origin [of k n regs flow_new] that by (auto simp: flow_new_def)
qed

lemma nodes_of_build_ids: "pn_id ` set (nodes_of (build regs)) = set (map (from_name \<circ> reg_name) regs)"
proof -
  have "pn_id ` set (nodes_of (build regs)) = from_name ` fst ` set (pp_nodes (build regs))"
    using build_wf [of regs]
    by (force simp: pipeline_wf_def nodes_wf_def nodes_of_def bt_values_def image_image)
  then show ?thesis by (simp add: build_keys image_comp)
qed

text \<open>
  A graph built by the registrars has no cycle: when the registered names hash to distinct
  identities, every data or ordering edge of the built pipeline goes from an earlier registration
  to a later one, and its upstream is a node of the pipeline.
\<close>

theorem build_acyclic:
  assumes handled: "well_handled {} regs"
    and dist: "distinct (map (from_name \<circ> reg_name) regs)"
  shows "ranked (build regs) (reg_rank regs) \<and> edges_closed (build regs)"
proof -
  have "reg_rank regs u < reg_rank regs (pn_id n) \<and> u \<in> set (map (from_name \<circ> reg_name) regs)"
    if n: "n \<in> set (nodes_of (build regs))" and u: "u \<in> set (all_upstream_ids n)" for n u
  proof -
    from n obtain i where i: "i < length regs" "pn_id n = from_name (reg_name (regs ! i))"
      "all_upstream_ids n = reg_upstreams (regs ! i)"
      by (rule nodes_of_build_origin)
    with u well_handled_index [OF handled, of i]
    have "u \<in> set (take i (map (from_name \<circ> reg_name) regs))" by auto
    moreover have "reg_rank regs (pn_id n) = i"
      using rank_nth [OF dist, of i] i by (simp add: reg_rank_def)
    ultimately show ?thesis
      using rank_take [of u i] by (auto simp: reg_rank_def dest: in_set_takeD)
  qed
  then show ?thesis
    by (simp add: ranked_def edges_closed_def nodes_of_build_ids)
qed

definition sample_task :: TaskDecl where
  "sample_task = \<lparr>td_execution_class = AwaitBound, td_output_is_unit = False\<rparr>"

definition sample_regs :: "registration list" where
  "sample_regs =
     [RegSource ''a'' sample_task None default_policy Absent AllSucceeded [],
      RegData ''b'' sample_task [(from_name ''a'', Owned)] None default_policy Absent [],
      RegData ''c'' sample_task [(from_name ''b'', Shared)] None default_policy Absent [from_name ''a'']]"

theorem build_acyclic_witness:
  "ranked (build sample_regs) (reg_rank sample_regs) \<and> edges_closed (build sample_regs)"
proof (rule build_acyclic)
  show "well_handled {} sample_regs" by (simp add: sample_regs_def)
  show "distinct (map (from_name \<circ> reg_name) sample_regs)" by code_simp
qed

end
