(* ===== verification/Assembly.thy ===== *)
theory Assembly
  imports Flow
begin

text \<open>
  The assembly pass (\<open>crates/core/src/assembly.rs\<close>): the checks that collect every problem of a
  pipeline, and the precomputations of a valid one (consumer counts, remaining-dependency counts,
  a topological execution order by Kahn's algorithm, warnings).
\<close>

section \<open>Problems\<close>

datatype ProblemKind =
    DuplicateNodeName | EmptyPipeline | InvalidExecutionClassOverride | DurableWithoutContract
  | OwnershipModeConflict | NonzeroTeardownCost

record Problem =
  pr_kind :: ProblemKind
  pr_message :: string
  pr_declaration_count :: "nat option"

definition problem_new :: "ProblemKind \<Rightarrow> string \<Rightarrow> Problem" where
  "problem_new kind message = \<lparr>pr_kind = kind, pr_message = message, pr_declaration_count = None\<rparr>"

fun problem_label :: "ProblemKind \<Rightarrow> string" where
  "problem_label DuplicateNodeName = ''duplicate node name''"
| "problem_label EmptyPipeline = ''empty pipeline''"
| "problem_label InvalidExecutionClassOverride = ''invalid execution-class override''"
| "problem_label DurableWithoutContract = ''durable node without the durable-output contract''"
| "problem_label OwnershipModeConflict = ''ownership-mode conflict''"
| "problem_label NonzeroTeardownCost = ''nonzero teardown cost''"

fun show_class :: "ExecutionClass \<Rightarrow> string" where
  "show_class AwaitBound = ''AwaitBound''"
| "show_class Blocking = ''Blocking''"
| "show_class Compute = ''Compute''"

definition tick :: "string \<Rightarrow> string" where
  "tick s = CHR 0x60 # s @ [CHR 0x60]"

definition empty_problems :: "Pipeline \<Rightarrow> Problem list" where
  "empty_problems p =
     (if pp_nodes p = []
      then [problem_new EmptyPipeline (problem_label EmptyPipeline @ '': the pipeline registered no nodes'')]
      else [])"

definition duplicate_problems :: "Pipeline \<Rightarrow> Problem list" where
  "duplicate_problems p =
     concat (map (\<lambda>n. let dups = pn_registration_count n in
       if dups > 1
       then [(problem_new DuplicateNodeName
               (problem_label DuplicateNodeName @ '': node name '' @ tick (pn_name n)
                @ '' was registered by '' @ show_nat dups
                @ '' declarations; both declarations must use distinct names''))
               \<lparr>pr_declaration_count := Some dups\<rparr>]
       else []) (nodes_of p))"

fun class_override_ok :: "ExecutionClass \<Rightarrow> ExecutionClass \<Rightarrow> bool" where
  "class_override_ok AwaitBound target = (target = AwaitBound)"
| "class_override_ok Blocking target = (target = Blocking \<or> target = Compute)"
| "class_override_ok Compute target = (target = Blocking \<or> target = Compute)"

definition check_execution_class_override :: "PipelineNode \<Rightarrow> Problem list" where
  "check_execution_class_override n =
     (case np_class_override (pn_policy n) of
        None \<Rightarrow> []
      | Some target \<Rightarrow>
          if class_override_ok (pn_declared_class n) target then []
          else [problem_new InvalidExecutionClassOverride
                 (problem_label InvalidExecutionClassOverride @ '': node '' @ tick (pn_name n)
                  @ '' declares '' @ show_class (pn_declared_class n)
                  @ '' work but overrides its execution class to '' @ show_class target
                  @ ''; await-bound work cannot be moved to a synchronous class'')])"

definition check_durable_contract :: "PipelineNode \<Rightarrow> Problem list" where
  "check_durable_contract n =
     (if np_durable (pn_policy n) \<and> \<not> output_is_durable n
      then [problem_new DurableWithoutContract
             (problem_label DurableWithoutContract @ '': node '' @ tick (pn_name n)
              @ '' is marked durable, but its output type does not implement the durable-output contract; either implement the contract on the output type or drop durability on ''
              @ tick (pn_name n))]
      else [])"

definition check_teardown_cost :: "PipelineNode \<Rightarrow> Problem list" where
  "check_teardown_cost n =
     (if np_teardown (pn_policy n) \<and> \<not> cost_is_zero (np_cost (pn_policy n))
      then [problem_new NonzeroTeardownCost
             (problem_label NonzeroTeardownCost @ '': teardown node '' @ tick (pn_name n)
              @ '' declares a nonzero cost; a teardown bypasses admission and its declared cost must be zero in every pool'')]
      else [])"

text \<open>The fallback prints the opaque identity with \<open>{id:?}\<close>.\<close>

definition producer_name :: "Pipeline \<Rightarrow> node_id \<Rightarrow> string" where
  "producer_name p i =
     (case node_by_id p i of
        None \<Rightarrow> ''NodeId('' @ show_nat (unat i) @ '')''
      | Some n \<Rightarrow> pn_name n)"

fun mode_key :: "ReceiveMode \<Rightarrow> nat" where
  "mode_key Owned = 0"
| "mode_key Shared = 1"
| "mode_key CloneOnRead = 2"

definition edge_demands :: "Pipeline \<Rightarrow> (string \<times> string \<times> ReceiveMode) list" where
  "edge_demands p =
     concat (map (\<lambda>n. map (\<lambda>e. (producer_name p (de_upstream e), pn_name n, de_mode e)) (pn_edges n))
       (nodes_of p))"

definition demands :: "Pipeline \<Rightarrow> (string, (string \<times> ReceiveMode) list) btree" where
  "demands p = fold (\<lambda>(producer, consumer, mode). bt_push producer (consumer, mode)) (edge_demands p) []"

fun join_comma :: "string list \<Rightarrow> string" where
  "join_comma [] = ''''"
| "join_comma [x] = x"
| "join_comma (x # xs) = x @ '', '' @ join_comma xs"

definition shared_ownership_problems :: "string \<Rightarrow> (string \<times> ReceiveMode) list \<Rightarrow> Problem list" where
  "shared_ownership_problems producer cs =
     (let consumers = sort_key (\<lambda>(n, m). (n, mode_key m)) cs in
      if length consumers > 1
      then concat (map (\<lambda>(consumer, mode).
             if mode = Owned
             then [problem_new OwnershipModeConflict
                    (problem_label OwnershipModeConflict @ '': consumer '' @ tick consumer
                     @ '' demands ownership of the value produced by '' @ tick producer
                     @ '', but that value has '' @ show_nat (length consumers) @ '' consumers (''
                     @ join_comma (map fst consumers)
                     @ ''); a multiply-consumed value must be received shared, or the edge must opt into clone-on-read'')]
             else []) consumers)
      else [])"

definition retry_ownership_problems :: "Pipeline \<Rightarrow> PipelineNode \<Rightarrow> Problem list" where
  "retry_ownership_problems p n =
     (if np_retries (pn_policy n) = 0 then []
      else concat (map (\<lambda>e.
             if de_mode e = Owned
             then [problem_new OwnershipModeConflict
                    (problem_label OwnershipModeConflict @ '': node '' @ tick (pn_name n) @ '' has ''
                     @ show_nat (unat (np_retries (pn_policy n)))
                     @ '' retries but takes an owned input edge from ''
                     @ tick (producer_name p (de_upstream e))
                     @ ''; an owned-input edge into a retrying node must opt into clone-on-read (each attempt gets a fresh clone), or the node must drop its retries'')]
             else []) (pn_edges n)))"

definition check_ownership_conflicts :: "Pipeline \<Rightarrow> Problem list" where
  "check_ownership_conflicts p =
     concat (map (\<lambda>(producer, cs). shared_ownership_problems producer cs) (demands p))
     @ concat (map (retry_ownership_problems p) (nodes_of p))"

definition assembly_problems :: "Pipeline \<Rightarrow> Problem list" where
  "assembly_problems p =
     empty_problems p @ duplicate_problems p
     @ concat (map (\<lambda>n. check_execution_class_override n @ check_durable_contract n
                         @ check_teardown_cost n) (nodes_of p))
     @ check_ownership_conflicts p"

section \<open>Precomputation\<close>

text \<open>\<open>*c += 1\<close> on a \<open>u32\<close>.\<close>

definition precompute_consumer_counts :: "Pipeline \<Rightarrow> (string, u32) btree" where
  "precompute_consumer_counts p =
     (let counts = fold (\<lambda>n. bt_insert (pn_name n) 0) (nodes_of p) [] in
      fold (\<lambda>n counts. fold (\<lambda>e counts.
              case node_by_id p (de_upstream e) of
                None \<Rightarrow> counts
              | Some producer \<Rightarrow> bt_modify (pn_name producer) (\<lambda>c. c + 1) counts)
            (pn_edges n) counts)
        (nodes_of p) counts)"

definition remaining_deps_of :: "Pipeline \<Rightarrow> PipelineNode \<Rightarrow> nat" where
  "remaining_deps_of p n =
     u32_from_usize (length (filter (\<lambda>i. node_by_id p i \<noteq> None) (sort_dedup (data_upstreams n))))"

definition precompute_remaining_deps :: "Pipeline \<Rightarrow> (string, nat) btree" where
  "precompute_remaining_deps p =
     fold (\<lambda>n. bt_insert (pn_name n) (remaining_deps_of p n)) (nodes_of p) []"

text \<open>
  Kahn's algorithm.  The edge pass fills the in-degree map and the forward map; an \<open>unwrap\<close> of an
  absent key and a decrement of a zero in-degree panic in the code and are the result \<open>None\<close> here.
\<close>

definition topo_upstreams :: "Pipeline \<Rightarrow> PipelineNode \<Rightarrow> string list" where
  "topo_upstreams p n = resolve_names p (sort_dedup (data_upstreams n @ ordering_upstream_ids n))"

definition topo_edges :: "Pipeline \<Rightarrow> (string \<times> string) list" where
  "topo_edges p = concat (map (\<lambda>n. map (\<lambda>u. (u, pn_name n)) (topo_upstreams p n)) (nodes_of p))"

definition topo_indegree :: "Pipeline \<Rightarrow> (string, nat) btree" where
  "topo_indegree p =
     fold (\<lambda>(u, c). bt_modify c (\<lambda>d. d + 1)) (topo_edges p)
       (fold (\<lambda>n. bt_insert (pn_name n) 0) (nodes_of p) [])"

definition topo_forward :: "Pipeline \<Rightarrow> (string, string list) btree" where
  "topo_forward p =
     fold (\<lambda>(u, c). bt_modify u (\<lambda>xs. xs @ [c])) (topo_edges p)
       (fold (\<lambda>n. bt_insert (pn_name n) []) (nodes_of p) [])"

fun relax :: "string list \<Rightarrow> (string, nat) btree \<Rightarrow> string list \<Rightarrow> ((string, nat) btree \<times> string list) option"
where
  "relax [] indegree ready = Some (indegree, ready)"
| "relax (c # cs) indegree ready =
     (case bt_get indegree c of
        None \<Rightarrow> None
      | Some 0 \<Rightarrow> None
      | Some (Suc d) \<Rightarrow>
          relax cs (bt_modify c (\<lambda>d. d - 1) indegree) (if d = 0 then bs_insert c ready else ready))"

lemma sum_modify_dec:
  "bt_get m c = Some (Suc d) \<Longrightarrow> sum_list (map snd (bt_modify c (\<lambda>d. d - 1) m)) < sum_list (map snd m)"
proof (induction m)
  case Nil
  then show ?case by simp
next
  case (Cons kv m)
  have le: "sum_list (map snd (bt_modify c (\<lambda>d. d - 1) m)) \<le> sum_list (map snd m)"
    by (induction m) (auto simp: bt_modify_def)
  obtain k v where kv: "kv = (k, v)" by (cases kv)
  show ?case
  proof (cases "k = c")
    case True
    with Cons.prems kv have "v = Suc d" by (simp add: bt_get_def)
    with True kv le show ?thesis by (simp add: bt_modify_def)
  next
    case False
    with Cons kv show ?thesis by (simp add: bt_modify_def bt_get_def)
  qed
qed

lemma relax_measure:
  "relax cs indegree ready = Some (indegree', ready') \<Longrightarrow>
     sum_list (map snd indegree') + length ready' \<le> sum_list (map snd indegree) + length ready"
proof (induction cs indegree ready rule: relax.induct)
  case (1 indegree ready)
  then show ?case by simp
next
  case (2 c cs indegree ready)
  from 2(2) obtain d where d: "bt_get indegree c = Some (Suc d)"
    and r: "relax cs (bt_modify c (\<lambda>d. d - 1) indegree) (if d = 0 then bs_insert c ready else ready)
              = Some (indegree', ready')"
    by (auto split: option.splits nat.splits)
  have "length (if d = 0 then bs_insert c ready else ready) \<le> Suc (length ready)"
    by (simp add: insort_insert_key_def)
  with 2(1) [OF d refl r] sum_modify_dec [OF d] show ?case by linarith
qed

function kahn_loop ::
  "(string, string list) btree \<Rightarrow> (string, nat) btree \<Rightarrow> string list \<Rightarrow> string list \<Rightarrow> string list option"
where
  "kahn_loop forward indegree ready order =
     (case ready of
        [] \<Rightarrow> Some order
      | name # ready' \<Rightarrow>
          (case relax (case bt_get forward name of Some cs \<Rightarrow> cs | None \<Rightarrow> []) indegree ready' of
             None \<Rightarrow> None
           | Some (indegree', ready'') \<Rightarrow> kahn_loop forward indegree' ready'' (order @ [name])))"
  by pat_completeness auto
termination
  by (relation "measure (\<lambda>(f, d, r, o'). sum_list (map snd d) + length r)")
    (auto dest: relax_measure)

declare kahn_loop.simps [simp del]

definition execution_order_names :: "Pipeline \<Rightarrow> string list option" where
  "execution_order_names p =
     kahn_loop (topo_forward p) (topo_indegree p)
       (bt_keys (filter (\<lambda>(n, d). d = 0) (topo_indegree p))) []"

definition precompute_execution_order :: "Pipeline \<Rightarrow> node_id list option" where
  "precompute_execution_order p = map_option (map from_name) (execution_order_names p)"

definition collect_warnings :: "Pipeline \<Rightarrow> (string, u32) btree \<Rightarrow> string list" where
  "collect_warnings p counts =
     concat (map (\<lambda>n.
       let count = (case bt_get counts (pn_name n) of Some c \<Rightarrow> c | None \<Rightarrow> 0) in
       if count = 0 \<and> \<not> pn_output_is_unit n \<and> \<not> np_retained (pn_policy n) \<and> \<not> np_durable (pn_policy n)
       then [''node '' @ tick (pn_name n)
             @ '' produces a non-() output with zero consumers and is neither retained nor durable; this is usually a wiring mistake (a legitimate effect-only node should produce '' @ tick ''()'' @ '')'']
       else []) (nodes_of p))"

section \<open>The checks are exact\<close>

text \<open>What a pipeline must satisfy to assemble, stated without reference to the reports.\<close>

definition node_valid :: "PipelineNode \<Rightarrow> bool" where
  "node_valid n \<longleftrightarrow>
     pn_registration_count n \<le> 1
     \<and> (case np_class_override (pn_policy n) of None \<Rightarrow> True
        | Some t \<Rightarrow> (pn_declared_class n = AwaitBound) = (t = AwaitBound))
     \<and> (np_durable (pn_policy n) \<longrightarrow> output_is_durable n)
     \<and> (np_teardown (pn_policy n) \<longrightarrow> cost_is_zero (np_cost (pn_policy n)))
     \<and> (np_retries (pn_policy n) \<noteq> 0 \<longrightarrow> (\<forall>e \<in> set (pn_edges n). de_mode e \<noteq> Owned))"

definition ownership_valid :: "Pipeline \<Rightarrow> bool" where
  "ownership_valid p \<longleftrightarrow>
     (\<forall>(producer, consumer, mode) \<in> set (edge_demands p). mode = Owned \<longrightarrow>
        length (filter (\<lambda>d. fst d = producer) (edge_demands p)) = 1)"

definition pipeline_valid :: "Pipeline \<Rightarrow> bool" where
  "pipeline_valid p \<longleftrightarrow>
     pp_nodes p \<noteq> [] \<and> (\<forall>n \<in> set (nodes_of p). node_valid n) \<and> ownership_valid p"

lemma fold_bt_push:
  "bt_ok m \<Longrightarrow> bt_ok (fold (\<lambda>(k, v). bt_push k v) xs m)"
  by (induction xs arbitrary: m) (auto simp: split_def)

lemma get_fold_bt_push:
  "bt_ok m \<Longrightarrow> bt_get (fold (\<lambda>(k, v). bt_push k v) xs m) k =
     (let ys = map snd (filter (\<lambda>d. fst d = k) xs) in
      case bt_get m k of
        Some zs \<Rightarrow> Some (zs @ ys)
      | None \<Rightarrow> (if ys = [] then None else Some ys))"
proof (induction xs arbitrary: m)
  case Nil
  then show ?case by (simp split: option.split)
next
  case (Cons x xs)
  then show ?case
    by (auto simp: split_def bt_simps Let_def split: option.split)
qed

lemma demands_as_fold: "demands p = fold (\<lambda>(k, v). bt_push k v) (edge_demands p) []"
  by (simp add: demands_def split_def)

lemma demands_ok: "bt_ok (demands p)"
  by (simp add: demands_as_fold fold_bt_push)

lemma demands_entry:
  "(k, cs) \<in> set (demands p) \<longleftrightarrow>
     cs = map snd (filter (\<lambda>d. fst d = k) (edge_demands p)) \<and> cs \<noteq> []"
proof -
  have "(k, cs) \<in> set (demands p) \<longleftrightarrow> bt_get (demands p) k = Some cs"
    by (simp add: bt_get_Some_iff demands_ok)
  also have "\<dots> \<longleftrightarrow> cs = map snd (filter (\<lambda>d. fst d = k) (edge_demands p)) \<and> cs \<noteq> []"
    unfolding demands_as_fold get_fold_bt_push [OF bt_ok_Nil] Let_def bt_get_Nil option.case
    by (auto split: if_splits)
  finally show ?thesis .
qed

lemma shared_ownership_problems_Nil:
  "shared_ownership_problems producer cs = [] \<longleftrightarrow> (\<forall>(c, m) \<in> set cs. m = Owned \<longrightarrow> length cs \<le> 1)"
  by (auto simp: shared_ownership_problems_def Let_def split: if_splits)

lemma retry_ownership_problems_Nil:
  "retry_ownership_problems p n = [] \<longleftrightarrow>
     (np_retries (pn_policy n) \<noteq> 0 \<longrightarrow> (\<forall>e \<in> set (pn_edges n). de_mode e \<noteq> Owned))"
  by (auto simp: retry_ownership_problems_def)

lemma class_override_ok_iff: "class_override_ok d t \<longleftrightarrow> (d = AwaitBound) = (t = AwaitBound)"
  by (cases d; cases t) auto

lemma class_override_Nil:
  "check_execution_class_override n = [] \<longleftrightarrow>
     (case np_class_override (pn_policy n) of None \<Rightarrow> True
      | Some t \<Rightarrow> (pn_declared_class n = AwaitBound) = (t = AwaitBound))"
  by (simp add: check_execution_class_override_def class_override_ok_iff split: option.split)

lemma durable_Nil:
  "check_durable_contract n = [] \<longleftrightarrow> (np_durable (pn_policy n) \<longrightarrow> output_is_durable n)"
  by (simp add: check_durable_contract_def)

lemma teardown_Nil:
  "check_teardown_cost n = [] \<longleftrightarrow> (np_teardown (pn_policy n) \<longrightarrow> cost_is_zero (np_cost (pn_policy n)))"
  by (simp add: check_teardown_cost_def)

lemma concat_map_Nil: "concat (map f xs) = [] \<longleftrightarrow> (\<forall>x \<in> set xs. f x = [])"
  by simp

lemma shared_conflicts_Nil:
  "concat (map (\<lambda>(producer, cs). shared_ownership_problems producer cs) (demands p)) = []
     \<longleftrightarrow> ownership_valid p"
proof -
  have eq: "shared_ownership_problems k cs = [] \<longleftrightarrow>
        (\<forall>d \<in> set (edge_demands p). fst d = k \<longrightarrow> snd (snd d) = Owned \<longrightarrow>
           length (filter (\<lambda>d. fst d = k) (edge_demands p)) = 1)"
    if "(k, cs) \<in> set (demands p)" for k cs
  proof -
    from that have cs: "cs = map snd (filter (\<lambda>d. fst d = k) (edge_demands p))" "cs \<noteq> []"
      unfolding demands_entry by blast+
    from cs(2) have "length cs \<noteq> 0" by simp
    moreover have "length cs = length (filter (\<lambda>d. fst d = k) (edge_demands p))"
      by (simp add: cs(1))
    ultimately have "length cs \<le> 1 \<longleftrightarrow> length (filter (\<lambda>d. fst d = k) (edge_demands p)) = 1"
      by linarith
    with cs(1) show ?thesis by (auto simp: shared_ownership_problems_Nil)
  qed
  have ex: "\<exists>cs. (fst d, cs) \<in> set (demands p)" if "d \<in> set (edge_demands p)" for d
    using that by (auto simp: demands_entry filter_empty_conv)
  show ?thesis
    using eq ex by (fastforce simp: ownership_valid_def)
qed

lemma duplicate_problems_Nil:
  "duplicate_problems p = [] \<longleftrightarrow> (\<forall>n \<in> set (nodes_of p). pn_registration_count n \<le> 1)"
  unfolding duplicate_problems_def Let_def concat_map_Nil by (simp add: not_less)

lemma ownership_problems_Nil:
  "check_ownership_conflicts p = [] \<longleftrightarrow>
     ownership_valid p \<and> (\<forall>n \<in> set (nodes_of p). retry_ownership_problems p n = [])"
  unfolding check_ownership_conflicts_def append_is_Nil_conv shared_conflicts_Nil
  unfolding concat_map_Nil by (rule refl)

lemma node_valid_Nil:
  "node_valid n \<longleftrightarrow> pn_registration_count n \<le> 1 \<and> check_execution_class_override n = []
      \<and> check_durable_contract n = [] \<and> check_teardown_cost n = [] \<and> retry_ownership_problems p n = []"
  unfolding node_valid_def retry_ownership_problems_Nil class_override_Nil durable_Nil teardown_Nil by (rule refl)

lemma problems_iff_valid: "assembly_problems p = [] \<longleftrightarrow> pipeline_valid p"
proof -
  have emp: "empty_problems p = [] \<longleftrightarrow> pp_nodes p \<noteq> []"
    by (simp add: empty_problems_def)
  show ?thesis
    by (simp only: assembly_problems_def append_is_Nil_conv concat_map_Nil emp duplicate_problems_Nil
        ownership_problems_Nil pipeline_valid_def node_valid_Nil [where p = p] ball_conj_distrib conj_ac)
qed

text \<open>
  C11. Assembly reports no problem exactly for the valid pipelines: not empty, every name registered
  once, every class override within its work shape, every durable node with the durable contract,
  every teardown free of cost, no owned input into a retrying node, and every owned demand the only
  demand on its producer.
\<close>

theorem assembly_problems_iff: "assembly_problems p = [] \<longleftrightarrow> pipeline_valid p"
  by (rule problems_iff_valid)

section \<open>Consumer counts\<close>

definition edge_producers :: "Pipeline \<Rightarrow> string list" where
  "edge_producers p = concat (map (\<lambda>n. resolve_names p (data_upstreams n)) (nodes_of p))"

lemma fold_modify_count:
  "bt_get (fold (\<lambda>k. bt_modify k (\<lambda>c. c + (1 :: u32))) ks m) k =
     map_option (\<lambda>c. c + of_nat (count_list ks k)) (bt_get m k)"
proof (induction ks arbitrary: m)
  case Nil
  then show ?case by (cases "bt_get m k") simp_all
next
  case (Cons k' ks)
  then show ?case by (cases "k = k'"; cases "bt_get m k") (simp_all add: bt_simps algebra_simps)
qed

lemma consumer_counts_as_fold:
  "precompute_consumer_counts p =
     fold (\<lambda>k. bt_modify k (\<lambda>c. c + 1)) (edge_producers p)
       (fold (\<lambda>n. bt_insert (pn_name n) 0) (nodes_of p) [])"
proof -
  have inner: "fold (\<lambda>e counts. case node_by_id p (de_upstream e) of None \<Rightarrow> counts
            | Some producer \<Rightarrow> bt_modify (pn_name producer) (\<lambda>c. c + 1) counts) es m
        = fold (\<lambda>k. bt_modify k (\<lambda>c. c + (1 :: u32))) (resolve_names p (map de_upstream es)) m" for es m
    by (induction es arbitrary: m) (auto simp: resolve_names_def map_filter_simps split: option.split)
  have outer: "fold (\<lambda>n. fold f (g n)) ns m = fold f (concat (map g ns)) m"
    for f :: "string \<Rightarrow> (string, u32) btree \<Rightarrow> (string, u32) btree" and g ns m
    by (induction ns arbitrary: m) auto
  show ?thesis
    by (simp add: precompute_consumer_counts_def Let_def inner edge_producers_def data_upstreams_def outer)
qed

lemma init_fold_get:
  fixes n :: PipelineNode
  assumes "n \<in> set ns"
  shows "bt_get (fold (\<lambda>n. bt_insert (pn_name n) v) ns []) (pn_name n) = Some v"
proof -
  have "bt_get m (pn_name n) = Some v \<Longrightarrow> bt_ok m \<Longrightarrow>
      bt_get (fold (\<lambda>n. bt_insert (pn_name n) v) ns m) (pn_name n) = Some v" for m and ns :: "PipelineNode list"
    by (induction ns arbitrary: m) auto
  moreover obtain xs ys where "ns = xs @ n # ys"
    using split_list [OF assms] by blast
  moreover have "bt_ok (fold (\<lambda>n. bt_insert (pn_name n) v) xs [])"
    by (rule bt.ok_fold) simp
  ultimately show ?thesis by simp
qed

text \<open>
  The consumer count of a node is the number of data edges, over all nodes, whose upstream
  resolves to it (as a 32-bit count, so modulo 2 to the 32nd).
\<close>

theorem consumer_counts_exact:
  assumes "n \<in> set (nodes_of p)"
  shows "bt_get (precompute_consumer_counts p) (pn_name n) =
     Some (of_nat (count_list (edge_producers p) (pn_name n)))"
  using init_fold_get [OF assms, of "0 :: u32"]
  by (simp add: consumer_counts_as_fold fold_modify_count)

theorem consumer_counts_exact_witness:
  "bt_get (precompute_consumer_counts (build sample_regs)) ''b'' =
     Some (of_nat (count_list (edge_producers (build sample_regs)) ''b''))
   \<and> count_list (edge_producers (build sample_regs)) ''b'' = 1"
proof -
  have "pn_name (nodes_of (build sample_regs) ! 1) = ''b''" by code_simp
  moreover have "nodes_of (build sample_regs) ! 1 \<in> set (nodes_of (build sample_regs))"
    by (rule nth_mem) code_simp
  moreover have "count_list (edge_producers (build sample_regs)) ''b'' = 1" by code_simp
  ultimately show ?thesis
    using consumer_counts_exact [of "nodes_of (build sample_regs) ! 1" "build sample_regs"] by simp
qed

section \<open>The execution order\<close>

lemma relax_exact:
  assumes "\<forall>c \<in> set cs. \<exists>d. bt_get ind c = Some d \<and> count_list cs c \<le> d"
  shows "\<exists>ind' ready'. relax cs ind ready = Some (ind', ready')
     \<and> map fst ind' = map fst ind
     \<and> (\<forall>c. bt_get ind' c = map_option (\<lambda>d. d - count_list cs c) (bt_get ind c))
     \<and> (bs_ok ready \<longrightarrow> bs_ok ready')
     \<and> set ready' = set ready \<union> {c \<in> set cs. bt_get ind c = Some (count_list cs c)}"
  using assms
proof (induction cs arbitrary: ind ready)
  case Nil
  then show ?case by (auto simp: option.map_ident)
next
  case (Cons c cs)
  obtain d where d: "bt_get ind c = Some (Suc d)" "count_list cs c \<le> d"
  proof -
    from Cons.prems obtain d0 where "bt_get ind c = Some d0" "Suc (count_list cs c) \<le> d0" by auto
    then show thesis using that by (cases d0) auto
  qed
  let ?ind = "bt_modify c (\<lambda>d. d - 1) ind"
  let ?ready = "if d = 0 then bs_insert c ready else ready"
  have pre: "\<forall>x \<in> set cs. \<exists>d. bt_get ?ind x = Some d \<and> count_list cs x \<le> d"
  proof
    fix x
    assume "x \<in> set cs"
    with Cons.prems have "\<exists>d. bt_get ind x = Some d \<and> count_list (c # cs) x \<le> d" by simp
    with d show "\<exists>d. bt_get ?ind x = Some d \<and> count_list cs x \<le> d"
      by (cases "x = c") (auto simp: bt_simps)
  qed
  from Cons.IH [of ?ind ?ready, OF pre] obtain ind' ready' where
    r: "relax cs ?ind ?ready = Some (ind', ready')" and k: "map fst ind' = map fst ?ind"
    and g: "\<forall>x. bt_get ind' x = map_option (\<lambda>d. d - count_list cs x) (bt_get ?ind x)"
    and o: "bs_ok ?ready \<longrightarrow> bs_ok ready'"
    and s: "set ready' = set ?ready \<union> {x \<in> set cs. bt_get ?ind x = Some (count_list cs x)}"
    by (elim exE conjE)
  have g': "\<forall>x. bt_get ind' x = map_option (\<lambda>d. d - count_list (c # cs) x) (bt_get ind x)"
  proof
    fix x
    from g have "bt_get ind' x = map_option (\<lambda>d. d - count_list cs x) (bt_get ?ind x)" ..
    with d show "bt_get ind' x = map_option (\<lambda>d. d - count_list (c # cs) x) (bt_get ind x)"
      by (cases "x = c") (simp_all add: bt_simps)
  qed
  have s': "set ready' = set ready \<union> {x \<in> set (c # cs). bt_get ind x = Some (count_list (c # cs) x)}"
  proof -
    have zero: "c \<in> set cs \<longleftrightarrow> count_list cs c \<noteq> 0" by (simp add: count_list_0_iff)
    have "x \<in> set ready' \<longleftrightarrow> x \<in> set ready \<union> {x \<in> set (c # cs). bt_get ind x = Some (count_list (c # cs) x)}"
      for x
      using d zero by (cases "x = c") (auto simp: s bt_simps)
    then show ?thesis by blast
  qed
  have r': "relax (c # cs) ind ready = Some (ind', ready')"
    using r d by simp
  have o': "bs_ok ready \<longrightarrow> bs_ok ready'"
    using o by simp
  have k': "map fst ind' = map fst ind"
    using k by simp
  show ?case
    by (intro exI conjI) (rule r' k' g' o' s')+
qed

text \<open>
  What the order must be, from the edge list alone: at each position, the least name not yet placed
  whose upstreams are all placed.
\<close>

definition placeable :: "(string \<times> string) list \<Rightarrow> string set \<Rightarrow> string set \<Rightarrow> string set" where
  "placeable E V placed = {v \<in> V - placed. \<forall>u. (u, v) \<in> set E \<longrightarrow> u \<in> placed}"

definition greedy_order :: "(string \<times> string) list \<Rightarrow> string set \<Rightarrow> string list \<Rightarrow> bool" where
  "greedy_order E V order \<longleftrightarrow>
     (\<forall>i < length order. order ! i \<in> placeable E V (set (take i order))
        \<and> (\<forall>v \<in> placeable E V (set (take i order)). order ! i \<le> v))"

definition indegree_ok :: "(string \<times> string) list \<Rightarrow> string set \<Rightarrow> string set \<Rightarrow> (string, nat) btree \<Rightarrow> bool"
where
  "indegree_ok E V placed ind \<longleftrightarrow>
     (\<forall>c. bt_get ind c = (if c \<in> V then Some (length (filter (\<lambda>(u, v). v = c \<and> u \<notin> placed) E)) else None))"

definition forward_ok :: "(string \<times> string) list \<Rightarrow> string set \<Rightarrow> (string, string list) btree \<Rightarrow> bool" where
  "forward_ok E V fw \<longleftrightarrow> (\<forall>u \<in> V. bt_get fw u = Some (map snd (filter (\<lambda>e. fst e = u) E)))"

lemma indegree_zero:
  assumes "indegree_ok E V placed ind" "c \<in> V"
  shows "bt_get ind c = Some 0 \<longleftrightarrow> (\<forall>u. (u, c) \<in> set E \<longrightarrow> u \<in> placed)"
proof -
  have "bt_get ind c = Some (length (filter (\<lambda>(u, v). v = c \<and> u \<notin> placed) E))"
    using assms by (simp add: indegree_ok_def)
  then show ?thesis by (auto simp: filter_empty_conv)
qed

lemma count_forward:
  "count_list (map snd (filter (\<lambda>e. fst e = n) E)) c = length (filter (\<lambda>(u, v). v = c \<and> u = n) E)"
  by (induction E) auto

lemma pending_split:
  assumes "n \<notin> placed"
  shows "length (filter (\<lambda>(u, v). v = c \<and> u \<notin> placed) E) =
     length (filter (\<lambda>(u, v). v = c \<and> u = n) E) + length (filter (\<lambda>(u, v). v = c \<and> u \<notin> insert n placed) E)"
  using assms by (induction E) auto

lemma kahn_step:
  assumes ind: "indegree_ok E V placed ind" and fw: "forward_ok E V fw"
    and edges: "snd ` set E \<subseteq> V" and n: "n \<in> V" "n \<notin> placed"
    and closed: "\<forall>(u, v) \<in> set E. v \<in> placed \<longrightarrow> u \<in> placed"
    and ready: "bs_ok (n # ready)" "set (n # ready) = placeable E V placed"
  shows "\<exists>ind' ready'.
     relax (case bt_get fw n of Some cs \<Rightarrow> cs | None \<Rightarrow> []) ind ready = Some (ind', ready')
     \<and> indegree_ok E V (insert n placed) ind' \<and> bs_ok ready' \<and> set ready' = placeable E V (insert n placed)"
proof -
  let ?cs = "map snd (filter (\<lambda>e. fst e = n) E)"
  have cs: "(case bt_get fw n of Some cs \<Rightarrow> cs | None \<Rightarrow> []) = ?cs"
    using fw n(1) by (simp add: forward_ok_def)
  have "\<forall>c \<in> set ?cs. \<exists>d. bt_get ind c = Some d \<and> count_list ?cs c \<le> d"
  proof
    fix c
    assume "c \<in> set ?cs"
    with edges have "c \<in> V" by auto
    with ind show "\<exists>d. bt_get ind c = Some d \<and> count_list ?cs c \<le> d"
      by (simp add: indegree_ok_def count_forward pending_split [OF n(2)])
  qed
  from relax_exact [OF this] obtain ind' ready' where
    r: "relax ?cs ind ready = Some (ind', ready')"
    and g: "\<forall>c. bt_get ind' c = map_option (\<lambda>d. d - count_list ?cs c) (bt_get ind c)"
    and o: "bs_ok ready \<longrightarrow> bs_ok ready'"
    and s: "set ready' = set ready \<union> {c \<in> set ?cs. bt_get ind c = Some (count_list ?cs c)}"
    by blast
  have ind': "indegree_ok E V (insert n placed) ind'"
    unfolding indegree_ok_def
  proof
    fix c
    show "bt_get ind' c = (if c \<in> V
       then Some (length (filter (\<lambda>(u, v). v = c \<and> u \<notin> insert n placed) E)) else None)"
      using ind g pending_split [OF n(2), of c E]
      by (simp add: indegree_ok_def count_forward)
  qed
  have "c \<in> set ready' \<longleftrightarrow> c \<in> placeable E V (insert n placed)" for c
  proof (cases "c \<in> V")
    case False
    then show ?thesis using ready(2) s edges by (auto simp: placeable_def)
  next
    case True
    have zero: "bt_get ind' c = Some 0 \<longleftrightarrow> (\<forall>u. (u, c) \<in> set E \<longrightarrow> u \<in> insert n placed)"
      by (rule indegree_zero [OF ind' True])
    have get: "bt_get ind c = Some 0 \<longleftrightarrow> (\<forall>u. (u, c) \<in> set E \<longrightarrow> u \<in> placed)"
      by (rule indegree_zero [OF ind True])
    have mem: "c \<in> set ?cs \<longleftrightarrow> (n, c) \<in> set E" by force
    have hit: "bt_get ind c = Some (count_list ?cs c) \<longleftrightarrow> bt_get ind' c = Some 0"
      if "(n, c) \<in> set E"
    proof -
      obtain d where d: "bt_get ind c = Some d" using ind True by (simp add: indegree_ok_def)
      have "count_list ?cs c \<le> d"
        using ind True d by (auto simp: indegree_ok_def count_forward pending_split [OF n(2)])
      then show ?thesis using d g by auto
    qed
    have "c \<in> set ready' \<longleftrightarrow> c \<in> set ready \<or> ((n, c) \<in> set E \<and> bt_get ind' c = Some 0)"
      using s mem hit by blast
    also have "\<dots> \<longleftrightarrow> c \<in> placeable E V (insert n placed)"
    proof (cases "c \<in> insert n placed")
      case True
      then have "(n, c) \<notin> set E"
        using closed n(2) ready(2) by (auto simp: placeable_def)
      moreover have "c \<notin> set ready"
        using True ready by (auto simp: bs_ok_def placeable_def)
      ultimately show ?thesis using True by (auto simp: placeable_def)
    next
      case False
      then have "c \<in> set ready \<longleftrightarrow> bt_get ind c = Some 0"
        using ready(2) \<open>c \<in> V\<close> get by (auto simp: placeable_def)
      then show ?thesis
        unfolding get zero using False \<open>c \<in> V\<close> by (auto simp: placeable_def)
    qed
    finally show ?thesis .
  qed
  moreover have "bs_ok ready'"
    using o ready(1) by (simp add: bs_ok_def)
  ultimately show ?thesis
    unfolding cs using r ind' by blast
qed

lemma greedy_closed:
  assumes "greedy_order E V order" "(u, v) \<in> set E" "v \<in> set order"
  shows "u \<in> set order"
proof -
  from assms(3) obtain i where "i < length order" "v = order ! i" by (auto simp: in_set_conv_nth)
  with assms(1,2) have "u \<in> set (take i order)" by (auto simp: greedy_order_def placeable_def)
  then show ?thesis by (rule in_set_takeD)
qed

lemma greedy_snoc:
  assumes "greedy_order E V order" "bs_ok (n # ready)" "set (n # ready) = placeable E V (set order)"
  shows "greedy_order E V (order @ [n])"
proof -
  have "\<forall>v \<in> placeable E V (set order). n \<le> v"
    using assms(2,3) by (auto simp: bs_ok_def)
  moreover have "n \<in> placeable E V (set order)" using assms(3) by auto
  ultimately show ?thesis
    using assms(1) by (auto simp: greedy_order_def nth_append less_Suc_eq)
qed

lemma placeable_exists:
  fixes rank :: "string \<Rightarrow> nat"
  assumes rank: "\<forall>(u, v) \<in> set E. rank u < rank v" and edges: "fst ` set E \<subseteq> V"
    and rest: "V - placed \<noteq> {}"
  shows "placeable E V placed \<noteq> {}"
proof -
  from rest obtain v where v: "v \<in> V - placed" "\<forall>w. rank w < rank v \<longrightarrow> w \<notin> V - placed"
    using exists_least_iff [of "\<lambda>k. \<exists>v \<in> V - placed. rank v = k"] by auto
  have "u \<in> placed" if "(u, v) \<in> set E" for u
  proof -
    from that edges have "u \<in> V" by force
    moreover from that rank have "rank u < rank v" by auto
    ultimately show ?thesis using v(2) by auto
  qed
  with v(1) have "v \<in> placeable E V placed" by (simp add: placeable_def)
  then show ?thesis by auto
qed

lemma kahn_loop_greedy:
  fixes rank :: "string \<Rightarrow> nat"
  assumes fw: "forward_ok E V fw" and edges: "fst ` set E \<subseteq> V" "snd ` set E \<subseteq> V" and fin: "finite V"
    and rank: "\<forall>(u, v) \<in> set E. rank u < rank v"
    and "indegree_ok E V (set order) ind" "bs_ok ready" "set ready = placeable E V (set order)"
    and "greedy_order E V order" "distinct order" "set order \<subseteq> V"
  shows "\<exists>order'. kahn_loop fw ind ready order = Some order' \<and> distinct order' \<and> set order' = V
     \<and> greedy_order E V order'"
  using assms(6-)
proof (induction "card (V - set order)" arbitrary: ind ready order rule: less_induct)
  case less
  show ?case
  proof (cases ready)
    case Nil
    with less.prems(3) placeable_exists [OF rank edges(1), of "set order"] have "V - set order = {}" by auto
    with less.prems Nil show ?thesis by (subst kahn_loop.simps) auto
  next
    case (Cons n ready')
    have n: "n \<in> V" "n \<notin> set order"
      using less.prems(3) Cons by (auto simp: placeable_def)
    have closed: "\<forall>(u, v) \<in> set E. v \<in> set order \<longrightarrow> u \<in> set order"
      using greedy_closed [OF less.prems(4)] by blast
    note here = less.prems(2,3) [unfolded Cons]
    from kahn_step [OF less.prems(1) fw edges(2) n closed here]
    obtain ind' ready'' where step:
      "relax (case bt_get fw n of Some cs \<Rightarrow> cs | None \<Rightarrow> []) ind ready' = Some (ind', ready'')"
      "indegree_ok E V (set (order @ [n])) ind'" "bs_ok ready''"
      "set ready'' = placeable E V (set (order @ [n]))"
      by auto
    have loop: "kahn_loop fw ind ready order = kahn_loop fw ind' ready'' (order @ [n])"
      by (subst kahn_loop.simps) (simp add: Cons step(1))
    have "card (V - set (order @ [n])) < card (V - set order)"
      by (rule psubset_card_mono) (use n fin in auto)
    moreover have "greedy_order E V (order @ [n])"
      by (rule greedy_snoc [OF less.prems(4) here])
    ultimately show ?thesis
      unfolding loop using less.prems n step by (intro less.hyps) auto
  qed
qed

lemma fold_indegree:
  "bt_get (fold (\<lambda>(u, c). bt_modify c (\<lambda>d. d + 1)) es m) c =
     map_option (\<lambda>d. d + length (filter (\<lambda>(u, v). v = c) es)) (bt_get m c)"
proof (induction es arbitrary: m)
  case Nil
  then show ?case by (cases "bt_get m c") simp_all
next
  case (Cons e es)
  then show ?case by (cases e; cases "snd e = c"; cases "bt_get m c") (simp_all add: bt_simps)
qed

lemma fold_forward:
  "bt_get (fold (\<lambda>(u, c). bt_modify u (\<lambda>xs. xs @ [c])) es m) u =
     map_option (\<lambda>xs. xs @ map snd (filter (\<lambda>e. fst e = u) es)) (bt_get m u)"
proof (induction es arbitrary: m)
  case Nil
  then show ?case by (cases "bt_get m u") simp_all
next
  case (Cons e es)
  then show ?case by (cases e; cases "fst e = u"; cases "bt_get m u") (simp_all add: bt_simps)
qed

definition names_of :: "Pipeline \<Rightarrow> string set" where
  "names_of p = pn_name ` set (nodes_of p)"

lemma init_fold_none:
  fixes ns :: "PipelineNode list"
  assumes "k \<notin> pn_name ` set ns"
  shows "bt_get (fold (\<lambda>n. bt_insert (pn_name n) v) ns []) k = None"
  using bt.get_fold_notin [of "[]" k pn_name ns "\<lambda>_. v"] assms by simp

lemma topo_indegree_ok: "indegree_ok (topo_edges p) (names_of p) {} (topo_indegree p)"
  unfolding indegree_ok_def topo_indegree_def fold_indegree names_of_def
  by (auto simp: init_fold_get init_fold_none)

lemma topo_forward_ok: "forward_ok (topo_edges p) (names_of p) (topo_forward p)"
  unfolding forward_ok_def topo_forward_def fold_forward names_of_def
  by (auto simp: init_fold_get)

lemma node_by_id_Some: "node_by_id p i = Some n \<Longrightarrow> n \<in> set (nodes_of p) \<and> pn_id n = i"
  by (auto simp: node_by_id_def find_Some_iff)

lemma node_by_id_None: "node_by_id p i = None \<longleftrightarrow> i \<notin> pn_id ` set (nodes_of p)"
  by (auto simp: node_by_id_def find_None_iff)

lemma resolve_names_in: "u \<in> set (resolve_names p ids) \<Longrightarrow>
    \<exists>i n. i \<in> set ids \<and> n \<in> set (nodes_of p) \<and> pn_id n = i \<and> pn_name n = u"
proof (induction ids)
  case Nil
  then show ?case by (simp add: resolve_names_def map_filter_simps)
next
  case (Cons i ids)
  then show ?case
    by (cases "node_by_id p i") (auto simp: resolve_names_def map_filter_simps dest: node_by_id_Some)
qed

lemma topo_edges_in:
  assumes "(u, c) \<in> set (topo_edges p)"
  shows "\<exists>n \<in> set (nodes_of p). \<exists>m \<in> set (nodes_of p). pn_name n = c \<and> pn_name m = u
     \<and> pn_id m \<in> set (all_upstream_ids n)"
proof -
  from assms obtain n where n: "n \<in> set (nodes_of p)" "c = pn_name n" "u \<in> set (topo_upstreams p n)"
    by (auto simp: topo_edges_def)
  from n(3) resolve_names_in [of u p "sort_dedup (data_upstreams n @ ordering_upstream_ids n)"]
  obtain m where "m \<in> set (nodes_of p)" "pn_name m = u" "pn_id m \<in> set (all_upstream_ids n)"
    by (auto simp: topo_upstreams_def all_upstream_ids_def)
  with n show ?thesis by blast
qed

lemma node_id_of_name: "pipeline_wf p \<Longrightarrow> n \<in> set (nodes_of p) \<Longrightarrow> pn_id n = from_name (pn_name n)"
  by (auto simp: pipeline_wf_def nodes_wf_def nodes_of_def bt_values_def)

lemma bt_ok_fold_modify: "bt_ok (fold (\<lambda>x. bt_modify (f x) (g x)) xs m) = bt_ok m"
  by (induction xs arbitrary: m) simp_all

lemma topo_indegree_bt_ok: "bt_ok (topo_indegree p)"
  unfolding topo_indegree_def split_def bt_ok_fold_modify by (rule bt.ok_fold) simp

lemma zero_keys_ok: "bt_ok m \<Longrightarrow> bs_ok (bt_keys (filter f m))"
  by (induction m) (auto simp: bt_ok_Cons bs_ok_def bt_keys_def less_imp_le)

lemma zero_keys_set:
  assumes "bt_ok m" shows "set (bt_keys (filter (\<lambda>(n, d). d = 0) m)) = {n. bt_get m n = Some (0 :: nat)}"
  using assms by (force simp: bt_get_Some_iff)

lemma execution_order_exists:
  assumes wf: "pipeline_wf p" and acyclic: "ranked p rank"
  shows "\<exists>order. execution_order_names p = Some order \<and> distinct order \<and> set order = names_of p
     \<and> greedy_order (topo_edges p) (names_of p) order"
proof -
  let ?E = "topo_edges p" and ?V = "names_of p"
  have edges: "fst ` set ?E \<subseteq> ?V" "snd ` set ?E \<subseteq> ?V"
    using topo_edges_in by (fastforce simp: names_of_def)+
  have rank: "\<forall>(u, v) \<in> set ?E. rank (from_name u) < rank (from_name v)"
    using topo_edges_in acyclic node_id_of_name [OF wf] by (fastforce simp: ranked_def)
  have "set (bt_keys (filter (\<lambda>(n, d). d = 0) (topo_indegree p))) = placeable ?E ?V {}"
    unfolding zero_keys_set [OF topo_indegree_bt_ok]
    using indegree_zero [OF topo_indegree_ok, of _ p] topo_indegree_ok [of p]
    by (auto simp: placeable_def indegree_ok_def split: if_splits)
  then show ?thesis
    unfolding execution_order_names_def
    using kahn_loop_greedy [of ?E ?V "topo_forward p" "\<lambda>n. rank (from_name n)" "[]" "topo_indegree p"]
      topo_forward_ok topo_indegree_ok edges rank zero_keys_ok [OF topo_indegree_bt_ok]
    by (simp add: names_of_def greedy_order_def)
qed

lemma names_distinct: "pipeline_wf p \<Longrightarrow> distinct (map pn_name (nodes_of p))"
proof -
  assume wf: "pipeline_wf p"
  then have "map pn_name (nodes_of p) = map fst (pp_nodes p)"
    by (auto simp: pipeline_wf_def nodes_wf_def nodes_of_def bt_values_def)
  with wf show ?thesis by (simp add: pipeline_wf_def nodes_wf_def bt_keys_distinct)
qed

text \<open>
  C24. On a built graph the execution order exists (the pass never hits an absent key, a zero
  in-degree or a cycle), lists every node once, and is the greedy topological order: each position
  holds the least name, among those not yet placed, whose data and ordering upstreams are all placed.
\<close>

theorem execution_order_greedy:
  assumes wf: "pipeline_wf p" and acyclic: "ranked p rank"
  shows "\<exists>order. execution_order_names p = Some order \<and> distinct order \<and> set order = names_of p
     \<and> greedy_order (topo_edges p) (names_of p) order"
  by (rule execution_order_exists [OF assms])

theorem execution_order_greedy_witness:
  "(\<exists>order. execution_order_names (build sample_regs) = Some order \<and> distinct order
      \<and> set order = names_of (build sample_regs)
      \<and> greedy_order (topo_edges (build sample_regs)) (names_of (build sample_regs)) order)
   \<and> execution_order_names (build sample_regs) = Some [''a'', ''b'', ''c'']"
proof
  have "ranked (build sample_regs) (reg_rank sample_regs)" by code_simp
  then show "\<exists>order. execution_order_names (build sample_regs) = Some order \<and> distinct order
      \<and> set order = names_of (build sample_regs)
      \<and> greedy_order (topo_edges (build sample_regs)) (names_of (build sample_regs)) order"
    by (rule execution_order_greedy [OF build_wf])
  show "execution_order_names (build sample_regs) = Some [''a'', ''b'', ''c'']" by code_simp
qed

end
