(* ===== verification/Encoding.thy ===== *)
theory Encoding
  imports Assembly "HOL-Library.Option_ord"
begin

text \<open>
  The canonical encoding and the fingerprint of a pipeline, and \<open>assemble\<close> itself
  (\<open>crates/core/src/assembly.rs\<close>).  The encodings are self-delimiting: every variable-length field
  is framed by a tag and its length, so equal bytes mean equal structure (respectively policy).
\<close>

section \<open>Bytes\<close>

text \<open>\<open>to_le_bytes\<close> of a word of \<open>n\<close> bytes.\<close>

definition le_bytes :: "nat \<Rightarrow> 'a::len word \<Rightarrow> u8 list" where
  "le_bytes n w = map (\<lambda>i. ucast (drop_bit (8 * i) w)) [0..<n]"

definition ch :: "char \<Rightarrow> u8" where
  "ch c = of_char c"

definition fnv1a :: "u8 list \<Rightarrow> u64" where
  "fnv1a bytes = foldl fnv_step FNV_OFFSET bytes"

text \<open>The bytes that \<open>push_framed\<close> appends to its output.\<close>

definition push_framed :: "char \<Rightarrow> u8 list \<Rightarrow> u8 list" where
  "push_framed tag bytes = ch tag # le_bytes 8 (of_nat (length bytes) :: u64) @ bytes"

section \<open>The encodings\<close>

fun trigger_rule_code :: "TriggerRule \<Rightarrow> u8" where
  "trigger_rule_code AllSucceeded = 0"
| "trigger_rule_code AllTerminal = 1"
| "trigger_rule_code AnyFailed = 2"

fun execution_class_code :: "ExecutionClass \<Rightarrow> u8" where
  "execution_class_code AwaitBound = 0"
| "execution_class_code Blocking = 1"
| "execution_class_code Compute = 2"

fun stable_names_bytes :: "StableTypeNames option \<Rightarrow> u8 list" where
  "stable_names_bytes (Some names) =
     push_framed (CHR ''t'') (as_bytes (st_task names))
     @ concat (map (\<lambda>input. push_framed (CHR ''i'') (as_bytes input)) (st_inputs names))
     @ push_framed (CHR ''I'') []
     @ push_framed (CHR ''o'') (as_bytes (st_output names))"
| "stable_names_bytes None = push_framed (CHR ''T'') []"

fun node_bytes :: "string \<times> StableTypeNames option \<times> TriggerRule \<Rightarrow> u8 list" where
  "node_bytes (name, names, rule) =
     push_framed (CHR ''n'') (as_bytes name) @ stable_names_bytes names
     @ push_framed (CHR ''r'') [trigger_rule_code rule]"

text \<open>An edge entry: a data edge with its position and carried type, or an ordering edge.\<close>

datatype edge_item =
    DataItem string u64 string "string option"
  | OrderItem string string

fun edge_bytes :: "edge_item \<Rightarrow> u8 list" where
  "edge_bytes (DataItem consumer position producer carried) =
     push_framed (CHR ''c'') (as_bytes consumer) @ push_framed (CHR ''p'') (as_bytes producer)
     @ le_bytes 8 position @ [ch (CHR ''d'')]
     @ (case carried of Some name \<Rightarrow> push_framed (CHR ''y'') (as_bytes name)
        | None \<Rightarrow> push_framed (CHR ''Y'') [])"
| "edge_bytes (OrderItem consumer producer) =
     push_framed (CHR ''c'') (as_bytes consumer) @ push_framed (CHR ''p'') (as_bytes producer)
     @ [ch (CHR ''O'')]"

definition data_edge_entries :: "Pipeline \<Rightarrow> (string \<times> u64 \<times> string \<times> string option) list" where
  "data_edge_entries p =
     sort (concat (map (\<lambda>n. map (\<lambda>e.
       (pn_name n, of_nat (de_position e), producer_name p (de_upstream e),
        case node_by_id p (de_upstream e) of
          None \<Rightarrow> None
        | Some u \<Rightarrow> map_option st_output (pn_stable_names u))) (pn_edges n)) (nodes_of p)))"

definition ordering_entries :: "Pipeline \<Rightarrow> (string \<times> string) list" where
  "ordering_entries p =
     sort_dedup (concat (map (\<lambda>n. map (\<lambda>e. (pn_name n, producer_name p (oe_upstream e)))
       (pn_ordering_edges n)) (nodes_of p)))"

text \<open>What the structural fingerprint sees of a pipeline: its nodes and its edges.\<close>

definition structural_nodes :: "Pipeline \<Rightarrow> (string \<times> StableTypeNames option \<times> TriggerRule) list" where
  "structural_nodes p = map (\<lambda>n. (pn_name n, pn_stable_names n, pn_trigger_rule n)) (nodes_of p)"

definition structural_edges :: "Pipeline \<Rightarrow> edge_item list" where
  "structural_edges p =
     map (\<lambda>(consumer, position, producer, carried). DataItem consumer position producer carried)
       (data_edge_entries p)
     @ map (\<lambda>(consumer, producer). OrderItem consumer producer) (ordering_entries p)"

definition structural_encoding :: "Pipeline \<Rightarrow> u8 list" where
  "structural_encoding p =
     concat (map node_bytes (structural_nodes p)) @ concat (map edge_bytes (structural_edges p))"

definition placement_encoding :: "Placement \<Rightarrow> u8 list" where
  "placement_encoding pl =
     (case pl_cpu pl of Some cpu \<Rightarrow> push_framed (CHR ''c'') (as_bytes cpu)
      | None \<Rightarrow> push_framed (CHR ''C'') [])
     @ (case pl_memory pl of Some memory \<Rightarrow> push_framed (CHR ''m'') (as_bytes memory)
        | None \<Rightarrow> push_framed (CHR ''M'') [])
     @ concat (map (\<lambda>(key, value). push_framed (CHR ''k'') (as_bytes key)
          @ push_framed (CHR ''v'') (as_bytes value)) (pl_node_selectors pl))
     @ push_framed (CHR ''K'') []
     @ concat (map (\<lambda>toleration. push_framed (CHR ''x'') (as_bytes toleration)) (pl_tolerations pl))
     @ push_framed (CHR ''X'') []"

definition u8_from_bool :: "bool \<Rightarrow> u8" where
  "u8_from_bool b = (if b then 1 else 0)"

fun policy_bytes :: "string \<times> ExecutionClass \<times> NodePolicy \<Rightarrow> u8 list" where
  "policy_bytes (name, cls, policy) =
     push_framed (CHR ''n'') (as_bytes name)
     @ le_bytes 4 (np_retries policy)
     @ le_bytes 16 (bo_base (np_backoff policy))
     @ le_bytes 16 (bo_cap (np_backoff policy))
     @ le_bytes 8 (bo_factor (np_backoff policy))
     @ (case np_timeout policy of
          None \<Rightarrow> 0 # le_bytes 16 (0 :: u128)
        | Some d \<Rightarrow> 1 # le_bytes 16 d)
     @ le_bytes 8 (cv_working_memory (np_cost policy))
     @ le_bytes 8 (cv_output_residency (np_cost policy))
     @ le_bytes 4 (cv_blocking_threads (np_cost policy))
     @ le_bytes 4 (cv_compute_threads (np_cost policy))
     @ [execution_class_code cls, u8_from_bool (np_retained policy), u8_from_bool (np_durable policy),
        u8_from_bool (np_teardown policy)]
     @ (case np_placement policy of
          Some placement \<Rightarrow> push_framed (CHR ''L'') (placement_encoding placement)
        | None \<Rightarrow> [])"

definition policy_nodes :: "Pipeline \<Rightarrow> (string \<times> ExecutionClass \<times> NodePolicy) list" where
  "policy_nodes p = map (\<lambda>n. (pn_name n, effective_class n, pn_policy n)) (nodes_of p)"

definition policy_encoding :: "Pipeline \<Rightarrow> u8 list" where
  "policy_encoding p = concat (map policy_bytes (policy_nodes p))"

definition env_allowlist_encoding :: "Pipeline \<Rightarrow> u8 list" where
  "env_allowlist_encoding p =
     concat (map (\<lambda>name. push_framed (CHR ''v'') (as_bytes name)) (pp_env_allowlist p))"

definition canonical_encoding :: "Pipeline \<Rightarrow> u8 list" where
  "canonical_encoding p =
     push_framed (CHR ''S'') (structural_encoding p) @ push_framed (CHR ''P'') (policy_encoding p)
     @ push_framed (CHR ''E'') (env_allowlist_encoding p)"

record FingerprintSlot =
  fp_structural :: u64
  fp_policy :: u64
  fp_algorithm_version :: u64
definition FINGERPRINT_ALGORITHM_VERSION :: u64 where "FINGERPRINT_ALGORITHM_VERSION = 1"

definition compute_fingerprint :: "Pipeline \<Rightarrow> FingerprintSlot" where
  "compute_fingerprint p =
     \<lparr>fp_structural = fnv1a (structural_encoding p), fp_policy = fnv1a (policy_encoding p),
      fp_algorithm_version = FINGERPRINT_ALGORITHM_VERSION\<rparr>"

section \<open>Assembly\<close>

record AssemblyArtifact =
  aa_consumer_counts :: "(string, u32) btree"
  aa_remaining_deps :: "(string, nat) btree"
  aa_order :: "node_id list"
  aa_fingerprint :: FingerprintSlot
  aa_env_allowlist :: "string list"
  aa_warnings :: "string list"
  aa_canonical :: "u8 list"

text \<open>\<open>None\<close> is a panic of the order pass; \<open>Inl\<close> carries every problem found, \<open>Inr\<close> the artifact.\<close>

definition assemble :: "Pipeline \<Rightarrow> (Problem list + AssemblyArtifact) option" where
  "assemble p =
     (let problems = assembly_problems p in
      if problems \<noteq> [] then Some (Inl problems)
      else (let counts = precompute_consumer_counts p in
        case precompute_execution_order p of
          None \<Rightarrow> None
        | Some order \<Rightarrow> Some (Inr
            \<lparr>aa_consumer_counts = counts, aa_remaining_deps = precompute_remaining_deps p,
             aa_order = order, aa_fingerprint = compute_fingerprint p,
             aa_env_allowlist = pp_env_allowlist p, aa_warnings = collect_warnings p counts,
             aa_canonical = canonical_encoding p\<rparr>)))"

definition consumer_count :: "AssemblyArtifact \<Rightarrow> node_id \<Rightarrow> u32 option" where
  "consumer_count a i = map_option snd (List.find (\<lambda>(name, _). from_name name = i) (aa_consumer_counts a))"

definition remaining_dependency_count :: "AssemblyArtifact \<Rightarrow> node_id \<Rightarrow> nat option" where
  "remaining_dependency_count a i =
     map_option snd (List.find (\<lambda>(name, _). from_name name = i) (aa_remaining_deps a))"

section \<open>Framing is self-delimiting\<close>

lemma length_le_bytes [simp]: "length (le_bytes n w) = n"
  by (simp add: le_bytes_def)

lemma le_bytes_inj:
  assumes "LENGTH('a) \<le> 8 * n" and eq: "le_bytes n w = le_bytes n (v :: 'a::len word)"
  shows "w = v"
proof (rule bit_word_eqI)
  fix k
  assume "k < LENGTH('a)"
  with assms(1) have k: "k div 8 < n" by simp
  from eq have "le_bytes n w ! (k div 8) = le_bytes n v ! (k div 8)" by simp
  with k have "bit (ucast (drop_bit (8 * (k div 8)) w) :: u8) (k mod 8)
             = bit (ucast (drop_bit (8 * (k div 8)) v) :: u8) (k mod 8)"
    by (simp add: le_bytes_def)
  then show "bit w k = bit v k"
    by (simp add: bit_ucast_iff bit_drop_bit_eq)
qed

lemma le_bytes_eq [simp]: "LENGTH('a) \<le> 8 * n \<Longrightarrow> le_bytes n w = le_bytes n (v :: 'a::len word) \<longleftrightarrow> w = v"
  using le_bytes_inj by auto

lemma le_bytes_append [simp]:
  "LENGTH('a) \<le> 8 * n \<Longrightarrow>
     le_bytes n w @ r = le_bytes n (v :: 'a::len word) @ r' \<longleftrightarrow> w = v \<and> r = r'"
  using le_bytes_inj [of n w v] by (auto simp: append_eq_append_conv)

lemma ch_inj [simp]: "ch c = ch d \<longleftrightarrow> c = d"
  by (simp add: ch_def of_char_u8_inj)

definition short :: "'a list \<Rightarrow> bool" where
  "short xs \<longleftrightarrow> length xs < 2 ^ 64"

lemma short_as_bytes [simp]: "short (as_bytes s) = short s"
  by (simp add: short_def)

lemma short_Nil [simp]: "short []"
  by (simp add: short_def)

lemma push_framed_append:
  assumes "short bs" "short cs"
  shows "push_framed t bs @ r = push_framed u cs @ r' \<longleftrightarrow> t = u \<and> bs = cs \<and> r = r'"
proof -
  have round_trip: "unat (of_nat n :: u64) = n" if "n < 2 ^ 64" for n
    using that by (simp add: unat_of_nat)
  have len: "(of_nat (length bs) :: u64) = of_nat (length cs) \<longleftrightarrow> length bs = length cs"
    using assms round_trip unfolding short_def by metis
  show ?thesis
    by (auto simp: push_framed_def len)
qed

lemma push_framed_same_tag:
  assumes "push_framed t bs @ r = push_framed u cs @ r'" shows "t = u"
  using assms by (simp add: push_framed_def)

lemma hd_push_framed [simp]: "hd (push_framed t bs @ r) = ch t" "hd (push_framed t bs) = ch t" "push_framed t bs \<noteq> []"
  by (simp_all add: push_framed_def)

section \<open>Interface: a prefix code\<close>

text \<open>
  One entry of an encoding can be read off the front of a byte string, provided that what follows
  is legal there (\<open>follow\<close>), and every entry opens with the same tag.  Then a list of entries can be
  read off too, up to the first byte that is not the tag.
\<close>

locale prefix_code =
  fixes enc :: "'a \<Rightarrow> u8 list" and ok :: "'a \<Rightarrow> bool" and tag :: char and follow :: "u8 list \<Rightarrow> bool"
  assumes decode: "ok x \<Longrightarrow> ok y \<Longrightarrow> follow r \<Longrightarrow> follow r' \<Longrightarrow> enc x @ r = enc y @ r' \<Longrightarrow> x = y \<and> r = r'"
    and opens: "ok x \<Longrightarrow> enc x \<noteq> [] \<and> hd (enc x) = ch tag"
    and follows: "ok x \<Longrightarrow> follow (enc x @ r)"
begin

definition stops :: "u8 list \<Rightarrow> bool" where
  "stops r \<longleftrightarrow> follow r \<and> (r = [] \<or> hd r \<noteq> ch tag)"

lemma follow_list: "\<forall>x \<in> set xs. ok x \<Longrightarrow> follow r \<Longrightarrow> follow (concat (map enc xs) @ r)"
  by (cases xs) (simp_all add: follows)

lemma starts: "ok x \<Longrightarrow> enc x @ s \<noteq> r" if "stops r"
  using that opens [of x] by (auto simp: stops_def)

lemma decode_list:
  assumes "\<forall>x \<in> set xs. ok x" "\<forall>y \<in> set ys. ok y" "stops r" "stops r'"
    and "concat (map enc xs) @ r = concat (map enc ys) @ r'"
  shows "xs = ys \<and> r = r'"
  using assms(1,2,5)
proof (induction xs arbitrary: ys)
  case Nil
  show ?case
  proof (cases ys)
    case Nil
    with Nil.prems show ?thesis by simp
  next
    case (Cons y ys')
    with Nil.prems starts [OF assms(3), of y "concat (map enc ys') @ r'"] show ?thesis by simp
  qed
next
  case (Cons x xs)
  show ?case
  proof (cases ys)
    case Nil
    with Cons.prems starts [OF assms(4), of x "concat (map enc xs) @ r"] show ?thesis by simp
  next
    case (Cons y ys')
    have "follow (concat (map enc xs) @ r)" "follow (concat (map enc ys') @ r')"
      using Cons.prems assms(3,4) Cons by (auto intro!: follow_list simp: stops_def)
    with Cons.prems Cons decode [of x y "concat (map enc xs) @ r" "concat (map enc ys') @ r'"]
    have "x = y" "concat (map enc xs) @ r = concat (map enc ys') @ r'" by auto
    with Cons.IH [of ys'] Cons.prems Cons show ?thesis by simp
  qed
qed

end

section \<open>The entries are prefix codes\<close>

lemma trigger_rule_code_inj [simp]: "trigger_rule_code a = trigger_rule_code b \<longleftrightarrow> a = b"
  by (cases a; cases b) simp_all

lemma execution_class_code_inj [simp]: "execution_class_code a = execution_class_code b \<longleftrightarrow> a = b"
  by (cases a; cases b) simp_all

lemma u8_from_bool_inj [simp]: "u8_from_bool x = u8_from_bool y \<longleftrightarrow> x = y"
  by (simp add: u8_from_bool_def)

lemma framed_code: "prefix_code (\<lambda>s. push_framed t (as_bytes s)) short t (\<lambda>_. True)"
  by unfold_locales (simp_all add: push_framed_append)

interpretation framed_i: prefix_code "\<lambda>s. push_framed (CHR ''i'') (as_bytes s)" short "CHR ''i''" "\<lambda>_. True"
  by (rule framed_code)

interpretation framed_x: prefix_code "\<lambda>s. push_framed (CHR ''x'') (as_bytes s)" short "CHR ''x''" "\<lambda>_. True"
  by (rule framed_code)

interpretation framed_v: prefix_code "\<lambda>s. push_framed (CHR ''v'') (as_bytes s)" short "CHR ''v''" "\<lambda>_. True"
  by (rule framed_code)

interpretation selectors: prefix_code
  "\<lambda>(key, value). push_framed (CHR ''k'') (as_bytes key) @ push_framed (CHR ''v'') (as_bytes value)"
  "\<lambda>(key, value). short key \<and> short value" "CHR ''k''" "\<lambda>_. True"
  by unfold_locales (auto simp: push_framed_append)

fun names_short :: "StableTypeNames option \<Rightarrow> bool" where
  "names_short (Some names) \<longleftrightarrow>
     short (st_task names) \<and> (\<forall>i \<in> set (st_inputs names). short i) \<and> short (st_output names)"
| "names_short None \<longleftrightarrow> True"

lemma stable_names_decode:
  assumes "names_short a" "names_short b" "stable_names_bytes a @ r = stable_names_bytes b @ r'"
  shows "a = b \<and> r = r'"
proof (cases a)
  case None
  with assms show ?thesis
    by (cases b) (auto simp: push_framed_append dest!: push_framed_same_tag)
next
  case (Some x)
  show ?thesis
  proof (cases b)
    case None
    with assms Some show ?thesis by (auto dest!: push_framed_same_tag)
  next
    case (Some y)
    have t: "short (st_task x)" "short (st_task y)"
      using assms(1,2) Some \<open>a = Some x\<close> by simp_all
    have "st_task x = st_task y"
      and rest: "concat (map (\<lambda>s. push_framed (CHR ''i'') (as_bytes s)) (st_inputs x))
          @ push_framed (CHR ''I'') [] @ push_framed (CHR ''o'') (as_bytes (st_output x)) @ r
        = concat (map (\<lambda>s. push_framed (CHR ''i'') (as_bytes s)) (st_inputs y))
          @ push_framed (CHR ''I'') [] @ push_framed (CHR ''o'') (as_bytes (st_output y)) @ r'"
      using assms(3) Some \<open>a = Some x\<close> t by (simp_all add: push_framed_append)
    moreover have "st_inputs x = st_inputs y"
      and "push_framed (CHR ''I'') [] @ push_framed (CHR ''o'') (as_bytes (st_output x)) @ r
         = push_framed (CHR ''I'') [] @ push_framed (CHR ''o'') (as_bytes (st_output y)) @ r'"
      using framed_i.decode_list [OF _ _ _ _ rest] assms(1,2) Some \<open>a = Some x\<close>
      by (simp_all add: framed_i.stops_def)
    moreover have "st_output x = st_output y" "r = r'"
      using calculation(4) assms(1,2) Some \<open>a = Some x\<close> by (simp_all add: push_framed_append)
    ultimately show ?thesis
      using Some \<open>a = Some x\<close> by (simp add: StableTypeNames.equality)
  qed
qed

definition node_item_ok :: "string \<times> StableTypeNames option \<times> TriggerRule \<Rightarrow> bool" where
  "node_item_ok x \<longleftrightarrow> short (fst x) \<and> names_short (fst (snd x))"

interpretation node_items: prefix_code node_bytes node_item_ok "CHR ''n''" "\<lambda>_. True"
proof
  fix x y r r'
  assume ok: "node_item_ok x" "node_item_ok y" and eq: "node_bytes x @ r = node_bytes y @ r'"
  obtain n names rule m names' rule' where xy: "x = (n, names, rule)" "y = (m, names', rule')"
    by (cases x, cases y)
  from eq xy ok have "n = m" and rest:
    "stable_names_bytes names @ push_framed (CHR ''r'') [trigger_rule_code rule] @ r
       = stable_names_bytes names' @ push_framed (CHR ''r'') [trigger_rule_code rule'] @ r'"
    by (simp_all add: push_framed_append node_item_ok_def)
  with stable_names_decode [OF _ _ rest] xy ok show "x = y \<and> r = r'"
    by (simp add: node_item_ok_def push_framed_append short_def)
qed (auto simp: node_item_ok_def)

text \<open>
  An ordering edge has the marker \<open>O\<close> where a data edge has the low byte of its position; what
  follows an edge is nothing or the next \<open>c\<close>, so the two are told apart as long as positions stay
  below \<open>0x6300\<close> (their second byte is below the \<open>c\<close>).
\<close>

fun edge_item_ok :: "edge_item \<Rightarrow> bool" where
  "edge_item_ok (DataItem consumer position producer carried) \<longleftrightarrow>
     short consumer \<and> position < 0x6300 \<and> short producer \<and> (case carried of Some c \<Rightarrow> short c | None \<Rightarrow> True)"
| "edge_item_ok (OrderItem consumer producer) \<longleftrightarrow> short consumer \<and> short producer"

definition edge_follow :: "u8 list \<Rightarrow> bool" where
  "edge_follow r \<longleftrightarrow> r = [] \<or> hd r = ch (CHR ''c'')"

lemma position_not_marker:
  assumes "position < 0x6300" "edge_follow r"
  shows "le_bytes 8 (position :: u64) @ s \<noteq> ch (CHR ''O'') # r"
proof
  assume eq: "le_bytes 8 position @ s = ch (CHR ''O'') # r"
  have bytes: "le_bytes 8 position =
      ucast position # ucast (drop_bit 8 position) # map (\<lambda>i. ucast (drop_bit (8 * i) position)) [2..<8]"
    by (simp add: le_bytes_def upt_rec)
  with eq have "r \<noteq> []" "hd r = ucast (drop_bit 8 position)" by auto
  with assms(2) have "ucast (drop_bit 8 position) = (0x63 :: u8)"
    by (simp add: edge_follow_def ch_def)
  moreover have "drop_bit 8 position < 0x63"
    using assms(1) by (simp add: word_less_nat_alt unat_drop_bit_eq drop_bit_eq_div unat_div)
  then have "unat (ucast (drop_bit 8 position) :: u8) < 0x63"
    by (simp add: word_less_nat_alt unsigned_ucast_eq take_bit_eq_mod)
  ultimately show False by simp
qed

interpretation edge_items: prefix_code edge_bytes edge_item_ok "CHR ''c''" edge_follow
proof
  fix x y r r'
  assume ok: "edge_item_ok x" "edge_item_ok y" and follow: "edge_follow r" "edge_follow r'"
    and eq: "edge_bytes x @ r = edge_bytes y @ r'"
  show "x = y \<and> r = r'"
  proof (cases x)
    case dx: (DataItem c pos p carried)
    show ?thesis
    proof (cases y)
      case dy: (DataItem c' pos' p' carried')
      with dx ok eq show ?thesis
        by (cases carried; cases carried')
          (auto simp: push_framed_append dest!: push_framed_same_tag)
    next
      case (OrderItem c' p')
      with dx ok eq have "le_bytes 8 pos @ ch (CHR ''d'')
          # (case carried of Some name \<Rightarrow> push_framed (CHR ''y'') (as_bytes name)
             | None \<Rightarrow> push_framed (CHR ''Y'') []) @ r = ch (CHR ''O'') # r'"
        by (simp add: push_framed_append)
      with position_not_marker [OF _ follow(2)] ok(1) dx show ?thesis by simp
    qed
  next
    case ox: (OrderItem c p)
    show ?thesis
    proof (cases y)
      case (DataItem c' pos' p' carried')
      with ox ok eq have "le_bytes 8 pos' @ ch (CHR ''d'')
          # (case carried' of Some name \<Rightarrow> push_framed (CHR ''y'') (as_bytes name)
             | None \<Rightarrow> push_framed (CHR ''Y'') []) @ r' = ch (CHR ''O'') # r"
        by (simp add: push_framed_append)
      with position_not_marker [OF _ follow(1)] ok(2) DataItem show ?thesis by simp
    next
      case (OrderItem c' p')
      with ox ok eq show ?thesis by (simp add: push_framed_append)
    qed
  qed
next
  fix x show "edge_item_ok x \<Longrightarrow> edge_bytes x \<noteq> [] \<and> hd (edge_bytes x) = ch (CHR ''c'')"
    by (cases x) simp_all
next
  fix x r show "edge_item_ok x \<Longrightarrow> edge_follow (edge_bytes x @ r)"
    by (cases x) (simp_all add: edge_follow_def)
qed

section \<open>Equal structural bytes, equal structure\<close>

text \<open>Every string a pipeline carries is shorter than \<open>2^64\<close> bytes; positions are below \<open>0x6300\<close>.\<close>

definition structure_bounded :: "Pipeline \<Rightarrow> bool" where
  "structure_bounded p \<longleftrightarrow>
     (\<forall>x \<in> set (structural_nodes p). node_item_ok x) \<and> (\<forall>e \<in> set (structural_edges p). edge_item_ok e)"

lemma edges_tail:
  "\<forall>e \<in> set es. edge_item_ok e \<Longrightarrow>
     concat (map edge_bytes es) = [] \<or> hd (concat (map edge_bytes es)) = ch (CHR ''c'')"
  using edge_items.follow_list [of es "[]"] by (simp add: edge_follow_def)

lemma structural_encoding_iff:
  assumes "structure_bounded p" "structure_bounded q"
  shows "structural_encoding p = structural_encoding q \<longleftrightarrow>
     structural_nodes p = structural_nodes q \<and> structural_edges p = structural_edges q"
proof
  assume eq: "structural_encoding p = structural_encoding q"
  let ?e = "\<lambda>p. concat (map edge_bytes (structural_edges p))"
  have stop: "node_items.stops (?e p)" if "structure_bounded p" for p
    using that edges_tail [of "structural_edges p"] by (auto simp: node_items.stops_def structure_bounded_def)
  have nodes: "structural_nodes p = structural_nodes q" and edges: "?e p = ?e q"
    using node_items.decode_list [OF _ _ stop [OF assms(1)] stop [OF assms(2)]] assms eq
    by (auto simp: structure_bounded_def structural_encoding_def)
  have "edge_items.stops []" by (simp add: edge_items.stops_def edge_follow_def)
  from edge_items.decode_list [OF _ _ this this] assms edges
  have "structural_edges p = structural_edges q" by (simp add: structure_bounded_def)
  with nodes show "structural_nodes p = structural_nodes q \<and> structural_edges p = structural_edges q" ..
qed (simp add: structural_encoding_def)

text \<open>
  The structural bytes determine the structure and nothing else: two pipelines have the same
  structural encoding exactly when they have the same nodes (name, declared type names, trigger
  rule) and the same data and ordering edges; policies, failure mode and allowlist play no part.
\<close>

theorem structural_encoding_exact:
  assumes "structure_bounded p" "structure_bounded q"
  shows "structural_encoding p = structural_encoding q \<longleftrightarrow>
     structural_nodes p = structural_nodes q \<and> structural_edges p = structural_edges q"
  by (rule structural_encoding_iff [OF assms])

definition sample_flow2 :: Pipeline where
  "sample_flow2 = build
     [RegSource ''a'' sample_task None default_policy Absent AllSucceeded [],
      RegData ''b'' sample_task [(from_name ''a'', Owned)] None (default_policy\<lparr>np_retained := True\<rparr>) Absent [],
      RegData ''c'' sample_task [(from_name ''b'', Shared)] None default_policy Absent [from_name ''a'']]"

theorem structural_encoding_exact_witness:
  "structural_encoding (build sample_regs) = structural_encoding sample_flow2 \<longleftrightarrow>
     structural_nodes (build sample_regs) = structural_nodes sample_flow2
     \<and> structural_edges (build sample_regs) = structural_edges sample_flow2"
proof (rule structural_encoding_exact)
  have nodes: "structural_nodes (build sample_regs) = structural_nodes sample_flow2"
      "structural_edges (build sample_regs) = structural_edges sample_flow2"
    and n: "structural_nodes (build sample_regs) =
      [(''a'', None, AllSucceeded), (''b'', None, AllSucceeded), (''c'', None, AllSucceeded)]"
    and e: "structural_edges (build sample_regs) =
      [DataItem ''b'' 0 ''a'' None, DataItem ''c'' 0 ''b'' None, OrderItem ''c'' ''a'']"
    by code_simp+
  show "structure_bounded (build sample_regs)" "structure_bounded sample_flow2"
    unfolding structure_bounded_def nodes [symmetric] n e by (simp_all add: node_item_ok_def short_def)
qed

section \<open>Equal policy bytes, equal policies\<close>

fun placement_short :: "Placement option \<Rightarrow> bool" where
  "placement_short None \<longleftrightarrow> True"
| "placement_short (Some pl) \<longleftrightarrow>
     (case pl_cpu pl of Some c \<Rightarrow> short c | None \<Rightarrow> True)
     \<and> (case pl_memory pl of Some m \<Rightarrow> short m | None \<Rightarrow> True)
     \<and> (\<forall>(k, v) \<in> set (pl_node_selectors pl). short k \<and> short v)
     \<and> (\<forall>x \<in> set (pl_tolerations pl). short x)
     \<and> short (placement_encoding pl)"

definition option_frame :: "char \<Rightarrow> char \<Rightarrow> string option \<Rightarrow> u8 list" where
  "option_frame t u x = (case x of Some s \<Rightarrow> push_framed t (as_bytes s) | None \<Rightarrow> push_framed u [])"

lemma option_frame_append:
  assumes "t \<noteq> u" "case x of Some s \<Rightarrow> short s | None \<Rightarrow> True" "case y of Some s \<Rightarrow> short s | None \<Rightarrow> True"
  shows "option_frame t u x @ r = option_frame t u y @ r' \<longleftrightarrow> x = y \<and> r = r'"
  using assms
  by (cases x; cases y) (auto simp: option_frame_def push_framed_append dest!: push_framed_same_tag)

lemma placement_encoding_inj:
  assumes ok: "placement_short (Some a)" "placement_short (Some b)"
    and eq: "placement_encoding a = placement_encoding b"
  shows "a = b"
proof -
  let ?sel = "\<lambda>pl. concat (map (\<lambda>(key, value). push_framed (CHR ''k'') (as_bytes key)
          @ push_framed (CHR ''v'') (as_bytes value)) (pl_node_selectors pl))"
  let ?tol = "\<lambda>pl. concat (map (\<lambda>s. push_framed (CHR ''x'') (as_bytes s)) (pl_tolerations pl))
          @ push_framed (CHR ''X'') []"
  have enc: "placement_encoding pl = option_frame (CHR ''c'') (CHR ''C'') (pl_cpu pl)
      @ option_frame (CHR ''m'') (CHR ''M'') (pl_memory pl) @ ?sel pl
      @ push_framed (CHR ''K'') [] @ ?tol pl" for pl
    by (simp add: placement_encoding_def option_frame_def)
  from eq ok have "pl_cpu a = pl_cpu b" "pl_memory a = pl_memory b"
    and sel: "?sel a @ push_framed (CHR ''K'') [] @ ?tol a = ?sel b @ push_framed (CHR ''K'') [] @ ?tol b"
    by (simp_all add: enc option_frame_append)
  moreover have "pl_node_selectors a = pl_node_selectors b"
    and tol: "push_framed (CHR ''K'') [] @ ?tol a = push_framed (CHR ''K'') [] @ ?tol b"
    using selectors.decode_list [OF _ _ _ _ sel] ok by (simp_all add: selectors.stops_def)
  moreover have "pl_tolerations a = pl_tolerations b"
    using framed_x.decode_list [OF _ _ _ _ tol [unfolded push_framed_append [OF short_Nil short_Nil],
        THEN conjunct2, THEN conjunct2]] ok
    by (simp add: framed_x.stops_def)
  ultimately show ?thesis by (simp add: Placement.equality)
qed

definition policy_item_ok :: "string \<times> ExecutionClass \<times> NodePolicy \<Rightarrow> bool" where
  "policy_item_ok x \<longleftrightarrow> short (fst x) \<and> placement_short (np_placement (snd (snd x)))
     \<and> np_class_override (snd (snd x)) = None"

definition policy_follow :: "u8 list \<Rightarrow> bool" where
  "policy_follow r \<longleftrightarrow> r = [] \<or> hd r = ch (CHR ''n'')"

definition timeout_bytes :: "duration option \<Rightarrow> u8 list" where
  "timeout_bytes t = (case t of None \<Rightarrow> 0 # le_bytes 16 (0 :: u128) | Some d \<Rightarrow> 1 # le_bytes 16 d)"

lemma timeout_bytes_append: "timeout_bytes t @ r = timeout_bytes u @ r' \<longleftrightarrow> t = u \<and> r = r'"
  by (cases t; cases u) (simp_all add: timeout_bytes_def)

definition placement_bytes :: "Placement option \<Rightarrow> u8 list" where
  "placement_bytes x =
     (case x of Some placement \<Rightarrow> push_framed (CHR ''L'') (placement_encoding placement) | None \<Rightarrow> [])"

lemma placement_bytes_append:
  assumes "placement_short x" "placement_short y" "policy_follow r" "policy_follow r'"
  shows "placement_bytes x @ r = placement_bytes y @ r' \<longleftrightarrow> x = y \<and> r = r'"
proof -
  have "push_framed (CHR ''L'') bs @ s \<noteq> t" if "policy_follow t" for bs s t
    using that by (auto simp: policy_follow_def push_framed_def)
  with assms show ?thesis
    by (cases x; cases y) (auto simp: placement_bytes_def push_framed_append placement_encoding_inj
        dest: sym [of r])
qed

interpretation policy_items: prefix_code policy_bytes policy_item_ok "CHR ''n''" policy_follow
proof
  fix x y r r'
  assume ok: "policy_item_ok x" "policy_item_ok y" and follow: "policy_follow r" "policy_follow r'"
    and eq: "policy_bytes x @ r = policy_bytes y @ r'"
  obtain n c p m d q where xy: "x = (n, c, p)" "y = (m, d, q)" by (cases x, cases y)
  have enc: "policy_bytes (name, cls, policy) @ s =
     push_framed (CHR ''n'') (as_bytes name)
     @ le_bytes 4 (np_retries policy)
     @ le_bytes 16 (bo_base (np_backoff policy))
     @ le_bytes 16 (bo_cap (np_backoff policy))
     @ le_bytes 8 (bo_factor (np_backoff policy))
     @ timeout_bytes (np_timeout policy)
     @ le_bytes 8 (cv_working_memory (np_cost policy))
     @ le_bytes 8 (cv_output_residency (np_cost policy))
     @ le_bytes 4 (cv_blocking_threads (np_cost policy))
     @ le_bytes 4 (cv_compute_threads (np_cost policy))
     @ execution_class_code cls # u8_from_bool (np_retained policy) # u8_from_bool (np_durable policy)
     # u8_from_bool (np_teardown policy) # placement_bytes (np_placement policy) @ s" for name cls policy s
    by (simp add: timeout_bytes_def placement_bytes_def)
  from eq ok follow show "x = y \<and> r = r'"
    unfolding xy enc
    by (auto simp: push_framed_append timeout_bytes_append placement_bytes_append policy_item_ok_def
        intro!: NodePolicy.equality Backoff.equality CostVector.equality)
qed (auto simp: policy_item_ok_def policy_follow_def)

text \<open>What the policy hash sees: the override is folded into the effective class.\<close>

definition policy_view :: "Pipeline \<Rightarrow> (string \<times> ExecutionClass \<times> NodePolicy) list" where
  "policy_view p = map (\<lambda>(name, cls, policy). (name, cls, policy\<lparr>np_class_override := None\<rparr>)) (policy_nodes p)"

definition policy_bounded :: "Pipeline \<Rightarrow> bool" where
  "policy_bounded p \<longleftrightarrow> (\<forall>x \<in> set (policy_view p). policy_item_ok x)"

lemma policy_encoding_view: "policy_encoding p = concat (map policy_bytes (policy_view p))"
proof -
  have "policy_bytes (name, cls, policy\<lparr>np_class_override := None\<rparr>) = policy_bytes (name, cls, policy)"
    for name cls policy
    by simp
  then have "map policy_bytes (policy_view p) = map policy_bytes (policy_nodes p)"
    unfolding policy_view_def map_map by (intro map_cong refl) (simp only: comp_def split_paired_all prod.case)
  then show ?thesis by (simp add: policy_encoding_def)
qed

lemma policy_encoding_exact:
  assumes "policy_bounded p" "policy_bounded q"
  shows "policy_encoding p = policy_encoding q \<longleftrightarrow> policy_view p = policy_view q"
proof
  have "policy_items.stops []" by (simp add: policy_items.stops_def policy_follow_def)
  from policy_items.decode_list [OF _ _ this this] assms
  show "policy_encoding p = policy_encoding q \<Longrightarrow> policy_view p = policy_view q"
    by (simp add: policy_encoding_view policy_bounded_def)
qed (simp add: policy_encoding_view)

definition canonical_bounded :: "Pipeline \<Rightarrow> bool" where
  "canonical_bounded p \<longleftrightarrow> structure_bounded p \<and> policy_bounded p
     \<and> short (structural_encoding p) \<and> short (policy_encoding p) \<and> short (env_allowlist_encoding p)
     \<and> (\<forall>v \<in> set (pp_env_allowlist p). short v)"

text \<open>
  C38. The canonical bytes of an artifact identify the pipeline up to what is assembled from it: they
  are equal exactly when the structure, every node's policy and effective class, and the capture
  allowlist are equal.
\<close>

theorem canonical_encoding_exact:
  assumes "canonical_bounded p" "canonical_bounded q"
  shows "canonical_encoding p = canonical_encoding q \<longleftrightarrow>
     structural_nodes p = structural_nodes q \<and> structural_edges p = structural_edges q
     \<and> policy_view p = policy_view q \<and> pp_env_allowlist p = pp_env_allowlist q"
proof -
  have stop: "framed_v.stops []" by (simp add: framed_v.stops_def)
  have "env_allowlist_encoding p = env_allowlist_encoding q \<longleftrightarrow> pp_env_allowlist p = pp_env_allowlist q"
    using framed_v.decode_list [OF _ _ stop stop, of "pp_env_allowlist p" "pp_env_allowlist q"] assms
    by (auto simp: env_allowlist_encoding_def canonical_bounded_def)
  moreover have "policy_encoding p = policy_encoding q \<longleftrightarrow> policy_view p = policy_view q"
    using assms by (simp add: policy_encoding_exact canonical_bounded_def)
  moreover have "structural_encoding p = structural_encoding q \<longleftrightarrow>
     structural_nodes p = structural_nodes q \<and> structural_edges p = structural_edges q"
    using assms by (intro structural_encoding_iff) (simp_all add: canonical_bounded_def)
  moreover have "canonical_encoding p = canonical_encoding q \<longleftrightarrow>
     structural_encoding p = structural_encoding q \<and> policy_encoding p = policy_encoding q
     \<and> env_allowlist_encoding p = env_allowlist_encoding q"
    using assms push_framed_append [of "env_allowlist_encoding p" "env_allowlist_encoding q"
        "CHR ''E''" "[]" "CHR ''E''" "[]"]
    by (simp add: canonical_encoding_def push_framed_append canonical_bounded_def)
  ultimately show ?thesis by simp
qed

definition tiny_flow :: "bool \<Rightarrow> Pipeline" where
  "tiny_flow r = build
     [RegSource ''a'' sample_task None (default_policy\<lparr>np_retained := r\<rparr>) Absent AllSucceeded []]"

theorem canonical_encoding_exact_witness:
  "canonical_encoding (tiny_flow True) \<noteq> canonical_encoding (tiny_flow False)"
proof -
  have nodes: "structural_nodes (tiny_flow r) = [(''a'', None, AllSucceeded)]"
    and edges: "structural_edges (tiny_flow r) = []" and allow: "pp_env_allowlist (tiny_flow r) = []"
    and view: "policy_view (tiny_flow r) = [(''a'', AwaitBound, default_policy\<lparr>np_retained := r\<rparr>)]" for r
    by (cases r; code_simp)+
  have "canonical_bounded (tiny_flow r)" for r
    by (simp add: canonical_bounded_def structure_bounded_def policy_bounded_def nodes edges allow view
        structural_encoding_def policy_encoding_view env_allowlist_encoding_def short_def push_framed_def
        policy_item_ok_def node_item_ok_def default_policy_def)
  from canonical_encoding_exact [OF this this, of True False] show ?thesis
    by (simp add: view default_policy_def)
qed

section \<open>The outcome of assembly\<close>

text \<open>
  Assembly of a built graph never panics.  It fails exactly on an invalid pipeline, then with
  every problem found; on a valid one it returns the artifact: the identities of all nodes in
  topological order, and the two hashes of the encodings with the algorithm version.
\<close>

theorem assemble_outcome:
  assumes "pipeline_wf p" "ranked p rank"
  shows "if pipeline_valid p
    then (\<exists>a. assemble p = Some (Inr a) \<and> length (aa_order a) = length (nodes_of p)
           \<and> set (aa_order a) = pn_id ` set (nodes_of p)
           \<and> aa_fingerprint a = compute_fingerprint p \<and> aa_canonical a = canonical_encoding p)
    else assemble p = Some (Inl (assembly_problems p)) \<and> assembly_problems p \<noteq> []"
proof (cases "pipeline_valid p")
  case True
  then have "assembly_problems p = []" by (simp add: problems_iff_valid)
  moreover obtain order where o: "execution_order_names p = Some order" "distinct order"
      "set order = names_of p"
    using execution_order_exists [OF assms] by blast
  moreover have "length order = length (nodes_of p)"
  proof -
    have "distinct (map pn_name (nodes_of p))" by (rule names_distinct [OF assms(1)])
    then have "length (nodes_of p) = card (names_of p)"
      unfolding names_of_def by (metis distinct_card length_map set_map)
    with o show ?thesis by (metis distinct_card)
  qed
  moreover have "from_name ` names_of p = pn_id ` set (nodes_of p)"
    using node_id_of_name [OF assms(1)] by (force simp: names_of_def)
  ultimately show ?thesis
    using True by (simp add: assemble_def precompute_execution_order_def Let_def)
qed (simp add: assemble_def problems_iff_valid)

theorem assemble_outcome_witness:
  "pipeline_valid (build sample_regs)
   \<and> (\<exists>a. assemble (build sample_regs) = Some (Inr a)
        \<and> length (aa_order a) = length (nodes_of (build sample_regs))
        \<and> set (aa_order a) = pn_id ` set (nodes_of (build sample_regs))
        \<and> aa_fingerprint a = compute_fingerprint (build sample_regs)
        \<and> aa_canonical a = canonical_encoding (build sample_regs))"
proof -
  have r: "ranked (build sample_regs) (reg_rank sample_regs)" by code_simp
  have v: "pipeline_valid (build sample_regs)"
    unfolding problems_iff_valid [symmetric] by code_simp
  with assemble_outcome [OF build_wf r] show ?thesis by simp
qed

end
