(* ===== verification/Resume.thy ===== *)
theory Resume
  imports Encoding Scratch
begin

text \<open>
  The resume core (\<open>crates/core/src/resume.rs\<close>): the gate that compares a prior run with this
  pipeline, and the plan of what runs again: the seed, its downward closure, and the upward demand of
  the values that cannot be rehydrated.  The existence probe is a parameter.
\<close>

section \<open>The prior run and the plan\<close>

record PriorNode =
  pr_terminal :: TerminalState
  pr_durable_reference :: "string option"
  pr_content_hash :: "string option"
  pr_originating_run :: string

record PriorRun =
  pr_structural_fingerprint :: u64
  pr_policy_hash :: u64
  pr_algorithm_version :: u64
  pr_tool_version :: string
  pr_nodes :: "(string, PriorNode) btree"

datatype ReferenceExistence = RefPresent | RefAbsent | Changed string | CannotDetermine

record PolicyDiff =
  pd_prior :: u64
  pd_current :: u64

datatype ResumeRefusal =
    StructuralMismatch u64 u64
  | AlgorithmVersionMismatch u64 u64
  | ToolVersionMismatch string string
  | DanglingReference string string
  | MutatedReference string string string string

record ResumePlan =
  rp_seed :: "string list"
  rp_must_run :: "string list"
  rp_satisfied :: "(string, string) btree"
  rp_rehydrate :: "(string, string) btree"
  rp_policy_diff :: "PolicyDiff option"

type_synonym probe = "string \<Rightarrow> string \<Rightarrow> string option \<Rightarrow> ReferenceExistence"

text \<open>The dash of the messages is one UTF-8 character of three bytes.\<close>

definition em_dash :: string where
  "em_dash = [CHR 0xE2, CHR 0x80, CHR 0x94]"

definition policy_diff_display :: "PolicyDiff \<Rightarrow> string" where
  "policy_diff_display d =
     ''policy hash diverged (prior fnv:'' @ hex16 (pd_prior d) @ '', current fnv:'' @ hex16 (pd_current d)
     @ ''); resume proceeds '' @ em_dash
     @ '' a policy divergence prints this diff and never refuses. For the per-node detail ''
     @ ''(which policy value moved), diff the graph artifact's effective policies.''"

definition refusal_display :: "ResumeRefusal \<Rightarrow> string" where
  "refusal_display r =
     (case r of
        StructuralMismatch prior current \<Rightarrow>
          ''resume refused: the prior run's structural fingerprint (fnv:'' @ hex16 prior
          @ '') differs from this binary's (fnv:'' @ hex16 current @ '') '' @ em_dash
          @ '' the graph changed since the prior run (a node was renamed, rewired, or added/removed). ''
          @ ''Resume cannot re-plan a different graph.''
      | AlgorithmVersionMismatch prior current \<Rightarrow>
          ''resume refused: cannot compare '' @ em_dash @ '' the prior run's fingerprint algorithm version (''
          @ show_nat (unat prior) @ '') is not comparable to this binary's ('' @ show_nat (unat current)
          @ ''). A fingerprint from a different algorithm version says nothing about topology.''
      | ToolVersionMismatch prior current \<Rightarrow>
          ''resume refused: the prior run was recorded by tool version `'' @ prior @ ''`, this binary is `''
          @ current @ ''` '' @ em_dash @ '' v1 makes no cross-tool-version resume promise.''
      | DanglingReference node reference \<Rightarrow>
          ''resume refused: node `'' @ node @ ''`'s durable output is gone '' @ em_dash
          @ '' its recorded reference `'' @ reference
          @ ''` no longer exists in storage (a dangling reference). The resume plan fails before any node executes.''
      | MutatedReference node reference expected actual \<Rightarrow>
          ''resume refused: node `'' @ node @ ''`'s durable output was overwritten out-of-band '' @ em_dash
          @ '' its recorded reference `'' @ reference @ ''` still exists but its content hash changed (recorded `''
          @ expected @ ''`, now `'' @ actual
          @ ''`). Resuming would rehydrate stale bytes, so the plan fails before any node executes.'')"

section \<open>The graph the plan walks\<close>

record Graph =
  gr_node_names :: "string list"
  gr_data_inputs :: "(string, string list) btree"
  gr_all_upstreams :: "(string, string list) btree"
  gr_is_durable :: "(string, bool) btree"

definition graph_add :: "Pipeline \<Rightarrow> PipelineNode \<Rightarrow> Graph \<Rightarrow> Graph" where
  "graph_add p node g =
     (let name = pn_name node;
          inputs = resolve_names p (data_upstreams node);
          ups = inputs @ resolve_names p (ordering_upstream_ids node)
      in \<lparr>gr_node_names = bs_insert name (gr_node_names g),
          gr_data_inputs = bt_insert name inputs (gr_data_inputs g),
          gr_all_upstreams = bt_insert name ups (gr_all_upstreams g),
          gr_is_durable = bt_insert name (np_durable (pn_policy node)) (gr_is_durable g)\<rparr>)"

definition graph_of :: "Pipeline \<Rightarrow> Graph" where
  "graph_of p = fold (graph_add p) (nodes_of p)
     \<lparr>gr_node_names = [], gr_data_inputs = [], gr_all_upstreams = [], gr_is_durable = []\<rparr>"

definition compute_seed :: "Pipeline \<Rightarrow> PriorRun \<Rightarrow> Graph \<Rightarrow> string list" where
  "compute_seed p prior g =
     (let teardown_covered = concat (bt_values (teardown_covered_nodes p)) in
      fold (\<lambda>name seed.
          let succeeded = (map_option pr_terminal (bt_get (pr_nodes prior) name) = Some Succeeded) in
          if \<not> succeeded \<or> name \<in> set teardown_covered then bs_insert name seed else seed)
        (gr_node_names g) [])"

section \<open>Demand\<close>

type_synonym demand = "string list \<times> (string, string) btree"

definition close_node :: "string \<times> string list \<Rightarrow> string list \<Rightarrow> string list" where
  "close_node = (\<lambda>(name, ups) must_run.
     if name \<notin> set must_run \<and> (\<exists>u \<in> set ups. u \<in> set must_run) then bs_insert name must_run else must_run)"

definition close_down :: "Graph \<Rightarrow> string list \<Rightarrow> string list" where
  "close_down g must_run = fold close_node (gr_all_upstreams g) must_run"

definition prior_success :: "PriorRun \<Rightarrow> string \<Rightarrow> PriorNode option" where
  "prior_success prior producer =
     (case bt_get (pr_nodes prior) producer of
        Some n \<Rightarrow> if pr_terminal n = Succeeded then Some n else None
      | None \<Rightarrow> None)"

definition durable_flag :: "Graph \<Rightarrow> string \<Rightarrow> bool" where
  "durable_flag g producer = (case bt_get (gr_is_durable g) producer of Some d \<Rightarrow> d | None \<Rightarrow> False)"

definition durable_ref :: "PriorRun \<Rightarrow> Graph \<Rightarrow> string \<Rightarrow> string option" where
  "durable_ref prior g producer =
     (if durable_flag g producer then Option.bind (prior_success prior producer) pr_durable_reference else None)"

definition expected_hash :: "PriorRun \<Rightarrow> Graph \<Rightarrow> string \<Rightarrow> string option" where
  "expected_hash prior g producer =
     (if durable_flag g producer then Option.bind (prior_success prior producer) pr_content_hash else None)"

text \<open>One demanded producer.\<close>

definition demand_producer ::
  "PriorRun \<Rightarrow> Graph \<Rightarrow> probe \<Rightarrow> string \<Rightarrow> demand \<Rightarrow> ResumeRefusal + demand" where
  "demand_producer prior g probe producer = (\<lambda>(must_run, rehydrate).
     if producer \<in> set must_run then Inr (must_run, rehydrate)
     else
       case durable_ref prior g producer of
         Some reference \<Rightarrow>
           (case probe producer reference (expected_hash prior g producer) of
              RefAbsent \<Rightarrow> Inl (DanglingReference producer reference)
            | Changed actual \<Rightarrow>
                Inl (MutatedReference producer reference
                  (case expected_hash prior g producer of Some h \<Rightarrow> h | None \<Rightarrow> []) actual)
            | _ \<Rightarrow> Inr (must_run, bt_insert producer reference rehydrate))
       | None \<Rightarrow> Inr (bs_insert producer must_run, bt_remove producer rehydrate))"

fun demand_producers ::
  "PriorRun \<Rightarrow> Graph \<Rightarrow> probe \<Rightarrow> string list \<Rightarrow> demand \<Rightarrow> ResumeRefusal + demand" where
  "demand_producers prior g probe [] d = Inr d"
| "demand_producers prior g probe (producer # producers) d =
     (case demand_producer prior g probe producer d of
        Inl e \<Rightarrow> Inl e
      | Inr d \<Rightarrow> demand_producers prior g probe producers d)"

definition inputs_of :: "Graph \<Rightarrow> string \<Rightarrow> string list" where
  "inputs_of g consumer = (case bt_get (gr_data_inputs g) consumer of Some inputs \<Rightarrow> inputs | None \<Rightarrow> [])"

text \<open>The demanders are a snapshot; their inputs are walked in order.\<close>

definition demand_round :: "PriorRun \<Rightarrow> Graph \<Rightarrow> probe \<Rightarrow> demand \<Rightarrow> ResumeRefusal + demand" where
  "demand_round prior g probe = (\<lambda>(must_run, rehydrate).
     let must_run = close_down g must_run; demanders = must_run in
     demand_producers prior g probe (concat (map (inputs_of g) demanders)) (must_run, rehydrate))"

text \<open>The fixpoint loop ends because the must-run set only grows inside the graph.\<close>

definition graph_universe :: "Graph \<Rightarrow> string set" where
  "graph_universe g = fst ` set (gr_all_upstreams g) \<union> (\<Union>kv \<in> set (gr_data_inputs g). set (snd kv))"

lemma finite_universe [simp]: "finite (graph_universe g)"
  by (simp add: graph_universe_def)

definition grown :: "Graph \<Rightarrow> string list \<Rightarrow> string list \<Rightarrow> bool" where
  "grown g m m' \<longleftrightarrow> set m \<subseteq> set m' \<and> set m' \<subseteq> set m \<union> graph_universe g
     \<and> (m' = m \<or> set m \<noteq> set m' \<and> length m < length m')"

lemma grown_refl [simp]: "grown g m m"
  by (simp add: grown_def)

lemma grown_trans: "grown g a b \<Longrightarrow> grown g b c \<Longrightarrow> grown g a c"
  unfolding grown_def by (elim conjE disjE) auto

lemma grown_insert: "x \<notin> set m \<Longrightarrow> x \<in> graph_universe g \<Longrightarrow> grown g m (bs_insert x m)"
proof -
  assume x: "x \<notin> set m" "x \<in> graph_universe g"
  then have "length (bs_insert x m) = Suc (length m)" by (simp add: insort_insert_insort)
  then show ?thesis unfolding grown_def bs_insert_set using x by auto
qed

lemma grown_same_length: "grown g m m' \<Longrightarrow> length m' = length m \<Longrightarrow> m' = m"
  by (auto simp: grown_def)

lemma grown_length: "grown g m m' \<Longrightarrow> length m \<le> length m'"
  by (auto simp: grown_def)

text \<open>A growth that ends where it began changed nothing on the way.\<close>

lemma grown_between: "grown g a b \<Longrightarrow> grown g b a \<Longrightarrow> b = a"
  using grown_length grown_same_length le_antisym by metis

lemma grown_close_down: "grown g m (close_down g m)"
proof -
  have "set kvs \<subseteq> set (gr_all_upstreams g) \<Longrightarrow> grown g m (fold close_node kvs m)" for kvs m
  proof (induction kvs arbitrary: m)
    case (Cons kv kvs)
    have "grown g m (close_node kv m)"
      using Cons.prems by (force simp: close_node_def graph_universe_def intro!: grown_insert split: prod.split)
    then show ?case using Cons by (auto intro: grown_trans)
  qed simp
  then show ?thesis by (simp add: close_down_def)
qed

lemma grown_demand_producer:
  assumes "demand_producer prior g probe x (m, r) = Inr (m', r')" "x \<in> graph_universe g"
  shows "grown g m m'"
  using assms grown_insert
  by (auto simp: demand_producer_def split: if_splits option.splits ReferenceExistence.splits)

lemma grown_demand_producers:
  "demand_producers prior g probe xs (m, r) = Inr (m', r') \<Longrightarrow> set xs \<subseteq> graph_universe g \<Longrightarrow> grown g m m'"
proof (induction xs arbitrary: m r)
  case (Cons x xs)
  then obtain m1 r1 where 1: "demand_producer prior g probe x (m, r) = Inr (m1, r1)"
    "demand_producers prior g probe xs (m1, r1) = Inr (m', r')"
    by (auto split: sum.splits)
  have "grown g m m1" using grown_demand_producer [OF 1(1)] Cons.prems(2) by simp
  moreover have "grown g m1 m'" using Cons.IH [OF 1(2)] Cons.prems(2) by simp
  ultimately show ?case by (rule grown_trans)
qed simp

lemma inputs_in_universe: "set (inputs_of g c) \<subseteq> graph_universe g"
proof (cases "bt_get (gr_data_inputs g) c")
  case (Some inputs)
  from bt_get_in_set [OF this] have "set inputs \<subseteq> graph_universe g" by (force simp: graph_universe_def)
  with Some show ?thesis by (simp add: inputs_of_def)
qed (simp add: inputs_of_def)

lemma grown_round:
  assumes "demand_round prior g probe (m, r) = Inr (m', r')"
  shows "grown g m m'"
proof -
  have "set (concat (map (inputs_of g) (close_down g m))) \<subseteq> graph_universe g"
    using inputs_in_universe by fastforce
  moreover have "demand_producers prior g probe (concat (map (inputs_of g) (close_down g m)))
      (close_down g m, r) = Inr (m', r')"
    using assms by (simp add: demand_round_def Let_def)
  ultimately have "grown g (close_down g m) m'" by (intro grown_demand_producers)
  with grown_close_down show ?thesis by (rule grown_trans)
qed

function demand_loop :: "PriorRun \<Rightarrow> Graph \<Rightarrow> probe \<Rightarrow> demand \<Rightarrow> ResumeRefusal + demand" where
  "demand_loop prior g probe (must_run, rehydrate) =
     (let before = length must_run in
      case demand_round prior g probe (must_run, rehydrate) of
        Inl e \<Rightarrow> Inl e
      | Inr (must_run', rehydrate') \<Rightarrow>
          if length must_run' = before then Inr (must_run', rehydrate')
          else demand_loop prior g probe (must_run', rehydrate'))"
  by pat_completeness auto

termination
proof (relation "measure (\<lambda>(prior, g, probe, must_run, rehydrate). card (graph_universe g - set must_run))")
  fix prior g probe must_run rehydrate before x y must_run' rehydrate'
  assume a: "before = length must_run" "demand_round prior g probe (must_run, rehydrate) = Inr y"
    "(must_run', rehydrate') = y" "length must_run' \<noteq> before"
  then have "grown g must_run must_run'" "must_run' \<noteq> must_run" using grown_round by blast+
  then have "graph_universe g - set must_run' \<subset> graph_universe g - set must_run" by (auto simp: grown_def)
  then show "((prior, g, probe, must_run', rehydrate'), (prior, g, probe, must_run, rehydrate))
      \<in> measure (\<lambda>(prior, g, probe, must_run, rehydrate). card (graph_universe g - set must_run))"
    by (simp add: psubset_card_mono)
qed simp

declare demand_loop.simps [simp del]

definition resolve_demand :: "PriorRun \<Rightarrow> Graph \<Rightarrow> string list \<Rightarrow> probe \<Rightarrow> ResumeRefusal + demand" where
  "resolve_demand prior g seed probe = demand_loop prior g probe (seed, [])"

definition mark_satisfied_from_prior :: "PriorRun \<Rightarrow> Graph \<Rightarrow> string list \<Rightarrow> (string, string) btree" where
  "mark_satisfied_from_prior prior g must_run =
     fold (\<lambda>name satisfied.
         if name \<in> set must_run then satisfied
         else
           case bt_get (pr_nodes prior) name of
             Some prior_node \<Rightarrow>
               if pr_terminal prior_node = Succeeded
               then bt_insert name (pr_originating_run prior_node) satisfied else satisfied
           | None \<Rightarrow> satisfied)
       (gr_node_names g) []"

definition plan_resume :: "Pipeline \<Rightarrow> PriorRun \<Rightarrow> string \<Rightarrow> probe \<Rightarrow> ResumeRefusal + ResumePlan" where
  "plan_resume p prior this_tool_version probe =
     (let fingerprint = compute_fingerprint p in
      if pr_algorithm_version prior \<noteq> fp_algorithm_version fingerprint
      then Inl (AlgorithmVersionMismatch (pr_algorithm_version prior) (fp_algorithm_version fingerprint))
      else if pr_tool_version prior \<noteq> this_tool_version
      then Inl (ToolVersionMismatch (pr_tool_version prior) this_tool_version)
      else if pr_structural_fingerprint prior \<noteq> fp_structural fingerprint
      then Inl (StructuralMismatch (pr_structural_fingerprint prior) (fp_structural fingerprint))
      else
        (let policy_diff = (if pr_policy_hash prior \<noteq> fp_policy fingerprint
               then Some \<lparr>pd_prior = pr_policy_hash prior, pd_current = fp_policy fingerprint\<rparr> else None);
             graph = graph_of p;
             seed = compute_seed p prior graph
         in case resolve_demand prior graph seed probe of
              Inl e \<Rightarrow> Inl e
            | Inr (must_run, rehydrate) \<Rightarrow>
                Inr \<lparr>rp_seed = seed, rp_must_run = must_run,
                  rp_satisfied = mark_satisfied_from_prior prior graph must_run,
                  rp_rehydrate = rehydrate, rp_policy_diff = policy_diff\<rparr>))"


section \<open>The must-run set is the least closed one\<close>

text \<open>
  The specification: the least set that holds the seed, every node with an upstream in it, and every
  producer a member demands whose value cannot be rehydrated.
\<close>

inductive_set must_rerun :: "PriorRun \<Rightarrow> Graph \<Rightarrow> string list \<Rightarrow> string set"
  for prior :: PriorRun and g :: Graph and seed :: "string list" where
  seeded: "n \<in> set seed \<Longrightarrow> n \<in> must_rerun prior g seed"
| downstream: "(n, ups) \<in> set (gr_all_upstreams g) \<Longrightarrow> u \<in> set ups \<Longrightarrow> u \<in> must_rerun prior g seed
    \<Longrightarrow> n \<in> must_rerun prior g seed"
| demanded: "c \<in> must_rerun prior g seed \<Longrightarrow> x \<in> set (inputs_of g c) \<Longrightarrow> durable_ref prior g x = None
    \<Longrightarrow> x \<in> must_rerun prior g seed"

definition rehydrate_ok ::
  "PriorRun \<Rightarrow> Graph \<Rightarrow> probe \<Rightarrow> string list \<Rightarrow> (string, string) btree \<Rightarrow> bool" where
  "rehydrate_ok prior g probe seed r \<longleftrightarrow> bt_ok r \<and> (\<forall>x ref. bt_get r x = Some ref \<longrightarrow>
     durable_ref prior g x = Some ref
     \<and> probe x ref (expected_hash prior g x) \<in> {RefPresent, CannotDetermine}
     \<and> (\<exists>c \<in> must_rerun prior g seed. x \<in> set (inputs_of g c)))"

definition refusal_ok :: "PriorRun \<Rightarrow> Graph \<Rightarrow> probe \<Rightarrow> string list \<Rightarrow> ResumeRefusal \<Rightarrow> bool" where
  "refusal_ok prior g probe seed e \<longleftrightarrow>
     (\<exists>x ref. durable_ref prior g x = Some ref
       \<and> (\<exists>c \<in> must_rerun prior g seed. x \<in> set (inputs_of g c))
       \<and> (e = DanglingReference x ref \<and> probe x ref (expected_hash prior g x) = RefAbsent
          \<or> (\<exists>h actual. e = MutatedReference x ref h actual
               \<and> probe x ref (expected_hash prior g x) = Changed actual)))"

lemma close_down_sound:
  "set m \<subseteq> must_rerun prior g seed \<Longrightarrow> set (close_down g m) \<subseteq> must_rerun prior g seed"
proof -
  have "set kvs \<subseteq> set (gr_all_upstreams g) \<Longrightarrow> set m \<subseteq> must_rerun prior g seed \<Longrightarrow>
      set (fold close_node kvs m) \<subseteq> must_rerun prior g seed" for kvs m
  proof (induction kvs arbitrary: m)
    case (Cons kv kvs)
    have "set (close_node kv m) \<subseteq> must_rerun prior g seed"
      using Cons.prems by (auto simp: close_node_def split: prod.split intro: must_rerun.downstream)
    then show ?case using Cons by simp
  qed simp
  then show "set m \<subseteq> must_rerun prior g seed \<Longrightarrow> set (close_down g m) \<subseteq> must_rerun prior g seed"
    by (simp add: close_down_def)
qed

lemma close_node_fix: "close_node (n, ups) m = m \<Longrightarrow> u \<in> set ups \<Longrightarrow> u \<in> set m \<Longrightarrow> n \<in> set m"
proof (rule ccontr)
  assume "close_node (n, ups) m = m" "u \<in> set ups" "u \<in> set m" "n \<notin> set m"
  then have "bs_insert n m = m" by (auto simp: close_node_def split: if_splits)
  then have "n \<in> set m" by (metis bs_insert_set insertI1)
  with \<open>n \<notin> set m\<close> show False ..
qed

lemma close_down_closed:
  assumes "close_down g m = m" "(n, ups) \<in> set (gr_all_upstreams g)" "u \<in> set ups" "u \<in> set m"
  shows "n \<in> set m"
proof -
  have grow: "set kvs \<subseteq> set (gr_all_upstreams g) \<Longrightarrow> grown g m (fold close_node kvs m)" for kvs m
  proof (induction kvs arbitrary: m)
    case (Cons kv kvs)
    have "grown g m (close_node kv m)"
      using Cons.prems by (force simp: close_node_def graph_universe_def intro!: grown_insert split: prod.split)
    then show ?case using Cons by (auto intro: grown_trans)
  qed simp
  have "set kvs \<subseteq> set (gr_all_upstreams g) \<Longrightarrow> fold close_node kvs m = m \<Longrightarrow> (n, ups) \<in> set kvs \<Longrightarrow>
      close_node (n, ups) m = m" for kvs
  proof (induction kvs)
    case (Cons kv kvs)
    have "grown g m (close_node kv m)" using grow [of "[kv]" m] Cons.prems(1) by simp
    moreover have "grown g (close_node kv m) m" using grow [of kvs "close_node kv m"] Cons.prems(1,2) by simp
    ultimately have "close_node kv m = m" by (rule grown_between)
    with Cons show ?case by auto
  qed simp
  from this [of "gr_all_upstreams g"] have "close_node (n, ups) m = m"
    using assms(1,2) by (simp add: close_down_def)
  then show ?thesis using assms(3,4) by (rule close_node_fix)
qed

lemma demand_producer_cases:
  obtains (running) "x \<in> set m" "demand_producer prior g probe x (m, r) = Inr (m, r)"
    | (rehydrated) ref where "x \<notin> set m" "durable_ref prior g x = Some ref"
        "probe x ref (expected_hash prior g x) \<in> {RefPresent, CannotDetermine}"
        "demand_producer prior g probe x (m, r) = Inr (m, bt_insert x ref r)"
    | (rerun) "x \<notin> set m" "durable_ref prior g x = None"
        "demand_producer prior g probe x (m, r) = Inr (bs_insert x m, bt_remove x r)"
    | (dangling) ref where "durable_ref prior g x = Some ref" "probe x ref (expected_hash prior g x) = RefAbsent"
        "demand_producer prior g probe x (m, r) = Inl (DanglingReference x ref)"
    | (mutated) ref h actual where "durable_ref prior g x = Some ref"
        "probe x ref (expected_hash prior g x) = Changed actual"
        "demand_producer prior g probe x (m, r) = Inl (MutatedReference x ref h actual)"
proof (cases "x \<in> set m")
  case True
  then show thesis by (intro running) (simp_all add: demand_producer_def)
next
  case False
  show thesis
  proof (cases "durable_ref prior g x")
    case None
    with False show thesis by (intro rerun) (simp_all add: demand_producer_def)
  next
    case (Some ref)
    show thesis
    proof (cases "probe x ref (expected_hash prior g x)")
      case RefPresent
      with False Some show thesis by (intro rehydrated [of ref]) (simp_all add: demand_producer_def)
    next
      case RefAbsent
      with False Some show thesis by (intro dangling [of ref]) (simp_all add: demand_producer_def)
    next
      case (Changed actual)
      with False Some show thesis by (intro mutated [of ref actual]) (simp_all add: demand_producer_def)
    next
      case CannotDetermine
      with False Some show thesis by (intro rehydrated [of ref]) (simp_all add: demand_producer_def)
    qed
  qed
qed

lemma demand_producer_sound:
  assumes "set m \<subseteq> must_rerun prior g seed" "rehydrate_ok prior g probe seed r"
    "c \<in> must_rerun prior g seed" "x \<in> set (inputs_of g c)"
  shows "case demand_producer prior g probe x (m, r) of
      Inl e \<Rightarrow> refusal_ok prior g probe seed e
    | Inr (m', r') \<Rightarrow> set m' \<subseteq> must_rerun prior g seed \<and> rehydrate_ok prior g probe seed r'"
proof (cases rule: demand_producer_cases [where x = x and m = m and r = r and prior = prior and g = g and probe = probe])
  case running
  then show ?thesis using assms by simp
next
  case (rehydrated ref)
  then show ?thesis using assms by (auto simp: rehydrate_ok_def)
next
  case rerun
  then show ?thesis using assms must_rerun.demanded by (auto simp: rehydrate_ok_def bt_simps)
next
  case (dangling ref)
  then show ?thesis using assms by (auto simp: refusal_ok_def)
next
  case (mutated ref h actual)
  then show ?thesis using assms by (auto simp: refusal_ok_def)
qed

lemma demand_producers_sound:
  assumes "set m \<subseteq> must_rerun prior g seed" "rehydrate_ok prior g probe seed r"
    "\<forall>x \<in> set xs. \<exists>c \<in> must_rerun prior g seed. x \<in> set (inputs_of g c)"
  shows "case demand_producers prior g probe xs (m, r) of
      Inl e \<Rightarrow> refusal_ok prior g probe seed e
    | Inr (m', r') \<Rightarrow> set m' \<subseteq> must_rerun prior g seed \<and> rehydrate_ok prior g probe seed r'"
  using assms
proof (induction xs arbitrary: m r)
  case (Cons x xs)
  from Cons.prems obtain c where c: "c \<in> must_rerun prior g seed" "x \<in> set (inputs_of g c)" by auto
  note step = demand_producer_sound [OF Cons.prems(1,2) c]
  show ?case
  proof (cases "demand_producer prior g probe x (m, r)")
    case (Inl e)
    then show ?thesis using step by simp
  next
    case (Inr d)
    obtain m1 r1 where d: "d = (m1, r1)" by fastforce
    show ?thesis using step Cons.IH [of m1 r1] Cons.prems(3) by (simp add: Inr d)
  qed
qed simp

lemma demand_producers_fix:
  assumes "demand_producers prior g probe xs (m, r) = Inr (m, r')" "bt_ok r" "set xs \<subseteq> graph_universe g"
  shows "(\<forall>x \<in> set xs. x \<in> set m \<or> durable_ref prior g x \<noteq> None \<and> bt_get r' x = durable_ref prior g x)
    \<and> (\<forall>x ref. x \<notin> set m \<longrightarrow> bt_get r x = Some ref \<longrightarrow> durable_ref prior g x = Some ref \<longrightarrow> bt_get r' x = Some ref)"
  using assms
proof (induction xs arbitrary: r)
  case (Cons x xs)
  then obtain m1 r1 where 1: "demand_producer prior g probe x (m, r) = Inr (m1, r1)"
    "demand_producers prior g probe xs (m1, r1) = Inr (m, r')"
    by (auto split: sum.splits)
  have "grown g m m1" using grown_demand_producer [OF 1(1)] Cons.prems(3) by simp
  moreover have "grown g m1 m" using grown_demand_producers [OF 1(2)] Cons.prems(3) by simp
  ultimately have m1: "m1 = m" by (rule grown_between)
  show ?case
  proof (cases rule: demand_producer_cases [where x = x and m = m and r = r and prior = prior and g = g and probe = probe])
    case running
    with 1 have "r1 = r" by simp
    with Cons.IH [of r] 1(2) m1 Cons.prems running show ?thesis by auto
  next
    case (rehydrated ref)
    with 1 have r1: "r1 = bt_insert x ref r" by simp
    have ih: "(\<forall>x \<in> set xs. x \<in> set m \<or> durable_ref prior g x \<noteq> None \<and> bt_get r' x = durable_ref prior g x)
      \<and> (\<forall>x ref. x \<notin> set m \<longrightarrow> bt_get r1 x = Some ref \<longrightarrow> durable_ref prior g x = Some ref \<longrightarrow> bt_get r' x = Some ref)"
      using Cons.IH [of r1] 1(2) m1 Cons.prems r1 by simp
    have get: "bt_get r1 y = Some rf" if "bt_get r y = Some rf" "durable_ref prior g y = Some rf" for y rf
      using that rehydrated(2) Cons.prems(2) by (auto simp: r1)
    have "bt_get r1 x = Some ref" using Cons.prems(2) by (simp add: r1)
    with ih rehydrated(1,2) have "bt_get r' x = durable_ref prior g x" by simp
    then show ?thesis using ih get rehydrated(2) by simp
  next
    case rerun
    with 1 m1 have "bs_insert x m = m" by simp
    with rerun show ?thesis by (metis bs_insert_set insertI1)
  qed (use 1 in simp_all)
qed simp

lemma round_inputs:
  "set (concat (map (inputs_of g) m)) \<subseteq> graph_universe g"
  using inputs_in_universe by fastforce

text \<open>A round that changes nothing leaves a closed set whose outside demands are all rehydrated.\<close>

lemma round_fix:
  assumes "demand_round prior g probe (m, r) = Inr (m, r')" "bt_ok r"
  shows "close_down g m = m"
    and "c \<in> set m \<Longrightarrow> x \<in> set (inputs_of g c) \<Longrightarrow>
      x \<in> set m \<or> durable_ref prior g x \<noteq> None \<and> bt_get r' x = durable_ref prior g x"
proof -
  have d: "demand_producers prior g probe (concat (map (inputs_of g) (close_down g m))) (close_down g m, r) = Inr (m, r')"
    using assms(1) by (simp add: demand_round_def Let_def)
  have "grown g (close_down g m) m" by (rule grown_demand_producers [OF d round_inputs])
  with grown_close_down [of g m] show same: "close_down g m = m" by (rule grown_between)
  show "c \<in> set m \<Longrightarrow> x \<in> set (inputs_of g c) \<Longrightarrow>
      x \<in> set m \<or> durable_ref prior g x \<noteq> None \<and> bt_get r' x = durable_ref prior g x"
    using demand_producers_fix [OF d [unfolded same] assms(2) round_inputs] by fastforce
qed

lemma demand_round_sound:
  assumes "set m \<subseteq> must_rerun prior g seed" "rehydrate_ok prior g probe seed r"
  shows "case demand_round prior g probe (m, r) of
      Inl e \<Rightarrow> refusal_ok prior g probe seed e
    | Inr (m', r') \<Rightarrow> set m' \<subseteq> must_rerun prior g seed \<and> rehydrate_ok prior g probe seed r'"
proof -
  have c: "set (close_down g m) \<subseteq> must_rerun prior g seed" using close_down_sound [OF assms(1)] .
  then have "\<forall>x \<in> set (concat (map (inputs_of g) (close_down g m))). \<exists>c \<in> must_rerun prior g seed. x \<in> set (inputs_of g c)"
    by fastforce
  from demand_producers_sound [OF c assms(2) this] show ?thesis by (simp add: demand_round_def Let_def)
qed

lemma demand_loop_exact:
  assumes "set seed \<subseteq> set m" "set m \<subseteq> must_rerun prior g seed" "rehydrate_ok prior g probe seed r"
  shows "case demand_loop prior g probe (m, r) of
      Inl e \<Rightarrow> refusal_ok prior g probe seed e
    | Inr (m', r') \<Rightarrow> set m' = must_rerun prior g seed \<and> rehydrate_ok prior g probe seed r'
        \<and> (\<forall>c \<in> set m'. \<forall>x \<in> set (inputs_of g c). x \<notin> set m' \<longrightarrow>
             durable_ref prior g x \<noteq> None \<and> bt_get r' x = durable_ref prior g x)"
  using assms
proof (induction prior g probe "(m, r)" arbitrary: m r rule: demand_loop.induct)
  case (1 prior g probe m r)
  note sound = demand_round_sound [OF 1(3,4)]
  show ?case
  proof (cases "demand_round prior g probe (m, r)")
    case (Inl e)
    with sound show ?thesis by (simp add: demand_loop.simps)
  next
    case (Inr d)
    obtain m1 r1 where d: "d = (m1, r1)" by fastforce
    have grow: "grown g m m1" using grown_round Inr d by blast
    have ok: "set m1 \<subseteq> must_rerun prior g seed" "rehydrate_ok prior g probe seed r1"
      using sound by (simp_all add: Inr d)
    show ?thesis
    proof (cases "length m1 = length m")
      case True
      then have m1: "m1 = m" using grow by (rule grown_same_length [rotated])
      have bt: "bt_ok r" using 1(4) by (simp add: rehydrate_ok_def)
      note fixp = round_fix [OF Inr [unfolded d m1] bt]
      have "must_rerun prior g seed \<subseteq> set m"
      proof
        fix n assume "n \<in> must_rerun prior g seed"
        then show "n \<in> set m"
        proof induction
          case (seeded n)
          then show ?case using 1(2) by blast
        next
          case (downstream n ups u)
          then show ?case using close_down_closed [OF fixp(1)] by blast
        next
          case (demanded c x)
          then show ?case using fixp(2) [of c x] by auto
        qed
      qed
      then have eq: "set m = must_rerun prior g seed" using 1(3) by blast
      have "demand_loop prior g probe (m, r) = Inr (m, r1)"
        by (subst demand_loop.simps) (simp add: Inr d m1)
      then show ?thesis using eq ok(2) fixp(2) by auto
    next
      case False
      have "demand_loop prior g probe (m, r) = demand_loop prior g probe (m1, r1)"
        by (subst demand_loop.simps) (simp add: Inr d False)
      moreover have "set seed \<subseteq> set m1" using 1(2) grow by (auto simp: grown_def)
      ultimately show ?thesis using 1(1) [OF refl Inr d [symmetric] False _ ok] d by simp
    qed
  qed
qed


section \<open>The seed and the marks\<close>

lemma set_fold_select:
  "set (fold (\<lambda>n s. if P n then bs_insert n s else s) xs s0) = set s0 \<union> {n \<in> set xs. P n}"
  by (induction xs arbitrary: s0) auto

text \<open>The seed: every node that did not succeed before, and every node a teardown covers.\<close>

lemma compute_seed_exact:
  "set (compute_seed p prior g) = {n \<in> set (gr_node_names g). prior_success prior n = None
     \<or> (\<exists>(t, covered) \<in> set (teardown_covered_nodes p). n \<in> set covered)}"
proof -
  have succ: "map_option pr_terminal (bt_get (pr_nodes prior) n) = Some Succeeded \<longleftrightarrow> prior_success prior n \<noteq> None" for n
    by (auto simp: prior_success_def split: option.split)
  show ?thesis
    unfolding compute_seed_def Let_def set_fold_select succ by (force simp: bt_values_def)
qed

lemma mark_satisfied_get:
  "bt_get (mark_satisfied_from_prior prior g must_run) n =
     (if n \<in> set (gr_node_names g) \<and> n \<notin> set must_run
      then map_option pr_originating_run (prior_success prior n) else None)"
proof -
  define f where "f = (\<lambda>name satisfied.
         if name \<in> set must_run then satisfied
         else case bt_get (pr_nodes prior) name of
             Some prior_node \<Rightarrow> if pr_terminal prior_node = Succeeded
               then bt_insert name (pr_originating_run prior_node) satisfied else satisfied
           | None \<Rightarrow> satisfied)"
  have step: "bt_ok s \<Longrightarrow> bt_ok (f x s) \<and> bt_get (f x s) n = (if x = n \<and> x \<notin> set must_run \<and> prior_success prior x \<noteq> None
      then map_option pr_originating_run (prior_success prior x) else bt_get s n)" for x s
    by (auto simp: f_def prior_success_def split: option.split)
  have "bt_ok s \<Longrightarrow> bt_get (fold f xs s) n = (if n \<in> set xs \<and> n \<notin> set must_run \<and> prior_success prior n \<noteq> None
      then map_option pr_originating_run (prior_success prior n) else bt_get s n)" for xs s
    by (induction xs arbitrary: s) (auto simp: step)
  from this [of "[]" "gr_node_names g"] show ?thesis by (auto simp: mark_satisfied_from_prior_def f_def)
qed

lemma resolve_demand_exact:
  "case resolve_demand prior g seed probe of
      Inl e \<Rightarrow> refusal_ok prior g probe seed e
    | Inr (m, r) \<Rightarrow> set m = must_rerun prior g seed \<and> rehydrate_ok prior g probe seed r
        \<and> (\<forall>c \<in> set m. \<forall>x \<in> set (inputs_of g c). x \<notin> set m \<longrightarrow>
             durable_ref prior g x \<noteq> None \<and> bt_get r x = durable_ref prior g x)"
proof -
  have "set seed \<subseteq> must_rerun prior g seed" by (auto intro: must_rerun.seeded)
  moreover have "rehydrate_ok prior g probe seed []" by (simp add: rehydrate_ok_def)
  ultimately show ?thesis unfolding resolve_demand_def by (rule demand_loop_exact [OF order_refl])
qed

section \<open>What a plan says\<close>

text \<open>
  C10. An accepted plan is exact: the must-run set is the least set that holds the seed and is closed
  under running what is downstream and producing again what cannot be rehydrated; every other node
  is marked satisfied with the run its success comes from; and every value a member demands from
  outside the set is rehydrated from its recorded reference.
\<close>

theorem resume_plan_exact:
  assumes "plan_resume p prior this_tool probe = Inr plan"
  shows "set (rp_must_run plan) = must_rerun prior (graph_of p) (compute_seed p prior (graph_of p))
    \<and> (\<forall>n. bt_get (rp_satisfied plan) n =
         (if n \<in> set (gr_node_names (graph_of p)) \<and> n \<notin> set (rp_must_run plan)
          then map_option pr_originating_run (prior_success prior n) else None))
    \<and> (\<forall>n \<in> set (gr_node_names (graph_of p)). n \<notin> set (rp_must_run plan) \<longrightarrow> prior_success prior n \<noteq> None)
    \<and> (\<forall>c \<in> set (rp_must_run plan). \<forall>x \<in> set (inputs_of (graph_of p) c). x \<notin> set (rp_must_run plan) \<longrightarrow>
         durable_ref prior (graph_of p) x \<noteq> None
         \<and> bt_get (rp_rehydrate plan) x = durable_ref prior (graph_of p) x)"
proof -
  define g where "g = graph_of p"
  define seed where "seed = compute_seed p prior g"
  obtain m r where d: "resolve_demand prior g seed probe = Inr (m, r)"
    and plan: "rp_must_run plan = m" "rp_satisfied plan = mark_satisfied_from_prior prior g m" "rp_rehydrate plan = r"
    using assms by (auto simp: plan_resume_def Let_def g_def seed_def split: if_splits sum.splits)
  note ex = resolve_demand_exact [where prior = prior and g = g and seed = seed and probe = probe, unfolded d sum.case prod.case]
  have "prior_success prior n \<noteq> None" if "n \<in> set (gr_node_names g)" "n \<notin> set m" for n
  proof
    assume "prior_success prior n = None"
    with that(1) have "n \<in> set seed" by (simp add: seed_def compute_seed_exact)
    then have "n \<in> set m" using ex must_rerun.seeded by blast
    with that(2) show False ..
  qed
  then show ?thesis
    unfolding plan mark_satisfied_get g_def [symmetric] seed_def [symmetric]
    using ex by (intro conjI) simp_all
qed

definition resume_node :: "string \<Rightarrow> node_id \<Rightarrow> DataEdge list \<Rightarrow> bool \<Rightarrow> PipelineNode" where
  "resume_node name i edges durable = \<lparr>pn_name = name, pn_id = i, pn_group = None, pn_edges = edges,
     pn_ordering_edges = [], pn_trigger_rule = AllSucceeded,
     pn_policy = default_policy\<lparr>np_durable := durable\<rparr>, pn_declared_class = AwaitBound,
     pn_durable_witness = Absent, pn_output_is_unit = False, pn_registration_count = 1,
     pn_stable_names = None\<rparr>"

text \<open>The node \<open>b\<close> reads \<open>a\<close> and failed; the value of \<open>a\<close> was durable in one pipeline, in memory in the other.\<close>

definition resume_pipe :: "bool \<Rightarrow> Pipeline" where
  "resume_pipe durable = \<lparr>pp_nodes = [(''a'', resume_node ''a'' 1 [] durable),
       (''b'', resume_node ''b'' 2 [\<lparr>de_upstream = 1, de_position = 0, de_mode = Shared\<rparr>] False)],
     pp_env_allowlist = [], pp_failure_mode = ContinueIndependent\<rparr>"

definition resume_prior :: "bool \<Rightarrow> PriorRun" where
  "resume_prior durable = \<lparr>pr_structural_fingerprint = fp_structural (compute_fingerprint (resume_pipe durable)),
     pr_policy_hash = 0, pr_algorithm_version = 1, pr_tool_version = ''1'', pr_nodes =
       [(''a'', \<lparr>pr_terminal = Succeeded, pr_durable_reference = Some ''ref'', pr_content_hash = None, pr_originating_run = ''r''\<rparr>),
        (''b'', \<lparr>pr_terminal = Failed, pr_durable_reference = None, pr_content_hash = None, pr_originating_run = ''r''\<rparr>)]\<rparr>"

lemma resume_gates:
  "fp_algorithm_version (compute_fingerprint p) = 1"
  by (simp add: compute_fingerprint_def FINGERPRINT_ALGORITHM_VERSION_def)

lemma resume_resolved:
  "resolve_demand (resume_prior d) (graph_of (resume_pipe d))
     (compute_seed (resume_pipe d) (resume_prior d) (graph_of (resume_pipe d))) (\<lambda>n r h. e) =
   (if d then
      (case e of
         RefAbsent \<Rightarrow> Inl (DanglingReference ''a'' ''ref'')
       | Changed actual \<Rightarrow> Inl (MutatedReference ''a'' ''ref'' [] actual)
       | _ \<Rightarrow> Inr ([''b''], [(''a'', ''ref'')]))
    else Inr ([''a'', ''b''], []))"
proof -
  have g: "graph_of (resume_pipe d) = \<lparr>gr_node_names = [''a'', ''b''],
     gr_data_inputs = [(''a'', []), (''b'', [''a''])], gr_all_upstreams = [(''a'', []), (''b'', [''a''])],
     gr_is_durable = [(''a'', d), (''b'', False)]\<rparr>" (is "_ = ?g")
    by (cases d) (simp only:, code_simp)+
  have t: "teardown_covered_nodes (resume_pipe d) = []"
    by (cases d) (simp only:, code_simp)+
  have s: "compute_seed (resume_pipe d) (resume_prior d) ?g = [''b'']"
    by (simp add: compute_seed_def t resume_prior_def bt_get_def bt_values_def insort_insert_key_def)
  note defs = demand_round_def demand_producer_def close_down_def close_node_def inputs_of_def bt_get_def
    insort_insert_key_def durable_ref_def expected_hash_def durable_flag_def prior_success_def resume_prior_def
  show ?thesis
    unfolding g s resolve_demand_def
    by (cases e; cases d) (simp_all add: demand_loop.simps defs bt_remove_def Let_def)
qed

theorem resume_plan_exact_witness:
  "\<exists>plan. plan_resume (resume_pipe False) (resume_prior False) ''1'' (\<lambda>n r h. RefPresent) = Inr plan
     \<and> must_rerun (resume_prior False) (graph_of (resume_pipe False))
         (compute_seed (resume_pipe False) (resume_prior False) (graph_of (resume_pipe False))) = {''a'', ''b''}"
proof -
  have gates: "pr_algorithm_version (resume_prior False) = 1" "pr_tool_version (resume_prior False) = ''1''"
    "pr_structural_fingerprint (resume_prior False) = fp_structural (compute_fingerprint (resume_pipe False))"
    by (simp_all add: resume_prior_def)
  obtain plan where p: "plan_resume (resume_pipe False) (resume_prior False) ''1'' (\<lambda>n r h. RefPresent) = Inr plan"
    "rp_must_run plan = [''a'', ''b'']"
    by (simp add: plan_resume_def Let_def gates resume_gates resume_resolved)
  from resume_plan_exact [OF p(1)] p show ?thesis by auto
qed

text \<open>
  A refused resume says why: the first gate that fails, in the order algorithm version, tool
  version, structure; or a value that a node which must run demands, whose recorded reference the
  probe found gone or changed.
\<close>

theorem resume_refusal_exact:
  assumes "plan_resume p prior this_tool probe = Inl e"
  shows "(let fp = compute_fingerprint p;
       ver = (pr_algorithm_version prior = fp_algorithm_version fp);
       tool = (pr_tool_version prior = this_tool);
       str = (pr_structural_fingerprint prior = fp_structural fp)
     in (case e of
          AlgorithmVersionMismatch a b \<Rightarrow> \<not> ver \<and> a = pr_algorithm_version prior \<and> b = fp_algorithm_version fp
        | ToolVersionMismatch a b \<Rightarrow> ver \<and> \<not> tool \<and> a = pr_tool_version prior \<and> b = this_tool
        | StructuralMismatch a b \<Rightarrow> ver \<and> tool \<and> \<not> str \<and> a = pr_structural_fingerprint prior \<and> b = fp_structural fp
        | _ \<Rightarrow> ver \<and> tool \<and> str
            \<and> refusal_ok prior (graph_of p) probe (compute_seed p prior (graph_of p)) e))"
proof -
  define g where "g = graph_of p"
  define seed where "seed = compute_seed p prior g"
  have dem: "refusal_ok prior g probe seed e" if "resolve_demand prior g seed probe = Inl e" for e
    using resolve_demand_exact [where prior = prior and g = g and seed = seed and probe = probe] by (simp add: that)
  moreover have "refusal_ok prior g probe seed e \<Longrightarrow>
      (\<exists>n r. e = DanglingReference n r) \<or> (\<exists>n r h a. e = MutatedReference n r h a)" for e
    by (auto simp: refusal_ok_def)
  ultimately show ?thesis
    using assms
    by (fastforce simp: plan_resume_def Let_def split: if_splits sum.splits simp flip: g_def seed_def)
qed

theorem resume_refusal_exact_witness:
  "plan_resume (resume_pipe True) (resume_prior True) ''1'' (\<lambda>n r h. RefAbsent) =
       Inl (DanglingReference ''a'' ''ref'')
     \<and> refusal_ok (resume_prior True) (graph_of (resume_pipe True)) (\<lambda>n r h. RefAbsent)
         (compute_seed (resume_pipe True) (resume_prior True) (graph_of (resume_pipe True)))
         (DanglingReference ''a'' ''ref'')"
proof -
  have gates: "pr_algorithm_version (resume_prior True) = 1" "pr_tool_version (resume_prior True) = ''1''"
    "pr_structural_fingerprint (resume_prior True) = fp_structural (compute_fingerprint (resume_pipe True))"
    by (simp_all add: resume_prior_def)
  have p: "plan_resume (resume_pipe True) (resume_prior True) ''1'' (\<lambda>n r h. RefAbsent) =
      Inl (DanglingReference ''a'' ''ref'')"
    by (simp add: plan_resume_def Let_def gates resume_gates resume_resolved)
  from resume_refusal_exact [OF p] p show ?thesis by (simp add: Let_def)
qed

section \<open>Two behaviours the documentation does not describe\<close>

text \<open>
  Four nodes: \<open>u\<close> keeps its value in memory, \<open>p\<close> is durable and reads \<open>u\<close>, \<open>c\<close> reads \<open>p\<close>, and
  \<open>d\<close> reads \<open>u\<close>; \<open>c\<close> and \<open>d\<close> failed.  The first round rehydrates \<open>p\<close> for \<open>c\<close> and runs \<open>u\<close> again for
  \<open>d\<close>; the second runs \<open>p\<close> again because of \<open>u\<close> and leaves it in the rehydrated map.
\<close>

definition overlap_graph :: Graph where
  "overlap_graph = \<lparr>gr_node_names = [''c'', ''d'', ''p'', ''u''],
     gr_data_inputs = [(''c'', [''p'']), (''d'', [''u'']), (''p'', [''u'']), (''u'', [])],
     gr_all_upstreams = [(''c'', [''p'']), (''d'', [''u'']), (''p'', [''u'']), (''u'', [])],
     gr_is_durable = [(''c'', False), (''d'', False), (''p'', True), (''u'', False)]\<rparr>"

definition overlap_prior :: PriorRun where
  "overlap_prior = \<lparr>pr_structural_fingerprint = 0, pr_policy_hash = 0, pr_algorithm_version = 1,
     pr_tool_version = ''1'', pr_nodes =
       [(''c'', \<lparr>pr_terminal = Failed, pr_durable_reference = None, pr_content_hash = None, pr_originating_run = ''r''\<rparr>),
        (''d'', \<lparr>pr_terminal = Failed, pr_durable_reference = None, pr_content_hash = None, pr_originating_run = ''r''\<rparr>),
        (''p'', \<lparr>pr_terminal = Succeeded, pr_durable_reference = Some ''ref'', pr_content_hash = None, pr_originating_run = ''r''\<rparr>),
        (''u'', \<lparr>pr_terminal = Succeeded, pr_durable_reference = None, pr_content_hash = None, pr_originating_run = ''r''\<rparr>)]\<rparr>"

lemma overlap_round:
  "demand_round overlap_prior overlap_graph (\<lambda>n r h. RefPresent) ([''c'', ''d''], []) =
     Inr ([''c'', ''d'', ''u''], [(''p'', ''ref'')])"
  "demand_round overlap_prior overlap_graph (\<lambda>n r h. RefPresent) ([''c'', ''d'', ''u''], [(''p'', ''ref'')]) =
     Inr ([''c'', ''d'', ''p'', ''u''], [(''p'', ''ref'')])"
  "demand_round overlap_prior overlap_graph (\<lambda>n r h. RefPresent) ([''c'', ''d'', ''p'', ''u''], [(''p'', ''ref'')]) =
     Inr ([''c'', ''d'', ''p'', ''u''], [(''p'', ''ref'')])"
  by code_simp+

lemma rehydrate_overlaps_must_run:
  "resolve_demand overlap_prior overlap_graph [''c'', ''d''] (\<lambda>n r h. RefPresent) =
     Inr ([''c'', ''d'', ''p'', ''u''], [(''p'', ''ref'')])"
  by (simp add: resolve_demand_def demand_loop.simps overlap_round)

text \<open>A success carried over from an earlier run is not a success for the next resume.\<close>

lemma satisfied_prior_is_seeded:
  assumes "bt_get (pr_nodes prior) n = Some node" "pr_terminal node = SatisfiedFromPrior"
    "n \<in> set (gr_node_names g)"
  shows "n \<in> set (compute_seed p prior g)"
  using assms by (simp add: compute_seed_exact prior_success_def)

end
