(* ===== verification/Timestamps.thy ===== *)
theory Timestamps
  imports Prelude
begin

text \<open>
  The wall-clock text of an event (\<open>rfc3339_now\<close> and \<open>rfc3339_from_unix_millis\<close> in
  \<open>crates/artifact/src/event_stream.rs\<close>).  The code turns a day number into a date by integer
  arithmetic over 400-year eras; the lemmas show that the result is the date reached by counting
  days from 1970 in the Gregorian calendar.
\<close>

section \<open>The code\<close>

definition pad_left :: "nat \<Rightarrow> string \<Rightarrow> string" where
  "pad_left n s = replicate (n - length s) CHR ''0'' @ s"

text \<open>\<open>{n:0w}\<close> for a number that is not negative.\<close>

definition padded :: "nat \<Rightarrow> int \<Rightarrow> string" where
  "padded w n = pad_left w (show_nat (nat n))"

definition i64_max :: int where "i64_max = 9223372036854775807"

definition civil_from_days :: "int \<Rightarrow> int \<times> int \<times> int" where
  "civil_from_days days =
     (let z = days + 719468;
          era = z div 146097;
          doe = z mod 146097;
          yoe = (doe - doe div 1460 + doe div 36524 - doe div 146096) div 365;
          year = yoe + era * 400;
          doy = doe - (365 * yoe + yoe div 4 - yoe div 100);
          mp = (5 * doy + 2) div 153;
          day = doy - (153 * mp + 2) div 5 + 1;
          month = (if mp < 10 then mp + 3 else mp - 9);
          year = (if month \<le> 2 then year + 1 else year)
      in (year, month, day))"

definition rfc3339_from_unix_millis :: "u128 \<Rightarrow> string" where
  "rfc3339_from_unix_millis unix_ms =
     (let secs = (if uint unix_ms div 1000 \<le> i64_max then uint unix_ms div 1000 else i64_max);
          millis = uint unix_ms mod 1000;
          days = secs div 86400;
          rem = secs mod 86400;
          (hour, minute, second) = (rem div 3600, rem mod 3600 div 60, rem mod 60);
          (year, month, day) = civil_from_days days
      in padded 4 year @ ''-'' @ padded 2 month @ ''-'' @ padded 2 day @ ''T''
         @ padded 2 hour @ '':'' @ padded 2 minute @ '':'' @ padded 2 second @ ''.'' @ padded 3 millis @ ''Z'')"

text \<open>The clock reading is the time since the epoch, or zero for a clock set before it.\<close>

definition rfc3339_now :: "u128 option \<Rightarrow> string" where
  "rfc3339_now since_epoch = rfc3339_from_unix_millis (case since_epoch of Some ms \<Rightarrow> ms | None \<Rightarrow> 0)"

section \<open>The calendar\<close>

type_synonym date = "int \<times> int \<times> int"

definition leap :: "int \<Rightarrow> bool" where
  "leap y \<longleftrightarrow> 4 dvd y \<and> (\<not> 100 dvd y \<or> 400 dvd y)"

definition month_len :: "int \<Rightarrow> int \<Rightarrow> int" where
  "month_len y m = (if m = 2 then (if leap y then 29 else 28) else if m \<in> {4, 6, 9, 11} then 30 else 31)"

fun valid_date :: "date \<Rightarrow> bool" where
  "valid_date (y, m, d) \<longleftrightarrow> 1 \<le> m \<and> m \<le> 12 \<and> 1 \<le> d \<and> d \<le> month_len y m"

fun next_day :: "date \<Rightarrow> date" where
  "next_day (y, m, d) =
     (if d < month_len y m then (y, m, d + 1) else if m < 12 then (y, m + 1, 1) else (y + 1, 1, 1))"

definition calendar_day :: "nat \<Rightarrow> date" where
  "calendar_day n = (next_day ^^ n) (1970, 1, 1)"

lemma valid_next_day: "valid_date x \<Longrightarrow> valid_date (next_day x)"
  by (cases x) (auto simp: month_len_def split: if_splits)

lemma valid_calendar_day: "valid_date (calendar_day n)"
  by (induction n) (auto simp: calendar_day_def valid_next_day simp del: next_day.simps, simp add: month_len_def)

section \<open>Day numbers\<close>

definition shifted_year :: "date \<Rightarrow> int" where
  "shifted_year = (\<lambda>(y, m, d). if m \<le> 2 then y - 1 else y)"

definition day_of_year :: "date \<Rightarrow> int" where
  "day_of_year = (\<lambda>(y, m, d). (153 * (if m \<le> 2 then m + 9 else m - 3) + 2) div 5 + d - 1)"

definition day_number :: "date \<Rightarrow> int" where
  "day_number x = 365 * shifted_year x + shifted_year x div 4 - shifted_year x div 100 + shifted_year x div 400
     + day_of_year x - 719468"

lemma month_cases:
  "1 \<le> (m :: int) \<Longrightarrow> m \<le> 12 \<Longrightarrow>
    m = 1 \<or> m = 2 \<or> m = 3 \<or> m = 4 \<or> m = 5 \<or> m = 6 \<or> m = 7 \<or> m = 8 \<or> m = 9 \<or> m = 10 \<or> m = 11 \<or> m = 12"
  by arith

lemma div_pred: "(k :: int) > 0 \<Longrightarrow> y div k = (y - 1) div k + (if k dvd y then 1 else 0)"
proof -
  assume k: "k > 0"
  define q r where "q = y div k" and "r = y mod k"
  have y: "y = k * q + r" and r: "0 \<le> r" "r < k" using k by (simp_all add: q_def r_def)
  have "(y - 1) div k = (if r = 0 then q - 1 else q)"
  proof (cases "r = 0")
    case True
    then have "y - 1 = k * (q - 1) + (k - 1)" using y by (simp add: algebra_simps)
    then show ?thesis using True k by (simp add: int_div_pos_eq)
  next
    case False
    then have "y - 1 = k * q + (r - 1)" "0 \<le> r - 1" "r - 1 < k" using y r by auto
    then show ?thesis using False by (simp add: int_div_pos_eq)
  qed
  moreover have "k dvd y \<longleftrightarrow> r = 0" by (simp add: r_def dvd_eq_mod_eq_0)
  ultimately show ?thesis by (simp add: q_def)
qed

lemma leap_days_arith:
  fixes q4 :: int
  assumes "q4 = p4 + (if a then 1 else 0)" "q100 = p100 + (if b then 1 else 0)" "q400 = p400 + (if c then 1 else 0)"
    and "b \<Longrightarrow> a" "c \<Longrightarrow> b"
  shows "q4 - q100 + q400 = p4 - p100 + p400 + (if a \<and> (\<not> b \<or> c) then 1 else 0)"
  using assms by (cases a; cases b; cases c) simp_all

lemma leap_days_step:
  "y div 4 - y div 100 + y div 400
    = (y - 1) div 4 - (y - 1) div 100 + (y - 1) div 400 + (if leap y then 1 else (0 :: int))"
proof -
  have "100 dvd y \<Longrightarrow> 4 dvd y" "400 dvd y \<Longrightarrow> 100 dvd y"
    by (rule dvd_trans [of _ 100]; simp) (rule dvd_trans [of _ 400]; simp)
  then show ?thesis
    unfolding leap_def by (intro leap_days_arith div_pred) simp_all
qed

lemma day_number_next_day:
  assumes "valid_date x"
  shows "day_number (next_day x) = day_number x + 1"
proof -
  obtain y m d where x: "x = (y, m, d)" by (cases x)
  show ?thesis
  proof (cases "d < month_len y m")
    case True
    then show ?thesis by (simp add: x day_number_def shifted_year_def day_of_year_def)
  next
    case False
    with assms have d: "d = month_len y m" and m: "1 \<le> m" "m \<le> 12" by (auto simp: x)
    show ?thesis
    proof (cases "m = 2")
      case True
      define L where "L = (\<lambda>z :: int. z div 4 - z div 100 + z div 400)"
      have "day_number (next_day x) = 365 * y + L y - 719468"
        using True False by (simp add: x L_def day_number_def shifted_year_def day_of_year_def)
      moreover have "day_number x = 365 * (y - 1) + L (y - 1) + (if leap y then 1 else 0) + 364 - 719468"
        using True by (simp add: x d L_def day_number_def shifted_year_def day_of_year_def month_len_def)
      moreover have "L y = L (y - 1) + (if leap y then 1 else 0)" using leap_days_step [of y] by (simp only: L_def)
      ultimately show ?thesis by simp
    next
      case False
      with \<open>\<not> d < month_len y m\<close> month_cases [OF m] show ?thesis
        unfolding x d day_number_def
        by (elim disjE) (simp_all add: shifted_year_def day_of_year_def month_len_def)
    qed
  qed
qed

lemma day_number_calendar_day: "day_number (calendar_day n) = int n"
proof (induction n)
  case 0
  then show ?case by (simp add: calendar_day_def day_number_def shifted_year_def day_of_year_def)
next
  case (Suc n)
  then show ?case
    using day_number_next_day [OF valid_calendar_day [of n]] by (simp add: calendar_day_def)
qed


section \<open>The era arithmetic inverts the day number\<close>

definition year_guess :: "int \<Rightarrow> int" where
  "year_guess doe = doe - doe div 1460 + doe div 36524 - doe div 146096"

definition year_start :: "int \<Rightarrow> int" where
  "year_start yoe = 365 * yoe + yoe div 4 - yoe div 100"

text \<open>A shifted year ends with the February of the next one.\<close>

definition shifted_len :: "int \<Rightarrow> int" where
  "shifted_len yoe = (if leap (yoe + 1) then 366 else 365)"

lemma year_guess_mono_step: "year_guess doe \<le> year_guess (doe + 1)"
proof -
  have arith: "d - a + b - c \<le> d + 1 - a' + b' - c'"
    if "a' = a + (if p then 1 else 0)" "b' = b + (if q then 1 else 0)" "c' = c + (if r then 1 else 0)" "r \<Longrightarrow> q"
    for a b c d a' b' c' :: int and p q r
    using that by (cases p; cases q; cases r) simp_all
  have step: "k > 0 \<Longrightarrow> (doe + 1) div k = doe div k + (if k dvd doe + 1 then 1 else 0)" for k
    using div_pred [of k "doe + 1"] by simp
  have dv: "36524 dvd doe + 1" if "146096 dvd doe + 1"
    by (rule dvd_trans [OF _ that]) simp
  show ?thesis
    unfolding year_guess_def by (rule arith [OF step step step dv]) simp_all
qed

lemma year_guess_mono: "a \<le> b \<Longrightarrow> year_guess a \<le> year_guess b"
proof (induction "nat (b - a)" arbitrary: b)
  case (Suc n)
  then have "year_guess a \<le> year_guess (b - 1)" by simp
  with year_guess_mono_step [of "b - 1"] show ?case by simp
qed simp

text \<open>At the first and the last day of each of the 400 years the guess names the year.\<close>

definition ends_ok :: "int \<Rightarrow> bool" where
  "ends_ok n \<longleftrightarrow> 365 * n \<le> year_guess (year_start n)
     \<and> year_guess (year_start n + shifted_len n - 1) \<le> 365 * n + 364"

lemmas ends_defs = ends_ok_def year_guess_def year_start_def shifted_len_def leap_def

lemma ends_0: "ends_ok 0" "ends_ok 1" "list_all ends_ok [2..99]"
  by (simp_all add: upto_rec_numeral ends_defs)

lemma ends_1: "list_all ends_ok [100..199]"
  by (simp add: upto_rec_numeral ends_defs)

lemma ends_2: "list_all ends_ok [200..299]"
  by (simp add: upto_rec_numeral ends_defs)

lemma ends_3: "list_all ends_ok [300..399]"
  by (simp add: upto_rec_numeral ends_defs)

lemma year_guess_ends:
  assumes "0 \<le> n" "n < 400"
  shows "ends_ok n"
proof -
  have "n = 0 \<or> n = 1 \<or> 2 \<le> n \<and> n \<le> 99 \<or> 100 \<le> n \<and> n \<le> 199 \<or> 200 \<le> n \<and> n \<le> 299 \<or> 300 \<le> n \<and> n \<le> 399"
    using assms by arith
  with ends_0 ends_1 ends_2 ends_3 show ?thesis
    unfolding list_all_iff set_upto Ball_def atLeastAtMost_iff by blast
qed

lemma year_of_day:
  assumes "0 \<le> yoe" "yoe < 400" "0 \<le> doy" "doy < shifted_len yoe"
  shows "year_guess (year_start yoe + doy) div 365 = yoe"
proof -
  have "ends_ok yoe" by (rule year_guess_ends [OF assms(1,2)])
  then have "365 * yoe \<le> year_guess (year_start yoe + doy)" "year_guess (year_start yoe + doy) \<le> 365 * yoe + 364"
    using assms year_guess_mono [of "year_start yoe" "year_start yoe + doy"]
      year_guess_mono [of "year_start yoe + doy" "year_start yoe + shifted_len yoe - 1"]
    by (simp_all add: ends_ok_def)
  then show ?thesis by (intro int_div_pos_eq [where r = "year_guess (year_start yoe + doy) - 365 * yoe"]) simp_all
qed


text \<open>\<open>year_start yoe + doy\<close> is the day of the era; from it the guess recovers the year and the day.\<close>

lemma civil_day_number:
  assumes "valid_date x"
  shows "civil_from_days (day_number x) = x"
proof -
  obtain y m d where x: "x = (y, m, d)" by (cases x)
  define sy where "sy = shifted_year x"
  define doy where "doy = day_of_year x"
  define era yoe where "era = sy div 400" and "yoe = sy mod 400"
  define mp where "mp = (if m \<le> 2 then m + 9 else m - 3)"
  have m: "1 \<le> m" "m \<le> 12" and d: "1 \<le> d" "d \<le> month_len y m" using assms by (simp_all add: x)
  have sy: "sy = 400 * era + yoe" and yoe: "0 \<le> yoe" "yoe < 400" by (simp_all add: era_def yoe_def)
  have doy: "doy = (153 * mp + 2) div 5 + d - 1" by (simp add: doy_def day_of_year_def x mp_def)
  have sy_y: "sy = (if m \<le> 2 then y - 1 else y)" by (simp add: sy_def shifted_year_def x)
  have leap: "leap (yoe + 1) = leap (sy + 1)"
  proof -
    have "k dvd 400 * era + (yoe + 1) \<longleftrightarrow> k dvd yoe + 1" if "k dvd 400" for k
      using that by (metis dvd_add_right_iff dvd_triv_left dvd_trans)
    then show ?thesis by (simp add: leap_def sy add.assoc)
  qed
  have doy_range: "0 \<le> doy" "doy < shifted_len yoe"
    using month_cases [OF m] d
    by (auto simp: doy mp_def month_len_def shifted_len_def leap sy_y split: if_splits)
  have divs: "sy div 4 = 100 * era + yoe div 4" "sy div 100 = 4 * era + yoe div 100" "sy div 400 = era"
    using yoe div_mult_self2 [of 4 yoe "100 * era"] div_mult_self2 [of 100 yoe "4 * era"]
    by (simp_all add: sy add.commute)
  have z: "day_number x + 719468 = 146097 * era + (year_start yoe + doy)"
    unfolding day_number_def sy_def [symmetric] doy_def [symmetric] divs by (simp add: sy year_start_def)
  have "0 \<le> year_start yoe" using yoe by (simp add: year_start_def)
  moreover have "year_start yoe + shifted_len yoe \<le> 146097"
  proof (cases "yoe = 399")
    case True
    then show ?thesis by (simp add: year_start_def shifted_len_def leap_def)
  next
    case False
    then have "yoe \<le> 398" "yoe div 4 \<le> 99" "0 \<le> yoe div 100" using yoe by simp_all
    then show ?thesis by (simp add: year_start_def shifted_len_def)
  qed
  ultimately have doe: "0 \<le> year_start yoe + doy" "year_start yoe + doy < 146097"
    using doy_range by simp_all
  have era: "(146097 * era + (year_start yoe + doy)) div 146097 = era"
    "(146097 * era + (year_start yoe + doy)) mod 146097 = year_start yoe + doy"
    using doe by simp_all
  note guess = year_of_day [OF yoe doy_range, unfolded year_guess_def]
  have mp: "(5 * doy + 2) div 153 = mp"
  proof (rule int_div_pos_eq)
    have "153 * mp \<le> 5 * doy + 2 \<and> 5 * doy + 2 < 153 * mp + 153"
      using month_cases [OF m] d by (elim disjE) (simp_all add: doy mp_def month_len_def split: if_splits)
    then show "0 \<le> 5 * doy + 2 - 153 * mp" "5 * doy + 2 - 153 * mp < 153" by simp_all
  qed simp
  have "civil_from_days (day_number x) =
      (let month = (if mp < 10 then mp + 3 else mp - 9); year = yoe + era * 400
       in (if month \<le> 2 then year + 1 else year, month, d))"
    unfolding civil_from_days_def Let_def z era guess
    by (simp add: mp doy [symmetric] year_start_def) (simp add: doy)
  then show ?thesis
    using m sy_y by (auto simp: x Let_def mp_def sy split: if_splits)
qed

lemma civil_calendar: "civil_from_days (int n) = calendar_day n"
  using civil_day_number [OF valid_calendar_day, of n] by (simp add: day_number_calendar_day)

text \<open>
  The wall-clock text of a millisecond count is the calendar date reached by counting that many
  days from the first of January 1970, followed by the time of day.
\<close>

theorem timestamp_calendar:
  assumes "uint ms div 1000 \<le> i64_max"
  shows "\<exists>n hour minute second millis y m d.
      uint ms = millis + 1000 * (second + 60 * (minute + 60 * (hour + 24 * int n)))
    \<and> 0 \<le> millis \<and> millis < 1000 \<and> 0 \<le> second \<and> second < 60 \<and> 0 \<le> minute \<and> minute < 60
    \<and> 0 \<le> hour \<and> hour < 24 \<and> calendar_day n = (y, m, d) \<and> 1 \<le> m \<and> m \<le> 12 \<and> 1 \<le> d \<and> d \<le> month_len y m
    \<and> rfc3339_from_unix_millis ms =
        padded 4 y @ ''-'' @ padded 2 m @ ''-'' @ padded 2 d @ ''T''
        @ padded 2 hour @ '':'' @ padded 2 minute @ '':'' @ padded 2 second @ ''.'' @ padded 3 millis @ ''Z''"
proof -
  define secs where "secs = uint ms div 1000"
  define millis where "millis = uint ms mod 1000"
  define rem where "rem = secs mod 86400"
  define n where "n = nat (secs div 86400)"
  have nonneg: "0 \<le> uint ms" by simp
  then have secs: "0 \<le> secs" by (simp add: secs_def pos_imp_zdiv_nonneg_iff)
  then have n: "int n = secs div 86400" by (simp add: n_def pos_imp_zdiv_nonneg_iff)
  obtain y m d where ymd: "calendar_day n = (y, m, d)" by (cases "calendar_day n")
  have valid: "1 \<le> m" "m \<le> 12" "1 \<le> d" "d \<le> month_len y m"
    using valid_calendar_day [of n] by (simp_all add: ymd)
  have rem: "0 \<le> rem" "rem < 86400" by (simp_all add: rem_def)
  have split: "rem = ss + 60 * (mi + 60 * hh)" if "rem = mm + 3600 * hh" "mm = ss + 60 * mi" for ss mi hh mm
    using that by simp
  have "rem = rem mod 60 + 60 * (rem mod 3600 div 60 + 60 * (rem div 3600))"
  proof (rule split)
    show "rem = rem mod 3600 + 3600 * (rem div 3600)" by simp
    show "rem mod 3600 = rem mod 60 + 60 * (rem mod 3600 div 60)"
      using mod_mod_cancel [of 60 3600 rem] mod_mult_div_eq [of "rem mod 3600" 60] by simp
  qed
  moreover have "secs = rem + 86400 * int n" unfolding n rem_def by simp
  moreover have "uint ms = millis + 1000 * secs" by (simp add: millis_def secs_def)
  ultimately have total: "uint ms = millis + 1000 * (rem mod 60 + 60 * (rem mod 3600 div 60 + 60 * (rem div 3600 + 24 * int n)))"
    by simp
  have hour: "0 \<le> rem div 3600" "rem div 3600 < 24" using rem by simp_all
  have minute: "0 \<le> rem mod 3600 div 60" "rem mod 3600 div 60 < 60" by simp_all
  have rendered: "rfc3339_from_unix_millis ms =
        padded 4 y @ ''-'' @ padded 2 m @ ''-'' @ padded 2 d @ ''T''
        @ padded 2 (rem div 3600) @ '':'' @ padded 2 (rem mod 3600 div 60) @ '':'' @ padded 2 (rem mod 60)
        @ ''.'' @ padded 3 millis @ ''Z''"
    using assms civil_calendar [of n, unfolded n ymd]
    by (simp add: rfc3339_from_unix_millis_def Let_def flip: secs_def millis_def rem_def)
  have small: "0 \<le> millis" "millis < 1000" "0 \<le> rem mod 60" "rem mod 60 < 60" by (simp_all add: millis_def)
  show ?thesis
    by (rule exI [of _ n], rule exI [of _ "rem div 3600"], rule exI [of _ "rem mod 3600 div 60"],
        rule exI [of _ "rem mod 60"], rule exI [of _ millis], rule exI [of _ y], rule exI [of _ m], rule exI [of _ d])
      (intro conjI total small minute hour ymd valid rendered)
qed

text \<open>The leap day of the year 2024.\<close>

theorem timestamp_calendar_witness:
  "\<exists>n. calendar_day n = (2024, 2, 29) \<and> rfc3339_from_unix_millis 1709214307500 = ''2024-02-29T13:45:07.500Z''"
proof -
  have rendered: "rfc3339_from_unix_millis 1709214307500 = ''2024-02-29T13:45:07.500Z''" by code_simp
  have "uint (1709214307500 :: u128) div 1000 \<le> i64_max" by (simp add: i64_max_def)
  from timestamp_calendar [OF this] obtain n hour minute second millis y m d where
    "calendar_day n = (y, m, d)" "1 \<le> m" "m \<le> 12" "1 \<le> d" "d \<le> month_len y m"
    "uint (1709214307500 :: u128) = millis + 1000 * (second + 60 * (minute + 60 * (hour + 24 * int n)))"
    "0 \<le> millis" "millis < 1000" "0 \<le> second" "second < 60" "0 \<le> minute" "minute < 60" "0 \<le> hour" "hour < 24"
    by blast
  moreover have "uint (1709214307500 :: u128) = 1709214307500" by simp
  ultimately have total: "1709214307500 = millis + 1000 * (second + 60 * (minute + 60 * (hour + 24 * int n)))"
    and "0 \<le> millis" "millis < 1000" "0 \<le> second" "second < 60" "0 \<le> minute" "minute < 60" "0 \<le> hour" "hour < 24"
    by (simp_all only:)
  then have "1709214307500 = 86400000 * int n + (millis + 1000 * (second + 60 * (minute + 60 * hour)))"
    "0 \<le> millis + 1000 * (second + 60 * (minute + 60 * hour))"
    "millis + 1000 * (second + 60 * (minute + 60 * hour)) < 86400000"
    by (simp_all only: algebra_simps)
  from int_div_pos_eq [OF this] have "int n = 19782" by simp
  then have "n = 19782" by simp
  moreover have "civil_from_days 19782 = (2024, 2, 29)" by code_simp
  ultimately have "calendar_day n = (2024, 2, 29)" using civil_calendar [of n] by (simp only: of_nat_numeral)
  with rendered show ?thesis by blast
qed

end
