(* ===== verification/Readiness.thy ===== *)
theory Readiness
  imports Encoding
begin

text \<open>
  The readiness tracker (\<open>crates/core/src/readiness.rs\<close>): a countdown of unfinished upstreams per
  node, the trigger-rule table evaluated when the countdown reaches zero, and the cascade of
  propagated terminal states, driven by a work stack.
\<close>

section \<open>The trigger-rule table\<close>

datatype StateClass = SuccessClass | SkipClass | FailureClass | StopClass

fun class_of :: "TerminalState \<Rightarrow> StateClass" where
  "class_of Succeeded = SuccessClass"
| "class_of SatisfiedFromPrior = SuccessClass"
| "class_of Skipped = SkipClass"
| "class_of UpstreamSkipped = SkipClass"
| "class_of Failed = FailureClass"
| "class_of TimedOut = FailureClass"
| "class_of Abandoned = FailureClass"
| "class_of UpstreamFailed = FailureClass"
| "class_of Cancelled = StopClass"

datatype RuleOutcome = Fires | Propagate TerminalState

text \<open>The loop's three flags: any non-success, all of them skips, all of them stops.\<close>

fun scan_step :: "TerminalState \<Rightarrow> bool \<times> bool \<times> bool \<Rightarrow> bool \<times> bool \<times> bool" where
  "scan_step state (any_non_success, all_skip, all_stop) =
     (case class_of state of
        SuccessClass \<Rightarrow> (any_non_success, all_skip, all_stop)
      | SkipClass \<Rightarrow> (True, all_skip, False)
      | StopClass \<Rightarrow> (True, False, all_stop)
      | FailureClass \<Rightarrow> (True, False, False))"

definition eval_all_succeeded :: "TerminalState list \<Rightarrow> RuleOutcome" where
  "eval_all_succeeded upstreams =
     (let (any_non_success, all_skip, all_stop) = fold scan_step upstreams (False, True, True) in
      if \<not> any_non_success then Fires
      else if all_skip then Propagate UpstreamSkipped
      else if all_stop then Propagate Cancelled
      else Propagate UpstreamFailed)"

definition eval_any_failed :: "TerminalState list \<Rightarrow> RuleOutcome" where
  "eval_any_failed upstreams =
     (if list_ex (\<lambda>s. class_of s = FailureClass) upstreams then Fires else Propagate Skipped)"

fun evaluate_rule :: "TriggerRule \<Rightarrow> TerminalState list \<Rightarrow> RuleOutcome" where
  "evaluate_rule AllSucceeded upstreams = eval_all_succeeded upstreams"
| "evaluate_rule AllTerminal upstreams = Fires"
| "evaluate_rule AnyFailed upstreams = eval_any_failed upstreams"

section \<open>The tracker\<close>

datatype Decision =
    Ready node_id
  | PropagatedTerminal node_id TerminalState node_id

record NodeState =
  ns_id :: node_id
  ns_rule :: TriggerRule
  ns_remaining :: nat
  ns_upstream_states :: "(node_id \<times> TerminalState) list"
  ns_decided :: "TerminalState option"
  ns_dependents :: "string list"

type_synonym node_states = "(string, NodeState) btree"

record ReadinessTracker =
  rt_nodes :: node_states
  rt_initial_ready :: "node_id list"
  rt_pending :: nat

definition distinct_upstream_count :: "Pipeline \<Rightarrow> DataEdge list \<Rightarrow> nat" where
  "distinct_upstream_count p edges =
     u32_from_usize (length (fold (\<lambda>i seen.
       if node_by_id p i \<noteq> None \<and> i \<notin> set seen then seen @ [i] else seen) (map de_upstream edges) []))"

text \<open>Structural and run-level ordering upstreams of a node, by name, without duplicates.\<close>

definition ordering_upstreams :: "Pipeline \<Rightarrow> (string, string list) btree \<Rightarrow> string \<Rightarrow> string list" where
  "ordering_upstreams p run_ord name =
     (let structural = (case node_by_id p (from_name name) of
            None \<Rightarrow> [] | Some node \<Rightarrow> resolve_names p (ordering_upstream_ids node));
          run_level = filter (\<lambda>up. node_by_id p (from_name up) \<noteq> None)
            (case bt_get run_ord name of None \<Rightarrow> [] | Some ups \<Rightarrow> ups)
      in sort_dedup (structural @ run_level))"

definition tracked_nodes :: "Pipeline \<Rightarrow> PipelineNode list" where
  "tracked_nodes p = filter (\<lambda>n. \<not> is_teardown n) (nodes_of p)"

definition initial_state ::
  "Pipeline \<Rightarrow> AssemblyArtifact \<Rightarrow> (string, string list) btree \<Rightarrow> PipelineNode \<Rightarrow> NodeState" where
  "initial_state p artifact run_ord node =
     (let data_remaining = (case remaining_dependency_count artifact (pn_id node) of
            Some c \<Rightarrow> c | None \<Rightarrow> distinct_upstream_count p (pn_edges node));
          ordering_remaining = u32_from_usize (length (ordering_upstreams p run_ord (pn_name node)))
      in \<lparr>ns_id = pn_id node, ns_rule = pn_trigger_rule node,
          ns_remaining = u32_saturating_add data_remaining ordering_remaining,
          ns_upstream_states = [], ns_decided = None, ns_dependents = []\<rparr>)"

definition upstream_names :: "Pipeline \<Rightarrow> (string, string list) btree \<Rightarrow> PipelineNode \<Rightarrow> string list" where
  "upstream_names p run_ord node =
     sort_dedup (resolve_names p (data_upstreams node) @ ordering_upstreams p run_ord (pn_name node))"

definition push_dependent :: "string \<Rightarrow> NodeState \<Rightarrow> NodeState" where
  "push_dependent name s = s\<lparr>ns_dependents := ns_dependents s @ [name]\<rparr>"

definition add_dependents ::
  "Pipeline \<Rightarrow> (string, string list) btree \<Rightarrow> PipelineNode \<Rightarrow> node_states \<Rightarrow> node_states" where
  "add_dependents p run_ord node nodes =
     fold (\<lambda>up. bt_modify up (push_dependent (pn_name node))) (upstream_names p run_ord node) nodes"

definition new_with_ordering ::
  "Pipeline \<Rightarrow> AssemblyArtifact \<Rightarrow> (string, string list) btree \<Rightarrow> ReadinessTracker" where
  "new_with_ordering p artifact run_ord =
     (let nodes = fold (\<lambda>n. bt_insert (pn_name n) (initial_state p artifact run_ord n)) (tracked_nodes p) [];
          nodes = fold (add_dependents p run_ord) (tracked_nodes p) nodes;
          nodes = map (\<lambda>(k, s). (k, s\<lparr>ns_dependents := sort_dedup (ns_dependents s)\<rparr>)) nodes
      in \<lparr>rt_nodes = nodes,
          rt_initial_ready = map ns_id (filter (\<lambda>s. ns_remaining s = 0) (bt_values nodes)),
          rt_pending = length nodes\<rparr>)"

definition tracker_new :: "Pipeline \<Rightarrow> AssemblyArtifact \<Rightarrow> ReadinessTracker" where
  "tracker_new p artifact = new_with_ordering p artifact []"

definition node_state :: "ReadinessTracker \<Rightarrow> node_id \<Rightarrow> NodeState option" where
  "node_state t i = List.find (\<lambda>s. ns_id s = i) (bt_values (rt_nodes t))"

definition remaining_dependencies :: "ReadinessTracker \<Rightarrow> node_id \<Rightarrow> nat option" where
  "remaining_dependencies t i = map_option ns_remaining (node_state t i)"

definition pending_count :: "ReadinessTracker \<Rightarrow> nat" where
  "pending_count t = rt_pending t"

definition is_decided :: "ReadinessTracker \<Rightarrow> node_id \<Rightarrow> bool" where
  "is_decided t i = (case node_state t i of Some s \<Rightarrow> ns_decided s \<noteq> None | None \<Rightarrow> False)"

definition terminal_state_of :: "ReadinessTracker \<Rightarrow> node_id \<Rightarrow> TerminalState option" where
  "terminal_state_of t i = (case node_state t i of Some s \<Rightarrow> ns_decided s | None \<Rightarrow> None)"

definition name_of :: "node_states \<Rightarrow> node_id \<Rightarrow> string option" where
  "name_of nodes i = map_option fst (List.find (\<lambda>(_, s). ns_id s = i) nodes)"

definition origin_in :: "NodeState \<Rightarrow> TerminalState \<Rightarrow> node_id \<Rightarrow> node_id" where
  "origin_in dep state fallback =
     (case List.find (\<lambda>(_, s). class_of s = class_of state) (ns_upstream_states dep) of
        Some (origin, _) \<Rightarrow> origin
      | None \<Rightarrow>
          (case List.find (\<lambda>(_, s). class_of s \<noteq> SuccessClass) (ns_upstream_states dep) of
             Some (origin, _) \<Rightarrow> origin
           | None \<Rightarrow> (case ns_upstream_states dep of (origin, _) # _ \<Rightarrow> origin | [] \<Rightarrow> fallback)))"

definition origin_for :: "node_states \<Rightarrow> string \<Rightarrow> TerminalState \<Rightarrow> node_id \<Rightarrow> node_id" where
  "origin_for nodes dep_name state fallback =
     (case bt_get nodes dep_name of
        None \<Rightarrow> fallback
      | Some dep \<Rightarrow> origin_in dep state fallback)"

section \<open>Notification\<close>

definition inform :: "node_id \<Rightarrow> TerminalState \<Rightarrow> NodeState \<Rightarrow> NodeState" where
  "inform terminated term_state dep =
     dep\<lparr>ns_upstream_states := ns_upstream_states dep @ [(terminated, term_state)],
         ns_remaining := ns_remaining dep - 1\<rparr>"

type_synonym work = "(node_id \<times> TerminalState) list"

text \<open>One dependent of a node that terminated; the head of the work list is the top of the stack.\<close>

definition notify_dependent ::
  "node_id \<Rightarrow> TerminalState \<Rightarrow> string \<Rightarrow> node_states \<times> work \<times> Decision list
     \<Rightarrow> node_states \<times> work \<times> Decision list" where
  "notify_dependent terminated term_state dep_name = (\<lambda>(nodes, queue, decisions).
     (case bt_get nodes dep_name of
        None \<Rightarrow> (nodes, queue, decisions)
      | Some dep \<Rightarrow>
          if ns_decided dep \<noteq> None then (nodes, queue, decisions)
          else
            (let nodes = bt_modify dep_name (inform terminated term_state) nodes in
             case bt_get nodes dep_name of
               None \<Rightarrow> (nodes, queue, decisions)
             | Some dep \<Rightarrow>
                 if ns_remaining dep \<noteq> 0 then (nodes, queue, decisions)
                 else
                   (case evaluate_rule (ns_rule dep) (map snd (ns_upstream_states dep)) of
                      Fires \<Rightarrow> (nodes, queue, decisions @ [Ready (ns_id dep)])
                    | Propagate propagated \<Rightarrow>
                        (nodes, (ns_id dep, propagated) # queue,
                         decisions @ [PropagatedTerminal (ns_id dep) propagated
                                        (origin_for nodes dep_name propagated (ns_id dep))])))))"

definition undecided_count :: "node_states \<Rightarrow> nat" where
  "undecided_count nodes = length (filter (\<lambda>(k, s). ns_decided s = None) nodes)"

lemma undecided_count_simps [simp]:
  "undecided_count [] = 0"
  "undecided_count ((k, s) # m) = (if ns_decided s = None then Suc (undecided_count m) else undecided_count m)"
  by (simp_all add: undecided_count_def)

lemma undecided_count_modify:
  assumes "\<And>s. ns_decided (f s) = None \<longleftrightarrow> ns_decided s = None"
  shows "undecided_count (bt_modify k f nodes) = undecided_count nodes"
proof (induction nodes)
  case (Cons kv nodes)
  then show ?case using assms [of "snd kv"] by (cases kv) (auto simp: bt_modify_def)
qed (simp add: bt_modify_def)

lemma undecided_count_decide_le:
  "undecided_count (bt_modify k (ns_decided_update (\<lambda>_. Some x)) nodes) \<le> undecided_count nodes"
  by (induction nodes) (auto simp: bt_modify_def)

lemma undecided_count_decide:
  "bt_get nodes k = Some s \<Longrightarrow> ns_decided s = None \<Longrightarrow>
     undecided_count (bt_modify k (ns_decided_update (\<lambda>_. Some x)) nodes) < undecided_count nodes"
proof (induction nodes)
  case Nil
  then show ?case by simp
next
  case (Cons kv nodes)
  obtain k' s' where kv: "kv = (k', s')" by (cases kv)
  show ?case
    using Cons kv undecided_count_decide_le [of k x nodes]
    by (cases "k' = k") (auto simp: bt_modify_def bt_get_def)
qed

lemma notify_dependents_count:
  "undecided_count (fst (fold (notify_dependent i st) deps (nodes, q, ds))) = undecided_count nodes"
proof (induction deps arbitrary: nodes q ds)
  case Nil
  then show ?case by simp
next
  case (Cons d deps)
  obtain nodes' q' ds' where r: "notify_dependent i st d (nodes, q, ds) = (nodes', q', ds')"
    by (cases "notify_dependent i st d (nodes, q, ds)")
  then have "undecided_count nodes' = undecided_count nodes"
    by (auto simp: notify_dependent_def Let_def inform_def undecided_count_modify
        split: option.splits if_splits RuleOutcome.splits)
  with Cons r show ?case by simp
qed

function notify_loop ::
  "node_states \<Rightarrow> nat \<Rightarrow> work \<Rightarrow> Decision list \<Rightarrow> node_states \<times> nat \<times> Decision list" where
  "notify_loop nodes pending queue decisions =
     (case queue of
        [] \<Rightarrow> (nodes, pending, decisions)
      | (terminated, term_state) # queue' \<Rightarrow>
          (case name_of nodes terminated of
             None \<Rightarrow> notify_loop nodes pending queue' decisions
           | Some name \<Rightarrow>
               (case bt_get nodes name of
                  None \<Rightarrow> notify_loop nodes pending queue' decisions
                | Some n \<Rightarrow>
                    if ns_decided n \<noteq> None then notify_loop nodes pending queue' decisions
                    else
                      (case fold (notify_dependent terminated term_state) (ns_dependents n)
                              (bt_modify name (ns_decided_update (\<lambda>_. Some term_state)) nodes,
                               queue', decisions) of
                         (nodes', queue'', decisions') \<Rightarrow>
                           notify_loop nodes' (pending - 1) queue'' decisions'))))"
  by pat_completeness auto
termination
  apply (relation "measures [\<lambda>(nodes, _, _, _). undecided_count nodes, \<lambda>(_, _, queue, _). length queue]")
  apply simp_all
  subgoal for nodes queue decisions entry queue' i st name n nodes' rest
    using undecided_count_decide [of nodes name n st]
      notify_dependents_count [of i st "ns_dependents n"
        "bt_modify name (ns_decided_update (\<lambda>_. Some st)) nodes" queue' decisions]
    by (metis fst_conv)
  done

declare notify_loop.simps [simp del]

definition notify_terminal ::
  "node_id \<Rightarrow> TerminalState \<Rightarrow> ReadinessTracker \<Rightarrow> ReadinessTracker \<times> Decision list" where
  "notify_terminal node state t =
     (case notify_loop (rt_nodes t) (rt_pending t) [(node, state)] [] of
        (nodes, pending, decisions) \<Rightarrow> (t\<lparr>rt_nodes := nodes, rt_pending := pending\<rparr>, decisions))"

section \<open>The rule table depends on the classes only\<close>

fun rule_outcome :: "TriggerRule \<Rightarrow> StateClass set \<Rightarrow> RuleOutcome" where
  "rule_outcome AllSucceeded cs =
     (if cs \<subseteq> {SuccessClass} then Fires
      else if cs \<subseteq> {SuccessClass, SkipClass} then Propagate UpstreamSkipped
      else if cs \<subseteq> {SuccessClass, StopClass} then Propagate Cancelled
      else Propagate UpstreamFailed)"
| "rule_outcome AllTerminal cs = Fires"
| "rule_outcome AnyFailed cs = (if FailureClass \<in> cs then Fires else Propagate Skipped)"

lemma scan_result:
  "fold scan_step upstreams (a, k, t) =
     (a \<or> \<not> class_of ` set upstreams \<subseteq> {SuccessClass},
      k \<and> class_of ` set upstreams \<subseteq> {SuccessClass, SkipClass},
      t \<and> class_of ` set upstreams \<subseteq> {SuccessClass, StopClass})"
proof (induction upstreams arbitrary: a k t)
  case Nil
  then show ?case by simp
next
  case (Cons s ss)
  then show ?case by (cases "class_of s") simp_all
qed

lemma rule_table: "evaluate_rule rule upstreams = rule_outcome rule (class_of ` set upstreams)"
proof (cases rule)
  case AllSucceeded
  then show ?thesis by (simp add: eval_all_succeeded_def scan_result)
next
  case AllTerminal
  then show ?thesis by simp
next
  case AnyFailed
  then show ?thesis by (force simp: eval_any_failed_def list_ex_iff)
qed

text \<open>
  Once every upstream is terminal, the outcome of a trigger rule is a function of the classes
  present among the upstream states alone: neither the order nor the multiplicity of the upstreams
  matters, and the table is the documented one.
\<close>

theorem evaluate_rule_classes: "evaluate_rule rule upstreams = rule_outcome rule (class_of ` set upstreams)"
  by (rule rule_table)

section \<open>One notification step\<close>

definition decision_of :: "node_id \<Rightarrow> TerminalState \<Rightarrow> node_states \<Rightarrow> string \<Rightarrow> Decision option" where
  "decision_of i st nodes k =
     (case bt_get nodes k of
        None \<Rightarrow> None
      | Some s \<Rightarrow>
          if ns_decided s \<noteq> None \<or> ns_remaining s - 1 \<noteq> 0 then None
          else (let s' = inform i st s in
            case evaluate_rule (ns_rule s') (map snd (ns_upstream_states s')) of
              Fires \<Rightarrow> Some (Ready (ns_id s'))
            | Propagate pr \<Rightarrow> Some (PropagatedTerminal (ns_id s') pr (origin_in s' pr (ns_id s')))))"

fun push_of :: "Decision \<Rightarrow> (node_id \<times> TerminalState) option" where
  "push_of (Ready i) = None"
| "push_of (PropagatedTerminal i st _) = Some (i, st)"

definition informed :: "node_id \<Rightarrow> TerminalState \<Rightarrow> string set \<Rightarrow> node_states \<Rightarrow> string \<Rightarrow> NodeState option" where
  "informed i st deps nodes k =
     map_option (\<lambda>s. if k \<in> deps \<and> ns_decided s = None then inform i st s else s) (bt_get nodes k)"

lemma inform_sel [simp]:
  "ns_decided (inform i st s) = ns_decided s" "ns_id (inform i st s) = ns_id s"
  "ns_rule (inform i st s) = ns_rule s" "ns_dependents (inform i st s) = ns_dependents s"
  "ns_remaining (inform i st s) = ns_remaining s - 1"
  "ns_upstream_states (inform i st s) = ns_upstream_states s @ [(i, st)]"
  by (simp_all add: inform_def)

lemma notify_dependent_exact:
  assumes "notify_dependent i st k (nodes, q, ds) = (nodes', q', ds')"
  shows "map fst nodes' = map fst nodes" "bt_get nodes' k' = informed i st {k} nodes k'"
    "q' = (case Option.bind (decision_of i st nodes k) push_of of Some w \<Rightarrow> w # q | None \<Rightarrow> q)"
    "ds' = ds @ (case decision_of i st nodes k of Some d \<Rightarrow> [d] | None \<Rightarrow> [])"
proof -
  show "bt_get nodes' k' = informed i st {k} nodes k'"
    using assms
    by (cases "k' = k"; cases "bt_get nodes k'")
      (auto simp: notify_dependent_def informed_def Let_def bt_get_modify
        split: option.splits if_splits RuleOutcome.splits)
  show "map fst nodes' = map fst nodes"
    "q' = (case Option.bind (decision_of i st nodes k) push_of of Some w \<Rightarrow> w # q | None \<Rightarrow> q)"
    "ds' = ds @ (case decision_of i st nodes k of Some d \<Rightarrow> [d] | None \<Rightarrow> [])"
    using assms
    by (auto simp: notify_dependent_def decision_of_def Let_def bt_get_modify origin_for_def
        split: option.splits if_splits RuleOutcome.splits)
qed

lemma notify_fold_all:
  assumes "fold (notify_dependent i st) deps (nodes, q, ds) = (nodes', q', ds')" "distinct deps"
  shows "map fst nodes' = map fst nodes
    \<and> (\<forall>k. bt_get nodes' k = informed i st (set deps) nodes k)
    \<and> q' = rev (List.map_filter push_of (List.map_filter (decision_of i st nodes) deps)) @ q
    \<and> ds' = ds @ List.map_filter (decision_of i st nodes) deps"
  using assms
proof (induction deps arbitrary: nodes q ds)
  case Nil
  then show ?case by (simp add: informed_def option.map_ident map_filter_simps)
next
  case (Cons d deps)
  obtain n1 q1 d1 where r: "notify_dependent i st d (nodes, q, ds) = (n1, q1, d1)"
    by (cases "notify_dependent i st d (nodes, q, ds)")
  note step = notify_dependent_exact [OF r]
  have same: "decision_of i st n1 k = decision_of i st nodes k" if "k \<noteq> d" for k
    using that step(2) [of k] by (simp add: decision_of_def informed_def option.map_ident)
  have filt: "List.map_filter (decision_of i st n1) deps = List.map_filter (decision_of i st nodes) deps"
    using Cons.prems(2) same by (induction deps) (auto simp: map_filter_simps split: option.split)
  have "fold (notify_dependent i st) deps (n1, q1, d1) = (nodes', q', ds')" "distinct deps"
    using Cons.prems r by simp_all
  note ih = Cons.IH [OF this, unfolded filt]
  have "informed i st (set deps) n1 k = informed i st (set (d # deps)) nodes k" for k
    using step(2) [of k] Cons.prems(2) by (cases "bt_get nodes k") (auto simp: informed_def)
  moreover have "rev (List.map_filter push_of (List.map_filter (decision_of i st nodes) (d # deps))) @ q
      = rev (List.map_filter push_of (List.map_filter (decision_of i st nodes) deps)) @ q1"
    using step(3) by (auto simp: map_filter_simps split: option.splits)
  moreover have "ds @ List.map_filter (decision_of i st nodes) (d # deps)
      = d1 @ List.map_filter (decision_of i st nodes) deps"
    using step(4) by (auto simp: map_filter_simps split: option.splits)
  ultimately show ?case
    using ih step(1) by simp
qed

lemmas notify_fold_exact =
  notify_fold_all [THEN conjunct1] notify_fold_all [THEN conjunct2, THEN conjunct1]
  notify_fold_all [THEN conjunct2, THEN conjunct2, THEN conjunct1]
  notify_fold_all [THEN conjunct2, THEN conjunct2, THEN conjunct2]

section \<open>What the tracker maintains\<close>

text \<open>Abstract reading of the node states: who waits for whom, and who is still undecided.\<close>

definition ups_of :: "node_states \<Rightarrow> string \<Rightarrow> string set" where
  "ups_of nodes k = {u. \<exists>s. bt_get nodes u = Some s \<and> k \<in> set (ns_dependents s)}"

definition undecided :: "node_states \<Rightarrow> string set" where
  "undecided nodes = {u. \<exists>s. bt_get nodes u = Some s \<and> ns_decided s = None}"

definition decided_as :: "node_states \<Rightarrow> string \<Rightarrow> TerminalState option" where
  "decided_as nodes u = Option.bind (bt_get nodes u) ns_decided"

definition keys_of :: "node_states \<Rightarrow> string set" where
  "keys_of nodes = fst ` set nodes"

definition shape_ok :: "node_states \<Rightarrow> bool" where
  "shape_ok nodes \<longleftrightarrow> bt_ok nodes \<and> inj_on from_name (keys_of nodes)
     \<and> (\<forall>k s. bt_get nodes k = Some s \<longrightarrow> ns_id s = from_name k \<and> distinct (ns_dependents s))"

text \<open>Every undecided node counts exactly its undecided upstreams, and has logged the decided ones once.\<close>

definition countdown_ok :: "node_states \<Rightarrow> bool" where
  "countdown_ok nodes \<longleftrightarrow> (\<forall>k s. bt_get nodes k = Some s \<longrightarrow> ns_decided s = None \<longrightarrow>
     ns_remaining s = card (ups_of nodes k \<inter> undecided nodes)
     \<and> distinct (map fst (ns_upstream_states s))
     \<and> set (ns_upstream_states s) =
         (\<lambda>u. (from_name u, the (decided_as nodes u))) ` (ups_of nodes k - undecided nodes))"

lemma keys_of_get: "k \<in> keys_of nodes \<longleftrightarrow> (\<exists>s. bt_get nodes k = Some s)"
  using bt_get_None_iff [of nodes k] by (cases "bt_get nodes k") (auto simp: keys_of_def)

lemma ups_in_keys: "ups_of nodes k \<subseteq> keys_of nodes"
  by (auto simp: ups_of_def keys_of_get)

lemma finite_keys [simp]: "finite (keys_of nodes)"
  by (simp add: keys_of_def)

lemma finite_ups [simp]: "finite (ups_of nodes k)"
  by (rule finite_subset [OF ups_in_keys finite_keys])

lemma undecided_in_keys: "undecided nodes \<subseteq> keys_of nodes"
  by (auto simp: undecided_def keys_of_get)

lemma undecided_count_card: "bt_ok nodes \<Longrightarrow> undecided_count nodes = card (undecided nodes)"
proof (induction nodes)
  case Nil
  then show ?case by (simp add: undecided_def)
next
  case (Cons kv nodes)
  obtain k s where kv: "kv = (k, s)" by (cases kv)
  from Cons.prems kv have k: "k \<notin> keys_of nodes" "bt_ok nodes" by (auto simp: bt_ok_Cons keys_of_def)
  then have "undecided (kv # nodes) = (if ns_decided s = None then insert k (undecided nodes) else undecided nodes)"
    using kv by (auto simp: undecided_def bt_get_Cons keys_of_get)
  moreover have "k \<notin> undecided nodes" "finite (undecided nodes)"
    using k(1) undecided_in_keys [of nodes] finite_subset [OF undecided_in_keys finite_keys] by auto
  ultimately show ?case using Cons.IH k(2) kv by simp
qed

section \<open>The effect of one decision\<close>

fun decision_node :: "Decision \<Rightarrow> node_id" where
  "decision_node (Ready i) = i"
| "decision_node (PropagatedTerminal i _ _) = i"

definition outcome_at :: "node_states \<Rightarrow> string \<Rightarrow> RuleOutcome" where
  "outcome_at nodes k = rule_outcome (ns_rule (the (bt_get nodes k)))
     ((\<lambda>u. class_of (the (decided_as nodes u))) ` ups_of nodes k)"

text \<open>
  A decision is right when every upstream of its node is decided and the table gives it: the rule
  fires, or it can never fire and the named origin is an upstream, of the propagated state's class
  when there is one of that class.
\<close>

definition origin_right :: "node_states \<Rightarrow> string \<Rightarrow> TerminalState \<Rightarrow> node_id \<Rightarrow> bool" where
  "origin_right nodes k st origin \<longleftrightarrow> (\<exists>u \<in> ups_of nodes k. origin = from_name u
     \<and> ((\<exists>v \<in> ups_of nodes k. class_of (the (decided_as nodes v)) = class_of st) \<longrightarrow>
          class_of (the (decided_as nodes u)) = class_of st))"

definition decision_right :: "node_states \<Rightarrow> Decision \<Rightarrow> bool" where
  "decision_right nodes d \<longleftrightarrow> (\<exists>k \<in> keys_of nodes. decision_node d = from_name k
     \<and> ups_of nodes k \<inter> undecided nodes = {}
     \<and> (case d of Ready _ \<Rightarrow> outcome_at nodes k = Fires
        | PropagatedTerminal _ st origin \<Rightarrow> outcome_at nodes k = Propagate st \<and> origin_right nodes k st origin))"

lemma find_in: "List.find P xs = Some x \<Longrightarrow> x \<in> set xs \<and> P x"
  by (induction xs) (auto split: if_splits)

lemma origin_in_mem:
  assumes "ns_upstream_states s \<noteq> []"
  shows "\<exists>x \<in> set (ns_upstream_states s). origin_in s st fb = fst x
     \<and> ((\<exists>y \<in> set (ns_upstream_states s). class_of (snd y) = class_of st) \<longrightarrow> class_of (snd x) = class_of st)"
proof (cases "List.find (\<lambda>(_, x). class_of x = class_of st) (ns_upstream_states s)")
  case (Some x)
  then have "x \<in> set (ns_upstream_states s)" "class_of (snd x) = class_of st"
    using find_in [OF Some] by (auto simp: split_def)
  with Some show ?thesis by (intro bexI [of _ x]) (simp_all add: origin_in_def split_def)
next
  case None
  then have none: "\<not> (\<exists>y \<in> set (ns_upstream_states s). class_of (snd y) = class_of st)"
    by (auto simp: find_None_iff split_def)
  have "\<exists>x \<in> set (ns_upstream_states s). origin_in s st fb = fst x"
  proof (cases "List.find (\<lambda>(_, x). class_of x \<noteq> SuccessClass) (ns_upstream_states s)")
    case (Some x)
    then have "x \<in> set (ns_upstream_states s)" by (auto dest: find_in)
    with Some None show ?thesis by (intro bexI [of _ x]) (simp_all add: origin_in_def split_def)
  next
    case n2: None
    from assms obtain x xs where "ns_upstream_states s = x # xs" by (cases "ns_upstream_states s") auto
    with None n2 show ?thesis by (simp add: origin_in_def split_def)
  qed
  with none show ?thesis by blast
qed

text \<open>The state maps after deciding \<open>k0\<close> and informing its dependents.\<close>

definition decided_step ::
  "string \<Rightarrow> TerminalState \<Rightarrow> node_states \<Rightarrow> work \<Rightarrow> Decision list
     \<Rightarrow> node_states \<times> work \<times> Decision list" where
  "decided_step k0 st nodes q ds =
     fold (notify_dependent (from_name k0) st) (case bt_get nodes k0 of Some n \<Rightarrow> ns_dependents n | None \<Rightarrow> [])
       (bt_modify k0 (ns_decided_update (\<lambda>_. Some st)) nodes, q, ds)"

text \<open>The dependents whose last undecided upstream was \<open>k0\<close>.\<close>

definition completed_by :: "node_states \<Rightarrow> string \<Rightarrow> string \<Rightarrow> bool" where
  "completed_by nodes k0 k \<longleftrightarrow>
     k \<in> undecided nodes \<and> k \<noteq> k0 \<and> k0 \<in> ups_of nodes k \<and> ups_of nodes k \<inter> undecided nodes = {k0}"

lemma decided_step_get:
  assumes "shape_ok nodes" "bt_get nodes k0 = Some n" "decided_step k0 st nodes q ds = (nodes', q', ds')"
  shows "bt_get nodes' k = map_option (\<lambda>s.
      if k = k0 then s\<lparr>ns_decided := Some st\<rparr>
      else if k0 \<in> ups_of nodes k \<and> ns_decided s = None then inform (from_name k0) st s else s) (bt_get nodes k)"
    and "map fst nodes' = map fst nodes"
    and "q' = rev (List.map_filter push_of (List.map_filter (decision_of (from_name k0) st
          (bt_modify k0 (ns_decided_update (\<lambda>_. Some st)) nodes)) (ns_dependents n))) @ q"
    and "ds' = ds @ List.map_filter (decision_of (from_name k0) st
          (bt_modify k0 (ns_decided_update (\<lambda>_. Some st)) nodes)) (ns_dependents n)"
proof -
  from assms have f: "fold (notify_dependent (from_name k0) st) (ns_dependents n)
       (bt_modify k0 (ns_decided_update (\<lambda>_. Some st)) nodes, q, ds) = (nodes', q', ds')"
    and d: "distinct (ns_dependents n)"
    by (auto simp: decided_step_def shape_ok_def)
  note x = notify_fold_exact [OF f d]
  have ups: "k0 \<in> ups_of nodes k \<longleftrightarrow> k \<in> set (ns_dependents n)"
    using assms(2) by (simp add: ups_of_def)
  from x(2) have "bt_get nodes' k = informed (from_name k0) st (set (ns_dependents n))
      (bt_modify k0 (ns_decided_update (\<lambda>_. Some st)) nodes) k" by simp
  then show "bt_get nodes' k = map_option (\<lambda>s.
      if k = k0 then s\<lparr>ns_decided := Some st\<rparr>
      else if k0 \<in> ups_of nodes k \<and> ns_decided s = None then inform (from_name k0) st s else s) (bt_get nodes k)"
    by (cases "bt_get nodes k") (auto simp: informed_def bt_get_modify ups)
  show "map fst nodes' = map fst nodes" using x(1) by simp
  show "q' = rev (List.map_filter push_of (List.map_filter (decision_of (from_name k0) st
          (bt_modify k0 (ns_decided_update (\<lambda>_. Some st)) nodes)) (ns_dependents n))) @ q"
    by (rule x(3))
  show "ds' = ds @ List.map_filter (decision_of (from_name k0) st
          (bt_modify k0 (ns_decided_update (\<lambda>_. Some st)) nodes)) (ns_dependents n)"
    by (rule x(4))
qed

lemma decided_step_abs:
  assumes ok: "shape_ok nodes" and n: "bt_get nodes k0 = Some n" "ns_decided n = None"
    and step: "decided_step k0 st nodes q ds = (nodes', q', ds')"
  shows "ups_of nodes' = ups_of nodes" "undecided nodes' = undecided nodes - {k0}"
    "decided_as nodes' = (decided_as nodes)(k0 := Some st)" "keys_of nodes' = keys_of nodes"
    "shape_ok nodes'" "k \<in> keys_of nodes \<Longrightarrow> ns_rule (the (bt_get nodes' k)) = ns_rule (the (bt_get nodes k))"
proof -
  note get = decided_step_get(1) [OF ok n(1) step]
  have keys: "map fst nodes' = map fst nodes" by (rule decided_step_get(2) [OF ok n(1) step])
  then show k: "keys_of nodes' = keys_of nodes" unfolding keys_of_def by (metis list.set_map)
  show "ups_of nodes' = ups_of nodes"
  proof
    fix k
    have "(\<exists>s. bt_get nodes' u = Some s \<and> k \<in> set (ns_dependents s)) \<longleftrightarrow>
        (\<exists>s. bt_get nodes u = Some s \<and> k \<in> set (ns_dependents s))" for u
      unfolding get [of u] by (cases "bt_get nodes u") auto
    then show "ups_of nodes' k = ups_of nodes k" by (simp add: ups_of_def)
  qed
  show "undecided nodes' = undecided nodes - {k0}"
  proof -
    have "(\<exists>s. bt_get nodes' u = Some s \<and> ns_decided s = None) \<longleftrightarrow>
        (\<exists>s. bt_get nodes u = Some s \<and> ns_decided s = None) \<and> u \<noteq> k0" for u
      unfolding get [of u] by (cases "bt_get nodes u") auto
    then show ?thesis by (auto simp: undecided_def)
  qed
  show "decided_as nodes' = (decided_as nodes)(k0 := Some st)"
  proof
    fix u
    show "decided_as nodes' u = ((decided_as nodes)(k0 := Some st)) u"
      using n(1) by (cases "bt_get nodes u") (auto simp: decided_as_def get)
  qed
  show "shape_ok nodes'"
  proof -
    have "ns_id s' = from_name k \<and> distinct (ns_dependents s')" if "bt_get nodes' k = Some s'" for k s'
    proof -
      from that get [of k] obtain s where s: "bt_get nodes k = Some s" and
        "ns_id s' = ns_id s" "ns_dependents s' = ns_dependents s"
        by (cases "bt_get nodes k") auto
      with ok show ?thesis by (simp add: shape_ok_def)
    qed
    moreover have "bt_ok nodes'" "inj_on from_name (keys_of nodes')"
      using ok keys k by (simp_all add: shape_ok_def bt_ok_def)
    ultimately show ?thesis by (simp add: shape_ok_def)
  qed
  show "k \<in> keys_of nodes \<Longrightarrow> ns_rule (the (bt_get nodes' k)) = ns_rule (the (bt_get nodes k))"
    by (auto simp: keys_of_get get)
qed

lemma decided_step_countdown:
  assumes ok: "shape_ok nodes" and cd: "countdown_ok nodes"
    and n: "bt_get nodes k0 = Some n" "ns_decided n = None"
    and step: "decided_step k0 st nodes q ds = (nodes', q', ds')"
  shows "countdown_ok nodes'"
  unfolding countdown_ok_def
proof (intro allI impI)
  fix k s'
  assume k: "bt_get nodes' k = Some s'" and u': "ns_decided s' = None"
  note abs = decided_step_abs [OF ok n step]
  note get = decided_step_get(1) [OF ok n(1) step, of k]
  from k get u' have "k \<noteq> k0" by auto
  then obtain s where s: "bt_get nodes k = Some s" "ns_decided s = None"
    "s' = (if k0 \<in> ups_of nodes k then inform (from_name k0) st s else s)"
    using k get u' by (auto split: if_splits)
  have k0: "k0 \<in> undecided nodes" using n by (auto simp: undecided_def)
  from cd s have old: "ns_remaining s = card (ups_of nodes k \<inter> undecided nodes)"
    "distinct (map fst (ns_upstream_states s))"
    "set (ns_upstream_states s) =
       (\<lambda>u. (from_name u, the (decided_as nodes u))) ` (ups_of nodes k - undecided nodes)"
    by (auto simp: countdown_ok_def)
  let ?pair = "\<lambda>u. (from_name u, the (decided_as nodes' u))"
  have same: "?pair ` (ups_of nodes k - undecided nodes)
      = (\<lambda>u. (from_name u, the (decided_as nodes u))) ` (ups_of nodes k - undecided nodes)"
    using k0 by (intro image_cong refl) (auto simp: abs(3))
  show "ns_remaining s' = card (ups_of nodes' k \<inter> undecided nodes')
     \<and> distinct (map fst (ns_upstream_states s'))
     \<and> set (ns_upstream_states s') = ?pair ` (ups_of nodes' k - undecided nodes')"
  proof (cases "k0 \<in> ups_of nodes k")
    case False
    then have "ups_of nodes k \<inter> undecided nodes' = ups_of nodes k \<inter> undecided nodes"
      "ups_of nodes k - undecided nodes' = ups_of nodes k - undecided nodes"
      using abs(2) by auto
    with False s(3) old same show ?thesis by (simp add: abs(1))
  next
    case True
    have "ups_of nodes k \<inter> undecided nodes' = ups_of nodes k \<inter> undecided nodes - {k0}"
      using abs(2) by auto
    moreover have "ups_of nodes k - undecided nodes' = insert k0 (ups_of nodes k - undecided nodes)"
      using abs(2) k0 True by auto
    moreover have "from_name k0 \<notin> fst ` set (ns_upstream_states s)"
    proof
      assume "from_name k0 \<in> fst ` set (ns_upstream_states s)"
      then obtain u where "u \<in> ups_of nodes k - undecided nodes" "from_name u = from_name k0"
        by (auto simp: old(3))
      moreover have "u \<in> keys_of nodes" "k0 \<in> keys_of nodes"
        using calculation(1) ups_in_keys [of nodes k] n(1) by (auto simp: keys_of_get)
      ultimately have "u = k0" using ok by (auto simp: shape_ok_def dest: inj_onD)
      with \<open>u \<in> ups_of nodes k - undecided nodes\<close> k0 show False by simp
    qed
    ultimately show ?thesis
      using True s(3) old k0 same by (simp add: abs(1,3)) 
  qed
qed

lemma card_one_mem:
  assumes "x \<in> A" shows "card A = 1 \<longleftrightarrow> A = {x}"
proof
  assume "card A = 1"
  then obtain y where "A = {y}" by (rule card_1_singletonE)
  with assms show "A = {x}" by simp
qed simp

lemma decided_step_decision:
  assumes ok: "shape_ok nodes" and cd: "countdown_ok nodes"
    and n: "bt_get nodes k0 = Some n" "ns_decided n = None"
    and step: "decided_step k0 st nodes q ds = (nodes', q', ds')"
    and k: "k0 \<in> ups_of nodes k"
  shows "if completed_by nodes k0 k
    then \<exists>d. decision_of (from_name k0) st (bt_modify k0 (ns_decided_update (\<lambda>_. Some st)) nodes) k = Some d
      \<and> decision_node d = from_name k \<and> decision_right nodes' d
    else decision_of (from_name k0) st (bt_modify k0 (ns_decided_update (\<lambda>_. Some st)) nodes) k = None"
proof -
  let ?n1 = "bt_modify k0 (ns_decided_update (\<lambda>_. Some st)) nodes"
  note abs = decided_step_abs [OF ok n step]
  have k0: "k0 \<in> undecided nodes" using n by (auto simp: undecided_def)
  show ?thesis
  proof (cases "k \<in> undecided nodes \<and> k \<noteq> k0")
    case False
    then have "decision_of (from_name k0) st ?n1 k = None"
      by (auto simp: decision_of_def bt_get_modify undecided_def split: option.split)
    with False show ?thesis by (auto simp: completed_by_def)
  next
    case True
    then obtain s where s: "bt_get nodes k = Some s" "ns_decided s = None" by (auto simp: undecided_def)
    then have rem: "ns_remaining s = card (ups_of nodes k \<inter> undecided nodes)"
      using cd by (auto simp: countdown_ok_def)
    have one: "ns_remaining s - 1 = 0 \<longleftrightarrow> ups_of nodes k \<inter> undecided nodes = {k0}"
    proof -
      have mem: "k0 \<in> ups_of nodes k \<inter> undecided nodes" using k k0 by simp
      then have "card (ups_of nodes k \<inter> undecided nodes) \<noteq> 0" by auto
      then have "ns_remaining s - 1 = 0 \<longleftrightarrow> card (ups_of nodes k \<inter> undecided nodes) = 1"
        unfolding rem by linarith
      also have "\<dots> \<longleftrightarrow> ups_of nodes k \<inter> undecided nodes = {k0}"
        by (rule card_one_mem [OF mem])
      finally show ?thesis .
    qed
    let ?s = "inform (from_name k0) st s"
    have s': "bt_get nodes' k = Some ?s"
      using decided_step_get(1) [OF ok n(1) step, of k] s k True by simp
    show ?thesis
    proof (cases "completed_by nodes k0 k")
      case False
      with True k have "ups_of nodes k \<inter> undecided nodes \<noteq> {k0}" by (simp add: completed_by_def)
      with one have "ns_remaining s - 1 \<noteq> 0" by blast
      with False True s show ?thesis
        by (simp add: decision_of_def bt_get_modify)
    next
      case comp: True
      then have last: "ups_of nodes k \<inter> undecided nodes = {k0}" by (simp add: completed_by_def)
      then have none: "ups_of nodes' k \<inter> undecided nodes' = {}" using abs(1,2) by auto
      have log: "set (ns_upstream_states ?s) = (\<lambda>u. (from_name u, the (decided_as nodes' u))) ` ups_of nodes' k"
        using decided_step_countdown [OF ok cd n step, unfolded countdown_ok_def, rule_format, OF s'] s(2) none
        by (simp only: inform_sel Diff_triv)
      let ?out = "evaluate_rule (ns_rule ?s) (map snd (ns_upstream_states ?s))"
      have "?out = rule_outcome (ns_rule ?s) (class_of ` snd ` set (ns_upstream_states ?s))"
        by (simp only: rule_table set_map)
      also have "\<dots> = outcome_at nodes' k"
        unfolding log outcome_at_def s' by (simp add: image_image)
      finally have out: "?out = outcome_at nodes' k" .
      have id: "ns_id ?s = from_name k" using ok s by (simp add: shape_ok_def)
      have key: "k \<in> keys_of nodes'" using s' by (auto simp: keys_of_get)
      have dec: "decision_of (from_name k0) st ?n1 k =
          Some (case ?out of Fires \<Rightarrow> Ready (from_name k)
           | Propagate pr \<Rightarrow> PropagatedTerminal (from_name k) pr (origin_in ?s pr (from_name k)))"
      proof -
        have "ns_remaining s - 1 = 0" using one last by blast
        then show ?thesis
          using s True id by (simp add: decision_of_def bt_get_modify Let_def split: RuleOutcome.split)
      qed
      have origin: "origin_right nodes' k pr (origin_in ?s pr (from_name k))" for pr
      proof -
        have "ns_upstream_states ?s \<noteq> []" by simp
        from origin_in_mem [OF this, of pr "from_name k"] obtain x where
          x: "x \<in> set (ns_upstream_states ?s)" "origin_in ?s pr (from_name k) = fst x"
          "(\<exists>y \<in> set (ns_upstream_states ?s). class_of (snd y) = class_of pr) \<longrightarrow> class_of (snd x) = class_of pr"
          by blast
        from x(1) obtain u where u: "u \<in> ups_of nodes' k" "x = (from_name u, the (decided_as nodes' u))"
          unfolding log by blast
        have "class_of (the (decided_as nodes' u)) = class_of pr"
          if "v \<in> ups_of nodes' k" "class_of (the (decided_as nodes' v)) = class_of pr" for v
          using x(3) that unfolding log u(2) by fastforce
        with u x(2) show ?thesis
          unfolding origin_right_def by (intro bexI [of _ u]) auto
      qed
      have right: "decision_right nodes' d" if "decision_node d = from_name k"
        "case d of Ready _ \<Rightarrow> outcome_at nodes' k = Fires
          | PropagatedTerminal _ st origin \<Rightarrow> outcome_at nodes' k = Propagate st \<and> origin_right nodes' k st origin"
        for d
        unfolding decision_right_def using key none that by blast
      show ?thesis
      proof (cases ?out)
        case Fires
        with comp dec out right [of "Ready (from_name k)"] show ?thesis by simp
      next
        case (Propagate pr)
        with comp dec out origin right [of "PropagatedTerminal (from_name k) pr (origin_in ?s pr (from_name k))"]
        show ?thesis by simp
      qed
    qed
  qed
qed

lemma decision_right_mono:
  assumes ok: "shape_ok nodes" and n: "bt_get nodes k0 = Some n" "ns_decided n = None"
    and step: "decided_step k0 st nodes q ds = (nodes', q', ds')" and d: "decision_right nodes d"
  shows "decision_right nodes' d"
proof -
  note abs = decided_step_abs [OF ok n step]
  have k0: "k0 \<in> undecided nodes" using n by (auto simp: undecided_def)
  from d obtain k where k: "k \<in> keys_of nodes" "decision_node d = from_name k"
    "ups_of nodes k \<inter> undecided nodes = {}" and
    out: "case d of Ready _ \<Rightarrow> outcome_at nodes k = Fires
        | PropagatedTerminal _ st origin \<Rightarrow> outcome_at nodes k = Propagate st \<and> origin_right nodes k st origin"
    by (auto simp: decision_right_def)
  have same: "decided_as nodes' u = decided_as nodes u" if "u \<in> ups_of nodes k" for u
    using that k(3) k0 abs(3) by auto
  have "outcome_at nodes' k = outcome_at nodes k"
    unfolding outcome_at_def abs(1) abs(6) [OF k(1)] by (simp add: same cong: image_cong)
  moreover have "origin_right nodes' k st' o' = origin_right nodes k st' o'" for st' o'
    unfolding origin_right_def abs(1) using same by auto
  ultimately show ?thesis
    using k out abs(1,2,4) by (auto simp: decision_right_def split: Decision.splits)
qed

lemma decided_step_new:
  assumes ok: "shape_ok nodes" and cd: "countdown_ok nodes"
    and n: "bt_get nodes k0 = Some n" "ns_decided n = None"
    and step: "decided_step k0 st nodes q ds = (nodes', q', ds')"
  obtains new where "ds' = ds @ new" "q' = rev (List.map_filter push_of new) @ q"
    "map decision_node new = map from_name (filter (completed_by nodes k0) (ns_dependents n))"
    "\<forall>d \<in> set new. decision_right nodes' d"
proof -
  let ?f = "decision_of (from_name k0) st (bt_modify k0 (ns_decided_update (\<lambda>_. Some st)) nodes)"
  have ups: "k0 \<in> ups_of nodes k" if "k \<in> set (ns_dependents n)" for k
    using that n(1) by (simp add: ups_of_def)
  note dec = decided_step_decision [OF ok cd n step]
  have *: "map decision_node (List.map_filter ?f ks) = map from_name (filter (completed_by nodes k0) ks)
      \<and> (\<forall>d \<in> set (List.map_filter ?f ks). decision_right nodes' d)"
    if "set ks \<subseteq> set (ns_dependents n)" for ks
    using that
  proof (induction ks)
    case Nil
    then show ?case by (simp add: map_filter_simps)
  next
    case (Cons k ks)
    then have "k \<in> set (ns_dependents n)" by simp
    from dec [OF ups [OF this]] Cons show ?case
      by (auto simp: map_filter_simps split: if_splits)
  qed
  show thesis
    using that [of "List.map_filter ?f (ns_dependents n)"] decided_step_get(3,4) [OF ok n(1) step] *
    by blast
qed

section \<open>The invariant of the work loop\<close>

definition loop_ok ::
  "node_id list \<Rightarrow> node_states \<Rightarrow> nat \<Rightarrow> work \<Rightarrow> Decision list \<Rightarrow> bool" where
  "loop_ok init nodes pending queue decisions \<longleftrightarrow>
     shape_ok nodes \<and> countdown_ok nodes \<and> pending = undecided_count nodes
     \<and> (\<forall>k \<in> undecided nodes. ups_of nodes k \<inter> undecided nodes = {} \<longrightarrow>
          from_name k \<in> set init \<or> Ready (from_name k) \<in> set decisions \<or> from_name k \<in> fst ` set queue)
     \<and> distinct (init @ map decision_node decisions)
     \<and> (\<forall>i \<in> set init. \<exists>k \<in> keys_of nodes. i = from_name k \<and> ups_of nodes k = {})
     \<and> (\<forall>d \<in> set decisions. decision_right nodes d)
     \<and> (\<forall>i st origin. PropagatedTerminal i st origin \<in> set decisions \<longrightarrow>
          (\<forall>k \<in> keys_of nodes. from_name k = i \<longrightarrow>
             decided_as nodes k = Some st \<or> (k \<in> undecided nodes \<and> (i, st) \<in> set queue)))
     \<and> distinct (map fst queue)
     \<and> (\<forall>w \<in> set (tl queue). \<exists>origin. PropagatedTerminal (fst w) (snd w) origin \<in> set decisions)"

lemma loop_okD:
  assumes "loop_ok init nodes pending queue ds"
  shows "shape_ok nodes" "countdown_ok nodes" "pending = undecided_count nodes"
    "k \<in> undecided nodes \<Longrightarrow> ups_of nodes k \<inter> undecided nodes = {} \<Longrightarrow>
       from_name k \<in> set init \<or> Ready (from_name k) \<in> set ds \<or> from_name k \<in> fst ` set queue"
    "distinct (init @ map decision_node ds)"
    "i \<in> set init \<Longrightarrow> \<exists>k \<in> keys_of nodes. i = from_name k \<and> ups_of nodes k = {}"
    "d \<in> set ds \<Longrightarrow> decision_right nodes d"
    "PropagatedTerminal i st origin \<in> set ds \<Longrightarrow> k \<in> keys_of nodes \<Longrightarrow> from_name k = i \<Longrightarrow>
       decided_as nodes k = Some st \<or> (k \<in> undecided nodes \<and> (i, st) \<in> set queue)"
    "distinct (map fst queue)"
    "w \<in> set (tl queue) \<Longrightarrow> \<exists>origin. PropagatedTerminal (fst w) (snd w) origin \<in> set ds"
  using assms unfolding loop_ok_def by (elim conjE; blast)+

lemma shape_key_inj:
  "shape_ok nodes \<Longrightarrow> k \<in> keys_of nodes \<Longrightarrow> k' \<in> keys_of nodes \<Longrightarrow> from_name k = from_name k' \<longleftrightarrow> k = k'"
  by (auto simp: shape_ok_def dest: inj_onD)

lemma name_of_Some:
  assumes "shape_ok nodes" "name_of nodes i = Some k"
  shows "k \<in> keys_of nodes" "from_name k = i"
proof -
  from assms(2) obtain s where "List.find (\<lambda>(_, s). ns_id s = i) nodes = Some (k, s)"
    by (auto simp: name_of_def)
  from find_in [OF this] have x: "(k, s) \<in> set nodes" "ns_id s = i" by auto
  with assms(1) have "bt_get nodes k = Some s" by (simp add: shape_ok_def bt_get_Some_iff)
  with x assms(1) show "k \<in> keys_of nodes" "from_name k = i" by (auto simp: keys_of_get shape_ok_def)
qed

lemma name_of_None:
  assumes "shape_ok nodes" "name_of nodes i = None" "k \<in> keys_of nodes"
  shows "from_name k \<noteq> i"
proof -
  from assms(3) obtain s where "bt_get nodes k = Some s" by (auto simp: keys_of_get)
  with assms(1) have "(k, s) \<in> set nodes" "ns_id s = from_name k"
    by (auto simp: shape_ok_def bt_get_Some_iff)
  with assms(2) show ?thesis by (auto simp: name_of_def find_None_iff)
qed

lemma loop_ok_skip:
  assumes ok: "loop_ok init nodes pending ((i, st) # queue) ds"
    and skip: "\<And>k. k \<in> undecided nodes \<Longrightarrow> from_name k \<noteq> i"
  shows "loop_ok init nodes pending queue ds"
proof -
  note inv = loop_okD [OF ok]
  have "\<exists>origin. PropagatedTerminal (fst w) (snd w) origin \<in> set ds" if "w \<in> set (tl queue)" for w
    using inv(10) [of w] that by (cases queue) auto
  moreover have "decided_as nodes k = Some x \<or> k \<in> undecided nodes \<and> (j, x) \<in> set queue"
    if "PropagatedTerminal j x origin \<in> set ds" "k \<in> keys_of nodes" "from_name k = j" for j x origin k
    using inv(8) [OF that] skip [of k] that(3) by auto
  moreover have "from_name k \<in> set init \<or> Ready (from_name k) \<in> set ds \<or> from_name k \<in> fst ` set queue"
    if "k \<in> undecided nodes" "ups_of nodes k \<inter> undecided nodes = {}" for k
    using inv(4) [OF that] skip [OF that(1)] by auto
  ultimately show ?thesis
    unfolding loop_ok_def using inv(1-3,5-7,9) by simp
qed

lemma push_of_set: "set (List.map_filter push_of ds) = {(i, st). \<exists>origin. PropagatedTerminal i st origin \<in> set ds}"
proof (induction ds)
  case Nil
  then show ?case by (simp add: map_filter_simps)
next
  case (Cons d ds)
  then show ?case by (cases d) (auto simp: map_filter_simps)
qed

lemma push_of_distinct:
  "distinct (map decision_node ds) \<Longrightarrow> distinct (map fst (List.map_filter push_of ds))"
proof (induction ds)
  case Nil
  then show ?case by (simp add: map_filter_simps)
next
  case (Cons d ds)
  then show ?case
    by (cases d) (force simp: map_filter_simps push_of_set)+
qed

lemma loop_ok_decide:
  assumes ok: "loop_ok init nodes pending ((from_name k0, st) # queue) ds"
    and n: "bt_get nodes k0 = Some n" "ns_decided n = None"
    and step: "decided_step k0 st nodes queue ds0 = (nodes', queue', ds0 @ new)"
  shows "loop_ok init nodes' (pending - 1) queue' (ds @ new)"
proof -
  note inv = loop_okD [OF ok]
  note abs = decided_step_abs [OF inv(1) n step]
  obtain new' where "ds0 @ new = ds0 @ new'" and q: "queue' = rev (List.map_filter push_of new') @ queue"
    and nodes_new: "map decision_node new' = map from_name (filter (completed_by nodes k0) (ns_dependents n))"
    and right_new: "\<forall>d \<in> set new'. decision_right nodes' d"
    by (rule decided_step_new [OF inv(1,2) n step])
  then have new: "new' = new" by simp
  have k0: "k0 \<in> undecided nodes" "k0 \<in> keys_of nodes" using n by (auto simp: undecided_def keys_of_get)
  have deps: "k \<in> set (ns_dependents n) \<longleftrightarrow> k0 \<in> ups_of nodes k" for k
    using n(1) by (simp add: ups_of_def)
  have comp: "\<exists>k \<in> undecided nodes. k \<noteq> k0 \<and> decision_node d = from_name k \<and> ups_of nodes k \<inter> undecided nodes = {k0}"
    if "d \<in> set new" for d
  proof -
    have "decision_node d \<in> set (map decision_node new')" using that new by simp
    then show ?thesis unfolding nodes_new by (auto simp: completed_by_def)
  qed
  have fresh: "decision_node d \<notin> set init" "decision_node d \<notin> set (map decision_node ds)" if "d \<in> set new" for d
  proof -
    from comp [OF that] obtain k where k: "k \<in> undecided nodes" "decision_node d = from_name k"
      "ups_of nodes k \<inter> undecided nodes = {k0}" by blast
    have key: "k \<in> keys_of nodes" using k(1) undecided_in_keys by auto
    show "decision_node d \<notin> set init"
      using inv(6) [of "from_name k"] k shape_key_inj [OF inv(1) key] by fastforce
    show "decision_node d \<notin> set (map decision_node ds)"
    proof
      assume "decision_node d \<in> set (map decision_node ds)"
      then obtain e where "e \<in> set ds" "decision_node e = from_name k" using k(2) by auto
      with inv(7) [of e] obtain k' where "k' \<in> keys_of nodes" "from_name k = from_name k'"
        "ups_of nodes k' \<inter> undecided nodes = {}" by (auto simp: decision_right_def)
      with k(3) shape_key_inj [OF inv(1) key, of k'] show False by simp
    qed
  qed
  have dist_new: "distinct (map decision_node new)"
  proof -
    have "set (ns_dependents n) \<inter> undecided nodes \<subseteq> keys_of nodes" using undecided_in_keys by auto
    then have "inj_on from_name (set (filter (completed_by nodes k0) (ns_dependents n)))"
      using inv(1) by (auto simp: shape_ok_def completed_by_def intro!: inj_on_subset [of from_name "keys_of nodes"])
    moreover have "distinct (ns_dependents n)" using inv(1) n(1) by (auto simp: shape_ok_def)
    ultimately show ?thesis unfolding new [symmetric] nodes_new by (simp add: distinct_map)
  qed
  have p1: "pending - 1 = undecided_count nodes'"
    using inv(1,3) abs(2,5) k0 undecided_count_card [of nodes] undecided_count_card [of nodes']
      finite_subset [OF undecided_in_keys finite_keys]
    by (simp add: shape_ok_def)
  have p2: "from_name k \<in> set init \<or> Ready (from_name k) \<in> set (ds @ new) \<or> from_name k \<in> fst ` set queue'"
    if k: "k \<in> undecided nodes'" "ups_of nodes' k \<inter> undecided nodes' = {}" for k
  proof (cases "ups_of nodes k \<inter> undecided nodes = {}")
    case True
    have "k \<in> undecided nodes" "k \<noteq> k0" using k(1) abs(2) by auto
    then have "from_name k \<noteq> from_name k0"
      using shape_key_inj [OF inv(1) _ k0(2)] undecided_in_keys by auto
    with inv(4) [OF \<open>k \<in> undecided nodes\<close> True] show ?thesis unfolding q by auto
  next
    case False
    with k abs(1,2) have "completed_by nodes k0 k" by (auto simp: completed_by_def)
    then have "from_name k \<in> set (map decision_node new')"
      unfolding nodes_new using deps by (auto simp: completed_by_def)
    then obtain d where d: "d \<in> set new" "decision_node d = from_name k" using new by auto
    show ?thesis
    proof (cases d)
      case (Ready i)
      with d show ?thesis by simp
    next
      case (PropagatedTerminal i x origin)
      with d have "(from_name k, x) \<in> set (List.map_filter push_of new')"
        unfolding push_of_set using new by auto
      then show ?thesis unfolding q by force
    qed
  qed
  have p3: "distinct (init @ map decision_node (ds @ new))"
  proof -
    have "x \<notin> set init \<and> x \<notin> set (map decision_node ds)" if "x \<in> set (map decision_node new)" for x
    proof -
      from that obtain d where "d \<in> set new" "x = decision_node d" by auto
      with fresh show ?thesis by blast
    qed
    then show ?thesis using inv(5) dist_new unfolding map_append distinct_append set_append by blast
  qed
  have p5: "decision_right nodes' d" if "d \<in> set (ds @ new)" for d
    using that right_new new decision_right_mono [OF inv(1) n step inv(7)] by auto
  have p6: "decided_as nodes' k = Some x \<or> k \<in> undecided nodes' \<and> (i, x) \<in> set queue'"
    if d: "PropagatedTerminal i x origin \<in> set (ds @ new)" and k: "k \<in> keys_of nodes'" "from_name k = i" for i x origin k
  proof (cases "PropagatedTerminal i x origin \<in> set new")
    case True
    from comp [OF True] obtain k1 where k1: "k1 \<in> undecided nodes" "k1 \<noteq> k0" "i = from_name k1" by auto
    then have "k1 \<in> keys_of nodes" using undecided_in_keys by auto
    with k k1(3) abs(4) shape_key_inj [OF inv(1), of k k1] have "k = k1" by simp
    with k1 abs(2) have "k \<in> undecided nodes'" by simp
    moreover have "(i, x) \<in> set queue'" unfolding q using True new by (auto simp: push_of_set)
    ultimately show ?thesis by blast
  next
    case False
    with d have "PropagatedTerminal i x origin \<in> set ds" by simp
    from inv(8) [OF this] k abs(4) consider "decided_as nodes k = Some x"
      | "k \<in> undecided nodes" "(i, x) \<in> set ((from_name k0, st) # queue)" by auto
    then show ?thesis
    proof cases
      case 1
      with n have "k \<noteq> k0" by (auto simp: decided_as_def)
      with 1 abs(3) show ?thesis by simp
    next
      case 2
      show ?thesis
      proof (cases "k = k0")
        case True
        with 2(2) k(2) inv(9) have "x = st" by (auto simp: image_iff)
        with True abs(3) show ?thesis by simp
      next
        case False
        with k(2) k0(2) shape_key_inj [OF inv(1)] k(1) abs(4) have "i \<noteq> from_name k0" by auto
        with False 2 abs(2) show ?thesis unfolding q by auto
      qed
    qed
  qed
  have queued: "\<exists>origin. PropagatedTerminal (fst w) (snd w) origin \<in> set (ds @ new)" if "w \<in> set queue'" for w
    using that inv(10) [of w] new unfolding q by (auto simp: push_of_set)
  have p7: "distinct (map fst queue')"
  proof -
    have "i \<notin> fst ` set queue" if i: "i \<in> fst ` set (List.map_filter push_of new')" for i
    proof
      assume "i \<in> fst ` set queue"
      then obtain w where w: "w \<in> set queue" "i = fst w" by blast
      from i obtain x origin where new_i: "PropagatedTerminal i x origin \<in> set new"
        unfolding push_of_set new by auto
      from inv(10) [of w] w obtain o' where "PropagatedTerminal i (snd w) o' \<in> set ds" by auto
      then have "i \<in> set (map decision_node ds)" by force
      with fresh(2) [OF new_i] show False by simp
    qed
    then have "fst ` set (List.map_filter push_of new') \<inter> fst ` set queue = {}" by auto
    then show ?thesis
      unfolding q using inv(9) push_of_distinct [OF dist_new] new by (simp add: rev_map [symmetric])
  qed
  show ?thesis
    unfolding loop_ok_def
  proof (intro conjI ballI allI impI)
    show "shape_ok nodes'" by (rule abs(5))
    show "countdown_ok nodes'" by (rule decided_step_countdown [OF inv(1,2) n step])
    show "pending - 1 = undecided_count nodes'" by (rule p1)
    show "distinct (init @ map decision_node (ds @ new))" by (rule p3)
    show "distinct (map fst queue')" by (rule p7)
  next
    fix i assume "i \<in> set init"
    with inv(6) show "\<exists>k \<in> keys_of nodes'. i = from_name k \<and> ups_of nodes' k = {}"
      unfolding abs(1,4) by blast
  next
    fix w assume "w \<in> set (tl queue')"
    then have "w \<in> set queue'" by (cases queue') auto
    then show "\<exists>origin. PropagatedTerminal (fst w) (snd w) origin \<in> set (ds @ new)" by (rule queued)
  qed (use p2 p5 p6 in blast)+
qed

section \<open>Whole runs\<close>

text \<open>The graph is fixed and decisions are never revised.\<close>

definition grows :: "node_states \<Rightarrow> node_states \<Rightarrow> bool" where
  "grows nodes nodes' \<longleftrightarrow> keys_of nodes' = keys_of nodes \<and> ups_of nodes' = ups_of nodes
     \<and> (\<forall>k x. decided_as nodes k = Some x \<longrightarrow> decided_as nodes' k = Some x)"

lemma grows_refl: "grows nodes nodes"
  by (simp add: grows_def)

lemma grows_trans: "grows a b \<Longrightarrow> grows b c \<Longrightarrow> grows a c"
  by (auto simp: grows_def)

lemma notify_loop_Nil: "notify_loop nodes pending [] ds = (nodes, pending, ds)"
  by (subst notify_loop.simps) simp

lemma notify_loop_unknown:
  "name_of nodes i = None \<Longrightarrow> notify_loop nodes pending ((i, st) # queue) ds = notify_loop nodes pending queue ds"
  by (subst notify_loop.simps) simp

lemma notify_loop_again:
  "name_of nodes i = Some k \<Longrightarrow> bt_get nodes k = Some n \<Longrightarrow> ns_decided n \<noteq> None \<Longrightarrow>
     notify_loop nodes pending ((i, st) # queue) ds = notify_loop nodes pending queue ds"
  by (subst notify_loop.simps) simp

lemma notify_loop_decide:
  "name_of nodes i = Some k \<Longrightarrow> bt_get nodes k = Some n \<Longrightarrow> ns_decided n = None \<Longrightarrow>
     fold (notify_dependent i st) (ns_dependents n)
       (bt_modify k (ns_decided_update (\<lambda>_. Some st)) nodes, queue, ds) = (n1, q1, d1) \<Longrightarrow>
     notify_loop nodes pending ((i, st) # queue) ds = notify_loop n1 (pending - 1) q1 d1"
  by (subst notify_loop.simps) simp

lemma notify_loop_ok:
  assumes "loop_ok init nodes pending queue (ds0 @ ds)" "notify_loop nodes pending queue ds = (nodes', pending', ds')"
  shows "loop_ok init nodes' pending' [] (ds0 @ ds') \<and> grows nodes nodes'"
  using assms
proof (induction nodes pending queue ds rule: notify_loop.induct)
  case (1 nodes pending queue ds)
  note ok = \<open>loop_ok init nodes pending queue (ds0 @ ds)\<close> and run = \<open>notify_loop nodes pending queue ds = (nodes', pending', ds')\<close>
  show ?case
  proof (cases queue)
    case Nil
    with ok run show ?thesis by (simp add: notify_loop_Nil grows_refl)
  next
    case (Cons w queue')
    obtain i st where w: "w = (i, st)" by (cases w)
    note shape = loop_okD(1) [OF ok]
    show ?thesis
    proof (cases "name_of nodes i")
      case None
      have skip: "from_name k' \<noteq> i" if "k' \<in> undecided nodes" for k'
        using name_of_None [OF shape None, of k'] that undecided_in_keys [of nodes] by blast
      have a: "loop_ok init nodes pending queue' (ds0 @ ds)"
        by (rule loop_ok_skip [OF ok [unfolded Cons w] skip])
      have b: "notify_loop nodes pending queue' ds = (nodes', pending', ds')"
        using run unfolding Cons w by (simp only: notify_loop_unknown [OF None])
      show ?thesis by (rule 1(1) [OF Cons w [symmetric] None a b])
    next
      case (Some k)
      note k = name_of_Some [OF shape Some]
      then obtain n where n: "bt_get nodes k = Some n" by (auto simp: keys_of_get)
      show ?thesis
      proof (cases "ns_decided n = None")
        case False
        have skip: "from_name k' \<noteq> i" if "k' \<in> undecided nodes" for k'
        proof
          assume "from_name k' = i"
          then have "k' = k" using k that shape_key_inj [OF shape, of k' k] undecided_in_keys [of nodes] by auto
          with that n False show False by (simp add: undecided_def)
        qed
        have a: "loop_ok init nodes pending queue' (ds0 @ ds)"
          by (rule loop_ok_skip [OF ok [unfolded Cons w] skip])
        have b: "notify_loop nodes pending queue' ds = (nodes', pending', ds')"
          using run unfolding Cons w by (simp only: notify_loop_again [OF Some n False])
        show ?thesis by (rule 1(3) [OF Cons w [symmetric] Some n False a b])
      next
        case True
        obtain n1 q1 d1 where r: "fold (notify_dependent i st) (ns_dependents n)
            (bt_modify k (ns_decided_update (\<lambda>_. Some st)) nodes, queue', ds) = (n1, q1, d1)"
          by (cases "fold (notify_dependent i st) (ns_dependents n)
            (bt_modify k (ns_decided_update (\<lambda>_. Some st)) nodes, queue', ds)")
        then have step: "decided_step k st nodes queue' ds = (n1, q1, d1)"
          using k n by (simp add: decided_step_def)
        obtain new where new: "d1 = ds @ new"
          by (rule decided_step_new [OF shape loop_okD(2) [OF ok] n True step]) simp
        have "loop_ok init n1 (pending - 1) q1 ((ds0 @ ds) @ new)"
          using ok k by (intro loop_ok_decide [OF _ n True step [unfolded new]]) (simp add: Cons w)
        then have ok1: "loop_ok init n1 (pending - 1) q1 (ds0 @ d1)" by (simp add: new)
        have b: "notify_loop n1 (pending - 1) q1 d1 = (nodes', pending', ds')"
          using run unfolding Cons w by (simp only: notify_loop_decide [OF Some n True r])
        have "loop_ok init nodes' pending' [] (ds0 @ ds') \<and> grows n1 nodes'"
          by (rule 1(4) [OF Cons w [symmetric] Some n _ r [symmetric] refl ok1 b]) (simp add: True)
        moreover have "grows nodes n1"
          using decided_step_abs [OF shape n True step] True n by (auto simp: grows_def decided_as_def)
        ultimately show ?thesis using grows_trans by blast
      qed
    qed
  qed
qed

text \<open>A driver's session: notifications one after the other, all decisions collected in order.\<close>

definition notify_step ::
  "node_id \<times> TerminalState \<Rightarrow> ReadinessTracker \<times> Decision list \<Rightarrow> ReadinessTracker \<times> Decision list" where
  "notify_step ev s = (case notify_terminal (fst ev) (snd ev) (fst s) of (t, ds) \<Rightarrow> (t, snd s @ ds))"

definition session_ok :: "ReadinessTracker \<times> Decision list \<Rightarrow> bool" where
  "session_ok s \<longleftrightarrow>
     loop_ok (rt_initial_ready (fst s)) (rt_nodes (fst s)) (rt_pending (fst s)) [] (snd s)"

definition session_grows :: "ReadinessTracker \<times> Decision list \<Rightarrow> ReadinessTracker \<times> Decision list \<Rightarrow> bool" where
  "session_grows s s' \<longleftrightarrow> grows (rt_nodes (fst s)) (rt_nodes (fst s'))
     \<and> rt_initial_ready (fst s') = rt_initial_ready (fst s) \<and> (\<exists>ds. snd s' = snd s @ ds)"

lemma notify_step_ok:
  assumes "session_ok s" shows "session_ok (notify_step ev s) \<and> session_grows s (notify_step ev s)"
proof -
  obtain t D where s: "s = (t, D)" by (cases s)
  obtain i st where ev: "ev = (i, st)" by (cases ev)
  obtain nodes pending ds where r: "notify_loop (rt_nodes t) (rt_pending t) [(i, st)] [] = (nodes, pending, ds)"
    by (cases "notify_loop (rt_nodes t) (rt_pending t) [(i, st)] []")
  have "loop_ok (rt_initial_ready t) (rt_nodes t) (rt_pending t) [(i, st)] (D @ [])"
    using assms by (auto simp: s session_ok_def loop_ok_def)
  from notify_loop_ok [OF this r] show ?thesis
    by (simp add: s ev notify_step_def notify_terminal_def r session_ok_def session_grows_def)
qed

interpretation session: invariant_machine notify_step session_ok
  by unfold_locales (simp add: notify_step_ok)

lemma session_run_grows: "session_ok s \<Longrightarrow> session_grows s (fold notify_step evs s)"
proof (rule session.run_mono)
  show "session_grows a a" for a by (simp add: session_grows_def grows_refl)
  show "session_grows a b \<Longrightarrow> session_grows b c \<Longrightarrow> session_grows a c" for a b c
    unfolding session_grows_def using grows_trans by fastforce
qed (simp_all add: notify_step_ok)

end
