(* ===== verification/Readiness_Session.thy ===== *)
theory Readiness_Session
  imports Readiness
begin

text \<open>
  Sessions of the readiness tracker: a tracker built from an assembled pipeline, driven by any
  sequence of notifications.  The fresh tracker satisfies the invariant of \<open>Readiness\<close> on every
  pipeline whose countdown is consistent (\<open>trackable\<close>), so the session properties follow from it;
  two shapes that assembly accepts and that are not trackable get stuck.
\<close>

section \<open>The initial tracker\<close>

text \<open>
  What a fresh tracker needs to start consistent: distinct identities, no node that both consumes
  and is ordered after the same upstream, and no tracked node upstream of which is a teardown.
\<close>

definition trackable :: "Pipeline \<Rightarrow> (string, string list) btree \<Rightarrow> bool" where
  "trackable p ords \<longleftrightarrow> pipeline_wf p \<and> ids_distinct p
     \<and> (\<forall>n \<in> set (tracked_nodes p).
          set (resolve_names p (data_upstreams n)) \<inter> set (ordering_upstreams p ords (pn_name n)) = {}
        \<and> set (upstream_names p ords n) \<subseteq> pn_name ` set (tracked_nodes p)
        \<and> length (upstream_names p ords n) \<le> u32_max)"

lemma add_dependents_get:
  "distinct ups \<Longrightarrow> bt_get (fold (\<lambda>up. bt_modify up (push_dependent c)) ups nodes) k =
     map_option (\<lambda>s. if k \<in> set ups then push_dependent c s else s) (bt_get nodes k)"
proof (induction ups arbitrary: nodes)
  case Nil
  then show ?case by (simp add: option.map_ident)
next
  case (Cons u ups)
  then show ?case by (cases "bt_get nodes k") (auto simp: bt_get_modify)
qed

definition dependents_from :: "Pipeline \<Rightarrow> (string, string list) btree \<Rightarrow> PipelineNode list \<Rightarrow> string \<Rightarrow> string list" where
  "dependents_from p ords ns k = map pn_name (filter (\<lambda>n. k \<in> set (upstream_names p ords n)) ns)"

lemma all_dependents_get:
  "bt_get (fold (add_dependents p ords) ns nodes) k =
     map_option (\<lambda>s. s\<lparr>ns_dependents := ns_dependents s @ dependents_from p ords ns k\<rparr>) (bt_get nodes k)"
proof (induction ns arbitrary: nodes)
  case Nil
  then show ?case by (simp add: dependents_from_def option.map_ident)
next
  case (Cons n ns)
  have "distinct (upstream_names p ords n)" by (simp add: upstream_names_def)
  with Cons show ?case
    by (cases "bt_get nodes k")
      (simp_all add: add_dependents_def add_dependents_get push_dependent_def dependents_from_def)
qed

lemma add_dependents_keys: "map fst (fold (add_dependents p ords) ns nodes) = map fst nodes"
proof -
  have "map fst (fold (\<lambda>up. bt_modify up (push_dependent c)) ups m) = map fst m" for c ups and m :: node_states
    by (induction ups arbitrary: m) simp_all
  then show ?thesis by (induction ns arbitrary: nodes) (simp_all add: add_dependents_def)
qed

lemma bt_get_map_snd: "bt_get (map (\<lambda>(k, s). (k, f s)) m) k = map_option f (bt_get m k)"
  by (induction m) (auto simp: bt_get_def)

lemma fresh_nodes:
  fixes p :: Pipeline and a :: AssemblyArtifact and ords :: "(string, string list) btree"
  assumes wf: "pipeline_wf p"
  defines "nodes \<equiv> rt_nodes (new_with_ordering p a ords)"
  shows "bt_ok nodes" "keys_of nodes = pn_name ` set (tracked_nodes p)"
    "n \<in> set (tracked_nodes p) \<Longrightarrow> bt_get nodes (pn_name n) = Some ((initial_state p a ords n)
        \<lparr>ns_dependents := sort_dedup (dependents_from p ords (tracked_nodes p) (pn_name n))\<rparr>)"
proof -
  let ?base = "fold (\<lambda>n. bt_insert (pn_name n) (initial_state p a ords n)) (tracked_nodes p) []"
  have nodes: "nodes = map (\<lambda>(k, s). (k, s\<lparr>ns_dependents := sort_dedup (ns_dependents s)\<rparr>))
      (fold (add_dependents p ords) (tracked_nodes p) ?base)"
    by (simp add: nodes_def new_with_ordering_def Let_def)
  have fst_nodes: "map fst nodes = map fst ?base"
    by (simp add: nodes comp_def split_def add_dependents_keys)
  have base_ok: "bt_ok ?base" by (rule bt.ok_fold) simp
  with fst_nodes show "bt_ok nodes" by (simp add: bt_ok_def)
  have inj: "inj_on pn_name (set (tracked_nodes p))"
    using names_distinct [OF wf] by (auto simp: tracked_nodes_def distinct_map intro: inj_on_subset)
  have get: "bt_get ?base (pn_name n) = Some (initial_state p a ords n)" if "n \<in> set (tracked_nodes p)" for n
    by (rule bt.get_fold_in [OF bt_ok_Nil inj that])
  have none: "bt_get ?base k = None" if "k \<notin> pn_name ` set (tracked_nodes p)" for k
    using bt.get_fold_notin [OF bt_ok_Nil that] by simp
  have "keys_of nodes = keys_of ?base" unfolding keys_of_def by (metis fst_nodes list.set_map)
  also have "\<dots> = pn_name ` set (tracked_nodes p)"
  proof (intro set_eqI iffI)
    fix k assume "k \<in> keys_of ?base"
    then obtain s where "bt_get ?base k = Some s" unfolding keys_of_get ..
    with none [of k] show "k \<in> pn_name ` set (tracked_nodes p)"
      by (cases "k \<in> pn_name ` set (tracked_nodes p)") simp_all
  next
    fix k assume "k \<in> pn_name ` set (tracked_nodes p)"
    then obtain n where "n \<in> set (tracked_nodes p)" "k = pn_name n" by blast
    with get [of n] show "k \<in> keys_of ?base" unfolding keys_of_get by (simp only: option.inject ex_simps) simp
  qed
  finally show "keys_of nodes = pn_name ` set (tracked_nodes p)" .
  show "bt_get nodes (pn_name n) = Some ((initial_state p a ords n)
        \<lparr>ns_dependents := sort_dedup (dependents_from p ords (tracked_nodes p) (pn_name n))\<rparr>)"
    if "n \<in> set (tracked_nodes p)"
    using get [OF that]
    by (simp add: nodes bt_get_map_snd all_dependents_get initial_state_def Let_def)
qed

lemma find_first_named:
  assumes "bt_ok m" "bt_get m k = Some v" "inj_on f (fst ` set m)"
  shows "List.find (\<lambda>(name, _). f name = f k) m = Some (k, v)"
proof -
  have mem: "(k, v) \<in> set m" using assms(1,2) by (simp add: bt_get_Some_iff)
  then obtain x where x: "List.find (\<lambda>(name, _). f name = f k) m = Some x"
    by (cases "List.find (\<lambda>(name, _). f name = f k) m") (auto simp: find_None_iff)
  from find_in [OF x] have "x \<in> set m" "f (fst x) = f k" by (auto simp: split_def)
  with mem inj_onD [OF assms(3), of "fst x" k] have "fst x = k" by force
  with \<open>x \<in> set m\<close> have "(k, snd x) \<in> set m" by (metis prod.collapse)
  then have "bt_get m k = Some (snd x)" using assms(1) by (simp add: bt_get_Some_iff)
  with assms(2) \<open>fst x = k\<close> have "x = (k, v)" by (cases x) simp
  with x show ?thesis by simp
qed

lemma names_inj:
  assumes "pipeline_wf p" "ids_distinct p" shows "inj_on from_name (names_of p)"
proof (rule inj_onI)
  fix x y
  assume "x \<in> names_of p" "y \<in> names_of p" and eq: "from_name x = from_name y"
  then obtain m n where mn: "m \<in> set (nodes_of p)" "n \<in> set (nodes_of p)" "x = pn_name m" "y = pn_name n"
    by (auto simp: names_of_def)
  with eq node_id_of_name [OF assms(1)] have "pn_id m = pn_id n" by simp
  with mn assms(2) have "m = n" by (auto simp: ids_distinct_def distinct_map dest: inj_onD)
  with mn show "x = y" by simp
qed

lemma remaining_lookup:
  assumes wf: "pipeline_wf p" "ids_distinct p" and a: "aa_remaining_deps a = precompute_remaining_deps p"
    and n: "n \<in> set (nodes_of p)"
  shows "remaining_dependency_count a (pn_id n) = Some (remaining_deps_of p n)"
proof -
  let ?m = "precompute_remaining_deps p"
  have ok: "bt_ok ?m" unfolding precompute_remaining_deps_def by (rule bt.ok_fold) simp
  have inj: "inj_on pn_name (set (nodes_of p))"
    using names_distinct [OF wf(1)] by (simp add: distinct_map)
  have get: "bt_get ?m (pn_name n) = Some (remaining_deps_of p n)"
    unfolding precompute_remaining_deps_def by (rule bt.get_fold_in [OF bt_ok_Nil inj n])
  have "fst ` set ?m \<subseteq> names_of p"
  proof
    fix k assume "k \<in> fst ` set ?m"
    then have "bt_get ?m k \<noteq> None" by (simp add: bt_get_None_iff)
    then show "k \<in> names_of p"
      unfolding precompute_remaining_deps_def names_of_def
      using bt.get_fold_notin [OF bt_ok_Nil, of k pn_name "nodes_of p" "remaining_deps_of p"]
      by (cases "k \<in> pn_name ` set (nodes_of p)") simp_all
  qed
  then have "inj_on from_name (fst ` set ?m)" by (rule inj_on_subset [OF names_inj [OF wf]])
  from find_first_named [OF ok get this] show ?thesis
    using node_id_of_name [OF wf(1) n] by (simp add: remaining_dependency_count_def a)
qed

lemma resolved_card:
  assumes wf: "pipeline_wf p"
  shows "length (filter (\<lambda>i. node_by_id p i \<noteq> None) (sort_dedup ids)) = card (set (resolve_names p ids))"
proof -
  have "length (filter (\<lambda>i. node_by_id p i \<noteq> None) (sort_dedup ids))
      = card {i \<in> set ids. node_by_id p i \<noteq> None}"
    by (subst distinct_card [symmetric]) simp_all
  also have "\<dots> = card ((\<lambda>i. pn_name (the (node_by_id p i))) ` {i \<in> set ids. node_by_id p i \<noteq> None})"
  proof (rule card_image [symmetric], rule inj_onI)
    fix i j
    assume "i \<in> {i \<in> set ids. node_by_id p i \<noteq> None}" "j \<in> {i \<in> set ids. node_by_id p i \<noteq> None}"
      and eq: "pn_name (the (node_by_id p i)) = pn_name (the (node_by_id p j))"
    then obtain m n where "node_by_id p i = Some m" "node_by_id p j = Some n" by auto
    with eq node_by_id_Some [of p i m] node_by_id_Some [of p j n] node_id_of_name [OF wf, of m]
      node_id_of_name [OF wf, of n] show "i = j" by simp
  qed
  also have "(\<lambda>i. pn_name (the (node_by_id p i))) ` {i \<in> set ids. node_by_id p i \<noteq> None} = set (resolve_names p ids)"
    by (force simp: resolve_names_def List.map_filter_def)
  finally show ?thesis .
qed

lemma initial_remaining:
  assumes t: "trackable p ords" and a: "aa_remaining_deps a = precompute_remaining_deps p"
    and n: "n \<in> set (tracked_nodes p)"
  shows "ns_remaining (initial_state p a ords n) = card (set (upstream_names p ords n))"
proof -
  let ?data = "set (resolve_names p (data_upstreams n))" and ?ord = "set (ordering_upstreams p ords (pn_name n))"
  from t n have wf: "pipeline_wf p" "ids_distinct p" and disj: "?data \<inter> ?ord = {}"
    and small: "length (upstream_names p ords n) \<le> u32_max" and node: "n \<in> set (nodes_of p)"
    by (auto simp: trackable_def tracked_nodes_def)
  have set_eq: "set (upstream_names p ords n) = ?data \<union> ?ord" by (simp add: upstream_names_def)
  then have sum: "card (set (upstream_names p ords n)) = card ?data + card ?ord"
    using disj by (simp add: card_Un_disjoint)
  have len: "length (ordering_upstreams p ords (pn_name n)) = card ?ord"
    by (simp add: ordering_upstreams_def Let_def length_sort_dedup)
  have fits: "card ?data + card ?ord \<le> u32_max"
    using small sum by (simp add: upstream_names_def length_sort_dedup)
  have "remaining_deps_of p n = card ?data"
    using fits unfolding remaining_deps_of_def resolved_card [OF wf(1)] by simp
  then show ?thesis
    using fits sum len remaining_lookup [OF wf a node]
    by (simp add: initial_state_def Let_def u32_saturating_add_id)
qed

lemma fresh_ups:
  assumes t: "trackable p ords" and n: "n \<in> set (tracked_nodes p)"
  shows "ups_of (rt_nodes (new_with_ordering p a ords)) (pn_name n) = set (upstream_names p ords n)"
proof -
  let ?nodes = "rt_nodes (new_with_ordering p a ords)"
  from t have wf: "pipeline_wf p" by (simp add: trackable_def)
  note fresh = fresh_nodes [where a = a and ords = ords, OF wf]
  have inj: "m = n" if "m \<in> set (tracked_nodes p)" "pn_name m = pn_name n" for m
    using names_distinct [OF wf] that n by (auto simp: tracked_nodes_def distinct_map dest: inj_onD)
  have sub: "set (upstream_names p ords n) \<subseteq> pn_name ` set (tracked_nodes p)"
    using t n by (simp add: trackable_def)
  have "u \<in> ups_of ?nodes (pn_name n) \<longleftrightarrow> u \<in> set (upstream_names p ords n)" for u
  proof (cases "u \<in> pn_name ` set (tracked_nodes p)")
    case False
    then have "u \<notin> ups_of ?nodes (pn_name n)"
      using ups_in_keys [of ?nodes "pn_name n"] fresh(2) by auto
    with False sub show ?thesis by blast
  next
    case True
    then obtain m where m: "m \<in> set (tracked_nodes p)" "u = pn_name m" by blast
    have "u \<in> ups_of ?nodes (pn_name n) \<longleftrightarrow> pn_name n \<in> set (dependents_from p ords (tracked_nodes p) u)"
      by (simp add: ups_of_def m(2) fresh(3) [OF m(1)])
    also have "\<dots> \<longleftrightarrow> u \<in> set (upstream_names p ords n)"
      using inj n by (auto simp: dependents_from_def)
    finally show ?thesis .
  qed
  then show ?thesis by blast
qed

lemma fresh_session_ok:
  assumes t: "trackable p ords" and a: "aa_remaining_deps a = precompute_remaining_deps p"
  shows "session_ok (new_with_ordering p a ords, [])"
proof -
  define tr where "tr = new_with_ordering p a ords"
  define nodes where "nodes = rt_nodes tr"
  from t have wf: "pipeline_wf p" "ids_distinct p" by (simp_all add: trackable_def)
  note fresh = fresh_nodes [where a = a and ords = ords, OF wf(1), folded tr_def, folded nodes_def]
  have entry: "\<exists>n \<in> set (tracked_nodes p). k = pn_name n \<and> ns_id s = from_name k \<and> ns_decided s = None
      \<and> ns_upstream_states s = [] \<and> distinct (ns_dependents s) \<and> ns_remaining s = card (ups_of nodes k)"
    if "bt_get nodes k = Some s" for k s
  proof -
    from that fresh(2) obtain n where n: "n \<in> set (tracked_nodes p)" "k = pn_name n"
      using keys_of_get [of k nodes] by blast
    then have node: "n \<in> set (nodes_of p)" by (simp add: tracked_nodes_def)
    have "s = (initial_state p a ords n)
        \<lparr>ns_dependents := sort_dedup (dependents_from p ords (tracked_nodes p) (pn_name n))\<rparr>"
      using fresh(3) [OF n(1)] that n(2) by simp
    moreover have "ns_remaining (initial_state p a ords n) = card (ups_of nodes k)"
      unfolding initial_remaining [OF t a n(1)] n(2) nodes_def tr_def fresh_ups [OF t n(1)] ..
    ultimately show ?thesis
      using n node node_id_of_name [OF wf(1) node] by (auto simp: initial_state_def Let_def)
  qed
  have und: "undecided nodes = keys_of nodes"
    using entry by (fastforce simp: undecided_def keys_of_get)
  have inter: "ups_of nodes k \<inter> undecided nodes = ups_of nodes k" "ups_of nodes k - undecided nodes = {}" for k
    using und ups_in_keys [of nodes k] by auto
  have inj: "inj_on from_name (keys_of nodes)"
    using names_inj [OF wf] fresh(2) by (auto simp: names_of_def tracked_nodes_def intro: inj_on_subset)
  have shape: "shape_ok nodes"
    unfolding shape_ok_def using fresh(1) inj entry by blast
  have countdown: "countdown_ok nodes"
    unfolding countdown_ok_def inter using entry by fastforce
  have init: "rt_initial_ready tr = map ns_id (filter (\<lambda>s. ns_remaining s = 0) (bt_values nodes))"
    by (simp add: tr_def nodes_def new_with_ordering_def Let_def)
  have rem: "ns_id s = from_name k \<and> (ns_remaining s = 0 \<longleftrightarrow> ups_of nodes k = {})"
    if "bt_get nodes k = Some s" for k s
    using entry [OF that] by auto
  have init_iff: "i \<in> set (rt_initial_ready tr) \<longleftrightarrow> (\<exists>k \<in> keys_of nodes. i = from_name k \<and> ups_of nodes k = {})" for i
  proof -
    have same: "(bt_get nodes k = Some s \<and> ns_id s = i \<and> ns_remaining s = 0) \<longleftrightarrow>
        bt_get nodes k = Some s \<and> i = from_name k \<and> ups_of nodes k = {}" for k s
      using rem [of k s] by auto
    have "i \<in> set (rt_initial_ready tr) \<longleftrightarrow> (\<exists>k s. bt_get nodes k = Some s \<and> ns_id s = i \<and> ns_remaining s = 0)"
      unfolding bt_get_Some_iff [OF fresh(1)] init bt_values_def by force
    then show ?thesis
      unfolding same by (auto simp: keys_of_get)
  qed
  have dist: "distinct (rt_initial_ready tr)"
  proof -
    have "map ns_id (bt_values nodes) = map from_name (map fst nodes)"
      using entry fresh(1) by (fastforce simp: bt_values_def bt_get_Some_iff)
    moreover have "distinct (map from_name (map fst nodes))"
      using inj bt_keys_distinct [OF fresh(1)] by (simp add: distinct_map keys_of_def comp_inj_on)
    ultimately show ?thesis unfolding init by (metis distinct_map_filter)
  qed
  have pend: "rt_pending tr = undecided_count nodes"
  proof -
    have "rt_pending tr = length nodes"
      by (simp add: tr_def nodes_def new_with_ordering_def Let_def)
    also have "\<dots> = card (keys_of nodes)"
      using bt_keys_distinct [OF fresh(1)] by (metis keys_of_def distinct_card length_map list.set_map)
    finally show ?thesis using fresh(1) und by (simp add: undecided_count_card)
  qed
  show ?thesis
    unfolding session_ok_def loop_ok_def
    using shape countdown pend dist init_iff inter(1) und
    by (auto simp: tr_def [symmetric] nodes_def [symmetric])
qed

section \<open>Properties of a session\<close>

definition run_session ::
  "Pipeline \<Rightarrow> AssemblyArtifact \<Rightarrow> (string, string list) btree \<Rightarrow> (node_id \<times> TerminalState) list
     \<Rightarrow> ReadinessTracker \<times> Decision list" where
  "run_session p a ords evs = fold notify_step evs (new_with_ordering p a ords, [])"

text \<open>The node waits for these tracked upstreams, of whatever the run has decided so far.\<close>

definition waiting_for :: "Pipeline \<Rightarrow> (string, string list) btree \<Rightarrow> ReadinessTracker \<Rightarrow> PipelineNode \<Rightarrow> string set"
where
  "waiting_for p ords t n = {u \<in> set (upstream_names p ords n). terminal_state_of t (from_name u) = None}"

lemma run_session_ok:
  assumes "trackable p ords" "aa_remaining_deps a = precompute_remaining_deps p"
  shows "session_ok (run_session p a ords evs)"
    and "grows (rt_nodes (new_with_ordering p a ords)) (rt_nodes (fst (run_session p a ords evs)))"
    and "rt_initial_ready (fst (run_session p a ords evs)) = rt_initial_ready (new_with_ordering p a ords)"
  using session.run_inv [OF fresh_session_ok [OF assms]] session_run_grows [OF fresh_session_ok [OF assms], of evs]
  by (simp_all add: run_session_def session_grows_def)

lemma node_state_lookup:
  assumes "shape_ok (rt_nodes t)"
  shows "k \<in> keys_of (rt_nodes t) \<Longrightarrow> node_state t (from_name k) = bt_get (rt_nodes t) k"
    and "node_state t i = Some s \<Longrightarrow> \<exists>k \<in> keys_of (rt_nodes t). i = from_name k"
proof -
  have entry: "ns_id s = from_name k" "k \<in> keys_of (rt_nodes t)" if "(k, s) \<in> set (rt_nodes t)" for k s
    using assms that by (auto simp: shape_ok_def bt_get_Some_iff [symmetric] keys_of_get)
  show "\<exists>k \<in> keys_of (rt_nodes t). i = from_name k" if "node_state t i = Some s"
    using find_in [OF that [unfolded node_state_def]] entry by (auto simp: bt_values_def)
  show "node_state t (from_name k) = bt_get (rt_nodes t) k" if "k \<in> keys_of (rt_nodes t)"
  proof -
    from that obtain s where s: "bt_get (rt_nodes t) k = Some s" by (auto simp: keys_of_get)
    then have mem: "(k, s) \<in> set (rt_nodes t)" using assms by (simp add: shape_ok_def bt_get_Some_iff)
    then obtain x where x: "node_state t (from_name k) = Some x"
      using entry [OF mem] by (cases "node_state t (from_name k)")
        (force simp: node_state_def bt_values_def find_None_iff)+
    from find_in [OF x [unfolded node_state_def]] obtain k' where
      k': "(k', x) \<in> set (rt_nodes t)" "ns_id x = from_name k" by (auto simp: bt_values_def)
    then have "k' = k" using entry [OF k'(1)] that shape_key_inj [OF assms, of k' k] by simp
    with k'(1) assms have "bt_get (rt_nodes t) k = Some x" by (simp add: shape_ok_def bt_get_Some_iff)
    with x show ?thesis by simp
  qed
qed

lemma terminal_state_lookup:
  "shape_ok (rt_nodes t) \<Longrightarrow> k \<in> keys_of (rt_nodes t) \<Longrightarrow>
     terminal_state_of t (from_name k) = decided_as (rt_nodes t) k"
  by (auto simp: terminal_state_of_def node_state_lookup decided_as_def split: option.split)

lemma undecided_iff:
  "u \<in> undecided nodes \<longleftrightarrow> u \<in> keys_of nodes \<and> decided_as nodes u = None"
  by (auto simp: undecided_def keys_of_get decided_as_def)

lemma tracked_id:
  assumes "trackable p ords" "n \<in> set (tracked_nodes p)"
  shows "pn_id n = from_name (pn_name n)"
proof -
  have "pipeline_wf p" using assms(1) by (simp add: trackable_def)
  moreover have "n \<in> set (nodes_of p)" using assms(2) by (simp add: tracked_nodes_def)
  ultimately show ?thesis by (rule node_id_of_name)
qed

lemma session_graph:
  fixes evs :: "(node_id \<times> TerminalState) list"
  assumes t: "trackable p ords" and a: "aa_remaining_deps a = precompute_remaining_deps p"
    and n: "n \<in> set (tracked_nodes p)"
  defines "tr \<equiv> fst (run_session p a ords evs)"
  shows "shape_ok (rt_nodes tr)" "keys_of (rt_nodes tr) = pn_name ` set (tracked_nodes p)"
    "ups_of (rt_nodes tr) (pn_name n) = set (upstream_names p ords n)"
    "ups_of (rt_nodes tr) (pn_name n) \<inter> undecided (rt_nodes tr) = waiting_for p ords tr n"
proof -
  have wf: "pipeline_wf p" using t by (simp add: trackable_def)
  note ok = run_session_ok [OF t a, of evs, folded tr_def]
  show shape: "shape_ok (rt_nodes tr)"
    using ok(1) loop_okD(1) by (simp add: session_ok_def tr_def [symmetric])
  show keys: "keys_of (rt_nodes tr) = pn_name ` set (tracked_nodes p)"
    using ok(2) fresh_nodes(2) [OF wf] by (simp add: grows_def)
  show ups: "ups_of (rt_nodes tr) (pn_name n) = set (upstream_names p ords n)"
    using ok(2) fresh_ups [OF t n] by (simp add: grows_def)
  have "set (upstream_names p ords n) \<subseteq> keys_of (rt_nodes tr)"
    using t n keys by (simp add: trackable_def)
  then show "ups_of (rt_nodes tr) (pn_name n) \<inter> undecided (rt_nodes tr) = waiting_for p ords tr n"
    unfolding ups waiting_for_def
    using terminal_state_lookup [OF shape] by (auto simp: undecided_iff)
qed

text \<open>
  The countdown is exact at every moment of every session over a trackable pipeline (no node is
  both a consumer of and ordered after the same upstream, none is ordered after a teardown; assembly
  accepts both shapes, and there the count stays too high, \<open>stuck_shapes\<close>): the remaining-dependency
  count of a node that is not decided is the number of its distinct data and ordering upstreams that
  are not terminal yet, and the pending count is the number of tracked nodes not decided yet.
\<close>

theorem countdown_exact:
  assumes "trackable p ords" "aa_remaining_deps a = precompute_remaining_deps p"
    and "run_session p a ords evs = (t, decisions)"
    and "n \<in> set (tracked_nodes p)" "terminal_state_of t (pn_id n) = None"
  shows "remaining_dependencies t (pn_id n) = Some (card (waiting_for p ords t n))
     \<and> pending_count t = card {k \<in> pn_name ` set (tracked_nodes p). terminal_state_of t (from_name k) = None}"
proof -
  note g = session_graph [OF assms(1,2,4), of evs, unfolded assms(3) fst_conv]
  have ok: "loop_ok (rt_initial_ready t) (rt_nodes t) (rt_pending t) [] decisions"
    using run_session_ok(1) [OF assms(1,2), of evs] by (simp add: assms(3) session_ok_def)
  have id: "pn_id n = from_name (pn_name n)"
    by (rule tracked_id [OF assms(1,4)])
  have key: "pn_name n \<in> keys_of (rt_nodes t)" using g(2) assms(4) by simp
  then obtain s where s: "bt_get (rt_nodes t) (pn_name n) = Some s" by (auto simp: keys_of_get)
  have "ns_decided s = None"
    using assms(5) s node_state_lookup(1) [OF g(1) key] by (simp add: terminal_state_of_def id)
  then have "ns_remaining s = card (waiting_for p ords t n)"
    using loop_okD(2) [OF ok] s g(4) by (simp add: countdown_ok_def)
  moreover have "pending_count t = card (undecided (rt_nodes t))"
    using loop_okD(3) [OF ok] g(1) by (simp add: undecided_count_card shape_ok_def pending_count_def)
  moreover have "undecided (rt_nodes t) = {k \<in> pn_name ` set (tracked_nodes p). terminal_state_of t (from_name k) = None}"
    using terminal_state_lookup [OF g(1)] g(2) by (auto simp: undecided_iff)
  ultimately show ?thesis
    using s node_state_lookup(1) [OF g(1) key] by (simp add: remaining_dependencies_def id)
qed

definition counted_artifact :: "Pipeline \<Rightarrow> AssemblyArtifact" where
  "counted_artifact p = \<lparr>aa_consumer_counts = [], aa_remaining_deps = precompute_remaining_deps p, aa_order = [],
     aa_fingerprint = compute_fingerprint p, aa_env_allowlist = [], aa_warnings = [], aa_canonical = []\<rparr>"

lemma counted_artifact [simp]: "aa_remaining_deps (counted_artifact p) = precompute_remaining_deps p"
  by (simp add: counted_artifact_def)

lemma sample_trackable: "trackable (build sample_regs) []"
proof -
  have "ids_distinct (build sample_regs)
     \<and> list_all (\<lambda>n. set (resolve_names (build sample_regs) (data_upstreams n))
            \<inter> set (ordering_upstreams (build sample_regs) [] (pn_name n)) = {}
        \<and> set (upstream_names (build sample_regs) [] n) \<subseteq> pn_name ` set (tracked_nodes (build sample_regs))
        \<and> length (upstream_names (build sample_regs) [] n) \<le> 2) (tracked_nodes (build sample_regs))"
    by code_simp
  moreover have "k \<le> 2 \<Longrightarrow> k \<le> u32_max" for k by (simp add: u32_max_def)
  ultimately show ?thesis by (simp add: trackable_def build_wf list_all_iff)
qed

theorem countdown_exact_witness:
  "\<exists>t decisions n. run_session (build sample_regs) (counted_artifact (build sample_regs)) []
       [(from_name ''a'', Succeeded)] = (t, decisions)
     \<and> n \<in> set (tracked_nodes (build sample_regs)) \<and> terminal_state_of t (pn_id n) = None
     \<and> remaining_dependencies t (pn_id n) = Some (card (waiting_for (build sample_regs) [] t n))"
proof -
  let ?p = "build sample_regs"
  let ?a = "counted_artifact ?p"
  let ?r = "run_session ?p ?a [] [(from_name ''a'', Succeeded)]"
  let ?n = "tracked_nodes ?p ! 2"
  have n: "?n \<in> set (tracked_nodes ?p)" by (rule nth_mem) code_simp
  have u: "terminal_state_of (fst ?r) (pn_id ?n) = None" by code_simp
  have r: "?r = (fst ?r, snd ?r)" by simp
  from countdown_exact [OF sample_trackable counted_artifact r n u] n u r show ?thesis by blast
qed

text \<open>
  C22. Every decision a session hands out is right and final: no node is surfaced twice (counting
  the initial frontier), every upstream of a surfaced node is terminal, a node is surfaced as ready
  exactly when its rule fires on the upstream states, and a propagated state is the table's, is
  already recorded for the node, and names an upstream as its origin.
\<close>

theorem decisions_right_once:
  assumes "trackable p ords" "aa_remaining_deps a = precompute_remaining_deps p"
    and "run_session p a ords evs = (t, decisions)"
  shows "distinct (rt_initial_ready t @ map decision_node decisions)
     \<and> (\<forall>d \<in> set decisions. decision_right (rt_nodes t) d)
     \<and> (\<forall>i st origin. PropagatedTerminal i st origin \<in> set decisions \<longrightarrow> terminal_state_of t i = Some st)"
proof -
  have ok: "loop_ok (rt_initial_ready t) (rt_nodes t) (rt_pending t) [] decisions"
    using run_session_ok(1) [OF assms(1,2), of evs] by (simp add: assms(3) session_ok_def)
  note inv = loop_okD [OF ok]
  have "terminal_state_of t i = Some st" if d: "PropagatedTerminal i st origin \<in> set decisions" for i st origin
  proof -
    from inv(7) [OF d] obtain k where k: "k \<in> keys_of (rt_nodes t)" "from_name k = i"
      by (auto simp: decision_right_def)
    from inv(8) [OF d k] have "decided_as (rt_nodes t) k = Some st" by simp
    with terminal_state_lookup [OF inv(1) k(1)] k(2) show ?thesis by simp
  qed
  with inv(5,7) show ?thesis by blast
qed

theorem decisions_right_once_witness:
  "\<exists>t decisions. run_session (build sample_regs) (counted_artifact (build sample_regs)) []
       [(from_name ''a'', Failed)] = (t, decisions)
     \<and> distinct (rt_initial_ready t @ map decision_node decisions)
     \<and> (\<forall>d \<in> set decisions. decision_right (rt_nodes t) d)
     \<and> (\<forall>i st origin. PropagatedTerminal i st origin \<in> set decisions \<longrightarrow> terminal_state_of t i = Some st)"
proof -
  let ?r = "run_session (build sample_regs) (counted_artifact (build sample_regs)) [] [(from_name ''a'', Failed)]"
  have r: "?r = (fst ?r, snd ?r)" by simp
  from decisions_right_once [OF sample_trackable counted_artifact r] r show ?thesis by blast
qed

text \<open>
  A terminal state is never revised: whatever is notified later, also a contradicting state for
  the same node, a node that has one keeps it.
\<close>

theorem terminal_state_final:
  assumes "trackable p ords" "aa_remaining_deps a = precompute_remaining_deps p"
    and "terminal_state_of (fst (run_session p a ords evs)) i = Some st"
  shows "terminal_state_of (fst (run_session p a ords (evs @ later))) i = Some st"
proof -
  let ?s = "run_session p a ords evs"
  have ok: "session_ok ?s" "session_ok (run_session p a ords (evs @ later))"
    using run_session_ok(1) [OF assms(1,2)] by blast+
  have "session_grows ?s (fold notify_step later ?s)" by (rule session_run_grows [OF ok(1)])
  then have g: "grows (rt_nodes (fst ?s)) (rt_nodes (fst (run_session p a ords (evs @ later))))"
    by (simp add: run_session_def session_grows_def)
  have shape: "shape_ok (rt_nodes (fst ?s))" "shape_ok (rt_nodes (fst (run_session p a ords (evs @ later))))"
    using ok loop_okD(1) unfolding session_ok_def by blast+
  from assms(3) obtain x where "node_state (fst ?s) i = Some x"
    by (auto simp: terminal_state_of_def split: option.splits)
  from node_state_lookup(2) [OF shape(1) this] obtain k where
    k: "k \<in> keys_of (rt_nodes (fst ?s))" "i = from_name k" by blast
  with assms(3) terminal_state_lookup [OF shape(1) k(1)] have "decided_as (rt_nodes (fst ?s)) k = Some st" by simp
  with g k terminal_state_lookup [OF shape(2), of k] show ?thesis by (simp add: grows_def)
qed

theorem terminal_state_final_witness:
  "terminal_state_of (fst (run_session (build sample_regs) (counted_artifact (build sample_regs)) []
      ([(from_name ''a'', Failed)] @ [(from_name ''a'', Succeeded)]))) (from_name ''a'') = Some Failed"
proof (rule terminal_state_final [OF sample_trackable counted_artifact])
  show "terminal_state_of (fst (run_session (build sample_regs) (counted_artifact (build sample_regs)) []
      [(from_name ''a'', Failed)])) (from_name ''a'') = Some Failed" by code_simp
qed

text \<open>The graph a session walks, data and ordering together, has a rank.\<close>

definition tracked_ranked :: "Pipeline \<Rightarrow> (string, string list) btree \<Rightarrow> (string \<Rightarrow> nat) \<Rightarrow> bool" where
  "tracked_ranked p ords rank \<longleftrightarrow>
     (\<forall>n \<in> set (tracked_nodes p). \<forall>u \<in> set (upstream_names p ords n). rank u < rank (pn_name n))"

text \<open>
  C12. A session over a trackable pipeline never stalls: while a node is undecided, some undecided node
  has already been surfaced as ready, in the initial frontier or by a decision, so a driver that runs
  what it is given and reports back always has a node to run until nothing is pending.  Trackable means
  that identities are distinct, that no node both consumes and is ordered after the same upstream, and
  that none is ordered after a teardown; data and ordering edges together have no cycle.  Assembly
  accepts pipelines of the two excluded shapes, and there a session does stall (lemma stuck_shapes).
\<close>

theorem session_progress:
  assumes "trackable p ords" "aa_remaining_deps a = precompute_remaining_deps p"
    and acyclic: "tracked_ranked p ords rank"
    and "run_session p a ords evs = (t, decisions)" and "pending_count t \<noteq> 0"
  shows "\<exists>n \<in> set (tracked_nodes p). terminal_state_of t (pn_id n) = None
     \<and> (pn_id n \<in> set (rt_initial_ready t) \<or> Ready (pn_id n) \<in> set decisions)"
proof -
  have ok: "loop_ok (rt_initial_ready t) (rt_nodes t) (rt_pending t) [] decisions"
    using run_session_ok(1) [OF assms(1,2), of evs] by (simp add: assms(4) session_ok_def)
  note inv = loop_okD [OF ok]
  have "card (undecided (rt_nodes t)) \<noteq> 0"
    using assms(5) inv(1,3) by (simp add: pending_count_def undecided_count_card shape_ok_def)
  then have "undecided (rt_nodes t) \<noteq> {}" by auto
  then obtain k where k: "k \<in> undecided (rt_nodes t)" "\<forall>j. rank j < rank k \<longrightarrow> j \<notin> undecided (rt_nodes t)"
    using exists_least_iff [of "\<lambda>r. \<exists>k \<in> undecided (rt_nodes t). rank k = r"] by auto
  have wf: "pipeline_wf p" using assms(1) by (simp add: trackable_def)
  have "keys_of (rt_nodes t) = pn_name ` set (tracked_nodes p)"
    using run_session_ok(2) [OF assms(1,2), of evs] fresh_nodes(2) [OF wf] by (simp add: assms(4) grows_def)
  then obtain n where n: "n \<in> set (tracked_nodes p)" "k = pn_name n"
    using k(1) undecided_in_keys [of "rt_nodes t"] by auto
  note g = session_graph [OF assms(1,2) n(1), of evs, unfolded assms(4) fst_conv]
  have "ups_of (rt_nodes t) k \<inter> undecided (rt_nodes t) = {}"
    using acyclic n k(2) g(3) by (auto simp: tracked_ranked_def)
  from inv(4) [OF k(1) this] have "from_name k \<in> set (rt_initial_ready t) \<or> Ready (from_name k) \<in> set decisions"
    by simp
  moreover have "terminal_state_of t (from_name k) = None"
    using k(1) terminal_state_lookup [OF g(1)] by (simp add: undecided_iff)
  ultimately show ?thesis
    using n tracked_id [OF assms(1) n(1)] by (intro bexI [of _ n]) simp_all
qed

theorem session_progress_witness:
  "\<exists>t decisions n. run_session (build sample_regs) (counted_artifact (build sample_regs)) []
       [(from_name ''a'', Succeeded)] = (t, decisions)
     \<and> n \<in> set (tracked_nodes (build sample_regs)) \<and> terminal_state_of t (pn_id n) = None
     \<and> (pn_id n \<in> set (rt_initial_ready t) \<or> Ready (pn_id n) \<in> set decisions)"
proof -
  let ?p = "build sample_regs"
  let ?r = "run_session ?p (counted_artifact ?p) [] [(from_name ''a'', Succeeded)]"
  have rank: "tracked_ranked ?p [] (\<lambda>k. if k = ''a'' then 0 else if k = ''b'' then 1 else 2)"
    by code_simp
  have pend: "pending_count (fst ?r) \<noteq> 0" by code_simp
  have r: "?r = (fst ?r, snd ?r)" by simp
  from session_progress [OF sample_trackable counted_artifact rank r pend] r show ?thesis by blast
qed

section \<open>Shapes that get stuck\<close>

text \<open>A consumer that is also ordered after its producer; a node ordered after a teardown.\<close>

definition double_edge_flow :: Pipeline where
  "double_edge_flow = build
     [RegSource ''a'' sample_task None default_policy Absent AllSucceeded [],
      RegData ''b'' sample_task [(from_name ''a'', Shared)] None default_policy Absent [from_name ''a'']]"

definition after_teardown_flow :: Pipeline where
  "after_teardown_flow = finish (fst (register_source_in_group_with ''b'' sample_task None default_policy Absent
     AllSucceeded [from_name ''t'']
     (fst (register_teardown_with ''t'' sample_task [from_name ''a''] default_policy
       (fst (register_source ''a'' sample_task flow_new))))))"

definition stalls :: "Pipeline \<Rightarrow> bool" where
  "stalls p \<longleftrightarrow> assembly_problems p = []
     \<and> rt_initial_ready (tracker_new p (counted_artifact p)) = [from_name ''a'']
     \<and> (case notify_terminal (from_name ''a'') Succeeded (tracker_new p (counted_artifact p)) of
          (t, decisions) \<Rightarrow> decisions = [] \<and> pending_count t = 1
            \<and> remaining_dependencies t (from_name ''b'') = Some 1)"

text \<open>
  Two pipelines that assembly accepts stall: a node with a data edge and an ordering edge to
  the same upstream counts that upstream twice and is told of it once, and a node ordered after a
  teardown counts an upstream that the tracker does not track.  After the only surfaced node
  succeeds, nothing is surfaced and one node stays pending with a countdown of one.
\<close>

lemma stuck_shapes: "stalls double_edge_flow \<and> stalls after_teardown_flow"
proof -
  have "assembly_problems double_edge_flow = []" "assembly_problems after_teardown_flow = []"
    by code_simp+
  moreover have "rt_initial_ready (tracker_new double_edge_flow (counted_artifact double_edge_flow)) = [from_name ''a'']"
    "rt_initial_ready (tracker_new after_teardown_flow (counted_artifact after_teardown_flow)) = [from_name ''a'']"
    by code_simp+
  moreover have "case notify_terminal (from_name ''a'') Succeeded
      (tracker_new double_edge_flow (counted_artifact double_edge_flow)) of
        (t, decisions) \<Rightarrow> decisions = [] \<and> pending_count t = 1 \<and> remaining_dependencies t (from_name ''b'') = Some 1"
    "case notify_terminal (from_name ''a'') Succeeded
      (tracker_new after_teardown_flow (counted_artifact after_teardown_flow)) of
        (t, decisions) \<Rightarrow> decisions = [] \<and> pending_count t = 1 \<and> remaining_dependencies t (from_name ''b'') = Some 1"
    by code_simp+
  ultimately show ?thesis by (simp add: stalls_def)
qed

end
