(* ===== verification/Admission.thy ===== *)
theory Admission
  imports Slot "HOL-Library.Multiset" "HOL-Library.Sublist"
begin

text \<open>
  Admission control (\<open>crates/core/src/admission.rs\<close>): four pools charged when a permit is issued and
  refunded when it is dropped, a queue of waiters with overtaking, the zombie register, and the
  residency ledger that accounts for output held after a permit is gone.  The controller's mutex
  makes every operation atomic, so the model is the state under the lock and one function per method.
\<close>

section \<open>Pools, capacities and costs\<close>

datatype Pool = Memory | BlockingThreads | ComputeThreads | RemoteSlots

definition POOL_ALL :: "Pool list" where
  "POOL_ALL = [Memory, BlockingThreads, ComputeThreads, RemoteSlots]"

datatype PlacementHandling = Honoured | Ignored

record PoolCapacities =
  pc_memory :: u64
  pc_memory_constrained :: bool
  pc_blocking_threads :: u32
  pc_compute_threads :: u32
  pc_remote_slots :: u32

definition capacities_new :: PoolCapacities where
  "capacities_new = \<lparr>pc_memory = -1, pc_memory_constrained = False, pc_blocking_threads = -1,
     pc_compute_threads = -1, pc_remote_slots = -1\<rparr>"

definition cap_memory :: "u64 \<Rightarrow> PoolCapacities \<Rightarrow> PoolCapacities" where
  "cap_memory bytes c = c\<lparr>pc_memory := bytes, pc_memory_constrained := True\<rparr>"

definition cap_blocking_threads :: "u32 \<Rightarrow> PoolCapacities \<Rightarrow> PoolCapacities" where
  "cap_blocking_threads threads c = c\<lparr>pc_blocking_threads := threads\<rparr>"

definition cap_compute_threads :: "u32 \<Rightarrow> PoolCapacities \<Rightarrow> PoolCapacities" where
  "cap_compute_threads threads c = c\<lparr>pc_compute_threads := threads\<rparr>"

definition cap_remote_slots :: "u32 \<Rightarrow> PoolCapacities \<Rightarrow> PoolCapacities" where
  "cap_remote_slots slots c = c\<lparr>pc_remote_slots := slots\<rparr>"

fun total :: "PoolCapacities \<Rightarrow> Pool \<Rightarrow> u64" where
  "total c Memory = pc_memory c"
| "total c BlockingThreads = ucast (pc_blocking_threads c)"
| "total c ComputeThreads = ucast (pc_compute_threads c)"
| "total c RemoteSlots = ucast (pc_remote_slots c)"

record PoolCost =
  co_working_memory :: u64
  co_output_residency :: u64
  co_blocking_threads :: u32
  co_compute_threads :: u32
  co_remote_slots :: u32

definition from_cost_vector :: "CostVector \<Rightarrow> PoolCost" where
  "from_cost_vector c = \<lparr>co_working_memory = cv_working_memory c, co_output_residency = cv_output_residency c,
     co_blocking_threads = cv_blocking_threads c, co_compute_threads = cv_compute_threads c,
     co_remote_slots = 0\<rparr>"

text \<open>A placed node runs elsewhere: it takes one remote slot and no local memory or thread.\<close>

definition from_policy :: "NodePolicy \<Rightarrow> PlacementHandling \<Rightarrow> PoolCost" where
  "from_policy policy handling =
     (let declared = from_cost_vector (np_cost policy) in
      case (np_placement policy, handling) of
        (Some _, Honoured) \<Rightarrow>
          \<lparr>co_working_memory = 0, co_output_residency = co_output_residency declared,
           co_blocking_threads = 0, co_compute_threads = 0, co_remote_slots = 1\<rparr>
      | _ \<Rightarrow> declared)"

fun demand_on :: "PoolCost \<Rightarrow> Pool \<Rightarrow> u64" where
  "demand_on c Memory = co_working_memory c"
| "demand_on c BlockingThreads = ucast (co_blocking_threads c)"
| "demand_on c ComputeThreads = ucast (co_compute_threads c)"
| "demand_on c RemoteSlots = ucast (co_remote_slots c)"

section \<open>The controller\<close>

record ZombieCost =
  zc_working_memory :: u64
  zc_blocking_threads :: u32
  zc_compute_threads :: u32

record ZombieRecord =
  zr_node :: string
  zr_pinned :: ZombieCost

record ZombieReport =
  zp_live_zombie_count :: nat
  zp_zombies :: "ZombieRecord list"

record Waiter =
  wt_node :: string
  wt_cost :: PoolCost

record Permit =
  pm_node :: string
  pm_cost :: PoolCost

record Inner =
  in_caps :: PoolCapacities
  in_remaining_memory :: u64
  in_remaining_blocking :: u32
  in_remaining_compute :: u32
  in_remaining_remote :: u32
  in_zombies :: "ZombieRecord list"
  in_waiters :: "Waiter list"
  in_residency :: "ResidencyLedger option"

fun remaining :: "Inner \<Rightarrow> Pool \<Rightarrow> u64" where
  "remaining i Memory = in_remaining_memory i"
| "remaining i BlockingThreads = ucast (in_remaining_blocking i)"
| "remaining i ComputeThreads = ucast (in_remaining_compute i)"
| "remaining i RemoteSlots = ucast (in_remaining_remote i)"

definition fits :: "Inner \<Rightarrow> PoolCost \<Rightarrow> bool" where
  "fits i cost = list_all (\<lambda>pool. demand_on cost pool \<le> remaining i pool) POOL_ALL"

definition fits_total :: "Inner \<Rightarrow> PoolCost \<Rightarrow> bool" where
  "fits_total i cost = list_all (\<lambda>pool. demand_on cost pool \<le> total (in_caps i) pool) POOL_ALL"

text \<open>The code's \<open>-=\<close> and \<open>+\<close> on fixed-width integers: they wrap here.\<close>

definition charge :: "PoolCost \<Rightarrow> Inner \<Rightarrow> Inner" where
  "charge cost i = i
     \<lparr>in_remaining_memory := in_remaining_memory i - co_working_memory cost,
      in_remaining_blocking := in_remaining_blocking i - co_blocking_threads cost,
      in_remaining_compute := in_remaining_compute i - co_compute_threads cost,
      in_remaining_remote := in_remaining_remote i - co_remote_slots cost\<rparr>"

definition release :: "PoolCost \<Rightarrow> Inner \<Rightarrow> Inner" where
  "release cost i = i
     \<lparr>in_remaining_memory := min (in_remaining_memory i + co_working_memory cost) (pc_memory (in_caps i)),
      in_remaining_blocking :=
        min (in_remaining_blocking i + co_blocking_threads cost) (pc_blocking_threads (in_caps i)),
      in_remaining_compute :=
        min (in_remaining_compute i + co_compute_threads cost) (pc_compute_threads (in_caps i)),
      in_remaining_remote :=
        min (in_remaining_remote i + co_remote_slots cost) (pc_remote_slots (in_caps i))\<rparr>"

text \<open>The first waiter that fits: the head if it does, else the first later one.\<close>

definition next_admissible :: "Inner \<Rightarrow> nat option" where
  "next_admissible i =
     (case in_waiters i of
        [] \<Rightarrow> None
      | front # rest \<Rightarrow>
          if fits i (wt_cost front) then Some 0
          else map_option fst (List.find (\<lambda>(_, w). fits i (wt_cost w)) (tl (enumerate 0 (in_waiters i)))))"

definition controller_new :: "PoolCapacities \<Rightarrow> Inner" where
  "controller_new caps = \<lparr>in_caps = caps, in_remaining_memory = pc_memory caps,
     in_remaining_blocking = pc_blocking_threads caps, in_remaining_compute = pc_compute_threads caps,
     in_remaining_remote = pc_remote_slots caps, in_zombies = [], in_waiters = [],
     in_residency = None\<rparr>"

definition try_admit :: "string \<Rightarrow> PoolCost \<Rightarrow> Inner \<Rightarrow> Permit option \<times> Inner" where
  "try_admit node cost i =
     (if \<not> fits i cost then (None, i)
      else (Some \<lparr>pm_node = node, pm_cost = cost\<rparr>, charge cost i))"

definition can_ever_fit :: "Inner \<Rightarrow> PoolCost \<Rightarrow> bool" where
  "can_ever_fit i cost = fits_total i cost"

fun pool_unit :: "Pool \<Rightarrow> string" where
  "pool_unit Memory = ''bytes''"
| "pool_unit BlockingThreads = ''threads''"
| "pool_unit ComputeThreads = ''threads''"
| "pool_unit RemoteSlots = ''remote slots''"

fun show_pool :: "Pool \<Rightarrow> string" where
  "show_pool Memory = ''Memory''"
| "show_pool BlockingThreads = ''BlockingThreads''"
| "show_pool ComputeThreads = ''ComputeThreads''"
| "show_pool RemoteSlots = ''RemoteSlots''"

definition over_demand_reason :: "Inner \<Rightarrow> PoolCost \<Rightarrow> string option" where
  "over_demand_reason i cost =
     map_option (\<lambda>pool. ''declared cost '' @ show_nat (unat (demand_on cost pool)) @ '' '' @ pool_unit pool
         @ '' exceeds '' @ show_pool pool @ '' pool capacity '' @ show_nat (unat (total (in_caps i) pool))
         @ '' '' @ pool_unit pool)
       (List.find (\<lambda>pool. demand_on cost pool > total (in_caps i) pool) POOL_ALL)"

definition offer :: "string \<Rightarrow> PoolCost \<Rightarrow> Inner \<Rightarrow> Inner" where
  "offer node cost i = i\<lparr>in_waiters := in_waiters i @ [\<lparr>wt_node = node, wt_cost = cost\<rparr>]\<rparr>"

definition remove_nth :: "nat \<Rightarrow> 'a list \<Rightarrow> 'a list" where
  "remove_nth k xs = take k xs @ drop (Suc k) xs"

definition admit_waiter :: "nat \<Rightarrow> Inner \<Rightarrow> Inner \<times> Permit" where
  "admit_waiter k i =
     (let waiter = in_waiters i ! k in
      (charge (wt_cost waiter) (i\<lparr>in_waiters := remove_nth k (in_waiters i)\<rparr>),
       \<lparr>pm_node = wt_node waiter, pm_cost = wt_cost waiter\<rparr>))"

lemma find_enumerate_bound:
  assumes "List.find P (enumerate n xs) = Some (k, x)"
  shows "n \<le> k \<and> k - n < length xs \<and> xs ! (k - n) = x \<and> P (k, x)"
  using assms
proof (induction xs arbitrary: n)
  case Nil
  then show ?case by simp
next
  case (Cons y ys)
  show ?case
  proof (cases "P (n, y)")
    case True
    with Cons.prems show ?thesis by auto
  next
    case False
    with Cons.prems Cons.IH [of "Suc n"] have ih: "Suc n \<le> k" "k - Suc n < length ys" "ys ! (k - Suc n) = x" "P (k, x)"
      by auto
    then have "k - n = Suc (k - Suc n)" by simp
    with ih show ?thesis by simp
  qed
qed

lemma next_admissible_Some:
  assumes "next_admissible i = Some k"
  shows "k < length (in_waiters i) \<and> fits i (wt_cost (in_waiters i ! k))"
proof (cases "in_waiters i")
  case Nil
  with assms show ?thesis by (simp add: next_admissible_def)
next
  case (Cons w ws)
  show ?thesis
  proof (cases "fits i (wt_cost w)")
    case True
    with assms Cons show ?thesis by (simp add: next_admissible_def)
  next
    case False
    with assms Cons obtain x where f: "List.find (\<lambda>(_, w). fits i (wt_cost w)) (enumerate (Suc 0) ws) = Some (k, x)"
      by (auto simp: next_admissible_def)
    from find_enumerate_bound [OF this] have "1 \<le> k" "k - 1 < length ws" "ws ! (k - 1) = x" "fits i (wt_cost x)"
      by auto
    with Cons show ?thesis by (simp add: nth_Cons')
  qed
qed

text \<open>\<open>poll_admissions\<close>: admit while some waiter fits; each round removes one waiter.\<close>

function poll_loop :: "Inner \<Rightarrow> Permit list \<Rightarrow> Inner \<times> Permit list" where
  "poll_loop i admitted =
     (case next_admissible i of
        None \<Rightarrow> (i, admitted)
      | Some k \<Rightarrow> (case admit_waiter k i of (i', permit) \<Rightarrow> poll_loop i' (admitted @ [permit])))"
  by pat_completeness auto
termination
  by (relation "measure (\<lambda>(i, _). length (in_waiters i))")
    (auto dest!: next_admissible_Some simp: admit_waiter_def Let_def charge_def remove_nth_def)

declare poll_loop.simps [simp del]

definition poll_admissions :: "Inner \<Rightarrow> Inner \<times> Permit list" where
  "poll_admissions i = poll_loop i []"

definition mark_zombie :: "Permit \<Rightarrow> Inner \<Rightarrow> Inner" where
  "mark_zombie permit i = i\<lparr>in_zombies := in_zombies i @
     [\<lparr>zr_node = pm_node permit,
       zr_pinned = \<lparr>zc_working_memory = co_working_memory (pm_cost permit),
                    zc_blocking_threads = co_blocking_threads (pm_cost permit),
                    zc_compute_threads = co_compute_threads (pm_cost permit)\<rparr>\<rparr>]\<rparr>"

definition zombie_report :: "Inner \<Rightarrow> ZombieReport" where
  "zombie_report i = \<lparr>zp_live_zombie_count = length (in_zombies i), zp_zombies = in_zombies i\<rparr>"

definition has_live_zombie :: "Inner \<Rightarrow> bool" where
  "has_live_zombie i \<longleftrightarrow> in_zombies i \<noteq> []"

text \<open>Dropping a permit refunds its cost and forgets the first zombie of its node.\<close>

fun remove_first_zombie :: "string \<Rightarrow> ZombieRecord list \<Rightarrow> ZombieRecord list" where
  "remove_first_zombie node [] = []"
| "remove_first_zombie node (z # zs) =
     (if zr_node z = node then zs else z # remove_first_zombie node zs)"

definition permit_drop :: "Permit \<Rightarrow> Inner \<Rightarrow> Inner" where
  "permit_drop permit i =
     (let i = release (pm_cost permit) i
      in i\<lparr>in_zombies := remove_first_zombie (pm_node permit) (in_zombies i)\<rparr>)"

definition with_residency_ledger :: "ResidencyLedger \<Rightarrow> Inner \<Rightarrow> Inner" where
  "with_residency_ledger ledger i = i\<lparr>in_residency := Some ledger\<rparr>"

definition counted :: "Inner \<Rightarrow> Pool \<Rightarrow> u64" where
  "counted i pool =
     (let charged = total (in_caps i) pool - remaining i pool in
      case pool of
        Memory \<Rightarrow> charged + (case in_residency i of Some l \<Rightarrow> rl_current l | None \<Rightarrow> 0)
      | _ \<Rightarrow> charged)"

definition all_pools_full :: "Inner \<Rightarrow> bool" where
  "all_pools_full i = list_all (\<lambda>pool. counted i pool = 0) POOL_ALL"

record ResidencyLease =
  le_node :: string
  le_bytes :: u64

definition transfer_residency :: "string \<Rightarrow> u64 \<Rightarrow> Inner \<Rightarrow> ResidencyLease \<times> Inner" where
  "transfer_residency node bytes i =
     (let ledger = (case in_residency i of Some l \<Rightarrow> l | None \<Rightarrow> ledger_new) in
      (\<lparr>le_node = node, le_bytes = bytes\<rparr>, i\<lparr>in_residency := Some (ledger_charge bytes ledger)\<rparr>))"

definition residency_lease_drop :: "ResidencyLease \<Rightarrow> Inner \<Rightarrow> Inner" where
  "residency_lease_drop lease i =
     i\<lparr>in_residency := map_option (ledger_release (le_bytes lease)) (in_residency i)\<rparr>"

definition warn_if_undeclared :: "string \<Rightarrow> PoolCost \<Rightarrow> Inner \<Rightarrow> string option" where
  "warn_if_undeclared node cost i =
     (if pc_memory_constrained (in_caps i) \<and> co_working_memory cost = 0 then Some node else None)"

section \<open>A controller in use\<close>

datatype adm_op =
    TryAdmit string PoolCost | Offer string PoolCost | Poll | DropPermit nat | MarkZombie nat
  | TransferResidency string u64 | DropLease nat

text \<open>The state under the lock, the live permits and the live residency leases.\<close>

type_synonym adm_sys = "Inner \<times> Permit list \<times> ResidencyLease list"

fun adm_step :: "adm_op \<Rightarrow> adm_sys \<Rightarrow> adm_sys" where
  "adm_step (TryAdmit node cost) (i, ps, ls) =
     (case try_admit node cost i of (None, i') \<Rightarrow> (i', ps, ls) | (Some p, i') \<Rightarrow> (i', ps @ [p], ls))"
| "adm_step (Offer node cost) (i, ps, ls) = (offer node cost i, ps, ls)"
| "adm_step Poll (i, ps, ls) = (case poll_admissions i of (i', admitted) \<Rightarrow> (i', ps @ admitted, ls))"
| "adm_step (DropPermit k) (i, ps, ls) =
     (if k < length ps then (permit_drop (ps ! k) i, remove_nth k ps, ls) else (i, ps, ls))"
| "adm_step (MarkZombie k) (i, ps, ls) =
     (if k < length ps then (mark_zombie (ps ! k) i, ps, ls) else (i, ps, ls))"
| "adm_step (TransferResidency node bytes) (i, ps, ls) =
     (case transfer_residency node bytes i of (lease, i') \<Rightarrow> (i', ps, ls @ [lease]))"
| "adm_step (DropLease k) (i, ps, ls) =
     (if k < length ls then (residency_lease_drop (ls ! k) i, ps, remove_nth k ls) else (i, ps, ls))"

section \<open>Conservation\<close>

text \<open>What the live permits hold of a pool, as a natural number (no wrap-around).\<close>

definition held :: "Pool \<Rightarrow> Permit list \<Rightarrow> nat" where
  "held pool ps = sum_list (map (\<lambda>p. unat (demand_on (pm_cost p) pool)) ps)"

definition conserved :: "PoolCapacities \<Rightarrow> adm_sys \<Rightarrow> bool" where
  "conserved caps = (\<lambda>(i, ps, ls).
     in_caps i = caps
     \<and> (\<forall>pool. unat (remaining i pool) + held pool ps = unat (total caps pool))
     \<and> (case in_residency i of None \<Rightarrow> ls = [] | Some l \<Rightarrow> rl_current l = sum_list (map le_bytes ls)))"

lemma unat_u64_u32 [simp]: "unat (ucast (x :: u32) :: u64) = unat x"
  by (simp add: unsigned_ucast_eq take_bit_nat_eq_self_iff order_less_trans [OF unsigned_less])

lemma held_simps [simp]:
  "held pool [] = 0" "held pool (p # ps) = unat (demand_on (pm_cost p) pool) + held pool ps"
  "held pool (ps @ qs) = held pool ps + held pool qs"
  by (simp_all add: held_def)

lemma held_remove_nth:
  "k < length ps \<Longrightarrow> held pool ps = held pool (remove_nth k ps) + unat (demand_on (pm_cost (ps ! k)) pool)"
  by (subst id_take_nth_drop [of k ps]) (simp_all add: remove_nth_def del: append_take_drop_id)

lemma fits_iff: "fits i cost \<longleftrightarrow> (\<forall>pool. demand_on cost pool \<le> remaining i pool)"
proof -
  have "(\<forall>pool. P pool) \<longleftrightarrow> P Memory \<and> P BlockingThreads \<and> P ComputeThreads \<and> P RemoteSlots" for P
    by (metis Pool.exhaust)
  then show ?thesis by (simp add: fits_def POOL_ALL_def)
qed

lemma fits_total_iff: "fits_total i cost \<longleftrightarrow> (\<forall>pool. demand_on cost pool \<le> total (in_caps i) pool)"
proof -
  have "(\<forall>pool. P pool) \<longleftrightarrow> P Memory \<and> P BlockingThreads \<and> P ComputeThreads \<and> P RemoteSlots" for P
    by (metis Pool.exhaust)
  then show ?thesis by (simp add: fits_total_def POOL_ALL_def)
qed

lemma ucast_u32_le: "(ucast (x :: u32) :: u64) \<le> ucast y \<longleftrightarrow> x \<le> y"
  by (simp add: word_le_nat_alt)

lemma charge_remaining:
  "fits i cost \<Longrightarrow> unat (remaining (charge cost i) pool) = unat (remaining i pool) - unat (demand_on cost pool)"
  by (cases pool) (auto simp: fits_def POOL_ALL_def charge_def ucast_u32_le unat_sub)

lemma release_remaining:
  assumes "unat (remaining i pool) + unat (demand_on cost pool) \<le> unat (total (in_caps i) pool)"
  shows "unat (remaining (release cost i) pool) = unat (remaining i pool) + unat (demand_on cost pool)"
proof -
  have plus: "unat (min (x + y) m) = unat x + unat y" if "unat x + unat y \<le> unat m" for x y m :: "'a::len word"
  proof -
    have "unat m < 2 ^ LENGTH('a)" by (rule unsigned_less)
    with that have "unat x + unat y < 2 ^ LENGTH('a)" by linarith
    then have "unat (x + y) = unat x + unat y" by (simp add: unat_word_ariths)
    with that show ?thesis by (simp add: min_def word_le_nat_alt)
  qed
  show ?thesis
    using assms by (cases pool) (simp_all add: release_def plus)
qed

lemma charge_caps [simp]: "in_caps (charge cost i) = in_caps i" "in_residency (charge cost i) = in_residency i"
  "in_waiters (charge cost i) = in_waiters i"
  by (simp_all add: charge_def)

lemma release_caps [simp]: "in_caps (release cost i) = in_caps i" "in_residency (release cost i) = in_residency i"
  by (simp_all add: release_def)

lemma remaining_waiters [simp]: "remaining (i\<lparr>in_waiters := ws\<rparr>) pool = remaining i pool"
  by (cases pool) simp_all

lemma remaining_zombies [simp]: "remaining (i\<lparr>in_zombies := zs\<rparr>) pool = remaining i pool"
  by (cases pool) simp_all

lemma remaining_residency [simp]: "remaining (i\<lparr>in_residency := r\<rparr>) pool = remaining i pool"
  by (cases pool) simp_all

lemma fits_waiters [simp]: "fits (i\<lparr>in_waiters := ws\<rparr>) cost = fits i cost"
  by (simp add: fits_iff)

lemma conserved_charge:
  assumes "conserved caps (i, ps, ls)" "fits i (pm_cost p)"
  shows "conserved caps (charge (pm_cost p) (i\<lparr>in_waiters := ws\<rparr>), ps @ [p], ls)"
proof -
  have "unat (demand_on (pm_cost p) pool) \<le> unat (remaining i pool)" for pool
    using assms(2) by (simp add: fits_iff word_le_nat_alt)
  moreover have "unat (remaining i pool) + held pool ps = unat (total caps pool)" for pool
    using assms(1) by (simp add: conserved_def)
  ultimately have "unat (remaining i pool) - unat (demand_on (pm_cost p) pool)
      + (held pool ps + unat (demand_on (pm_cost p) pool)) = unat (total caps pool)" for pool
    by (metis add.assoc add.commute le_add_diff_inverse)
  then show ?thesis
    using assms by (simp add: conserved_def charge_remaining)
qed

lemma conserved_drop:
  assumes "conserved caps (i, ps, ls)" "k < length ps"
  shows "conserved caps (permit_drop (ps ! k) i, remove_nth k ps, ls)"
proof -
  have held_k: "held pool ps = held pool (remove_nth k ps) + unat (demand_on (pm_cost (ps ! k)) pool)" for pool
    by (rule held_remove_nth [OF assms(2)])
  have sum: "unat (remaining i pool) + held pool ps = unat (total caps pool)" for pool
    using assms(1) by (simp add: conserved_def)
  have rel: "unat (remaining (release (pm_cost (ps ! k)) i) pool)
      = unat (remaining i pool) + unat (demand_on (pm_cost (ps ! k)) pool)" for pool
    using assms(1) sum [of pool] held_k [of pool] by (intro release_remaining) (simp add: conserved_def)
  have "unat (remaining (release (pm_cost (ps ! k)) i) pool) + held pool (remove_nth k ps)
      = unat (total caps pool)" for pool
    using rel [of pool] sum [of pool] held_k [of pool] by linarith
  with assms(1) show ?thesis
    by (simp add: conserved_def permit_drop_def Let_def)
qed

lemma poll_step:
  assumes "next_admissible i = Some k" "admit_waiter k i = (i', p)"
  shows "k < length (in_waiters i)" "fits i (pm_cost p)"
    "i' = charge (pm_cost p) (i\<lparr>in_waiters := remove_nth k (in_waiters i)\<rparr>)"
    "pm_node p = wt_node (in_waiters i ! k)" "pm_cost p = wt_cost (in_waiters i ! k)"
  using assms next_admissible_Some [OF assms(1)] by (auto simp: admit_waiter_def Let_def)

lemma poll_loop_conserved:
  "conserved caps (i, ps @ admitted, ls) \<Longrightarrow> poll_loop i admitted = (i', admitted') \<Longrightarrow>
     conserved caps (i', ps @ admitted', ls)"
proof (induction i admitted rule: poll_loop.induct)
  case (1 i admitted)
  show ?case
  proof (cases "next_admissible i")
    case None
    with 1(2,3) show ?thesis by (simp add: poll_loop.simps [of i])
  next
    case (Some k)
    obtain i1 p where a: "admit_waiter k i = (i1, p)" by (cases "admit_waiter k i")
    note step = poll_step [OF Some a]
    have "conserved caps (i1, (ps @ admitted) @ [p], ls)"
      unfolding step(3) by (rule conserved_charge [OF 1(2) step(2)])
    moreover have "poll_loop i1 (admitted @ [p]) = (i', admitted')"
      using 1(3) Some a by (simp add: poll_loop.simps [of i])
    ultimately show ?thesis using 1(1) [OF Some a [symmetric]] by simp
  qed
qed

lemma adm_step_conserved:
  assumes "conserved caps sys" shows "conserved caps (adm_step op sys)"
proof -
  obtain i ps ls where sys: "sys = (i, ps, ls)" by (cases sys) auto
  show ?thesis
  proof (cases op)
    case (TryAdmit node cost)
    with assms conserved_charge [of caps i ps ls "\<lparr>pm_node = node, pm_cost = cost\<rparr>" "in_waiters i"] show ?thesis
      by (simp add: sys try_admit_def)
  next
    case (DropPermit k)
    with assms conserved_drop [of caps i ps ls k] show ?thesis by (simp add: sys)
  next
    case Poll
    obtain i' admitted where p: "poll_loop i [] = (i', admitted)" by (cases "poll_loop i []")
    from poll_loop_conserved [of caps i ps "[]" ls, OF _ p] assms Poll p show ?thesis
      by (simp add: sys poll_admissions_def)
  next
    case (DropLease k)
    have "sum_list (map le_bytes ls) = sum_list (map le_bytes (remove_nth k ls)) + le_bytes (ls ! k)"
      if "k < length ls"
      using that by (subst id_take_nth_drop [of k ls]) (simp_all add: remove_nth_def del: append_take_drop_id)
    with assms DropLease show ?thesis
      by (auto simp: sys conserved_def residency_lease_drop_def ledger_release_def split: option.splits)
  next
    case (TransferResidency node bytes)
    with assms show ?thesis
      by (auto simp: sys conserved_def transfer_residency_def ledger_charge_def ledger_new_def Let_def
          split: option.splits)
  qed (use assms in \<open>auto simp: sys conserved_def offer_def mark_zombie_def\<close>)
qed

interpretation admission: invariant_machine adm_step "conserved caps" for caps
  by unfold_locales (rule adm_step_conserved)

lemma controller_new_conserved: "conserved caps (controller_new caps, [], [])"
proof -
  have "remaining (controller_new caps) pool = total caps pool" for pool
    by (cases pool) (simp_all add: controller_new_def)
  then show ?thesis by (simp add: conserved_def) (simp add: controller_new_def)
qed

text \<open>
  C14. The pools are conserved by every sequence of operations: in each pool what remains plus what
  the live permits hold is exactly the capacity, so no charge or refund ever wraps, nothing leaks and
  nothing is refunded twice; and the ledger carries exactly the live residency leases.
\<close>

theorem admission_conserved: "conserved caps (fold adm_step ops (controller_new caps, [], []))"
  by (rule admission.run_inv [OF controller_new_conserved])

lemma next_admissible_None:
  assumes "next_admissible i = None" "w \<in> set (in_waiters i)" shows "\<not> fits i (wt_cost w)"
proof (cases "in_waiters i")
  case Nil
  with assms(2) show ?thesis by simp
next
  case (Cons front rest)
  with assms(1) have front: "\<not> fits i (wt_cost front)"
    and none: "List.find (\<lambda>(_, w). fits i (wt_cost w)) (enumerate (Suc 0) rest) = None"
    by (auto simp: next_admissible_def split: if_splits)
  show ?thesis
  proof (cases "w = front")
    case True
    with front show ?thesis by simp
  next
    case False
    with assms(2) Cons have "w \<in> snd ` set (enumerate (Suc 0) rest)"
      by (metis list.set_map map_snd_enumerate set_ConsD)
    with none show ?thesis by (auto simp: find_None_iff)
  qed
qed

lemma remove_nth_mset: "k < length xs \<Longrightarrow> mset xs = add_mset (xs ! k) (mset (remove_nth k xs))"
  by (subst id_take_nth_drop [of k xs]) (simp_all add: remove_nth_def del: append_take_drop_id)

lemma remove_nth_subseq: "subseq (remove_nth k xs) xs"
proof (induction xs arbitrary: k)
  case Nil
  then show ?case by (simp add: remove_nth_def)
next
  case (Cons x xs)
  from Cons.IH [of "k - 1"] show ?case
    by (cases k) (simp_all add: remove_nth_def list_emb_Cons)
qed

definition as_waiter :: "Permit \<Rightarrow> Waiter" where
  "as_waiter p = \<lparr>wt_node = pm_node p, wt_cost = pm_cost p\<rparr>"

lemma poll_loop_complete:
  "poll_loop i admitted = (i', admitted') \<Longrightarrow>
     next_admissible i' = None \<and> subseq (in_waiters i') (in_waiters i)
     \<and> mset (map as_waiter admitted') + mset (in_waiters i') = mset (map as_waiter admitted) + mset (in_waiters i)"
proof (induction i admitted rule: poll_loop.induct)
  case (1 i admitted)
  show ?case
  proof (cases "next_admissible i")
    case None
    with 1(2) show ?thesis by (simp add: poll_loop.simps [of i])
  next
    case (Some k)
    obtain i1 p where a: "admit_waiter k i = (i1, p)" by (cases "admit_waiter k i")
    note step = poll_step [OF Some a]
    have w: "as_waiter p = in_waiters i ! k" by (simp add: as_waiter_def step(4,5))
    have i1: "in_waiters i1 = remove_nth k (in_waiters i)" by (simp add: step(3))
    have r: "poll_loop i1 (admitted @ [p]) = (i', admitted')"
      using 1(2) Some a by (simp add: poll_loop.simps [of i])
    note ih = 1(1) [OF Some a [symmetric] r]
    then have "subseq (in_waiters i') (in_waiters i)"
      unfolding i1 using remove_nth_subseq subseq_order.order_trans by blast
    with ih show ?thesis
      using remove_nth_mset [OF step(1)] by (simp add: w i1)
  qed
qed

text \<open>
  A poll admits everything it can: afterwards no waiter left in the queue fits what remains, the
  admitted permits and the waiters left are together the old queue, and the waiters left keep their
  order.
\<close>

theorem poll_complete:
  "case poll_admissions i of (i', admitted) \<Rightarrow>
     list_all (\<lambda>w. \<not> fits i' (wt_cost w)) (in_waiters i')
     \<and> mset (map as_waiter admitted) + mset (in_waiters i') = mset (in_waiters i)
     \<and> subseq (in_waiters i') (in_waiters i)"
proof -
  obtain i' admitted where p: "poll_loop i [] = (i', admitted)" by (cases "poll_loop i []")
  from poll_loop_complete [OF p] next_admissible_None [of i'] show ?thesis
    by (simp add: poll_admissions_def p list_all_iff)
qed

text \<open>
  C36. The queue cannot deadlock: whenever no permit is live and some waiter's cost is within the
  capacities, a poll admits at least one waiter.
\<close>

theorem poll_no_deadlock:
  assumes "fold adm_step ops (controller_new caps, [], []) = (i, [], ls)"
    and "w \<in> set (in_waiters i)" "can_ever_fit i (wt_cost w)"
  shows "snd (poll_admissions i) \<noteq> []"
proof
  assume none: "snd (poll_admissions i) = []"
  have "conserved caps (i, [], ls)"
    using admission.run_inv [of caps "(controller_new caps, [], [])" ops] assms(1) controller_new_conserved
    by simp
  then have "remaining i pool = total (in_caps i) pool" for pool
    by (simp add: conserved_def word_unat_eq_iff)
  then have fit: "fits i (wt_cost w)"
    using assms(3) by (simp add: fits_iff fits_total_iff can_ever_fit_def)
  obtain i' admitted where p: "poll_loop i [] = (i', admitted)" by (cases "poll_loop i []")
  with none have "admitted = []" by (simp add: poll_admissions_def)
  with poll_loop_complete [OF p] have "mset (in_waiters i') = mset (in_waiters i)" by simp
  then have "length (in_waiters i') = length (in_waiters i)" by (rule mset_eq_length)
  have "next_admissible i \<noteq> None" using next_admissible_None [OF _ assms(2)] fit by blast
  then obtain k where k: "next_admissible i = Some k" by blast
  obtain i1 p1 where a: "admit_waiter k i = (i1, p1)" by (cases "admit_waiter k i")
  have r: "poll_loop i1 [p1] = (i', [])"
    using p k a \<open>admitted = []\<close> by (simp add: poll_loop.simps [of i])
  from poll_loop_complete [OF r] have "length (in_waiters i') = Suc (length (in_waiters i1))"
    by (auto dest: arg_cong [where f = size])
  moreover have "subseq (in_waiters i') (in_waiters i1)" using poll_loop_complete [OF r] by blast
  ultimately show False by (auto dest: list_emb_length)
qed

definition sample_caps :: PoolCapacities where
  "sample_caps = cap_memory 100 (cap_blocking_threads 2 capacities_new)"

definition sample_cost :: "u64 \<Rightarrow> u32 \<Rightarrow> PoolCost" where
  "sample_cost memory threads = \<lparr>co_working_memory = memory, co_output_residency = 0,
     co_blocking_threads = threads, co_compute_threads = 0, co_remote_slots = 0\<rparr>"

theorem poll_no_deadlock_witness:
  "snd (poll_admissions (fst (fold adm_step [TryAdmit ''a'' (sample_cost 90 1), Offer ''b'' (sample_cost 60 2),
       Offer ''c'' (sample_cost 30 1), Poll, DropPermit 0] (controller_new sample_caps, [], [])))) \<noteq> []"
proof -
  let ?ops = "[TryAdmit ''a'' (sample_cost 90 1), Offer ''b'' (sample_cost 60 2),
       Offer ''c'' (sample_cost 30 1), Poll, DropPermit 0]"
  let ?s = "fold adm_step ?ops (controller_new sample_caps, [], [])"
  obtain i ps ls where s: "?s = (i, ps, ls)" by (cases ?s) auto
  have "fst (snd ?s) = []" by code_simp
  then have ps: "ps = []" by (simp only: s fst_conv snd_conv)
  have "length (in_waiters (fst ?s)) = 2" by code_simp
  then have "length (in_waiters i) = 2" by (simp only: s fst_conv)
  then have w: "in_waiters i ! 0 \<in> set (in_waiters i)" by (intro nth_mem) simp
  have "can_ever_fit (fst ?s) (wt_cost (in_waiters (fst ?s) ! 0))" by code_simp
  then have f: "can_ever_fit i (wt_cost (in_waiters i ! 0))" by (simp only: s fst_conv)
  from poll_no_deadlock [OF s [unfolded ps] w f] show ?thesis by (simp only: s fst_conv) simp
qed

end
