(* ===== verification/Json.thy ===== *)
theory Json
  imports Prelude
begin

text \<open>
  The JSON values every artifact is made of, and the canonical serializer
  (\<open>crates/artifact/src/canonical.rs\<close>).  A value is \<open>serde_json::Value\<close>: an object is an ordered map,
  a number is an unsigned, a negative or a double.  How a double is printed belongs to
  the library that prints it: it is the parameter \<open>ft\<close>, from the bits of the double.  The lemmas show
  that a canonical text determines its value, also inside a longer text, and has no control byte.
\<close>

section \<open>Values\<close>

datatype Number = PosInt u64 | NegInt "64 word" | Float u64

datatype Json =
    JNull
  | JBool bool
  | JNumber Number
  | JString string
  | JArray "Json list"
  | JObject "(string \<times> Json) list"

type_synonym float_text = "u64 \<Rightarrow> string"

text \<open>\<open>Value::get\<close>, \<open>as_str\<close>, \<open>as_u64\<close>, \<open>as_array\<close>, \<open>as_object\<close>, \<open>is_null\<close>.\<close>

definition j_get :: "string \<Rightarrow> Json \<Rightarrow> Json option" where
  "j_get k v = (case v of JObject m \<Rightarrow> bt_get m k | _ \<Rightarrow> None)"

definition as_str :: "Json \<Rightarrow> string option" where
  "as_str v = (case v of JString s \<Rightarrow> Some s | _ \<Rightarrow> None)"

definition as_u64 :: "Json \<Rightarrow> u64 option" where
  "as_u64 v = (case v of JNumber (PosInt n) \<Rightarrow> Some n | _ \<Rightarrow> None)"

definition as_array :: "Json \<Rightarrow> Json list option" where
  "as_array v = (case v of JArray xs \<Rightarrow> Some xs | _ \<Rightarrow> None)"

definition as_object :: "Json \<Rightarrow> (string \<times> Json) list option" where
  "as_object v = (case v of JObject m \<Rightarrow> Some m | _ \<Rightarrow> None)"

definition is_null :: "Json \<Rightarrow> bool" where
  "is_null v \<longleftrightarrow> v = JNull"

definition json_nat :: "u64 \<Rightarrow> Json" where
  "json_nat n = JNumber (PosInt n)"

text \<open>A map filled by insertions, and one collected from an iterator of pairs.\<close>

definition collect_map :: "(string \<times> 'v) list \<Rightarrow> (string, 'v) btree" where
  "collect_map kvs = fold (\<lambda>(k, v). bt_insert k v) kvs []"

definition json_obj :: "(string \<times> Json) list \<Rightarrow> Json" where
  "json_obj kvs = JObject (collect_map kvs)"

section \<open>Canonical text\<close>

definition number_text :: "float_text \<Rightarrow> Number \<Rightarrow> string" where
  "number_text ft n =
     (case n of
        PosInt u \<Rightarrow> show_nat (unat u)
      | NegInt i \<Rightarrow> CHR ''-'' # show_nat (nat (- sint i))
      | Float bits \<Rightarrow> ft bits)"

text \<open>
  The escape of one byte.  The code walks characters; a character outside ASCII is written as it is,
  so byte by byte gives the same text.
\<close>

definition escape_byte :: "char \<Rightarrow> string" where
  "escape_byte c =
     (if c = CHR 0x22 then [CHR 0x5C, CHR 0x22]
      else if c = CHR 0x5C then [CHR 0x5C, CHR 0x5C]
      else if c = CHR 0x0A then [CHR 0x5C, CHR ''n'']
      else if c = CHR 0x0D then [CHR 0x5C, CHR ''r'']
      else if c = CHR 0x09 then [CHR 0x5C, CHR ''t'']
      else if c = CHR 0x08 then [CHR 0x5C, CHR ''b'']
      else if c = CHR 0x0C then [CHR 0x5C, CHR ''f'']
      else if (of_char c :: nat) < 0x20 then
        [CHR 0x5C, CHR ''u'', CHR ''0'', CHR ''0'', hex_char (of_char c div 16), hex_char (of_char c mod 16)]
      else [c])"

definition write_json_string :: "string \<Rightarrow> string" where
  "write_json_string s = CHR 0x22 # concat (map escape_byte s) @ [CHR 0x22]"

fun join_items :: "string list \<Rightarrow> string" where
  "join_items [] = []"
| "join_items [x] = x"
| "join_items (x # xs) = x @ CHR '','' # join_items xs"

text \<open>An object is collected into an ordered map of references before it is written.\<close>

fun write_canonical :: "float_text \<Rightarrow> Json \<Rightarrow> string" where
  "write_canonical ft JNull = ''null''"
| "write_canonical ft (JBool b) = (if b then ''true'' else ''false'')"
| "write_canonical ft (JNumber n) = number_text ft n"
| "write_canonical ft (JString s) = write_json_string s"
| "write_canonical ft (JArray items) =
     CHR ''['' # join_items (map (write_canonical ft) items) @ '']''"
| "write_canonical ft (JObject m) =
     (let sorted = collect_map (map (\<lambda>(k, v). (k, write_canonical ft v)) m)
      in CHR ''{'' # join_items (map (\<lambda>(k, t). write_json_string k @ CHR '':'' # t) sorted) @ ''}'')"

definition to_canonical_string :: "float_text \<Rightarrow> Json \<Rightarrow> string" where
  "to_canonical_string ft v = write_canonical ft v"


section \<open>Well-formed values\<close>

definition finite_double :: "u64 \<Rightarrow> bool" where
  "finite_double bits \<longleftrightarrow> drop_bit 52 bits AND 0x7ff \<noteq> 0x7ff"

definition number_ok :: "Number \<Rightarrow> bool" where
  "number_ok n = (case n of PosInt _ \<Rightarrow> True | NegInt i \<Rightarrow> sint i < 0 | Float bits \<Rightarrow> finite_double bits)"

fun json_ok :: "Json \<Rightarrow> bool" where
  "json_ok (JNumber n) = number_ok n"
| "json_ok (JArray items) = list_all json_ok items"
| "json_ok (JObject m) = (bt_ok m \<and> list_all (\<lambda>kv. json_ok (snd kv)) m)"
| "json_ok _ = True"

definition number_char :: "char \<Rightarrow> bool" where
  "number_char c \<longleftrightarrow> is_digit c \<or> c \<in> {CHR ''-'', CHR ''+'', CHR ''.'', CHR ''e''}"

text \<open>
  What is relied on of the library's text of a double: number characters with a point or an exponent,
  and different texts for different doubles.
\<close>

definition float_text_ok :: "float_text \<Rightarrow> bool" where
  "float_text_ok ft \<longleftrightarrow> inj_on ft {b. finite_double b} \<and>
     (\<forall>b. finite_double b \<longrightarrow> ft b \<noteq> [] \<and> (\<forall>c \<in> set (ft b). number_char c)
        \<and> (\<exists>c \<in> set (ft b). c = CHR ''.'' \<or> c = CHR ''e''))"

lemma collect_map_ok [simp]: "bt_ok (collect_map kvs)"
  unfolding collect_map_def using bt.ok_fold [of "[]" fst snd kvs] by (simp add: case_prod_unfold)

lemma fold_insert_sorted:
  "bt_ok (m @ kvs) \<Longrightarrow> fold (\<lambda>(k, v). bt_insert k v) kvs m = m @ kvs"
proof (induction kvs arbitrary: m)
  case (Cons kv kvs)
  obtain k v where kv: "kv = (k, v)" by (cases kv)
  have "bt_insert k v m = m @ [(k, v)]" if "\<forall>k' \<in> fst ` set m. k' < k" for m
    using that by (induction m) auto
  moreover have "\<forall>k' \<in> fst ` set m. k' < k"
    using Cons.prems by (auto simp: bt_ok_def sorted_wrt_append kv)
  ultimately show ?case using Cons by (simp add: kv)
qed simp

lemma collect_map_id: "bt_ok m \<Longrightarrow> collect_map m = m"
  using fold_insert_sorted [of "[]" m] by (simp add: collect_map_def)

lemma bt_ok_map_values: "bt_ok (map (\<lambda>(k, v). (k, f v)) m) = bt_ok m"
  by (simp add: bt_ok_def comp_def case_prod_unfold)

lemma collect_map_values: "bt_ok m \<Longrightarrow> collect_map (map (\<lambda>(k, v). (k, f v)) m) = map (\<lambda>(k, v). (k, f v)) m"
  by (rule collect_map_id) (simp only: bt_ok_map_values)

lemma write_canonical_object:
  "bt_ok m \<Longrightarrow> write_canonical ft (JObject m) =
     CHR ''{'' # join_items (map (\<lambda>(k, v). write_json_string k @ CHR '':'' # write_canonical ft v) m) @ ''}''"
  by (simp add: collect_map_values comp_def) (simp add: case_prod_unfold)

section \<open>A text determines its value\<close>

lemma escape_byte_prefix:
  assumes "escape_byte a @ x = escape_byte b @ y"
  shows "a = b \<and> x = y"
proof -
  have hex: "(of_char a :: nat) = of_char b" if "(of_char a :: nat) < 32" "(of_char b :: nat) < 32"
    "hex_char (of_char a div 16) = hex_char (of_char b div 16)"
    "hex_char (of_char a mod 16) = hex_char (of_char b mod 16)"
  proof -
    have "(of_char a :: nat) div 16 = of_char b div 16" "(of_char a :: nat) mod 16 = of_char b mod 16"
      using that by (simp_all add: hex_char_inj)
    then show ?thesis by (metis div_mult_mod_eq)
  qed
  show ?thesis
    using assms hex by (auto simp: escape_byte_def split: if_splits)
qed

lemma escape_byte_not_quote: "escape_byte a @ x \<noteq> CHR 0x22 # y"
  by (auto simp: escape_byte_def)

lemma escape_byte_nonempty: "escape_byte a \<noteq> []"
  by (auto simp: escape_byte_def)

lemma escaped_unique:
  "concat (map escape_byte s) @ CHR 0x22 # r = concat (map escape_byte t) @ CHR 0x22 # r' \<Longrightarrow> s = t \<and> r = r'"
proof (induction s arbitrary: t)
  case Nil
  then show ?case
    by (cases t) (use escape_byte_not_quote [symmetric] in auto)
next
  case (Cons a s)
  show ?case
  proof (cases t)
    case Nil
    with Cons.prems show ?thesis using escape_byte_not_quote [of a] by simp
  next
    case (Cons b t')
    with Cons.prems escape_byte_prefix [of a _ b]
    have "a = b" "concat (map escape_byte s) @ CHR 0x22 # r = concat (map escape_byte t') @ CHR 0x22 # r'"
      by auto
    with Cons.IH Cons show ?thesis by simp
  qed
qed

lemma string_unique: "write_json_string s @ r = write_json_string t @ r' \<Longrightarrow> s = t \<and> r = r'"
  using escaped_unique [of s r t r'] by (simp add: write_json_string_def)

text \<open>What may follow a value: anything that does not go on a number.\<close>

definition follow :: "string \<Rightarrow> bool" where
  "follow r \<longleftrightarrow> (\<forall>c cs. r = c # cs \<longrightarrow> \<not> number_char c)"

lemma follow_simps [simp]:
  "follow []" "follow (CHR '','' # r)" "follow (CHR '']'' # r)" "follow (CHR ''}'' # r)"
  "follow (CHR 0x0A # r)"
  by (simp_all add: follow_def number_char_def is_digit_def)

lemma is_digit_cases:
  "is_digit c \<Longrightarrow> c \<noteq> CHR ''-'' \<and> c \<noteq> CHR ''.'' \<and> c \<noteq> CHR ''e'' \<and> c \<noteq> CHR ''n'' \<and> c \<noteq> CHR ''t''
     \<and> c \<noteq> CHR ''f'' \<and> c \<noteq> CHR 0x22 \<and> c \<noteq> CHR ''['' \<and> c \<noteq> CHR ''{'' \<and> c \<noteq> CHR '']'' \<and> c \<noteq> CHR ''}''"
  by (auto simp: is_digit_def)

lemma number_text_chars:
  assumes "number_ok n" "float_text_ok ft"
  shows "number_text ft n \<noteq> []" "c \<in> set (number_text ft n) \<Longrightarrow> number_char c"
  using assms show_nat_digits
  by (auto simp: number_text_def number_ok_def float_text_ok_def number_char_def split: Number.splits)

lemma neg_text_inj: "sint (i :: 64 word) < 0 \<Longrightarrow> sint j < 0 \<Longrightarrow> nat (- sint i) = nat (- sint j) \<Longrightarrow> i = j"
proof -
  assume "sint i < 0" "sint j < 0" "nat (- sint i) = nat (- sint j)"
  then have "sint i = sint j" by simp
  then have "word_of_int (sint i) = (word_of_int (sint j) :: 64 word)" by simp
  then show "i = j" by simp
qed

lemma number_text_inj:
  assumes ok: "number_ok n" "number_ok m" "float_text_ok ft" and eq: "number_text ft n = number_text ft m"
  shows "n = m"
proof -
  have nat_not_neg: "show_nat k \<noteq> CHR ''-'' # xs" for k xs
    using show_nat_digits [of "CHR ''-''" k] is_digit_cases [of "CHR ''-''"] by auto
  have not_float: "show_nat k \<noteq> ft b" "CHR ''-'' # show_nat k \<noteq> ft b" if fin: "finite_double b" for k b
  proof -
    obtain c where "c \<in> set (ft b)" "c = CHR ''.'' \<or> c = CHR ''e''"
      using ok(3) fin unfolding float_text_ok_def by blast
    moreover have "c \<notin> set (CHR ''-'' # show_nat k)" if "c = CHR ''.'' \<or> c = CHR ''e''"
      using that show_nat_digits [of c k] is_digit_cases by auto
    ultimately show "show_nat k \<noteq> ft b" "CHR ''-'' # show_nat k \<noteq> ft b" by (metis list.set_intros(2), metis)
  qed
  show ?thesis
    using eq ok nat_not_neg nat_not_neg [symmetric] not_float not_float [symmetric]
    by (auto simp: number_text_def number_ok_def float_text_ok_def split: Number.splits
        dest: inj_onD intro: unsigned_word_eqI neg_text_inj)
qed


lemma number_unique:
  assumes "number_ok n" "number_ok m" "float_text_ok ft" "follow r" "follow r'"
    and eq: "number_text ft n @ r = number_text ft m @ r'"
  shows "n = m \<and> r = r'"
proof -
  have none: "takeWhile number_char r = []" "takeWhile number_char r' = []"
    using assms(4,5) by (auto simp: follow_def takeWhile_eq_Nil_iff neq_Nil_conv)
  have "number_text ft n = takeWhile number_char (number_text ft n @ r)"
    using assms(1,3) none by (subst takeWhile_append2) (auto simp: number_text_chars(2))
  also have "\<dots> = number_text ft m"
    unfolding eq using assms(2,3) none by (subst takeWhile_append2) (auto simp: number_text_chars(2))
  finally have "number_text ft n = number_text ft m" .
  with assms number_text_inj show ?thesis by auto
qed

text \<open>A sequence of items with commas between and a closing byte that no item starts with.\<close>

lemma items_unique:
  assumes "\<And>x y r r'. x \<in> set xs \<Longrightarrow> y \<in> set ys \<Longrightarrow> follow r \<Longrightarrow> follow r' \<Longrightarrow>
      enc x @ r = enc y @ r' \<Longrightarrow> x = y \<and> r = r'"
    and close: "close = CHR '']'' \<or> close = CHR ''}''"
    and "join_items (map enc xs) @ close # r = join_items (map enc ys) @ close # r'"
    and start: "\<And>x r q. x \<in> set xs \<union> set ys \<Longrightarrow> enc x @ r \<noteq> close # q"
  shows "xs = ys \<and> r = r'"
  using assms(1,3) start
proof (induction xs arbitrary: ys)
  case Nil
  have "ys = []"
  proof (rule ccontr)
    assume "ys \<noteq> []"
    then obtain y ys' where "ys = y # ys'" by (cases ys) auto
    with Nil(2) Nil(3) [of y, symmetric] show False by (cases ys') auto
  qed
  with Nil show ?case by simp
next
  case (Cons x xs)
  have follow: "follow (CHR '','' # q)" "follow (close # q)" for q
    using close by auto
  have comma: "CHR '','' \<noteq> close" using close by auto
  show ?case
  proof (cases ys)
    case Nil
    with Cons.prems(2) Cons.prems(3) [of x] show ?thesis by (cases xs) auto
  next
    case ys: (Cons y ys')
    have step: "enc x @ q = enc y @ q' \<Longrightarrow> follow q \<Longrightarrow> follow q' \<Longrightarrow> x = y \<and> q = q'" for q q'
      using Cons.prems(1) [of x y q q'] ys by simp
    show ?thesis
    proof (cases "xs = [] \<or> ys' = []")
      case True
      with Cons.prems(2) ys step follow comma show ?thesis
        by (cases xs; cases ys') (auto simp: neq_Nil_conv dest!: step)
    next
      case False
      then have "join_items (map enc (x # xs)) = enc x @ CHR '','' # join_items (map enc xs)"
        "join_items (map enc (y # ys')) = enc y @ CHR '','' # join_items (map enc ys')"
        by (auto simp: neq_Nil_conv)
      with Cons.prems(2) ys step [OF _ follow(1) follow(1)]
      have "x = y" "join_items (map enc xs) @ close # r = join_items (map enc ys') @ close # r'" by auto
      moreover have "xs = ys' \<and> r = r'"
        by (rule Cons.IH [OF _ calculation(2)]) (use Cons.prems(1,3) ys in auto)
      ultimately show ?thesis using ys by simp
    qed
  qed
qed


lemma canonical_start:
  assumes "json_ok v" "float_text_ok ft"
  shows "write_canonical ft v @ r \<noteq> CHR '']'' # q" "write_canonical ft v @ r \<noteq> CHR ''}'' # q"
proof -
  have "number_text ft n \<noteq> c # q" if "number_ok n" "c = CHR '']'' \<or> c = CHR ''}''" for n c q
    using number_text_chars(2) [OF that(1) assms(2), of c] that(2)
    by (auto simp: number_char_def is_digit_def)
  then show "write_canonical ft v @ r \<noteq> CHR '']'' # q" "write_canonical ft v @ r \<noteq> CHR ''}'' # q"
    using assms number_text_chars(1)
    by (cases v; auto simp: write_json_string_def append_eq_Cons_conv)+
qed

lemma number_text_first:
  assumes "number_ok n" "float_text_ok ft"
  obtains c cs where "number_text ft n = c # cs" "number_char c"
  using number_text_chars [OF assms] by (cases "number_text ft n") auto

lemma object_entry_start: "write_json_string k @ r \<noteq> CHR ''}'' # q"
  by (simp add: write_json_string_def)

text \<open>The first byte tells the kind of value.\<close>

fun first_byte :: "Json \<Rightarrow> char" where
  "first_byte JNull = CHR ''n''"
| "first_byte (JBool b) = (if b then CHR ''t'' else CHR ''f'')"
| "first_byte (JNumber n) = CHR ''0''"
| "first_byte (JString s) = CHR 0x22"
| "first_byte (JArray xs) = CHR ''[''"
| "first_byte (JObject m) = CHR ''{''"

lemma canonical_first:
  assumes "float_text_ok ft" "json_ok v"
  shows "\<exists>c cs. write_canonical ft v @ r = c # cs \<and> (if number_char c then CHR ''0'' else c) = first_byte v"
proof (cases v)
  case (JNumber n)
  with assms number_text_first [of n ft] show ?thesis by (metis append_Cons first_byte.simps(3) json_ok.simps(1) write_canonical.simps(3))
qed (auto simp: write_json_string_def number_char_def is_digit_def Let_def)

lemma same_first_byte:
  assumes "float_text_ok ft" "json_ok v" "json_ok w" "write_canonical ft v @ r = write_canonical ft w @ r'"
  shows "first_byte v = first_byte w"
  using canonical_first [OF assms(1,2), of r] canonical_first [OF assms(1,3), of r'] assms(4) by auto

lemma canonical_unique:
  assumes "float_text_ok ft"
  shows "json_ok v \<Longrightarrow> json_ok w \<Longrightarrow> follow r \<Longrightarrow> follow r' \<Longrightarrow>
    write_canonical ft v @ r = write_canonical ft w @ r' \<Longrightarrow> v = w \<and> r = r'"
proof (induction v arbitrary: w r r')
  case JNull
  with same_first_byte [OF assms, of JNull w] show ?case by (cases w) (auto split: if_splits)
next
  case (JBool b)
  with same_first_byte [OF assms, of "JBool b" w] show ?case by (cases w) (auto split: if_splits)
next
  case (JString t)
  obtain u where "w = JString u"
    using same_first_byte [OF assms JString.prems(1,2,5)] by (cases w) (auto split: if_splits)
  with JString string_unique [of t r u r'] show ?case by simp
next
  case (JNumber n)
  obtain m where "w = JNumber m"
    using same_first_byte [OF assms JNumber.prems(1,2,5)] by (cases w) (auto split: if_splits)
  with JNumber.prems number_unique [of n m ft r r'] assms show ?case by simp
next
  case (JArray xs)
  obtain ys where w: "w = JArray ys"
    using same_first_byte [OF assms JArray.prems(1,2,5)] by (cases w) (auto split: if_splits)
  have "xs = ys \<and> r = r'"
  proof (rule items_unique [where close = "CHR '']''" and enc = "write_canonical ft"])
    show "x = y \<and> q = q'" if "x \<in> set xs" "y \<in> set ys" "follow q" "follow q'"
      "write_canonical ft x @ q = write_canonical ft y @ q'" for x y q q'
      using JArray.IH [OF that(1) _ _ that(3,4,5)] JArray.prems(1,2) w that(1,2) by (auto simp: list_all_iff)
    show "write_canonical ft x @ s \<noteq> CHR '']'' # q" if "x \<in> set xs \<union> set ys" for x s q
      by (rule canonical_start) (use that JArray.prems(1,2) w assms in \<open>auto simp: list_all_iff\<close>)
  qed (use JArray.prems w in auto)
  with w show ?case by simp
next
  case (JObject m)
  obtain m' where w: "w = JObject m'"
    using same_first_byte [OF assms JObject.prems(1,2,5)] by (cases w) (auto split: if_splits)
  let ?enc = "\<lambda>(k, v). write_json_string k @ CHR '':'' # write_canonical ft v"
  have "m = m' \<and> r = r'"
  proof (rule items_unique [where close = "CHR ''}''" and enc = ?enc])
    fix x y q q'
    assume a: "x \<in> set m" "y \<in> set m'" "follow q" "follow q'" "?enc x @ q = ?enc y @ q'"
    obtain k v k' v' where xy: "x = (k, v)" "y = (k', v')" by (cases x; cases y)
    with a(5) have "write_json_string k @ CHR '':'' # write_canonical ft v @ q
        = write_json_string k' @ CHR '':'' # write_canonical ft v' @ q'" by simp
    from string_unique [OF this] have kv: "k = k'" "write_canonical ft v @ q = write_canonical ft v' @ q'"
      by simp_all
    have "v = v' \<and> q = q'"
      by (rule JObject.IH [of x v]) (use a xy kv JObject.prems(1,2) w in \<open>auto simp: list_all_iff\<close>)
    with kv xy show "x = y \<and> q = q'" by simp
  next
    show "?enc x @ s \<noteq> CHR ''}'' # q" for x s q
      by (cases x) (simp add: object_entry_start)
  qed (use JObject.prems w in \<open>auto simp: write_canonical_object simp del: write_canonical.simps(6)\<close>)
  with w show ?case by simp
qed


section \<open>No control bytes\<close>

abbreviation printable :: "char \<Rightarrow> bool" where
  "printable c \<equiv> 32 \<le> (of_char c :: nat)"

lemma join_items_printable:
  "\<forall>x \<in> set xs. list_all printable x \<Longrightarrow> list_all printable (join_items xs)"
  by (induction xs rule: join_items.induct) auto

lemma hex_char_printable: "d < 16 \<Longrightarrow> printable (hex_char d)"
  by (simp add: of_char_hex)

lemma string_printable: "list_all printable (write_json_string s)"
proof -
  have "list_all printable (escape_byte c)" for c
    using hex_char_printable [of "of_char c div 16"] hex_char_printable [of "of_char c mod 16"]
    by (auto simp: escape_byte_def)
  then show ?thesis by (auto simp: write_json_string_def list_all_iff)
qed

lemma number_printable: "number_char c \<Longrightarrow> printable c"
  by (auto simp: number_char_def is_digit_def)

lemma canonical_printable:
  assumes "float_text_ok ft"
  shows "json_ok v \<Longrightarrow> list_all printable (write_canonical ft v)"
proof (induction v)
  case (JNumber n)
  then show ?case using number_text_chars(2) [OF _ assms] number_printable by (auto simp: list_all_iff)
next
  case (JString s)
  then show ?case by (simp add: string_printable)
next
  case (JArray xs)
  then have "\<forall>t \<in> set (map (write_canonical ft) xs). list_all printable t" by (auto simp: list_all_iff)
  from join_items_printable [OF this] show ?case by simp
next
  case (JObject m)
  then have "\<forall>t \<in> set (map (\<lambda>(k, v). write_json_string k @ CHR '':'' # write_canonical ft v) m).
      list_all printable t"
    using string_printable by (fastforce simp: list_all_iff)
  from join_items_printable [OF this] JObject.prems show ?case
    by (simp add: write_canonical_object del: write_canonical.simps(6))
qed auto

text \<open>
  C31. Canonical texts are equal exactly when the values are, and contain no control byte, so a line
  break always ends a record.
\<close>

theorem canonical_exact:
  assumes "float_text_ok ft" "json_ok v" "json_ok w"
  shows "(to_canonical_string ft v = to_canonical_string ft w \<longleftrightarrow> v = w)
    \<and> (\<forall>c \<in> set (to_canonical_string ft v). 32 \<le> (of_char c :: nat))"
  using canonical_unique [OF assms, of "[]" "[]"] canonical_printable [OF assms(1,2)]
  by (auto simp: to_canonical_string_def list_all_iff)

text \<open>A text of doubles that meets what is relied on: the bits in decimal with a point.\<close>

definition plain_float_text :: float_text where
  "plain_float_text b = show_nat (unat b) @ ''.0''"

lemma plain_float_text_ok: "float_text_ok plain_float_text"
  using show_nat_digits
  by (auto simp: float_text_ok_def plain_float_text_def number_char_def inj_on_def is_digit_def
      intro: unsigned_word_eqI)

theorem canonical_exact_witness:
  "to_canonical_string plain_float_text (json_obj [(''b'', JArray [json_nat 1, JNull]), (''a'', JString [CHR 0x0A])])
     \<noteq> to_canonical_string plain_float_text (json_obj [(''a'', JString [CHR 0x0A]), (''b'', JArray [json_nat 1])])"
  using canonical_exact [OF plain_float_text_ok,
      of "json_obj [(''b'', JArray [json_nat 1, JNull]), (''a'', JString [CHR 0x0A])]"
         "json_obj [(''a'', JString [CHR 0x0A]), (''b'', JArray [json_nat 1])]"]
  by (simp add: json_obj_def json_nat_def collect_map_def number_ok_def bt_ok_def less_char_def)

end
