(* ===== verification/Event_Stream.thy ===== *)
theory Event_Stream
  imports Json
begin

text \<open>
  The event stream (\<open>crates/artifact/src/event_stream.rs\<close>): the typed events of a run, their wire
  fields, the writer that numbers them and appends one canonical line each, and the reader that
  recovers the records from a possibly torn file.  The sink, the clocks and the JSON parser are
  parameters; sink states and clock states are threaded through.  The lemmas show that fields never
  overwrite the envelope, that sequence numbers have no gap, and that a stream cut at any byte reads back
  as a prefix of its records.
\<close>

section \<open>Events\<close>

definition EVENT_STREAM_SCHEMA_VERSION :: string where
  "EVENT_STREAM_SCHEMA_VERSION = ''dagr.event-stream@1''"

definition EVENTS_FILE_NAME :: string where
  "EVENTS_FILE_NAME = ''events.jsonl''"

definition FINGERPRINT_UNAVAILABLE :: string where
  "FINGERPRINT_UNAVAILABLE = ''unavailable''"

definition FINGERPRINT_ALGORITHM_VERSION_wire :: u32 where
  "FINGERPRINT_ALGORITHM_VERSION_wire = 1"

record RunStartedHeader =
  rh_pipeline :: string
  rh_fingerprint_structural :: "string option"
  rh_fingerprint_policy :: "string option"
  rh_fingerprint_algorithm_version :: u32
  rh_parameters :: "(string, string) btree"
  rh_data_interval :: "(string \<times> string) option"
  rh_captured_env :: "(string, string) btree"
  rh_resumed_from :: "string option"

record ConsumedInput =
  ci_uri :: string
  ci_content_hash :: "string option"

record AttemptOutcomeRecord =
  ar_node :: string
  ar_attempt :: u32
  ar_status :: string
  ar_worker :: "string option"
  ar_message :: "string option"
  ar_error :: "Json option"
  ar_metrics :: "Json option"
  ar_cost_declared :: "Json option"
  ar_cost_measured :: "Json option"
  ar_durable_reference :: "Json option"
  ar_durable_reference_meta :: "Json option"
  ar_satisfied_from_run :: "string option"
  ar_originating_node :: "string option"
  ar_inputs :: "ConsumedInput list"

record OutputProducedRecord =
  op_node :: string
  op_attempt :: u32
  op_uri :: string
  op_content_hash :: "string option"
  op_size_bytes :: "u64 option"
  op_kind :: "string option"
  op_produced_at_offset_ns :: u64
  op_originating_run :: string

record AttemptSubmittedRecord =
  sb_node :: string
  sb_attempt :: u32
  sb_inputs :: "ConsumedInput list"
  sb_executor :: "string option"
  sb_target_name :: "string option"
  sb_observed_name :: "string option"
  sb_observed_uid :: "string option"
  sb_observed_host :: "string option"
  sb_structural_fingerprint :: "string option"
  sb_policy_hash :: "string option"
  sb_tool_version :: "string option"
  sb_image_digest :: "string option"

record DurableReferenceMeta =
  dm_content_hash :: "string option"
  dm_size_bytes :: "u64 option"
  dm_scheme :: "string option"
  dm_produced_at_offset_ns :: "u64 option"

datatype WireTerminalState =
  WSucceeded | WFailed | WTimedOut | WSkipped | WUpstreamSkipped | WUpstreamFailed | WCancelled
  | WAbandoned | WSatisfiedFromPrior

fun wire_state_as_str :: "WireTerminalState \<Rightarrow> string" where
  "wire_state_as_str WSucceeded = ''succeeded''"
| "wire_state_as_str WFailed = ''failed''"
| "wire_state_as_str WTimedOut = ''timed-out''"
| "wire_state_as_str WSkipped = ''skipped''"
| "wire_state_as_str WUpstreamSkipped = ''upstream-skipped''"
| "wire_state_as_str WUpstreamFailed = ''upstream-failed''"
| "wire_state_as_str WCancelled = ''cancelled''"
| "wire_state_as_str WAbandoned = ''abandoned''"
| "wire_state_as_str WSatisfiedFromPrior = ''satisfied-from-prior''"

datatype RunOutcome = RunSucceeded | RunFailed | RunCancelled | AssemblyFailed | BootstrapFailed

fun run_outcome_as_str :: "RunOutcome \<Rightarrow> string" where
  "run_outcome_as_str RunSucceeded = ''succeeded''"
| "run_outcome_as_str RunFailed = ''failed''"
| "run_outcome_as_str RunCancelled = ''cancelled''"
| "run_outcome_as_str AssemblyFailed = ''assembly-failed''"
| "run_outcome_as_str BootstrapFailed = ''bootstrap-failed''"

datatype Event =
    EvRunStarted RunStartedHeader
  | EvNodeReady string
  | EvNodeAdmitted string
  | EvAttemptStarted string u32
  | EvAttemptSucceeded string u32
  | EvAttemptFailed string u32
  | EvAttemptOutcome AttemptOutcomeRecord
  | EvOutputProduced OutputProducedRecord
  | EvAttemptSubmitted AttemptSubmittedRecord
  | EvNodeTerminal string WireTerminalState
  | EvZombieAtExit string u32
  | EvRunFinished RunOutcome

section \<open>Record builders\<close>

definition attempt_outcome_record_new :: "string \<Rightarrow> u32 \<Rightarrow> string \<Rightarrow> AttemptOutcomeRecord" where
  "attempt_outcome_record_new node attempt status =
     \<lparr>ar_node = node, ar_attempt = attempt, ar_status = status, ar_worker = None, ar_message = None,
      ar_error = None, ar_metrics = None, ar_cost_declared = None, ar_cost_measured = None,
      ar_durable_reference = None, ar_durable_reference_meta = None, ar_satisfied_from_run = None,
      ar_originating_node = None, ar_inputs = []\<rparr>"

definition submitted_record_new :: "string \<Rightarrow> u32 \<Rightarrow> AttemptSubmittedRecord" where
  "submitted_record_new node attempt =
     \<lparr>sb_node = node, sb_attempt = attempt, sb_inputs = [], sb_executor = None, sb_target_name = None,
      sb_observed_name = None, sb_observed_uid = None, sb_observed_host = None,
      sb_structural_fingerprint = None, sb_policy_hash = None, sb_tool_version = None,
      sb_image_digest = None\<rparr>"

definition submitted_inputs :: "ConsumedInput list \<Rightarrow> AttemptSubmittedRecord \<Rightarrow> AttemptSubmittedRecord" where
  "submitted_inputs inputs r = r\<lparr>sb_inputs := inputs\<rparr>"

definition submitted_executor :: "string \<Rightarrow> AttemptSubmittedRecord \<Rightarrow> AttemptSubmittedRecord" where
  "submitted_executor s r = r\<lparr>sb_executor := Some s\<rparr>"

definition submitted_target_name :: "string \<Rightarrow> AttemptSubmittedRecord \<Rightarrow> AttemptSubmittedRecord" where
  "submitted_target_name s r = r\<lparr>sb_target_name := Some s\<rparr>"

definition submitted_observed_name :: "string \<Rightarrow> AttemptSubmittedRecord \<Rightarrow> AttemptSubmittedRecord" where
  "submitted_observed_name s r = r\<lparr>sb_observed_name := Some s\<rparr>"

definition submitted_observed_uid :: "string \<Rightarrow> AttemptSubmittedRecord \<Rightarrow> AttemptSubmittedRecord" where
  "submitted_observed_uid s r = r\<lparr>sb_observed_uid := Some s\<rparr>"

definition submitted_observed_host :: "string \<Rightarrow> AttemptSubmittedRecord \<Rightarrow> AttemptSubmittedRecord" where
  "submitted_observed_host s r = r\<lparr>sb_observed_host := Some s\<rparr>"

definition submitted_structural_fingerprint :: "string \<Rightarrow> AttemptSubmittedRecord \<Rightarrow> AttemptSubmittedRecord" where
  "submitted_structural_fingerprint s r = r\<lparr>sb_structural_fingerprint := Some s\<rparr>"

definition submitted_policy_hash :: "string \<Rightarrow> AttemptSubmittedRecord \<Rightarrow> AttemptSubmittedRecord" where
  "submitted_policy_hash s r = r\<lparr>sb_policy_hash := Some s\<rparr>"

definition submitted_tool_version :: "string \<Rightarrow> AttemptSubmittedRecord \<Rightarrow> AttemptSubmittedRecord" where
  "submitted_tool_version s r = r\<lparr>sb_tool_version := Some s\<rparr>"

definition submitted_image_digest :: "string \<Rightarrow> AttemptSubmittedRecord \<Rightarrow> AttemptSubmittedRecord" where
  "submitted_image_digest s r = r\<lparr>sb_image_digest := Some s\<rparr>"

definition record_consumed_inputs :: "ConsumedInput list \<Rightarrow> AttemptOutcomeRecord \<Rightarrow> AttemptOutcomeRecord" where
  "record_consumed_inputs inputs r = r\<lparr>ar_inputs := inputs\<rparr>"

definition record_durable_reference :: "string option \<Rightarrow> AttemptOutcomeRecord \<Rightarrow> AttemptOutcomeRecord" where
  "record_durable_reference reference r = r\<lparr>ar_durable_reference := map_option JString reference\<rparr>"

definition meta_new :: DurableReferenceMeta where
  "meta_new = \<lparr>dm_content_hash = None, dm_size_bytes = None, dm_scheme = None, dm_produced_at_offset_ns = None\<rparr>"

definition meta_content_hash :: "string \<Rightarrow> DurableReferenceMeta \<Rightarrow> DurableReferenceMeta" where
  "meta_content_hash h m = m\<lparr>dm_content_hash := Some h\<rparr>"

definition meta_size_bytes :: "u64 \<Rightarrow> DurableReferenceMeta \<Rightarrow> DurableReferenceMeta" where
  "meta_size_bytes b m = m\<lparr>dm_size_bytes := Some b\<rparr>"

definition meta_scheme :: "string \<Rightarrow> DurableReferenceMeta \<Rightarrow> DurableReferenceMeta" where
  "meta_scheme s m = m\<lparr>dm_scheme := Some s\<rparr>"

definition meta_produced_at_offset_ns :: "u64 \<Rightarrow> DurableReferenceMeta \<Rightarrow> DurableReferenceMeta" where
  "meta_produced_at_offset_ns ns m = m\<lparr>dm_produced_at_offset_ns := Some ns\<rparr>"

definition meta_is_empty :: "DurableReferenceMeta \<Rightarrow> bool" where
  "meta_is_empty m \<longleftrightarrow> dm_content_hash m = None \<and> dm_size_bytes m = None \<and> dm_scheme m = None
     \<and> dm_produced_at_offset_ns m = None"

text \<open>A field that is written only when it is present.\<close>

definition opt_field :: "string \<Rightarrow> ('a \<Rightarrow> Json) \<Rightarrow> 'a option \<Rightarrow> (string \<times> Json) list" where
  "opt_field name f x = (case x of Some v \<Rightarrow> [(name, f v)] | None \<Rightarrow> [])"

definition json_u32 :: "u32 \<Rightarrow> Json" where
  "json_u32 n = JNumber (PosInt (ucast n))"

definition meta_to_value :: "DurableReferenceMeta \<Rightarrow> Json" where
  "meta_to_value m = json_obj
     (opt_field ''content_hash'' JString (dm_content_hash m)
      @ opt_field ''size_bytes'' json_nat (dm_size_bytes m)
      @ opt_field ''scheme'' JString (dm_scheme m)
      @ opt_field ''produced_at_offset_ns'' json_nat (dm_produced_at_offset_ns m))"

definition record_durable_reference_meta ::
  "DurableReferenceMeta option \<Rightarrow> AttemptOutcomeRecord \<Rightarrow> AttemptOutcomeRecord" where
  "record_durable_reference_meta meta r = r\<lparr>ar_durable_reference_meta := map_option meta_to_value meta\<rparr>"

section \<open>Wire fields\<close>

definition consumed_input_value :: "ConsumedInput \<Rightarrow> Json" where
  "consumed_input_value c = json_obj
     ((''uri'', JString (ci_uri c)) # opt_field ''content_hash'' JString (ci_content_hash c))"

definition output_produced_fields :: "OutputProducedRecord \<Rightarrow> (string \<times> Json) list" where
  "output_produced_fields r =
     [(''node'', JString (op_node r)), (''attempt'', json_u32 (op_attempt r)), (''uri'', JString (op_uri r)),
      (''produced_at_offset_ns'', json_nat (op_produced_at_offset_ns r)),
      (''originating_run'', JString (op_originating_run r))]
     @ opt_field ''content_hash'' JString (op_content_hash r)
     @ opt_field ''size_bytes'' json_nat (op_size_bytes r)
     @ opt_field ''output_kind'' JString (op_kind r)"

definition attempt_submitted_fields :: "AttemptSubmittedRecord \<Rightarrow> (string \<times> Json) list" where
  "attempt_submitted_fields r =
     [(''node'', JString (sb_node r)), (''attempt'', json_u32 (sb_attempt r)),
      (''inputs'', JArray (map consumed_input_value (sb_inputs r)))]
     @ concat (map (\<lambda>(name, value). opt_field name JString value)
         [(''executor'', sb_executor r), (''target_name'', sb_target_name r),
          (''observed_name'', sb_observed_name r), (''observed_uid'', sb_observed_uid r),
          (''observed_host'', sb_observed_host r),
          (''structural_fingerprint'', sb_structural_fingerprint r),
          (''policy_hash'', sb_policy_hash r), (''tool_version'', sb_tool_version r),
          (''image_digest'', sb_image_digest r)])"

definition string_map :: "(string, string) btree \<Rightarrow> Json" where
  "string_map m = json_obj (map (\<lambda>(k, v). (k, JString v)) m)"

definition run_started_header :: "RunStartedHeader \<Rightarrow> string \<Rightarrow> Json" where
  "run_started_header h run_id = json_obj
     [(''run_id'', JString run_id), (''pipeline'', JString (rh_pipeline h)),
      (''fingerprint_structural'', JString
         (case rh_fingerprint_structural h of Some f \<Rightarrow> f | None \<Rightarrow> FINGERPRINT_UNAVAILABLE)),
      (''fingerprint_policy'', JString
         (case rh_fingerprint_policy h of Some f \<Rightarrow> f | None \<Rightarrow> FINGERPRINT_UNAVAILABLE)),
      (''fingerprint_algorithm_version'', json_u32 (rh_fingerprint_algorithm_version h)),
      (''parameters'', string_map (rh_parameters h)),
      (''data_interval'',
         (case rh_data_interval h of
            Some (start, end_) \<Rightarrow> json_obj [(''start'', JString start), (''end'', JString end_)]
          | None \<Rightarrow> JNull)),
      (''captured_environment'', string_map (rh_captured_env h)),
      (''resume_lineage'',
         (case rh_resumed_from h of Some r \<Rightarrow> json_obj [(''run_id'', JString r)] | None \<Rightarrow> JNull))]"

definition attempt_outcome_fields :: "AttemptOutcomeRecord \<Rightarrow> (string \<times> Json) list" where
  "attempt_outcome_fields r =
     [(''node'', JString (ar_node r)), (''attempt'', json_u32 (ar_attempt r)), (''status'', JString (ar_status r))]
     @ concat (map (\<lambda>(name, value). opt_field name JString value)
         [(''worker'', ar_worker r), (''message'', ar_message r),
          (''satisfied_from_run'', ar_satisfied_from_run r), (''originating_node'', ar_originating_node r)])
     @ concat (map (\<lambda>(name, value). opt_field name id value)
         [(''error'', ar_error r), (''metrics'', ar_metrics r), (''cost_declared'', ar_cost_declared r),
          (''cost_measured'', ar_cost_measured r), (''durable_reference'', ar_durable_reference r),
          (''durable_reference_meta'', ar_durable_reference_meta r)])
     @ (if ar_inputs r \<noteq> [] then [(''inputs'', JArray (map consumed_input_value (ar_inputs r)))] else [])"

definition node_attempt_fields :: "string \<Rightarrow> u32 \<Rightarrow> (string \<times> Json) list" where
  "node_attempt_fields node attempt = [(''node'', JString node), (''attempt'', json_u32 attempt)]"

fun event_wire :: "Event \<Rightarrow> string \<Rightarrow> string \<times> (string \<times> Json) list" where
  "event_wire (EvRunStarted h) run_id = (''run-started'', [(''header'', run_started_header h run_id)])"
| "event_wire (EvNodeReady node) run_id = (''node-ready'', [(''node'', JString node)])"
| "event_wire (EvNodeAdmitted node) run_id = (''node-admitted'', [(''node'', JString node)])"
| "event_wire (EvAttemptStarted node attempt) run_id = (''attempt-started'', node_attempt_fields node attempt)"
| "event_wire (EvAttemptSucceeded node attempt) run_id = (''attempt-succeeded'', node_attempt_fields node attempt)"
| "event_wire (EvAttemptFailed node attempt) run_id = (''attempt-failed'', node_attempt_fields node attempt)"
| "event_wire (EvAttemptOutcome r) run_id = (''attempt-outcome'', attempt_outcome_fields r)"
| "event_wire (EvOutputProduced r) run_id = (''output-produced'', output_produced_fields r)"
| "event_wire (EvAttemptSubmitted r) run_id = (''attempt-submitted'', attempt_submitted_fields r)"
| "event_wire (EvNodeTerminal node state) run_id =
     (''node-terminal'', [(''node'', JString node), (''state'', JString (wire_state_as_str state))])"
| "event_wire (EvZombieAtExit node attempt) run_id = (''zombie-at-exit'', node_attempt_fields node attempt)"
| "event_wire (EvRunFinished outcome) run_id =
     (''run-finished'', [(''outcome'', JString (run_outcome_as_str outcome))])"

section \<open>The writer\<close>

text \<open>What the writer is given: a sink, two clocks and the text of doubles.\<close>

record ('s, 'c, 'e) StreamEnv =
  se_append_line :: "string \<Rightarrow> 's \<Rightarrow> ('e + unit) \<times> 's"
  se_flush :: "'s \<Rightarrow> ('e + unit) \<times> 's"
  se_elapsed_ns :: "'c \<Rightarrow> u64 \<times> 'c"
  se_wall :: "'c \<Rightarrow> string \<times> 'c"
  se_float_text :: float_text

record 'e SinkFault =
  sf_reason :: string
  sf_source :: 'e

definition EVENT_STREAM_UNWRITABLE :: string where
  "EVENT_STREAM_UNWRITABLE = ''event stream unwritable''"

definition sink_fault_display :: "('e \<Rightarrow> string) \<Rightarrow> 'e SinkFault \<Rightarrow> string" where
  "sink_fault_display show_source f = sf_reason f @ '': '' @ show_source (sf_source f)"

record ('s, 'c) EventStreamWriter =
  ew_sink :: 's
  ew_clock :: 'c
  ew_run_id :: string
  ew_pipeline :: string
  ew_next_seq :: u64
  ew_faulted :: bool

definition writer_new :: "'s \<Rightarrow> 'c \<Rightarrow> string \<Rightarrow> string \<Rightarrow> ('s, 'c) EventStreamWriter" where
  "writer_new sink clock run_id pipeline =
     \<lparr>ew_sink = sink, ew_clock = clock, ew_run_id = run_id, ew_pipeline = pipeline, ew_next_seq = 0,
      ew_faulted = False\<rparr>"

definition stream_path :: "string \<Rightarrow> ('s, 'c) EventStreamWriter \<Rightarrow> string" where
  "stream_path base w = base @ ''/'' @ ew_pipeline w @ ''/'' @ ew_run_id w @ ''/'' @ EVENTS_FILE_NAME"

definition event_record :: "string \<Rightarrow> u64 \<Rightarrow> string \<Rightarrow> u64 \<Rightarrow> Event \<Rightarrow> Json" where
  "event_record run_id seq wall offset_ns event =
     (let (kind, fields) = event_wire event run_id in
      json_obj
        ([(''schema_version'', JString EVENT_STREAM_SCHEMA_VERSION), (''run_id'', JString run_id),
          (''seq'', json_nat seq), (''wall'', JString wall), (''offset_ns'', json_nat offset_ns),
          (''kind'', JString kind)] @ fields))"

definition canonical_line ::
  "float_text \<Rightarrow> string \<Rightarrow> u64 \<Rightarrow> string \<Rightarrow> u64 \<Rightarrow> Event \<Rightarrow> string" where
  "canonical_line ft run_id seq wall offset_ns event =
     write_canonical ft (event_record run_id seq wall offset_ns event) @ [CHR 0x0A]"

definition fault :: "'e \<Rightarrow> ('s, 'c) EventStreamWriter \<Rightarrow> ('e SinkFault + unit) \<times> ('s, 'c) EventStreamWriter" where
  "fault source w = (Inl \<lparr>sf_reason = EVENT_STREAM_UNWRITABLE, sf_source = source\<rparr>, w\<lparr>ew_faulted := True\<rparr>)"

text \<open>The offset is read before the wall clock; the sequence number moves on only after a durable append.\<close>

definition emit_writer ::
  "('s, 'c, 'e) StreamEnv \<Rightarrow> Event \<Rightarrow> ('s, 'c) EventStreamWriter
     \<Rightarrow> ('e SinkFault + unit) \<times> ('s, 'c) EventStreamWriter" where
  "emit_writer env event w =
     (let seq = ew_next_seq w;
          (offset_ns, c) = se_elapsed_ns env (ew_clock w);
          (wall, c) = se_wall env c;
          line = canonical_line (se_float_text env) (ew_run_id w) seq wall offset_ns event;
          (res, sink) = se_append_line env line (ew_sink w);
          w = w\<lparr>ew_clock := c, ew_sink := sink\<rparr>
      in case res of
           Inl source \<Rightarrow> fault source w
         | Inr _ \<Rightarrow> (Inr (), w\<lparr>ew_next_seq := ew_next_seq w + 1\<rparr>))"

definition finish_writer ::
  "('s, 'c, 'e) StreamEnv \<Rightarrow> ('s, 'c) EventStreamWriter
     \<Rightarrow> ('e SinkFault + unit) \<times> ('s, 'c) EventStreamWriter" where
  "finish_writer env w =
     (let (res, sink) = se_flush env (ew_sink w);
          w = w\<lparr>ew_sink := sink\<rparr>
      in case res of
           Inl source \<Rightarrow> fault source w
         | Inr _ \<Rightarrow> (Inr (), w))"

definition write_run_started ::
  "('s, 'c, 'e) StreamEnv \<Rightarrow> RunStartedHeader \<Rightarrow> ('s, 'c) EventStreamWriter
     \<Rightarrow> ('e SinkFault + unit) \<times> ('s, 'c) EventStreamWriter" where
  "write_run_started env a w = emit_writer env (EvRunStarted a) w"

definition write_node_ready ::
  "('s, 'c, 'e) StreamEnv \<Rightarrow> string \<Rightarrow> ('s, 'c) EventStreamWriter
     \<Rightarrow> ('e SinkFault + unit) \<times> ('s, 'c) EventStreamWriter" where
  "write_node_ready env a w = emit_writer env (EvNodeReady a) w"

definition write_node_admitted ::
  "('s, 'c, 'e) StreamEnv \<Rightarrow> string \<Rightarrow> ('s, 'c) EventStreamWriter
     \<Rightarrow> ('e SinkFault + unit) \<times> ('s, 'c) EventStreamWriter" where
  "write_node_admitted env a w = emit_writer env (EvNodeAdmitted a) w"

definition write_attempt_started ::
  "('s, 'c, 'e) StreamEnv \<Rightarrow> string \<Rightarrow> u32 \<Rightarrow> ('s, 'c) EventStreamWriter
     \<Rightarrow> ('e SinkFault + unit) \<times> ('s, 'c) EventStreamWriter" where
  "write_attempt_started env a b w = emit_writer env (EvAttemptStarted a b) w"

definition write_attempt_succeeded ::
  "('s, 'c, 'e) StreamEnv \<Rightarrow> string \<Rightarrow> u32 \<Rightarrow> ('s, 'c) EventStreamWriter
     \<Rightarrow> ('e SinkFault + unit) \<times> ('s, 'c) EventStreamWriter" where
  "write_attempt_succeeded env a b w = emit_writer env (EvAttemptSucceeded a b) w"

definition write_attempt_failed ::
  "('s, 'c, 'e) StreamEnv \<Rightarrow> string \<Rightarrow> u32 \<Rightarrow> ('s, 'c) EventStreamWriter
     \<Rightarrow> ('e SinkFault + unit) \<times> ('s, 'c) EventStreamWriter" where
  "write_attempt_failed env a b w = emit_writer env (EvAttemptFailed a b) w"

definition write_attempt_outcome ::
  "('s, 'c, 'e) StreamEnv \<Rightarrow> AttemptOutcomeRecord \<Rightarrow> ('s, 'c) EventStreamWriter
     \<Rightarrow> ('e SinkFault + unit) \<times> ('s, 'c) EventStreamWriter" where
  "write_attempt_outcome env a w = emit_writer env (EvAttemptOutcome a) w"

definition write_output_produced ::
  "('s, 'c, 'e) StreamEnv \<Rightarrow> OutputProducedRecord \<Rightarrow> ('s, 'c) EventStreamWriter
     \<Rightarrow> ('e SinkFault + unit) \<times> ('s, 'c) EventStreamWriter" where
  "write_output_produced env a w = emit_writer env (EvOutputProduced a) w"

definition write_attempt_submitted ::
  "('s, 'c, 'e) StreamEnv \<Rightarrow> AttemptSubmittedRecord \<Rightarrow> ('s, 'c) EventStreamWriter
     \<Rightarrow> ('e SinkFault + unit) \<times> ('s, 'c) EventStreamWriter" where
  "write_attempt_submitted env a w = emit_writer env (EvAttemptSubmitted a) w"

definition write_node_terminal ::
  "('s, 'c, 'e) StreamEnv \<Rightarrow> string \<Rightarrow> WireTerminalState \<Rightarrow> ('s, 'c) EventStreamWriter
     \<Rightarrow> ('e SinkFault + unit) \<times> ('s, 'c) EventStreamWriter" where
  "write_node_terminal env a b w = emit_writer env (EvNodeTerminal a b) w"

definition write_zombie_at_exit ::
  "('s, 'c, 'e) StreamEnv \<Rightarrow> string \<Rightarrow> u32 \<Rightarrow> ('s, 'c) EventStreamWriter
     \<Rightarrow> ('e SinkFault + unit) \<times> ('s, 'c) EventStreamWriter" where
  "write_zombie_at_exit env a b w = emit_writer env (EvZombieAtExit a b) w"

definition write_run_finished ::
  "('s, 'c, 'e) StreamEnv \<Rightarrow> RunOutcome \<Rightarrow> ('s, 'c) EventStreamWriter
     \<Rightarrow> ('e SinkFault + unit) \<times> ('s, 'c) EventStreamWriter" where
  "write_run_finished env a w = emit_writer env (EvRunFinished a) w"

definition emit_event ::
  "('s, 'c, 'e) StreamEnv \<Rightarrow> Event \<Rightarrow> ('s, 'c) EventStreamWriter
     \<Rightarrow> ('e SinkFault + unit) \<times> ('s, 'c) EventStreamWriter" where
  "emit_event env a w = emit_writer env a w"

section \<open>The reader\<close>

record ReadStream =
  rs_records :: "Json list"
  rs_trailing_partial_discarded :: bool

record 'p ReadError =
  re_line :: nat
  re_cause :: 'p

definition read_error_display :: "('p \<Rightarrow> string) \<Rightarrow> 'p ReadError \<Rightarrow> string" where
  "read_error_display show_cause e =
     ''non-final record at line '' @ show_nat (re_line e) @ '' failed to parse: '' @ show_cause (re_cause e)"

text \<open>\<open>split\<close> at every line break: there is always a last segment, empty after a final break.\<close>

fun split_lines :: "string \<Rightarrow> string list" where
  "split_lines [] = [[]]"
| "split_lines (c # cs) =
     (if c = CHR 0x0A then [] # split_lines cs
      else case split_lines cs of [] \<Rightarrow> [[c]] | seg # segs \<Rightarrow> (c # seg) # segs)"

fun read_segments :: "(string \<Rightarrow> 'p + Json) \<Rightarrow> nat \<Rightarrow> string list \<Rightarrow> 'p ReadError + Json list" where
  "read_segments parse i [] = Inr []"
| "read_segments parse i (seg # segs) =
     (if seg = [] then read_segments parse (Suc i) segs
      else case parse seg of
             Inl cause \<Rightarrow> Inl \<lparr>re_line = i, re_cause = cause\<rparr>
           | Inr v \<Rightarrow> map_sum id (Cons v) (read_segments parse (Suc i) segs))"

definition read_records :: "(string \<Rightarrow> 'p + Json) \<Rightarrow> string \<Rightarrow> 'p ReadError + ReadStream" where
  "read_records parse bytes =
     (let segments = split_lines bytes; tail = last segments
      in case read_segments parse 0 (butlast segments) of
           Inl e \<Rightarrow> Inl e
         | Inr records \<Rightarrow>
             Inr (if tail = [] then \<lparr>rs_records = records, rs_trailing_partial_discarded = False\<rparr>
                  else case parse tail of
                         Inr v \<Rightarrow> \<lparr>rs_records = records @ [v], rs_trailing_partial_discarded = False\<rparr>
                       | Inl _ \<Rightarrow> \<lparr>rs_records = records, rs_trailing_partial_discarded = True\<rparr>))"

section \<open>The envelope\<close>

definition envelope_keys :: "string list" where
  "envelope_keys = [''schema_version'', ''run_id'', ''seq'', ''wall'', ''offset_ns'', ''kind'']"

lemma opt_field_keys: "fst ` set (opt_field name f x) \<subseteq> {name}"
  by (auto simp: opt_field_def split: option.splits)

lemma opt_field_key [simp]: "k \<noteq> name \<Longrightarrow> (k, v) \<notin> set (opt_field name f x)"
  by (auto simp: opt_field_def split: option.splits)

lemma fields_avoid_envelope:
  assumes "event_wire event run_id = (kind, fs)" "k \<in> set envelope_keys"
  shows "(k, v) \<notin> set fs"
  using assms
  by (cases event)
    (auto simp: envelope_keys_def node_attempt_fields_def output_produced_fields_def
      attempt_submitted_fields_def attempt_outcome_fields_def)

lemma get_collect_notin: "k \<notin> fst ` set kvs \<Longrightarrow> bt_get (fold (\<lambda>(k, v). bt_insert k v) kvs m) k = bt_get m k"
  if "bt_ok m"
  using bt.get_fold_notin [OF that, of k fst kvs snd] by (simp add: case_prod_unfold)

lemma fold_insert_ok: "bt_ok m \<Longrightarrow> bt_ok (fold (\<lambda>(k, v). bt_insert k v) kvs m)"
  using bt.ok_fold [of m fst snd kvs] by (simp add: case_prod_unfold)

lemma record_envelope:
  "j_get ''schema_version'' (event_record run_id seq wall ns event) = Some (JString EVENT_STREAM_SCHEMA_VERSION)"
  "j_get ''run_id'' (event_record run_id seq wall ns event) = Some (JString run_id)"
  "j_get ''seq'' (event_record run_id seq wall ns event) = Some (json_nat seq)"
  "j_get ''wall'' (event_record run_id seq wall ns event) = Some (JString wall)"
  "j_get ''offset_ns'' (event_record run_id seq wall ns event) = Some (json_nat ns)"
  "j_get ''kind'' (event_record run_id seq wall ns event) = Some (JString (fst (event_wire event run_id)))"
proof -
  obtain kind fs where w: "event_wire event run_id = (kind, fs)" by fastforce
  let ?env = "[(''schema_version'', JString EVENT_STREAM_SCHEMA_VERSION), (''run_id'', JString run_id),
          (''seq'', json_nat seq), (''wall'', JString wall), (''offset_ns'', json_nat ns), (''kind'', JString kind)]"
  have "k \<notin> fst ` set fs" if "k \<in> set envelope_keys" for k
    using fields_avoid_envelope [OF w that] by auto
  then have get: "j_get k (event_record run_id seq wall ns event)
      = bt_get (fold (\<lambda>(k, v). bt_insert k v) ?env []) k" if "k \<in> set envelope_keys" for k
    using that get_collect_notin [OF fold_insert_ok [OF bt_ok_Nil], of k fs ?env]
    by (simp add: event_record_def w j_get_def json_obj_def collect_map_def)
  show "j_get ''schema_version'' (event_record run_id seq wall ns event) = Some (JString EVENT_STREAM_SCHEMA_VERSION)"
    "j_get ''run_id'' (event_record run_id seq wall ns event) = Some (JString run_id)"
    "j_get ''seq'' (event_record run_id seq wall ns event) = Some (json_nat seq)"
    "j_get ''wall'' (event_record run_id seq wall ns event) = Some (JString wall)"
    "j_get ''offset_ns'' (event_record run_id seq wall ns event) = Some (json_nat ns)"
    "j_get ''kind'' (event_record run_id seq wall ns event) = Some (JString (fst (event_wire event run_id)))"
    by (simp_all add: get envelope_keys_def w bt_simps)
qed


section \<open>Reading a torn file\<close>

definition line_of :: "float_text \<Rightarrow> Json \<Rightarrow> string" where
  "line_of ft r = write_canonical ft r @ [CHR 0x0A]"

text \<open>
  What is relied on of the parser for the records of a stream: it reads a record's text back, and
  refuses a text that is cut short.
\<close>

definition reads :: "(string \<Rightarrow> 'p + Json) \<Rightarrow> float_text \<Rightarrow> Json \<Rightarrow> bool" where
  "reads parse ft r \<longleftrightarrow> parse (write_canonical ft r) = Inr r
     \<and> (\<forall>n. 0 < n \<and> n < length (write_canonical ft r) \<longrightarrow> (\<exists>e. parse (take n (write_canonical ft r)) = Inl e))"

definition recordable :: "(string \<Rightarrow> 'p + Json) \<Rightarrow> float_text \<Rightarrow> Json \<Rightarrow> bool" where
  "recordable parse ft r \<longleftrightarrow> json_ok r \<and> (\<exists>m. r = JObject m) \<and> reads parse ft r"

lemma recordable_text:
  assumes "recordable parse ft r" "float_text_ok ft"
  shows "write_canonical ft r \<noteq> []" "CHR 0x0A \<notin> set (write_canonical ft r)"
  using assms canonical_printable [OF assms(2), of r]
  by (auto simp: recordable_def Let_def list_all_iff)

lemma split_lines_nonempty: "split_lines s \<noteq> []"
  by (induction s) (auto split: list.split)

lemma split_lines_no_break: "CHR 0x0A \<notin> set t \<Longrightarrow> split_lines t = [t]"
  by (induction t) auto

lemma split_lines_break: "CHR 0x0A \<notin> set t \<Longrightarrow> split_lines (t @ CHR 0x0A # r) = t # split_lines r"
  by (induction t) auto

lemma read_segments_shift: "read_segments parse i segs = Inr vs \<Longrightarrow> read_segments parse j segs = Inr vs"
proof (induction segs arbitrary: i j vs)
  case (Cons seg segs)
  show ?case
  proof (cases "seg = []")
    case True
    with Cons.prems Cons.IH [of "Suc i" vs "Suc j"] show ?thesis by simp
  next
    case False
    with Cons.prems obtain v us where "parse seg = Inr v" "read_segments parse (Suc i) segs = Inr us" "vs = v # us"
      by (cases "parse seg"; cases "read_segments parse (Suc i) segs") auto
    with Cons.IH [of "Suc i" us "Suc j"] False show ?thesis by simp
  qed
qed simp

lemma read_records_line:
  assumes "CHR 0x0A \<notin> set t" "t \<noteq> []" "parse t = Inr r" "read_records parse rest = Inr s"
  shows "read_records parse (t @ CHR 0x0A # rest) = Inr (s\<lparr>rs_records := r # rs_records s\<rparr>)"
proof -
  obtain vs where vs: "read_segments parse 0 (butlast (split_lines rest)) = Inr vs"
    using assms(4) by (auto simp: read_records_def Let_def split: sum.splits)
  have "split_lines (t @ CHR 0x0A # rest) = t # split_lines rest"
    by (rule split_lines_break) (rule assms)
  then show ?thesis
    using assms vs read_segments_shift [OF vs, of 1] split_lines_nonempty [of rest]
    by (auto simp: read_records_def Let_def split: sum.splits if_splits)
qed

lemma read_records_nil [simp]: "read_records parse [] = Inr \<lparr>rs_records = [], rs_trailing_partial_discarded = False\<rparr>"
  by (simp add: read_records_def)

lemma read_records_tail:
  assumes "CHR 0x0A \<notin> set t" "t \<noteq> []"
  shows "read_records parse t = Inr (case parse t of
      Inr v \<Rightarrow> \<lparr>rs_records = [v], rs_trailing_partial_discarded = False\<rparr>
    | Inl _ \<Rightarrow> \<lparr>rs_records = [], rs_trailing_partial_discarded = True\<rparr>)"
  using assms by (simp add: read_records_def split_lines_no_break split: sum.split)

text \<open>
  How a cut falls: \<open>m\<close> records are whole, and the file ends after a line break, after the last byte of
  a record, or inside the next record.
\<close>

definition cut_at :: "float_text \<Rightarrow> Json list \<Rightarrow> string \<Rightarrow> nat \<Rightarrow> bool \<Rightarrow> bool" where
  "cut_at ft rs bytes m torn \<longleftrightarrow> m \<le> length rs \<and>
     (let whole = concat (map (line_of ft) (take m rs)) in
      if torn then m < length rs \<and>
        (\<exists>n. 0 < n \<and> n < length (write_canonical ft (rs ! m)) \<and> bytes = whole @ take n (write_canonical ft (rs ! m)))
      else bytes = whole \<or> m > 0 \<and> bytes = butlast whole)"

lemma cut_at_Cons:
  assumes "cut_at ft rs bytes m torn"
  shows "cut_at ft (r # rs) (line_of ft r @ bytes) (Suc m) torn"
  using assms by (auto simp: cut_at_def Let_def butlast_append line_of_def)

lemma read_torn_stream:
  assumes ft: "float_text_ok ft" and "\<forall>r \<in> set rs. recordable parse ft r"
  shows "\<exists>m torn. cut_at ft rs (take k (concat (map (line_of ft) rs))) m torn
    \<and> read_records parse (take k (concat (map (line_of ft) rs)))
       = Inr \<lparr>rs_records = take m rs, rs_trailing_partial_discarded = torn\<rparr>"
  using assms(2)
proof (induction rs arbitrary: k)
  case Nil
  show ?case by (intro exI [of _ 0] exI [of _ False]) (simp add: cut_at_def)
next
  case (Cons r rs)
  let ?t = "write_canonical ft r" and ?rest = "concat (map (line_of ft) rs)"
  have r: "recordable parse ft r" using Cons.prems by simp
  note t = recordable_text [OF r ft]
  have parse: "parse ?t = Inr r" "\<And>n. 0 < n \<Longrightarrow> n < length ?t \<Longrightarrow> \<exists>e. parse (take n ?t) = Inl e"
    using r by (auto simp: recordable_def reads_def)
  consider "k = 0" | "0 < k" "k < length ?t" | "k = length ?t" | "k > length ?t" by linarith
  then show ?case
  proof cases
    case 1
    then show ?thesis by (intro exI [of _ 0] exI [of _ False]) (simp add: cut_at_def)
  next
    case 2
    then have bytes: "take k (concat (map (line_of ft) (r # rs))) = take k ?t" by (simp add: line_of_def)
    have "take k ?t \<noteq> []" "CHR 0x0A \<notin> set (take k ?t)" using 2 t by (auto dest: in_set_takeD)
    with 2 parse(2) [OF 2] show ?thesis
      unfolding bytes
      by (intro exI [of _ 0] exI [of _ True]) (auto simp: cut_at_def read_records_tail)
  next
    case 3
    then have bytes: "take k (concat (map (line_of ft) (r # rs))) = ?t" by (simp add: line_of_def)
    from t parse(1) show ?thesis
      unfolding bytes by (intro exI [of _ 1] exI [of _ False]) (simp add: cut_at_def read_records_tail line_of_def)
  next
    case 4
    then obtain j where j: "k = Suc (length ?t + j)" by (metis less_iff_Suc_add)
    then have bytes: "take k (concat (map (line_of ft) (r # rs))) = ?t @ CHR 0x0A # take j ?rest"
      by (simp add: line_of_def)
    from Cons obtain m torn where c: "cut_at ft rs (take j ?rest) m torn"
      "read_records parse (take j ?rest) = Inr \<lparr>rs_records = take m rs, rs_trailing_partial_discarded = torn\<rparr>"
      by force
    from read_records_line [OF t(2,1) parse(1) c(2)] cut_at_Cons [OF c(1), of r] show ?thesis
      unfolding bytes by (intro exI [of _ "Suc m"] exI [of _ torn]) (simp add: line_of_def)
  qed
qed


section \<open>What a run leaves on disk\<close>

text \<open>Every record is written, whatever the writer answered to the ones before.\<close>

definition emit_all ::
  "('s, 'c, 'e) StreamEnv \<Rightarrow> Event list \<Rightarrow> ('s, 'c) EventStreamWriter \<Rightarrow> ('s, 'c) EventStreamWriter" where
  "emit_all env events w = fold (\<lambda>ev w. snd (emit_writer env ev w)) events w"

lemma emit_all_simps [simp]:
  "emit_all env [] w = w"
  "emit_all env (ev # events) w = emit_all env events (snd (emit_writer env ev w))"
  by (simp_all add: emit_all_def)

text \<open>The record the writer builds for an event, as it stands.\<close>

definition next_record :: "('s, 'c, 'e) StreamEnv \<Rightarrow> Event \<Rightarrow> ('s, 'c) EventStreamWriter \<Rightarrow> Json" where
  "next_record env event w =
     (let (ns, c) = se_elapsed_ns env (ew_clock w); (wall, _) = se_wall env c
      in event_record (ew_run_id w) (ew_next_seq w) wall ns event)"

text \<open>The records a run offers to its sink, each with the sink's answer: whether it took the line.\<close>

fun offered :: "('s, 'c, 'e) StreamEnv \<Rightarrow> Event list \<Rightarrow> ('s, 'c) EventStreamWriter \<Rightarrow> (Json \<times> bool) list" where
  "offered env [] w = []"
| "offered env (event # events) w =
     (let (answer, w') = emit_writer env event w in (next_record env event w, \<not> isl answer) # offered env events w')"

definition taken :: "('s, 'c, 'e) StreamEnv \<Rightarrow> Event list \<Rightarrow> ('s, 'c) EventStreamWriter \<Rightarrow> Json list" where
  "taken env events w = map fst (filter snd (offered env events w))"

text \<open>
  A disk: a line is appended, or refused without a trace, or the disk fills up in the middle of a line
  and takes nothing any more, which is also how a crash looks from the file.
\<close>

definition orderly_sink :: "('s \<Rightarrow> string) \<Rightarrow> ('s \<Rightarrow> bool) \<Rightarrow> ('s, 'c, 'e) StreamEnv \<Rightarrow> bool" where
  "orderly_sink contents full env \<longleftrightarrow> (\<forall>line s. case se_append_line env line s of (answer, s') \<Rightarrow>
     if full s then isl answer \<and> contents s' = contents s \<and> full s'
     else if \<not> isl answer then contents s' = contents s @ line \<and> \<not> full s'
     else contents s' = contents s \<and> \<not> full s' \<or> full s' \<and> (\<exists>n. contents s' = contents s @ take n line))"

text \<open>One emit, as its record, the sink's answer and what the writer keeps.\<close>

lemma emit_writer_cases:
  obtains (taken) s where
    "se_append_line env (line_of (se_float_text env) (next_record env event w)) (ew_sink w) = (Inr (), s)"
    "fst (emit_writer env event w) = Inr ()" "ew_sink (snd (emit_writer env event w)) = s"
    "ew_next_seq (snd (emit_writer env event w)) = ew_next_seq w + 1"
    "ew_run_id (snd (emit_writer env event w)) = ew_run_id w"
  | (refused) e s where
    "se_append_line env (line_of (se_float_text env) (next_record env event w)) (ew_sink w) = (Inl e, s)"
    "isl (fst (emit_writer env event w))" "ew_sink (snd (emit_writer env event w)) = s"
    "ew_next_seq (snd (emit_writer env event w)) = ew_next_seq w"
    "ew_run_id (snd (emit_writer env event w)) = ew_run_id w"
proof -
  obtain ns c1 where 1: "se_elapsed_ns env (ew_clock w) = (ns, c1)" by fastforce
  obtain wall c2 where 2: "se_wall env c1 = (wall, c2)" by fastforce
  have line: "canonical_line (se_float_text env) (ew_run_id w) (ew_next_seq w) wall ns event
      = line_of (se_float_text env) (next_record env event w)"
    by (simp add: canonical_line_def line_of_def next_record_def 1 2)
  obtain a s where 3: "se_append_line env (line_of (se_float_text env) (next_record env event w)) (ew_sink w) = (a, s)"
    by fastforce
  show thesis
    by (cases a) (use 3 in \<open>auto intro: that simp: emit_writer_def 1 2 line fault_def Let_def\<close>)
qed

lemma next_record_event: "\<exists>wall ns. next_record env event w = event_record (ew_run_id w) (ew_next_seq w) wall ns event"
  by (auto simp: next_record_def split: prod.split)

lemma offered_Cons:
  "offered env (event # events) w
   = (next_record env event w, \<not> isl (fst (emit_writer env event w))) # offered env events (snd (emit_writer env event w))"
  by (simp split: prod.split)

lemma length_offered [simp]: "length (offered env events w) = length events"
  by (induction events arbitrary: w) (simp_all add: offered_Cons del: offered.simps(2))

lemma offered_event:
  assumes "(r, ok) \<in> set (offered env events w)"
  shows "\<exists>ev \<in> set events. \<exists>seq wall ns. r = event_record (ew_run_id w) seq wall ns ev"
  using assms
proof (induction events arbitrary: w)
  case (Cons ev events)
  have id: "ew_run_id (snd (emit_writer env ev w)) = ew_run_id w" by (rule emit_writer_cases [of env ev w])
  from Cons.prems consider "r = next_record env ev w" | "(r, ok) \<in> set (offered env events (snd (emit_writer env ev w)))"
    unfolding offered_Cons by auto
  then show ?case
  proof cases
    case 1
    then show ?thesis using next_record_event [of env ev w] by auto
  next
    case 2
    from Cons.IH [OF this] show ?thesis by (auto simp: id)
  qed
qed simp

lemma taken_Cons:
  "taken env (event # events) w
   = (if isl (fst (emit_writer env event w)) then [] else [next_record env event w])
     @ taken env events (snd (emit_writer env event w))"
  by (simp add: taken_def offered_Cons del: offered.simps(2))

lemma taken_Nil [simp]: "taken env [] w = []"
  by (simp add: taken_def)

text \<open>A full disk keeps its bytes; before that it holds the lines it took and at most a piece of one more.\<close>

lemma full_emits:
  assumes "orderly_sink contents full env" "full (ew_sink w)"
  shows "contents (ew_sink (emit_all env events w)) = contents (ew_sink w) \<and> taken env events w = []"
  using assms(2)
proof (induction events arbitrary: w)
  case (Cons ev events)
  have "isl (fst (emit_writer env ev w)) \<and> full (ew_sink (snd (emit_writer env ev w)))
      \<and> contents (ew_sink (snd (emit_writer env ev w))) = contents (ew_sink w)"
    by (rule emit_writer_cases [of env ev w]) (use assms(1) Cons.prems in \<open>fastforce simp: orderly_sink_def split: prod.splits\<close>)+
  with Cons.IH [of "snd (emit_writer env ev w)"]
  show ?case by (simp add: taken_Cons)
qed simp

lemma orderly_bytes:
  assumes sink: "orderly_sink contents full env" and "\<not> full (ew_sink w)"
  shows "\<exists>extra n. length extra \<le> 1 \<and> set extra \<subseteq> {r. (r, False) \<in> set (offered env events w)}
    \<and> contents (ew_sink (emit_all env events w)) = contents (ew_sink w)
        @ take n (concat (map (line_of (se_float_text env)) (taken env events w @ extra)))
    \<and> length (concat (map (line_of (se_float_text env)) (taken env events w))) \<le> n
    \<and> (\<forall>i < length (taken env events w @ extra).
         j_get ''seq'' ((taken env events w @ extra) ! i) = Some (json_nat (ew_next_seq w + of_nat i)))"
  using assms(2)
proof (induction events arbitrary: w)
  case Nil
  show ?case by (intro exI [of _ "[]"] exI [of _ 0]) simp
next
  case (Cons ev events)
  let ?r = "next_record env ev w" and ?w = "snd (emit_writer env ev w)" and ?line = "line_of (se_float_text env)"
  have seq: "j_get ''seq'' ?r = Some (json_nat (ew_next_seq w))"
    using next_record_event [of env ev w] by (auto simp: record_envelope)
  show ?case
  proof (rule emit_writer_cases [of env ev w])
    fix s assume t: "se_append_line env (?line ?r) (ew_sink w) = (Inr (), s)" "fst (emit_writer env ev w) = Inr ()"
      "ew_sink ?w = s" "ew_next_seq ?w = ew_next_seq w + 1"
    from sink t(1) Cons.prems have s: "contents s = contents (ew_sink w) @ ?line ?r" "\<not> full s"
      unfolding orderly_sink_def by (fastforce split: prod.splits)+
    from Cons.IH [of ?w] s(2) t(3) obtain extra n where ih: "length extra \<le> 1"
      "set extra \<subseteq> {r. (r, False) \<in> set (offered env events ?w)}"
      "contents (ew_sink (emit_all env events ?w)) = contents s @ take n (concat (map ?line (taken env events ?w @ extra)))"
      "length (concat (map ?line (taken env events ?w))) \<le> n"
      "\<forall>i < length (taken env events ?w @ extra).
         j_get ''seq'' ((taken env events ?w @ extra) ! i) = Some (json_nat (ew_next_seq ?w + of_nat i))" by auto
    have all: "taken env (ev # events) w = ?r # taken env events ?w" by (simp add: taken_Cons t(2))
    have "j_get ''seq'' ((?r # taken env events ?w @ extra) ! i) = Some (json_nat (ew_next_seq w + of_nat i))"
      if "i < Suc (length (taken env events ?w @ extra))" for i
      using that seq ih(5) by (cases i) (auto simp: t(4) add.assoc)
    then show ?thesis
      using ih(1-4) s(1) unfolding all
      by (intro exI [of _ extra] exI [of _ "length (?line ?r) + n"]) (auto simp: offered_Cons simp del: offered.simps(2))
  next
    fix e s assume t: "se_append_line env (?line ?r) (ew_sink w) = (Inl e, s)" "isl (fst (emit_writer env ev w))"
      "ew_sink ?w = s" "ew_next_seq ?w = ew_next_seq w"
    have all: "taken env (ev # events) w = taken env events ?w" by (simp add: taken_Cons t(2))
    from sink t(1) Cons.prems
    consider "contents s = contents (ew_sink w)" "\<not> full s"
      | n where "full s" "contents s = contents (ew_sink w) @ take n (?line ?r)"
      unfolding orderly_sink_def by (fastforce split: prod.splits)
    then show ?thesis
    proof cases
      case 1
      with Cons.IH [of ?w] t(3) obtain extra n where "length extra \<le> 1"
        "set extra \<subseteq> {r. (r, False) \<in> set (offered env events ?w)}"
        "contents (ew_sink (emit_all env events ?w)) = contents s @ take n (concat (map ?line (taken env events ?w @ extra)))"
        "length (concat (map ?line (taken env events ?w))) \<le> n"
        "\<forall>i < length (taken env events ?w @ extra).
           j_get ''seq'' ((taken env events ?w @ extra) ! i) = Some (json_nat (ew_next_seq ?w + of_nat i))" by auto
      then show ?thesis
        unfolding all t(4) using 1(1)
        by (intro exI [of _ extra] exI [of _ n]) (auto simp: offered_Cons simp del: offered.simps(2))
    next
      case (2 n)
      from full_emits [OF sink, of ?w events] 2 t(3)
      have "contents (ew_sink (emit_all env events ?w)) = contents (ew_sink w) @ take n (?line ?r)" "taken env events ?w = []"
        by simp_all
      then show ?thesis
        unfolding all using seq t(2)
        by (intro exI [of _ "[?r]"] exI [of _ n]) (auto simp: offered_Cons simp del: offered.simps(2))
    qed
  qed
qed

lemma read_whole_stream:
  assumes "float_text_ok ft" "\<forall>r \<in> set rs. recordable parse ft r"
  shows "read_records parse (concat (map (line_of ft) rs)) = Inr \<lparr>rs_records = rs, rs_trailing_partial_discarded = False\<rparr>"
  using assms(2)
proof (induction rs)
  case (Cons r rs)
  then have r: "recordable parse ft r" "parse (write_canonical ft r) = Inr r"
    by (simp_all add: recordable_def reads_def)
  from recordable_text [OF r(1) assms(1)] r(2) Cons show ?case
    by (simp add: line_of_def read_records_line)
qed simp

text \<open>A cut behind the first records leaves them whole.\<close>

lemma cut_keeps:
  assumes cut: "cut_at ft (rs @ extra) bytes m torn" and n: "bytes = take n (concat (map (line_of ft) (rs @ extra)))"
    and len: "length (concat (map (line_of ft) rs)) \<le> n"
  shows "length rs \<le> m"
proof (rule ccontr)
  assume "\<not> length rs \<le> m"
  then have m: "m < length rs" by simp
  then have split: "rs = take m rs @ rs ! m # drop (Suc m) rs" by (rule id_take_nth_drop)
  have "concat (map (line_of ft) rs) = concat (map (line_of ft) (take m rs)) @ line_of ft (rs ! m)
      @ concat (map (line_of ft) (drop (Suc m) rs))"
    by (subst split) simp
  then have "length (concat (map (line_of ft) (take m rs))) + length (write_canonical ft (rs ! m)) < length bytes"
    using len n by (simp add: line_of_def)
  moreover have "length bytes < length (concat (map (line_of ft) (take m rs))) + length (write_canonical ft (rs ! m)) + 1"
    using cut m by (auto simp: cut_at_def Let_def nth_append split: if_splits)
  ultimately show False by linarith
qed

lemma stream_recovers:
  assumes "float_text_ok (se_float_text env)" "orderly_sink contents full env"
    and "\<not> full sink" "contents sink = []"
    and "w = writer_new sink c run_id pipeline" "bytes = contents (ew_sink (emit_all env events w))"
    and "\<forall>(r, ok) \<in> set (offered env events w). recordable parse (se_float_text env) r"
  shows "\<exists>rs m torn. read_records parse (take k bytes) = Inr \<lparr>rs_records = take m rs, rs_trailing_partial_discarded = torn\<rparr>
    \<and> cut_at (se_float_text env) rs (take k bytes) m torn
    \<and> take (length (taken env events w)) rs = taken env events w \<and> length rs \<le> length (taken env events w) + 1
    \<and> set rs \<subseteq> fst ` set (offered env events w)
    \<and> (\<forall>i < length rs. j_get ''seq'' (rs ! i) = Some (json_nat (of_nat i)))
    \<and> (length bytes \<le> k \<longrightarrow> length (taken env events w) \<le> m)"
proof -
  let ?line = "line_of (se_float_text env)" and ?taken = "taken env events w"
  have w: "ew_sink w = sink" "ew_next_seq w = 0" by (simp_all add: assms(5) writer_new_def)
  obtain extra n where b: "length extra \<le> 1" "set extra \<subseteq> {r. (r, False) \<in> set (offered env events w)}"
    "bytes = take n (concat (map ?line (?taken @ extra)))" "length (concat (map ?line ?taken)) \<le> n"
    "\<forall>i < length (?taken @ extra). j_get ''seq'' ((?taken @ extra) ! i) = Some (json_nat (of_nat i))"
    using orderly_bytes [OF assms(2), of w events] assms(3,4) unfolding w assms(6) by auto
  define rs where "rs = ?taken @ extra"
  have sub: "set rs \<subseteq> fst ` set (offered env events w)"
    using b(2) by (force simp: rs_def taken_def)
  then have rec: "\<forall>r \<in> set rs. recordable parse (se_float_text env) r" using assms(7) by fastforce
  have cut: "take k bytes = take (min k n) (concat (map ?line rs))" unfolding b(3) rs_def by (simp only: take_take)
  from read_torn_stream [OF assms(1) rec, of "min k n"] obtain m torn where
    m: "cut_at (se_float_text env) rs (take k bytes) m torn"
       "read_records parse (take k bytes) = Inr \<lparr>rs_records = take m rs, rs_trailing_partial_discarded = torn\<rparr>"
    unfolding cut by blast
  have "length ?taken \<le> m" if "length bytes \<le> k"
  proof (rule cut_keeps [OF _ b(3,4)])
    show "cut_at (se_float_text env) (?taken @ extra) bytes m torn" using m(1) that by (simp add: rs_def)
  qed
  with m sub b(1,5) show ?thesis
    by (intro exI [of _ rs] exI [of _ m] exI [of _ torn]) (simp add: rs_def)
qed

text \<open>
  C18. A run goes on writing whatever the sink answers.  On a disk that takes a line whole, refuses it
  without a trace, or fills up in the middle of one and takes nothing any more, what is in the file,
  cut at any byte by a crash, always reads back: the records are those that the sink took, in order and
  followed at most by one it did not acknowledge, they are numbered from zero without a gap although
  records between them were refused, and a torn record is reported.  Without a cut no record that the
  sink took is lost.
\<close>

theorem stream_crash_safe:
  assumes "float_text_ok (se_float_text env)" "orderly_sink contents full env"
    and "\<not> full sink" "contents sink = []"
    and "w = writer_new sink c run_id pipeline" "bytes = contents (ew_sink (emit_all env events w))"
    and "\<forall>(r, ok) \<in> set (offered env events w). recordable parse (se_float_text env) r"
  shows "\<exists>rs m torn. read_records parse (take k bytes) = Inr \<lparr>rs_records = take m rs, rs_trailing_partial_discarded = torn\<rparr>
    \<and> cut_at (se_float_text env) rs (take k bytes) m torn
    \<and> take (length (taken env events w)) rs = taken env events w \<and> length rs \<le> length (taken env events w) + 1
    \<and> set rs \<subseteq> fst ` set (offered env events w)
    \<and> (\<forall>i < length rs. j_get ''seq'' (rs ! i) = Some (json_nat (of_nat i)))
    \<and> (length bytes \<le> k \<longrightarrow> length (taken env events w) \<le> m)"
  using stream_recovers [OF assms] .

text \<open>A disk that refuses the first line and takes the second, a clock that stands still, and a parser that knows one record.\<close>

definition sample_env :: "(string, u64, unit) StreamEnv" where
  "sample_env = \<lparr>se_append_line = \<lambda>line s. (Inr (), s @ line), se_flush = \<lambda>s. (Inr (), s),
     se_elapsed_ns = \<lambda>c. (c, c + 7), se_wall = \<lambda>c. (''now'', c), se_float_text = plain_float_text\<rparr>"

definition refusing_env :: "(string \<times> bool, u64, unit) StreamEnv" where
  "refusing_env = \<lparr>se_append_line = \<lambda>line (s, ready). if ready then (Inr (), (s @ line, True)) else (Inl (), (s, True)),
     se_flush = \<lambda>s. (Inr (), s), se_elapsed_ns = \<lambda>c. (c, c), se_wall = \<lambda>c. (''now'', c), se_float_text = plain_float_text\<rparr>"

definition sample_record :: Json where
  "sample_record = event_record ''r'' 0 ''now'' 5 (EvNodeReady ''n'')"

definition sample_parser :: "string \<Rightarrow> unit + Json" where
  "sample_parser t = (if t = write_canonical plain_float_text sample_record then Inr sample_record else Inl ())"

lemma sample_recordable: "recordable sample_parser plain_float_text sample_record"
proof -
  have "json_ok sample_record"
    by (simp add: sample_record_def event_record_def json_obj_def json_nat_def collect_map_def number_ok_def
        bt_ok_def less_char_def)
  moreover have "take n xs \<noteq> xs" if "n < length xs" for n and xs :: string
    using that by (metis length_take min.absorb4 nat_less_le)
  ultimately show ?thesis
    by (auto simp: recordable_def reads_def sample_parser_def sample_record_def event_record_def json_obj_def)
qed

theorem stream_crash_safe_witness:
  "\<exists>w bytes. w = writer_new ([], False) 5 ''r'' ''p''
     \<and> bytes = fst (ew_sink (emit_all refusing_env [EvNodeReady ''n'', EvNodeReady ''n''] w))
     \<and> offered refusing_env [EvNodeReady ''n'', EvNodeReady ''n''] w = [(sample_record, False), (sample_record, True)]
     \<and> (\<exists>rs m torn. read_records sample_parser (take 3 bytes) = Inr \<lparr>rs_records = take m rs, rs_trailing_partial_discarded = torn\<rparr>)
     \<and> (\<exists>rest torn. read_records sample_parser bytes
          = Inr \<lparr>rs_records = sample_record # rest, rs_trailing_partial_discarded = torn\<rparr>)"
proof -
  define w :: "(string \<times> bool, u64) EventStreamWriter" where "w = writer_new ([], False) 5 ''r'' ''p''"
  define evs where "evs = [EvNodeReady ''n'', EvNodeReady ''n'']"
  define bytes where "bytes = fst (ew_sink (emit_all refusing_env evs w))"
  have off: "offered refusing_env evs w = [(sample_record, False), (sample_record, True)]"
    by (simp add: evs_def w_def refusing_env_def writer_new_def emit_writer_def next_record_def fault_def sample_record_def Let_def)
  then have tak: "taken refusing_env evs w = [sample_record]" by (simp add: taken_def)
  have sink: "orderly_sink fst (\<lambda>_. False) refusing_env" "se_float_text refusing_env = plain_float_text"
    by (simp_all add: orderly_sink_def refusing_env_def split: prod.split)
  have hyp: "\<forall>(r, ok) \<in> set (offered refusing_env evs w). recordable sample_parser (se_float_text refusing_env) r"
    unfolding off sink(2) using sample_recordable by simp
  note safe = stream_crash_safe [OF _ sink(1) _ _ w_def bytes_def hyp, unfolded sink(2) tak, OF plain_float_text_ok]
  from safe [of 3] obtain rs m torn where
    1: "read_records sample_parser (take 3 bytes) = Inr \<lparr>rs_records = take m rs, rs_trailing_partial_discarded = torn\<rparr>"
    by auto
  from safe [of "length bytes"] obtain rs' m' torn' where
    2: "read_records sample_parser bytes = Inr \<lparr>rs_records = take m' rs', rs_trailing_partial_discarded = torn'\<rparr>"
       "take 1 rs' = [sample_record]" "1 \<le> m'"
    by auto
  from 2(2,3) have "\<exists>rest. take m' rs' = sample_record # rest" by (cases rs'; cases m') auto
  then have second: "\<exists>rest torn. read_records sample_parser bytes
      = Inr \<lparr>rs_records = sample_record # rest, rs_trailing_partial_discarded = torn\<rparr>"
    using 2(1) by auto
  from 1 have first: "\<exists>rs m torn. read_records sample_parser (take 3 bytes)
      = Inr \<lparr>rs_records = take m rs, rs_trailing_partial_discarded = torn\<rparr>" by blast
  show ?thesis
    unfolding evs_def [symmetric]
    by (intro exI [of _ w] exI [of _ bytes] conjI w_def bytes_def off first second)
qed

text \<open>A file sink without that order: an append that fails may leave a part of its line, and the next one follows.\<close>

definition file_sink :: "(string, 'c, 'e) StreamEnv \<Rightarrow> bool" where
  "file_sink env \<longleftrightarrow> (\<forall>line s. case se_append_line env line s of
       (Inr _, s') \<Rightarrow> s' = s @ line
     | (Inl _, s') \<Rightarrow> \<exists>n. s' = s @ take n line)"

text \<open>The records of a run whose sink takes every line: each event with its number and the clocks' readings.\<close>

fun stamped :: "('s, 'c, 'e) StreamEnv \<Rightarrow> string \<Rightarrow> u64 \<Rightarrow> 'c \<Rightarrow> Event list \<Rightarrow> Json list" where
  "stamped env run_id seq c [] = []"
| "stamped env run_id seq c (event # events) =
     (let (ns, c) = se_elapsed_ns env c; (wall, c) = se_wall env c
      in event_record run_id seq wall ns event # stamped env run_id (seq + 1) c events)"

lemma stamped_seq:
  "i < length (stamped env run_id seq c events) \<Longrightarrow>
     j_get ''seq'' (stamped env run_id seq c events ! i) = Some (json_nat (seq + of_nat i))"
proof (induction events arbitrary: i seq c)
  case (Cons event events)
  then show ?case
    by (cases i) (auto simp: record_envelope Let_def algebra_simps split: prod.splits)
qed simp

lemma length_stamped [simp]: "length (stamped env run_id seq c events) = length events"
  by (induction events arbitrary: seq c) (simp_all add: Let_def split: prod.split)

lemma emit_all_bytes:
  assumes "\<And>line s. se_append_line env line s = (Inr (), s @ line)"
  shows "ew_sink (emit_all env events w) = ew_sink w
    @ concat (map (line_of (se_float_text env)) (stamped env (ew_run_id w) (ew_next_seq w) (ew_clock w) events))"
proof (induction events arbitrary: w)
  case (Cons event events)
  obtain ns c1 where 1: "se_elapsed_ns env (ew_clock w) = (ns, c1)" by fastforce
  obtain wall c2 where 2: "se_wall env c1 = (wall, c2)" by fastforce
  show ?case
    by (simp add: Cons 1 2 assms emit_writer_def canonical_line_def line_of_def Let_def)
qed simp

end
