(* ===== verification/Driver.thy ===== *)
theory Driver
  imports Readiness_Session Admission Attempt Event_Stream
begin

text \<open>
  The run loop (\<open>crates/cli/src/driver.rs\<close>): one loop that owns the run's bookkeeping and reacts to
  the messages of one unbounded channel, while dispatched attempts, deadline timers and cancellation
  requests run beside it and send to that channel.  The loop's locals are the record \<open>LoopState\<close>;
  every helper of the loop is a function on it; what the tasks, timers, operators and clocks do is a
  sequence of actions chosen from outside.  The records the loop writes are collected in order; that
  the loop ignores what the writer answers is \<open>write_log\<close>.
\<close>

section \<open>Shutdown budget and exit selection\<close>

datatype ShutdownExit = ExitSuccess | ExitRunFailure | ExitCancelled | ExitSinkFailure

definition secs :: "nat \<Rightarrow> duration" where
  "secs n = of_nat n * 1000000000"

definition DEFAULT_GRACE :: duration where "DEFAULT_GRACE = secs 10"
definition DEFAULT_TEARDOWN_DEADLINE :: duration where "DEFAULT_TEARDOWN_DEADLINE = secs 15"
definition DEFAULT_FINAL_FLUSH :: duration where "DEFAULT_FINAL_FLUSH = secs 2"

record ShutdownBudget =
  bg_grace :: duration
  bg_teardown_deadline :: duration
  bg_final_flush :: duration

text \<open>The sum of two durations panics when it leaves the range of \<open>Duration\<close>.\<close>

definition duration_add :: "duration \<Rightarrow> duration \<Rightarrow> duration option" where
  "duration_add a b = (if uint a + uint b \<le> uint DURATION_MAX then Some (a + b) else None)"

definition budget_total :: "ShutdownBudget \<Rightarrow> duration option" where
  "budget_total b =
     Option.bind (duration_add (bg_grace b) (bg_teardown_deadline b)) (\<lambda>d. duration_add d (bg_final_flush b))"

definition as_secs :: "duration \<Rightarrow> nat" where
  "as_secs d = unat d div 1000000000"

definition budget_display :: "ShutdownBudget \<Rightarrow> string option" where
  "budget_display b = map_option (\<lambda>t.
     ''shutdown budget: grace '' @ show_nat (as_secs (bg_grace b)) @ ''s + teardown-deadline ''
     @ show_nat (as_secs (bg_teardown_deadline b)) @ ''s + final-flush ''
     @ show_nat (as_secs (bg_final_flush b)) @ ''s = '' @ show_nat (as_secs t) @ ''s worst-case'')
     (budget_total b)"

definition shutdown_budget :: "duration \<Rightarrow> duration \<Rightarrow> ShutdownBudget" where
  "shutdown_budget grace teardown_deadline =
     \<lparr>bg_grace = grace, bg_teardown_deadline = teardown_deadline, bg_final_flush = DEFAULT_FINAL_FLUSH\<rparr>"

definition is_failure_like :: "TerminalState \<Rightarrow> bool" where
  "is_failure_like st \<longleftrightarrow> st \<in> {Failed, TimedOut, Abandoned, UpstreamFailed}"

definition is_zombie_candidate :: "TerminalState \<Rightarrow> bool" where
  "is_zombie_candidate st \<longleftrightarrow> st \<in> {TimedOut, Abandoned}"

definition outcome_flags :: "TerminalState \<Rightarrow> bool \<times> bool \<Rightarrow> bool \<times> bool" where
  "outcome_flags st = (\<lambda>(any_failure, any_stop).
     if st \<in> {Failed, TimedOut, Abandoned, UpstreamFailed} then (True, any_stop)
     else if st = Cancelled then (any_failure, True) else (any_failure, any_stop))"

definition overall_outcome :: "(string, TerminalState) btree \<Rightarrow> RunOutcome" where
  "overall_outcome terminal_states =
     (let (any_failure, any_stop) = fold outcome_flags (bt_values terminal_states) (False, False)
      in if any_failure then RunFailed else if any_stop then RunCancelled else RunSucceeded)"

definition select_shutdown_exit :: "RunOutcome \<Rightarrow> CancellationOrigin option \<Rightarrow> bool \<Rightarrow> ShutdownExit" where
  "select_shutdown_exit outcome origin flush_ok =
     (if outcome \<in> {RunFailed, AssemblyFailed, BootstrapFailed} \<or> origin = Some FailureUnderStop
      then ExitRunFailure
      else if \<not> flush_ok then ExitSinkFailure
      else if origin = Some ExternalInterrupt \<or> outcome = RunCancelled then ExitCancelled
      else ExitSuccess)"

fun wire_terminal :: "TerminalState \<Rightarrow> WireTerminalState" where
  "wire_terminal Succeeded = WSucceeded"
| "wire_terminal Failed = WFailed"
| "wire_terminal TimedOut = WTimedOut"
| "wire_terminal Skipped = WSkipped"
| "wire_terminal UpstreamSkipped = WUpstreamSkipped"
| "wire_terminal UpstreamFailed = WUpstreamFailed"
| "wire_terminal Cancelled = WCancelled"
| "wire_terminal Abandoned = WAbandoned"
| "wire_terminal SatisfiedFromPrior = WSatisfiedFromPrior"

section \<open>The fate of an attempt that cannot be stopped\<close>

datatype FateState = FateRunning | FateCompleted | FateTimedOut

definition fate_new :: FateState where "fate_new = FateRunning"

definition attempt_begins :: "FateState \<Rightarrow> FateState" where
  "attempt_begins f = (if f = FateCompleted then FateRunning else f)"

definition claim_timeout :: "FateState \<Rightarrow> bool \<times> FateState" where
  "claim_timeout f = (if f = FateRunning then (True, FateTimedOut) else (False, f))"

text \<open>The answer is whether the late-result barrier is up.\<close>

definition claim_completion :: "FateState \<Rightarrow> bool \<times> FateState" where
  "claim_completion f =
     (case f of FateRunning \<Rightarrow> (False, FateCompleted) | FateCompleted \<Rightarrow> (False, f) | FateTimedOut \<Rightarrow> (True, f))"

definition is_timed_out :: "FateState \<Rightarrow> bool" where
  "is_timed_out f \<longleftrightarrow> f = FateTimedOut"

section \<open>Messages and the loop's state\<close>

type_synonym instant = nat

datatype DoneKind = AttemptKind | TimeoutFired nat "nat option"

record AttemptDone =
  ad_node :: string
  ad_state :: TerminalState
  ad_events :: "AttemptEvent list"
  ad_durable_reference :: "string option"
  ad_durable_reference_meta :: "DurableReferenceMeta option"
  ad_kind :: DoneKind

definition done_attempt :: "string \<Rightarrow> TerminalState \<Rightarrow> AttemptEvent list \<Rightarrow> AttemptDone" where
  "done_attempt node st events =
     \<lparr>ad_node = node, ad_state = st, ad_events = events, ad_durable_reference = None,
      ad_durable_reference_meta = None, ad_kind = AttemptKind\<rparr>"

definition CANCEL_WAKE_SENTINEL :: string where "CANCEL_WAKE_SENTINEL = []"

text \<open>A permit is owned by the attempt or sits in a cell that the loop can read.\<close>

datatype PermitHold = OwnedPermit Permit | SharedPermit nat

text \<open>What a finished attempt hands to its report, beside its name.\<close>

record AttemptResult =
  re_state :: TerminalState
  re_events :: "AttemptEvent list"
  re_durable_reference :: "string option"
  re_durable_reference_meta :: "DurableReferenceMeta option"

record Dispatched =
  dp_node :: string
  dp_hold :: PermitHold
  dp_signal :: CancellationSignal
  dp_result :: "AttemptResult option"

record DeadlineTimer =
  tm_node :: string
  tm_due :: instant
  tm_cell :: nat
  tm_fate :: "nat option"

datatype Phase = AtTop | Awaiting "instant option" | Left

record LoopState =
  ls_log :: "Event list"
  ls_tracker :: ReadinessTracker
  ls_admission :: Inner
  ls_terminal :: "(string, TerminalState) btree"
  ls_zombies :: "(string \<times> u32) list"
  ls_cancel :: CancellationSource
  ls_flags :: flag_heap
  ls_origin :: "CancellationOrigin option"
  ls_in_flight :: nat
  ls_live :: "string list"
  ls_pending :: "string list"
  ls_produced :: "(string, ConsumedInput) btree"
  ls_stopping :: bool
  ls_draining :: bool
  ls_drain_deadline :: "instant option"
  ls_timed_out :: "string list"
  ls_zombie_deadline :: "instant option"
  ls_runners :: "(string, nat option) btree"
  ls_queue :: "AttemptDone list"
  ls_running :: "Dispatched list"
  ls_timers :: "DeadlineTimer list"
  ls_cells :: "Permit option list"
  ls_fates :: "FateState list"
  ls_trigger :: "CancellationOrigin option"
  ls_now :: instant
  ls_phase :: Phase

text \<open>What the loop is given and never changes.\<close>

record LoopEnv =
  le_pipeline :: Pipeline
  le_run_id :: string
  le_grace :: instant
  le_failure_mode :: FailureMode
  le_placement_handling :: PlacementHandling

section \<open>Small steps of the loop\<close>

definition write_log :: "Event \<Rightarrow> LoopState \<Rightarrow> LoopState" where
  "write_log ev s = s\<lparr>ls_log := ls_log s @ [ev]\<rparr>"

definition send :: "AttemptDone \<Rightarrow> LoopState \<Rightarrow> LoopState" where
  "send d s = s\<lparr>ls_queue := ls_queue s @ [d]\<rparr>"

definition count_in :: "LoopState \<Rightarrow> LoopState" where
  "count_in s = s\<lparr>ls_in_flight := ls_in_flight s + 1\<rparr>"

text \<open>The wire record of an attempt event.\<close>

fun attempt_event_wire :: "AttemptEvent \<Rightarrow> Event" where
  "attempt_event_wire (NodeAdmitted node) = EvNodeAdmitted node"
| "attempt_event_wire (AttemptStarted node attempt) = EvAttemptStarted node attempt"
| "attempt_event_wire (AttemptSucceeded node attempt) = EvAttemptSucceeded node attempt"
| "attempt_event_wire (AttemptFailed node attempt) = EvAttemptFailed node attempt"
| "attempt_event_wire (AttemptTimedOut node attempt) = EvAttemptFailed node attempt"
| "attempt_event_wire (AttemptPanicked node attempt _) = EvAttemptFailed node attempt"
| "attempt_event_wire (BackoffStarted node attempt _) = EvAttemptFailed node attempt"
| "attempt_event_wire (NodeTerminal node st) = EvNodeTerminal node (wire_terminal st)"

definition write_attempt_event :: "AttemptEvent \<Rightarrow> LoopState \<Rightarrow> LoopState" where
  "write_attempt_event ev = write_log (attempt_event_wire ev)"

text \<open>Exactly once: a state that is there stays.\<close>

definition terminal_or_insert ::
  "string \<Rightarrow> TerminalState \<Rightarrow> (string, TerminalState) btree \<Rightarrow> (string, TerminalState) btree" where
  "terminal_or_insert node st m = (case bt_get m node of None \<Rightarrow> bt_insert node st m | Some _ \<Rightarrow> m)"

definition record_terminal :: "string \<Rightarrow> TerminalState \<Rightarrow> LoopState \<Rightarrow> LoopState" where
  "record_terminal node st s = s\<lparr>ls_terminal := terminal_or_insert node st (ls_terminal s)\<rparr>"

definition push_zombie :: "string \<Rightarrow> u32 \<Rightarrow> LoopState \<Rightarrow> LoopState" where
  "push_zombie node attempt s = s\<lparr>ls_zombies := ls_zombies s @ [(node, attempt)]\<rparr>"

definition node_name :: "Pipeline \<Rightarrow> node_id \<Rightarrow> string option" where
  "node_name p i = map_option pn_name (node_by_id p i)"

definition is_default_rule_node :: "Pipeline \<Rightarrow> string \<Rightarrow> bool" where
  "is_default_rule_node p name =
     (case node_by_id p (from_name name) of None \<Rightarrow> True | Some n \<Rightarrow> pn_trigger_rule n = AllSucceeded)"

definition pool_cost_new :: PoolCost where
  "pool_cost_new = \<lparr>co_working_memory = 0, co_output_residency = 0, co_blocking_threads = 0,
     co_compute_threads = 0, co_remote_slots = 0\<rparr>"

definition declared_cost :: "LoopEnv \<Rightarrow> string \<Rightarrow> PoolCost" where
  "declared_cost e name =
     (case node_by_id (le_pipeline e) (from_name name) of
        None \<Rightarrow> pool_cost_new
      | Some n \<Rightarrow> from_policy (pn_policy n) (le_placement_handling e))"

text \<open>Cancelled or refused nodes go through the channel like attempts, and are counted.\<close>

definition terminal_message :: "string \<Rightarrow> TerminalState \<Rightarrow> AttemptDone" where
  "terminal_message name st = done_attempt name st [NodeTerminal name st]"

definition cancel_node :: "string \<Rightarrow> LoopState \<Rightarrow> LoopState" where
  "cancel_node name s = count_in (send (terminal_message name Cancelled) s)"

definition reject_over_demand :: "string \<Rightarrow> LoopState \<Rightarrow> LoopState" where
  "reject_over_demand name = send (terminal_message name Failed)"

definition reject_zombie_pinned :: "string \<Rightarrow> LoopState \<Rightarrow> LoopState" where
  "reject_zombie_pinned name s = count_in (send (terminal_message name Failed) s)"

section \<open>Admission of one node\<close>

text \<open>Only a blocking or compute node with a timeout gets a timer and a shared permit.\<close>

definition arm_unkillable_deadline ::
  "LoopEnv \<Rightarrow> string \<Rightarrow> ExecutionClass \<Rightarrow> nat option \<Rightarrow> Permit \<Rightarrow> LoopState \<Rightarrow> PermitHold \<times> LoopState" where
  "arm_unkillable_deadline e name class fate permit s =
     (let budget = (case node_by_id (le_pipeline e) (from_name name) of
                      None \<Rightarrow> None
                    | Some n \<Rightarrow> if class \<in> {Blocking, Compute} then np_timeout (pn_policy n) else None)
      in case budget of
           None \<Rightarrow> (OwnedPermit permit, s)
         | Some budget \<Rightarrow>
             (let cell = length (ls_cells s)
              in (SharedPermit cell,
                  s\<lparr>ls_cells := ls_cells s @ [Some permit],
                    ls_timers := ls_timers s @
                      [\<lparr>tm_node = name, tm_due = ls_now s + unat budget, tm_cell = cell, tm_fate = fate\<rparr>]\<rparr>)))"

definition admit :: "LoopEnv \<Rightarrow> string \<Rightarrow> Permit \<Rightarrow> LoopState \<Rightarrow> LoopState" where
  "admit e name permit s =
     (let s = write_log (EvNodeReady name) s;
          class = (case node_by_id (le_pipeline e) (from_name name) of
                     None \<Rightarrow> AwaitBound | Some n \<Rightarrow> effective_class n)
      in case bt_get (ls_runners s) name of
           None \<Rightarrow>
             send (done_attempt name Failed []) (s\<lparr>ls_admission := permit_drop permit (ls_admission s)\<rparr>)
         | Some fate \<Rightarrow>
             (let s = s\<lparr>ls_runners := bt_remove name (ls_runners s), ls_live := bs_insert name (ls_live s)\<rparr>;
                  (hold, s) = arm_unkillable_deadline e name class fate permit s;
                  (child, flags) = source_child (ls_cancel s) (ls_flags s)
              in s\<lparr>ls_flags := flags, ls_running := ls_running s @
                   [\<lparr>dp_node = name, dp_hold = hold, dp_signal = source_signal child, dp_result = None\<rparr>]\<rparr>))"

definition offer_or_pend :: "LoopEnv \<Rightarrow> string \<Rightarrow> LoopState \<Rightarrow> LoopState" where
  "offer_or_pend e name s =
     (let cost = declared_cost e name
      in case try_admit name cost (ls_admission s) of
           (Some permit, adm) \<Rightarrow> count_in (admit e name permit (s\<lparr>ls_admission := adm\<rparr>))
         | (None, adm) \<Rightarrow>
             if \<not> can_ever_fit adm cost then count_in (reject_over_demand name s)
             else s\<lparr>ls_pending := ls_pending s @ [name]\<rparr>)"

text \<open>The walk over the pending nodes: an admission restarts it; a head that does not fit ends it.\<close>

lemma admit_pending [simp]: "ls_pending (admit e name permit s) = ls_pending s"
  by (simp add: admit_def write_log_def send_def arm_unkillable_deadline_def Let_def split: option.split prod.split)

function drain_pending_at :: "LoopEnv \<Rightarrow> nat \<Rightarrow> LoopState \<Rightarrow> LoopState" where
  "drain_pending_at e index s =
     (if index < length (ls_pending s)
      then (let name = ls_pending s ! index; cost = declared_cost e name
            in case try_admit name cost (ls_admission s) of
                 (Some permit, adm) \<Rightarrow>
                   drain_pending_at e 0 (count_in (admit e name permit
                     (s\<lparr>ls_admission := adm, ls_pending := remove_nth index (ls_pending s)\<rparr>)))
               | (None, _) \<Rightarrow> if index = 0 then s else drain_pending_at e (index + 1) s)
      else s)"
  by pat_completeness auto
termination
  by (relation "measures [\<lambda>(e, i, s). length (ls_pending s), \<lambda>(e, i, s). length (ls_pending s) - i]")
    (auto simp: count_in_def remove_nth_def Let_def)

declare drain_pending_at.simps [simp del]

definition drain_pending :: "LoopEnv \<Rightarrow> LoopState \<Rightarrow> LoopState" where
  "drain_pending e = drain_pending_at e 0"

section \<open>Decisions\<close>

definition apply_decision :: "LoopEnv \<Rightarrow> Decision \<Rightarrow> LoopState \<Rightarrow> LoopState" where
  "apply_decision e decision s =
     (case decision of
        Decision.Ready i \<Rightarrow>
          (case node_name (le_pipeline e) i of
             None \<Rightarrow> s
           | Some name \<Rightarrow>
               if bt_get (ls_terminal s) name \<noteq> None then s
               else if ls_draining s \<or> (ls_stopping s \<and> is_default_rule_node (le_pipeline e) name)
               then cancel_node name s
               else offer_or_pend e name s)
      | PropagatedTerminal i st _ \<Rightarrow>
          (case node_name (le_pipeline e) i of
             None \<Rightarrow> s
           | Some name \<Rightarrow>
               (let s = record_terminal name st (write_log (EvNodeTerminal name (wire_terminal st)) s)
                in if is_zombie_candidate st then push_zombie name 1 s else s)))"

definition apply_decisions :: "LoopEnv \<Rightarrow> Decision list \<Rightarrow> LoopState \<Rightarrow> LoopState" where
  "apply_decisions e decisions s = fold (apply_decision e) decisions s"

definition notify_and_apply :: "LoopEnv \<Rightarrow> string \<Rightarrow> TerminalState \<Rightarrow> LoopState \<Rightarrow> LoopState" where
  "notify_and_apply e node st s =
     (let (tracker, decisions) = notify_terminal (from_name node) st (ls_tracker s)
      in apply_decisions e decisions (s\<lparr>ls_tracker := tracker\<rparr>))"

section \<open>Cancellation\<close>

definition cancel_all :: "string list \<Rightarrow> LoopState \<Rightarrow> LoopState" where
  "cancel_all names s = fold cancel_node names s"

definition cancel_pending_default_nodes :: "LoopEnv \<Rightarrow> LoopState \<Rightarrow> LoopState" where
  "cancel_pending_default_nodes e s =
     (let (to_cancel, kept) = List.partition (is_default_rule_node (le_pipeline e)) (ls_pending s)
      in cancel_all to_cancel (s\<lparr>ls_pending := kept\<rparr>))"

definition enter_cancellation ::
  "LoopEnv \<Rightarrow> CancellationOrigin option \<Rightarrow> bool \<Rightarrow> LoopState \<Rightarrow> LoopState" where
  "enter_cancellation e origin full_drain s =
     (let s = (if ls_origin s = None then s\<lparr>ls_origin := origin\<rparr> else s);
          s = s\<lparr>ls_flags := source_cancel (ls_cancel s) (ls_flags s)\<rparr>;
          s = (if full_drain
               then s\<lparr>ls_draining := True, ls_drain_deadline := Some (ls_now s + le_grace e)\<rparr> else s);
          s = (if \<not> ls_stopping s then cancel_pending_default_nodes e (s\<lparr>ls_stopping := True\<rparr>) else s)
      in if full_drain then cancel_all (ls_pending s) (s\<lparr>ls_pending := []\<rparr>) else s)"

section \<open>Recording an attempt\<close>

definition is_node_terminal :: "AttemptEvent \<Rightarrow> bool" where
  "is_node_terminal ev \<longleftrightarrow> (case ev of NodeTerminal _ _ \<Rightarrow> True | _ \<Rightarrow> False)"

definition is_attempt_succeeded :: "AttemptEvent \<Rightarrow> bool" where
  "is_attempt_succeeded ev \<longleftrightarrow> (case ev of AttemptSucceeded _ _ \<Rightarrow> True | _ \<Rightarrow> False)"

definition closing_outcome_record :: "string \<Rightarrow> AttemptEvent \<Rightarrow> AttemptOutcomeRecord option" where
  "closing_outcome_record node ev =
     (case ev of
        AttemptSucceeded _ attempt \<Rightarrow> Some (attempt_outcome_record_new node attempt ''succeeded'')
      | AttemptFailed _ attempt \<Rightarrow> Some (attempt_outcome_record_new node attempt ''failed'')
      | AttemptTimedOut _ attempt \<Rightarrow> Some (attempt_outcome_record_new node attempt ''timed-out'')
      | AttemptPanicked _ attempt message \<Rightarrow>
          Some ((attempt_outcome_record_new node attempt ''failed'')\<lparr>ar_message := Some message\<rparr>)
      | _ \<Rightarrow> None)"

definition attempt_of_event :: "AttemptEvent \<Rightarrow> u32 option" where
  "attempt_of_event ev =
     (case ev of
        AttemptStarted _ attempt \<Rightarrow> Some attempt
      | AttemptSucceeded _ attempt \<Rightarrow> Some attempt
      | AttemptFailed _ attempt \<Rightarrow> Some attempt
      | AttemptTimedOut _ attempt \<Rightarrow> Some attempt
      | AttemptPanicked _ attempt _ \<Rightarrow> Some attempt
      | BackoffStarted _ attempt _ \<Rightarrow> Some attempt
      | _ \<Rightarrow> None)"

definition attempt_number_of :: "AttemptEvent list \<Rightarrow> u32" where
  "attempt_number_of events =
     (case List.map_filter attempt_of_event (rev events) of attempt # _ \<Rightarrow> attempt | [] \<Rightarrow> 1)"

definition consumed_inputs_for :: "Pipeline \<Rightarrow> string \<Rightarrow> (string, ConsumedInput) btree \<Rightarrow> ConsumedInput list" where
  "consumed_inputs_for p node produced_refs =
     (case node_by_id p (from_name node) of
        None \<Rightarrow> []
      | Some pnode \<Rightarrow>
          List.map_filter (\<lambda>edge. Option.bind (node_name p (de_upstream edge)) (bt_get produced_refs)) (pn_edges pnode))"

definition output_record :: "LoopEnv \<Rightarrow> AttemptDone \<Rightarrow> u32 \<Rightarrow> string \<Rightarrow> DurableReferenceMeta \<Rightarrow> OutputProducedRecord" where
  "output_record e d attempt uri meta =
     \<lparr>op_node = ad_node d, op_attempt = attempt, op_uri = uri, op_content_hash = dm_content_hash meta,
      op_size_bytes = dm_size_bytes meta, op_kind = dm_scheme meta,
      op_produced_at_offset_ns = (case dm_produced_at_offset_ns meta of Some ns \<Rightarrow> ns | None \<Rightarrow> 0),
      op_originating_run = le_run_id e\<rparr>"

text \<open>One buffered event of a finished attempt; the second component is the last closed attempt.\<close>

definition record_event ::
  "LoopEnv \<Rightarrow> AttemptDone \<Rightarrow> bool \<Rightarrow> ConsumedInput list \<Rightarrow> AttemptEvent \<Rightarrow> LoopState \<times> u32 \<Rightarrow> LoopState \<times> u32" where
  "record_event e d reclassified consumed ev = (\<lambda>(s, last_attempt).
     if reclassified \<and> is_node_terminal ev then (s, last_attempt)
     else
       (let s = write_attempt_event ev s
        in if reclassified then (s, last_attempt)
           else case closing_outcome_record (ad_node d) ev of
                  None \<Rightarrow> (s, last_attempt)
                | Some record \<Rightarrow>
                    (let last_attempt = ar_attempt record;
                         record = (if is_attempt_succeeded ev
                           then record_consumed_inputs consumed
                                  (record_durable_reference_meta (ad_durable_reference_meta d)
                                    (record_durable_reference (ad_durable_reference d) record))
                           else record);
                         s = write_log (EvAttemptOutcome record) s
                     in case (is_attempt_succeeded ev, ad_durable_reference d) of
                          (True, Some uri) \<Rightarrow>
                            (let meta = (case ad_durable_reference_meta d of Some m \<Rightarrow> m | None \<Rightarrow> meta_new);
                                 s = s\<lparr>ls_produced := bt_insert (ad_node d)
                                        \<lparr>ci_uri = uri, ci_content_hash = dm_content_hash meta\<rparr> (ls_produced s)\<rparr>
                             in (write_log (EvOutputProduced (output_record e d last_attempt uri meta)) s, last_attempt))
                        | _ \<Rightarrow> (s, last_attempt))))"

definition record_attempt_outcome :: "LoopEnv \<Rightarrow> AttemptDone \<Rightarrow> LoopState \<Rightarrow> TerminalState \<times> LoopState" where
  "record_attempt_outcome e d s =
     (let reclassified = (ls_draining s \<and> bt_get (ls_terminal s) (ad_node d) = None);
          recorded_state = (if reclassified then Cancelled else ad_state d);
          consumed = consumed_inputs_for (le_pipeline e) (ad_node d) (ls_produced s);
          (s, last_attempt) = fold (record_event e d reclassified consumed) (ad_events d) (s, 1);
          (s, last_attempt) =
            (if reclassified
             then (let attempt = attempt_number_of (ad_events d)
                   in (write_log (EvAttemptOutcome (attempt_outcome_record_new (ad_node d) attempt
                        (wire_state_as_str (wire_terminal Cancelled)))) s, attempt))
             else (s, last_attempt));
          s = record_terminal (ad_node d) recorded_state s;
          s = (if reclassified then write_log (EvNodeTerminal (ad_node d) (wire_terminal recorded_state)) s else s);
          s = (if is_zombie_candidate recorded_state then push_zombie (ad_node d) last_attempt s else s)
      in (recorded_state, s))"

section \<open>Receiving a message\<close>

text \<open>The two records of an attempt that its deadline closed while it still runs.\<close>

definition timeout_records :: "string \<Rightarrow> AttemptEvent list" where
  "timeout_records node =
     [outcome_record node 1 TimedOutOutcome None, NodeTerminal node (terminal_state TimedOutOutcome)]"

lemma timeout_records_marked:
  "rc_attempt ctx = 1 \<Longrightarrow>
     aw_sink (snd (mark_blocking_timed_out node ctx w)) = aw_sink w @ timeout_records node"
  by (simp add: mark_blocking_timed_out_def timeout_records_def emit_closing_events_def emit_def
      emit_attempt_outcome_record_def emit_node_terminal_def Let_def)

definition mark_unkillable_timeout ::
  "string \<Rightarrow> nat \<Rightarrow> nat option \<Rightarrow> LoopState \<Rightarrow> AttemptDone option \<times> LoopState" where
  "mark_unkillable_timeout node cell fate s =
     (let (claimed, s) =
            (case fate of
               None \<Rightarrow> (True, s)
             | Some f \<Rightarrow> (let (claimed, st) = claim_timeout (ls_fates s ! f) in (claimed, s\<lparr>ls_fates := (ls_fates s)[f := st]\<rparr>)))
      in if \<not> claimed then (None, s)
         else
           (let s = (case ls_cells s ! cell of
                       None \<Rightarrow> s
                     | Some permit \<Rightarrow> s\<lparr>ls_admission := mark_zombie permit (ls_admission s)\<rparr>)
            in (Some (done_attempt node (terminal_state TimedOutOutcome) (timeout_records node)), s)))"

text \<open>A node left the flight: record it, perhaps stop, tell the tracker, and admit who waits.\<close>

definition settle :: "LoopEnv \<Rightarrow> AttemptDone \<Rightarrow> LoopState \<Rightarrow> LoopState" where
  "settle e d s =
     (let s = s\<lparr>ls_in_flight := ls_in_flight s - 1, ls_live := removeAll (ad_node d) (ls_live s)\<rparr>;
          (recorded_state, s) = record_attempt_outcome e d s;
          s = (if le_failure_mode e = StopOnFirstFailure \<and> \<not> ls_stopping s \<and> is_failure_like recorded_state
               then enter_cancellation e (Some FailureUnderStop) False s else s);
          s = notify_and_apply e (ad_node d) recorded_state s
      in if \<not> ls_draining s then drain_pending e s else s)"

definition handle_done :: "LoopEnv \<Rightarrow> AttemptDone \<Rightarrow> LoopState \<Rightarrow> LoopState" where
  "handle_done e d s =
     (if ad_node d = CANCEL_WAKE_SENTINEL
      then (if ls_draining s then s else enter_cancellation e (ls_trigger s) True s)
      else case ad_kind d of
             TimeoutFired cell fate \<Rightarrow>
               if bt_get (ls_terminal s) (ad_node d) \<noteq> None then s
               else (case mark_unkillable_timeout (ad_node d) cell fate s of
                       (None, s) \<Rightarrow> s
                     | (Some marked, s) \<Rightarrow>
                         settle e marked (s\<lparr>ls_timed_out := bs_insert (ad_node d) (ls_timed_out s)\<rparr>))
           | AttemptKind \<Rightarrow>
               if ad_node d \<in> set (ls_timed_out s)
               then (let s = s\<lparr>ls_timed_out := removeAll (ad_node d) (ls_timed_out s)\<rparr>
                     in if \<not> ls_draining s then drain_pending e s else s)
               else settle e d s)"

section \<open>The loop\<close>

definition reject_all_pinned :: "LoopState \<Rightarrow> LoopState" where
  "reject_all_pinned s =
     (fold reject_zombie_pinned (ls_pending s) (s\<lparr>ls_pending := []\<rparr>))\<lparr>ls_zombie_deadline := None\<rparr>"

text \<open>The head of the loop: leave, or the deadline up to which the next message is awaited.\<close>

definition loop_head :: "LoopEnv \<Rightarrow> LoopState \<Rightarrow> LoopState" where
  "loop_head e s =
     (let await = (\<lambda>s. s\<lparr>ls_phase := Awaiting (if ls_draining s then ls_drain_deadline s else ls_zombie_deadline s)\<rparr>)
      in if ls_in_flight s > 0 then await (s\<lparr>ls_zombie_deadline := None\<rparr>)
         else if ls_pending s = [] \<or> ls_draining s then s\<lparr>ls_phase := Left\<rparr>
         else
           (let s = (case ls_zombie_deadline s of
                       None \<Rightarrow> s\<lparr>ls_zombie_deadline := Some (ls_now s + le_grace e)\<rparr>
                     | Some deadline \<Rightarrow> if ls_now s \<ge> deadline then reject_all_pinned s else s)
            in if ls_in_flight s = 0 \<and> ls_pending s = [] then s\<lparr>ls_phase := Left\<rparr> else await s))"

text \<open>
  \<open>recv_next\<close> and what follows it: a deadline that has passed is noticed before the queue is read,
  one that passes while waiting only if the queue stays empty.
\<close>

definition nothing_received :: "instant option \<Rightarrow> LoopState \<Rightarrow> LoopState" where
  "nothing_received bounded s =
     s\<lparr>ls_phase := (if \<not> ls_draining s \<and> bounded \<noteq> None then AtTop else Left)\<rparr>"

definition loop_turn :: "LoopEnv \<Rightarrow> LoopState \<Rightarrow> LoopState" where
  "loop_turn e s =
     (case ls_phase s of
        AtTop \<Rightarrow>
          (let s = loop_head e s
           in case ls_phase s of
                Awaiting (Some deadline) \<Rightarrow>
                  if ls_now s \<ge> deadline then nothing_received (Some deadline) s else s
              | _ \<Rightarrow> s)
      | Awaiting bounded \<Rightarrow>
          (case ls_queue s of
             d # rest \<Rightarrow> (handle_done e d (s\<lparr>ls_queue := rest\<rparr>))\<lparr>ls_phase := AtTop\<rparr>
           | [] \<Rightarrow>
               (case bounded of
                  Some deadline \<Rightarrow> if ls_now s \<ge> deadline then nothing_received bounded s else s
                | None \<Rightarrow> s))
      | Left \<Rightarrow> s)"

section \<open>What happens beside the loop\<close>

definition hold_release :: "PermitHold \<Rightarrow> LoopState \<Rightarrow> LoopState" where
  "hold_release hold s =
     (case hold of
        OwnedPermit permit \<Rightarrow> s\<lparr>ls_admission := permit_drop permit (ls_admission s)\<rparr>
      | SharedPermit cell \<Rightarrow>
          (case ls_cells s ! cell of
             None \<Rightarrow> s
           | Some permit \<Rightarrow>
               s\<lparr>ls_cells := (ls_cells s)[cell := None], ls_admission := permit_drop permit (ls_admission s)\<rparr>))"

text \<open>
  The body of a dispatched attempt ends: references are read only after a success, the permit goes
  first, the report follows as an action of its own.
\<close>

definition attempt_returns ::
  "nat \<Rightarrow> TerminalState \<Rightarrow> AttemptEvent list \<Rightarrow> string option \<Rightarrow> DurableReferenceMeta option
     \<Rightarrow> LoopState \<Rightarrow> LoopState" where
  "attempt_returns k st events reference meta s =
     (if k < length (ls_running s) \<and> dp_result (ls_running s ! k) = None
      then (let dp = ls_running s ! k;
                result = \<lparr>re_state = st, re_events = events,
                     re_durable_reference = (if st = Succeeded then reference else None),
                     re_durable_reference_meta = (if st = Succeeded then meta else None)\<rparr>
            in (hold_release (dp_hold dp) s)\<lparr>ls_running := (ls_running s)[k := dp\<lparr>dp_result := Some result\<rparr>]\<rparr>)
      else s)"

definition report_message :: "string \<Rightarrow> AttemptResult \<Rightarrow> AttemptDone" where
  "report_message node result =
     \<lparr>ad_node = node, ad_state = re_state result, ad_events = re_events result,
      ad_durable_reference = re_durable_reference result,
      ad_durable_reference_meta = re_durable_reference_meta result, ad_kind = AttemptKind\<rparr>"

definition attempt_reports :: "nat \<Rightarrow> LoopState \<Rightarrow> LoopState" where
  "attempt_reports k s =
     (if k < length (ls_running s)
      then (case dp_result (ls_running s ! k) of
              None \<Rightarrow> s
            | Some result \<Rightarrow>
                send (report_message (dp_node (ls_running s ! k)) result) (s\<lparr>ls_running := remove_nth k (ls_running s)\<rparr>))
      else s)"

definition timer_message :: "DeadlineTimer \<Rightarrow> AttemptDone" where
  "timer_message t =
     \<lparr>ad_node = tm_node t, ad_state = TimedOut, ad_events = [], ad_durable_reference = None,
      ad_durable_reference_meta = None, ad_kind = TimeoutFired (tm_cell t) (tm_fate t)\<rparr>"

definition timer_fires :: "nat \<Rightarrow> LoopState \<Rightarrow> LoopState" where
  "timer_fires k s =
     (if k < length (ls_timers s) \<and> tm_due (ls_timers s ! k) \<le> ls_now s
      then send (timer_message (ls_timers s ! k)) (s\<lparr>ls_timers := remove_nth k (ls_timers s)\<rparr>)
      else s)"

text \<open>A request while the loop runs: the first origin wins, every request wakes the loop.\<close>

definition trigger_request :: "CancellationOrigin \<Rightarrow> LoopState \<Rightarrow> LoopState" where
  "trigger_request origin s =
     (let s = (if ls_trigger s = None then s\<lparr>ls_trigger := Some origin\<rparr> else s)
      in send (done_attempt CANCEL_WAKE_SENTINEL Cancelled []) s)"

definition interrupt :: "LoopState \<Rightarrow> LoopState" where
  "interrupt = trigger_request ExternalInterrupt"

datatype Action =
    LoopTurn
  | Returns nat TerminalState "AttemptEvent list" "string option" "DurableReferenceMeta option"
  | Reports nat | TimerFires nat | Interrupt | Tick nat | FateBegins nat | FateCompletes nat

definition set_fate :: "nat \<Rightarrow> (FateState \<Rightarrow> FateState) \<Rightarrow> LoopState \<Rightarrow> LoopState" where
  "set_fate k f s = (if k < length (ls_fates s) then s\<lparr>ls_fates := (ls_fates s)[k := f (ls_fates s ! k)]\<rparr> else s)"

fun act :: "LoopEnv \<Rightarrow> Action \<Rightarrow> LoopState \<Rightarrow> LoopState" where
  "act e LoopTurn s = loop_turn e s"
| "act e (Returns k st events reference meta) s = attempt_returns k st events reference meta s"
| "act e (Reports k) s = attempt_reports k s"
| "act e (TimerFires k) s = timer_fires k s"
| "act e Interrupt s = interrupt s"
| "act e (Tick d) s = s\<lparr>ls_now := ls_now s + d\<rparr>"
| "act e (FateBegins k) s = set_fate k attempt_begins s"
| "act e (FateCompletes k) s = set_fate k (snd \<circ> claim_completion) s"

section \<open>Start and end of the loop\<close>

definition initial_loop_state ::
  "ReadinessTracker \<Rightarrow> Inner \<Rightarrow> (string, nat option) btree \<Rightarrow> FateState list \<Rightarrow> CancellationOrigin option
     \<Rightarrow> instant \<Rightarrow> Event list \<Rightarrow> LoopState" where
  "initial_loop_state tracker admission runners fates trigger now events =
     (let (root, flags) = source_new []
      in \<lparr>ls_log = events, ls_tracker = tracker, ls_admission = admission, ls_terminal = [], ls_zombies = [],
          ls_cancel = root, ls_flags = flags, ls_origin = None, ls_in_flight = 0, ls_live = [],
          ls_pending = [], ls_produced = [], ls_stopping = False, ls_draining = False,
          ls_drain_deadline = None, ls_timed_out = [], ls_zombie_deadline = None, ls_runners = runners,
          ls_queue = [], ls_running = [], ls_timers = [], ls_cells = [], ls_fates = fates,
          ls_trigger = trigger, ls_now = now, ls_phase = AtTop\<rparr>)"

text \<open>A node carried over from a prior run is recorded and announced before anything is admitted.\<close>

definition pre_satisfy :: "LoopEnv \<Rightarrow> string \<times> string option \<Rightarrow> LoopState \<Rightarrow> LoopState" where
  "pre_satisfy e = (\<lambda>(node, durable_reference) s.
     (let s = write_log (EvNodeReady node) s;
          record = record_durable_reference durable_reference
            (attempt_outcome_record_new node 1 (wire_state_as_str (wire_terminal SatisfiedFromPrior)));
          s = write_log (EvAttemptOutcome record) s;
          s = record_terminal node SatisfiedFromPrior s;
          s = write_log (EvNodeTerminal node (wire_terminal SatisfiedFromPrior)) s
      in notify_and_apply e node SatisfiedFromPrior s))"

definition offer_initial :: "LoopEnv \<Rightarrow> node_id \<Rightarrow> LoopState \<Rightarrow> LoopState" where
  "offer_initial e i s =
     (case node_name (le_pipeline e) i of
        None \<Rightarrow> s
      | Some name \<Rightarrow> if bt_get (ls_terminal s) name \<noteq> None then s else offer_or_pend e name s)"

definition loop_start :: "LoopEnv \<Rightarrow> (string, string option) btree \<Rightarrow> LoopState \<Rightarrow> LoopState" where
  "loop_start e pre_satisfied s =
     (let s = fold (pre_satisfy e) pre_satisfied s
      in fold (offer_initial e) (rt_initial_ready (ls_tracker s)) s)"

definition abandon_node :: "string \<Rightarrow> LoopState \<Rightarrow> LoopState" where
  "abandon_node node s =
     (if bt_get (ls_terminal s) node = None
      then push_zombie node 1 (write_log (EvNodeTerminal node (wire_terminal Abandoned))
             (record_terminal node Abandoned s))
      else s)"

definition abandon_leftover :: "LoopState \<Rightarrow> LoopState" where
  "abandon_leftover s = fold abandon_node (ls_live s) s"

definition loop_end :: "LoopState \<Rightarrow> LoopState" where
  "loop_end s =
     (let s = (if ls_draining s then abandon_leftover s else s)
      in fold (\<lambda>(node, attempt). write_log (EvZombieAtExit node attempt)) (ls_zombies s) s)"

section \<open>The teardown phase\<close>

text \<open>Teardown runners are those of teardown nodes; the main loop gets the others.\<close>

definition is_teardown_name :: "Pipeline \<Rightarrow> string \<Rightarrow> bool" where
  "is_teardown_name p name =
     (case node_by_id p (from_name name) of None \<Rightarrow> False | Some n \<Rightarrow> is_teardown n)"

definition partition_teardown_runners ::
  "Pipeline \<Rightarrow> (string, 'r) btree \<Rightarrow> (string, 'r) btree \<times> (string, 'r) btree" where
  "partition_teardown_runners p runners =
     (let (teardown, main) = List.partition (\<lambda>(name, _). is_teardown_name p name) runners in (main, teardown))"

text \<open>What is recorded of the run so far: the log and the terminal states.\<close>

record TeardownState =
  td_log :: "Event list"
  td_terminal :: "(string, TerminalState) btree"

definition td_write :: "Event \<Rightarrow> TeardownState \<Rightarrow> TeardownState" where
  "td_write ev t = t\<lparr>td_log := td_log t @ [ev]\<rparr>"

definition td_record :: "string \<Rightarrow> TerminalState \<Rightarrow> TeardownState \<Rightarrow> TeardownState" where
  "td_record node st t = t\<lparr>td_terminal := terminal_or_insert node st (td_terminal t)\<rparr>"

definition teardown_event :: "AttemptDone \<Rightarrow> bool \<Rightarrow> AttemptEvent \<Rightarrow> TeardownState \<Rightarrow> TeardownState" where
  "teardown_event d deadline_imposed ev t =
     (if deadline_imposed \<and> is_node_terminal ev then t
      else
        (let t = td_write (attempt_event_wire ev) t
         in if deadline_imposed then t
            else case closing_outcome_record (ad_node d) ev of
                   None \<Rightarrow> t | Some record \<Rightarrow> td_write (EvAttemptOutcome record) t))"

definition record_teardown_outcome :: "AttemptDone \<Rightarrow> bool \<Rightarrow> TeardownState \<Rightarrow> TeardownState" where
  "record_teardown_outcome d deadline_imposed t =
     (let t = fold (teardown_event d deadline_imposed) (ad_events d) t
      in if deadline_imposed
         then (let t = td_write (EvAttemptOutcome (attempt_outcome_record_new (ad_node d)
                     (attempt_number_of (ad_events d)) (wire_state_as_str (wire_terminal Abandoned)))) t;
                   t = td_record (ad_node d) Abandoned t
               in td_write (EvNodeTerminal (ad_node d) (wire_terminal Abandoned)) t)
         else td_record (ad_node d) (ad_state d) t)"

text \<open>
  A teardown runner sees the states of the nodes it covers; its answer is its terminal state, or
  none when the deadline passed first, with the events it had buffered.
\<close>

type_synonym teardown_runner = "(string \<times> TerminalState) list \<Rightarrow> TerminalState option \<times> AttemptEvent list"

definition covered_view :: "(string, TerminalState) btree \<Rightarrow> string list \<Rightarrow> (string \<times> TerminalState) list" where
  "covered_view covered_states names =
     List.map_filter (\<lambda>n. map_option (Pair n) (bt_get covered_states n)) names"

definition run_teardown ::
  "(string, teardown_runner) btree \<Rightarrow> (string, TerminalState) btree \<Rightarrow> string \<times> string list
     \<Rightarrow> TeardownState \<Rightarrow> TeardownState" where
  "run_teardown runners covered_states = (\<lambda>(name, covered) t.
     (case bt_get runners name of
        None \<Rightarrow>
          td_write (EvNodeTerminal name (wire_terminal Failed))
            (td_record name Failed (td_write (EvNodeReady name) t))
      | Some runner \<Rightarrow>
          (let (answer, events) = runner (covered_view covered_states covered);
               t = td_write (EvNodeReady name) t;
               st = (case answer of Some st \<Rightarrow> st | None \<Rightarrow> Abandoned);
               deadline_hit = (st = Abandoned \<and> \<not> list_ex is_node_terminal events)
           in record_teardown_outcome (done_attempt name st events) deadline_hit t)))"

definition run_teardown_phase ::
  "Pipeline \<Rightarrow> (string, teardown_runner) btree \<Rightarrow> (string, TerminalState) btree
     \<Rightarrow> TeardownState \<Rightarrow> TeardownState" where
  "run_teardown_phase p runners covered_states t =
     fold (run_teardown runners covered_states) (teardown_covered_nodes p) t"

end
