(* ===== verification/Driver_Places.thy ===== *)
theory Driver_Places
  imports Driver
begin

text \<open>
  The bookkeeping of the run loop: every node that was announced and has no terminal state is in one
  place, pending, dispatched or in the channel; the in-flight count is the number of the latter two
  less the timed-out attempts that still run.  The predicate \<open>flight_ok\<close> holds between any two small
  steps of the loop; here are the steps that place a node and those that apply a decision.
\<close>

section \<open>What a notification decides\<close>

lemma notify_dependent_extends:
  "notify_dependent i st d (nodes, q, ds) = (nodes', q', ds') \<Longrightarrow> set ds \<subseteq> set ds'"
  by (auto simp: notify_dependent_def Let_def split: option.splits if_splits RuleOutcome.splits)

lemma notify_dependents_extend:
  "fold (notify_dependent i st) deps (nodes, q, ds) = (nodes', q', ds') \<Longrightarrow> set ds \<subseteq> set ds'"
proof (induction deps arbitrary: nodes q ds)
  case (Cons d deps)
  obtain n1 q1 d1 where "notify_dependent i st d (nodes, q, ds) = (n1, q1, d1)"
    by (cases "notify_dependent i st d (nodes, q, ds)")
  with Cons notify_dependent_extends show ?case by fastforce
qed simp

lemma notify_loop_extends: "notify_loop nodes pending queue ds = (nodes', pending', ds') \<Longrightarrow> set ds \<subseteq> set ds'"
proof (induction nodes pending queue ds rule: notify_loop.induct)
  case (1 nodes pending queue ds)
  show ?case
  proof (cases queue)
    case Nil
    with 1(5) show ?thesis by (simp add: notify_loop_Nil)
  next
    case (Cons w queue')
    obtain i st where w: "w = (i, st)" by (cases w)
    show ?thesis
    proof (cases "name_of nodes i")
      case None
      from 1(5) have "notify_loop nodes pending queue' ds = (nodes', pending', ds')"
        unfolding Cons w by (simp only: notify_loop_unknown [OF None])
      with 1(1) [OF Cons w [symmetric] None] show ?thesis by blast
    next
      case (Some k)
      show ?thesis
      proof (cases "bt_get nodes k")
        case None
        from 1(5) have "notify_loop nodes pending queue' ds = (nodes', pending', ds')"
          unfolding Cons w by (subst (asm) notify_loop.simps) (simp add: Some None)
        with 1(2) [OF Cons w [symmetric] Some None] show ?thesis by blast
      next
        case n: (Some n)
        show ?thesis
        proof (cases "ns_decided n = None")
          case False
          from 1(5) have "notify_loop nodes pending queue' ds = (nodes', pending', ds')"
            unfolding Cons w by (simp only: notify_loop_again [OF Some n False])
          with 1(3) [OF Cons w [symmetric] Some n False] show ?thesis by blast
        next
          case True
          obtain n1 q1 d1 where r: "fold (notify_dependent i st) (ns_dependents n)
              (bt_modify k (ns_decided_update (\<lambda>_. Some st)) nodes, queue', ds) = (n1, q1, d1)"
            by (cases "fold (notify_dependent i st) (ns_dependents n)
              (bt_modify k (ns_decided_update (\<lambda>_. Some st)) nodes, queue', ds)")
          have "notify_loop n1 (pending - 1) q1 d1 = (nodes', pending', ds')"
            using 1(5) unfolding Cons w by (simp only: notify_loop_decide [OF Some n True r])
          with 1(4) [OF Cons w [symmetric] Some n _ r [symmetric] refl] True notify_dependents_extend [OF r]
          show ?thesis by auto
        qed
      qed
    qed
  qed
qed

lemma notify_loop_source:
  assumes "loop_ok init nodes pending queue (ds0 @ ds)" "notify_loop nodes pending queue ds = (nodes', pending', ds')"
    and "decided_as nodes' k = Some x"
  shows "decided_as nodes k = Some x \<or> (from_name k, x) \<in> set queue
    \<or> (\<exists>orig. PropagatedTerminal (from_name k) x orig \<in> set ds')"
  using assms
proof (induction nodes pending queue ds rule: notify_loop.induct)
  case (1 nodes pending queue ds)
  note ok = \<open>loop_ok init nodes pending queue (ds0 @ ds)\<close> and run = \<open>notify_loop nodes pending queue ds = (nodes', pending', ds')\<close>
  note dec = \<open>decided_as nodes' k = Some x\<close>
  show ?case
  proof (cases queue)
    case Nil
    with run dec show ?thesis by (simp add: notify_loop_Nil)
  next
    case (Cons w queue')
    obtain i st where w: "w = (i, st)" by (cases w)
    note shape = loop_okD(1) [OF ok]
    show ?thesis
    proof (cases "name_of nodes i")
      case None
      have skip: "from_name k' \<noteq> i" if "k' \<in> undecided nodes" for k'
        using name_of_None [OF shape None, of k'] that undecided_in_keys [of nodes] by blast
      have a: "loop_ok init nodes pending queue' (ds0 @ ds)"
        by (rule loop_ok_skip [OF ok [unfolded Cons w] skip])
      have b: "notify_loop nodes pending queue' ds = (nodes', pending', ds')"
        using run unfolding Cons w by (simp only: notify_loop_unknown [OF None])
      from 1(1) [OF Cons w [symmetric] None a b dec] show ?thesis by (auto simp: Cons)
    next
      case (Some k0)
      note k0 = name_of_Some [OF shape Some]
      then obtain n where n: "bt_get nodes k0 = Some n" by (auto simp: keys_of_get)
      show ?thesis
      proof (cases "ns_decided n = None")
        case False
        have skip: "from_name k' \<noteq> i" if "k' \<in> undecided nodes" for k'
        proof
          assume "from_name k' = i"
          then have "k' = k0" using k0 that shape_key_inj [OF shape, of k' k0] undecided_in_keys [of nodes] by auto
          with that n False show False by (simp add: undecided_def)
        qed
        have a: "loop_ok init nodes pending queue' (ds0 @ ds)"
          by (rule loop_ok_skip [OF ok [unfolded Cons w] skip])
        have b: "notify_loop nodes pending queue' ds = (nodes', pending', ds')"
          using run unfolding Cons w by (simp only: notify_loop_again [OF Some n False])
        from 1(3) [OF Cons w [symmetric] Some n False a b dec] show ?thesis by (auto simp: Cons)
      next
        case True
        obtain n1 q1 d1 where r: "fold (notify_dependent i st) (ns_dependents n)
            (bt_modify k0 (ns_decided_update (\<lambda>_. Some st)) nodes, queue', ds) = (n1, q1, d1)"
          by (cases "fold (notify_dependent i st) (ns_dependents n)
            (bt_modify k0 (ns_decided_update (\<lambda>_. Some st)) nodes, queue', ds)")
        then have step: "decided_step k0 st nodes queue' ds = (n1, q1, d1)"
          using k0 n by (simp add: decided_step_def)
        obtain new where new: "d1 = ds @ new" and q1: "q1 = rev (List.map_filter push_of new) @ queue'"
          by (rule decided_step_new [OF shape loop_okD(2) [OF ok] n True step]) simp
        have "loop_ok init n1 (pending - 1) q1 ((ds0 @ ds) @ new)"
          using ok k0 by (intro loop_ok_decide [OF _ n True step [unfolded new]]) (simp add: Cons w)
        then have ok1: "loop_ok init n1 (pending - 1) q1 (ds0 @ d1)" by (simp add: new)
        have b: "notify_loop n1 (pending - 1) q1 d1 = (nodes', pending', ds')"
          using run unfolding Cons w by (simp only: notify_loop_decide [OF Some n True r])
        have later: "set d1 \<subseteq> set ds'"
          using notify_loop_extends [OF b] .
        have queue1: "w' \<in> set queue' \<or> (\<exists>orig. PropagatedTerminal (fst w') (snd w') orig \<in> set d1)"
          if "w' \<in> set q1" for w'
        proof -
          have mk: "\<exists>orig. d = PropagatedTerminal (fst w') (snd w') orig" if "push_of d = Some w'" for d
            using that by (cases d) auto
          from that have "w' \<in> set queue' \<or> (\<exists>d \<in> set new. push_of d = Some w')"
            by (force simp: q1 map_filter_def)
          with mk show ?thesis unfolding new by (metis Un_iff set_append)
        qed
        have "decided_as n1 k = Some x \<or> (from_name k, x) \<in> set q1
            \<or> (\<exists>orig. PropagatedTerminal (from_name k) x orig \<in> set ds')"
          by (rule 1(4) [OF Cons w [symmetric] Some n _ r [symmetric] refl ok1 b dec]) (simp add: True)
        moreover have "decided_as n1 = (decided_as nodes)(k0 := Some st)"
          using decided_step_abs [OF shape n True step] by blast
        ultimately show ?thesis
          using queue1 later k0(2) by (fastforce simp: Cons w split: if_splits)
      qed
    qed
  qed
qed

text \<open>One notification: who is decided afterwards, and by what.\<close>

definition ready_of_tracker :: "ReadinessTracker \<times> Decision list \<Rightarrow> node_id set" where
  "ready_of_tracker s = set (rt_initial_ready (fst s)) \<union> {i. Decision.Ready i \<in> set (snd s)}"

lemma notify_facts:
  assumes ok: "session_ok (t, D)" and n: "notify_terminal (from_name k0) st t = (t', ds)"
    and k0: "k0 \<in> keys_of (rt_nodes t)" "decided_as (rt_nodes t) k0 = None"
  shows "session_ok (t', D @ ds)" "keys_of (rt_nodes t') = keys_of (rt_nodes t)"
    "rt_initial_ready t' = rt_initial_ready t" "ups_of (rt_nodes t') = ups_of (rt_nodes t)"
    "decided_as (rt_nodes t') k0 = Some st"
    "\<And>k x. decided_as (rt_nodes t) k = Some x \<Longrightarrow> decided_as (rt_nodes t') k = Some x"
    "\<And>k x. k \<in> keys_of (rt_nodes t) \<Longrightarrow> decided_as (rt_nodes t') k = Some x \<Longrightarrow>
       decided_as (rt_nodes t) k = Some x \<or> k = k0 \<or> (\<exists>orig. PropagatedTerminal (from_name k) x orig \<in> set ds)"
    "\<And>k x orig. k \<in> keys_of (rt_nodes t) \<Longrightarrow> PropagatedTerminal (from_name k) x orig \<in> set ds \<Longrightarrow>
       decided_as (rt_nodes t') k = Some x"
proof -
  obtain nodes pending where r: "notify_loop (rt_nodes t) (rt_pending t) [(from_name k0, st)] [] = (nodes, pending, ds)"
    and t': "t' = t\<lparr>rt_nodes := nodes, rt_pending := pending\<rparr>"
    using n by (auto simp: notify_terminal_def split: prod.splits)
  have loop: "loop_ok (rt_initial_ready t) (rt_nodes t) (rt_pending t) [] D"
    using ok by (simp add: session_ok_def)
  then have start: "loop_ok (rt_initial_ready t) (rt_nodes t) (rt_pending t) [(from_name k0, st)] (D @ [])"
    by (auto simp: loop_ok_def)
  from notify_loop_ok [OF start r] have end_ok: "loop_ok (rt_initial_ready t) nodes pending [] (D @ ds)"
    and g: "grows (rt_nodes t) nodes" by blast+
  show "session_ok (t', D @ ds)" using end_ok by (simp add: session_ok_def t')
  show "keys_of (rt_nodes t') = keys_of (rt_nodes t)" "rt_initial_ready t' = rt_initial_ready t"
    "ups_of (rt_nodes t') = ups_of (rt_nodes t)"
    using g by (simp_all add: t' grows_def)
  show mono: "decided_as (rt_nodes t') k = Some x" if "decided_as (rt_nodes t) k = Some x" for k x
    using g that by (simp add: t' grows_def)
  show "decided_as (rt_nodes t) k = Some x \<or> k = k0 \<or> (\<exists>orig. PropagatedTerminal (from_name k) x orig \<in> set ds)"
    if "k \<in> keys_of (rt_nodes t)" "decided_as (rt_nodes t') k = Some x" for k x
    using notify_loop_source [OF start r, of k x] that k0(1) shape_key_inj [OF loop_okD(1) [OF loop], of k k0]
    by (auto simp: t')
  show "decided_as (rt_nodes t') k = Some x"
    if "k \<in> keys_of (rt_nodes t)" "PropagatedTerminal (from_name k) x orig \<in> set ds" for k x orig
    using loop_okD(8) [OF end_ok, of "from_name k" x orig k] that g by (auto simp: t' grows_def)
  have shape: "shape_ok (rt_nodes t)" by (rule loop_okD(1) [OF loop])
  from k0(1) obtain n where get: "bt_get (rt_nodes t) k0 = Some n" by (auto simp: keys_of_get)
  have und: "ns_decided n = None" using k0(2) get by (simp add: decided_as_def)
  have name: "name_of (rt_nodes t) (from_name k0) = Some k0"
    using name_of_None [OF shape _ k0(1)] name_of_Some [OF shape, of "from_name k0"] shape_key_inj [OF shape _ k0(1)]
    by (cases "name_of (rt_nodes t) (from_name k0)") auto
  obtain n1 q1 d1 where f: "fold (notify_dependent (from_name k0) st) (ns_dependents n)
      (bt_modify k0 (ns_decided_update (\<lambda>_. Some st)) (rt_nodes t), [], []) = (n1, q1, d1)"
    by (cases "fold (notify_dependent (from_name k0) st) (ns_dependents n)
      (bt_modify k0 (ns_decided_update (\<lambda>_. Some st)) (rt_nodes t), [], [])")
  then have step: "decided_step k0 st (rt_nodes t) [] [] = (n1, q1, d1)" using get by (simp add: decided_step_def)
  obtain new where new: "d1 = [] @ new"
    by (rule decided_step_new [OF shape loop_okD(2) [OF loop] get und step]) simp
  have "loop_ok (rt_initial_ready t) n1 (rt_pending t - 1) q1 ((D @ []) @ new)"
    using start by (intro loop_ok_decide [OF _ get und step [unfolded new]]) simp
  then have "loop_ok (rt_initial_ready t) n1 (rt_pending t - 1) q1 (D @ d1)" by (simp add: new)
  from notify_loop_ok [OF this r [unfolded notify_loop_decide [OF name get und f]]] have "grows n1 nodes" by blast
  moreover have "decided_as n1 k0 = Some st" using decided_step_abs(3) [OF shape get und step] by simp
  ultimately show "decided_as (rt_nodes t') k0 = Some st" by (simp add: t' grows_def)
qed


section \<open>Where the nodes are\<close>

definition attempt_message :: "AttemptDone \<Rightarrow> bool" where
  "attempt_message d \<longleftrightarrow> ad_kind d = AttemptKind \<and> ad_node d \<noteq> CANCEL_WAKE_SENTINEL"

text \<open>No element occurs twice.\<close>

definition once :: "'a multiset \<Rightarrow> bool" where
  "once M \<longleftrightarrow> (\<forall>x. count M x \<le> 1)"

lemma once_empty [simp]: "once {#}"
  by (simp add: once_def)

lemma once_add [simp]: "once (add_mset k M) \<longleftrightarrow> k \<notin># M \<and> once M"
proof
  assume a: "once (add_mset k M)"
  from a have "count M x \<le> 1" for x unfolding once_def by (metis count_add_mset le_SucI not_less_eq_eq)
  moreover from a have "Suc (count M k) \<le> 1" unfolding once_def by (metis count_add_mset)
  ultimately show "k \<notin># M \<and> once M" by (simp add: once_def not_in_iff)
next
  assume "k \<notin># M \<and> once M"
  then show "once (add_mset k M)" by (simp add: once_def not_in_iff)
qed

lemma once_mono: "once M \<Longrightarrow> N \<subseteq># M \<Longrightarrow> once N"
  unfolding once_def by (meson le_trans subseteq_mset_def)

text \<open>The nodes that are dispatched, or whose message waits in the channel.\<close>

definition flight :: "LoopState \<Rightarrow> string multiset" where
  "flight s = mset (map dp_node (ls_running s)) + mset (map ad_node (filter attempt_message (ls_queue s)))"

definition deadline_nodes :: "LoopState \<Rightarrow> string set" where
  "deadline_nodes s = tm_node ` set (ls_timers s) \<union> ad_node ` {d \<in> set (ls_queue s). ad_kind d \<noteq> AttemptKind}"

definition dispatched :: "LoopState \<Rightarrow> string set" where
  "dispatched s = dp_node ` set (ls_running s)"

definition counted_flight :: "LoopState \<Rightarrow> string multiset" where
  "counted_flight s = filter_mset (\<lambda>k. k \<notin> set (ls_timed_out s)) (flight s)"

abbreviation keys :: "LoopState \<Rightarrow> string set" where
  "keys s \<equiv> keys_of (rt_nodes (ls_tracker s))"

abbreviation decided :: "LoopState \<Rightarrow> string \<Rightarrow> TerminalState option" where
  "decided s \<equiv> decided_as (rt_nodes (ls_tracker s))"

text \<open>
  The bookkeeping between two small steps: \<open>D\<close> are the tracker's decisions so far, \<open>todo\<close> those not
  applied yet, \<open>hand\<close> the nodes taken from the pending queue and not yet sent anywhere, \<open>dec\<close> the
  terminal states that are decided.
\<close>

definition tracker_ok :: "LoopEnv \<Rightarrow> Decision list \<Rightarrow> Decision list \<Rightarrow> (string \<Rightarrow> TerminalState option) \<Rightarrow> LoopState \<Rightarrow> bool" where
  "tracker_ok e D todo dec s \<longleftrightarrow> session_ok (ls_tracker s, D)
     \<and> (\<forall>k \<in> keys s. node_name (le_pipeline e) (from_name k) = Some k \<and> k \<noteq> CANCEL_WAKE_SENTINEL)
     \<and> distinct (map decision_node todo)
     \<and> (\<forall>d \<in> set todo. (case d of Decision.Ready i \<Rightarrow> i \<in> ready_of_tracker (ls_tracker s, D)
                                   | PropagatedTerminal i x orig \<Rightarrow> d \<in> set D \<and> (\<forall>k \<in> keys s. from_name k = i \<longrightarrow> dec k = Some x)))
     \<and> (\<forall>k \<in> keys s. dec k \<noteq> None \<longrightarrow> from_name k \<in> ready_of_tracker (ls_tracker s, D) \<union> decision_node ` set D)"

definition place_ok :: "Decision list \<Rightarrow> Decision list \<Rightarrow> string multiset \<Rightarrow> (string \<Rightarrow> TerminalState option) \<Rightarrow> LoopState \<Rightarrow> bool" where
  "place_ok D todo hand dec s \<longleftrightarrow>
     (\<forall>k. k \<in># mset (ls_pending s) + hand + counted_flight s \<longleftrightarrow>
          k \<in> keys s \<and> dec k = None \<and> from_name k \<in> ready_of_tracker (ls_tracker s, D) \<and> Decision.Ready (from_name k) \<notin> set todo)
     \<and> once (mset (ls_pending s) + hand + counted_flight s) \<and> once (flight s)
     \<and> ls_in_flight s = size (counted_flight s)"

definition record_ok :: "Decision list \<Rightarrow> (string \<Rightarrow> TerminalState option) \<Rightarrow> LoopState \<Rightarrow> bool" where
  "record_ok todo dec s \<longleftrightarrow> bt_ok (ls_terminal s)
     \<and> (\<forall>k \<in> keys s. bt_get (ls_terminal s) k =
          (if \<exists>x orig. PropagatedTerminal (from_name k) x orig \<in> set todo then None else dec k))"

definition zombie_ok :: "(string \<Rightarrow> TerminalState option) \<Rightarrow> LoopState \<Rightarrow> bool" where
  "zombie_ok dec s \<longleftrightarrow> (\<forall>k \<in> set (ls_timed_out s). k \<in># flight s \<and> k \<in> keys s \<and> dec k \<noteq> None)
     \<and> set (ls_live s) \<subseteq> set_mset (counted_flight s)
     \<and> dispatched s \<subseteq> set (ls_live s) \<union> set (ls_timed_out s)
     \<and> (\<forall>k \<in> deadline_nodes s. k \<in> keys s \<and> (dec k \<noteq> None \<or> k \<in># flight s))"

definition flight_ok ::
  "LoopEnv \<Rightarrow> Decision list \<Rightarrow> Decision list \<Rightarrow> string multiset \<Rightarrow> (string \<Rightarrow> TerminalState option) \<Rightarrow> LoopState \<Rightarrow> bool" where
  "flight_ok e D todo hand dec s \<longleftrightarrow> tracker_ok e D todo dec s \<and> place_ok D todo hand dec s
     \<and> record_ok todo dec s \<and> zombie_ok dec s"

text \<open>What the bookkeeping reads of the state.\<close>

definition view where
  "view s = (ls_tracker s, ls_terminal s, ls_pending s, flight s, ls_timed_out s, ls_in_flight s, ls_live s,
     deadline_nodes s, dispatched s)"

lemmas flight_defs = flight_ok_def tracker_ok_def place_ok_def record_ok_def zombie_ok_def

lemma view_flight_ok:
  assumes "view s' = view s" shows "flight_ok e D todo hand dec s' = flight_ok e D todo hand dec s"
proof -
  have eq: "ls_tracker s' = ls_tracker s" "ls_terminal s' = ls_terminal s" "ls_pending s' = ls_pending s"
    "flight s' = flight s" "ls_timed_out s' = ls_timed_out s" "ls_in_flight s' = ls_in_flight s"
    "ls_live s' = ls_live s" "deadline_nodes s' = deadline_nodes s"
    "dispatched s' = dispatched s"
    using assms by (simp_all add: view_def)
  show ?thesis unfolding flight_defs counted_flight_def eq by (rule refl)
qed

named_theorems views \<open>steps that leave the bookkeeping alone\<close>

lemma view_updates [views, simp]:
  "view (s\<lparr>ls_log := l\<rparr>) = view s" "view (s\<lparr>ls_zombies := z\<rparr>) = view s" "view (s\<lparr>ls_origin := orig\<rparr>) = view s"
  "view (s\<lparr>ls_flags := fl\<rparr>) = view s" "view (s\<lparr>ls_draining := b\<rparr>) = view s" "view (s\<lparr>ls_stopping := b\<rparr>) = view s"
  "view (s\<lparr>ls_drain_deadline := dl\<rparr>) = view s" "view (s\<lparr>ls_zombie_deadline := dl\<rparr>) = view s"
  "view (s\<lparr>ls_produced := pr\<rparr>) = view s" "view (s\<lparr>ls_runners := rn\<rparr>) = view s" "view (s\<lparr>ls_cells := ce\<rparr>) = view s"
  "view (s\<lparr>ls_fates := fa\<rparr>) = view s" "view (s\<lparr>ls_trigger := tr\<rparr>) = view s" "view (s\<lparr>ls_now := n\<rparr>) = view s"
  "view (s\<lparr>ls_phase := ph\<rparr>) = view s" "view (s\<lparr>ls_admission := adm\<rparr>) = view s"
  by (simp_all add: view_def flight_def deadline_nodes_def dispatched_def)

lemma view_small [views, simp]:
  "view (write_log ev s) = view s" "view (push_zombie k a s) = view s" "view (write_attempt_event aev s) = view s"
  by (simp_all add: write_log_def push_zombie_def write_attempt_event_def)

lemma view_hold_release [views, simp]: "view (hold_release h s) = view s"
proof -
  have "view (s\<lparr>ls_cells := ce, ls_admission := adm\<rparr>) = view s" for ce adm
    by (simp add: view_def flight_def deadline_nodes_def dispatched_def)
  then show ?thesis by (simp add: hold_release_def split: PermitHold.split option.split)
qed

text \<open>A node is put into flight, by a dispatch or by a message; or into the pending queue.\<close>

definition put_flight :: "string \<Rightarrow> LoopState \<Rightarrow> LoopState \<Rightarrow> bool" where
  "put_flight k s s' \<longleftrightarrow> ls_tracker s' = ls_tracker s \<and> ls_terminal s' = ls_terminal s \<and> ls_pending s' = ls_pending s
     \<and> ls_timed_out s' = ls_timed_out s \<and> flight s' = add_mset k (flight s) \<and> ls_in_flight s' = ls_in_flight s + 1
     \<and> deadline_nodes s' \<subseteq> insert k (deadline_nodes s)
     \<and> (ls_live s' = ls_live s \<and> dispatched s' = dispatched s
        \<or> ls_live s' = bs_insert k (ls_live s) \<and> dispatched s' = insert k (dispatched s))"

definition put_pending :: "string \<Rightarrow> LoopState \<Rightarrow> LoopState \<Rightarrow> bool" where
  "put_pending k s s' \<longleftrightarrow> view s' = view (s\<lparr>ls_pending := ls_pending s @ [k]\<rparr>)"

lemma put_flight_ok:
  assumes ok: "flight_ok e D todo (add_mset k hand) dec s" and put: "put_flight k s s'"
  shows "flight_ok e D todo hand dec s'"
proof -
  have keys: "keys s' = keys s" "ls_tracker s' = ls_tracker s" using put by (auto simp: put_flight_def)
  have place: "place_ok D todo (add_mset k hand) dec s" using ok by (simp add: flight_ok_def)
  have mem: "k \<in> keys s" "dec k = None" using place by (auto simp: place_ok_def)
  then have notz: "k \<notin> set (ls_timed_out s)" using ok by (auto simp: flight_ok_def zombie_ok_def)
  have cf: "counted_flight s' = add_mset k (counted_flight s)"
    using put notz by (simp add: counted_flight_def put_flight_def)
  have notin: "k \<notin># counted_flight s"
    using place by (simp add: place_ok_def)
  then have notf: "k \<notin># flight s" using notz by (simp add: counted_flight_def)
  have sum: "mset (ls_pending s') + hand + counted_flight s' = mset (ls_pending s) + add_mset k hand + counted_flight s"
    using put by (simp add: put_flight_def cf)
  have "place_ok D todo hand dec s'"
    using place put notf unfolding place_ok_def sum keys
    by (simp add: put_flight_def cf)
  moreover have "zombie_ok dec s'"
  proof -
    have z: "zombie_ok dec s" using ok by (simp add: flight_ok_def)
    have "\<forall>j \<in> set (ls_timed_out s'). j \<in># flight s' \<and> j \<in> keys s' \<and> dec j \<noteq> None"
      using z put unfolding zombie_ok_def keys by (simp add: put_flight_def)
    moreover have "set (ls_live s') \<subseteq> set_mset (counted_flight s')"
      using z put unfolding zombie_ok_def cf by (auto simp: put_flight_def)
    moreover have "dispatched s' \<subseteq> set (ls_live s') \<union> set (ls_timed_out s')"
      using z put unfolding zombie_ok_def by (auto simp: put_flight_def)
    moreover have "\<forall>j \<in> deadline_nodes s'. j \<in> keys s' \<and> (dec j \<noteq> None \<or> j \<in># flight s')"
      using z put mem(1) unfolding zombie_ok_def keys by (auto simp: put_flight_def)
    ultimately show ?thesis by (simp add: zombie_ok_def)
  qed
  moreover have "tracker_ok e D todo dec s'" "record_ok todo dec s'"
    using ok put unfolding flight_ok_def tracker_ok_def record_ok_def keys by (simp_all add: put_flight_def)
  ultimately show ?thesis by (simp add: flight_ok_def)
qed

lemma put_pending_ok:
  assumes ok: "flight_ok e D todo (add_mset k hand) dec s" and put: "put_pending k s s'"
  shows "flight_ok e D todo hand dec s'"
proof -
  let ?s = "s\<lparr>ls_pending := ls_pending s @ [k]\<rparr>"
  have eq: "flight ?s = flight s" "dispatched ?s = dispatched s" "deadline_nodes ?s = deadline_nodes s"
    "counted_flight ?s = counted_flight s" "ls_tracker ?s = ls_tracker s"
    by (simp_all add: flight_def dispatched_def deadline_nodes_def counted_flight_def)
  have sum: "mset (ls_pending ?s) + hand + counted_flight ?s = mset (ls_pending s) + add_mset k hand + counted_flight s"
    by (simp add: eq)
  have "place_ok D todo hand dec ?s"
    using ok unfolding flight_ok_def place_ok_def sum eq by simp
  moreover have "tracker_ok e D todo dec ?s = tracker_ok e D todo dec s"
    unfolding tracker_ok_def eq by (rule refl)
  moreover have "zombie_ok dec ?s = zombie_ok dec s" "record_ok todo dec ?s = record_ok todo dec s"
    unfolding zombie_ok_def record_ok_def eq by simp_all
  ultimately have "flight_ok e D todo hand dec ?s" using ok by (simp add: flight_ok_def)
  with put view_flight_ok [of s' ?s] show ?thesis unfolding put_pending_def by blast
qed

section \<open>What the small steps do with a node\<close>

lemma flight_send: "flight (send d s) = flight s + (if attempt_message d then {#ad_node d#} else {#})"
  by (simp add: flight_def send_def)

lemma send_fields [simp]:
  "ls_tracker (send d s) = ls_tracker s" "ls_terminal (send d s) = ls_terminal s"
  "ls_pending (send d s) = ls_pending s" "ls_timed_out (send d s) = ls_timed_out s"
  "ls_in_flight (send d s) = ls_in_flight s" "ls_live (send d s) = ls_live s"
  "dispatched (send d s) = dispatched s" "ls_queue (send d s) = ls_queue s @ [d]"
  by (simp_all add: send_def dispatched_def)

lemma count_in_fields [simp]:
  "ls_tracker (count_in s) = ls_tracker s" "ls_terminal (count_in s) = ls_terminal s"
  "ls_pending (count_in s) = ls_pending s" "ls_timed_out (count_in s) = ls_timed_out s"
  "ls_in_flight (count_in s) = ls_in_flight s + 1" "ls_live (count_in s) = ls_live s"
  "dispatched (count_in s) = dispatched s" "flight (count_in s) = flight s"
  "deadline_nodes (count_in s) = deadline_nodes s"
  by (simp_all add: count_in_def dispatched_def flight_def deadline_nodes_def)

lemma deadline_nodes_send: "ad_kind d = AttemptKind \<Longrightarrow> deadline_nodes (send d s) = deadline_nodes s"
  by (auto simp: deadline_nodes_def send_def)

lemma view_put_flight: "view s1 = view s \<Longrightarrow> put_flight k s1 s' = put_flight k s s'"
  by (simp add: put_flight_def view_def)

lemma put_message:
  assumes "ad_kind d = AttemptKind" "ad_node d \<noteq> CANCEL_WAKE_SENTINEL"
  shows "put_flight (ad_node d) s (count_in (send d s))"
  using assms by (auto simp: put_flight_def flight_send attempt_message_def deadline_nodes_send)

lemma put_terminal_message:
  assumes "name \<noteq> CANCEL_WAKE_SENTINEL"
  shows "put_flight name s (count_in (send (terminal_message name st) s))"
  using put_message [of "terminal_message name st"] assms by (simp add: terminal_message_def done_attempt_def)

lemma cancel_node_put: "name \<noteq> CANCEL_WAKE_SENTINEL \<Longrightarrow> put_flight name s (cancel_node name s)"
  by (simp add: cancel_node_def put_terminal_message)

lemma reject_zombie_put: "name \<noteq> CANCEL_WAKE_SENTINEL \<Longrightarrow> put_flight name s (reject_zombie_pinned name s)"
  by (simp add: reject_zombie_pinned_def put_terminal_message)

lemma arm_fields:
  assumes "arm_unkillable_deadline e name class fate permit s = (hold, s1)"
  shows "ls_tracker s1 = ls_tracker s" "ls_terminal s1 = ls_terminal s" "ls_pending s1 = ls_pending s"
    "ls_timed_out s1 = ls_timed_out s" "ls_live s1 = ls_live s" "ls_running s1 = ls_running s"
    "ls_queue s1 = ls_queue s \<and> ls_in_flight s1 = ls_in_flight s"
    "tm_node ` set (ls_timers s1) \<subseteq> insert name (tm_node ` set (ls_timers s))"
  using assms by (auto simp: arm_unkillable_deadline_def Let_def split: option.splits if_splits)

lemma admit_put:
  assumes "name \<noteq> CANCEL_WAKE_SENTINEL"
  shows "put_flight name s (count_in (admit e name permit s))"
proof (cases "bt_get (ls_runners s) name")
  case None
  let ?s = "(write_log (EvNodeReady name) s)\<lparr>ls_admission := permit_drop permit (ls_admission s)\<rparr>"
  have "admit e name permit s = send (done_attempt name Failed []) ?s"
    using None by (simp add: admit_def write_log_def)
  then have "put_flight name ?s (count_in (admit e name permit s))"
    using put_message [of "done_attempt name Failed []" ?s] assms by (simp add: done_attempt_def)
  moreover have "view ?s = view s" by (simp add: write_log_def view_def flight_def deadline_nodes_def dispatched_def)
  ultimately show ?thesis using view_put_flight by blast
next
  case (Some fate)
  define s0 where "s0 = (write_log (EvNodeReady name) s)
    \<lparr>ls_runners := bt_remove name (ls_runners s), ls_live := bs_insert name (ls_live s)\<rparr>"
  define cls where "cls = (case node_by_id (le_pipeline e) (from_name name) of
      None \<Rightarrow> AwaitBound | Some n \<Rightarrow> effective_class n)"
  obtain hold s1 where arm: "arm_unkillable_deadline e name cls fate permit s0 = (hold, s1)" by fastforce
  obtain child fl where child: "source_child (ls_cancel s1) (ls_flags s1) = (child, fl)" by fastforce
  have eq: "admit e name permit s = s1\<lparr>ls_flags := fl, ls_running := ls_running s1 @
      [\<lparr>dp_node = name, dp_hold = hold, dp_signal = source_signal child, dp_result = None\<rparr>]\<rparr>"
    using Some arm child by (simp add: admit_def Let_def s0_def cls_def write_log_def)
  note f = arm_fields [OF arm]
  show ?thesis
    using f(8) unfolding eq put_flight_def
    by (auto simp: f(1-7) s0_def write_log_def flight_def dispatched_def deadline_nodes_def count_in_def)
qed

lemma offer_or_pend_put:
  assumes "name \<noteq> CANCEL_WAKE_SENTINEL"
  shows "put_flight name s (offer_or_pend e name s) \<or> put_pending name s (offer_or_pend e name s)"
proof -
  obtain r adm where r: "try_admit name (declared_cost e name) (ls_admission s) = (r, adm)" by fastforce
  show ?thesis
  proof (cases r)
    case (Some permit)
    have "put_flight name (s\<lparr>ls_admission := adm\<rparr>) (offer_or_pend e name s)"
      using admit_put [OF assms] by (simp add: offer_or_pend_def r Some Let_def)
    then show ?thesis using view_put_flight [of "s\<lparr>ls_admission := adm\<rparr>" s] by simp
  next
    case None
    show ?thesis
    proof (cases "can_ever_fit adm (declared_cost e name)")
      case True
      then have "offer_or_pend e name s = s\<lparr>ls_pending := ls_pending s @ [name]\<rparr>"
        by (simp add: offer_or_pend_def r None Let_def)
      then show ?thesis unfolding put_pending_def by metis
    next
      case False
      then have "offer_or_pend e name s = count_in (send (terminal_message name Failed) s)"
        by (simp add: offer_or_pend_def r None Let_def reject_over_demand_def)
      then show ?thesis using put_terminal_message [OF assms] by metis
    qed
  qed
qed

lemma put_ok:
  "flight_ok e D todo (add_mset k hand) dec s \<Longrightarrow> put_flight k s s' \<or> put_pending k s s' \<Longrightarrow>
     flight_ok e D todo hand dec s'"
  using put_flight_ok put_pending_ok by blast

section \<open>Applying decisions\<close>

lemma keys_inj:
  assumes "tracker_ok e D todo dec s" "j \<in> keys s" "k \<in> keys s"
  shows "from_name j = from_name k \<longleftrightarrow> j = k"
proof -
  have "loop_ok (rt_initial_ready (ls_tracker s)) (rt_nodes (ls_tracker s)) (rt_pending (ls_tracker s)) [] D"
    using assms(1) by (simp add: tracker_ok_def session_ok_def)
  from shape_key_inj [OF loop_okD(1) [OF this] assms(2,3)] show ?thesis .
qed

lemma take_ready:
  assumes ok: "flight_ok e D (Decision.Ready (from_name k) # todo) hand dec s" and k: "k \<in> keys s"
  shows "bt_get (ls_terminal s) k = None \<Longrightarrow> flight_ok e D todo (add_mset k hand) dec s"
    and "bt_get (ls_terminal s) k \<noteq> None \<Longrightarrow> flight_ok e D todo hand dec s"
proof -
  have tr: "tracker_ok e D (Decision.Ready (from_name k) # todo) dec s"
    and pl: "place_ok D (Decision.Ready (from_name k) # todo) hand dec s"
    and re: "record_ok (Decision.Ready (from_name k) # todo) dec s" and z: "zombie_ok dec s"
    using ok by (simp_all add: flight_ok_def)
  have dist: "from_name k \<notin> decision_node ` set todo" "distinct (map decision_node todo)"
    using tr by (simp_all add: tracker_ok_def)
  note inj = keys_inj [OF tr _ k]
  have noprop: "PropagatedTerminal (from_name k) x orig \<notin> set todo" "Decision.Ready (from_name k) \<notin> set todo" for x orig
    using dist(1) by (force simp: image_iff)+
  have val: "bt_get (ls_terminal s) k = dec k"
    using re k noprop by (simp add: record_ok_def)
  have tr': "tracker_ok e D todo dec s" using tr by (simp add: tracker_ok_def)
  have re': "record_ok todo dec s" using re by (simp add: record_ok_def)
  have mem: "from_name k \<in> ready_of_tracker (ls_tracker s, D)" using tr by (simp add: tracker_ok_def)
  show "flight_ok e D todo (add_mset k hand) dec s" if "bt_get (ls_terminal s) k = None"
  proof -
    let ?M = "mset (ls_pending s) + hand + counted_flight s"
    have iff: "j \<in># ?M \<longleftrightarrow> j \<in> keys s \<and> dec j = None \<and> from_name j \<in> ready_of_tracker (ls_tracker s, D)
        \<and> Decision.Ready (from_name j) \<notin> set todo \<and> from_name j \<noteq> from_name k" for j
      using pl unfolding place_ok_def by auto
    have "mset (ls_pending s) + add_mset k hand + counted_flight s = add_mset k ?M" by simp
    moreover have "j \<in># add_mset k ?M \<longleftrightarrow> j \<in> keys s \<and> dec j = None \<and> from_name j \<in> ready_of_tracker (ls_tracker s, D)
        \<and> Decision.Ready (from_name j) \<notin> set todo" for j
      using iff [of j] k that val mem noprop(2) inj [of j] by auto
    moreover have "k \<notin># ?M" using iff [of k] by simp
    ultimately have "place_ok D todo (add_mset k hand) dec s"
      using pl unfolding place_ok_def by (simp only: once_add) simp
    with tr' re' z show ?thesis by (simp add: flight_ok_def)
  qed
  show "flight_ok e D todo hand dec s" if "bt_get (ls_terminal s) k \<noteq> None"
  proof -
    have "dec k \<noteq> None" using that val by simp
    then have "(j \<in> keys s \<and> dec j = None \<and> from_name j \<in> ready_of_tracker (ls_tracker s, D)
          \<and> Decision.Ready (from_name j) \<notin> set (Decision.Ready (from_name k) # todo))
        \<longleftrightarrow> (j \<in> keys s \<and> dec j = None \<and> from_name j \<in> ready_of_tracker (ls_tracker s, D)
          \<and> Decision.Ready (from_name j) \<notin> set todo)" for j
      using inj [of j] by auto
    then have "place_ok D todo hand dec s" using pl unfolding place_ok_def by (simp only: simp_thms)
    with tr' re' z show ?thesis by (simp add: flight_ok_def)
  qed
qed

lemma known_key:
  assumes "flight_ok e D todo hand dec s" "k \<in> keys s"
  shows "node_name (le_pipeline e) (from_name k) = Some k" "k \<noteq> CANCEL_WAKE_SENTINEL"
  using assms by (auto simp: flight_ok_def tracker_ok_def)

lemma todo_key:
  assumes ok: "flight_ok e D (d # todo) hand dec s"
  obtains k where "k \<in> keys s" "decision_node d = from_name k"
proof -
  have loop: "loop_ok (rt_initial_ready (ls_tracker s)) (rt_nodes (ls_tracker s)) (rt_pending (ls_tracker s)) [] D"
    and d: "case d of Decision.Ready i \<Rightarrow> i \<in> ready_of_tracker (ls_tracker s, D) | PropagatedTerminal i x orig \<Rightarrow> d \<in> set D"
    using ok by (auto simp: flight_ok_def tracker_ok_def session_ok_def split: Decision.splits)
  consider i where "d = Decision.Ready i" "i \<in> set (rt_initial_ready (ls_tracker s))" | "d \<in> set D"
    using d by (cases d) (auto simp: ready_of_tracker_def)
  then show thesis
  proof cases
    case 1
    with loop_okD(6) [OF loop 1(2)] that show thesis by auto
  next
    case 2
    with loop_okD(7) [OF loop 2] that show thesis by (auto simp: decision_right_def)
  qed
qed

lemma apply_propagated_ok:
  assumes ok: "flight_ok e D (PropagatedTerminal (from_name k) x orig # todo) hand dec s" and k: "k \<in> keys s"
  shows "flight_ok e D todo hand dec (record_terminal k x s)"
proof -
  let ?t = "PropagatedTerminal (from_name k) x orig # todo" and ?s = "record_terminal k x s"
  have tr: "tracker_ok e D ?t dec s" and pl: "place_ok D ?t hand dec s"
    and re: "record_ok ?t dec s" and z: "zombie_ok dec s"
    using ok by (simp_all add: flight_ok_def)
  have dist: "from_name k \<notin> decision_node ` set todo" using tr by (simp add: tracker_ok_def)
  have noprop: "PropagatedTerminal (from_name k) y or' \<notin> set todo" for y or'
    using dist by (force simp: image_iff)
  have dk: "dec k = Some x" using tr k by (simp add: tracker_ok_def)
  note inj = keys_inj [OF tr _ k]
  have none: "bt_get (ls_terminal s) k = None" using re k by (auto simp: record_ok_def)
  have eq: "flight ?s = flight s" "dispatched ?s = dispatched s" "deadline_nodes ?s = deadline_nodes s"
    "counted_flight ?s = counted_flight s" "ls_tracker ?s = ls_tracker s" "ls_pending ?s = ls_pending s"
    "ls_timed_out ?s = ls_timed_out s" "ls_live ?s = ls_live s" "ls_in_flight ?s = ls_in_flight s"
    by (simp_all add: record_terminal_def flight_def dispatched_def deadline_nodes_def counted_flight_def)
  have "tracker_ok e D todo dec ?s = tracker_ok e D todo dec s" unfolding tracker_ok_def eq by (rule refl)
  then have "tracker_ok e D todo dec ?s" using tr by (simp add: tracker_ok_def)
  moreover have "place_ok D todo hand dec ?s" using pl unfolding place_ok_def eq by simp
  moreover have "zombie_ok dec ?s" using z unfolding zombie_ok_def eq by simp
  moreover have "record_ok todo dec ?s"
  proof -
    have "bt_get (ls_terminal ?s) j = (if \<exists>y or'. PropagatedTerminal (from_name j) y or' \<in> set todo then None else dec j)"
      if j: "j \<in> keys s" for j
      using re j none noprop dk inj [OF j]
      by (cases "j = k") (auto simp: record_ok_def record_terminal_def terminal_or_insert_def)
    then show ?thesis
      using re none by (simp add: record_ok_def eq) (simp add: record_terminal_def terminal_or_insert_def)
  qed
  ultimately show ?thesis by (simp add: flight_ok_def)
qed

lemma offer_ready_ok:
  assumes ok: "flight_ok e D (Decision.Ready (from_name k) # todo) hand dec s" and k: "k \<in> keys s"
  shows "flight_ok e D todo hand dec (if bt_get (ls_terminal s) k \<noteq> None then s else cancel_node k s)"
    and "flight_ok e D todo hand dec (if bt_get (ls_terminal s) k \<noteq> None then s else offer_or_pend e k s)"
proof -
  have name: "k \<noteq> CANCEL_WAKE_SENTINEL" by (rule known_key [OF ok k])
  have step: "flight_ok e D todo hand dec (if bt_get (ls_terminal s) k \<noteq> None then s else s')"
    if "put_flight k s s' \<or> put_pending k s s'" for s'
  proof (cases "bt_get (ls_terminal s) k = None")
    case True
    from put_ok [OF take_ready(1) [OF ok k True] that] True show ?thesis by simp
  next
    case False
    from take_ready(2) [OF ok k False] False show ?thesis by simp
  qed
  show "flight_ok e D todo hand dec (if bt_get (ls_terminal s) k \<noteq> None then s else cancel_node k s)"
    by (rule step [OF disjI1 [OF cancel_node_put [OF name]]])
  show "flight_ok e D todo hand dec (if bt_get (ls_terminal s) k \<noteq> None then s else offer_or_pend e k s)"
    by (rule step [OF offer_or_pend_put [OF name]])
qed

lemma apply_decision_ok:
  assumes ok: "flight_ok e D (d # todo) hand dec s"
  shows "flight_ok e D todo hand dec (apply_decision e d s)"
proof -
  from todo_key [OF ok] obtain k where k: "k \<in> keys s" "decision_node d = from_name k" .
  note name = known_key [OF ok k(1)]
  show ?thesis
  proof (cases d)
    case (Ready i)
    with k have i: "i = from_name k" by simp
    have "apply_decision e d s = (if bt_get (ls_terminal s) k \<noteq> None then s else cancel_node k s)
        \<or> apply_decision e d s = (if bt_get (ls_terminal s) k \<noteq> None then s else offer_or_pend e k s)"
      by (simp add: apply_decision_def Ready i name(1))
    with offer_ready_ok [OF ok [unfolded Ready i] k(1)] show ?thesis by metis
  next
    case (PropagatedTerminal i x orig)
    with k have i: "i = from_name k" by simp
    have "flight_ok e D todo hand dec (record_terminal k x s)"
      by (rule apply_propagated_ok [OF ok [unfolded PropagatedTerminal i] k(1)])
    moreover have "view (record_terminal k x (write_log ev s)) = view (record_terminal k x s)" for ev
      by (simp add: record_terminal_def write_log_def view_def flight_def deadline_nodes_def dispatched_def)
    ultimately have "flight_ok e D todo hand dec (record_terminal k x (write_log ev s))" for ev
      using view_flight_ok by blast
    moreover have "apply_decision e d s = push_zombie k 1 (record_terminal k x (write_log (EvNodeTerminal k (wire_terminal x)) s))
        \<or> apply_decision e d s = record_terminal k x (write_log (EvNodeTerminal k (wire_terminal x)) s)"
      by (simp add: apply_decision_def PropagatedTerminal i Let_def name(1))
    ultimately show ?thesis using view_flight_ok [OF view_small(2)] by metis
  qed
qed

lemma apply_decisions_ok:
  "flight_ok e D ds hand dec s \<Longrightarrow> flight_ok e D [] hand dec (apply_decisions e ds s)"
  unfolding apply_decisions_def
  by (induction ds arbitrary: s) (simp_all add: apply_decision_ok)
end
