(* ===== verification/Driver_Loop.thy ===== *)
theory Driver_Loop
  imports Driver_Places
begin

text \<open>
  Every action keeps the bookkeeping of the run loop, whatever the tasks, timers and operators do:
  receiving a message, settling a node, telling the tracker, rejecting the pinned waiters, and the
  actions beside the loop.  A fresh run starts with it.
\<close>

section \<open>Recording and cancelling leave the places alone\<close>

lemma put_all_ok:
  assumes "flight_ok e D todo (mset names + hand) dec s" "CANCEL_WAKE_SENTINEL \<notin> set names"
    and put: "\<And>n s. n \<noteq> CANCEL_WAKE_SENTINEL \<Longrightarrow> put_flight n s (f n s)"
  shows "flight_ok e D todo hand dec (fold f names s)"
  using assms(1,2)
proof (induction names arbitrary: s)
  case (Cons n names)
  have "n \<noteq> CANCEL_WAKE_SENTINEL" and "flight_ok e D todo (add_mset n (mset names + hand)) dec s"
    using Cons.prems by auto
  then have "flight_ok e D todo (mset names + hand) dec (f n s)"
    using put_flight_ok put by blast
  with Cons show ?case by simp
qed simp

lemma cancel_all_ok:
  assumes "flight_ok e D todo (mset names + hand) dec s" "CANCEL_WAKE_SENTINEL \<notin> set names"
  shows "flight_ok e D todo hand dec (cancel_all names s)"
  unfolding cancel_all_def by (rule put_all_ok [OF assms cancel_node_put])

lemma hand_pending:
  assumes "flight_ok e D todo hand dec s" "mset (ls_pending s) + hand = mset kept + hand'"
  shows "flight_ok e D todo hand' dec (s\<lparr>ls_pending := kept\<rparr>)"
proof -
  let ?s = "s\<lparr>ls_pending := kept\<rparr>"
  have eq: "flight ?s = flight s" "dispatched ?s = dispatched s" "deadline_nodes ?s = deadline_nodes s"
    "counted_flight ?s = counted_flight s" "ls_tracker ?s = ls_tracker s" "ls_pending ?s = kept"
    "ls_in_flight ?s = ls_in_flight s"
    by (simp_all add: flight_def dispatched_def deadline_nodes_def counted_flight_def)
  have "place_ok D todo hand' dec ?s = place_ok D todo hand dec s"
    unfolding place_ok_def eq assms(2) by (rule refl)
  moreover have "tracker_ok e D todo dec ?s = tracker_ok e D todo dec s"
    unfolding tracker_ok_def eq by (rule refl)
  moreover have "zombie_ok dec ?s = zombie_ok dec s" "record_ok todo dec ?s = record_ok todo dec s"
    unfolding zombie_ok_def record_ok_def eq by simp_all
  ultimately show ?thesis using assms(1) by (simp add: flight_ok_def)
qed

lemma pending_names:
  assumes "flight_ok e D todo hand dec s"
  shows "CANCEL_WAKE_SENTINEL \<notin> set (ls_pending s)"
proof
  assume "CANCEL_WAKE_SENTINEL \<in> set (ls_pending s)"
  then have "CANCEL_WAKE_SENTINEL \<in> keys s"
    using assms unfolding flight_ok_def place_ok_def by auto
  with assms show False by (auto simp: flight_ok_def tracker_ok_def)
qed

lemma cancel_pending_ok:
  assumes ok: "flight_ok e D todo {#} dec s"
  shows "flight_ok e D todo {#} dec (cancel_pending_default_nodes e s)"
proof -
  let ?P = "is_default_rule_node (le_pipeline e)"
  have "flight_ok e D todo (mset (filter ?P (ls_pending s)) + {#}) dec (s\<lparr>ls_pending := filter (Not \<circ> ?P) (ls_pending s)\<rparr>)"
    by (rule hand_pending [OF ok]) (simp add: mset_filter multiset_partition [symmetric] comp_def)
  then have "flight_ok e D todo {#} dec (cancel_all (filter ?P (ls_pending s)) (s\<lparr>ls_pending := filter (Not \<circ> ?P) (ls_pending s)\<rparr>))"
    using pending_names [OF ok] by (intro cancel_all_ok) auto
  then show ?thesis by (simp add: cancel_pending_default_nodes_def Let_def partition_filter_conv)
qed

lemma enter_cancellation_ok:
  assumes ok: "flight_ok e D todo {#} dec s"
  shows "flight_ok e D todo {#} dec (enter_cancellation e orig full s)"
proof -
  have v: "view s' = view s \<Longrightarrow> flight_ok e D todo {#} dec s'" for s'
    using ok view_flight_ok by blast
  define s1 where "s1 = (let s = (if ls_origin s = None then s\<lparr>ls_origin := orig\<rparr> else s);
          s = s\<lparr>ls_flags := source_cancel (ls_cancel s) (ls_flags s)\<rparr>
      in if full then s\<lparr>ls_draining := True, ls_drain_deadline := Some (ls_now s + le_grace e)\<rparr> else s)"
  have "view s1 = view s" by (simp add: s1_def Let_def view_def flight_def deadline_nodes_def dispatched_def)
  then have ok1: "flight_ok e D todo {#} dec s1" by (rule v)
  define s2 where "s2 = (if \<not> ls_stopping s1 then cancel_pending_default_nodes e (s1\<lparr>ls_stopping := True\<rparr>) else s1)"
  have "flight_ok e D todo {#} dec (s1\<lparr>ls_stopping := True\<rparr>)"
    using ok1 view_flight_ok [OF view_updates(6)] by blast
  then have ok2: "flight_ok e D todo {#} dec s2"
    using ok1 cancel_pending_ok unfolding s2_def by (cases "ls_stopping s1") simp_all
  have "flight_ok e D todo (mset (ls_pending s2) + {#}) dec (s2\<lparr>ls_pending := []\<rparr>)"
    by (rule hand_pending [OF ok2]) simp
  then have "flight_ok e D todo {#} dec (cancel_all (ls_pending s2) (s2\<lparr>ls_pending := []\<rparr>))"
    using pending_names [OF ok2] by (intro cancel_all_ok) auto
  with ok2 show ?thesis
    by (simp add: enter_cancellation_def Let_def s1_def [unfolded Let_def, symmetric] s2_def [symmetric] split del: if_split)
      (auto simp: s2_def s1_def Let_def)
qed

section \<open>The pending queue\<close>

lemma mset_remove_nth: "i < length xs \<Longrightarrow> mset xs = add_mset (xs ! i) (mset (remove_nth i xs))"
  unfolding remove_nth_def by (metis add_mset_add_single id_take_nth_drop mset.simps(2) mset_append union_mset_add_mset_right)

lemma drain_pending_ok:
  "flight_ok e D todo {#} dec s \<Longrightarrow> flight_ok e D todo {#} dec (drain_pending_at e i s)"
proof (induction e i s rule: drain_pending_at.induct)
  case (1 e i s)
  let ?name = "ls_pending s ! i" and ?cost = "declared_cost e (ls_pending s ! i)"
  show ?case
  proof (cases "i < length (ls_pending s)")
    case False
    then show ?thesis using "1.prems" by (subst drain_pending_at.simps) simp
  next
    case True
    obtain r adm where r: "try_admit ?name ?cost (ls_admission s) = (r, adm)" by fastforce
    show ?thesis
    proof (cases r)
      case None
      then show ?thesis
        using True r "1.IH"(1) [OF True refl refl r [symmetric] None] "1.prems" by (subst drain_pending_at.simps) (simp add: Let_def)
    next
      case (Some permit)
      let ?s = "s\<lparr>ls_pending := remove_nth i (ls_pending s)\<rparr>"
      have "flight_ok e D todo {#?name#} dec ?s"
        by (rule hand_pending [OF "1.prems"]) (simp add: mset_remove_nth [OF True])
      moreover have "view (s\<lparr>ls_admission := adm, ls_pending := remove_nth i (ls_pending s)\<rparr>) = view ?s"
        by (simp add: view_def flight_def deadline_nodes_def dispatched_def)
      ultimately have "flight_ok e D todo {#?name#} dec (s\<lparr>ls_admission := adm, ls_pending := remove_nth i (ls_pending s)\<rparr>)"
        using view_flight_ok by blast
      moreover have "?name \<noteq> CANCEL_WAKE_SENTINEL" using pending_names [OF "1.prems"] True by (metis nth_mem)
      ultimately have "flight_ok e D todo {#} dec (count_in (admit e ?name permit
          (s\<lparr>ls_admission := adm, ls_pending := remove_nth i (ls_pending s)\<rparr>)))"
        using put_flight_ok admit_put by blast
      then show ?thesis
        using True r Some "1.IH"(2) [OF True refl refl r [symmetric] Some] by (subst drain_pending_at.simps) (simp add: Let_def)
    qed
  qed
qed

section \<open>Settling a node\<close>

lemma view_terminal: "view s1 = view s2 \<Longrightarrow> view (s1\<lparr>ls_terminal := T\<rparr>) = view (s2\<lparr>ls_terminal := T\<rparr>)"
  by (simp add: view_def flight_def deadline_nodes_def dispatched_def)

lemma record_event_frame:
  "record_event e d b consumed ev (s, n) = (s', n') \<Longrightarrow> view s' = view s"
  by (auto simp: record_event_def Let_def split: if_splits option.splits bool.splits)

lemma record_events_frame:
  "fold (record_event e d b consumed) evs (s, n) = (s', n') \<Longrightarrow> view s' = view s"
proof (induction evs arbitrary: s n)
  case (Cons ev evs)
  obtain s1 n1 where "record_event e d b consumed ev (s, n) = (s1, n1)" by fastforce
  with Cons record_event_frame show ?case by fastforce
qed simp

lemma view_record_terminal: "view s1 = view s2 \<Longrightarrow> view (record_terminal n x s1) = view (record_terminal n x s2)"
  by (simp add: record_terminal_def view_def flight_def deadline_nodes_def dispatched_def)

lemma record_terminal_write_log [simp]: "record_terminal n x (write_log ev s) = write_log ev (record_terminal n x s)"
  by (simp add: record_terminal_def write_log_def)

lemma record_attempt_outcome_view:
  assumes "record_attempt_outcome e d s = (st, s')"
  shows "view s' = view (record_terminal (ad_node d) st s)"
    and "st = (if ls_draining s \<and> bt_get (ls_terminal s) (ad_node d) = None then Cancelled else ad_state d)"
proof -
  define b where "b = (ls_draining s \<and> bt_get (ls_terminal s) (ad_node d) = None)"
  define consumed where "consumed = consumed_inputs_for (le_pipeline e) (ad_node d) (ls_produced s)"
  obtain s1 n1 where f: "fold (record_event e d b consumed) (ad_events d) (s, 1) = (s1, n1)" by fastforce
  have v: "view s1 = view s" by (rule record_events_frame [OF f])
  define st0 where "st0 = (if b then Cancelled else ad_state d)"
  obtain s2 n2 where g: "(if b
      then (let attempt = attempt_number_of (ad_events d)
            in (write_log (EvAttemptOutcome (attempt_outcome_record_new (ad_node d) attempt
                 (wire_state_as_str (wire_terminal Cancelled)))) s1, attempt))
      else (s1, n1)) = (s2, n2)" by fastforce
  then have "view s2 = view s1" by (cases b) (auto simp: Let_def)
  with v have v2: "view (record_terminal n x s2) = view (record_terminal n x s)" for n x
    by (intro view_record_terminal) simp
  define s3 where "s3 = (if b then write_log (EvNodeTerminal (ad_node d) (wire_terminal st0)) (record_terminal (ad_node d) st0 s2)
      else record_terminal (ad_node d) st0 s2)"
  have v3: "view s3 = view (record_terminal (ad_node d) st0 s)" by (simp add: s3_def v2)
  have "record_attempt_outcome e d s = (st0, if is_zombie_candidate st0 then push_zombie (ad_node d) n2 s3 else s3)"
    unfolding record_attempt_outcome_def b_def [symmetric] consumed_def [symmetric] f prod.case
    by (simp only: Let_def f g [unfolded Let_def] prod.case st0_def s3_def)
  with assms have st: "st = st0" and s': "s' = (if is_zombie_candidate st0 then push_zombie (ad_node d) n2 s3 else s3)" by (metis prod.inject)+
  show "view s' = view (record_terminal (ad_node d) st s)" by (simp add: s' st v3)
  show "st = (if ls_draining s \<and> bt_get (ls_terminal s) (ad_node d) = None then Cancelled else ad_state d)"
    by (simp add: st st0_def b_def)
qed

lemma leave_ok:
  assumes ok: "flight_ok e D [] {#} dec s0"
    and eq: "ls_tracker s1 = ls_tracker s0" "ls_terminal s1 = ls_terminal s0" "ls_pending s1 = ls_pending s0"
      "ls_in_flight s1 = ls_in_flight s0" "ls_live s1 = ls_live s0"
    and cf: "counted_flight s0 = add_mset k (counted_flight s1)" and once1: "once (flight s1)"
    and late: "\<forall>j \<in> set (ls_timed_out s1). j \<in># flight s1 \<and> j \<in> keys s0 \<and> (j = k \<or> dec j \<noteq> None)"
    and disp: "dispatched s1 \<subseteq> (dispatched s0 - {k}) \<union> set (ls_timed_out s1)" "set (ls_timed_out s0) \<subseteq> set (ls_timed_out s1)"
    and dl: "deadline_nodes s1 \<subseteq> deadline_nodes s0" "set_mset (flight s0) \<subseteq> insert k (set_mset (flight s1))"
  shows "flight_ok e D [] {#} (dec(k := Some st))
      (record_terminal k st (s1\<lparr>ls_in_flight := ls_in_flight s1 - 1, ls_live := removeAll k (ls_live s1)\<rparr>))"
    and "k \<in> keys s0" "dec k = None"
proof -
  let ?d = "dec(k := Some st)"
  let ?s = "record_terminal k st (s1\<lparr>ls_in_flight := ls_in_flight s1 - 1, ls_live := removeAll k (ls_live s1)\<rparr>)"
  have tr: "tracker_ok e D [] dec s0" and pl: "place_ok D [] {#} dec s0" and re: "record_ok [] dec s0" and z: "zombie_ok dec s0"
    using ok by (simp_all add: flight_ok_def)
  have se: "flight ?s = flight s1" "dispatched ?s = dispatched s1" "deadline_nodes ?s = deadline_nodes s1"
    "counted_flight ?s = counted_flight s1" "ls_tracker ?s = ls_tracker s0" "ls_pending ?s = ls_pending s0"
    "ls_timed_out ?s = ls_timed_out s1" "ls_live ?s = removeAll k (ls_live s0)" "ls_in_flight ?s = ls_in_flight s0 - 1"
    "ls_terminal ?s = terminal_or_insert k st (ls_terminal s0)"
    by (simp_all add: record_terminal_def flight_def dispatched_def deadline_nodes_def counted_flight_def eq)
  have M: "mset (ls_pending s0) + {#} + counted_flight s0 = add_mset k (mset (ls_pending s0) + counted_flight s1)"
    by (simp add: cf)
  have all: "j \<in># add_mset k (mset (ls_pending s0) + counted_flight s1) \<longleftrightarrow>
      j \<in> keys s0 \<and> dec j = None \<and> from_name j \<in> ready_of_tracker (ls_tracker s0, D)" for j
    using pl unfolding place_ok_def M by simp
  have o: "k \<notin># mset (ls_pending s0) + counted_flight s1" "once (mset (ls_pending s0) + counted_flight s1)"
    using pl unfolding place_ok_def M once_add by blast+
  show k: "k \<in> keys s0" "dec k = None" using all [of k] by auto
  have "tracker_ok e D [] ?d ?s"
    using tr all [of k] unfolding tracker_ok_def se by simp
  moreover have "place_ok D [] {#} ?d ?s"
  proof -
    have "ls_in_flight s0 = size (counted_flight s0)" using pl by (simp add: place_ok_def)
    then show ?thesis
      using all o once1 unfolding place_ok_def se by (auto simp: cf)
  qed
  moreover have "record_ok [] ?d ?s"
    using re k unfolding record_ok_def se by (auto simp: terminal_or_insert_def)
  moreover have "zombie_ok ?d ?s"
  proof -
    have "set (ls_live s0) \<subseteq> set_mset (add_mset k (counted_flight s1))"
      using z by (simp add: zombie_ok_def cf)
    moreover have "dispatched s0 \<subseteq> set (ls_live s0) \<union> set (ls_timed_out s0)" using z by (simp add: zombie_ok_def)
    moreover have "\<forall>j \<in> deadline_nodes s1. j \<in> keys s0 \<and> (?d j \<noteq> None \<or> j \<in># flight s1)"
      using z dl by (auto simp: zombie_ok_def)
    ultimately show ?thesis
      using late disp unfolding zombie_ok_def se by (auto split: if_splits)
  qed
  ultimately show "flight_ok e D [] {#} ?d ?s" by (simp add: flight_ok_def)
qed

section \<open>Telling the tracker\<close>

lemma decided_once:
  assumes ok: "session_ok (t, D)" and k: "from_name k \<in> ready_of_tracker (t, E) \<union> decision_node ` set E" and D: "D = E @ ds"
  shows "d \<in> set ds \<Longrightarrow> decision_node d \<noteq> from_name k"
proof -
  have "loop_ok (rt_initial_ready t) (rt_nodes t) (rt_pending t) [] D" using ok by (simp add: session_ok_def)
  from loop_okD(5) [OF this] have "distinct (rt_initial_ready t @ map decision_node E @ map decision_node ds)" by (simp add: D)
  with k show "d \<in> set ds \<Longrightarrow> decision_node d \<noteq> from_name k"
    by (force simp: ready_of_tracker_def)
qed

lemma notify_ok:
  assumes ok: "flight_ok e D [] {#} ((decided s)(k := Some st)) s" and k: "k \<in> keys s" "decided s k = None"
    and n: "notify_terminal (from_name k) st (ls_tracker s) = (t', ds)"
  shows "flight_ok e (D @ ds) ds {#} (decided_as (rt_nodes t')) (s\<lparr>ls_tracker := t'\<rparr>)"
proof -
  let ?dec = "(decided s)(k := Some st)" and ?dec' = "decided_as (rt_nodes t')" and ?s = "s\<lparr>ls_tracker := t'\<rparr>"
  have tr: "tracker_ok e D [] ?dec s" and pl: "place_ok D [] {#} ?dec s" and re: "record_ok [] ?dec s" and z: "zombie_ok ?dec s"
    using ok by (simp_all add: flight_ok_def)
  have sess: "session_ok (ls_tracker s, D)" using tr by (simp add: tracker_ok_def)
  note f = notify_facts [OF sess n k]
  have se: "flight ?s = flight s" "dispatched ?s = dispatched s" "deadline_nodes ?s = deadline_nodes s"
    "counted_flight ?s = counted_flight s" "ls_tracker ?s = t'" "ls_pending ?s = ls_pending s"
    "ls_timed_out ?s = ls_timed_out s" "ls_live ?s = ls_live s" "ls_in_flight ?s = ls_in_flight s" "ls_terminal ?s = ls_terminal s"
    by (simp_all add: flight_def dispatched_def deadline_nodes_def counted_flight_def)
  have ready: "ready_of_tracker (t', D @ ds) = ready_of_tracker (ls_tracker s, D) \<union> {i. Decision.Ready i \<in> set ds}"
    by (auto simp: ready_of_tracker_def f(3))
  have known: "from_name j \<in> ready_of_tracker (ls_tracker s, D) \<union> decision_node ` set D"
    if "j \<in> keys s" "?dec j \<noteq> None" for j using tr that by (simp add: tracker_ok_def)
  have fresh: "decision_node d \<noteq> from_name j"
    if "from_name j \<in> ready_of_tracker (ls_tracker s, D) \<union> decision_node ` set D" "d \<in> set ds" for d j
    using decided_once [OF f(1) _ refl, of j d] that by (simp add: ready_of_tracker_def f(3))
  have noready: "Decision.Ready (from_name j) \<notin> set ds" "PropagatedTerminal (from_name j) x orig \<notin> set ds"
    if "from_name j \<in> ready_of_tracker (ls_tracker s, D) \<union> decision_node ` set D" for j x orig
    using fresh [OF that] by force+
  have mono: "?dec' j = Some x" if "?dec j = Some x" for j x
    using that f(5,6) by (auto split: if_splits)
  have new: "?dec j = Some x \<or> (\<exists>orig. PropagatedTerminal (from_name j) x orig \<in> set ds)"
    if "j \<in> keys s" "?dec' j = Some x" for j x
    using f(7) [OF that] f(5) that(2) by auto
  have "tracker_ok e (D @ ds) ds ?dec' ?s"
  proof -
    have "distinct (map decision_node ds)"
      using loop_okD(5) [of "rt_initial_ready t'" "rt_nodes t'" "rt_pending t'" "[]" "D @ ds"] f(1)
      by (simp add: session_ok_def)
    moreover have "case d of Decision.Ready i \<Rightarrow> i \<in> ready_of_tracker (t', D @ ds)
        | PropagatedTerminal i x orig \<Rightarrow> d \<in> set (D @ ds) \<and> (\<forall>j \<in> keys ?s. from_name j = i \<longrightarrow> ?dec' j = Some x)"
      if "d \<in> set ds" for d
      by (cases d; use that f(8) in \<open>simp add: ready f(2)\<close>)
    moreover have "from_name j \<in> ready_of_tracker (t', D @ ds) \<union> decision_node ` set (D @ ds)"
      if j: "j \<in> keys s" "?dec' j \<noteq> None" for j
    proof -
      from j obtain x where x: "?dec' j = Some x" by auto
      from new [OF j(1) x] show ?thesis
      proof
        assume "?dec j = Some x"
        with known [OF j(1)] show ?thesis by (simp add: ready) blast
      qed force
    qed
    ultimately show ?thesis using tr f(1) unfolding tracker_ok_def se f(2) by (simp add: f(2))
  qed
  moreover have "place_ok (D @ ds) ds {#} ?dec' ?s"
  proof -
    have "(j \<in> keys s \<and> ?dec' j = None \<and> from_name j \<in> ready_of_tracker (t', D @ ds) \<and> Decision.Ready (from_name j) \<notin> set ds)
        \<longleftrightarrow> (j \<in> keys s \<and> ?dec j = None \<and> from_name j \<in> ready_of_tracker (ls_tracker s, D))" for j
      using mono [of j] new [of j] noready [of j] unfolding ready
      by (cases "?dec j"; cases "?dec' j") auto
    then show ?thesis using pl unfolding place_ok_def se f(2) by simp
  qed
  moreover have "record_ok ds ?dec' ?s"
  proof -
    have "bt_get (ls_terminal s) j =
        (if \<exists>x orig. PropagatedTerminal (from_name j) x orig \<in> set ds then None else ?dec' j)" if j: "j \<in> keys s" for j
    proof -
      have t: "bt_get (ls_terminal s) j = ?dec j" using re j by (simp add: record_ok_def)
      show ?thesis
      proof (cases "?dec j")
        case None
        then show ?thesis using new [OF j] unfolding t by (cases "?dec' j") auto
      next
        case (Some x)
        then show ?thesis using mono [OF Some] noready [OF known [OF j]] unfolding t by auto
      qed
    qed
    then show ?thesis using re unfolding record_ok_def se f(2) by simp
  qed
  moreover have "zombie_ok ?dec' ?s"
  proof -
    have "?dec' j \<noteq> None" if "?dec j \<noteq> None" for j using mono that by (metis option.exhaust option.distinct(1))
    then show ?thesis using z unfolding zombie_ok_def se f(2) by blast
  qed
  ultimately show ?thesis by (simp add: flight_ok_def)
qed

section \<open>Only a notification changes the tracker\<close>

lemma put_tracker:
  "put_flight k s s' \<or> put_pending k s s' \<Longrightarrow> ls_tracker s' = ls_tracker s"
  by (auto simp: put_flight_def put_pending_def view_def)

lemma admit_tracker [simp]: "ls_tracker (admit e name permit s) = ls_tracker s"
  by (simp add: admit_def write_log_def arm_unkillable_deadline_def Let_def split: option.split prod.split)

lemma cancel_node_tracker [simp]: "ls_tracker (cancel_node name s) = ls_tracker s"
  by (simp add: cancel_node_def)

lemma cancel_all_tracker [simp]: "ls_tracker (cancel_all names s) = ls_tracker s"
  unfolding cancel_all_def by (induction names arbitrary: s) simp_all

lemma enter_cancellation_tracker [simp]: "ls_tracker (enter_cancellation e orig full s) = ls_tracker s"
  by (simp add: enter_cancellation_def cancel_pending_default_nodes_def Let_def split: prod.split)

lemma offer_or_pend_tracker [simp]: "ls_tracker (offer_or_pend e name s) = ls_tracker s"
  by (simp add: offer_or_pend_def reject_over_demand_def Let_def split: prod.split option.split)

lemma drain_pending_tracker [simp]: "ls_tracker (drain_pending_at e i s) = ls_tracker s"
proof (induction e i s rule: drain_pending_at.induct)
  case (1 e i s)
  show ?case
  proof (cases "i < length (ls_pending s)")
    case False
    then show ?thesis by (subst drain_pending_at.simps) simp
  next
    case True
    obtain r adm where r: "try_admit (ls_pending s ! i) (declared_cost e (ls_pending s ! i)) (ls_admission s) = (r, adm)"
      by fastforce
    show ?thesis
    proof (cases r)
      case None
      then show ?thesis
        using True r "1.IH"(1) [OF True refl refl r [symmetric] None] by (subst drain_pending_at.simps) (simp add: Let_def)
    next
      case (Some permit)
      then show ?thesis
        using True r "1.IH"(2) [OF True refl refl r [symmetric] Some] by (subst drain_pending_at.simps) (simp add: Let_def)
    qed
  qed
qed

lemma record_terminal_tracker [simp]: "ls_tracker (record_terminal n x s) = ls_tracker s"
  by (simp add: record_terminal_def)

lemma log_tracker [simp]:
  "ls_tracker (write_log ev s) = ls_tracker s" "ls_tracker (push_zombie n a s) = ls_tracker s"
  by (simp_all add: write_log_def push_zombie_def)

lemma apply_decisions_tracker [simp]: "ls_tracker (apply_decisions e ds s) = ls_tracker s"
  unfolding apply_decisions_def
  by (induction ds arbitrary: s) (simp_all add: apply_decision_def Let_def split: Decision.split option.split)

section \<open>Every message keeps the bookkeeping\<close>

text \<open>What holds between two actions.\<close>

definition tracker_graph :: "ReadinessTracker \<Rightarrow> string set \<times> (string \<Rightarrow> string set)" where
  "tracker_graph t = (keys_of (rt_nodes t), ups_of (rt_nodes t))"

definition loop_inv :: "LoopEnv \<Rightarrow> string set \<times> (string \<Rightarrow> string set) \<Rightarrow> LoopState \<Rightarrow> bool" where
  "loop_inv e g s \<longleftrightarrow> (\<exists>D. flight_ok e D [] {#} (decided s) s) \<and> tracker_graph (ls_tracker s) = g"

lemma loop_inv_view: "view s' = view s \<Longrightarrow> loop_inv e g s' = loop_inv e g s"
  unfolding loop_inv_def using view_flight_ok [of s' s] by (simp add: view_def)

lemma notify_and_apply_ok:
  assumes "flight_ok e D [] {#} ((decided s)(k := Some st)) s" "k \<in> keys s" "decided s k = None"
    and g: "tracker_graph (ls_tracker s) = g"
  shows "loop_inv e g (notify_and_apply e k st s)"
proof -
  obtain t' ds where n: "notify_terminal (from_name k) st (ls_tracker s) = (t', ds)" by fastforce
  have sess: "session_ok (ls_tracker s, D)" using assms(1) by (simp add: flight_ok_def tracker_ok_def)
  have "tracker_graph t' = g"
    using notify_facts(2,4) [OF sess n assms(2,3)] g by (simp add: tracker_graph_def)
  moreover from apply_decisions_ok [OF notify_ok [OF assms(1-3) n]]
  have "flight_ok e (D @ ds) [] {#} (decided_as (rt_nodes t')) (apply_decisions e ds (s\<lparr>ls_tracker := t'\<rparr>))" .
  ultimately show ?thesis unfolding loop_inv_def by (auto simp: notify_and_apply_def n)
qed

lemma drain_pending_inv: "loop_inv e g s \<Longrightarrow> loop_inv e g (drain_pending e s)"
  unfolding loop_inv_def drain_pending_def drain_pending_tracker using drain_pending_ok by blast

lemma enter_cancellation_inv: "loop_inv e g s \<Longrightarrow> loop_inv e g (enter_cancellation e orig full s)"
  unfolding loop_inv_def enter_cancellation_tracker using enter_cancellation_ok by blast

lemma settle_ok:
  assumes ok: "flight_ok e D [] {#} (decided s0) s0" and g: "tracker_graph (ls_tracker s0) = g"
    and eq: "ls_tracker s1 = ls_tracker s0" "ls_terminal s1 = ls_terminal s0" "ls_pending s1 = ls_pending s0"
      "ls_in_flight s1 = ls_in_flight s0" "ls_live s1 = ls_live s0"
    and cf: "counted_flight s0 = add_mset (ad_node d) (counted_flight s1)" and once1: "once (flight s1)"
    and late: "\<forall>j \<in> set (ls_timed_out s1). j \<in># flight s1 \<and> j \<in> keys s0 \<and> (j = ad_node d \<or> decided s0 j \<noteq> None)"
    and disp: "dispatched s1 \<subseteq> (dispatched s0 - {ad_node d}) \<union> set (ls_timed_out s1)" "set (ls_timed_out s0) \<subseteq> set (ls_timed_out s1)"
    and dl: "deadline_nodes s1 \<subseteq> deadline_nodes s0" "set_mset (flight s0) \<subseteq> insert (ad_node d) (set_mset (flight s1))"
  shows "loop_inv e g (settle e d s1)"
proof -
  let ?k = "ad_node d"
  define s2 where "s2 = s1\<lparr>ls_in_flight := ls_in_flight s1 - 1, ls_live := removeAll ?k (ls_live s1)\<rparr>"
  obtain st s3 where r: "record_attempt_outcome e d s2 = (st, s3)" by fastforce
  note l = leave_ok [OF ok eq cf once1 late disp dl]
  have v: "view s3 = view (record_terminal ?k st s2)" by (rule record_attempt_outcome_view(1) [OF r])
  then have t3: "ls_tracker s3 = ls_tracker s0" by (simp add: view_def s2_def eq(1))
  have ok3: "flight_ok e D [] {#} ((decided s0)(?k := Some st)) s3"
    using l(1) view_flight_ok [OF v] unfolding s2_def by blast
  define s4 where "s4 = (if le_failure_mode e = StopOnFirstFailure \<and> \<not> ls_stopping s3 \<and> is_failure_like st
    then enter_cancellation e (Some FailureUnderStop) False s3 else s3)"
  have t4: "ls_tracker s4 = ls_tracker s0" by (simp add: s4_def t3)
  have ok4: "flight_ok e D [] {#} ((decided s4)(?k := Some st)) s4"
    unfolding t4 using ok3 enter_cancellation_ok [OF ok3] unfolding s4_def by simp
  have "loop_inv e g (notify_and_apply e ?k st s4)"
    using l(2,3) by (intro notify_and_apply_ok [OF ok4]) (simp_all add: t4 g)
  moreover have "settle e d s1 = (let s = notify_and_apply e ?k st s4 in if \<not> ls_draining s then drain_pending e s else s)"
    unfolding settle_def Let_def s2_def [symmetric] r s4_def by simp
  ultimately show ?thesis by (simp add: Let_def drain_pending_inv)
qed

text \<open>A message is taken from the channel.\<close>

lemma fewer_deadlines:
  assumes ok: "flight_ok e D todo hand dec s"
    and v: "view (s'\<lparr>ls_timers := ls_timers s, ls_queue := ls_queue s\<rparr>) = view s" "flight s' = flight s"
    and dl: "deadline_nodes s' \<subseteq> deadline_nodes s"
  shows "flight_ok e D todo hand dec s'"
proof -
  have eq: "ls_tracker s' = ls_tracker s" "ls_terminal s' = ls_terminal s" "ls_pending s' = ls_pending s"
    "ls_timed_out s' = ls_timed_out s" "ls_in_flight s' = ls_in_flight s" "ls_live s' = ls_live s"
    "dispatched s' = dispatched s" "counted_flight s' = counted_flight s"
    using v by (simp_all add: view_def dispatched_def counted_flight_def)
  have "zombie_ok dec s'" using ok dl unfolding flight_ok_def zombie_ok_def eq v(2) by blast
  then show ?thesis using ok unfolding flight_ok_def tracker_ok_def place_ok_def record_ok_def eq v(2) by simp
qed

lemma pop_flight:
  assumes "ls_queue s0 = d # rest"
  shows "flight s0 = flight (s0\<lparr>ls_queue := rest\<rparr>) + (if attempt_message d then {#ad_node d#} else {#})"
    "deadline_nodes (s0\<lparr>ls_queue := rest\<rparr>) \<subseteq> deadline_nodes s0" "dispatched (s0\<lparr>ls_queue := rest\<rparr>) = dispatched s0"
  using assms by (auto simp: flight_def deadline_nodes_def dispatched_def)

lemma pop_other:
  assumes "flight_ok e D todo hand dec s0" "ls_queue s0 = d # rest" "\<not> attempt_message d"
  shows "flight_ok e D todo hand dec (s0\<lparr>ls_queue := rest\<rparr>)"
  using assms(1) pop_flight [OF assms(2)] assms(3)
  by (intro fewer_deadlines [OF assms(1)]) (auto simp: view_def flight_def dispatched_def deadline_nodes_def)

lemma flight_facts:
  assumes ok: "flight_ok e D [] {#} dec s0"
  shows "once (flight s0)" "k \<in># counted_flight s0 \<Longrightarrow> k \<in> keys s0 \<and> dec k = None"
    "k \<in> deadline_nodes s0 \<Longrightarrow> dec k = None \<Longrightarrow> k \<in># counted_flight s0"
    "k \<in> deadline_nodes s0 \<Longrightarrow> k \<in> keys s0" "k \<in> keys s0 \<Longrightarrow> bt_get (ls_terminal s0) k = dec k"
  using ok by (auto simp: flight_ok_def place_ok_def zombie_ok_def record_ok_def counted_flight_def)

lemma late_report_ok:
  assumes ok: "flight_ok e D [] {#} dec s0" and q: "ls_queue s0 = d # rest" and m: "attempt_message d"
    and late: "ad_node d \<in> set (ls_timed_out s0)"
  shows "flight_ok e D [] {#} dec (s0\<lparr>ls_queue := rest, ls_timed_out := removeAll (ad_node d) (ls_timed_out s0)\<rparr>)"
proof -
  let ?k = "ad_node d" and ?s = "s0\<lparr>ls_queue := rest, ls_timed_out := removeAll (ad_node d) (ls_timed_out s0)\<rparr>"
  have fl: "flight s0 = add_mset ?k (flight ?s)" and dl: "deadline_nodes ?s \<subseteq> deadline_nodes s0"
    using q m by (auto simp: flight_def deadline_nodes_def)
  have o: "?k \<notin># flight ?s" "once (flight ?s)" using flight_facts(1) [OF ok] unfolding fl once_add by blast+
  have eq: "ls_tracker ?s = ls_tracker s0" "ls_terminal ?s = ls_terminal s0" "ls_pending ?s = ls_pending s0"
    "ls_in_flight ?s = ls_in_flight s0" "ls_live ?s = ls_live s0" "dispatched ?s = dispatched s0"
    by (simp_all add: dispatched_def)
  have cf: "counted_flight ?s = counted_flight s0"
    using late o(1) unfolding counted_flight_def fl by (auto intro: filter_mset_cong)
  have nd: "?k \<notin> dispatched s0" using o(1) by (auto simp: flight_def dispatched_def)
  have dk: "dec ?k \<noteq> None" using ok late by (simp add: flight_ok_def zombie_ok_def)
  have "zombie_ok dec ?s"
    using ok dl nd dk unfolding flight_ok_def zombie_ok_def eq cf by (auto simp: fl)
  moreover have "place_ok D [] {#} dec ?s" using ok o(2) unfolding flight_ok_def place_ok_def eq cf by blast
  ultimately show ?thesis using ok unfolding flight_ok_def tracker_ok_def record_ok_def eq by blast
qed

lemma mark_frame:
  assumes "mark_unkillable_timeout n cell fate s = (r, s')"
  shows "s' = s\<lparr>ls_fates := ls_fates s', ls_admission := ls_admission s'\<rparr>"
proof -
  have id: "s = s\<lparr>ls_fates := ls_fates s, ls_admission := ls_admission s\<rparr>" by simp
  show ?thesis
    using assms unfolding mark_unkillable_timeout_def Let_def
    by (cases fate) (auto split: prod.splits if_splits option.splits)
qed

lemma handle_done_ok:
  assumes inv: "loop_inv e g s0" and q: "ls_queue s0 = d # rest"
  shows "loop_inv e g (handle_done e d (s0\<lparr>ls_queue := rest\<rparr>))"
proof -
  let ?s = "s0\<lparr>ls_queue := rest\<rparr>" and ?k = "ad_node d"
  obtain D where ok: "flight_ok e D [] {#} (decided s0) s0" and g: "tracker_graph (ls_tracker s0) = g"
    using inv by (auto simp: loop_inv_def)
  have other: "loop_inv e g ?s" if "\<not> attempt_message d"
    using pop_other [OF ok q that] g unfolding loop_inv_def by auto
  note fl = pop_flight [OF q] and facts = flight_facts [OF ok]
  consider (wake) "?k = CANCEL_WAKE_SENTINEL" | (timer) cell fate where "?k \<noteq> CANCEL_WAKE_SENTINEL" "ad_kind d = TimeoutFired cell fate"
    | (late) "attempt_message d" "?k \<in> set (ls_timed_out s0)" | (report) "attempt_message d" "?k \<notin> set (ls_timed_out s0)"
    by (cases "ad_kind d") (auto simp: attempt_message_def)
  then show ?thesis
  proof cases
    case wake
    then have "\<not> attempt_message d" by (simp add: attempt_message_def)
    from enter_cancellation_inv [OF other [OF this]] other [OF this] show ?thesis by (simp add: handle_done_def wake)
  next
    case timer
    have nm: "\<not> attempt_message d" using timer by (simp add: attempt_message_def)
    have k: "?k \<in> deadline_nodes s0" using q timer by (auto simp: deadline_nodes_def)
    show ?thesis
    proof (cases "bt_get (ls_terminal s0) ?k = None")
      case False
      with other [OF nm] timer show ?thesis by (simp add: handle_done_def)
    next
      case True
      obtain r s2 where r: "mark_unkillable_timeout ?k cell fate ?s = (r, s2)" by fastforce
      then have s2: "s2 = ?s\<lparr>ls_fates := ls_fates s2, ls_admission := ls_admission s2\<rparr>" by (rule mark_frame)
      have s2f: "ls_tracker s2 = ls_tracker s0" "ls_terminal s2 = ls_terminal s0" "ls_pending s2 = ls_pending s0"
        "ls_in_flight s2 = ls_in_flight s0" "ls_live s2 = ls_live s0" "ls_timed_out s2 = ls_timed_out s0"
        by (subst s2; simp)+
      have v2: "view s2 = view ?s" by (subst s2) (simp add: view_def flight_def deadline_nodes_def dispatched_def)
      show ?thesis
      proof (cases r)
        case None
        with other [OF nm] timer True r loop_inv_view [OF v2] show ?thesis by (simp add: handle_done_def)
      next
        case (Some marked)
        then have node: "ad_node marked = ?k"
          using r by (auto simp: mark_unkillable_timeout_def done_attempt_def Let_def split: prod.splits if_splits)
        let ?s1 = "s2\<lparr>ls_timed_out := bs_insert ?k (ls_timed_out s2)\<rparr>"
        have dk: "decided s0 ?k = None" using facts(4,5) k True by simp
        then have kc: "?k \<in># counted_flight s0" using facts(3) k by blast
        have f1: "flight ?s1 = flight s0" "dispatched ?s1 = dispatched s0" "deadline_nodes ?s1 = deadline_nodes ?s"
          "ls_timed_out ?s1 = bs_insert ?k (ls_timed_out s0)"
          using fl nm v2 by (simp_all add: view_def s2f) (simp_all add: flight_def dispatched_def deadline_nodes_def)
        have "counted_flight s0 = add_mset ?k (counted_flight ?s1)"
        proof -
          have "counted_flight ?s1 = filter_mset (\<lambda>j. j \<noteq> ?k) (counted_flight s0)"
            unfolding counted_flight_def f1 by (auto simp: filter_filter_mset intro!: filter_mset_cong)
          moreover have "once (counted_flight s0)" using once_mono [OF facts(1)] by (simp add: counted_flight_def)
          moreover obtain M where M: "counted_flight s0 = add_mset ?k M" using kc by (meson multi_member_split)
          moreover have "filter_mset (\<lambda>j. j \<noteq> ?k) M = M" if "?k \<notin># M"
            using that by (induction M) auto
          ultimately show ?thesis by simp
        qed
        moreover have "\<forall>j \<in> set (ls_timed_out ?s1). j \<in># flight ?s1 \<and> j \<in> keys s0 \<and> (j = ?k \<or> decided s0 j \<noteq> None)"
          using ok kc facts(2) [OF kc] unfolding f1 by (auto simp: flight_ok_def zombie_ok_def counted_flight_def)
        moreover have "once (flight ?s1)" "dispatched ?s1 \<subseteq> (dispatched s0 - {?k}) \<union> set (ls_timed_out ?s1)"
          "set (ls_timed_out s0) \<subseteq> set (ls_timed_out ?s1)" "deadline_nodes ?s1 \<subseteq> deadline_nodes s0"
          "set_mset (flight s0) \<subseteq> insert ?k (set_mset (flight ?s1))"
          using facts(1) fl(2) unfolding f1 by auto
        ultimately have "loop_inv e g (settle e marked ?s1)"
          using node by (intro settle_ok [OF ok g]) (simp_all add: s2f)
        then show ?thesis using timer True r Some by (simp add: handle_done_def s2f)
      qed
    qed
  next
    case late
    from late_report_ok [OF ok q late]
    have "loop_inv e g (s0\<lparr>ls_queue := rest, ls_timed_out := removeAll ?k (ls_timed_out s0)\<rparr>)"
      using g unfolding loop_inv_def by auto
    from this drain_pending_inv [OF this] late show ?thesis by (simp add: handle_done_def attempt_message_def Let_def)
  next
    case report
    have cf: "counted_flight s0 = add_mset ?k (counted_flight ?s)"
      using report by (simp add: counted_flight_def fl(1))
    have o: "?k \<notin># flight ?s" "once (flight ?s)" using facts(1) report unfolding fl(1) by simp_all
    have "?k \<notin> dispatched s0" using o(1) by (auto simp: flight_def dispatched_def)
    then have "loop_inv e g (settle e d ?s)"
      using o ok cf fl report
      by (intro settle_ok [OF ok g]) (auto simp: flight_ok_def zombie_ok_def)
    with report show ?thesis by (simp add: handle_done_def attempt_message_def)
  qed
qed

section \<open>Every action keeps the bookkeeping\<close>

lemma reject_all_pinned_inv:
  assumes "loop_inv e g s" shows "loop_inv e g (reject_all_pinned s)"
proof -
  obtain D where ok: "flight_ok e D [] {#} (decided s) s" and g: "tracker_graph (ls_tracker s) = g"
    using assms by (auto simp: loop_inv_def)
  let ?f = "fold reject_zombie_pinned (ls_pending s) (s\<lparr>ls_pending := []\<rparr>)"
  have "flight_ok e D [] (mset (ls_pending s) + {#}) (decided s) (s\<lparr>ls_pending := []\<rparr>)"
    by (rule hand_pending [OF ok]) simp
  then have "flight_ok e D [] {#} (decided s) ?f"
    using put_all_ok pending_names [OF ok] reject_zombie_put by blast
  moreover have "ls_tracker (fold reject_zombie_pinned names x) = ls_tracker x" for names x
    by (induction names arbitrary: x) (simp_all add: reject_zombie_pinned_def)
  ultimately have "loop_inv e g ?f" using g unfolding loop_inv_def by auto
  with loop_inv_view [OF view_updates(8)] show ?thesis unfolding reject_all_pinned_def by blast
qed

lemma loop_inv_updates [simp]:
  "loop_inv e g (s\<lparr>ls_phase := ph\<rparr>) = loop_inv e g s" "loop_inv e g (s\<lparr>ls_zombie_deadline := dl\<rparr>) = loop_inv e g s"
  "loop_inv e g (s\<lparr>ls_now := n\<rparr>) = loop_inv e g s" "loop_inv e g (s\<lparr>ls_fates := fa\<rparr>) = loop_inv e g s"
  "loop_inv e g (s\<lparr>ls_trigger := tr\<rparr>) = loop_inv e g s"
  by (rule loop_inv_view, simp)+

lemma loop_head_inv: "loop_inv e g s \<Longrightarrow> loop_inv e g (loop_head e s)"
  by (simp add: loop_head_def Let_def reject_all_pinned_inv split: option.split)

lemma loop_turn_inv:
  assumes "loop_inv e g s" shows "loop_inv e g (loop_turn e s)"
proof (cases "ls_phase s")
  case AtTop
  then show ?thesis using loop_head_inv [OF assms]
    by (simp add: loop_turn_def Let_def nothing_received_def split: Phase.split option.split)
next
  case (Awaiting bounded)
  then show ?thesis using assms handle_done_ok [OF assms]
    by (simp add: loop_turn_def nothing_received_def split: list.split option.split)
next
  case Left
  with assms show ?thesis by (simp add: loop_turn_def)
qed

lemma attempt_returns_view: "view (attempt_returns k st events reference meta s) = view s"
proof (cases "k < length (ls_running s)")
  case True
  have "map dp_node ((ls_running s)[k := (ls_running s ! k)\<lparr>dp_result := r\<rparr>]) = map dp_node (ls_running s)" for r
    using True by (intro nth_equalityI) (auto simp: nth_list_update)
  moreover from this have "dp_node ` set ((ls_running s)[k := (ls_running s ! k)\<lparr>dp_result := r\<rparr>]) = dp_node ` set (ls_running s)" for r
    by (metis list.set_map)
  ultimately have "view (x\<lparr>ls_running := (ls_running s)[k := (ls_running s ! k)\<lparr>dp_result := r\<rparr>]\<rparr>) = view x"
    if "ls_running x = ls_running s" for x r
    using that by (simp add: view_def flight_def deadline_nodes_def dispatched_def)
  moreover have "ls_running (hold_release h s) = ls_running s" for h
    by (simp add: hold_release_def split: PermitHold.split option.split)
  ultimately show ?thesis by (simp add: attempt_returns_def Let_def)
qed (simp add: attempt_returns_def)

lemma fewer_dispatched:
  assumes ok: "flight_ok e D todo hand dec s"
    and eq: "ls_tracker s' = ls_tracker s" "ls_terminal s' = ls_terminal s" "ls_pending s' = ls_pending s"
      "ls_timed_out s' = ls_timed_out s" "ls_in_flight s' = ls_in_flight s" "ls_live s' = ls_live s" "flight s' = flight s"
    and sub: "dispatched s' \<subseteq> dispatched s" "deadline_nodes s' \<subseteq> deadline_nodes s"
  shows "flight_ok e D todo hand dec s'"
proof -
  have cf: "counted_flight s' = counted_flight s" by (simp add: counted_flight_def eq)
  have "zombie_ok dec s'" using ok sub unfolding flight_ok_def zombie_ok_def eq cf by blast
  then show ?thesis using ok unfolding flight_ok_def tracker_ok_def place_ok_def record_ok_def eq cf by simp
qed

lemma mset_map_remove_nth: "i < length xs \<Longrightarrow> mset (map f xs) = add_mset (f (xs ! i)) (mset (map f (remove_nth i xs)))"
  using mset_remove_nth [of i xs] by simp

lemma set_remove_nth: "set (remove_nth i xs) \<subseteq> set xs"
  by (auto simp: remove_nth_def dest: in_set_takeD in_set_dropD)

lemma attempt_reports_inv:
  assumes "loop_inv e g s" shows "loop_inv e g (attempt_reports k s)"
proof (cases "k < length (ls_running s) \<and> dp_result (ls_running s ! k) \<noteq> None")
  case False
  then show ?thesis using assms by (auto simp: attempt_reports_def)
next
  case True
  then obtain r where r: "dp_result (ls_running s ! k) = Some r" by auto
  obtain D where ok: "flight_ok e D [] {#} (decided s) s" and g: "tracker_graph (ls_tracker s) = g"
    using assms by (auto simp: loop_inv_def)
  let ?n = "dp_node (ls_running s ! k)" and ?s = "s\<lparr>ls_running := remove_nth k (ls_running s)\<rparr>"
  have "?n \<in># flight s" using True by (simp add: flight_def)
  then have "?n \<in> keys s" using ok by (auto simp: flight_ok_def place_ok_def zombie_ok_def counted_flight_def)
  then have "?n \<noteq> CANCEL_WAKE_SENTINEL" using ok by (auto simp: flight_ok_def tracker_ok_def)
  then have "flight (send (report_message ?n r) ?s) = flight s"
    using mset_map_remove_nth [of k "ls_running s" dp_node] True
    by (simp add: flight_send attempt_message_def report_message_def) (simp add: flight_def)
  moreover have "dispatched (send (report_message ?n r) ?s) \<subseteq> dispatched s"
    using set_remove_nth [of k "ls_running s"] by (auto simp: dispatched_def send_def)
  moreover have "deadline_nodes (send (report_message ?n r) ?s) = deadline_nodes s"
    by (simp add: deadline_nodes_send report_message_def) (simp add: deadline_nodes_def)
  ultimately have "flight_ok e D [] {#} (decided s) (send (report_message ?n r) ?s)"
    by (intro fewer_dispatched [OF ok]) simp_all
  then show ?thesis using True r g unfolding loop_inv_def by (auto simp: attempt_reports_def)
qed

lemma timer_fires_inv:
  assumes "loop_inv e g s" shows "loop_inv e g (timer_fires k s)"
proof (cases "k < length (ls_timers s) \<and> tm_due (ls_timers s ! k) \<le> ls_now s")
  case False
  then show ?thesis using assms by (auto simp: timer_fires_def)
next
  case True
  obtain D where ok: "flight_ok e D [] {#} (decided s) s" and g: "tracker_graph (ls_tracker s) = g"
    using assms by (auto simp: loop_inv_def)
  let ?m = "timer_message (ls_timers s ! k)" and ?s = "s\<lparr>ls_timers := remove_nth k (ls_timers s)\<rparr>"
  have "flight (send ?m ?s) = flight s"
    by (simp add: flight_send attempt_message_def timer_message_def) (simp add: flight_def)
  moreover have "dispatched ?s = dispatched s" by (simp add: dispatched_def)
  moreover have "deadline_nodes (send ?m ?s) \<subseteq> deadline_nodes s"
    using True set_remove_nth [of k "ls_timers s"] by (auto simp: deadline_nodes_def timer_message_def send_def)
  ultimately have "flight_ok e D [] {#} (decided s) (send ?m ?s)"
    by (intro fewer_dispatched [OF ok]) simp_all
  then show ?thesis using True g unfolding loop_inv_def by (auto simp: timer_fires_def)
qed

lemma interrupt_inv:
  assumes "loop_inv e g s" shows "loop_inv e g (interrupt s)"
proof -
  define s1 where "s1 = (if ls_trigger s = None then s\<lparr>ls_trigger := Some ExternalInterrupt\<rparr> else s)"
  have "view (interrupt s) = view s1"
    by (simp add: interrupt_def trigger_request_def Let_def s1_def [symmetric] view_def flight_send attempt_message_def
        done_attempt_def deadline_nodes_send)
  also have "view s1 = view s" by (simp add: s1_def)
  finally show ?thesis using assms loop_inv_view by blast
qed

lemma act_inv: "loop_inv e g s \<Longrightarrow> loop_inv e g (act e a s)"
  by (cases a) (simp_all add: loop_turn_inv loop_inv_view [OF attempt_returns_view] attempt_reports_inv timer_fires_inv
      interrupt_inv set_fate_def)

interpretation run_loop: invariant_machine "act e" "loop_inv e g" for e g
  by unfold_locales (rule act_inv)

section \<open>A fresh run\<close>

lemma node_name_tracked:
  assumes "pipeline_wf p" "ids_distinct p" "n \<in> set (tracked_nodes p)"
  shows "node_name p (from_name (pn_name n)) = Some (pn_name n)"
proof -
  have n: "n \<in> set (nodes_of p)" using assms(3) by (simp add: tracked_nodes_def)
  note id = node_id_of_name [OF assms(1)]
  from n id [OF n] have "node_by_id p (from_name (pn_name n)) \<noteq> None"
    unfolding node_by_id_None by force
  then obtain m where m: "node_by_id p (from_name (pn_name n)) = Some m" by auto
  from node_by_id_Some [OF m] have "m \<in> set (nodes_of p)" "pn_id m = from_name (pn_name n)" by auto
  with id [OF this(1)] n names_inj [OF assms(1,2)] have "pn_name m = pn_name n"
    by (auto simp: names_of_def inj_on_def)
  with m show ?thesis by (simp add: node_name_def)
qed

definition fresh_run ::
  "LoopEnv \<Rightarrow> AssemblyArtifact \<Rightarrow> (string, string list) btree \<Rightarrow> Inner \<Rightarrow> (string, nat option) btree
     \<Rightarrow> FateState list \<Rightarrow> instant \<Rightarrow> Event list \<Rightarrow> Action list \<Rightarrow> LoopState" where
  "fresh_run e a ords adm runners fates now events acts =
     fold (act e) acts (loop_start e []
       (initial_loop_state (new_with_ordering (le_pipeline e) a ords) adm runners fates None now events))"

lemma initial_fields:
  "ls_tracker (initial_loop_state t adm runners fates tr now evs) = t" "ls_terminal (initial_loop_state t adm runners fates tr now evs) = []"
  "ls_pending (initial_loop_state t adm runners fates tr now evs) = []" "ls_timed_out (initial_loop_state t adm runners fates tr now evs) = []"
  "ls_in_flight (initial_loop_state t adm runners fates tr now evs) = 0" "ls_live (initial_loop_state t adm runners fates tr now evs) = []"
  "flight (initial_loop_state t adm runners fates tr now evs) = {#}" "dispatched (initial_loop_state t adm runners fates tr now evs) = {}"
  "deadline_nodes (initial_loop_state t adm runners fates tr now evs) = {}"
  by (simp_all add: initial_loop_state_def flight_def dispatched_def deadline_nodes_def split: prod.split)

lemma offer_initial_ok:
  assumes "flight_ok e D (map Decision.Ready is) {#} dec s"
  shows "flight_ok e D [] {#} dec (fold (offer_initial e) is s)
    \<and> ls_tracker (fold (offer_initial e) is s) = ls_tracker s"
  using assms
proof (induction "is" arbitrary: s)
  case (Cons i "is")
  have ok: "flight_ok e D (Decision.Ready i # map Decision.Ready is) {#} dec s" using Cons.prems by simp
  from todo_key [OF ok] obtain k where k: "k \<in> keys s" "i = from_name k" by auto
  have "offer_initial e i s = (if bt_get (ls_terminal s) k \<noteq> None then s else offer_or_pend e k s)"
    using known_key(1) [OF ok k(1)] by (simp add: offer_initial_def k(2))
  moreover from this offer_ready_ok(2) [OF ok [unfolded k(2)] k(1)] have
    "flight_ok e D (map Decision.Ready is) {#} dec (offer_initial e i s)" by simp
  ultimately show ?case using Cons.IH by simp
qed simp

text \<open>The pipelines a run is proved right for.\<close>

definition runnable :: "LoopEnv \<Rightarrow> AssemblyArtifact \<Rightarrow> (string, string list) btree \<Rightarrow> bool" where
  "runnable e a ords \<longleftrightarrow> trackable (le_pipeline e) ords
     \<and> aa_remaining_deps a = precompute_remaining_deps (le_pipeline e)
     \<and> (\<forall>n \<in> set (nodes_of (le_pipeline e)). pn_name n \<noteq> CANCEL_WAKE_SENTINEL)"

lemma fresh_tracker:
  assumes "runnable e a ords"
  defines "t \<equiv> new_with_ordering (le_pipeline e) a ords"
  shows "session_ok (t, [])" "keys_of (rt_nodes t) = pn_name ` set (tracked_nodes (le_pipeline e))"
    "n \<in> set (tracked_nodes (le_pipeline e)) \<Longrightarrow> ups_of (rt_nodes t) (pn_name n) = set (upstream_names (le_pipeline e) ords n)"
    "decided_as (rt_nodes t) k = None"
proof -
  have tr: "trackable (le_pipeline e) ords" and a: "aa_remaining_deps a = precompute_remaining_deps (le_pipeline e)"
    using assms by (simp_all add: runnable_def)
  have wf: "pipeline_wf (le_pipeline e)" using tr by (simp add: trackable_def)
  show "session_ok (t, [])" unfolding t_def by (rule fresh_session_ok [OF tr a])
  note fresh = fresh_nodes [where a = a and ords = ords, OF wf, folded t_def]
  show keys: "keys_of (rt_nodes t) = pn_name ` set (tracked_nodes (le_pipeline e))" by (rule fresh(2))
  show "ups_of (rt_nodes t) (pn_name n) = set (upstream_names (le_pipeline e) ords n)"
    if "n \<in> set (tracked_nodes (le_pipeline e))"
    unfolding t_def by (rule fresh_ups [OF tr that])
  show "decided_as (rt_nodes t) k = None"
  proof (cases "k \<in> keys_of (rt_nodes t)")
    case True
    then obtain n where n: "n \<in> set (tracked_nodes (le_pipeline e))" "k = pn_name n" using keys by auto
    then show ?thesis using fresh(3) [OF n(1)] by (simp add: decided_as_def initial_state_def Let_def)
  next
    case False
    then show ?thesis by (auto simp: decided_as_def keys_of_get split: option.split)
  qed
qed

lemma loop_start_inv:
  assumes run: "runnable e a ords"
  defines "t \<equiv> new_with_ordering (le_pipeline e) a ords"
  shows "loop_inv e (tracker_graph t) (loop_start e [] (initial_loop_state t adm runners fates tr now evs))"
proof -
  let ?s = "initial_loop_state t adm runners fates tr now evs" and ?todo = "map Decision.Ready (rt_initial_ready t)"
  note f = fresh_tracker [OF run, folded t_def]
  have loop: "loop_ok (rt_initial_ready t) (rt_nodes t) (rt_pending t) [] []" using f(1) by (simp add: session_ok_def)
  have p: "pipeline_wf (le_pipeline e)" "ids_distinct (le_pipeline e)"
    using run by (simp_all add: runnable_def trackable_def)
  have "node_name (le_pipeline e) (from_name k) = Some k \<and> k \<noteq> CANCEL_WAKE_SENTINEL" if "k \<in> keys_of (rt_nodes t)" for k
    using that node_name_tracked [OF p] run unfolding f(2) runnable_def by (auto simp: tracked_nodes_def)
  moreover have "distinct (map decision_node ?todo)" using loop_okD(5) [OF loop] by (simp add: comp_def)
  ultimately have "tracker_ok e [] ?todo (decided ?s) ?s"
    using f(1,4) by (simp add: tracker_ok_def initial_fields ready_of_tracker_def)
  moreover have "place_ok [] ?todo {#} (decided ?s) ?s"
    by (auto simp: place_ok_def initial_fields counted_flight_def ready_of_tracker_def)
  moreover have "record_ok ?todo (decided ?s) ?s" using f(4) by (auto simp: record_ok_def initial_fields)
  moreover have "zombie_ok (decided ?s) ?s" by (simp add: zombie_ok_def initial_fields)
  ultimately have "flight_ok e [] ?todo {#} (decided ?s) ?s" by (simp add: flight_ok_def)
  from offer_initial_ok [OF this] show ?thesis
    unfolding loop_inv_def loop_start_def by (auto simp: initial_fields Let_def)
qed

lemma fresh_run_inv:
  assumes "runnable e a ords"
  shows "loop_inv e (tracker_graph (new_with_ordering (le_pipeline e) a ords)) (fresh_run e a ords adm runners fates now evs acts)"
  unfolding fresh_run_def by (rule run_loop.run_inv [OF loop_start_inv [OF assms]])

end
