(* ===== verification/Driver_Run.thy ===== *)
theory Driver_Run
  imports Driver_Loop
begin

text \<open>
  What a run of the loop guarantees: once it stops no ordinary node is started, once it drains nothing
  is; a recorded terminal state and the first cancellation origin stay; an interrupt ends it within the
  grace period whatever the tasks do; a loop that left without draining has a terminal state for every
  node, so a run that exits with success ran every node.  The last section holds the runs that carry
  nodes over from a prior one.
\<close>

section \<open>What the helpers of the loop leave alone\<close>

definition named :: "LoopEnv \<Rightarrow> bool" where
  "named e \<longleftrightarrow> (\<forall>n \<in> set (nodes_of (le_pipeline e)). pn_name n \<noteq> CANCEL_WAKE_SENTINEL)"

abbreviation default_rule :: "LoopEnv \<Rightarrow> string \<Rightarrow> bool" where
  "default_rule e \<equiv> is_default_rule_node (le_pipeline e)"

text \<open>Who may wait, and what a wake in the channel means.\<close>

definition calm :: "LoopEnv \<Rightarrow> LoopState \<Rightarrow> bool" where
  "calm e s \<longleftrightarrow> CANCEL_WAKE_SENTINEL \<notin> set (ls_pending s) \<union> dispatched s \<union> tm_node ` set (ls_timers s)
     \<and> (ls_stopping s \<longrightarrow> (\<forall>k \<in> set (ls_pending s). \<not> default_rule e k))
     \<and> (ls_draining s \<longrightarrow> ls_stopping s \<and> ls_pending s = [] \<and> ls_origin s \<noteq> None \<and> ls_drain_deadline s \<noteq> None)
     \<and> (CANCEL_WAKE_SENTINEL \<in> ad_node ` set (ls_queue s) \<longrightarrow> ls_trigger s \<noteq> None)"

definition moves :: "LoopEnv \<Rightarrow> LoopState \<Rightarrow> LoopState \<Rightarrow> bool" where
  "moves e s s' \<longleftrightarrow> ls_trigger s' = ls_trigger s \<and> ls_now s' = ls_now s \<and> ls_phase s' = ls_phase s
     \<and> (\<exists>new. ls_queue s' = ls_queue s @ new \<and> CANCEL_WAKE_SENTINEL \<notin> ad_node ` set new)
     \<and> (ls_stopping s \<longrightarrow> ls_stopping s' \<and> dispatched s' \<subseteq> dispatched s \<union> {k. \<not> default_rule e k})
     \<and> (ls_draining s \<longrightarrow> ls_draining s' \<and> ls_drain_deadline s' = ls_drain_deadline s \<and> dispatched s' \<subseteq> dispatched s)
     \<and> (ls_draining s' \<longrightarrow> ls_draining s \<or> ls_drain_deadline s' = Some (ls_now s + le_grace e))
     \<and> (ls_origin s \<noteq> None \<longrightarrow> ls_origin s' = ls_origin s)
     \<and> (\<forall>k x. bt_get (ls_terminal s) k = Some x \<longrightarrow> bt_get (ls_terminal s') k = Some x)"

text \<open>A helper keeps the first and makes the second.\<close>

definition tame :: "LoopEnv \<Rightarrow> LoopState \<Rightarrow> LoopState \<Rightarrow> bool" where
  "tame e s s' \<longleftrightarrow> (calm e s \<longrightarrow> calm e s' \<and> moves e s s')"

lemma moves_trans:
  assumes a: "moves e s s1" and b: "moves e s1 s2" shows "moves e s s2"
proof -
  obtain new1 new2 where
    "ls_queue s1 = ls_queue s @ new1 \<and> CANCEL_WAKE_SENTINEL \<notin> ad_node ` set new1"
    "ls_queue s2 = ls_queue s1 @ new2 \<and> CANCEL_WAKE_SENTINEL \<notin> ad_node ` set new2"
    using a b unfolding moves_def by blast
  then have "ls_queue s2 = ls_queue s @ (new1 @ new2) \<and> CANCEL_WAKE_SENTINEL \<notin> ad_node ` set (new1 @ new2)" by auto
  then have "\<exists>new. ls_queue s2 = ls_queue s @ new \<and> CANCEL_WAKE_SENTINEL \<notin> ad_node ` set new" by blast
  moreover have "ls_stopping s \<longrightarrow> ls_stopping s2 \<and> dispatched s2 \<subseteq> dispatched s \<union> {k. \<not> default_rule e k}"
    using a b unfolding moves_def by blast
  moreover have "ls_draining s \<longrightarrow> ls_draining s2 \<and> ls_drain_deadline s2 = ls_drain_deadline s \<and> dispatched s2 \<subseteq> dispatched s"
    using a b unfolding moves_def by auto
  moreover have "ls_draining s2 \<longrightarrow> ls_draining s \<or> ls_drain_deadline s2 = Some (ls_now s + le_grace e)"
    using a b unfolding moves_def by (cases "ls_draining s1") auto
  moreover have "ls_origin s \<noteq> None \<longrightarrow> ls_origin s2 = ls_origin s" using a b unfolding moves_def by metis
  moreover have "\<forall>k x. bt_get (ls_terminal s) k = Some x \<longrightarrow> bt_get (ls_terminal s2) k = Some x"
    using a b unfolding moves_def by blast
  moreover have "ls_trigger s2 = ls_trigger s \<and> ls_now s2 = ls_now s \<and> ls_phase s2 = ls_phase s"
    using a b unfolding moves_def by metis
  ultimately show ?thesis unfolding moves_def by blast
qed

lemma tame_trans: "tame e s s1 \<Longrightarrow> tame e s1 s2 \<Longrightarrow> tame e s s2"
  unfolding tame_def using moves_trans by blast

lemma tame_refl [simp]: "tame e s s"
  by (simp add: tame_def moves_def)

text \<open>Steps that touch nothing of this.\<close>

definition same_course :: "LoopState \<Rightarrow> LoopState \<Rightarrow> bool" where
  "same_course s s' \<longleftrightarrow> ls_pending s' = ls_pending s \<and> ls_running s' = ls_running s \<and> ls_timers s' = ls_timers s
     \<and> ls_queue s' = ls_queue s \<and> ls_stopping s' = ls_stopping s \<and> ls_draining s' = ls_draining s
     \<and> ls_drain_deadline s' = ls_drain_deadline s \<and> ls_origin s' = ls_origin s \<and> ls_trigger s' = ls_trigger s
     \<and> ls_now s' = ls_now s \<and> ls_phase s' = ls_phase s
     \<and> (\<forall>k x. bt_get (ls_terminal s) k = Some x \<longrightarrow> bt_get (ls_terminal s') k = Some x)"

lemma same_course_tame: "same_course s s' \<Longrightarrow> tame e s s'"
  by (simp add: same_course_def tame_def calm_def moves_def dispatched_def)

lemma same_course_trans: "same_course s s1 \<Longrightarrow> same_course s1 s2 \<Longrightarrow> same_course s s2"
  by (simp add: same_course_def)

lemma bt_get_insert_other: "j \<noteq> k \<Longrightarrow> bt_get (bt_insert k v m) j = bt_get m j"
  by (induction k v m rule: bt_insert.induct) (auto simp: bt_get_def)

lemma terminal_or_insert_keeps: "bt_get m j = Some x \<Longrightarrow> bt_get (terminal_or_insert k v m) j = Some x"
  by (cases "j = k") (simp_all add: terminal_or_insert_def bt_get_insert_other split: option.split)

lemma same_course_small:
  "same_course s s" "same_course s (write_log ev s)" "same_course s (push_zombie n a s)" "same_course s (record_terminal n x s)"
  "same_course s (s\<lparr>ls_tracker := t\<rparr>)" "same_course s (s\<lparr>ls_admission := adm\<rparr>)" "same_course s (s\<lparr>ls_fates := fa\<rparr>)"
  "same_course s (s\<lparr>ls_timed_out := ks\<rparr>)" "same_course s (s\<lparr>ls_in_flight := i, ls_live := ks\<rparr>)"
  "same_course s (s\<lparr>ls_produced := pr\<rparr>)" "same_course s (s\<lparr>ls_zombie_deadline := dl\<rparr>)"
  by (simp_all add: same_course_def write_log_def push_zombie_def record_terminal_def terminal_or_insert_keeps)

lemma tame_send:
  assumes "ad_node d \<noteq> CANCEL_WAKE_SENTINEL" shows "tame e s (send d s)"
proof -
  have "dispatched (send d s) = dispatched s" by simp
  moreover have "ls_queue (send d s) = ls_queue s @ [d]" by simp
  ultimately show ?thesis using assms by (simp add: tame_def calm_def moves_def) (simp add: send_def)
qed

lemma tame_count_in: "tame e s (count_in s)"
  by (simp add: tame_def calm_def moves_def) (simp add: count_in_def)

lemma node_name_named: "named e \<Longrightarrow> node_name (le_pipeline e) i = Some name \<Longrightarrow> name \<noteq> CANCEL_WAKE_SENTINEL"
  using node_by_id_Some by (fastforce simp: named_def node_name_def)

lemma tame_put_message: "name \<noteq> CANCEL_WAKE_SENTINEL \<Longrightarrow> tame e s (count_in (send (terminal_message name st) s))"
  by (rule tame_trans [OF tame_send tame_count_in]) (simp add: terminal_message_def done_attempt_def)

lemma tame_cancel_node: "name \<noteq> CANCEL_WAKE_SENTINEL \<Longrightarrow> tame e s (cancel_node name s)"
  by (simp add: cancel_node_def tame_put_message)

lemma tame_fold:
  assumes "\<And>x s. x \<in> set xs \<Longrightarrow> tame e s (f x s)" shows "tame e s (fold f xs s)"
  using assms
proof (induction xs arbitrary: s)
  case (Cons x xs)
  have "tame e s (f x s)" "tame e (f x s) (fold f xs (f x s))" using Cons by auto
  then show ?case using tame_trans by fastforce
qed simp

text \<open>A node is started: not when the run drains, and an ordinary node not when it stops.\<close>

definition may_start :: "LoopEnv \<Rightarrow> string \<Rightarrow> LoopState \<Rightarrow> bool" where
  "may_start e name s \<longleftrightarrow> name \<noteq> CANCEL_WAKE_SENTINEL \<and> \<not> ls_draining s \<and> (ls_stopping s \<longrightarrow> \<not> default_rule e name)"

lemma arm_course:
  assumes "arm_unkillable_deadline e name class fate permit s = (hold, s1)"
  shows "same_course (s\<lparr>ls_timers := ls_timers s1\<rparr>) s1" "tm_node ` set (ls_timers s1) \<subseteq> insert name (tm_node ` set (ls_timers s))"
  using assms by (auto simp: arm_unkillable_deadline_def Let_def same_course_def split: option.splits if_splits)

lemma tame_timers:
  assumes "may_start e name s" "tm_node ` set ts \<subseteq> insert name (tm_node ` set (ls_timers s))"
  shows "tame e s (s\<lparr>ls_timers := ts\<rparr>)"
proof -
  have "CANCEL_WAKE_SENTINEL \<notin> tm_node ` set (ls_timers s) \<Longrightarrow> CANCEL_WAKE_SENTINEL \<notin> tm_node ` set ts"
    using assms unfolding may_start_def by blast
  then show ?thesis by (simp add: tame_def calm_def moves_def dispatched_def)
qed

lemma tame_start:
  assumes "may_start e name s" "dp_node dp = name"
  shows "tame e s (s\<lparr>ls_flags := fl, ls_running := ls_running s @ [dp]\<rparr>)"
  using assms by (auto simp: tame_def calm_def moves_def dispatched_def may_start_def)

lemma tame_admit:
  assumes "may_start e name s"
  shows "tame e s (admit e name permit s)"
proof (cases "bt_get (ls_runners s) name")
  case None
  have "admit e name permit s =
      send (done_attempt name Failed []) ((write_log (EvNodeReady name) s)\<lparr>ls_admission := permit_drop permit (ls_admission s)\<rparr>)"
    by (simp add: admit_def None write_log_def)
  moreover have "tame e s ((write_log (EvNodeReady name) s)\<lparr>ls_admission := permit_drop permit (ls_admission s)\<rparr>)"
    by (rule same_course_tame) (simp add: same_course_def write_log_def)
  moreover have "ad_node (done_attempt name Failed []) \<noteq> CANCEL_WAKE_SENTINEL"
    using assms by (simp add: may_start_def done_attempt_def)
  ultimately show ?thesis using tame_trans [OF _ tame_send] by simp
next
  case (Some fate)
  define s0 where "s0 = (write_log (EvNodeReady name) s)
    \<lparr>ls_runners := bt_remove name (ls_runners s), ls_live := bs_insert name (ls_live s)\<rparr>"
  define cls where "cls = (case node_by_id (le_pipeline e) (from_name name) of
      None \<Rightarrow> AwaitBound | Some n \<Rightarrow> effective_class n)"
  obtain hold s1 where arm: "arm_unkillable_deadline e name cls fate permit s0 = (hold, s1)" by fastforce
  obtain child fl where child: "source_child (ls_cancel s1) (ls_flags s1) = (child, fl)" by fastforce
  have eq: "admit e name permit s = s1\<lparr>ls_flags := fl, ls_running := ls_running s1 @
      [\<lparr>dp_node = name, dp_hold = hold, dp_signal = source_signal child, dp_result = None\<rparr>]\<rparr>"
    using Some arm child by (simp add: admit_def Let_def s0_def cls_def write_log_def)
  have s0: "same_course s s0" by (simp add: s0_def same_course_def write_log_def)
  note a = arm_course [OF arm]
  have "may_start e name s0" using s0 assms by (simp add: same_course_def may_start_def)
  from tame_trans [OF same_course_tame [OF s0] tame_trans [OF tame_timers [OF this a(2)] same_course_tame [OF a(1)]]]
  have "tame e s s1" .
  moreover have "may_start e name s1" using s0 a(1) assms by (simp add: same_course_def may_start_def)
  ultimately show ?thesis using tame_trans tame_start unfolding eq by fastforce
qed

lemma tame_pend:
  assumes "may_start e name s" shows "tame e s (s\<lparr>ls_pending := ls_pending s @ [name]\<rparr>)"
  using assms by (auto simp: tame_def calm_def moves_def dispatched_def may_start_def)

lemma tame_offer:
  assumes "may_start e name s" shows "tame e s (offer_or_pend e name s)"
proof -
  obtain r adm where r: "try_admit name (declared_cost e name) (ls_admission s) = (r, adm)" by fastforce
  have name: "name \<noteq> CANCEL_WAKE_SENTINEL" using assms by (simp add: may_start_def)
  show ?thesis
  proof (cases r)
    case (Some permit)
    have "may_start e name (s\<lparr>ls_admission := adm\<rparr>)" using assms by (simp add: may_start_def)
    from tame_trans [OF same_course_tame [OF same_course_small(6)] tame_trans [OF tame_admit [OF this] tame_count_in]]
    show ?thesis by (simp add: offer_or_pend_def r Some Let_def)
  next
    case None
    show ?thesis
    proof (cases "can_ever_fit adm (declared_cost e name)")
      case True
      then have "offer_or_pend e name s = s\<lparr>ls_pending := ls_pending s @ [name]\<rparr>"
        by (simp add: offer_or_pend_def r None Let_def)
      with tame_pend [OF assms] show ?thesis by metis
    next
      case False
      then have "offer_or_pend e name s = count_in (send (terminal_message name Failed) s)"
        by (simp add: offer_or_pend_def r None Let_def reject_over_demand_def)
      with tame_put_message [OF name] show ?thesis by metis
    qed
  qed
qed

lemma tame_kept:
  assumes "set kept \<subseteq> set (ls_pending s)" shows "tame e s (s\<lparr>ls_pending := kept\<rparr>)"
  using assms by (auto simp: tame_def calm_def moves_def dispatched_def)

lemma tame_drain_pending: "tame e s (drain_pending_at e i s)"
proof (induction e i s rule: drain_pending_at.induct)
  case (1 e i s)
  let ?name = "ls_pending s ! i"
  show ?case
  proof (cases "i < length (ls_pending s)")
    case False
    then show ?thesis by (subst drain_pending_at.simps) simp
  next
    case True
    obtain r adm where r: "try_admit ?name (declared_cost e ?name) (ls_admission s) = (r, adm)" by fastforce
    show ?thesis
    proof (cases r)
      case None
      then show ?thesis
        using True r "1.IH"(1) [OF True refl refl r [symmetric] None] by (subst drain_pending_at.simps) (simp add: Let_def)
    next
      case (Some permit)
      define s1 where "s1 = s\<lparr>ls_admission := adm, ls_pending := remove_nth i (ls_pending s)\<rparr>"
      have "tame e s (count_in (admit e ?name permit s1))"
      proof (cases "calm e s")
        case c: True
        have n: "?name \<in> set (ls_pending s)" using True by simp
        then have "may_start e ?name s1"
          using c unfolding calm_def may_start_def s1_def by fastforce
        moreover have "tame e s s1"
          unfolding s1_def using set_remove_nth
          by (intro tame_trans [OF same_course_tame [OF same_course_small(6)] tame_kept]) simp
        ultimately show ?thesis using tame_trans tame_admit tame_count_in by blast
      qed (simp add: tame_def)
      then show ?thesis
        using True r Some tame_trans [OF _ "1.IH"(2) [OF True refl refl r [symmetric] Some]]
        by (subst drain_pending_at.simps) (simp add: Let_def s1_def)
    qed
  qed
qed

lemma tame_apply_decision:
  assumes "named e" shows "tame e s (apply_decision e d s)"
proof (cases d)
  case (Ready i)
  show ?thesis
  proof (cases "node_name (le_pipeline e) i")
    case None
    then show ?thesis by (simp add: apply_decision_def Ready)
  next
    case (Some name)
    note n = node_name_named [OF assms Some]
    have "tame e s (offer_or_pend e name s)" if "\<not> (ls_draining s \<or> ls_stopping s \<and> default_rule e name)"
      using that n by (intro tame_offer) (simp add: may_start_def)
    with tame_cancel_node [OF n] show ?thesis by (simp add: apply_decision_def Ready Some)
  qed
next
  case (PropagatedTerminal i x orig)
  show ?thesis
  proof (cases "node_name (le_pipeline e) i")
    case None
    then show ?thesis by (simp add: apply_decision_def PropagatedTerminal)
  next
    case (Some name)
    have "same_course s (record_terminal name x (write_log ev s))" for ev
      using same_course_trans [OF same_course_small(2) same_course_small(4)] .
    with same_course_trans [OF this same_course_small(3)] show ?thesis
      by (simp add: apply_decision_def PropagatedTerminal Some Let_def same_course_tame del: record_terminal_write_log)
  qed
qed

lemma tame_notify: "named e \<Longrightarrow> tame e s (notify_and_apply e k st s)"
proof -
  assume n: "named e"
  obtain t ds where r: "notify_terminal (from_name k) st (ls_tracker s) = (t, ds)" by fastforce
  have "tame e s (s\<lparr>ls_tracker := t\<rparr>)" by (rule same_course_tame [OF same_course_small(5)])
  from tame_trans [OF this tame_fold [OF tame_apply_decision [OF n]]] show ?thesis
    by (simp add: notify_and_apply_def r apply_decisions_def)
qed

lemma tame_cancel_all: "CANCEL_WAKE_SENTINEL \<notin> set names \<Longrightarrow> tame e s (cancel_all names s)"
  unfolding cancel_all_def by (rule tame_fold) (metis tame_cancel_node)

lemma tame_cancel_some:
  assumes "set names \<union> set kept \<subseteq> set (ls_pending s)"
  shows "tame e s (cancel_all names (s\<lparr>ls_pending := kept\<rparr>))"
proof (cases "calm e s")
  case True
  then have "CANCEL_WAKE_SENTINEL \<notin> set names" using assms unfolding calm_def by blast
  with assms show ?thesis using tame_trans [OF tame_kept tame_cancel_all] by fastforce
qed (simp add: tame_def)

lemma tame_stop:
  "tame e s (cancel_pending_default_nodes e (s\<lparr>ls_stopping := True\<rparr>))" if "\<not> ls_stopping s"
proof (cases "calm e s")
  case c: True
  let ?D = "default_rule e"
  define s1 where "s1 = s\<lparr>ls_stopping := True, ls_pending := filter (Not \<circ> ?D) (ls_pending s)\<rparr>"
  have "\<not> ls_draining s" using c that unfolding calm_def by blast
  then have "tame e s s1" using c that by (auto simp: tame_def calm_def moves_def dispatched_def s1_def)
  moreover have "CANCEL_WAKE_SENTINEL \<notin> set (filter ?D (ls_pending s))" using c unfolding calm_def by auto
  ultimately have "tame e s (cancel_all (filter ?D (ls_pending s)) s1)" using tame_trans tame_cancel_all by blast
  moreover have "cancel_pending_default_nodes e (s\<lparr>ls_stopping := True\<rparr>) = cancel_all (filter ?D (ls_pending s)) s1"
    by (simp add: cancel_pending_default_nodes_def Let_def partition_filter_conv s1_def)
  ultimately show ?thesis by simp
qed (simp add: tame_def)

lemma cancel_all_fields [simp]:
  "ls_pending (cancel_all names s) = ls_pending s" "ls_stopping (cancel_all names s) = ls_stopping s"
  "ls_origin (cancel_all names s) = ls_origin s" "ls_draining (cancel_all names s) = ls_draining s"
  "ls_now (cancel_all names s) = ls_now s" "ls_drain_deadline (cancel_all names s) = ls_drain_deadline s"
  unfolding cancel_all_def
  by (induction names arbitrary: s) (simp_all add: cancel_node_def count_in_def send_def)

lemma calm_drained:
  "calm e s \<Longrightarrow> ls_pending s = [] \<Longrightarrow> ls_stopping s \<Longrightarrow> ls_origin s \<noteq> None \<Longrightarrow>
     calm e (s\<lparr>ls_draining := True, ls_drain_deadline := Some t\<rparr>)"
  by (simp add: calm_def dispatched_def)

lemma moves_drained:
  "moves e s s' \<Longrightarrow> \<not> ls_draining s \<Longrightarrow>
     moves e s (s'\<lparr>ls_draining := True, ls_drain_deadline := Some (ls_now s + le_grace e)\<rparr>)"
  by (simp add: moves_def dispatched_def)

lemma tame_enter_cancellation:
  assumes "full \<longrightarrow> orig \<noteq> None \<and> \<not> ls_draining s"
  shows "tame e s (enter_cancellation e orig full s)"
proof (cases "calm e s")
  case c: True
  define s1 where "s1 = (let s = (if ls_origin s = None then s\<lparr>ls_origin := orig\<rparr> else s)
      in s\<lparr>ls_flags := source_cancel (ls_cancel s) (ls_flags s)\<rparr>)"
  define s2 where "s2 = (if \<not> ls_stopping s1 then cancel_pending_default_nodes e (s1\<lparr>ls_stopping := True\<rparr>) else s1)"
  have t1: "tame e s s1" by (auto simp: tame_def calm_def moves_def dispatched_def s1_def Let_def)
  then have t2: "tame e s s2" using tame_trans tame_stop unfolding s2_def by fastforce
  show ?thesis
  proof (cases full)
    case False
    then have "enter_cancellation e orig full s = s2"
      by (simp add: enter_cancellation_def s2_def s1_def Let_def)
    with t2 show ?thesis by simp
  next
    case True
    define d :: "LoopState \<Rightarrow> LoopState"
      where "d = (\<lambda>x. x\<lparr>ls_draining := True, ls_drain_deadline := Some (ls_now s + le_grace e)\<rparr>)"
    have "cancel_node n (d x) = d (cancel_node n x)" for n x
      by (simp add: d_def cancel_node_def count_in_def send_def)
    then have ca: "cancel_all ns (d x) = d (cancel_all ns x)" for ns x
      unfolding cancel_all_def by (induction ns arbitrary: x) simp_all
    have stop: "cancel_pending_default_nodes e ((d x)\<lparr>ls_stopping := True\<rparr>) = d (cancel_pending_default_nodes e (x\<lparr>ls_stopping := True\<rparr>))" for x
    proof -
      have "(d x)\<lparr>ls_stopping := True, ls_pending := ks\<rparr> = d (x\<lparr>ls_stopping := True, ls_pending := ks\<rparr>)" for ks
        by (simp add: d_def)
      then show ?thesis by (simp add: cancel_pending_default_nodes_def Let_def ca split: prod.split) (simp add: d_def)
    qed
    have dp: "ls_pending (d x) = ls_pending x" "(d x)\<lparr>ls_pending := []\<rparr> = d (x\<lparr>ls_pending := []\<rparr>)"
      "ls_stopping (d x) = ls_stopping x" for x by (simp_all add: d_def)
    define s3 where "s3 = cancel_all (ls_pending s2) (s2\<lparr>ls_pending := []\<rparr>)"
    have "enter_cancellation e orig full s = (let x = d s1; x = (if \<not> ls_stopping x then cancel_pending_default_nodes e (x\<lparr>ls_stopping := True\<rparr>) else x)
        in cancel_all (ls_pending x) (x\<lparr>ls_pending := []\<rparr>))"
      using True by (simp add: enter_cancellation_def s1_def d_def Let_def)
    also have "\<dots> = (let x = d s2 in cancel_all (ls_pending x) (x\<lparr>ls_pending := []\<rparr>))"
      unfolding s2_def Let_def stop dp(3) by (simp add: dp)
    finally have eq: "enter_cancellation e orig full s = d s3" by (simp add: s3_def Let_def dp ca)
    have t3: "tame e s s3" unfolding s3_def by (rule tame_trans [OF t2 tame_cancel_some]) simp
    have "ls_origin s1 \<noteq> None" using assms True by (simp add: s1_def Let_def)
    then have p3: "ls_pending s3 = []" "ls_stopping s3" "ls_origin s3 \<noteq> None"
      by (auto simp: s3_def s2_def cancel_pending_default_nodes_def Let_def)
    show ?thesis
      using t3 c assms True unfolding eq tame_def by (simp add: calm_drained moves_drained d_def p3)
  qed
qed (simp add: tame_def)

section \<open>Settling and receiving\<close>

lemma course_record_event:
  "record_event e d b consumed ev (s, n) = (s', n') \<Longrightarrow> same_course s s'"
  by (auto simp: record_event_def Let_def same_course_def write_log_def write_attempt_event_def split: if_splits option.splits bool.splits)

lemma course_record_events:
  "fold (record_event e d b consumed) evs (s, n) = (s', n') \<Longrightarrow> same_course s s'"
proof (induction evs arbitrary: s n)
  case (Cons ev evs)
  obtain s1 n1 where r: "record_event e d b consumed ev (s, n) = (s1, n1)" by fastforce
  with Cons have "same_course s1 s'" by simp
  with same_course_trans course_record_event [OF r] show ?case by blast
qed (simp add: same_course_small)

lemma course_record_attempt_outcome: "same_course s (snd (record_attempt_outcome e d s))"
proof -
  define b where "b = (ls_draining s \<and> bt_get (ls_terminal s) (ad_node d) = None)"
  define consumed where "consumed = consumed_inputs_for (le_pipeline e) (ad_node d) (ls_produced s)"
  obtain s1 n1 where f: "fold (record_event e d b consumed) (ad_events d) (s, 1) = (s1, n1)" by fastforce
  have c1: "same_course s s1" by (rule course_record_events [OF f])
  have log: "same_course s (write_log ev x)" "same_course s (push_zombie n a x)" "same_course s (record_terminal n y x)"
    if "same_course s x" for ev x n a y
    using that same_course_trans same_course_small(2,3,4) by blast+
  show ?thesis
    unfolding record_attempt_outcome_def b_def [symmetric] consumed_def [symmetric] Let_def f prod.case
    using c1 by (cases b) (auto intro!: log simp del: record_terminal_write_log)
qed

lemma tame_settle:
  assumes "named e" shows "tame e s (settle e d s)"
proof -
  define s1 where "s1 = s\<lparr>ls_in_flight := ls_in_flight s - 1, ls_live := removeAll (ad_node d) (ls_live s)\<rparr>"
  obtain st s2 where r: "record_attempt_outcome e d s1 = (st, s2)" by fastforce
  have "same_course s s2"
    using same_course_trans [OF same_course_small(9) course_record_attempt_outcome] r unfolding s1_def by (metis snd_conv)
  then have t2: "tame e s s2" by (rule same_course_tame)
  define s3 where "s3 = (if le_failure_mode e = StopOnFirstFailure \<and> \<not> ls_stopping s2 \<and> is_failure_like st
    then enter_cancellation e (Some FailureUnderStop) False s2 else s2)"
  have "tame e s2 s3" by (simp add: s3_def tame_enter_cancellation)
  with t2 tame_notify [OF assms] have t4: "tame e s (notify_and_apply e (ad_node d) st s3)" using tame_trans by blast
  moreover have "tame e x (drain_pending e x)" for x by (simp add: drain_pending_def tame_drain_pending)
  moreover have "settle e d s = (let s = notify_and_apply e (ad_node d) st s3 in if \<not> ls_draining s then drain_pending e s else s)"
    unfolding settle_def Let_def s1_def [symmetric] r s3_def by simp
  ultimately show ?thesis using tame_trans by (auto simp: Let_def)
qed

lemma tame_handle_done:
  assumes "named e" "ad_node d = CANCEL_WAKE_SENTINEL \<longrightarrow> ls_trigger s \<noteq> None"
  shows "tame e s (handle_done e d s)"
proof -
  have dp: "tame e x (drain_pending e x)" for x by (simp add: drain_pending_def tame_drain_pending)
  have to: "tame e s (s\<lparr>ls_timed_out := ks\<rparr>)" for ks s by (rule same_course_tame [OF same_course_small(8)])
  have mk: "tame e s s2" if "mark_unkillable_timeout n cell fate s = (r, s2)" for n cell fate r s2
    by (rule same_course_tame, subst mark_frame [OF that]) (simp add: same_course_def)
  consider (wake) "ad_node d = CANCEL_WAKE_SENTINEL" | (timer) cell fate where "ad_node d \<noteq> CANCEL_WAKE_SENTINEL" "ad_kind d = TimeoutFired cell fate"
    | (report) "ad_node d \<noteq> CANCEL_WAKE_SENTINEL" "ad_kind d = AttemptKind"
    by (cases "ad_kind d") auto
  then show ?thesis
  proof cases
    case wake
    then show ?thesis using assms(2) by (simp add: handle_done_def tame_enter_cancellation)
  next
    case timer
    show ?thesis
    proof (cases "bt_get (ls_terminal s) (ad_node d) = None")
      case True
      obtain r s2 where r: "mark_unkillable_timeout (ad_node d) cell fate s = (r, s2)" by fastforce
      with mk [OF r] tame_trans [OF tame_trans [OF mk [OF r] to] tame_settle [OF assms(1)]] timer True
      show ?thesis by (cases r) (simp_all add: handle_done_def)
    qed (simp add: handle_done_def timer)
  next
    case report
    have "tame e s (drain_pending e (s\<lparr>ls_timed_out := ks\<rparr>))" for ks using tame_trans [OF to dp] .
    with report to tame_settle [OF assms(1)] show ?thesis by (simp add: handle_done_def Let_def)
  qed
qed

section \<open>Every action\<close>

text \<open>What an action may change of what was decided.\<close>

definition course :: "LoopEnv \<Rightarrow> LoopState \<Rightarrow> LoopState \<Rightarrow> bool" where
  "course e s s' \<longleftrightarrow>
     (ls_stopping s \<longrightarrow> ls_stopping s' \<and> dispatched s' \<subseteq> dispatched s \<union> {k. \<not> default_rule e k})
     \<and> (ls_draining s \<longrightarrow> ls_draining s' \<and> dispatched s' \<subseteq> dispatched s)
     \<and> (ls_origin s \<noteq> None \<longrightarrow> ls_origin s' = ls_origin s)
     \<and> (\<forall>k x. bt_get (ls_terminal s) k = Some x \<longrightarrow> bt_get (ls_terminal s') k = Some x)"

lemma course_refl: "course e s s" and course_trans: "course e a b \<Longrightarrow> course e b c \<Longrightarrow> course e a c"
proof -
  show "course e s s" by (simp add: course_def)
  assume ab: "course e a b" and bc: "course e b c"
  have "ls_stopping a \<longrightarrow> ls_stopping c \<and> dispatched c \<subseteq> dispatched a \<union> {k. \<not> default_rule e k}"
    using ab bc unfolding course_def by blast
  moreover have "ls_draining a \<longrightarrow> ls_draining c \<and> dispatched c \<subseteq> dispatched a" using ab bc unfolding course_def by blast
  moreover have "ls_origin a \<noteq> None \<longrightarrow> ls_origin c = ls_origin a" using ab bc unfolding course_def by metis
  moreover have "\<forall>k x. bt_get (ls_terminal a) k = Some x \<longrightarrow> bt_get (ls_terminal c) k = Some x"
    using ab bc unfolding course_def by blast
  ultimately show "course e a c" unfolding course_def by blast
qed

lemma tame_course: "tame e s s' \<Longrightarrow> calm e s \<Longrightarrow> calm e s' \<and> course e s s'"
  unfolding tame_def moves_def course_def by blast

lemma same_course_course:
  assumes "ls_pending s' = ls_pending s" "dispatched s' \<subseteq> dispatched s" "tm_node ` set (ls_timers s') \<subseteq> tm_node ` set (ls_timers s)"
    "\<forall>d \<in> set (ls_queue s'). d \<in> set (ls_queue s) \<or> ad_node d \<noteq> CANCEL_WAKE_SENTINEL \<or> ls_trigger s' \<noteq> None"
    "ls_trigger s \<noteq> None \<longrightarrow> ls_trigger s' \<noteq> None"
    "ls_stopping s' = ls_stopping s" "ls_draining s' = ls_draining s" "ls_drain_deadline s' = ls_drain_deadline s"
    "ls_origin s' = ls_origin s" "ls_terminal s' = ls_terminal s" "calm e s"
  shows "calm e s' \<and> course e s s'"
proof -
  have "calm e s'" using assms unfolding calm_def by (auto simp: image_iff)
  moreover have "course e s s'" using assms by (auto simp: course_def)
  ultimately show ?thesis ..
qed

lemma hold_release_course:
  "ls_pending (hold_release h s) = ls_pending s" "ls_running (hold_release h s) = ls_running s"
  "ls_timers (hold_release h s) = ls_timers s" "ls_queue (hold_release h s) = ls_queue s"
  "ls_trigger (hold_release h s) = ls_trigger s" "ls_stopping (hold_release h s) = ls_stopping s"
  "ls_draining (hold_release h s) = ls_draining s" "ls_drain_deadline (hold_release h s) = ls_drain_deadline s"
  "ls_origin (hold_release h s) = ls_origin s" "ls_terminal (hold_release h s) = ls_terminal s"
  "ls_now (hold_release h s) = ls_now s" "ls_phase (hold_release h s) = ls_phase s"
  by (simp_all add: hold_release_def split: PermitHold.split option.split)

lemma reject_pinned_course: "calm e s \<Longrightarrow> calm e (reject_all_pinned s) \<and> course e s (reject_all_pinned s)"
proof -
  assume c: "calm e s"
  have "tame e s (s\<lparr>ls_pending := []\<rparr>)" by (rule tame_kept) simp
  moreover have "tame e x (fold reject_zombie_pinned (ls_pending s) x)" for x
    using c unfolding calm_def by (intro tame_fold) (auto simp: reject_zombie_pinned_def intro: tame_put_message)
  ultimately have "tame e s (fold reject_zombie_pinned (ls_pending s) (s\<lparr>ls_pending := []\<rparr>))" using tame_trans by blast
  from tame_course [OF tame_trans [OF this same_course_tame [OF same_course_small(11)]] c]
  show ?thesis by (simp add: reject_all_pinned_def)
qed

lemma phase_course:
  "calm e (s\<lparr>ls_phase := ph\<rparr>) = calm e s" "course e x (s\<lparr>ls_phase := ph\<rparr>) = course e x s"
  "calm e (s\<lparr>ls_zombie_deadline := dl\<rparr>) = calm e s" "course e x (s\<lparr>ls_zombie_deadline := dl\<rparr>) = course e x s"
  by (simp_all add: calm_def course_def dispatched_def)

lemma loop_head_course: "calm e s \<Longrightarrow> calm e (loop_head e s) \<and> course e s (loop_head e s)"
  using reject_pinned_course [of e s] course_refl [of e s]
  unfolding loop_head_def Let_def
  by (cases "ls_zombie_deadline s") (simp_all add: phase_course)

lemma loop_turn_course:
  assumes "named e" "calm e s" shows "calm e (loop_turn e s) \<and> course e s (loop_turn e s)"
proof (cases "ls_phase s")
  case AtTop
  with loop_head_course [OF assms(2)] show ?thesis
    by (simp add: loop_turn_def Let_def nothing_received_def phase_course split: Phase.split option.split)
next
  case (Awaiting bounded)
  note c = assms(2)
  show ?thesis
  proof (cases "ls_queue s")
    case Nil
    then show ?thesis using Awaiting c course_refl
      by (simp add: loop_turn_def nothing_received_def phase_course split: option.split)
  next
    case (Cons d rest)
    let ?s = "s\<lparr>ls_queue := rest\<rparr>"
    have s1: "calm e ?s \<and> course e s ?s" using c Cons by (intro same_course_course) (auto simp: dispatched_def)
    have "ad_node d = CANCEL_WAKE_SENTINEL \<longrightarrow> ls_trigger ?s \<noteq> None" using c Cons by (auto simp: calm_def)
    from tame_course [OF tame_handle_done [OF assms(1) this]] s1 course_trans
    have "calm e (handle_done e d ?s) \<and> course e s (handle_done e d ?s)" by blast
    then show ?thesis using Awaiting Cons by (simp add: loop_turn_def phase_course)
  qed
next
  case Left
  with assms(2) course_refl show ?thesis by (simp add: loop_turn_def)
qed

lemma act_course:
  assumes "named e" "calm e s" shows "calm e (act e a s) \<and> course e s (act e a s)"
proof (cases a)
  case LoopTurn
  with loop_turn_course [OF assms] show ?thesis by simp
next
  case (Returns k st evs reference meta)
  have "dispatched (attempt_returns k st evs reference meta s) = dispatched s"
    using attempt_returns_view [of k st evs reference meta s] by (simp add: view_def)
  moreover have "calm e (hold_release h s)" "course e s (hold_release h s)" for h
    using assms(2) by (simp_all add: calm_def course_def dispatched_def hold_release_course)
  ultimately show ?thesis using assms(2) Returns
    by (intro same_course_course) (simp_all add: attempt_returns_def hold_release_course Let_def)
next
  case (Reports k)
  show ?thesis
  proof (cases "k < length (ls_running s) \<and> dp_result (ls_running s ! k) \<noteq> None")
    case True
    then have "dp_node (ls_running s ! k) \<in> dispatched s" by (auto simp: dispatched_def)
    then have n: "dp_node (ls_running s ! k) \<noteq> CANCEL_WAKE_SENTINEL" using assms(2) by (auto simp: calm_def)
    have "dp_node ` set (remove_nth k (ls_running s)) \<subseteq> dp_node ` set (ls_running s)"
      using set_remove_nth [of k "ls_running s"] by blast
    with True n assms(2) Reports show ?thesis
      by (intro same_course_course) (auto simp: attempt_reports_def send_def report_message_def dispatched_def)
  next
    case False
    then have "attempt_reports k s = s" by (auto simp: attempt_reports_def)
    with assms(2) course_refl Reports show ?thesis by simp
  qed
next
  case (TimerFires k)
  show ?thesis
  proof (cases "k < length (ls_timers s) \<and> tm_due (ls_timers s ! k) \<le> ls_now s")
    case True
    then have "tm_node (ls_timers s ! k) \<in> tm_node ` set (ls_timers s)" by simp
    then have n: "tm_node (ls_timers s ! k) \<noteq> CANCEL_WAKE_SENTINEL" using assms(2) by (auto simp: calm_def)
    have "tm_node ` set (remove_nth k (ls_timers s)) \<subseteq> tm_node ` set (ls_timers s)"
      using set_remove_nth [of k "ls_timers s"] by blast
    with True n assms(2) TimerFires show ?thesis
      by (intro same_course_course) (auto simp: timer_fires_def send_def timer_message_def dispatched_def)
  next
    case False
    then have "timer_fires k s = s" by (auto simp: timer_fires_def)
    with assms(2) course_refl TimerFires show ?thesis by simp
  qed
next
  case Interrupt
  with assms(2) show ?thesis
    by (intro same_course_course) (auto simp: interrupt_def trigger_request_def Let_def send_def done_attempt_def dispatched_def)
qed (use assms(2) in \<open>simp_all add: calm_def course_def dispatched_def set_fate_def\<close>)

interpretation run_course: invariant_machine "act e" "\<lambda>s. named e \<and> calm e s" for e
  by unfold_locales (simp add: act_course)

lemma acts_course: "named e \<Longrightarrow> calm e s \<Longrightarrow> course e s (fold (act e) acts s)"
  by (rule run_course.run_mono [where r = "course e"]) (auto intro: act_course [THEN conjunct2] course_refl course_trans)

lemma initial_calm:
  assumes "named e"
  shows "calm e (loop_start e [] (initial_loop_state t adm runners fates tr now evs))"
proof -
  let ?s = "initial_loop_state t adm runners fates tr now evs"
  have c: "calm e ?s" by (auto simp: calm_def initial_loop_state_def dispatched_def split: prod.split)
  define good where "good = (\<lambda>s. calm e s \<and> \<not> ls_draining s \<and> \<not> ls_stopping s)"
  have plain: "\<not> ls_draining (offer_or_pend e k s) \<and> \<not> ls_stopping (offer_or_pend e k s)"
    if "\<not> ls_draining s \<and> \<not> ls_stopping s" for k s
    using that by (auto simp: offer_or_pend_def admit_def arm_unkillable_deadline_def reject_over_demand_def count_in_def
        send_def write_log_def Let_def split: prod.split option.split)
  have "good (offer_initial e i s)" if "good s" for i s
  proof (cases "node_name (le_pipeline e) i")
    case (Some k)
    have "may_start e k s" using that node_name_named [OF assms Some] by (simp add: may_start_def good_def)
    from tame_offer [OF this] that plain [of s k] show ?thesis
      by (simp add: offer_initial_def Some good_def tame_def)
  qed (use that in \<open>simp add: offer_initial_def\<close>)
  then have "good (fold (offer_initial e) is s)" if "good s" for "is" s
    using that by (induction "is" arbitrary: s) simp_all
  moreover have "good ?s" using c by (simp add: good_def initial_loop_state_def split: prod.split)
  ultimately show ?thesis unfolding loop_start_def good_def by (simp add: Let_def)
qed

lemma fresh_run_calm: "named e \<Longrightarrow> calm e (fresh_run e a ords adm runners fates now evs acts)"
  using run_course.run_inv [of e] initial_calm unfolding fresh_run_def by blast

lemma fresh_run_append:
  "fresh_run e a ords adm runners fates now evs (acts @ later) = fold (act e) later (fresh_run e a ords adm runners fates now evs acts)"
  by (simp add: fresh_run_def)

section \<open>Stopping, and what stays\<close>

end
