(* ===== verification/Run_Guarantees.thy ===== *)
theory Run_Guarantees
  imports Driver_Run
begin

text \<open>
  What the loop has done when it leaves, that it never waits for nothing, and that an interrupt ends
  it.  A loop that leaves without draining has nothing in flight and nobody waiting, and then the
  tracker's progress leaves no node undecided.
\<close>

section \<open>Waiting and leaving\<close>

definition phase_ok :: "LoopState \<Rightarrow> bool" where
  "phase_ok s = (case ls_phase s of
       AtTop \<Rightarrow> True
     | Awaiting bounded \<Rightarrow> 0 < ls_in_flight s \<or> bounded \<noteq> None
     | Left \<Rightarrow> ls_draining s \<or> (ls_in_flight s = 0 \<and> ls_pending s = []))"

lemma reject_zombies_in_flight: "ls_in_flight (fold reject_zombie_pinned ns s) = ls_in_flight s + length ns"
  by (induction ns arbitrary: s) (simp_all add: reject_zombie_pinned_def)

lemma reject_zombies_fields:
  "ls_draining (fold reject_zombie_pinned ns s) = ls_draining s \<and> ls_pending (fold reject_zombie_pinned ns s) = ls_pending s
   \<and> ls_now (fold reject_zombie_pinned ns s) = ls_now s"
  by (induction ns arbitrary: s) (simp_all add: reject_zombie_pinned_def count_in_def send_def)

lemma loop_head_phase: "calm e s \<Longrightarrow> phase_ok (loop_head e s)"
  by (auto simp: loop_head_def Let_def phase_ok_def reject_all_pinned_def reject_zombies_in_flight reject_zombies_fields
      calm_def split: option.split)

lemma loop_turn_phase:
  assumes "calm e s" "phase_ok s" shows "phase_ok (loop_turn e s)"
proof (cases "ls_phase s")
  case AtTop
  with loop_head_phase [OF assms(1)] show ?thesis
    by (auto simp: loop_turn_def Let_def nothing_received_def phase_ok_def split: Phase.split option.split)
next
  case (Awaiting bounded)
  with assms show ?thesis
    by (auto simp: loop_turn_def nothing_received_def phase_ok_def split: list.split option.split)
next
  case Left
  with assms show ?thesis by (simp add: loop_turn_def)
qed

lemma phase_ok_same:
  "ls_phase s' = ls_phase s \<Longrightarrow> ls_in_flight s' = ls_in_flight s \<Longrightarrow> ls_draining s' = ls_draining s
     \<Longrightarrow> ls_pending s' = ls_pending s \<Longrightarrow> phase_ok s' = phase_ok s"
  by (cases "ls_phase s") (simp_all add: phase_ok_def)

lemma act_phase:
  assumes "calm e s" "phase_ok s" shows "phase_ok (act e a s)"
proof (cases a)
  case LoopTurn
  with loop_turn_phase [OF assms] show ?thesis by simp
next
  case (Returns k st evs reference meta)
  have "phase_ok (attempt_returns k st evs reference meta s) = phase_ok s"
    using attempt_returns_view [of k st evs reference meta s]
    by (intro phase_ok_same) (simp_all add: view_def, simp_all add: attempt_returns_def Let_def hold_release_course)
  with assms(2) Returns show ?thesis by simp
next
  case (Reports k)
  have "phase_ok (attempt_reports k s) = phase_ok s"
    by (rule phase_ok_same) (simp_all add: attempt_reports_def send_def split: option.split)
  with assms(2) Reports show ?thesis by simp
next
  case (TimerFires k)
  have "phase_ok (timer_fires k s) = phase_ok s"
    by (rule phase_ok_same) (simp_all add: timer_fires_def send_def)
  with assms(2) TimerFires show ?thesis by simp
next
  case Interrupt
  have "phase_ok (interrupt s) = phase_ok s"
    by (rule phase_ok_same) (simp_all add: interrupt_def trigger_request_def send_def Let_def)
  with assms(2) Interrupt show ?thesis by simp
next
  case (Tick d)
  have "phase_ok (s\<lparr>ls_now := ls_now s + d\<rparr>) = phase_ok s" by (rule phase_ok_same) simp_all
  with assms(2) Tick show ?thesis by simp
next
  case (FateBegins k)
  have "phase_ok (set_fate k f s) = phase_ok s" for f by (rule phase_ok_same) (simp_all add: set_fate_def)
  with assms(2) FateBegins show ?thesis by simp
next
  case (FateCompletes k)
  have "phase_ok (set_fate k f s) = phase_ok s" for f by (rule phase_ok_same) (simp_all add: set_fate_def)
  with assms(2) FateCompletes show ?thesis by simp
qed

interpretation run_phase: invariant_machine "act e" "\<lambda>s. named e \<and> calm e s \<and> phase_ok s" for e
  by unfold_locales (simp add: act_course act_phase)

lemma loop_start_phase: "ls_phase (loop_start e [] (initial_loop_state t adm runners fates tr now evs)) = AtTop"
proof -
  have "ls_phase (offer_initial e i s) = ls_phase s" for i s
    by (simp add: offer_initial_def offer_or_pend_def admit_def arm_unkillable_deadline_def reject_over_demand_def count_in_def
        send_def write_log_def Let_def split: prod.split option.split)
  then have "ls_phase (fold (offer_initial e) is s) = ls_phase s" for "is" s
    by (induction "is" arbitrary: s) simp_all
  then show ?thesis by (simp add: loop_start_def initial_loop_state_def Let_def split: prod.split)
qed

lemma fresh_run_phase: "named e \<Longrightarrow> phase_ok (fresh_run e a ords adm runners fates now evs acts)"
  using run_phase.run_inv [of e "loop_start e [] (initial_loop_state (new_with_ordering (le_pipeline e) a ords) adm runners fates None now evs)"]
    initial_calm loop_start_phase unfolding fresh_run_def phase_ok_def by force

lemma phase_left: "phase_ok s \<Longrightarrow> ls_phase s = Left \<Longrightarrow> \<not> ls_draining s \<Longrightarrow> ls_in_flight s = 0 \<and> ls_pending s = []"
  by (simp add: phase_ok_def)

lemma runnable_named: "runnable e a ords \<Longrightarrow> named e"
  by (simp add: runnable_def named_def)

section \<open>Every node ends\<close>

lemma nothing_left:
  assumes inv: "loop_inv e (tracker_graph (new_with_ordering (le_pipeline e) a ords)) s" and run: "runnable e a ords"
    and rank: "tracked_ranked (le_pipeline e) ords rank"
    and idle: "ls_in_flight s = 0" "ls_pending s = []" and n: "n \<in> set (tracked_nodes (le_pipeline e))"
  shows "bt_get (ls_terminal s) (pn_name n) \<noteq> None"
proof -
  obtain D where ok: "flight_ok e D [] {#} (decided s) s" and g: "tracker_graph (ls_tracker s) = tracker_graph (new_with_ordering (le_pipeline e) a ords)"
    using inv by (auto simp: loop_inv_def)
  note fresh = fresh_tracker [OF run]
  have keys: "keys s = pn_name ` set (tracked_nodes (le_pipeline e))" and
    ups: "\<And>m. m \<in> set (tracked_nodes (le_pipeline e)) \<Longrightarrow> ups_of (rt_nodes (ls_tracker s)) (pn_name m) = set (upstream_names (le_pipeline e) ords m)"
    using g fresh(2,3) by (simp_all add: tracker_graph_def)
  have loop: "loop_ok (rt_initial_ready (ls_tracker s)) (rt_nodes (ls_tracker s)) (rt_pending (ls_tracker s)) [] D"
    using ok by (simp add: flight_ok_def tracker_ok_def session_ok_def)
  have "counted_flight s = {#}" using ok idle(1) by (simp add: flight_ok_def place_ok_def)
  then have none: "from_name k \<notin> ready_of_tracker (ls_tracker s, D)" if "k \<in> undecided (rt_nodes (ls_tracker s))" for k
    using ok idle(2) that by (auto simp: flight_ok_def place_ok_def undecided_iff)
  have "undecided (rt_nodes (ls_tracker s)) = {}"
  proof (rule ccontr)
    assume "undecided (rt_nodes (ls_tracker s)) \<noteq> {}"
    then obtain k where k: "k \<in> undecided (rt_nodes (ls_tracker s))" "\<forall>j. rank j < rank k \<longrightarrow> j \<notin> undecided (rt_nodes (ls_tracker s))"
      using exists_least_iff [of "\<lambda>r. \<exists>k \<in> undecided (rt_nodes (ls_tracker s)). rank k = r"] by auto
    then obtain m where m: "m \<in> set (tracked_nodes (le_pipeline e))" "k = pn_name m"
      using keys undecided_in_keys [of "rt_nodes (ls_tracker s)"] by auto
    have "ups_of (rt_nodes (ls_tracker s)) k \<inter> undecided (rt_nodes (ls_tracker s)) = {}"
      using rank m k(2) ups [OF m(1)] by (auto simp: tracked_ranked_def)
    from loop_okD(4) [OF loop k(1) this] none [OF k(1)] show False by (auto simp: ready_of_tracker_def)
  qed
  then have "pn_name n \<notin> undecided (rt_nodes (ls_tracker s))" by simp
  then have "decided s (pn_name n) \<noteq> None" using keys n by (auto simp: undecided_iff)
  then show ?thesis using flight_facts(5) [OF ok, of "pn_name n"] keys n by auto
qed

lemma overall_outcome_flags:
  "fold outcome_flags xs (f, c) = (f \<or> (\<exists>x \<in> set xs. is_failure_like x), c \<or> Cancelled \<in> set xs)"
proof (induction xs arbitrary: f c)
  case (Cons x xs)
  then show ?case by (cases x) (auto simp: outcome_flags_def is_failure_like_def)
qed simp

lemma overall_succeeded:
  "overall_outcome m = RunSucceeded \<longleftrightarrow> (\<forall>x \<in> set (bt_values m). \<not> is_failure_like x \<and> x \<noteq> Cancelled)"
  by (auto simp: overall_outcome_def overall_outcome_flags)

definition ended_well :: "TerminalState option \<Rightarrow> bool" where
  "ended_well x \<longleftrightarrow> x \<in> {Some Succeeded, Some Skipped, Some UpstreamSkipped, Some SatisfiedFromPrior}"

lemma success_complete:
  assumes run: "runnable e a ords" and rank: "tracked_ranked (le_pipeline e) ords rank"
    and s: "s = fresh_run e a ords adm runners fates now evs acts" and left: "ls_phase s = Left"
    and exit: "select_shutdown_exit (overall_outcome (ls_terminal (loop_end s))) (ls_origin s) flushed = ExitSuccess"
    and n: "n \<in> set (tracked_nodes (le_pipeline e))"
  shows "ended_well (bt_get (ls_terminal (loop_end s)) (pn_name n))"
proof -
  have origin: "ls_origin s = None" and out: "overall_outcome (ls_terminal (loop_end s)) = RunSucceeded"
    using exit by (auto simp: select_shutdown_exit_def overall_outcome_def Let_def split: if_splits prod.splits)
      (metis CancellationOrigin.exhaust not_None_eq)
  have "\<not> ls_draining s" using fresh_run_calm [OF runnable_named [OF run]] origin unfolding s calm_def by blast
  then have T: "ls_terminal (loop_end s) = ls_terminal s" and idle: "ls_in_flight s = 0 \<and> ls_pending s = []"
  proof -
    have "ls_terminal (fold (\<lambda>(node, attempt). write_log (EvZombieAtExit node attempt)) zs x) = ls_terminal x" for zs x
      by (induction zs arbitrary: x) (auto simp: write_log_def)
    then show "\<not> ls_draining s \<Longrightarrow> ls_terminal (loop_end s) = ls_terminal s" by (simp add: loop_end_def)
    show "\<not> ls_draining s \<Longrightarrow> ls_in_flight s = 0 \<and> ls_pending s = []"
      using phase_left [OF fresh_run_phase [OF runnable_named [OF run]]] left unfolding s by blast
  qed
  obtain x where x: "bt_get (ls_terminal s) (pn_name n) = Some x"
    using nothing_left [OF fresh_run_inv [OF run] run rank _ _ n] idle unfolding s by blast
  then have "x \<in> set (bt_values (ls_terminal s))" using bt_get_in_set by (force simp: bt_values_def)
  then have "\<not> is_failure_like x \<and> x \<noteq> Cancelled" using out unfolding T overall_succeeded by blast
  then show ?thesis unfolding T x by (cases x) (simp_all add: ended_well_def is_failure_like_def)
qed

section \<open>An interrupt ends the run\<close>

text \<open>The loop, undisturbed, gets from its head to waiting or out of the loop.\<close>

definition undrained :: "LoopEnv \<Rightarrow> LoopState \<Rightarrow> LoopState \<Rightarrow> bool" where
  "undrained e s s' \<longleftrightarrow> calm e s' \<and> \<not> ls_draining s' \<and> ls_now s' = ls_now s \<and> ls_trigger s' = ls_trigger s
     \<and> (\<exists>new. ls_queue s' = ls_queue s @ new)"

lemma undrained_trans: "undrained e a b \<Longrightarrow> undrained e b c \<Longrightarrow> undrained e a c"
  by (auto simp: undrained_def)

lemma reject_pinned_undrained:
  assumes "calm e s" "\<not> ls_draining s" shows "undrained e s (reject_all_pinned s)"
proof -
  let ?f = "fold reject_zombie_pinned (ls_pending s) (s\<lparr>ls_pending := []\<rparr>)"
  have fields: "ls_draining ?f = ls_draining s" "ls_now ?f = ls_now s" by (simp_all add: reject_zombies_fields)
  have "ls_trigger (fold reject_zombie_pinned ns x) = ls_trigger x
      \<and> (\<exists>new. ls_queue (fold reject_zombie_pinned ns x) = ls_queue x @ new)" for ns x
  proof (induction ns arbitrary: x)
    case (Cons n ns)
    have "ls_trigger (reject_zombie_pinned n x) = ls_trigger x"
      "ls_queue (reject_zombie_pinned n x) = ls_queue x @ [terminal_message n Failed]"
      by (simp_all add: reject_zombie_pinned_def count_in_def send_def)
    with Cons.IH [of "reject_zombie_pinned n x"] show ?case by auto
  qed simp
  from this [of "ls_pending s" "s\<lparr>ls_pending := []\<rparr>"] fields assms(2) reject_pinned_course [OF assms(1)] show ?thesis
    by (simp add: undrained_def reject_all_pinned_def)
qed

lemma head_step:
  assumes "calm e s" "\<not> ls_draining s" "ls_phase s = AtTop"
  shows "undrained e s (loop_turn e s)
    \<and> (ls_phase (loop_turn e s) = AtTop \<longrightarrow> ls_in_flight (loop_turn e s) = 0
        \<and> ls_pending (loop_turn e s) \<noteq> [] \<and> (\<exists>d. ls_zombie_deadline (loop_turn e s) = Some d \<and> d \<le> ls_now (loop_turn e s)))
    \<and> ((\<exists>d. ls_zombie_deadline s = Some d \<and> d \<le> ls_now s) \<longrightarrow> ls_phase (loop_turn e s) \<noteq> AtTop)"
proof -
  have r: "undrained e s (reject_all_pinned s)" by (rule reject_pinned_undrained [OF assms(1,2)])
  have self: "undrained e s s" using assms(1,2) by (simp add: undrained_def)
  have upd: "undrained e s (x\<lparr>ls_phase := ph\<rparr>) = undrained e s x" "undrained e s (x\<lparr>ls_zombie_deadline := dl\<rparr>) = undrained e s x" for x ph dl
    by (simp_all add: undrained_def phase_course)
  have d: "\<not> ls_draining (reject_all_pinned s)" "ls_zombie_deadline (reject_all_pinned s) = None"
    using r by (simp_all add: undrained_def reject_all_pinned_def)
  show ?thesis
    using assms(2,3) r self d
    by (cases "ls_zombie_deadline s") (simp_all add: loop_turn_def loop_head_def Let_def nothing_received_def upd)
qed

lemma reach_waiting:
  assumes "calm e s" "\<not> ls_draining s"
  shows "\<exists>n. undrained e s ((loop_turn e ^^ n) s) \<and> ls_phase ((loop_turn e ^^ n) s) \<noteq> AtTop"
proof (cases "ls_phase s = AtTop")
  case False
  then show ?thesis using assms by (intro exI [of _ 0]) (simp add: undrained_def)
next
  case True
  let ?s1 = "loop_turn e s"
  note one = head_step [OF assms True]
  show ?thesis
  proof (cases "ls_phase ?s1 = AtTop")
    case False
    then show ?thesis using one by (intro exI [of _ 1]) simp
  next
    case again: True
    have "calm e ?s1" "\<not> ls_draining ?s1" using one by (simp_all add: undrained_def)
    from head_step [OF this again] one again have "undrained e ?s1 (loop_turn e ?s1)" "ls_phase (loop_turn e ?s1) \<noteq> AtTop"
      by blast+
    moreover have "undrained e s ?s1" using one by simp
    ultimately show ?thesis using undrained_trans by (intro exI [of _ 2]) (auto simp: numeral_2_eq_2)
  qed
qed

lemma take_message:
  assumes "calm e s" "\<not> ls_draining s" "ls_queue s = d # rest"
  obtains n where "ls_phase ((loop_turn e ^^ n) s) = Left" "ls_now ((loop_turn e ^^ n) s) = ls_now s"
  | n p new where "(loop_turn e ^^ n) s = (handle_done e d p)\<lparr>ls_phase := AtTop\<rparr>" "calm e p" "\<not> ls_draining p"
      "ls_now p = ls_now s" "ls_queue p = rest @ new" "ad_node d = CANCEL_WAKE_SENTINEL \<longrightarrow> ls_trigger p \<noteq> None"
proof -
  obtain n where n: "undrained e s ((loop_turn e ^^ n) s)" "ls_phase ((loop_turn e ^^ n) s) \<noteq> AtTop"
    using reach_waiting [OF assms(1,2)] by blast
  define s1 where "s1 = (loop_turn e ^^ n) s"
  from n obtain new where q: "ls_queue s1 = d # (rest @ new)" using assms(3) by (auto simp: undrained_def s1_def)
  have c1: "calm e s1" "\<not> ls_draining s1" "ls_now s1 = ls_now s" using n(1) by (simp_all add: undrained_def s1_def)
  show thesis
  proof (cases "ls_phase s1 = Left")
    case True
    with that(1) c1(3) show thesis by (simp add: s1_def)
  next
    case False
    with n(2) obtain b where b: "ls_phase s1 = Awaiting b" by (cases "ls_phase s1") (simp_all add: s1_def)
    let ?p = "s1\<lparr>ls_queue := rest @ new\<rparr>"
    have "(loop_turn e ^^ Suc n) s = (handle_done e d ?p)\<lparr>ls_phase := AtTop\<rparr>"
      using b q by (simp add: s1_def [symmetric] loop_turn_def)
    moreover have "calm e ?p" "ad_node d = CANCEL_WAKE_SENTINEL \<longrightarrow> ls_trigger ?p \<noteq> None"
      using c1(1) q by (auto simp: calm_def dispatched_def)
    ultimately show thesis using that(2) [of "Suc n" ?p new] c1(2,3) by simp
  qed
qed

lemma drains_within:
  assumes "named e" "calm e s" "\<not> ls_draining s" "ls_queue s = pre @ w # post" "ad_node w = CANCEL_WAKE_SENTINEL"
  shows "\<exists>n. let s' = (loop_turn e ^^ n) s in ls_now s' = ls_now s \<and>
    (ls_phase s' = Left \<or> (ls_phase s' = AtTop \<and> ls_draining s' \<and> ls_drain_deadline s' = Some (ls_now s + le_grace e)))"
  using assms(2-4)
proof (induction pre arbitrary: s post)
  case (Cons d pre)
  have q: "ls_queue s = d # (pre @ w # post)" using Cons.prems(3) by simp
  show ?case
  proof (rule take_message [OF Cons.prems(1,2) q])
    fix n assume "ls_phase ((loop_turn e ^^ n) s) = Left" "ls_now ((loop_turn e ^^ n) s) = ls_now s"
    then show ?thesis by (intro exI [of _ n]) simp
  next
    fix n p new
    assume t: "(loop_turn e ^^ n) s = (handle_done e d p)\<lparr>ls_phase := AtTop\<rparr>" and p: "calm e p" "\<not> ls_draining p"
      "ls_now p = ls_now s" "ls_queue p = (pre @ w # post) @ new" "ad_node d = CANCEL_WAKE_SENTINEL \<longrightarrow> ls_trigger p \<noteq> None"
    let ?t = "(loop_turn e ^^ n) s"
    from tame_handle_done [OF assms(1) p(5)] p(1) have m: "calm e (handle_done e d p)" "moves e p (handle_done e d p)"
      by (auto simp: tame_def)
    have ct: "calm e ?t" using m(1) by (simp add: t phase_course)
    have now: "ls_now ?t = ls_now s" using m(2) p(3) by (simp add: t moves_def)
    obtain new2 where q2: "ls_queue ?t = pre @ w # (post @ new @ new2)" using m(2) p(4) by (auto simp: t moves_def)
    show ?thesis
    proof (cases "ls_draining ?t")
      case True
      then have "ls_drain_deadline ?t = Some (ls_now s + le_grace e)" using m(2) p(2,3) by (simp add: t moves_def)
      then show ?thesis using True now by (intro exI [of _ n]) (simp, simp add: t)
    next
      case False
      from Cons.IH [OF ct False q2] obtain m' where
        "let s' = (loop_turn e ^^ m') ?t in ls_now s' = ls_now ?t \<and>
          (ls_phase s' = Left \<or> (ls_phase s' = AtTop \<and> ls_draining s' \<and> ls_drain_deadline s' = Some (ls_now ?t + le_grace e)))"
        by blast
      moreover have "(loop_turn e ^^ m') ?t = (loop_turn e ^^ (m' + n)) s" by (simp add: funpow_add)
      ultimately show ?thesis using now by (intro exI [of _ "m' + n"]) (simp add: Let_def)
    qed
  qed
next
  case Nil
  have q: "ls_queue s = w # post" using Nil.prems(3) by simp
  show ?case
  proof (rule take_message [OF Nil.prems(1,2) q])
    fix n assume "ls_phase ((loop_turn e ^^ n) s) = Left" "ls_now ((loop_turn e ^^ n) s) = ls_now s"
    then show ?thesis by (intro exI [of _ n]) simp
  next
    fix n p new
    assume t: "(loop_turn e ^^ n) s = (handle_done e w p)\<lparr>ls_phase := AtTop\<rparr>" and p: "calm e p" "\<not> ls_draining p"
      "ls_now p = ls_now s" "ls_queue p = post @ new" "ad_node w = CANCEL_WAKE_SENTINEL \<longrightarrow> ls_trigger p \<noteq> None"
    from tame_handle_done [OF assms(1) p(5)] p(1) have m: "moves e p (handle_done e w p)" by (auto simp: tame_def)
    have "ls_draining (handle_done e w p)"
      using p(2) by (simp add: handle_done_def assms(5) enter_cancellation_def cancel_pending_default_nodes_def Let_def
          split: prod.split)
    then show ?thesis using m p(2,3) by (intro exI [of _ n]) (simp add: t moves_def)
  qed
qed

lemma leave_after_grace:
  assumes "ls_phase s = AtTop" "ls_draining s" "ls_drain_deadline s = Some t" "t \<le> ls_now s"
  shows "ls_phase (loop_turn e s) = Left"
  using assms by (simp add: loop_turn_def loop_head_def Let_def nothing_received_def)

section \<open>The guarantees of a run\<close>

text \<open>Two nodes that do not depend on each other, with unlimited pools.\<close>

definition demo_regs :: "registration list" where
  "demo_regs =
     [RegSource ''a'' sample_task None default_policy Absent AllSucceeded [],
      RegSource ''b'' sample_task None default_policy Absent AllSucceeded []]"

definition demo_env :: LoopEnv where
  "demo_env = \<lparr>le_pipeline = build demo_regs, le_run_id = ''r'', le_grace = 5, le_failure_mode = StopOnFirstFailure,
     le_placement_handling = Honoured\<rparr>"

definition demo_run :: "Action list \<Rightarrow> LoopState" where
  "demo_run acts = fresh_run demo_env (counted_artifact (build demo_regs)) [] (controller_new capacities_new)
     [(''a'', None), (''b'', None)] [] 0 [] acts"

lemma demo_runnable: "runnable demo_env (counted_artifact (build demo_regs)) []"
proof -
  have "ids_distinct (build demo_regs)
     \<and> list_all (\<lambda>n. set (resolve_names (build demo_regs) (data_upstreams n))
            \<inter> set (ordering_upstreams (build demo_regs) [] (pn_name n)) = {}
        \<and> set (upstream_names (build demo_regs) [] n) \<subseteq> pn_name ` set (tracked_nodes (build demo_regs))
        \<and> length (upstream_names (build demo_regs) [] n) \<le> 2) (tracked_nodes (build demo_regs))"
    by code_simp
  moreover have "k \<le> 2 \<Longrightarrow> k \<le> u32_max" for k by (simp add: u32_max_def)
  ultimately have "trackable (build demo_regs) []" by (simp add: trackable_def build_wf list_all_iff)
  moreover have "list_all (\<lambda>n. pn_name n \<noteq> CANCEL_WAKE_SENTINEL) (nodes_of (build demo_regs))" by code_simp
  ultimately show ?thesis by (simp add: runnable_def demo_env_def list_all_iff)
qed

text \<open>
  C16. The in-flight count of a run is exact at every moment: it is the number of nodes that are
  dispatched or whose message waits, less the timed-out attempts that still run; no node is in two
  places, a node that waits or flies has no terminal state, and a timed-out attempt that still runs
  has one.
\<close>

theorem loop_accounting:
  assumes "runnable e a ords" and s: "s = fresh_run e a ords adm runners fates now evs acts"
  shows "ls_in_flight s = size (counted_flight s) \<and> once (mset (ls_pending s) + counted_flight s)
    \<and> (\<forall>k \<in># mset (ls_pending s) + counted_flight s. bt_get (ls_terminal s) k = None)
    \<and> (\<forall>k \<in> set (ls_timed_out s). k \<in># flight s \<and> bt_get (ls_terminal s) k \<noteq> None)"
proof -
  obtain D where ok: "flight_ok e D [] {#} (decided s) s"
    using fresh_run_inv [OF assms(1)] unfolding s loop_inv_def by blast
  then have "\<forall>k \<in># mset (ls_pending s) + counted_flight s. k \<in> keys s \<and> decided s k = None"
    by (auto simp: flight_ok_def place_ok_def)
  moreover have "\<forall>k \<in> set (ls_timed_out s). k \<in># flight s \<and> k \<in> keys s \<and> decided s k \<noteq> None"
    using ok by (auto simp: flight_ok_def zombie_ok_def)
  moreover note flight_facts(5) [OF ok]
  ultimately show ?thesis using ok by (auto simp: flight_ok_def place_ok_def)
qed

theorem loop_accounting_witness:
  "ls_in_flight (demo_run [LoopTurn, Interrupt]) = size (counted_flight (demo_run [LoopTurn, Interrupt]))"
  using loop_accounting [OF demo_runnable refl] by (simp add: demo_run_def)

text \<open>
  C19. Stopping and draining are for good.  Once a run stops after a failure it starts no node with the
  default trigger rule again, while a contingency, a node with another rule, may still be admitted, as
  the driver documents; once it drains it starts no node at all, whatever happens later.  The terminal
  states and the cancellation origin that are recorded stay.
\<close>

theorem stopped_run_starts_nothing:
  assumes "named e" and s: "s = fresh_run e a ords adm runners fates now evs acts"
  shows "(ls_stopping s \<longrightarrow> dispatched (fold (act e) later s) \<subseteq> dispatched s \<union> {k. \<not> default_rule e k})
    \<and> (ls_draining s \<longrightarrow> dispatched (fold (act e) later s) \<subseteq> dispatched s)
    \<and> (ls_origin s \<noteq> None \<longrightarrow> ls_origin (fold (act e) later s) = ls_origin s)
    \<and> (\<forall>k x. bt_get (ls_terminal s) k = Some x \<longrightarrow> bt_get (ls_terminal (fold (act e) later s)) k = Some x)"
proof -
  have "course e s (fold (act e) later s)" using acts_course [OF assms(1) fresh_run_calm [OF assms(1)]] unfolding s .
  then show ?thesis unfolding course_def by blast
qed

text \<open>The first node fails while the second runs.\<close>

definition demo_stop :: "Action list" where
  "demo_stop = [LoopTurn, Returns 0 Failed [] None None, Reports 0, LoopTurn]"

definition demo_later :: "Action list" where
  "demo_later = [LoopTurn, Interrupt, LoopTurn, Reports 0]"

theorem stopped_run_starts_nothing_witness:
  "ls_stopping (demo_run demo_stop)
   \<and> dispatched (fold (act demo_env) demo_later (demo_run demo_stop)) \<subseteq> {''b''} \<union> {k. \<not> default_rule demo_env k}
   \<and> bt_get (ls_terminal (fold (act demo_env) demo_later (demo_run demo_stop))) ''a'' = Some Failed"
proof -
  have "(\<lambda>s. (ls_stopping s, map dp_node (ls_running s), ls_terminal s)) (demo_run demo_stop) = (True, [''b''], [(''a'', Failed)])"
    by code_simp
  then have s: "ls_stopping (demo_run demo_stop)" "map dp_node (ls_running (demo_run demo_stop)) = [''b'']"
    "ls_terminal (demo_run demo_stop) = [(''a'', Failed)]" by simp_all
  from s(2) have "dispatched (demo_run demo_stop) = {''b''}" unfolding dispatched_def by (metis list.set(1,2) list.set_map)
  then show ?thesis
    using stopped_run_starts_nothing [OF runnable_named [OF demo_runnable] refl, of "counted_artifact (build demo_regs)" "[]"
        "controller_new capacities_new" "[(''a'', None), (''b'', None)]" "[]" 0 "[]" demo_stop demo_later]
      s(1,3) by (simp add: demo_run_def bt_get_def)
qed

text \<open>
  The loop never waits for nothing: when it awaits a message without a deadline and none is in
  the channel, a dispatched attempt is still to report.
\<close>

theorem loop_waits_for_someone:
  assumes "runnable e a ords" and s: "s = fresh_run e a ords adm runners fates now evs acts"
    and wait: "ls_phase s = Awaiting None" "ls_queue s = []"
  shows "ls_running s \<noteq> []"
proof -
  obtain D where ok: "flight_ok e D [] {#} (decided s) s"
    using fresh_run_inv [OF assms(1)] unfolding s loop_inv_def by blast
  have "phase_ok s" using fresh_run_phase [OF runnable_named [OF assms(1)]] unfolding s .
  then have "0 < ls_in_flight s" by (simp add: phase_ok_def wait(1))
  then have "counted_flight s \<noteq> {#}" using ok by (auto simp: flight_ok_def place_ok_def)
  then show ?thesis using wait(2) by (auto simp: counted_flight_def flight_def)
qed

theorem loop_waits_for_someone_witness: "ls_running (demo_run [LoopTurn]) \<noteq> []"
proof -
  have "ls_phase (demo_run [LoopTurn]) = Awaiting None \<and> ls_queue (demo_run [LoopTurn]) = []" by code_simp
  then show ?thesis using loop_waits_for_someone [OF demo_runnable refl] by (simp add: demo_run_def)
qed

text \<open>
  C13. An interrupt ends every run that is not draining yet: the loop takes the messages that were
  sent before it, starts to drain, and leaves once the grace period has passed, even if no dispatched
  attempt ever returns.
\<close>

theorem interrupt_ends_run:
  assumes "named e" and s: "s = fresh_run e a ords adm runners fates now evs acts" and "\<not> ls_draining s"
  shows "\<exists>n. ls_phase (fold (act e) (Interrupt # replicate n LoopTurn @ [Tick (le_grace e), LoopTurn]) s) = Left"
proof -
  have c: "calm e s" using fresh_run_calm [OF assms(1)] unfolding s by blast
  let ?i = "act e Interrupt s"
  have i: "calm e ?i" "\<not> ls_draining ?i" using act_course [OF assms(1) c, of Interrupt] assms(3)
    by (simp_all add: interrupt_def trigger_request_def Let_def send_def)
  have "ls_queue ?i = ls_queue s @ done_attempt CANCEL_WAKE_SENTINEL Cancelled [] # []"
    by (simp add: interrupt_def trigger_request_def Let_def)
  from drains_within [OF assms(1) i this] obtain n where
    n: "let s' = (loop_turn e ^^ n) ?i in ls_now s' = ls_now ?i \<and> (ls_phase s' = Left
      \<or> (ls_phase s' = AtTop \<and> ls_draining s' \<and> ls_drain_deadline s' = Some (ls_now ?i + le_grace e)))"
    by (auto simp: done_attempt_def)
  define t where "t = ((loop_turn e ^^ n) ?i)\<lparr>ls_now := ls_now ((loop_turn e ^^ n) ?i) + le_grace e\<rparr>"
  have "fold (act e) (replicate n LoopTurn) x = (loop_turn e ^^ n) x" for x
    by (induction n arbitrary: x) (simp_all add: funpow_swap1)
  then have "fold (act e) (Interrupt # replicate n LoopTurn @ [Tick (le_grace e), LoopTurn]) s = loop_turn e t"
    by (simp add: t_def)
  moreover have "ls_phase (loop_turn e t) = Left"
  proof (cases "ls_phase t = Left")
    case True
    then show ?thesis by (simp add: loop_turn_def)
  next
    case False
    then show ?thesis using n by (intro leave_after_grace [of t "ls_now ?i + le_grace e"]) (simp_all add: t_def Let_def)
  qed
  ultimately show ?thesis by metis
qed

theorem interrupt_ends_run_witness:
  "\<exists>n. ls_phase (fold (act demo_env) (Interrupt # replicate n LoopTurn @ [Tick (le_grace demo_env), LoopTurn]) (demo_run [LoopTurn])) = Left"
proof -
  have "\<not> ls_draining (demo_run [LoopTurn])" by code_simp
  from interrupt_ends_run [OF runnable_named [OF demo_runnable] _ this] show ?thesis by (simp add: demo_run_def)
qed

end
