(* ===== verification/Run_Capacity.thy ===== *)
theory Run_Capacity
  imports Run_Guarantees
begin

text \<open>
  What the run loop does with the admission pools: every permit the controller hands out is held by a
  dispatched attempt until that attempt returns, or goes back at once, so capacity is neither lost nor
  granted twice, whatever the attempts, deadlines and cancellations do.
\<close>

section \<open>The permits that are out\<close>

definition owned_permits :: "Dispatched \<Rightarrow> Permit list" where
  "owned_permits dp = (case (dp_hold dp, dp_result dp) of (OwnedPermit p, None) \<Rightarrow> [p] | _ \<Rightarrow> [])"

definition cell_permits :: "Permit option \<Rightarrow> Permit list" where
  "cell_permits c = (case c of None \<Rightarrow> [] | Some p \<Rightarrow> [p])"

definition outstanding :: "LoopState \<Rightarrow> Permit list" where
  "outstanding s = concat (map owned_permits (ls_running s)) @ concat (map cell_permits (ls_cells s))"

text \<open>A cell with a permit belongs to an attempt that has not returned.\<close>

definition cells_ok :: "LoopState \<Rightarrow> bool" where
  "cells_ok s \<longleftrightarrow> (\<forall>dp \<in> set (ls_running s). \<forall>c. dp_hold dp = SharedPermit c \<longrightarrow> c < length (ls_cells s))
     \<and> (\<forall>c < length (ls_cells s). ls_cells s ! c \<noteq> None \<longrightarrow>
          (\<exists>dp \<in> set (ls_running s). dp_hold dp = SharedPermit c \<and> dp_result dp = None))"

text \<open>Nothing is lost: the permits that are out and those in \<open>hand\<close> account for what is charged.\<close>

definition balanced :: "PoolCapacities \<Rightarrow> Permit list \<Rightarrow> LoopState \<Rightarrow> bool" where
  "balanced caps hand s \<longleftrightarrow> conserved caps (ls_admission s, outstanding s @ hand, []) \<and> cells_ok s"

definition lends :: "LoopState \<Rightarrow> Inner \<times> Dispatched list \<times> Permit option list" where
  "lends s = (ls_admission s, ls_running s, ls_cells s)"

lemma balanced_lends: "lends s' = lends s \<Longrightarrow> balanced caps hand s' = balanced caps hand s"
  by (simp add: lends_def balanced_def cells_ok_def outstanding_def)

lemma conserved_mset: "mset ps = mset qs \<Longrightarrow> conserved caps (i, ps, ls) = conserved caps (i, qs, ls)"
proof -
  assume "mset ps = mset qs"
  then have "held pool ps = held pool qs" for pool
    unfolding held_def by (simp add: sum_mset_sum_list [symmetric])
  then show ?thesis by (simp add: conserved_def)
qed

lemma conserved_drop_mset:
  assumes "conserved caps (i, ps, ls)" "mset ps = add_mset p (mset qs)"
  shows "conserved caps (permit_drop p i, qs, ls)"
proof -
  have "conserved caps (i, p # qs, ls)" using assms conserved_mset [of ps "p # qs"] by simp
  from conserved_drop [OF this, of 0] show ?thesis by (simp add: remove_nth_def)
qed

lemma lends_small [simp]:
  "lends (write_log ev s) = lends s" "lends (push_zombie n a s) = lends s" "lends (record_terminal n x s) = lends s"
  "lends (send d s) = lends s" "lends (count_in s) = lends s" "lends (cancel_node n s) = lends s"
  "lends (reject_over_demand n s) = lends s" "lends (reject_zombie_pinned n s) = lends s"
  "lends (s\<lparr>ls_pending := ks\<rparr>) = lends s" "lends (s\<lparr>ls_tracker := t\<rparr>) = lends s" "lends (s\<lparr>ls_stopping := b\<rparr>) = lends s"
  "lends (s\<lparr>ls_timed_out := ks\<rparr>) = lends s" "lends (s\<lparr>ls_phase := ph\<rparr>) = lends s" "lends (s\<lparr>ls_zombie_deadline := dl\<rparr>) = lends s"
  "lends (s\<lparr>ls_queue := q\<rparr>) = lends s" "lends (s\<lparr>ls_now := n'\<rparr>) = lends s"
  by (simp_all add: lends_def write_log_def push_zombie_def record_terminal_def send_def count_in_def cancel_node_def
      reject_over_demand_def reject_zombie_pinned_def)

lemma lends_fold: "(\<And>x s. lends (f x s) = lends s) \<Longrightarrow> lends (fold f xs s) = lends s"
  by (induction xs arbitrary: s) simp_all

lemma lends_cancel_all [simp]: "lends (cancel_all ns s) = lends s"
  by (simp add: cancel_all_def lends_fold)

lemma lends_enter_cancellation [simp]: "lends (enter_cancellation e orig full s) = lends s"
proof -
  have "lends (s\<lparr>ls_origin := orig, ls_flags := fl\<rparr>) = lends s" "lends (s\<lparr>ls_flags := fl\<rparr>) = lends s"
    "lends (s\<lparr>ls_draining := True, ls_drain_deadline := dl\<rparr>) = lends s" for s fl dl
    by (simp_all add: lends_def)
  then show ?thesis
    by (simp add: enter_cancellation_def cancel_pending_default_nodes_def Let_def split: prod.split)
qed

section \<open>Admitting\<close>

lemma start_balanced:
  assumes b: "balanced caps [p] s" and s': "ls_admission s' = ls_admission s" "ls_running s' = ls_running s @ [dp]" "dp_result dp = None"
    and hold: "dp_hold dp = OwnedPermit p \<and> ls_cells s' = ls_cells s
      \<or> dp_hold dp = SharedPermit (length (ls_cells s)) \<and> ls_cells s' = ls_cells s @ [Some p]"
  shows "balanced caps [] s'"
proof -
  have ok: "cells_ok s" and cons: "conserved caps (ls_admission s, outstanding s @ [p], [])" using b by (simp_all add: balanced_def)
  have "mset (outstanding s') = mset (outstanding s @ [p])"
    using hold s' by (auto simp: outstanding_def owned_permits_def cell_permits_def)
  from conserved_mset [OF this, of caps "ls_admission s" "[]"] cons have "conserved caps (ls_admission s', outstanding s', [])"
    by (simp add: s')
  moreover have "cells_ok s'"
    using hold
  proof
    assume "dp_hold dp = OwnedPermit p \<and> ls_cells s' = ls_cells s"
    then show ?thesis using ok unfolding cells_ok_def s'(1,2) by auto
  next
    assume "dp_hold dp = SharedPermit (length (ls_cells s)) \<and> ls_cells s' = ls_cells s @ [Some p]"
    then show ?thesis using ok s'(3) unfolding cells_ok_def s'(1,2) by (auto simp: nth_append less_Suc_eq)
  qed
  ultimately show ?thesis by (simp add: balanced_def)
qed

lemma admit_balanced:
  assumes b: "balanced caps [permit] s" shows "balanced caps [] (admit e name permit s)"
proof (cases "bt_get (ls_runners s) name")
  case None
  let ?s = "s\<lparr>ls_admission := permit_drop permit (ls_admission s)\<rparr>"
  have "conserved caps (permit_drop permit (ls_admission s), outstanding s, [])"
    using b by (intro conserved_drop_mset [of caps _ "outstanding s @ [permit]"]) (simp_all add: balanced_def)
  then have "balanced caps [] ?s" using b by (simp add: balanced_def cells_ok_def outstanding_def)
  moreover have "admit e name permit s = send (done_attempt name Failed [])
      ((write_log (EvNodeReady name) s)\<lparr>ls_admission := permit_drop permit (ls_admission s)\<rparr>)"
    by (simp add: admit_def None write_log_def)
  then have "lends (admit e name permit s) = lends ?s" by (simp only:) (simp add: lends_def write_log_def, simp add: send_def)
  ultimately show ?thesis using balanced_lends by blast
next
  case (Some fate)
  define s0 where "s0 = (write_log (EvNodeReady name) s)
    \<lparr>ls_runners := bt_remove name (ls_runners s), ls_live := bs_insert name (ls_live s)\<rparr>"
  define cls where "cls = (case node_by_id (le_pipeline e) (from_name name) of
      None \<Rightarrow> AwaitBound | Some n \<Rightarrow> effective_class n)"
  obtain hold s1 where arm: "arm_unkillable_deadline e name cls fate permit s0 = (hold, s1)" by fastforce
  obtain child fl where child: "source_child (ls_cancel s1) (ls_flags s1) = (child, fl)" by fastforce
  let ?dp = "\<lparr>dp_node = name, dp_hold = hold, dp_signal = source_signal child, dp_result = None\<rparr>"
  have eq: "admit e name permit s = s1\<lparr>ls_flags := fl, ls_running := ls_running s1 @ [?dp]\<rparr>"
    using Some arm child by (simp add: admit_def Let_def s0_def cls_def write_log_def)
  have s0: "ls_admission s0 = ls_admission s" "ls_running s0 = ls_running s" "ls_cells s0 = ls_cells s"
    by (simp_all add: s0_def write_log_def)
  have "ls_admission s1 = ls_admission s \<and> ls_running s1 = ls_running s \<and>
      (hold = OwnedPermit permit \<and> ls_cells s1 = ls_cells s \<or>
       hold = SharedPermit (length (ls_cells s)) \<and> ls_cells s1 = ls_cells s @ [Some permit])"
    using arm s0 by (auto simp: arm_unkillable_deadline_def Let_def split: option.splits if_splits)
  then show ?thesis unfolding eq by (intro start_balanced [OF b, of _ ?dp]) auto
qed

lemma try_admit_balanced:
  assumes b: "balanced caps [] s" and r: "try_admit name cost (ls_admission s) = (r, adm)"
  shows "balanced caps (case r of None \<Rightarrow> [] | Some permit \<Rightarrow> [permit]) (s\<lparr>ls_admission := adm\<rparr>)"
proof -
  have "conserved caps (adm_step (TryAdmit name cost) (ls_admission s, outstanding s, []))"
    using b by (intro adm_step_conserved) (simp add: balanced_def)
  then have "conserved caps (adm, outstanding s @ (case r of None \<Rightarrow> [] | Some permit \<Rightarrow> [permit]), [])"
    using r by (cases r) simp_all
  then show ?thesis using b by (simp add: balanced_def outstanding_def cells_ok_def)
qed

lemma offer_balanced:
  assumes b: "balanced caps [] s" shows "balanced caps [] (offer_or_pend e name s)"
proof -
  obtain r adm where r: "try_admit name (declared_cost e name) (ls_admission s) = (r, adm)" by fastforce
  note t = try_admit_balanced [OF b r]
  show ?thesis
  proof (cases r)
    case (Some permit)
    with t admit_balanced have "balanced caps [] (admit e name permit (s\<lparr>ls_admission := adm\<rparr>))" by simp
    with balanced_lends [OF lends_small(5)] have "balanced caps [] (count_in (admit e name permit (s\<lparr>ls_admission := adm\<rparr>)))" by blast
    then show ?thesis by (simp add: offer_or_pend_def r Some Let_def)
  next
    case None
    then have "lends (offer_or_pend e name s) = lends s" by (simp add: offer_or_pend_def r Let_def)
    with balanced_lends b show ?thesis by blast
  qed
qed

lemma drain_balanced: "balanced caps [] s \<Longrightarrow> balanced caps [] (drain_pending_at e i s)"
proof (induction e i s rule: drain_pending_at.induct)
  case (1 e i s)
  let ?name = "ls_pending s ! i"
  show ?case
  proof (cases "i < length (ls_pending s)")
    case False
    with 1 show ?thesis by (subst drain_pending_at.simps) simp
  next
    case True
    obtain r adm where r: "try_admit ?name (declared_cost e ?name) (ls_admission s) = (r, adm)" by fastforce
    show ?thesis
    proof (cases r)
      case None
      then show ?thesis
        using True r "1.IH"(1) [OF True refl refl r [symmetric] None] "1.prems"
        by (subst drain_pending_at.simps) (simp add: Let_def)
    next
      case (Some permit)
      define s1 where "s1 = s\<lparr>ls_admission := adm, ls_pending := remove_nth i (ls_pending s)\<rparr>"
      have "balanced caps [permit] (s\<lparr>ls_admission := adm\<rparr>)" using try_admit_balanced [OF "1.prems" r] Some by simp
      moreover have "lends s1 = lends (s\<lparr>ls_admission := adm\<rparr>)" by (simp add: s1_def)
      ultimately have "balanced caps [permit] s1" using balanced_lends by blast
      then have "balanced caps [] (count_in (admit e ?name permit s1))"
        using admit_balanced balanced_lends [OF lends_small(5)] by blast
      then show ?thesis
        using True r Some "1.IH"(2) [OF True refl refl r [symmetric] Some]
        by (subst drain_pending_at.simps) (simp add: Let_def s1_def)
    qed
  qed
qed

section \<open>The rest of the loop\<close>

lemma apply_decisions_balanced: "balanced caps [] s \<Longrightarrow> balanced caps [] (apply_decisions e ds s)"
proof -
  have "balanced caps [] (apply_decision e d s)" if b: "balanced caps [] s" for d s
  proof -
    have same: "balanced caps [] s'" if "lends s' = lends s" for s' using b balanced_lends [OF that] by simp
    show ?thesis
      using same offer_balanced [OF b] b
      by (cases d) (simp_all add: apply_decision_def Let_def del: record_terminal_write_log split: option.split)
  qed
  then show "balanced caps [] s \<Longrightarrow> balanced caps [] (apply_decisions e ds s)"
    unfolding apply_decisions_def by (induction ds arbitrary: s) simp_all
qed

lemma lends_record_events: "lends (fst (fold (record_event e d b consumed) evs (s, n))) = lends s"
proof (induction evs arbitrary: s n)
  case (Cons ev evs)
  have "lends (fst (record_event e d b consumed ev (s, n))) = lends s"
    by (auto simp: record_event_def Let_def write_attempt_event_def write_log_def lends_def split: option.split bool.split)
  with Cons [of "fst (record_event e d b consumed ev (s, n))" "snd (record_event e d b consumed ev (s, n))"]
  show ?case by simp
qed simp

lemma lends_record_attempt_outcome: "lends (snd (record_attempt_outcome e d s)) = lends s"
proof -
  define b where "b = (ls_draining s \<and> bt_get (ls_terminal s) (ad_node d) = None)"
  define consumed where "consumed = consumed_inputs_for (le_pipeline e) (ad_node d) (ls_produced s)"
  obtain s1 n1 where f: "fold (record_event e d b consumed) (ad_events d) (s, 1) = (s1, n1)" by fastforce
  then have "lends s1 = lends s" using lends_record_events [of e d b consumed "ad_events d" s 1] by simp
  then show ?thesis
    unfolding record_attempt_outcome_def b_def [symmetric] consumed_def [symmetric] Let_def f prod.case
    by (cases b) (simp_all del: record_terminal_write_log)
qed

lemma settle_balanced: assumes b: "balanced caps [] s" shows "balanced caps [] (settle e d s)"
proof -
  define s1 where "s1 = s\<lparr>ls_in_flight := ls_in_flight s - 1, ls_live := removeAll (ad_node d) (ls_live s)\<rparr>"
  obtain st s2 where r: "record_attempt_outcome e d s1 = (st, s2)" by fastforce
  have "lends s2 = lends s" using lends_record_attempt_outcome [of e d s1] r by (simp add: s1_def lends_def)
  define s3 where "s3 = (if le_failure_mode e = StopOnFirstFailure \<and> \<not> ls_stopping s2 \<and> is_failure_like st
    then enter_cancellation e (Some FailureUnderStop) False s2 else s2)"
  obtain t ds where n: "notify_terminal (from_name (ad_node d)) st (ls_tracker s3) = (t, ds)" by fastforce
  have "lends (s3\<lparr>ls_tracker := t\<rparr>) = lends s" using \<open>lends s2 = lends s\<close> by (simp add: s3_def)
  with b balanced_lends have "balanced caps [] (s3\<lparr>ls_tracker := t\<rparr>)" by blast
  from apply_decisions_balanced [OF this] have "balanced caps [] (notify_and_apply e (ad_node d) st s3)"
    by (simp add: notify_and_apply_def n)
  moreover have "settle e d s = (let s = notify_and_apply e (ad_node d) st s3 in if \<not> ls_draining s then drain_pending e s else s)"
    unfolding settle_def Let_def s1_def [symmetric] r s3_def by simp
  ultimately show ?thesis using drain_balanced by (simp add: Let_def drain_pending_def)
qed

lemma conserved_zombie: "conserved caps (mark_zombie p i, ps, ls) = conserved caps (i, ps, ls)"
  by (simp add: conserved_def mark_zombie_def)

lemma mark_balanced:
  assumes b: "balanced caps [] s" and r: "mark_unkillable_timeout n cell fate s = (r, s')"
  shows "balanced caps [] s'"
proof -
  have "(ls_admission s' = ls_admission s \<or> (\<exists>p. ls_admission s' = mark_zombie p (ls_admission s)))
      \<and> ls_running s' = ls_running s \<and> ls_cells s' = ls_cells s"
    using r unfolding mark_unkillable_timeout_def Let_def
    by (cases fate) (auto split: prod.splits if_splits option.splits)
  then show ?thesis using b by (auto simp: balanced_def conserved_zombie outstanding_def cells_ok_def)
qed

lemma handle_done_balanced: assumes b: "balanced caps [] s" shows "balanced caps [] (handle_done e d s)"
proof -
  have same: "balanced caps [] s'" if "lends s' = lends s" for s' using b balanced_lends [OF that] by simp
  have to: "balanced caps [] (s'\<lparr>ls_timed_out := ks\<rparr>)" if "balanced caps [] s'" for s' ks
    using that balanced_lends [OF lends_small(12)] by blast
  show ?thesis
  proof (cases "ad_kind d")
    case AttemptKind
    then show ?thesis using same settle_balanced [OF b] drain_balanced [OF to [OF b]] to [OF b]
      by (simp add: handle_done_def Let_def drain_pending_def)
  next
    case (TimeoutFired cell fate)
    obtain r s2 where r: "mark_unkillable_timeout (ad_node d) cell fate s = (r, s2)" by fastforce
    have m: "balanced caps [] s2" by (rule mark_balanced [OF b r])
    from m settle_balanced [OF to [OF m]] b same TimeoutFired r show ?thesis
      by (cases r) (simp_all add: handle_done_def)
  qed
qed

lemma loop_turn_balanced: assumes b: "balanced caps [] s" shows "balanced caps [] (loop_turn e s)"
proof -
  have head: "lends (loop_head e s) = lends s"
    by (simp add: loop_head_def reject_all_pinned_def lends_fold Let_def split: option.split)
  have wait: "balanced caps [] (nothing_received dl x) = balanced caps [] x" for dl x
    unfolding nothing_received_def by (rule balanced_lends) simp
  have phase: "balanced caps [] (x\<lparr>ls_phase := ph\<rparr>) = balanced caps [] x" for x ph by (rule balanced_lends) simp
  have queue: "balanced caps [] (s\<lparr>ls_queue := q\<rparr>)" for q using b balanced_lends [OF lends_small(15)] by blast
  have "balanced caps [] (loop_head e s)" using b balanced_lends [OF head] by blast
  then show ?thesis
    using b handle_done_balanced [OF queue]
    by (simp add: loop_turn_def wait phase Let_def split: Phase.split option.split list.split)
qed

section \<open>Returning\<close>

lemma concat_update:
  "i < length xs \<Longrightarrow> mset (concat (map f xs)) + mset (f y) = mset (concat (map f (xs[i := y]))) + mset (f (xs ! i))"
proof (induction xs arbitrary: i)
  case (Cons x xs)
  then show ?case by (cases i) (simp_all add: add.assoc)
qed simp

lemma owned_result [simp]: "owned_permits (dp\<lparr>dp_result := Some r\<rparr>) = []"
  by (simp add: owned_permits_def split: PermitHold.split)

lemma returned_cells_ok:
  assumes ok: "cells_ok s" and k: "k < length (ls_running s)"
    and cells: "length cells = length (ls_cells s)"
      "\<And>c. c < length cells \<Longrightarrow> cells ! c \<noteq> None \<Longrightarrow> ls_cells s ! c \<noteq> None \<and> dp_hold (ls_running s ! k) \<noteq> SharedPermit c"
  shows "cells_ok (s\<lparr>ls_cells := cells, ls_admission := adm, ls_running := (ls_running s)[k := (ls_running s ! k)\<lparr>dp_result := Some r\<rparr>]\<rparr>)"
proof -
  let ?dp = "ls_running s ! k" and ?rs = "(ls_running s)[k := (ls_running s ! k)\<lparr>dp_result := Some r\<rparr>]"
  have mem: "?dp \<in> set (ls_running s)" using k by simp
  have "c < length cells" if "dp \<in> set ?rs" "dp_hold dp = SharedPermit c" for dp c
  proof -
    have "dp \<in> set (ls_running s) \<or> dp = ?dp\<lparr>dp_result := Some r\<rparr>"
      using that(1) set_update_subset_insert by fastforce
    then show ?thesis using ok mem that(2) cells(1) unfolding cells_ok_def by fastforce
  qed
  moreover have "\<exists>dp \<in> set ?rs. dp_hold dp = SharedPermit c \<and> dp_result dp = None"
    if c: "c < length cells" "cells ! c \<noteq> None" for c
  proof -
    obtain dp where dp: "dp \<in> set (ls_running s)" "dp_hold dp = SharedPermit c" "dp_result dp = None"
      using ok c cells unfolding cells_ok_def by metis
    then obtain j where j: "j < length (ls_running s)" "ls_running s ! j = dp" by (auto simp: in_set_conv_nth)
    then have "j \<noteq> k" using dp(2) cells(2) [OF c] by auto
    then have "?rs ! j = dp" "j < length ?rs" using j by simp_all
    then have "dp \<in> set ?rs" by (metis nth_mem)
    with dp show ?thesis by blast
  qed
  ultimately show ?thesis unfolding cells_ok_def by simp
qed

lemma attempt_returns_balanced:
  assumes b: "balanced caps [] s" shows "balanced caps [] (attempt_returns k st evs reference meta s)"
proof (cases "k < length (ls_running s) \<and> dp_result (ls_running s ! k) = None")
  case False
  then show ?thesis using b by (auto simp: attempt_returns_def)
next
  case True
  let ?dp = "ls_running s ! k"
  define r where "r = \<lparr>re_state = st, re_events = evs, re_durable_reference = (if st = Succeeded then reference else None),
      re_durable_reference_meta = (if st = Succeeded then meta else None)\<rparr>"
  let ?rs = "(ls_running s)[k := ?dp\<lparr>dp_result := Some r\<rparr>]"
  have cons: "conserved caps (ls_admission s, outstanding s, [])" and ok: "cells_ok s"
    using b by (simp_all add: balanced_def)
  have run: "mset (concat (map owned_permits (ls_running s))) = mset (concat (map owned_permits ?rs)) + mset (owned_permits ?dp)"
    using concat_update [of k "ls_running s" owned_permits "?dp\<lparr>dp_result := Some r\<rparr>"] True by simp
  define cells adm where "cells = ls_cells (hold_release (dp_hold ?dp) s)" and "adm = ls_admission (hold_release (dp_hold ?dp) s)"
  have "hold_release (dp_hold ?dp) s = s\<lparr>ls_cells := cells, ls_admission := adm\<rparr>"
    by (simp add: cells_def adm_def hold_release_def split: PermitHold.split option.split)
  then have eq: "attempt_returns k st evs reference meta s = s\<lparr>ls_cells := cells, ls_admission := adm, ls_running := ?rs\<rparr>"
    using True by (simp add: attempt_returns_def Let_def r_def)
  have "conserved caps (adm, concat (map owned_permits ?rs) @ concat (map cell_permits cells), []) \<and> length cells = length (ls_cells s)
      \<and> (\<forall>c < length cells. cells ! c \<noteq> None \<longrightarrow> ls_cells s ! c \<noteq> None \<and> dp_hold ?dp \<noteq> SharedPermit c)"
  proof (cases "dp_hold ?dp")
    case (OwnedPermit p)
    then have "cells = ls_cells s" "adm = permit_drop p (ls_admission s)" "owned_permits ?dp = [p]"
      using True by (simp_all add: cells_def adm_def hold_release_def owned_permits_def)
    moreover from this run have "conserved caps (permit_drop p (ls_admission s), concat (map owned_permits ?rs) @ concat (map cell_permits (ls_cells s)), [])"
      by (intro conserved_drop_mset [OF cons]) (simp add: outstanding_def)
    ultimately show ?thesis using OwnedPermit by simp
  next
    case (SharedPermit c)
    have c: "c < length (ls_cells s)" using ok SharedPermit True unfolding cells_ok_def by (metis nth_mem)
    have o: "owned_permits ?dp = []" by (simp add: owned_permits_def SharedPermit)
    show ?thesis
    proof (cases "ls_cells s ! c")
      case None
      then have "cells = ls_cells s" "adm = ls_admission s" by (simp_all add: cells_def adm_def hold_release_def SharedPermit)
      moreover have "mset (concat (map owned_permits ?rs) @ concat (map cell_permits (ls_cells s))) = mset (outstanding s)"
        using run o by (simp add: outstanding_def)
      ultimately have "conserved caps (adm, concat (map owned_permits ?rs) @ concat (map cell_permits cells), [])"
        using cons conserved_mset by metis
      then show ?thesis using \<open>cells = ls_cells s\<close> SharedPermit None by auto
    next
      case (Some p)
      then have ca: "cells = (ls_cells s)[c := None]" "adm = permit_drop p (ls_admission s)"
        by (simp_all add: cells_def adm_def hold_release_def SharedPermit)
      have "mset (concat (map cell_permits (ls_cells s))) = mset (concat (map cell_permits cells)) + {#p#}"
        using concat_update [of c "ls_cells s" cell_permits None] c Some by (simp add: ca cell_permits_def)
      then have "conserved caps (permit_drop p (ls_admission s), concat (map owned_permits ?rs) @ concat (map cell_permits cells), [])"
        using run o by (intro conserved_drop_mset [OF cons]) (simp add: outstanding_def)
      then show ?thesis using SharedPermit c by (auto simp: ca nth_list_update split: if_splits)
    qed
  qed
  then show ?thesis
    using returned_cells_ok [OF ok, where k = k and cells = cells and adm = adm and r = r] True by (simp add: balanced_def eq outstanding_def)
qed

lemma attempt_reports_balanced:
  assumes b: "balanced caps [] s" shows "balanced caps [] (attempt_reports k s)"
proof (cases "k < length (ls_running s) \<and> dp_result (ls_running s ! k) \<noteq> None")
  case False
  then show ?thesis using b by (auto simp: attempt_reports_def)
next
  case True
  let ?s = "s\<lparr>ls_running := remove_nth k (ls_running s)\<rparr>"
  have m: "mset (ls_running s) = add_mset (ls_running s ! k) (mset (remove_nth k (ls_running s)))"
    using True by (simp add: mset_remove_nth)
  have "owned_permits (ls_running s ! k) = []" using True by (auto simp: owned_permits_def split: PermitHold.split)
  moreover have "mset (concat (map owned_permits (ls_running s)))
      = mset (concat (map owned_permits (remove_nth k (ls_running s)))) + mset (owned_permits (ls_running s ! k))"
    using m by (simp add: mset_concat flip: sum_mset_sum_list)
  ultimately have "mset (outstanding ?s) = mset (outstanding s)" by (simp add: outstanding_def)
  from conserved_mset [OF this, of caps "ls_admission s" "[]"] have "conserved caps (ls_admission ?s, outstanding ?s, [])"
    using b by (simp add: balanced_def)
  moreover have "cells_ok ?s"
  proof -
    have set: "set (ls_running s) = insert (ls_running s ! k) (set (remove_nth k (ls_running s)))"
      using m by (metis set_mset_add_mset_insert set_mset_mset)
    then show ?thesis using b True unfolding balanced_def cells_ok_def by fastforce
  qed
  ultimately have "balanced caps [] ?s" by (simp add: balanced_def)
  then have "balanced caps [] (send d ?s)" for d using balanced_lends [OF lends_small(4)] by blast
  then show ?thesis using True by (auto simp: attempt_reports_def)
qed

lemma act_balanced: "balanced caps [] s \<Longrightarrow> balanced caps [] (act e a s)"
proof (cases a)
  case Interrupt
  have "lends (interrupt s) = lends s"
    by (simp add: interrupt_def trigger_request_def Let_def) (simp add: lends_def)
  from balanced_lends [OF this, of caps "[]"] show "balanced caps [] s \<Longrightarrow> ?thesis" by (simp add: Interrupt)
next
  case (TimerFires k)
  have "lends (timer_fires k s) = lends s" by (simp add: timer_fires_def) (simp add: lends_def)
  from balanced_lends [OF this, of caps "[]"] show "balanced caps [] s \<Longrightarrow> ?thesis" by (simp add: TimerFires)
next
  case (Tick d)
  then show "balanced caps [] s \<Longrightarrow> ?thesis" using balanced_lends [OF lends_small(16)] by simp
next
  case (FateBegins k)
  have "lends (set_fate k f s) = lends s" for f by (simp add: set_fate_def lends_def)
  from balanced_lends [OF this, of caps "[]"] show "balanced caps [] s \<Longrightarrow> ?thesis" by (simp add: FateBegins)
next
  case (FateCompletes k)
  have "lends (set_fate k f s) = lends s" for f by (simp add: set_fate_def lends_def)
  from balanced_lends [OF this, of caps "[]"] show "balanced caps [] s \<Longrightarrow> ?thesis" by (simp add: FateCompletes)
qed (simp_all add: loop_turn_balanced attempt_returns_balanced attempt_reports_balanced)

interpretation run_capacity: invariant_machine "act e" "balanced caps []" for e caps
  by unfold_locales (rule act_balanced)

lemma fresh_run_balanced: "balanced caps [] (fresh_run e a ords (controller_new caps) runners fates now evs acts)"
proof -
  let ?s = "initial_loop_state (new_with_ordering (le_pipeline e) a ords) (controller_new caps) runners fates None now evs"
  have start: "balanced caps [] ?s"
    using controller_new_conserved by (simp add: balanced_def cells_ok_def outstanding_def initial_loop_state_def split: prod.split)
  have "balanced caps [] (offer_initial e i s)" if "balanced caps [] s" for i s
    using that offer_balanced by (simp add: offer_initial_def split: option.split)
  then have "balanced caps [] (fold (offer_initial e) is s)" if "balanced caps [] s" for "is" s
    using that by (induction "is" arbitrary: s) simp_all
  with start have "balanced caps [] (loop_start e [] ?s)" by (simp add: loop_start_def Let_def)
  then show ?thesis unfolding fresh_run_def by (rule run_capacity.run_inv)
qed

text \<open>
  C20. A run neither loses capacity nor grants it twice: at every moment, whatever attempts, deadlines
  and cancellations do, what is left of a pool and what the permits that are out hold of it add up to
  the pool, and once every dispatched attempt has returned no permit is out and every pool is whole.
\<close>

theorem run_capacity_conserved:
  assumes s: "s = fresh_run e a ords (controller_new caps) runners fates now evs acts"
  shows "(\<forall>pool. unat (remaining (ls_admission s) pool) + held pool (outstanding s) = unat (total caps pool))
    \<and> ((\<forall>dp \<in> set (ls_running s). dp_result dp \<noteq> None) \<longrightarrow>
        (\<forall>pool. remaining (ls_admission s) pool = total caps pool))"
proof -
  have b: "balanced caps [] s" unfolding s by (rule fresh_run_balanced)
  then have sum: "unat (remaining (ls_admission s) pool) + held pool (outstanding s) = unat (total caps pool)" for pool
    by (simp add: balanced_def conserved_def)
  have "outstanding s = []" if r: "\<forall>dp \<in> set (ls_running s). dp_result dp \<noteq> None"
  proof -
    have "owned_permits dp = []" if "dp \<in> set (ls_running s)" for dp
      using r that by (auto simp: owned_permits_def split: PermitHold.split)
    moreover have "cell_permits c = []" if "c \<in> set (ls_cells s)" for c
    proof -
      have "c = None" using b r that unfolding balanced_def cells_ok_def by (metis in_set_conv_nth)
      then show ?thesis by (simp add: cell_permits_def)
    qed
    ultimately show ?thesis by (simp add: outstanding_def)
  qed
  then have "remaining (ls_admission s) pool = total caps pool" if "\<forall>dp \<in> set (ls_running s). dp_result dp \<noteq> None" for pool
    using sum [of pool] that by (simp add: word_unat_eq_iff)
  with sum show ?thesis by blast
qed

theorem run_capacity_conserved_witness:
  "unat (remaining (ls_admission (demo_run [LoopTurn])) BlockingThreads)
     + held BlockingThreads (outstanding (demo_run [LoopTurn])) = unat (total capacities_new BlockingThreads)"
  using run_capacity_conserved [OF refl] unfolding demo_run_def by blast

end
