(* ===== verification/Std_Text.thy ===== *)
theory Std_Text
  imports Prelude
begin

text \<open>
  The string functions of Rust's standard library that the configuration surface rests on, over the
  bytes of a UTF-8 string: trimming and splitting at Unicode white space, lines, prefixes, and the
  parsers of the integer types.
\<close>

section \<open>White space\<close>

text \<open>The encodings of the characters with the property White\_Space.\<close>

definition WHITE_SPACE :: "string list" where
  "WHITE_SPACE =
     [[CHR 0x09], [CHR 0x0A], [CHR 0x0B], [CHR 0x0C], [CHR 0x0D], [CHR 0x20],
      [CHR 0xC2, CHR 0x85], [CHR 0xC2, CHR 0xA0], [CHR 0xE1, CHR 0x9A, CHR 0x80],
      [CHR 0xE2, CHR 0x80, CHR 0x80], [CHR 0xE2, CHR 0x80, CHR 0x81], [CHR 0xE2, CHR 0x80, CHR 0x82],
      [CHR 0xE2, CHR 0x80, CHR 0x83], [CHR 0xE2, CHR 0x80, CHR 0x84], [CHR 0xE2, CHR 0x80, CHR 0x85],
      [CHR 0xE2, CHR 0x80, CHR 0x86], [CHR 0xE2, CHR 0x80, CHR 0x87], [CHR 0xE2, CHR 0x80, CHR 0x88],
      [CHR 0xE2, CHR 0x80, CHR 0x89], [CHR 0xE2, CHR 0x80, CHR 0x8A], [CHR 0xE2, CHR 0x80, CHR 0xA8],
      [CHR 0xE2, CHR 0x80, CHR 0xA9], [CHR 0xE2, CHR 0x80, CHR 0xAF], [CHR 0xE2, CHR 0x81, CHR 0x9F],
      [CHR 0xE3, CHR 0x80, CHR 0x80]]"

fun strip_prefix :: "string \<Rightarrow> string \<Rightarrow> string option" where
  "strip_prefix [] s = Some s"
| "strip_prefix (p # ps) [] = None"
| "strip_prefix (p # ps) (c # s) = (if p = c then strip_prefix ps s else None)"

definition starts_with :: "string \<Rightarrow> string \<Rightarrow> bool" where
  "starts_with p s \<longleftrightarrow> strip_prefix p s \<noteq> None"

lemma strip_prefix_Some: "strip_prefix p s = Some r \<longleftrightarrow> s = p @ r"
  by (induction p s rule: strip_prefix.induct) auto

lemma strip_prefix_append [simp]: "strip_prefix p (p @ s) = Some s"
  by (simp add: strip_prefix_Some)

text \<open>How many bytes the first of the given encodings takes that the text starts with.\<close>

definition lead :: "string list \<Rightarrow> string \<Rightarrow> nat" where
  "lead ws s = (case List.find (\<lambda>w. starts_with w s) ws of None \<Rightarrow> 0 | Some w \<Rightarrow> length w)"

lemma lead_bound: "lead ws s \<le> length s"
  by (auto simp: lead_def starts_with_def strip_prefix_Some find_Some_iff split: option.split)

function trim_lead :: "string list \<Rightarrow> string \<Rightarrow> string" where
  "trim_lead ws s = (if lead ws s = 0 then s else trim_lead ws (drop (lead ws s) s))"
  by auto
termination
proof (relation "measure (\<lambda>(ws, s). length s)")
  show "((ws, drop (lead ws s) s), ws, s) \<in> measure (\<lambda>(ws, s). length s)" if "lead ws s \<noteq> 0" for ws s
    using that lead_bound [of ws s] by simp
qed simp

declare trim_lead.simps [simp del]

definition trim_start :: "string \<Rightarrow> string" where
  "trim_start s = trim_lead WHITE_SPACE s"

definition trim_end :: "string \<Rightarrow> string" where
  "trim_end s = rev (trim_lead (map rev WHITE_SPACE) (rev s))"

definition trim :: "string \<Rightarrow> string" where
  "trim s = trim_end (trim_start s)"

text \<open>Splitting at runs of white space; the accumulator is the current word, reversed.\<close>

definition push_word :: "string \<Rightarrow> string list \<Rightarrow> string list" where
  "push_word cur ws = (if cur = [] then ws else rev cur # ws)"

function split_words :: "string \<Rightarrow> string \<Rightarrow> string list" where
  "split_words cur s =
     (case s of
        [] \<Rightarrow> push_word cur []
      | c # rest \<Rightarrow>
          if lead WHITE_SPACE s = 0 then split_words (c # cur) rest
          else push_word cur (split_words [] (drop (lead WHITE_SPACE s) s)))"
  by pat_completeness auto
termination
proof (relation "measure (\<lambda>(cur, s). length s)")
  show "(([], drop (lead WHITE_SPACE s) s), cur, s) \<in> measure (\<lambda>(cur, s). length s)"
    if "s = c # rest" "lead WHITE_SPACE s \<noteq> 0" for cur s c rest
    using that lead_bound [of WHITE_SPACE s] by simp
qed simp_all

declare split_words.simps [simp del]

definition split_whitespace :: "string \<Rightarrow> string list" where
  "split_whitespace s = split_words [] s"

section \<open>Lines\<close>

definition strip_cr :: "string \<Rightarrow> string" where
  "strip_cr l = (if l \<noteq> [] \<and> last l = CHR 0x0D then butlast l else l)"

fun text_lines_from :: "string \<Rightarrow> string \<Rightarrow> string list" where
  "text_lines_from cur [] = (if cur = [] then [] else [rev cur])"
| "text_lines_from cur (c # s) =
     (if c = CHR 0x0A then strip_cr (rev cur) # text_lines_from [] s else text_lines_from (c # cur) s)"

definition text_lines :: "string \<Rightarrow> string list" where
  "text_lines s = text_lines_from [] s"

section \<open>Integers\<close>

definition parse_digits :: "string \<Rightarrow> nat option" where
  "parse_digits s = (if s \<noteq> [] \<and> list_all is_digit s then Some (read_nat s) else None)"

text \<open>An unsigned type takes one leading plus, a signed one also a minus.\<close>

definition parse_unsigned :: "nat \<Rightarrow> string \<Rightarrow> nat option" where
  "parse_unsigned bound s =
     (let digits = (case s of c # rest \<Rightarrow> if c = CHR ''+'' then rest else s | [] \<Rightarrow> s)
      in case parse_digits digits of None \<Rightarrow> None | Some n \<Rightarrow> if n < bound then Some n else None)"

definition parse_u64 :: "string \<Rightarrow> u64 option" where
  "parse_u64 s = map_option of_nat (parse_unsigned (2 ^ 64) s)"

definition parse_u32 :: "string \<Rightarrow> u32 option" where
  "parse_u32 s = map_option of_nat (parse_unsigned (2 ^ 32) s)"

definition parse_i64 :: "string \<Rightarrow> int option" where
  "parse_i64 s =
     (case s of
        c # rest \<Rightarrow>
          if c = CHR ''-''
          then (case parse_digits rest of None \<Rightarrow> None | Some n \<Rightarrow> if n \<le> 2 ^ 63 then Some (- int n) else None)
          else map_option int (parse_unsigned (2 ^ 63) s)
      | [] \<Rightarrow> None)"

lemma show_nat_first: "show_nat n = c # s \<Longrightarrow> is_digit c"
  using show_nat_digits [of c n] by simp

lemma parse_digits_show [simp]: "parse_digits (show_nat n) = Some n"
  using show_nat_digits [of _ n] by (simp add: parse_digits_def list_all_iff)

lemma parse_unsigned_show: "parse_unsigned bound (show_nat n) = (if n < bound then Some n else None)"
proof -
  obtain c s where "show_nat n = c # s" by (cases "show_nat n") auto
  moreover from show_nat_first [OF this] have "c \<noteq> CHR ''+''" by (auto simp: is_digit_def)
  moreover have "parse_digits (c # s) = Some n" using parse_digits_show [of n] calculation by simp
  ultimately show ?thesis by (simp add: parse_unsigned_def)
qed

lemma parse_u64_show: "parse_u64 (show_nat (unat w)) = Some w"
proof -
  have "unat w < 2 ^ 64" using unsigned_less [of w, where ?'a = nat] by simp
  then show ?thesis by (simp add: parse_u64_def parse_unsigned_show)
qed

lemma parse_u32_show: "parse_u32 (show_nat (unat w)) = Some w"
proof -
  have "unat w < 2 ^ 32" using unsigned_less [of w, where ?'a = nat] by simp
  then show ?thesis by (simp add: parse_u32_def parse_unsigned_show)
qed

text \<open>Trimming leaves a text without white space at its ends alone.\<close>

lemma trim_lead_none: "lead ws s = 0 \<Longrightarrow> trim_lead ws s = s"
  by (subst trim_lead.simps) simp

end
