(* ===== verification/Pool_Limits.thy ===== *)
theory Pool_Limits
  imports Std_Text Admission
begin

text \<open>
  Capacity detection (\<open>crates/core/src/limits.rs\<close>): the pool sizes a run gets from operator pins,
  from the cgroup files of either version or from the host, and the bootstrap check that no node
  demands more than a pool holds.  The files under the probe's root are a map from relative paths
  to contents; the product of a raw limit and the kept fraction, a double's, is a parameter.
\<close>

section \<open>Pins\<close>

record PinnedPools =
  pin_memory :: "u64 option"
  pin_blocking_threads :: "u32 option"
  pin_compute_threads :: "u32 option"

definition pins_new :: PinnedPools where
  "pins_new = \<lparr>pin_memory = None, pin_blocking_threads = None, pin_compute_threads = None\<rparr>"

definition pin_memory_to :: "u64 \<Rightarrow> PinnedPools \<Rightarrow> PinnedPools" where
  "pin_memory_to bytes p = p\<lparr>pin_memory := Some bytes\<rparr>"

definition pin_blocking_to :: "u32 \<Rightarrow> PinnedPools \<Rightarrow> PinnedPools" where
  "pin_blocking_to threads p = p\<lparr>pin_blocking_threads := Some threads\<rparr>"

definition pin_compute_to :: "u32 \<Rightarrow> PinnedPools \<Rightarrow> PinnedPools" where
  "pin_compute_to threads p = p\<lparr>pin_compute_threads := Some threads\<rparr>"

definition RESERVED_PREFIX :: string where "RESERVED_PREFIX = ''dagr.pool.''"
definition KEY_MEMORY :: string where "KEY_MEMORY = ''dagr.pool.memory''"
definition KEY_BLOCKING :: string where "KEY_BLOCKING = ''dagr.pool.blocking-threads''"
definition KEY_COMPUTE :: string where "KEY_COMPUTE = ''dagr.pool.compute-threads''"

definition not_an_integer :: "string \<Rightarrow> string \<Rightarrow> string" where
  "not_an_integer key value =
     ''pinning value for `'' @ key @ ''` is not a non-negative integer: `'' @ value @ ''`''"

definition pool_parse_u64 :: "string \<Rightarrow> string \<Rightarrow> string + u64" where
  "pool_parse_u64 key value =
     (case parse_u64 (trim value) of None \<Rightarrow> Inl (not_an_integer key value) | Some n \<Rightarrow> Inr n)"

definition pool_parse_u32 :: "string \<Rightarrow> string \<Rightarrow> string + u32" where
  "pool_parse_u32 key value =
     (case parse_u32 (trim value) of None \<Rightarrow> Inl (not_an_integer key value) | Some n \<Rightarrow> Inr n)"

definition set_flag :: "string \<Rightarrow> string \<Rightarrow> PinnedPools \<Rightarrow> string + PinnedPools" where
  "set_flag key value p =
     (if \<not> starts_with RESERVED_PREFIX key
      then Inl (''pinning key `'' @ key @ ''` is outside the reserved `'' @ RESERVED_PREFIX
        @ ''` namespace; only framework-reserved `dagr.`-prefixed pool keys may pin capacity'')
      else if key = KEY_MEMORY then map_sum id (\<lambda>n. pin_memory_to n p) (pool_parse_u64 key value)
      else if key = KEY_BLOCKING then map_sum id (\<lambda>n. pin_blocking_to n p) (pool_parse_u32 key value)
      else if key = KEY_COMPUTE then map_sum id (\<lambda>n. pin_compute_to n p) (pool_parse_u32 key value)
      else Inl (''pinning key `'' @ key @ ''` is in the reserved namespace but is not a known pool key (''
        @ KEY_MEMORY @ '', '' @ KEY_BLOCKING @ '', '' @ KEY_COMPUTE @ '')''))"

section \<open>The probe\<close>

text \<open>\<open>kept64\<close> and \<open>kept32\<close> stand for the floor of the raw limit times the kept fraction.\<close>

record ContainerLimitProbe =
  pb_files :: "string \<Rightarrow> string option"
  pb_host_cores :: u32
  pb_kept64 :: "u64 \<Rightarrow> u64"
  pb_kept32 :: "u32 \<Rightarrow> u32"
  pb_pins :: PinnedPools

definition with_host_cores :: "u32 \<Rightarrow> ContainerLimitProbe \<Rightarrow> ContainerLimitProbe" where
  "with_host_cores cores pb = pb\<lparr>pb_host_cores := cores\<rparr>"

definition with_pins :: "PinnedPools \<Rightarrow> ContainerLimitProbe \<Rightarrow> ContainerLimitProbe" where
  "with_pins pins pb = pb\<lparr>pb_pins := pins\<rparr>"

definition CGROUP_V1_UNLIMITED_THRESHOLD :: nat where
  "CGROUP_V1_UNLIMITED_THRESHOLD = (2 ^ 64 - 1) div 4096 * 4096 - 4294967296"

definition HOST_MEMORY_FALLBACK_BYTES :: u64 where
  "HOST_MEMORY_FALLBACK_BYTES = 1073741824"

definition probe_read :: "ContainerLimitProbe \<Rightarrow> string \<Rightarrow> string option" where
  "probe_read pb rel =
     (case map_option trim (pb_files pb rel) of Some s \<Rightarrow> if s = [] then None else Some s | None \<Rightarrow> None)"

definition parse_cgroup_v2_max :: "string \<Rightarrow> u64 option" where
  "parse_cgroup_v2_max raw = (let raw = trim raw in if raw = ''max'' then None else parse_u64 raw)"

definition threads_from_quota :: "u64 \<Rightarrow> u64 \<Rightarrow> u32 option" where
  "threads_from_quota quota period =
     (if period = 0 then None
      else let threads = unat quota div unat period in if threads < 2 ^ 32 then Some (of_nat threads) else None)"

definition MEM_TOTAL :: string where "MEM_TOTAL = ''MemTotal:''"

definition checked_kib :: "u64 \<Rightarrow> u64 option" where
  "checked_kib kib = (if unat kib * 1024 < 2 ^ 64 then Some (kib * 1024) else None)"

fun meminfo_total :: "string list \<Rightarrow> u64 option" where
  "meminfo_total [] = None"
| "meminfo_total (line # rest) =
     (case strip_prefix MEM_TOTAL line of
        None \<Rightarrow> meminfo_total rest
      | Some r \<Rightarrow>
          (case split_whitespace r of [] \<Rightarrow> None | w # _ \<Rightarrow> Option.bind (parse_u64 w) checked_kib))"

definition parse_meminfo_total_bytes :: "string \<Rightarrow> u64 option" where
  "parse_meminfo_total_bytes raw = meminfo_total (text_lines raw)"

definition cgroup_v2_memory :: "ContainerLimitProbe \<Rightarrow> u64 option" where
  "cgroup_v2_memory pb = Option.bind (probe_read pb ''sys/fs/cgroup/memory.max'') parse_cgroup_v2_max"

definition cgroup_v2_cpu :: "ContainerLimitProbe \<Rightarrow> u32 option" where
  "cgroup_v2_cpu pb =
     Option.bind (probe_read pb ''sys/fs/cgroup/cpu.max'') (\<lambda>raw.
       case split_whitespace raw of
         [] \<Rightarrow> None
       | quota # rest \<Rightarrow>
           if quota = ''max'' then None
           else Option.bind (parse_u64 quota) (\<lambda>quota.
             case rest of [] \<Rightarrow> None | period # _ \<Rightarrow>
               Option.bind (parse_u64 period) (threads_from_quota quota)))"

definition cgroup_v1_memory :: "ContainerLimitProbe \<Rightarrow> u64 option" where
  "cgroup_v1_memory pb =
     Option.bind (probe_read pb ''sys/fs/cgroup/memory/memory.limit_in_bytes'') (\<lambda>raw.
       Option.bind (parse_u64 (trim raw)) (\<lambda>bytes.
         if unat bytes \<ge> CGROUP_V1_UNLIMITED_THRESHOLD then None else Some bytes))"

definition cgroup_v1_cpu :: "ContainerLimitProbe \<Rightarrow> u32 option" where
  "cgroup_v1_cpu pb =
     Option.bind (probe_read pb ''sys/fs/cgroup/cpu/cpu.cfs_quota_us'') (\<lambda>quota_raw.
       Option.bind (parse_i64 (trim quota_raw)) (\<lambda>quota.
         if quota < 0 then None
         else Option.bind (probe_read pb ''sys/fs/cgroup/cpu/cpu.cfs_period_us'') (\<lambda>period_raw.
           Option.bind (parse_u64 (trim period_raw)) (threads_from_quota (of_int quota)))))"

definition host_memory :: "ContainerLimitProbe \<Rightarrow> u64" where
  "host_memory pb =
     (case Option.bind (probe_read pb ''proc/meminfo'') parse_meminfo_total_bytes of
        None \<Rightarrow> HOST_MEMORY_FALLBACK_BYTES | Some bytes \<Rightarrow> bytes)"

definition or_else :: "'a option \<Rightarrow> 'a option \<Rightarrow> 'a option" where
  "or_else a b = (case a of None \<Rightarrow> b | Some _ \<Rightarrow> a)"

definition unwrap_or :: "'a option \<Rightarrow> 'a \<Rightarrow> 'a" where
  "unwrap_or a d = (case a of None \<Rightarrow> d | Some x \<Rightarrow> x)"

record RawLimits =
  rl_memory_bytes :: u64
  rl_cpu_threads :: u32

definition raw_limits :: "ContainerLimitProbe \<Rightarrow> RawLimits" where
  "raw_limits pb =
     \<lparr>rl_memory_bytes = unwrap_or (or_else (cgroup_v2_memory pb) (cgroup_v1_memory pb)) (host_memory pb),
      rl_cpu_threads = unwrap_or (or_else (cgroup_v2_cpu pb) (cgroup_v1_cpu pb)) (pb_host_cores pb)\<rparr>"

definition apply_headroom_u64 :: "ContainerLimitProbe \<Rightarrow> u64 \<Rightarrow> u64" where
  "apply_headroom_u64 pb raw = max (pb_kept64 pb raw) 1"

definition apply_headroom_u32 :: "ContainerLimitProbe \<Rightarrow> u32 \<Rightarrow> u32" where
  "apply_headroom_u32 pb raw = max (pb_kept32 pb raw) 1"

definition detect :: "ContainerLimitProbe \<Rightarrow> PoolCapacities" where
  "detect pb =
     (let raw = raw_limits pb;
          memory = unwrap_or (pin_memory (pb_pins pb)) (apply_headroom_u64 pb (rl_memory_bytes raw));
          compute = unwrap_or (pin_compute_threads (pb_pins pb)) (apply_headroom_u32 pb (rl_cpu_threads raw));
          blocking = unwrap_or (pin_blocking_threads (pb_pins pb)) (apply_headroom_u32 pb (rl_cpu_threads raw))
      in cap_blocking_threads blocking (cap_compute_threads compute (cap_memory memory capacities_new)))"

section \<open>The bootstrap check\<close>

record CapacityError =
  ce_node :: string
  ce_pool :: Pool
  ce_declared_cost :: u64
  ce_capacity :: u64

definition pool_errors :: "PoolCapacities \<Rightarrow> string \<times> PoolCost \<Rightarrow> CapacityError list" where
  "pool_errors caps = (\<lambda>(node, cost).
     map (\<lambda>pool. \<lparr>ce_node = node, ce_pool = pool, ce_declared_cost = demand_on cost pool, ce_capacity = total caps pool\<rparr>)
       (filter (\<lambda>pool. demand_on cost pool > total caps pool) POOL_ALL))"

definition detect_capacities :: "PoolCapacities \<Rightarrow> (string \<times> PoolCost) list \<Rightarrow> CapacityError list + unit" where
  "detect_capacities caps node_costs =
     (let errors = concat (map (pool_errors caps) node_costs) in if errors = [] then Inr () else Inl errors)"

fun capacity_unit :: "Pool \<Rightarrow> string" where
  "capacity_unit Memory = ''bytes''"
| "capacity_unit BlockingThreads = ''threads''"
| "capacity_unit ComputeThreads = ''threads''"
| "capacity_unit RemoteSlots = ''remote slots''"

fun pool_debug :: "Pool \<Rightarrow> string" where
  "pool_debug Memory = ''Memory''"
| "pool_debug BlockingThreads = ''BlockingThreads''"
| "pool_debug ComputeThreads = ''ComputeThreads''"
| "pool_debug RemoteSlots = ''RemoteSlots''"

definition capacity_error_display :: "CapacityError \<Rightarrow> string" where
  "capacity_error_display e =
     (let u = capacity_unit (ce_pool e)
      in ''node `'' @ ce_node e @ ''` declares '' @ show_nat (unat (ce_declared_cost e)) @ '' '' @ u @ '' for the ''
         @ pool_debug (ce_pool e) @ '' pool, which exceeds its total capacity ''
         @ show_nat (unat (ce_capacity e)) @ '' '' @ u)"

definition capacity_failure_display :: "CapacityError list \<Rightarrow> string" where
  "capacity_failure_display errors =
     ''bootstrap failed: '' @ show_nat (length errors) @ '' node(s) declare a cost exceeding pool capacity''
     @ concat (map (\<lambda>e. ''; '' @ capacity_error_display e) errors)"

definition errors_by_node :: "CapacityError list \<Rightarrow> (string, CapacityError list) btree" where
  "errors_by_node errors = fold (\<lambda>e. bt_push (ce_node e) e) errors []"

section \<open>Properties\<close>

lemma detect_capacities_Inr:
  "detect_capacities caps costs = Inr () \<longleftrightarrow>
     (\<forall>(node, cost) \<in> set costs. can_ever_fit (controller_new caps) cost)"
proof -
  have "pool_errors caps (n, c) = [] \<longleftrightarrow> can_ever_fit (controller_new caps) c" for n c
    by (auto simp: pool_errors_def can_ever_fit_def fits_total_def controller_new_def filter_empty_conv list_all_iff not_less)
  then show ?thesis by (force simp: detect_capacities_def Let_def)
qed

text \<open>
  C32. The bootstrap check refuses a run exactly when some node could never be admitted by the
  run's controller, and then its errors are exactly the pools that each node overruns, with what
  the node declares and what the pool holds.
\<close>

theorem detect_capacities_exact:
  "(detect_capacities caps costs = Inr () \<longleftrightarrow> list_all (\<lambda>(node, cost). can_ever_fit (controller_new caps) cost) costs)
   \<and> (\<forall>errors. detect_capacities caps costs = Inl errors \<longrightarrow>
        set errors = {\<lparr>ce_node = node, ce_pool = pool, ce_declared_cost = demand_on cost pool, ce_capacity = total caps pool\<rparr>
                      | node cost pool. (node, cost) \<in> set costs \<and> demand_on cost pool > total caps pool})"
proof -
  have "pool \<in> set POOL_ALL" for pool by (cases pool) (simp_all add: POOL_ALL_def)
  then have "set (concat (map (pool_errors caps) costs)) =
      {\<lparr>ce_node = node, ce_pool = pool, ce_declared_cost = demand_on cost pool, ce_capacity = total caps pool\<rparr>
       | node cost pool. (node, cost) \<in> set costs \<and> demand_on cost pool > total caps pool}"
    by (auto simp: pool_errors_def)
  then show ?thesis
    unfolding detect_capacities_Inr by (auto simp: detect_capacities_def Let_def list_all_iff)
qed

definition big_cost :: PoolCost where
  "big_cost = \<lparr>co_working_memory = 0, co_output_residency = 0, co_blocking_threads = 3, co_compute_threads = 0, co_remote_slots = 0\<rparr>"

theorem detect_capacities_exact_witness:
  "detect_capacities (cap_blocking_threads 2 capacities_new) [(''n'', big_cost)] \<noteq> Inr ()"
proof -
  have "\<not> list_all (\<lambda>(node, cost). can_ever_fit (controller_new (cap_blocking_threads 2 capacities_new)) cost) [(''n'', big_cost)]"
    by code_simp
  with detect_capacities_exact show ?thesis by blast
qed

text \<open>Whatever the files say, a pool that is not pinned has at least one unit.\<close>

lemma detect_positive:
  "(pin_memory (pb_pins pb) = None \<longrightarrow> 1 \<le> total (detect pb) Memory)
   \<and> (pin_blocking_threads (pb_pins pb) = None \<longrightarrow> 1 \<le> pc_blocking_threads (detect pb))
   \<and> (pin_compute_threads (pb_pins pb) = None \<longrightarrow> 1 \<le> pc_compute_threads (detect pb))"
  by (simp add: detect_def Let_def unwrap_or_def apply_headroom_u64_def apply_headroom_u32_def
      cap_memory_def cap_blocking_threads_def cap_compute_threads_def)

text \<open>A cgroup value that does not limit falls through, each dimension on its own.\<close>

lemma raw_limits_fall_through:
  "cgroup_v2_memory pb = None \<Longrightarrow> cgroup_v1_memory pb = None \<Longrightarrow> rl_memory_bytes (raw_limits pb) = host_memory pb"
  "cgroup_v2_cpu pb = None \<Longrightarrow> cgroup_v1_cpu pb = None \<Longrightarrow> rl_cpu_threads (raw_limits pb) = pb_host_cores pb"
  by (simp_all add: raw_limits_def or_else_def unwrap_or_def)

end
