(* ===== verification/Drive.thy ===== *)
theory Drive
  imports Run_Capacity Pool_Limits Encoding
begin

text \<open>
  One drive (\<open>drive\<close> in \<open>crates/cli/src/driver.rs\<close>, \<open>crates/cli/src/executor.rs\<close>,
  \<open>crates/cli/src/remote_guard.rs\<close>): the run's header and its early ends, the executor, placement
  and capacity checks, the run loop, the teardown phase, the last record and the final flush.  What
  the world does during the loop is the schedule, a list of actions; the stream's writer is the one
  of the event stream, whose answers the driver ignores up to the final flush.
\<close>

section \<open>Executors\<close>

datatype ExecutorKind = Local | Kubernetes

definition EXECUTOR_ALL :: "ExecutorKind list" where "EXECUTOR_ALL = [Local, Kubernetes]"

definition REMOTE_EXECUTOR_TICKET :: string where "REMOTE_EXECUTOR_TICKET = ''T112''"
definition REMOTE_EXECUTOR_FEATURE :: string where "REMOTE_EXECUTOR_FEATURE = ''k8s''"
definition EXECUTOR_FLAG :: string where "EXECUTOR_FLAG = ''--dagr.executor''"

fun executor_as_str :: "ExecutorKind \<Rightarrow> string" where
  "executor_as_str Local = ''local''"
| "executor_as_str Kubernetes = ''k8s''"

definition honours_placement :: "ExecutorKind \<Rightarrow> bool" where
  "honours_placement kind = (case kind of Local \<Rightarrow> False | Kubernetes \<Rightarrow> True)"

definition placement_handling :: "ExecutorKind \<Rightarrow> PlacementHandling" where
  "placement_handling kind = (if honours_placement kind then Honoured else Ignored)"

text \<open>Whether the build compiled the remote executor is a parameter.\<close>

definition ensure_available :: "bool \<Rightarrow> ExecutorKind \<Rightarrow> ExecutorKind + unit" where
  "ensure_available remote_compiled kind =
     (case kind of Local \<Rightarrow> Inr () | Kubernetes \<Rightarrow> if remote_compiled then Inr () else Inl kind)"

definition executor_from_str :: "string \<Rightarrow> string + ExecutorKind" where
  "executor_from_str s =
     (case List.find (\<lambda>kind. executor_as_str kind = trim s) EXECUTOR_ALL of
        None \<Rightarrow> Inl s | Some kind \<Rightarrow> Inr kind)"

fun join :: "string \<Rightarrow> string list \<Rightarrow> string" where
  "join sep [] = []"
| "join sep [x] = x"
| "join sep (x # y # xs) = x @ sep @ join sep (y # xs)"

definition executor_parse_error_display :: "string \<Rightarrow> string" where
  "executor_parse_error_display input =
     ''`'' @ input @ ''` is not a known executor '' @ [CHR 0xE2, CHR 0x80, CHR 0x94] @ '' expected one of ''
     @ join '' | '' (map executor_as_str EXECUTOR_ALL)"

definition executor_refusal_display :: "ExecutorKind \<Rightarrow> string" where
  "executor_refusal_display kind =
     ''executor `'' @ executor_as_str kind @ ''` is not compiled into this build: it lives behind the default-off `''
     @ REMOTE_EXECUTOR_FEATURE @ ''` cargo feature, wired into the run path by ticket '' @ REMOTE_EXECUTOR_TICKET
     @ ''. Rebuild `dagr-cli` with `--features '' @ REMOTE_EXECUTOR_FEATURE @ ''`, or pass `'' @ EXECUTOR_FLAG @ ''=''
     @ executor_as_str Local @ ''` to run every node in this process '' @ [CHR 0xE2, CHR 0x80, CHR 0x94]
     @ '' refusing rather than running them locally behind your back''"

definition placed_node_names :: "Pipeline \<Rightarrow> string list" where
  "placed_node_names p = map pn_name (filter (\<lambda>n. np_placement (pn_policy n) \<noteq> None) (nodes_of p))"

definition unwired_refusal :: "ExecutorKind \<Rightarrow> string list \<Rightarrow> string" where
  "unwired_refusal executor placed =
     ''executor `'' @ executor_as_str executor @ ''` honours placement and '' @ show_nat (length placed)
     @ '' node(s) declare one ('' @ join '', '' placed @ ''), but this run was given no cluster to place them on. ''
     @ ''Drive it through `RunnableFlow::run_placed` with a `RemoteCluster`, or pass `'' @ EXECUTOR_FLAG
     @ ''=local` to run every node in this process '' @ [CHR 0xE2, CHR 0x80, CHR 0x94]
     @ '' refusing rather than running them here behind your back.''"

section \<open>What a drive is given\<close>

record RunConfig =
  dc_base :: string
  dc_run_id :: "string option"
  dc_grace :: duration
  dc_teardown_deadline :: duration
  dc_parameters :: "(string, string) btree"
  dc_data_interval :: "(string \<times> string) option"
  dc_capacities :: PoolCapacities
  dc_failure_mode :: FailureMode
  dc_executor :: ExecutorKind
  dc_cancel_trigger :: "CancellationOrigin option"

definition config_new :: "string \<Rightarrow> RunConfig" where
  "config_new base = \<lparr>dc_base = base, dc_run_id = None, dc_grace = DEFAULT_GRACE,
     dc_teardown_deadline = DEFAULT_TEARDOWN_DEADLINE, dc_parameters = [], dc_data_interval = None,
     dc_capacities = capacities_new, dc_failure_mode = ContinueIndependent, dc_executor = Local,
     dc_cancel_trigger = None\<rparr>"

definition config_run_id :: "string \<Rightarrow> RunConfig \<Rightarrow> RunConfig" where
  "config_run_id i c = c\<lparr>dc_run_id := Some i\<rparr>"

definition config_grace :: "duration \<Rightarrow> RunConfig \<Rightarrow> RunConfig" where
  "config_grace grace c = c\<lparr>dc_grace := grace\<rparr>"

definition config_teardown_deadline :: "duration \<Rightarrow> RunConfig \<Rightarrow> RunConfig" where
  "config_teardown_deadline deadline c = c\<lparr>dc_teardown_deadline := deadline\<rparr>"

definition config_parameters :: "(string, string) btree \<Rightarrow> RunConfig \<Rightarrow> RunConfig" where
  "config_parameters ps c = c\<lparr>dc_parameters := ps\<rparr>"

definition config_data_interval :: "string \<times> string \<Rightarrow> RunConfig \<Rightarrow> RunConfig" where
  "config_data_interval interval c = c\<lparr>dc_data_interval := Some interval\<rparr>"

definition config_capacities :: "PoolCapacities \<Rightarrow> RunConfig \<Rightarrow> RunConfig" where
  "config_capacities caps c = c\<lparr>dc_capacities := caps\<rparr>"

definition config_failure_mode :: "FailureMode \<Rightarrow> RunConfig \<Rightarrow> RunConfig" where
  "config_failure_mode mode c = c\<lparr>dc_failure_mode := mode\<rparr>"

definition config_executor :: "ExecutorKind \<Rightarrow> RunConfig \<Rightarrow> RunConfig" where
  "config_executor kind c = c\<lparr>dc_executor := kind\<rparr>"

definition config_shutdown_budget :: "RunConfig \<Rightarrow> ShutdownBudget" where
  "config_shutdown_budget c = shutdown_budget (dc_grace c) (dc_teardown_deadline c)"

text \<open>An operator's id is used as it is; otherwise one is minted.\<close>

definition resolve_run_id :: "string \<Rightarrow> RunConfig \<Rightarrow> string" where
  "resolve_run_id minted c = (case dc_run_id c of Some i \<Rightarrow> i | None \<Rightarrow> minted)"

text \<open>A node's runner: the fate it exposes for its deadline, and what it does as a teardown.\<close>

record NodeRunner =
  nr_fate :: "nat option"
  nr_teardown :: teardown_runner

record RunPlan =
  pl_pipeline :: Pipeline
  pl_runners :: "(string, NodeRunner) btree"
  pl_fates :: "FateState list"
  pl_ordering :: "(string, string list) btree"
  pl_pre_satisfied :: "(string, string option) btree"
  pl_remote_wired :: bool

definition plan_new :: "Pipeline \<Rightarrow> (string, NodeRunner) btree \<Rightarrow> FateState list \<Rightarrow> RunPlan" where
  "plan_new p runners fates = \<lparr>pl_pipeline = p, pl_runners = runners, pl_fates = fates, pl_ordering = [],
     pl_pre_satisfied = [], pl_remote_wired = False\<rparr>"

definition plan_with_ordering ::
  "Pipeline \<Rightarrow> (string, NodeRunner) btree \<Rightarrow> FateState list \<Rightarrow> (string, string list) btree \<Rightarrow> RunPlan" where
  "plan_with_ordering p runners fates ords = (plan_new p runners fates)\<lparr>pl_ordering := ords\<rparr>"

definition with_resume :: "(string, string option) btree \<Rightarrow> RunPlan \<Rightarrow> RunPlan" where
  "with_resume pre_satisfied plan = plan\<lparr>pl_pre_satisfied := pre_satisfied\<rparr>"

definition remote_wired :: "bool \<Rightarrow> RunPlan \<Rightarrow> RunPlan" where
  "remote_wired wired plan = plan\<lparr>pl_remote_wired := wired\<rparr>"

text \<open>The world: environment, identity, build, what happens during the loop and when it starts.\<close>

record DriveWorld =
  dw_env :: "string \<Rightarrow> string option"
  dw_minted :: string
  dw_remote_compiled :: bool
  dw_schedule :: "Action list"
  dw_now :: instant

definition capture_env :: "(string \<Rightarrow> string option) \<Rightarrow> string list \<Rightarrow> (string, string) btree" where
  "capture_env env allowlist =
     fold (\<lambda>name captured. case env name of None \<Rightarrow> captured | Some v \<Rightarrow> bt_insert name v captured) allowlist []"

section \<open>The run loop as a whole\<close>

record LoopResult =
  lr_outcome :: RunOutcome
  lr_terminal :: "(string, TerminalState) btree"
  lr_origin :: "CancellationOrigin option"
  lr_log :: "Event list"

text \<open>None while the schedule has not brought the loop to its end.\<close>

definition run_loop ::
  "LoopEnv \<Rightarrow> ReadinessTracker \<Rightarrow> Inner \<Rightarrow> (string, nat option) btree \<Rightarrow> FateState list
     \<Rightarrow> CancellationOrigin option \<Rightarrow> (string, string option) btree \<Rightarrow> instant \<Rightarrow> Action list \<Rightarrow> Event list
     \<Rightarrow> LoopResult option" where
  "run_loop e tracker admission runners fates trigger pre_satisfied now schedule evs =
     (let s = fold (act e) schedule
                (loop_start e pre_satisfied (initial_loop_state tracker admission runners fates trigger now evs))
      in if ls_phase s \<noteq> Left then None
         else (let s = loop_end s
               in Some \<lparr>lr_outcome = overall_outcome (ls_terminal s), lr_terminal = ls_terminal s,
                    lr_origin = ls_origin s, lr_log = ls_log s\<rparr>))"

section \<open>Drive\<close>

definition header_of :: "RunConfig \<Rightarrow> string \<Rightarrow> (string, string) btree \<Rightarrow> FingerprintSlot option \<Rightarrow> RunStartedHeader" where
  "header_of c pipeline_name captured fp =
     \<lparr>rh_pipeline = pipeline_name, rh_fingerprint_structural = map_option (hex16 \<circ> fp_structural) fp,
      rh_fingerprint_policy = map_option (hex16 \<circ> fp_policy) fp,
      rh_fingerprint_algorithm_version = 1, rh_parameters = dc_parameters c,
      rh_data_interval = dc_data_interval c, rh_captured_env = captured, rh_resumed_from = None\<rparr>"

text \<open>What a drive records and reports before the flush: the records, the outcome, the states, the origin.\<close>

record DriveRecords =
  dr_log :: "Event list"
  dr_outcome :: RunOutcome
  dr_terminal :: "(string, TerminalState) btree"
  dr_origin :: "CancellationOrigin option"

definition ends_early :: "Event list \<Rightarrow> RunOutcome \<Rightarrow> DriveRecords" where
  "ends_early evs outcome =
     \<lparr>dr_log = evs @ [EvRunFinished outcome], dr_outcome = outcome, dr_terminal = [], dr_origin = None\<rparr>"

definition node_costs :: "Pipeline \<Rightarrow> PlacementHandling \<Rightarrow> (string \<times> PoolCost) list" where
  "node_costs p handling = map (\<lambda>n. (pn_name n, from_policy (pn_policy n) handling)) (nodes_of p)"

definition loop_env :: "RunConfig \<Rightarrow> string \<Rightarrow> RunPlan \<Rightarrow> LoopEnv" where
  "loop_env c run_id plan =
     \<lparr>le_pipeline = pl_pipeline plan, le_run_id = run_id, le_grace = unat (dc_grace c),
      le_failure_mode = dc_failure_mode c, le_placement_handling = placement_handling (dc_executor c)\<rparr>"

definition after_loop :: "Pipeline \<Rightarrow> (string, NodeRunner) btree \<Rightarrow> LoopResult \<Rightarrow> DriveRecords" where
  "after_loop p teardown_runners r =
     (let t = run_teardown_phase p (map (\<lambda>(k, r). (k, nr_teardown r)) teardown_runners) (lr_terminal r)
                \<lparr>td_log = lr_log r, td_terminal = lr_terminal r\<rparr>
      in \<lparr>dr_log = td_log t @ [EvRunFinished (lr_outcome r)], dr_outcome = lr_outcome r,
           dr_terminal = td_terminal t, dr_origin = lr_origin r\<rparr>)"

definition drive_plan ::
  "RunConfig \<Rightarrow> string \<Rightarrow> RunPlan \<Rightarrow> AssemblyArtifact \<Rightarrow> DriveWorld \<Rightarrow> Event list \<Rightarrow> DriveRecords option" where
  "drive_plan c run_id plan artifact world evs =
     (let p = pl_pipeline plan; handling = placement_handling (dc_executor c)
      in if ensure_available (dw_remote_compiled world) (dc_executor c) \<noteq> Inr () then Some (ends_early evs BootstrapFailed)
         else if honours_placement (dc_executor c) \<and> \<not> pl_remote_wired plan \<and> placed_node_names p \<noteq> []
         then Some (ends_early evs BootstrapFailed)
         else if detect_capacities (dc_capacities c) (node_costs p handling) \<noteq> Inr ()
         then Some (ends_early evs BootstrapFailed)
         else
           (let tracker = new_with_ordering p artifact (pl_ordering plan);
                (main_runners, teardown_runners) = partition_teardown_runners p (pl_runners plan)
            in case run_loop (loop_env c run_id plan) tracker (controller_new (dc_capacities c))
                      (map (\<lambda>(k, r). (k, nr_fate r)) main_runners) (pl_fates plan) (dc_cancel_trigger c)
                      (pl_pre_satisfied plan) (dw_now world) (dw_schedule world) evs of
                 None \<Rightarrow> None
               | Some r \<Rightarrow> Some (after_loop p teardown_runners r)))"

record RunReport =
  rp_outcome :: RunOutcome
  rp_terminal_states :: "(string, TerminalState) btree"
  rp_run_id :: string
  rp_stream_path :: string
  rp_cancellation_origin :: "CancellationOrigin option"
  rp_shutdown_exit :: ShutdownExit

datatype ('s, 'c) DriveResult = DrivePanics | StillRunning | Finished RunReport "('s, 'c) EventStreamWriter"

definition final_flush :: "('s, 'c, 'e) StreamEnv \<Rightarrow> ('s, 'c) EventStreamWriter \<Rightarrow> bool \<times> ('s, 'c) EventStreamWriter" where
  "final_flush env w = (case finish_writer env w of (Inl _, w) \<Rightarrow> (False, w) | (Inr _, w) \<Rightarrow> (True, w))"

definition finish_drive ::
  "('s, 'c, 'e) StreamEnv \<Rightarrow> string \<Rightarrow> string \<Rightarrow> ('s, 'c) EventStreamWriter \<Rightarrow> DriveRecords \<Rightarrow> ('s, 'c) DriveResult" where
  "finish_drive env run_id path writer r =
     (let (flush_ok, writer) = final_flush env (emit_all env (dr_log r) writer)
      in Finished \<lparr>rp_outcome = dr_outcome r, rp_terminal_states = dr_terminal r, rp_run_id = run_id,
           rp_stream_path = path, rp_cancellation_origin = dr_origin r,
           rp_shutdown_exit = select_shutdown_exit (dr_outcome r) (dr_origin r) flush_ok\<rparr> writer)"

text \<open>The budget is printed first, which panics when it cannot be added up.\<close>

definition drive ::
  "('s, 'c, 'e) StreamEnv \<Rightarrow> 's \<Rightarrow> 'c \<Rightarrow> RunConfig \<Rightarrow> string \<Rightarrow> Problem list + RunPlan \<Rightarrow> string list
     \<Rightarrow> DriveWorld \<Rightarrow> ('s, 'c) DriveResult" where
  "drive env sink clock c pipeline_name assembled env_allowlist world =
     (let run_id = resolve_run_id (dw_minted world) c;
          writer = writer_new sink clock run_id pipeline_name;
          path = stream_path (dc_base c) writer;
          captured = capture_env (dw_env world) env_allowlist
      in if budget_display (config_shutdown_budget c) = None then DrivePanics
         else case assembled of
                Inl _ \<Rightarrow>
                  finish_drive env run_id path writer
                    (ends_early [EvRunStarted (header_of c pipeline_name captured None)] AssemblyFailed)
              | Inr plan \<Rightarrow>
                  (case assemble (pl_pipeline plan) of
                     Some (Inr artifact) \<Rightarrow>
                       (case drive_plan c run_id plan artifact world
                               [EvRunStarted (header_of c pipeline_name captured (Some (aa_fingerprint artifact)))] of
                          None \<Rightarrow> StillRunning
                        | Some r \<Rightarrow> finish_drive env run_id path writer r)
                   | _ \<Rightarrow> DrivePanics))"

section \<open>What a drive's report means\<close>

lemma td_record_keeps: "bt_get (td_terminal t) k = Some x \<Longrightarrow> bt_get (td_terminal (td_record node st t)) k = Some x"
  by (simp add: td_record_def terminal_or_insert_keeps)

lemma td_write_terminal [simp]: "td_terminal (td_write ev t) = td_terminal t"
  by (simp add: td_write_def)

lemma teardown_event_terminal [simp]: "td_terminal (teardown_event d b ev t) = td_terminal t"
  by (simp add: teardown_event_def Let_def split: option.split)

lemma teardown_events_terminal [simp]: "td_terminal (fold (teardown_event d b) evs t) = td_terminal t"
  by (induction evs arbitrary: t) simp_all

lemma run_teardown_keeps:
  "bt_get (td_terminal t) k = Some x \<Longrightarrow> bt_get (td_terminal (run_teardown runners cov nc t)) k = Some x"
  by (cases nc) (simp add: run_teardown_def record_teardown_outcome_def td_record_keeps Let_def split: option.split prod.split)

text \<open>The teardown phase adds states; it never changes one.\<close>

lemma teardown_phase_keeps:
  assumes "bt_get (td_terminal t) k = Some x"
  shows "bt_get (td_terminal (run_teardown_phase p runners cov t)) k = Some x"
proof -
  have "bt_get (td_terminal (fold (run_teardown runners cov) ncs t)) k = Some x" for ncs
    using assms by (induction ncs arbitrary: t) (simp_all add: run_teardown_keeps)
  then show ?thesis by (simp add: run_teardown_phase_def)
qed

lemma loop_end_terminal: "\<not> ls_draining s \<Longrightarrow> ls_terminal (loop_end s) = ls_terminal s"
proof -
  have "ls_terminal (fold (\<lambda>(node, attempt). write_log (EvZombieAtExit node attempt)) zs x) = ls_terminal x" for zs x
    by (induction zs arbitrary: x) (simp_all add: write_log_def split: prod.split)
  then show "\<not> ls_draining s \<Longrightarrow> ls_terminal (loop_end s) = ls_terminal s" by (simp add: loop_end_def Let_def)
qed

lemma loop_end_origin: "ls_origin (loop_end s) = ls_origin s"
proof -
  have abandoned: "ls_origin (fold abandon_node ns x) = ls_origin x" for ns x
    by (induction ns arbitrary: x) (simp_all add: abandon_node_def write_log_def push_zombie_def record_terminal_def split: prod.split)
  have listed: "ls_origin (fold (\<lambda>(node, attempt). write_log (EvZombieAtExit node attempt)) zs x) = ls_origin x" for zs x
    by (induction zs arbitrary: x) (simp_all add: write_log_def split: prod.split)
  show ?thesis by (simp add: loop_end_def abandon_leftover_def Let_def abandoned listed)
qed

lemma exit_success:
  "select_shutdown_exit out origin flushed = ExitSuccess \<longleftrightarrow> out \<notin> {RunFailed, AssemblyFailed, BootstrapFailed, RunCancelled} \<and> origin = None \<and> flushed"
  by (cases origin) (auto simp: select_shutdown_exit_def, metis CancellationOrigin.exhaust)

text \<open>A drive that finished without running the loop, and one that ran it.\<close>

lemma drive_plan_cases:
  assumes "drive_plan c run_id plan a world evs = Some r"
  obtains "r = ends_early evs BootstrapFailed"
  | lr where "ensure_available (dw_remote_compiled world) (dc_executor c) = Inr ()"
      "honours_placement (dc_executor c) \<longrightarrow> pl_remote_wired plan \<or> placed_node_names (pl_pipeline plan) = []"
      "detect_capacities (dc_capacities c) (node_costs (pl_pipeline plan) (placement_handling (dc_executor c))) = Inr ()"
      "run_loop (loop_env c run_id plan) (new_with_ordering (pl_pipeline plan) a (pl_ordering plan))
         (controller_new (dc_capacities c))
         (map (\<lambda>(k, r). (k, nr_fate r)) (fst (partition_teardown_runners (pl_pipeline plan) (pl_runners plan))))
         (pl_fates plan) (dc_cancel_trigger c) (pl_pre_satisfied plan) (dw_now world) (dw_schedule world) evs = Some lr"
      "r = after_loop (pl_pipeline plan) (snd (partition_teardown_runners (pl_pipeline plan) (pl_runners plan))) lr"
proof (cases "ensure_available (dw_remote_compiled world) (dc_executor c) \<noteq> Inr ()
    \<or> honours_placement (dc_executor c) \<and> \<not> pl_remote_wired plan \<and> placed_node_names (pl_pipeline plan) \<noteq> []
    \<or> detect_capacities (dc_capacities c) (node_costs (pl_pipeline plan) (placement_handling (dc_executor c))) \<noteq> Inr ()")
  case True
  with assms have "r = ends_early evs BootstrapFailed" by (simp add: drive_plan_def Let_def split: if_splits)
  then show ?thesis by (rule that(1))
next
  case False
  let ?loop = "run_loop (loop_env c run_id plan) (new_with_ordering (pl_pipeline plan) a (pl_ordering plan))
         (controller_new (dc_capacities c))
         (map (\<lambda>(k, r). (k, nr_fate r)) (fst (partition_teardown_runners (pl_pipeline plan) (pl_runners plan))))
         (pl_fates plan) (dc_cancel_trigger c) (pl_pre_satisfied plan) (dw_now world) (dw_schedule world) evs"
  have "drive_plan c run_id plan a world evs
      = (case ?loop of None \<Rightarrow> None
         | Some lr \<Rightarrow> Some (after_loop (pl_pipeline plan) (snd (partition_teardown_runners (pl_pipeline plan) (pl_runners plan))) lr))"
    using False by (cases "partition_teardown_runners (pl_pipeline plan) (pl_runners plan)") (auto simp: drive_plan_def Let_def split: option.split)
  with assms obtain lr where "?loop = Some lr"
    "r = after_loop (pl_pipeline plan) (snd (partition_teardown_runners (pl_pipeline plan) (pl_runners plan))) lr"
    by (auto split: option.splits)
  with False show ?thesis by (intro that(2)) simp_all
qed

lemma finish_drive_report:
  "finish_drive env run_id path w0 r =
     (let v = emit_all env (dr_log r) w0
      in Finished \<lparr>rp_outcome = dr_outcome r, rp_terminal_states = dr_terminal r, rp_run_id = run_id,
           rp_stream_path = path, rp_cancellation_origin = dr_origin r,
           rp_shutdown_exit = select_shutdown_exit (dr_outcome r) (dr_origin r) (fst (final_flush env v))\<rparr>
         (snd (final_flush env v)))"
  by (simp add: finish_drive_def Let_def split: prod.split)

lemma drive_finishes:
  assumes "drive env sink clock c pname (Inr plan) allow world = Finished rep w"
  obtains a evs r where "assemble (pl_pipeline plan) = Some (Inr a)"
    "evs = [EvRunStarted (header_of c pname (capture_env (dw_env world) allow) (Some (aa_fingerprint a)))]"
    "drive_plan c (resolve_run_id (dw_minted world) c) plan a world evs = Some r"
    "finish_drive env (resolve_run_id (dw_minted world) c)
       (stream_path (dc_base c) (writer_new sink clock (resolve_run_id (dw_minted world) c) pname))
       (writer_new sink clock (resolve_run_id (dw_minted world) c) pname) r = Finished rep w"
proof -
  obtain a where a: "assemble (pl_pipeline plan) = Some (Inr a)"
    using assms by (simp add: drive_def Let_def split: if_splits option.splits sum.splits)
  moreover obtain r where "drive_plan c (resolve_run_id (dw_minted world) c) plan a world
       [EvRunStarted (header_of c pname (capture_env (dw_env world) allow) (Some (aa_fingerprint a)))] = Some r"
    using assms a by (simp add: drive_def Let_def split: if_splits option.splits)
  ultimately show ?thesis using assms by (intro that) (simp_all add: drive_def Let_def split: if_splits)
qed

text \<open>
  C1. For a plan whose pipeline the tracker can track, an exit with success says that all is well:
  every node that is not a teardown ended succeeded, skipped or satisfied, the reported outcome is
  success, nothing was cancelled, and the final flush of the stream succeeded.  The pipeline is well
  formed, its identities are distinct, its data and ordering edges together are acyclic and no node is
  named like the cancellation sentinel; no node is both a consumer of and ordered after the same
  upstream, and none is ordered after a teardown.  Assembly accepts the last two shapes, and for them
  the statement is false: their countdown never reaches zero (lemma stuck_shapes), so the
  loop ends without the node and the drive reports success.  The run has no node satisfied from a prior
  run and was given no cancellation trigger.
\<close>

theorem drive_success_complete:
  assumes drive: "drive env sink clock c pname (Inr plan) allow world = Finished rep w"
    and exit: "rp_shutdown_exit rep = ExitSuccess"
    and track: "trackable (pl_pipeline plan) (pl_ordering plan)"
    and names: "\<forall>n \<in> set (nodes_of (pl_pipeline plan)). pn_name n \<noteq> CANCEL_WAKE_SENTINEL"
    and rank: "tracked_ranked (pl_pipeline plan) (pl_ordering plan) rank"
    and fresh: "pl_pre_satisfied plan = []" "dc_cancel_trigger c = None"
  shows "(\<forall>n \<in> set (tracked_nodes (pl_pipeline plan)). ended_well (bt_get (rp_terminal_states rep) (pn_name n)))
    \<and> rp_outcome rep = RunSucceeded \<and> rp_cancellation_origin rep = None \<and> (\<exists>v. fst (final_flush env v) \<and> snd (final_flush env v) = w)"
proof -
  obtain a evs r where a: "assemble (pl_pipeline plan) = Some (Inr a)"
    and r: "drive_plan c (resolve_run_id (dw_minted world) c) plan a world evs = Some r"
    and fin: "finish_drive env (resolve_run_id (dw_minted world) c)
       (stream_path (dc_base c) (writer_new sink clock (resolve_run_id (dw_minted world) c) pname))
       (writer_new sink clock (resolve_run_id (dw_minted world) c) pname) r = Finished rep w"
    using drive_finishes [OF drive] by metis
  define v where "v = emit_all env (dr_log r) (writer_new sink clock (resolve_run_id (dw_minted world) c) pname)"
  have rep: "rp_outcome rep = dr_outcome r" "rp_terminal_states rep = dr_terminal r"
    "rp_cancellation_origin rep = dr_origin r" "w = snd (final_flush env v)"
    "rp_shutdown_exit rep = select_shutdown_exit (dr_outcome r) (dr_origin r) (fst (final_flush env v))"
    using fin by (auto simp: finish_drive_report v_def Let_def)
  have ok: "dr_outcome r = RunSucceeded" "dr_origin r = None" "fst (final_flush env v)"
    using exit unfolding rep(5) exit_success by (cases "dr_outcome r"; simp)+
  show ?thesis
    using r
  proof (cases rule: drive_plan_cases)
    case 1
    then show ?thesis using ok(1) by (simp add: ends_early_def)
  next
    case (2 lr)
    let ?e = "loop_env c (resolve_run_id (dw_minted world) c) plan"
    let ?s = "fresh_run ?e a (pl_ordering plan) (controller_new (dc_capacities c))
       (map (\<lambda>(k, r). (k, nr_fate r)) (fst (partition_teardown_runners (pl_pipeline plan) (pl_runners plan))))
       (pl_fates plan) (dw_now world) evs (dw_schedule world)"
    have p: "le_pipeline ?e = pl_pipeline plan" by (simp add: loop_env_def)
    have lr: "ls_phase ?s = Left" "lr_outcome lr = overall_outcome (ls_terminal (loop_end ?s))"
      "lr_terminal lr = ls_terminal (loop_end ?s)" "lr_origin lr = ls_origin (loop_end ?s)"
      using 2(4) unfolding fresh by (auto simp: run_loop_def fresh_run_def p Let_def split: if_splits)
    have run: "runnable ?e a (pl_ordering plan)"
      using a track names by (auto simp: runnable_def p assemble_def Let_def split: if_splits option.splits)
    have ex: "select_shutdown_exit (overall_outcome (ls_terminal (loop_end ?s))) (ls_origin ?s) True = ExitSuccess"
      using ok 2(5) lr loop_end_origin by (simp add: select_shutdown_exit_def after_loop_def Let_def)
    note well = success_complete [OF run rank [folded p] refl lr(1) ex, unfolded p]
    have "ended_well (bt_get (dr_terminal r) (pn_name n))" if "n \<in> set (tracked_nodes (pl_pipeline plan))" for n
    proof -
      have w: "ended_well (bt_get (lr_terminal lr) (pn_name n))" unfolding lr(3) by (rule well) fact
      then obtain x where x: "bt_get (lr_terminal lr) (pn_name n) = Some x"
        by (cases "bt_get (lr_terminal lr) (pn_name n)") (auto simp: ended_well_def)
      have "bt_get (dr_terminal r) (pn_name n) = Some x"
        unfolding 2(5) after_loop_def Let_def by (simp add: teardown_phase_keeps x)
      then show ?thesis using w x by simp
    qed
    then show ?thesis using ok rep by (auto intro: exI [of _ v])
  qed
qed

text \<open>One node that succeeds.\<close>

definition one_node :: Pipeline where
  "one_node = build [RegSource ''a'' sample_task None default_policy Absent AllSucceeded []]"

definition one_plan :: RunPlan where
  "one_plan = plan_new one_node [(''a'', \<lparr>nr_fate = None, nr_teardown = \<lambda>_. (None, [])\<rparr>)] []"

definition one_config :: RunConfig where
  "one_config = config_grace 5 (config_new ''base'')"

definition one_world :: DriveWorld where
  "one_world = \<lparr>dw_env = \<lambda>_. None, dw_minted = ''r'', dw_remote_compiled = False,
     dw_schedule = [LoopTurn, Returns 0 Succeeded [] None None, Reports 0, LoopTurn, LoopTurn], dw_now = 0\<rparr>"

lemma one_loop:
  "(\<lambda>s. (ls_phase s, map snd (ls_terminal s), ls_origin s, ls_draining s))
     (fresh_run (loop_env one_config ''r'' one_plan) (counted_artifact one_node) [] (controller_new capacities_new)
        [(''a'', None)] [] 0 evs (dw_schedule one_world)) = (Left, [Succeeded], None, False)"
  by code_simp

lemma one_trackable: "trackable one_node []"
proof -
  have "ids_distinct one_node
     \<and> list_all (\<lambda>n. set (resolve_names one_node (data_upstreams n)) \<inter> set (ordering_upstreams one_node [] (pn_name n)) = {}
        \<and> set (upstream_names one_node [] n) \<subseteq> pn_name ` set (tracked_nodes one_node)
        \<and> length (upstream_names one_node [] n) \<le> 2) (tracked_nodes one_node)"
    by code_simp
  moreover have "k \<le> 2 \<Longrightarrow> k \<le> u32_max" for k by (simp add: u32_max_def)
  moreover have "pipeline_wf one_node" by (simp add: one_node_def build_wf)
  ultimately show ?thesis by (simp add: trackable_def list_all_iff)
qed

lemma tracker_of_deps:
  "aa_remaining_deps a = aa_remaining_deps b \<Longrightarrow> new_with_ordering p a ords = new_with_ordering p b ords"
  by (simp add: new_with_ordering_def initial_state_def [abs_def] remaining_dependency_count_def [abs_def])

lemma one_drive:
  obtains rep w where "drive sample_env [] 5 one_config ''p'' (Inr one_plan) [] one_world = Finished rep w"
    "rp_shutdown_exit rep = ExitSuccess"
proof -
  have "assembly_problems one_node = [] \<and> precompute_execution_order one_node \<noteq> None" by code_simp
  then obtain a where a: "assemble one_node = Some (Inr a)" "aa_remaining_deps a = precompute_remaining_deps one_node"
    by (auto simp: assemble_def Let_def)
  have t: "new_with_ordering one_node a [] = new_with_ordering one_node (counted_artifact one_node) []"
    by (rule tracker_of_deps) (simp add: a(2))
  let ?evs = "[EvRunStarted (header_of one_config ''p'' (capture_env (dw_env one_world) []) (Some (aa_fingerprint a)))]"
  let ?s = "fresh_run (loop_env one_config ''r'' one_plan) (counted_artifact one_node) [] (controller_new capacities_new)
        [(''a'', None)] [] 0 ?evs (dw_schedule one_world)"
  have s: "ls_phase ?s = Left" "map snd (ls_terminal ?s) = [Succeeded]" "ls_origin ?s = None"
    using one_loop [of ?evs] by simp_all
  have "\<not> ls_draining ?s" using one_loop [of ?evs] by simp
  then have ended: "ls_terminal (loop_end ?s) = ls_terminal ?s" by (rule loop_end_terminal)
  have split: "partition_teardown_runners one_node (pl_runners one_plan) = (pl_runners one_plan, [])"
  proof -
    have "\<not> is_teardown_name one_node ''a''" by code_simp
    then show ?thesis by (simp add: partition_teardown_runners_def one_plan_def plan_new_def)
  qed
  have caps: "ensure_available False (dc_executor one_config) = Inr () \<and> \<not> honours_placement (dc_executor one_config)
     \<and> detect_capacities (dc_capacities one_config) (node_costs one_node (placement_handling (dc_executor one_config))) = Inr ()"
    by code_simp
  have start: "initial_loop_state (new_with_ordering one_node a []) (controller_new (dc_capacities one_config))
      [(''a'', None)] [] None 0 ?evs = initial_loop_state (new_with_ordering one_node (counted_artifact one_node) [])
        (controller_new capacities_new) [(''a'', None)] [] None 0 ?evs"
    by (simp add: t one_config_def config_grace_def config_new_def)
  have p: "le_pipeline (loop_env one_config ''r'' one_plan) = one_node"
    by (simp add: loop_env_def one_plan_def plan_new_def)
  have "overall_outcome (ls_terminal ?s) = RunSucceeded"
    by (simp add: overall_succeeded bt_values_def s(2) is_failure_like_def)
  then obtain lr where lr: "run_loop (loop_env one_config ''r'' one_plan) (new_with_ordering one_node a [])
      (controller_new (dc_capacities one_config)) [(''a'', None)] [] None [] 0 (dw_schedule one_world) ?evs = Some lr"
    "lr_outcome lr = RunSucceeded" "lr_origin lr = None"
    using s(1,3) ended by (simp add: run_loop_def start fresh_run_def p loop_end_origin Let_def)
  obtain r where r: "drive_plan one_config ''r'' one_plan a one_world ?evs = Some r" "dr_outcome r = RunSucceeded" "dr_origin r = None"
    using lr caps split
    by (simp add: drive_plan_def Let_def after_loop_def one_plan_def plan_new_def one_config_def config_grace_def config_new_def one_world_def)
  have budget: "budget_display (config_shutdown_budget one_config) \<noteq> None"
    by (simp add: budget_display_def budget_total_def config_shutdown_budget_def shutdown_budget_def one_config_def config_grace_def
        config_new_def DEFAULT_TEARDOWN_DEADLINE_def DEFAULT_FINAL_FLUSH_def duration_add_def secs_def DURATION_MAX_def)
  have id: "resolve_run_id (dw_minted one_world) one_config = ''r''"
    by (simp add: resolve_run_id_def one_config_def config_grace_def config_new_def one_world_def)
  have flush: "fst (final_flush sample_env v)" for v
    by (simp add: final_flush_def finish_writer_def sample_env_def)
  have plan: "pl_pipeline one_plan = one_node" "pl_ordering one_plan = []" "pl_pre_satisfied one_plan = []"
    by (simp_all add: one_plan_def plan_new_def)
  show thesis
    using that budget r a(1) by (simp add: drive_def finish_drive_report Let_def id plan exit_success flush)
qed

theorem drive_success_complete_witness:
  "\<exists>rep w. drive sample_env [] 5 one_config ''p'' (Inr one_plan) [] one_world = Finished rep w
     \<and> rp_shutdown_exit rep = ExitSuccess \<and> ended_well (bt_get (rp_terminal_states rep) ''a'')
     \<and> rp_outcome rep = RunSucceeded"
proof -
  have plan: "pl_pipeline one_plan = one_node" "pl_ordering one_plan = []" "pl_pre_satisfied one_plan = []"
    by (simp_all add: one_plan_def plan_new_def)
  obtain rep w where d: "drive sample_env [] 5 one_config ''p'' (Inr one_plan) [] one_world = Finished rep w"
    "rp_shutdown_exit rep = ExitSuccess"
    by (rule one_drive)
  have "list_all (\<lambda>n. upstream_names one_node [] n = []) (tracked_nodes one_node)" by code_simp
  then have rank: "tracked_ranked one_node [] (\<lambda>_. 0)" by (simp add: tracked_ranked_def list_all_iff)
  have "\<exists>n \<in> set (tracked_nodes one_node). pn_name n = ''a''" by code_simp
  moreover have "\<forall>n \<in> set (nodes_of one_node). pn_name n \<noteq> CANCEL_WAKE_SENTINEL" unfolding list_all_iff [symmetric] by code_simp
  ultimately show ?thesis
    using drive_success_complete [OF d, of "\<lambda>_. 0"] d one_trackable rank
    by (auto simp: plan) (force simp: one_config_def config_grace_def config_new_def)+
qed

end
