(* ===== verification/Config.thy ===== *)
theory Config
  imports Drive
begin

text \<open>
  The run-path knobs (\<open>crates/cli/src/config.rs\<close>): where a value may come from, the resolvers from
  flag over environment over file to the default, the parsers of the accepted forms, the bounds, and
  the scanners of reserved flags.  The environment is a parameter; an argument that is not Unicode is
  None in the argument list.  Doubles are an abstract type with the operations that are used of them.
\<close>

section \<open>Exit codes\<close>

datatype ExitCode =
  Success | RunFailure | InvalidUsage | AssemblyFailure | BootstrapFailure | CancelledExit | ResumeRefusal
| SinkFailure

definition EXIT_ALL :: "ExitCode list" where
  "EXIT_ALL = [Success, RunFailure, InvalidUsage, AssemblyFailure, BootstrapFailure, CancelledExit, ResumeRefusal,
     SinkFailure]"

fun exit_as_u8 :: "ExitCode \<Rightarrow> u8" where
  "exit_as_u8 Success = 0"
| "exit_as_u8 RunFailure = 1"
| "exit_as_u8 InvalidUsage = 2"
| "exit_as_u8 AssemblyFailure = 3"
| "exit_as_u8 BootstrapFailure = 4"
| "exit_as_u8 CancelledExit = 5"
| "exit_as_u8 ResumeRefusal = 6"
| "exit_as_u8 SinkFailure = 7"

fun shutdown_exit_code :: "ShutdownExit \<Rightarrow> ExitCode" where
  "shutdown_exit_code ExitRunFailure = RunFailure"
| "shutdown_exit_code ExitSinkFailure = SinkFailure"
| "shutdown_exit_code ExitCancelled = CancelledExit"
| "shutdown_exit_code ExitSuccess = Success"

definition exit_code_for_run :: "RunReport \<Rightarrow> ExitCode" where
  "exit_code_for_run report =
     (case rp_outcome report of
        AssemblyFailed \<Rightarrow> AssemblyFailure
      | RunOutcome.BootstrapFailed \<Rightarrow> BootstrapFailure
      | _ \<Rightarrow> shutdown_exit_code (rp_shutdown_exit report))"

section \<open>Where a value comes from\<close>

definition dash :: string where "dash = [CHR 0xE2, CHR 0x80, CHR 0x94]"

datatype EnvParseErrorKind = Unparsed | OutOfRange

record FileSource =
  fs_path :: string
  fs_profile :: "string option"
  fs_key :: "string option"

datatype ConfigSource = FlagSource string | EnvSource string | File FileSource

definition source_file :: "string \<Rightarrow> string \<Rightarrow> string \<Rightarrow> ConfigSource" where
  "source_file path profile key = File \<lparr>fs_path = path, fs_profile = Some profile, fs_key = Some key\<rparr>"

definition whole_file :: "string \<Rightarrow> ConfigSource" where
  "whole_file path = File \<lparr>fs_path = path, fs_profile = None, fs_key = None\<rparr>"

definition quoted :: "string \<Rightarrow> string" where "quoted s = ''`'' @ s @ ''`''"

fun source_display :: "ConfigSource \<Rightarrow> string" where
  "source_display (FlagSource name) = ''flag '' @ quoted name"
| "source_display (EnvSource name) = ''environment variable '' @ quoted name"
| "source_display (File source) =
     ''config file '' @ quoted (fs_path source)
     @ (case fs_profile source of Some profile \<Rightarrow> '', profile '' @ quoted profile | None \<Rightarrow> [])
     @ (case fs_key source of Some key \<Rightarrow> '', key '' @ quoted key | None \<Rightarrow> [])"

record EnvParseError =
  ep_source :: ConfigSource
  ep_value :: string
  ep_kind :: EnvParseErrorKind
  ep_detail :: string

definition parse_from :: "ConfigSource \<Rightarrow> string \<Rightarrow> string \<Rightarrow> EnvParseError" where
  "parse_from source v detail = \<lparr>ep_source = source, ep_value = v, ep_kind = Unparsed, ep_detail = detail\<rparr>"

definition out_of_range_from :: "ConfigSource \<Rightarrow> string \<Rightarrow> string \<Rightarrow> EnvParseError" where
  "out_of_range_from source v detail = \<lparr>ep_source = source, ep_value = v, ep_kind = OutOfRange, ep_detail = detail\<rparr>"

definition parse_error :: "string \<Rightarrow> string \<Rightarrow> string \<Rightarrow> EnvParseError" where
  "parse_error variable = parse_from (EnvSource variable)"

definition out_of_range :: "string \<Rightarrow> string \<Rightarrow> string \<Rightarrow> EnvParseError" where
  "out_of_range variable = out_of_range_from (EnvSource variable)"

definition error_exit_code :: "EnvParseError \<Rightarrow> ExitCode" where
  "error_exit_code err = (case ep_kind err of Unparsed \<Rightarrow> InvalidUsage | OutOfRange \<Rightarrow> BootstrapFailure)"

fun error_rationale :: "ConfigSource \<Rightarrow> string" where
  "error_rationale (FlagSource _) =
     ''arch.md C26 '' @ dash @ '' bad flag values fail loudly and are never silently ignored''"
| "error_rationale (EnvSource _) =
     ''arch.md C26 / ADR 089 '' @ dash @ '' bad env values fail loudly and are never silently ignored''"
| "error_rationale (File _) =
     ''arch.md C26 / ADR 128 '' @ dash @ '' bad configuration-file values fail loudly and are never silently ignored''"

definition env_parse_error_display :: "EnvParseError \<Rightarrow> string" where
  "env_parse_error_display err =
     source_display (ep_source err)
     @ (if ep_value err \<noteq> [] then '' = '' @ quoted (ep_value err) else [])
     @ '' '' @ (case ep_kind err of Unparsed \<Rightarrow> ''could not be parsed'' | OutOfRange \<Rightarrow> ''is out of range'')
     @ '': '' @ ep_detail err @ '' ('' @ error_rationale (ep_source err) @ '')''"

section \<open>The file tier\<close>

record FileValue =
  fv_raw :: string
  fv_path :: string
  fv_profile :: string
  fv_key :: string

definition fv_source :: "FileValue \<Rightarrow> ConfigSource" where
  "fv_source v = source_file (fv_path v) (fv_profile v) (fv_key v)"

definition fv_provenance :: "FileValue \<Rightarrow> string" where
  "fv_provenance v = ''config file '' @ quoted (fv_path v) @ '', profile '' @ quoted (fv_profile v)
     @ '', key '' @ quoted (fv_key v)"

type_synonym FileTier = "(string, FileValue) btree"

section \<open>The resolver\<close>

type_synonym environment = "string \<Rightarrow> string option"
type_synonym 'a from_str = "string \<Rightarrow> string + 'a"

text \<open>A variable that is set to the empty text counts as not set.\<close>

definition env_value :: "environment \<Rightarrow> string \<Rightarrow> string option" where
  "env_value env key = (case env key of Some raw \<Rightarrow> if raw \<noteq> [] then Some raw else None | None \<Rightarrow> None)"

definition parse_env :: "'a from_str \<Rightarrow> string \<Rightarrow> string \<Rightarrow> EnvParseError + 'a" where
  "parse_env from_str key raw = map_sum (parse_error key raw) id (from_str raw)"

definition parse_file_value :: "'a from_str \<Rightarrow> FileValue \<Rightarrow> EnvParseError + 'a" where
  "parse_file_value from_str v = map_sum (parse_from (fv_source v) (fv_raw v)) id (from_str (fv_raw v))"

definition resolve ::
  "environment \<Rightarrow> 'a from_str \<Rightarrow> 'a option \<Rightarrow> string \<Rightarrow> FileValue option \<Rightarrow> 'a \<Rightarrow> EnvParseError + 'a" where
  "resolve env from_str flag env_key file fallback =
     (case flag of
        Some v \<Rightarrow> Inr v
      | None \<Rightarrow>
          (case env_value env env_key of
             Some raw \<Rightarrow> parse_env from_str env_key raw
           | None \<Rightarrow> (case file of Some v \<Rightarrow> parse_file_value from_str v | None \<Rightarrow> Inr fallback)))"

definition resolve_opt ::
  "environment \<Rightarrow> 'a from_str \<Rightarrow> 'a option \<Rightarrow> string \<Rightarrow> FileValue option \<Rightarrow> EnvParseError + 'a option" where
  "resolve_opt env from_str flag env_key file =
     (case flag of
        Some v \<Rightarrow> Inr (Some v)
      | None \<Rightarrow>
          (case env_value env env_key of
             Some raw \<Rightarrow> map_sum id Some (parse_env from_str env_key raw)
           | None \<Rightarrow> (case file of Some v \<Rightarrow> map_sum id Some (parse_file_value from_str v) | None \<Rightarrow> Inr None)))"

section \<open>Parsers\<close>

text \<open>The integer parser of the standard library reads from the left and names the first thing wrong.\<close>

definition EMPTY_INT :: string where "EMPTY_INT = ''cannot parse integer from empty string''"
definition INVALID_DIGIT :: string where "INVALID_DIGIT = ''invalid digit found in string''"
definition POS_OVERFLOW :: string where "POS_OVERFLOW = ''number too large to fit in target type''"

fun uint_digits :: "nat \<Rightarrow> nat \<Rightarrow> string \<Rightarrow> string + nat" where
  "uint_digits bound acc [] = Inr acc"
| "uint_digits bound acc (c # s) =
     (if \<not> is_digit c then Inl INVALID_DIGIT
      else if acc * 10 + digit_val c \<ge> bound then Inl POS_OVERFLOW
      else uint_digits bound (acc * 10 + digit_val c) s)"

definition uint_from_str :: "nat \<Rightarrow> string \<Rightarrow> string + nat" where
  "uint_from_str bound s =
     (if s = [] then Inl EMPTY_INT
      else if s = ''+'' \<or> s = ''-'' then Inl INVALID_DIGIT
      else uint_digits bound 0 (if hd s = CHR ''+'' then tl s else s))"

definition u32_from_str :: "u32 from_str" where
  "u32_from_str s = map_sum id of_nat (uint_from_str (2 ^ 32) s)"

definition u64_from_str :: "u64 from_str" where
  "u64_from_str s = map_sum id of_nat (uint_from_str (2 ^ 64) s)"

definition strip_suffix :: "string \<Rightarrow> string \<Rightarrow> string option" where
  "strip_suffix tail s = map_option rev (strip_prefix (rev tail) (rev s))"

definition from_millis :: "u64 \<Rightarrow> duration" where "from_millis n = ucast n * 1000000"
definition from_secs :: "u64 \<Rightarrow> duration" where "from_secs n = ucast n * 1000000000"

definition duration_error :: "string \<Rightarrow> string" where
  "duration_error input =
     quoted input @ '' is not a duration '' @ dash @ '' expected one of `10`, `10s`, or `10ms` (a non-negative integer of seconds, or an `s`/`ms` suffix)''"

definition parse_duration :: "duration from_str" where
  "parse_duration input =
     (let trimmed = trim input
      in if trimmed = [] then Inl (duration_error input)
         else
           (let (digits, to_duration) =
                  (case strip_suffix ''ms'' trimmed of
                     Some rest \<Rightarrow> (rest, from_millis)
                   | None \<Rightarrow> (case strip_suffix ''s'' trimmed of
                       Some rest \<Rightarrow> (rest, from_secs)
                     | None \<Rightarrow> (trimmed, from_secs)))
            in case u64_from_str digits of
                 Inr n \<Rightarrow> Inr (to_duration n)
               | Inl _ \<Rightarrow> Inl (duration_error input)))"

definition parse_failure_mode :: "FailureMode from_str" where
  "parse_failure_mode input =
     (let t = trim input
      in if t = ''continue-independent'' then Inr ContinueIndependent
         else if t = ''stop-on-first-failure'' then Inr StopOnFirstFailure
         else Inl (quoted input @ '' is not a failure mode '' @ dash
           @ '' expected `continue-independent` or `stop-on-first-failure`''))"

definition ascii_lower :: "char \<Rightarrow> char" where
  "ascii_lower c = (let n = (of_char c :: nat) in if 65 \<le> n \<and> n \<le> 90 then char_of (n + 32) else c)"

definition to_ascii_lowercase :: "string \<Rightarrow> string" where
  "to_ascii_lowercase s = map ascii_lower s"

definition bool_from_str :: "bool from_str" where
  "bool_from_str s =
     (let t = to_ascii_lowercase (trim s)
      in if t \<in> {''1'', ''true'', ''yes'', ''on''} then Inr True
         else if t \<in> {''0'', ''false'', ''no'', ''off''} then Inr False
         else Inl (quoted s @ '' is not a boolean '' @ dash
           @ '' expected one of `1`/`true`/`yes`/`on` or `0`/`false`/`no`/`off`''))"

datatype OutputMode = Structured | Human

definition log_format_from_str :: "OutputMode from_str" where
  "log_format_from_str s =
     (let t = to_ascii_lowercase (trim s)
      in if t = ''human'' then Inr Human
         else if t = ''structured'' then Inr Structured
         else Inl (quoted s @ '' is not a log format '' @ dash @ '' expected `human` or `structured`''))"

definition executor_parse :: "ExecutorKind from_str" where
  "executor_parse s = map_sum executor_parse_error_display id (executor_from_str s)"

section \<open>Scanning for a flag\<close>

type_synonym argv = "string option list"

text \<open>An argument that is not Unicode is skipped, and is no value.\<close>

fun scan_flag :: "string \<Rightarrow> argv \<Rightarrow> string + string option" where
  "scan_flag flag [] = Inr None"
| "scan_flag flag (None # rest) = scan_flag flag rest"
| "scan_flag flag (Some s # rest) =
     (if s = flag
      then (case rest of Some v # _ \<Rightarrow> Inr (Some v) | _ \<Rightarrow> Inl (quoted flag @ '' needs a value''))
      else case strip_prefix (flag @ ''='') s of
             Some v \<Rightarrow> Inr (Some v)
           | None \<Rightarrow> scan_flag flag rest)"

definition parse_valued_flag :: "'a from_str \<Rightarrow> argv \<Rightarrow> string \<Rightarrow> string + 'a option" where
  "parse_valued_flag from_str argv flag =
     (case scan_flag flag argv of
        Inl e \<Rightarrow> Inl e
      | Inr None \<Rightarrow> Inr None
      | Inr (Some raw) \<Rightarrow>
          map_sum (\<lambda>e. ''`'' @ flag @ ''='' @ raw @ ''` '' @ e) Some (from_str raw))"

section \<open>The knobs\<close>

definition DAGR_GRACE :: string where "DAGR_GRACE = ''DAGR_GRACE''"
definition DAGR_TEARDOWN_DEADLINE :: string where "DAGR_TEARDOWN_DEADLINE = ''DAGR_TEARDOWN_DEADLINE''"
definition DAGR_FAILURE_MODE :: string where "DAGR_FAILURE_MODE = ''DAGR_FAILURE_MODE''"
definition DAGR_POOL_COMPUTE_THREADS :: string where "DAGR_POOL_COMPUTE_THREADS = ''DAGR_POOL_COMPUTE_THREADS''"
definition DAGR_POOL_BLOCKING_THREADS :: string where "DAGR_POOL_BLOCKING_THREADS = ''DAGR_POOL_BLOCKING_THREADS''"
definition DAGR_POOL_MEMORY :: string where "DAGR_POOL_MEMORY = ''DAGR_POOL_MEMORY''"
definition DAGR_HEADROOM :: string where "DAGR_HEADROOM = ''DAGR_HEADROOM''"
definition DAGR_STORE :: string where "DAGR_STORE = ''DAGR_STORE''"
definition DAGR_METASTORE :: string where "DAGR_METASTORE = ''DAGR_METASTORE''"
definition DAGR_FORCE_ROUNDTRIP :: string where "DAGR_FORCE_ROUNDTRIP = ''DAGR_FORCE_ROUNDTRIP''"
definition DAGR_EXECUTOR :: string where "DAGR_EXECUTOR = ''DAGR_EXECUTOR''"
definition DAGR_MAX_PODS :: string where "DAGR_MAX_PODS = ''DAGR_MAX_PODS''"
definition DAGR_POD_LAUNCH_RETRIES :: string where "DAGR_POD_LAUNCH_RETRIES = ''DAGR_POD_LAUNCH_RETRIES''"
definition DAGR_BLOB_ENDPOINT :: string where "DAGR_BLOB_ENDPOINT = ''DAGR_BLOB_ENDPOINT''"
definition DAGR_BLOB_BUCKET :: string where "DAGR_BLOB_BUCKET = ''DAGR_BLOB_BUCKET''"
definition DAGR_BLOB_REGION :: string where "DAGR_BLOB_REGION = ''DAGR_BLOB_REGION''"
definition DAGR_BLOB_PREFIX :: string where "DAGR_BLOB_PREFIX = ''DAGR_BLOB_PREFIX''"
definition LOG_FORMAT_ENV :: string where "LOG_FORMAT_ENV = ''DAGR_LOG_FORMAT''"

definition FORCE_ROUNDTRIP_FLAG :: string where "FORCE_ROUNDTRIP_FLAG = ''--dagr.force-roundtrip''"
definition MAX_PODS_FLAG :: string where "MAX_PODS_FLAG = ''--dagr.max-pods''"
definition POD_LAUNCH_RETRIES_FLAG :: string where "POD_LAUNCH_RETRIES_FLAG = ''--dagr.pod-launch-retries''"
definition BLOB_ENDPOINT_FLAG :: string where "BLOB_ENDPOINT_FLAG = ''--dagr.blob.endpoint''"
definition BLOB_BUCKET_FLAG :: string where "BLOB_BUCKET_FLAG = ''--dagr.blob.bucket''"
definition BLOB_REGION_FLAG :: string where "BLOB_REGION_FLAG = ''--dagr.blob.region''"
definition BLOB_PREFIX_FLAG :: string where "BLOB_PREFIX_FLAG = ''--dagr.blob.prefix''"
definition STORE_FLAG :: string where "STORE_FLAG = ''--store''"
definition GRACE_FLAG :: string where "GRACE_FLAG = ''--grace''"
definition TEARDOWN_DEADLINE_FLAG :: string where "TEARDOWN_DEADLINE_FLAG = ''--teardown-deadline''"
definition FAILURE_MODE_FLAG :: string where "FAILURE_MODE_FLAG = ''--failure-mode''"
definition POOL_COMPUTE_THREADS_FLAG :: string where "POOL_COMPUTE_THREADS_FLAG = ''--dagr.pool.compute-threads''"
definition POOL_BLOCKING_THREADS_FLAG :: string where "POOL_BLOCKING_THREADS_FLAG = ''--dagr.pool.blocking-threads''"
definition POOL_MEMORY_FLAG :: string where "POOL_MEMORY_FLAG = ''--dagr.pool.memory''"
definition HEADROOM_FLAG :: string where "HEADROOM_FLAG = ''--dagr.headroom-fraction''"
definition LOG_FORMAT_FLAG :: string where "LOG_FORMAT_FLAG = ''--dagr.log-format''"

definition MAX_PODS_DEFAULT :: u32 where "MAX_PODS_DEFAULT = 4294967295"
definition POD_LAUNCH_RETRIES_DEFAULT :: u32 where "POD_LAUNCH_RETRIES_DEFAULT = 2"
definition BLOB_REGION_DEFAULT :: string where "BLOB_REGION_DEFAULT = ''us-east-1''"
definition DEFAULT_STORE_BASE :: string where "DEFAULT_STORE_BASE = ''./dagr-runs''"
definition GRACE_MIN :: duration where "GRACE_MIN = 1000000"
definition TEARDOWN_DEADLINE_MIN :: duration where "TEARDOWN_DEADLINE_MIN = 1000000000"

definition resolve_metastore_toggle :: "environment \<Rightarrow> bool option \<Rightarrow> FileValue option \<Rightarrow> EnvParseError + bool" where
  "resolve_metastore_toggle env flag file = resolve env bool_from_str flag DAGR_METASTORE file False"

definition resolve_force_roundtrip :: "environment \<Rightarrow> bool option \<Rightarrow> FileValue option \<Rightarrow> EnvParseError + bool" where
  "resolve_force_roundtrip env flag file = resolve env bool_from_str flag DAGR_FORCE_ROUNDTRIP file False"

text \<open>The bare flag means on; a following argument belongs to it only when it is a boolean.\<close>

fun parse_force_roundtrip_flag :: "argv \<Rightarrow> string + bool option" where
  "parse_force_roundtrip_flag [] = Inr None"
| "parse_force_roundtrip_flag (None # rest) = parse_force_roundtrip_flag rest"
| "parse_force_roundtrip_flag (Some s # rest) =
     (if s = FORCE_ROUNDTRIP_FLAG
      then (case rest of
              Some v # _ \<Rightarrow> (case bool_from_str v of Inr b \<Rightarrow> Inr (Some b) | Inl _ \<Rightarrow> Inr (Some True))
            | _ \<Rightarrow> Inr (Some True))
      else case strip_prefix (FORCE_ROUNDTRIP_FLAG @ ''='') s of
             Some v \<Rightarrow> map_sum (\<lambda>e. ''`'' @ FORCE_ROUNDTRIP_FLAG @ ''='' @ v @ ''` '' @ e) Some (bool_from_str v)
           | None \<Rightarrow> parse_force_roundtrip_flag rest)"

definition resolve_executor :: "environment \<Rightarrow> ExecutorKind option \<Rightarrow> FileValue option \<Rightarrow> EnvParseError + ExecutorKind" where
  "resolve_executor env flag file = resolve env executor_parse flag DAGR_EXECUTOR file Local"

definition resolve_max_pods :: "environment \<Rightarrow> u32 option \<Rightarrow> FileValue option \<Rightarrow> EnvParseError + u32" where
  "resolve_max_pods env flag file = resolve env u32_from_str flag DAGR_MAX_PODS file MAX_PODS_DEFAULT"

definition resolve_pod_launch_retries :: "environment \<Rightarrow> u32 option \<Rightarrow> EnvParseError + u32" where
  "resolve_pod_launch_retries env flag =
     resolve env u32_from_str flag DAGR_POD_LAUNCH_RETRIES None POD_LAUNCH_RETRIES_DEFAULT"

definition parse_executor_flag :: "argv \<Rightarrow> string + ExecutorKind option" where
  "parse_executor_flag argv = parse_valued_flag executor_parse argv EXECUTOR_FLAG"

definition parse_max_pods_flag :: "argv \<Rightarrow> string + u32 option" where
  "parse_max_pods_flag argv = parse_valued_flag u32_from_str argv MAX_PODS_FLAG"

definition parse_pod_launch_retries_flag :: "argv \<Rightarrow> string + u32 option" where
  "parse_pod_launch_retries_flag argv = parse_valued_flag u32_from_str argv POD_LAUNCH_RETRIES_FLAG"

text \<open>The object store's location; a text that trims to nothing is not supplied.\<close>

definition resolve_string :: "environment \<Rightarrow> string option \<Rightarrow> string \<Rightarrow> string option" where
  "resolve_string env flag env_key =
     (case flag of
        Some v \<Rightarrow> (let t = trim v in if t = [] then None else Some t)
      | None \<Rightarrow> (case map_option trim (env env_key) of Some t \<Rightarrow> if t = [] then None else Some t | None \<Rightarrow> None))"

definition resolve_blob_endpoint :: "environment \<Rightarrow> string option \<Rightarrow> EnvParseError + string option" where
  "resolve_blob_endpoint env flag =
     (case resolve_string env flag DAGR_BLOB_ENDPOINT of
        None \<Rightarrow> Inr None
      | Some endpoint \<Rightarrow>
          if \<not> starts_with ''http://'' endpoint \<and> \<not> starts_with ''https://'' endpoint
          then Inl (parse_error DAGR_BLOB_ENDPOINT endpoint
            ''an object-store endpoint must be an absolute `http://` or `https://` URL'')
          else Inr (Some endpoint))"

definition resolve_blob_bucket :: "environment \<Rightarrow> string option \<Rightarrow> EnvParseError + string option" where
  "resolve_blob_bucket env flag =
     (case resolve_string env flag DAGR_BLOB_BUCKET of
        None \<Rightarrow> Inr None
      | Some bucket \<Rightarrow>
          if CHR ''/'' \<in> set bucket
          then Inl (parse_error DAGR_BLOB_BUCKET bucket
            (''a bucket name contains no `/` '' @ dash @ '' set the key prefix with `--dagr.blob.prefix`''))
          else Inr (Some bucket))"

definition resolve_blob_region :: "environment \<Rightarrow> string option \<Rightarrow> EnvParseError + string" where
  "resolve_blob_region env flag = Inr (unwrap_or (resolve_string env flag DAGR_BLOB_REGION) BLOB_REGION_DEFAULT)"

definition trim_matches :: "char \<Rightarrow> string \<Rightarrow> string" where
  "trim_matches c s = rev (dropWhile (\<lambda>x. x = c) (rev (dropWhile (\<lambda>x. x = c) s)))"

definition resolve_blob_prefix :: "environment \<Rightarrow> string option \<Rightarrow> EnvParseError + string" where
  "resolve_blob_prefix env flag =
     Inr (unwrap_or (map_option (trim_matches (CHR ''/'')) (resolve_string env flag DAGR_BLOB_PREFIX)) [])"

definition parse_blob_endpoint_flag :: "argv \<Rightarrow> string + string option" where
  "parse_blob_endpoint_flag argv = parse_valued_flag Inr argv BLOB_ENDPOINT_FLAG"

definition parse_blob_bucket_flag :: "argv \<Rightarrow> string + string option" where
  "parse_blob_bucket_flag argv = parse_valued_flag Inr argv BLOB_BUCKET_FLAG"

definition parse_blob_region_flag :: "argv \<Rightarrow> string + string option" where
  "parse_blob_region_flag argv = parse_valued_flag Inr argv BLOB_REGION_FLAG"

definition parse_blob_prefix_flag :: "argv \<Rightarrow> string + string option" where
  "parse_blob_prefix_flag argv = parse_valued_flag Inr argv BLOB_PREFIX_FLAG"

section \<open>Durations with a bound\<close>

definition validate_duration_min :: "ConfigSource \<Rightarrow> duration \<Rightarrow> duration \<Rightarrow> string \<Rightarrow> EnvParseError + duration" where
  "validate_duration_min source v least bound =
     (if v \<ge> least then Inr v
      else Inl (out_of_range_from source (show_nat (unat v div 1000000) @ ''ms'')
             (''expected a duration of at least '' @ bound)))"

text \<open>The source that supplied the value is kept, so that a refusal names it.\<close>

definition resolve_bounded_duration ::
  "environment \<Rightarrow> duration option \<Rightarrow> string \<Rightarrow> string \<Rightarrow> FileValue option \<Rightarrow> duration \<Rightarrow> duration \<Rightarrow> string
     \<Rightarrow> EnvParseError + duration" where
  "resolve_bounded_duration env flag flag_label env_key file fallback least bound =
     (let supplied =
            (case flag of
               Some v \<Rightarrow> Inr (FlagSource flag_label, v)
             | None \<Rightarrow>
                 (case env_value env env_key of
                    Some raw \<Rightarrow> map_sum id (Pair (EnvSource env_key)) (parse_env parse_duration env_key raw)
                  | None \<Rightarrow>
                      (case file of
                         Some v \<Rightarrow> map_sum id (Pair (fv_source v)) (parse_file_value parse_duration v)
                       | None \<Rightarrow> Inr (EnvSource env_key, fallback))))
      in case supplied of Inl err \<Rightarrow> Inl err | Inr (source, v) \<Rightarrow> validate_duration_min source v least bound)"

definition parse_grace_flag :: "argv \<Rightarrow> string + duration option" where
  "parse_grace_flag argv = parse_valued_flag parse_duration argv GRACE_FLAG"

definition parse_teardown_deadline_flag :: "argv \<Rightarrow> string + duration option" where
  "parse_teardown_deadline_flag argv = parse_valued_flag parse_duration argv TEARDOWN_DEADLINE_FLAG"

definition parse_failure_mode_flag :: "argv \<Rightarrow> string + FailureMode option" where
  "parse_failure_mode_flag argv = parse_valued_flag parse_failure_mode argv FAILURE_MODE_FLAG"

definition parse_store_flag :: "argv \<Rightarrow> string + string option" where
  "parse_store_flag argv = parse_valued_flag Inr argv STORE_FLAG"

definition resolve_store_base :: "environment \<Rightarrow> string option \<Rightarrow> FileValue option \<Rightarrow> EnvParseError + string" where
  "resolve_store_base env flag file = resolve env Inr flag DAGR_STORE file DEFAULT_STORE_BASE"

definition resolve_log_format :: "environment \<Rightarrow> OutputMode option \<Rightarrow> FileValue option \<Rightarrow> EnvParseError + OutputMode" where
  "resolve_log_format env flag file = resolve env log_format_from_str flag LOG_FORMAT_ENV file Structured"

definition parse_log_format_flag :: "argv \<Rightarrow> string + OutputMode option" where
  "parse_log_format_flag argv = parse_valued_flag log_format_from_str argv LOG_FORMAT_FLAG"

text \<open>What a run's configuration takes from them.\<close>

definition grace_from_env :: "environment \<Rightarrow> duration option \<Rightarrow> FileValue option \<Rightarrow> RunConfig \<Rightarrow> EnvParseError + RunConfig" where
  "grace_from_env env flag file c = map_sum id (\<lambda>d. config_grace d c)
     (resolve_bounded_duration env flag GRACE_FLAG DAGR_GRACE file DEFAULT_GRACE GRACE_MIN ''1 ms'')"

definition teardown_deadline_from_env ::
  "environment \<Rightarrow> duration option \<Rightarrow> FileValue option \<Rightarrow> RunConfig \<Rightarrow> EnvParseError + RunConfig" where
  "teardown_deadline_from_env env flag file c = map_sum id (\<lambda>d. config_teardown_deadline d c)
     (resolve_bounded_duration env flag TEARDOWN_DEADLINE_FLAG DAGR_TEARDOWN_DEADLINE file DEFAULT_TEARDOWN_DEADLINE
        TEARDOWN_DEADLINE_MIN ''1 s'')"

definition failure_mode_from_env ::
  "environment \<Rightarrow> FailureMode option \<Rightarrow> FileValue option \<Rightarrow> RunConfig \<Rightarrow> EnvParseError + RunConfig" where
  "failure_mode_from_env env flag file c = map_sum id (\<lambda>m. config_failure_mode m c)
     (resolve env parse_failure_mode flag DAGR_FAILURE_MODE file ContinueIndependent)"

section \<open>Pool sizing\<close>

record PoolPinFlags =
  pf_compute_threads :: "u32 option"
  pf_blocking_threads :: "u32 option"
  pf_memory :: "u64 option"

definition parse_pool_pin_flags :: "argv \<Rightarrow> string + PoolPinFlags" where
  "parse_pool_pin_flags argv =
     (case parse_valued_flag u32_from_str argv POOL_COMPUTE_THREADS_FLAG of
        Inl e \<Rightarrow> Inl e
      | Inr compute \<Rightarrow>
          (case parse_valued_flag u32_from_str argv POOL_BLOCKING_THREADS_FLAG of
             Inl e \<Rightarrow> Inl e
           | Inr blocking \<Rightarrow>
               (case parse_valued_flag u64_from_str argv POOL_MEMORY_FLAG of
                  Inl e \<Rightarrow> Inl e
                | Inr memory \<Rightarrow>
                    Inr \<lparr>pf_compute_threads = compute, pf_blocking_threads = blocking, pf_memory = memory\<rparr>)))"

definition apply_pin :: "('a \<Rightarrow> PinnedPools \<Rightarrow> PinnedPools) \<Rightarrow> 'a option \<Rightarrow> PinnedPools \<Rightarrow> PinnedPools" where
  "apply_pin pin x pins = (case x of Some v \<Rightarrow> pin v pins | None \<Rightarrow> pins)"

definition resolve_pool_pins :: "environment \<Rightarrow> PoolPinFlags \<Rightarrow> FileTier \<Rightarrow> EnvParseError + PinnedPools" where
  "resolve_pool_pins env flags file =
     (case resolve_opt env u32_from_str (pf_compute_threads flags) DAGR_POOL_COMPUTE_THREADS (bt_get file ''pool.compute-threads'') of
        Inl err \<Rightarrow> Inl err
      | Inr compute \<Rightarrow>
          (case resolve_opt env u32_from_str (pf_blocking_threads flags) DAGR_POOL_BLOCKING_THREADS (bt_get file ''pool.blocking-threads'') of
             Inl err \<Rightarrow> Inl err
           | Inr blocking \<Rightarrow>
               (case resolve_opt env u64_from_str (pf_memory flags) DAGR_POOL_MEMORY (bt_get file ''pool.memory'') of
                  Inl err \<Rightarrow> Inl err
                | Inr memory \<Rightarrow>
                    Inr (apply_pin pin_memory_to memory (apply_pin pin_blocking_to blocking
                      (apply_pin pin_compute_to compute pins_new))))))"

text \<open>
  Doubles: the parser with its error text, the shortest text, the test against 0.0 and 1.0, and the
  floor of a limit times one less the fraction, which is clamped to that range first.
\<close>

record 'f Doubles =
  fl_from_str :: "string \<Rightarrow> string + 'f"
  fl_display :: "'f \<Rightarrow> string"
  fl_in_unit :: "'f \<Rightarrow> bool"
  fl_default :: 'f
  fl_kept64 :: "'f \<Rightarrow> u64 \<Rightarrow> u64"
  fl_kept32 :: "'f \<Rightarrow> u32 \<Rightarrow> u32"

definition parse_headroom_flag :: "'f Doubles \<Rightarrow> argv \<Rightarrow> string + 'f option" where
  "parse_headroom_flag fl argv = parse_valued_flag (fl_from_str fl) argv HEADROOM_FLAG"

definition validate_headroom :: "'f Doubles \<Rightarrow> ConfigSource \<Rightarrow> 'f \<Rightarrow> string \<Rightarrow> EnvParseError + 'f" where
  "validate_headroom fl source fraction raw =
     (if fl_in_unit fl fraction then Inr fraction
      else Inl (out_of_range_from source raw ''expected a fraction in 0.0..=1.0''))"

definition resolve_headroom :: "'f Doubles \<Rightarrow> environment \<Rightarrow> 'f option \<Rightarrow> FileTier \<Rightarrow> EnvParseError + 'f" where
  "resolve_headroom fl env flag file =
     (case flag of
        Some fraction \<Rightarrow> validate_headroom fl (FlagSource HEADROOM_FLAG) fraction (fl_display fl fraction)
      | None \<Rightarrow>
          (case env_value env DAGR_HEADROOM of
             Some raw \<Rightarrow>
               (case parse_env (fl_from_str fl) DAGR_HEADROOM raw of
                  Inl err \<Rightarrow> Inl err
                | Inr parsed \<Rightarrow> validate_headroom fl (EnvSource DAGR_HEADROOM) parsed raw)
           | None \<Rightarrow>
               (case bt_get file ''pool.headroom-fraction'' of
                  Some v \<Rightarrow>
                    (case parse_file_value (fl_from_str fl) v of
                       Inl err \<Rightarrow> Inl err
                     | Inr parsed \<Rightarrow> validate_headroom fl (fv_source v) parsed (fv_raw v))
                | None \<Rightarrow> Inr (fl_default fl))))"

record 'f PoolSizing =
  sz_pins :: PinnedPools
  sz_headroom :: 'f
  sz_engaged :: bool

definition resolve_pool_sizing ::
  "'f Doubles \<Rightarrow> environment \<Rightarrow> PoolPinFlags \<Rightarrow> 'f option \<Rightarrow> FileTier \<Rightarrow> EnvParseError + 'f PoolSizing" where
  "resolve_pool_sizing fl env flags headroom_flag file =
     (let headroom_supplied = (headroom_flag \<noteq> None \<or> env_value env DAGR_HEADROOM \<noteq> None
            \<or> bt_get file ''pool.headroom-fraction'' \<noteq> None)
      in case resolve_pool_pins env flags file of
           Inl err \<Rightarrow> Inl err
         | Inr pins \<Rightarrow>
             (case resolve_headroom fl env headroom_flag file of
                Inl err \<Rightarrow> Inl err
              | Inr headroom \<Rightarrow>
                  Inr \<lparr>sz_pins = pins, sz_headroom = headroom,
                    sz_engaged = (headroom_supplied \<or> pin_memory pins \<noteq> None \<or> pin_compute_threads pins \<noteq> None
                      \<or> pin_blocking_threads pins \<noteq> None)\<rparr>))"

definition with_headroom :: "'f Doubles \<Rightarrow> 'f \<Rightarrow> ContainerLimitProbe \<Rightarrow> ContainerLimitProbe" where
  "with_headroom fl fraction pb = pb\<lparr>pb_kept64 := fl_kept64 fl fraction, pb_kept32 := fl_kept32 fl fraction\<rparr>"

definition sizing_capacities :: "'f Doubles \<Rightarrow> 'f PoolSizing \<Rightarrow> ContainerLimitProbe \<Rightarrow> PoolCapacities option" where
  "sizing_capacities fl z pb =
     (if \<not> sz_engaged z then None
      else Some (detect (with_headroom fl (sz_headroom z) (with_pins (sz_pins z) pb))))"

section \<open>The parsers are exact\<close>

lemma uint_digits_all: "uint_digits bound acc s = Inr n \<Longrightarrow> list_all is_digit s"
  by (induction s arbitrary: acc) (auto split: if_splits)

lemma uint_from_str_last:
  assumes "uint_from_str bound s = Inr n" shows "s \<noteq> [] \<and> is_digit (last s)"
proof -
  have s: "s \<noteq> []" "s \<noteq> ''+''" "uint_digits bound 0 (if hd s = CHR ''+'' then tl s else s) = Inr n"
    using assms by (auto simp: uint_from_str_def split: if_splits)
  show ?thesis
  proof (cases "hd s = CHR ''+''")
    case True
    with s have "tl s \<noteq> []" by (cases s) auto
    moreover from uint_digits_all [OF s(3)] True have "list_all is_digit (tl s)" by simp
    ultimately have "is_digit (last (tl s))" using last_in_set by (fastforce simp: list_all_iff)
    with \<open>tl s \<noteq> []\<close> s(1) show ?thesis by (simp add: last_tl)
  next
    case False
    with uint_digits_all [OF s(3)] s(1) show ?thesis using last_in_set by (fastforce simp: list_all_iff)
  qed
qed

lemma u64_from_str_last: "u64_from_str s = Inr n \<Longrightarrow> s \<noteq> [] \<and> is_digit (last s)"
  by (cases "uint_from_str (2 ^ 64) s") (auto simp: u64_from_str_def dest: uint_from_str_last)

lemma strip_suffix_Some: "strip_suffix tail s = Some r \<longleftrightarrow> s = r @ tail"
  by (auto simp: strip_suffix_def strip_prefix_Some) (metis rev_append rev_rev_ident)

lemma strip_suffix_None: "strip_suffix tail s = None \<longleftrightarrow> (\<forall>r. s \<noteq> r @ tail)"
  using strip_suffix_Some [of tail s] by (cases "strip_suffix tail s") auto

lemma letters_not_digits: "\<not> is_digit (CHR ''m'')" "\<not> is_digit (CHR ''s'')"
  by (simp_all add: is_digit_def)

lemma uint_digits_value:
  "list_all is_digit s \<Longrightarrow> foldl (\<lambda>n c. 10 * n + digit_val c) acc s < bound
     \<Longrightarrow> uint_digits bound acc s = Inr (foldl (\<lambda>n c. 10 * n + digit_val c) acc s)"
proof (induction s arbitrary: acc)
  case (Cons c s)
  have "acc \<le> foldl (\<lambda>n c. 10 * n + digit_val c) acc s" for acc s
  proof (induction s arbitrary: acc)
    case (Cons c s)
    from Cons [of "10 * acc + digit_val c"] show ?case by simp
  qed simp
  from this [of "10 * acc + digit_val c" s] Cons show ?case by (simp add: mult.commute)
qed simp

lemma uint_from_str_show: "n < bound \<Longrightarrow> uint_from_str bound (show_nat n) = Inr n"
proof -
  assume n: "n < bound"
  have d: "list_all is_digit (show_nat n)" using show_nat_digits by (simp add: list_all_iff)
  obtain c s where c: "show_nat n = c # s" by (cases "show_nat n") auto
  with show_nat_first [OF c] have "c \<noteq> CHR ''+''" "c \<noteq> CHR ''-''" by (auto simp: is_digit_def)
  then show ?thesis
    using c uint_digits_value [OF d, of 0 bound] n read_show_nat [of n] by (simp add: uint_from_str_def read_nat_def)
qed

lemma u64_from_str_show: "u64_from_str (show_nat (unat n)) = Inr n"
proof -
  have "unat n < 2 ^ 64" using unsigned_less [of n, where ?'a = nat] by simp
  then show ?thesis by (simp add: u64_from_str_def uint_from_str_show)
qed

text \<open>
  C9. The durations an operator may write are exactly a 64-bit number, alone or followed by s, of
  seconds, or followed by ms, of milliseconds, with white space around; every number is read back as
  what it was written for.
\<close>

theorem parse_duration_exact:
  "(parse_duration s = Inr d \<longleftrightarrow>
      (\<exists>n digits. u64_from_str digits = Inr n
         \<and> (trim s = digits @ ''ms'' \<and> d = from_millis n \<or> trim s = digits @ ''s'' \<and> d = from_secs n
            \<or> trim s = digits \<and> d = from_secs n)))
   \<and> u64_from_str (show_nat (unat k)) = Inr k"
proof -
  note clash = u64_from_str_last letters_not_digits
  have "parse_duration s = Inr d" if n: "u64_from_str digits = Inr n" and s: "trim s = digits @ ''ms'' \<and> d = from_millis n
      \<or> trim s = digits @ ''s'' \<and> d = from_secs n \<or> trim s = digits \<and> d = from_secs n" for n digits
    using s
  proof (elim disjE conjE)
    assume t: "trim s = digits @ ''ms''" and "d = from_millis n"
    moreover have "strip_suffix ''ms'' (trim s) = Some digits" by (simp add: strip_suffix_Some t)
    ultimately show ?thesis using n by (simp add: parse_duration_def Let_def)
  next
    assume t: "trim s = digits @ ''s''" and d: "d = from_secs n"
    have "strip_suffix ''ms'' (trim s) = None"
      using clash(1) [OF n] clash(2) unfolding t strip_suffix_None by (auto simp: append_eq_append_conv2 append_eq_Cons_conv)
    moreover have "strip_suffix ''s'' (trim s) = Some digits" by (simp add: strip_suffix_Some t)
    ultimately show ?thesis using n t d by (simp add: parse_duration_def Let_def)
  next
    assume t: "trim s = digits" and d: "d = from_secs n"
    have "strip_suffix ''ms'' (trim s) = None" "strip_suffix ''s'' (trim s) = None"
      using clash(1) [OF n] clash(3) unfolding t strip_suffix_None by auto
    then show ?thesis using n t d clash(1) [OF n] by (simp add: parse_duration_def Let_def)
  qed
  moreover have "\<exists>n digits. u64_from_str digits = Inr n
         \<and> (trim s = digits @ ''ms'' \<and> d = from_millis n \<or> trim s = digits @ ''s'' \<and> d = from_secs n
            \<or> trim s = digits \<and> d = from_secs n)" if "parse_duration s = Inr d"
    using that strip_suffix_Some [of _ "trim s"]
    by (auto simp: parse_duration_def Let_def split: if_splits option.splits sum.splits)
  ultimately show ?thesis using u64_from_str_show by blast
qed

lemma map_sum_Inr: "map_sum f g x = Inr y \<longleftrightarrow> (\<exists>z. x = Inr z \<and> y = g z)"
  by (cases x) auto

lemma budget_overflows:
  "budget_display (shutdown_budget grace teardown) = None
   \<longleftrightarrow> uint DURATION_MAX < uint grace + uint teardown + uint DEFAULT_FINAL_FLUSH"
proof -
  have sum: "uint (grace + teardown) = uint grace + uint teardown" if "uint grace + uint teardown \<le> uint DURATION_MAX"
  proof -
    have "uint DURATION_MAX < 2 ^ 128" using uint_lt2p [of DURATION_MAX] by simp
    with that show ?thesis by (simp add: uint_plus_if')
  qed
  have "uint grace + uint teardown \<le> uint DURATION_MAX"
    if "uint grace + uint teardown + uint DEFAULT_FINAL_FLUSH \<le> uint DURATION_MAX"
    using that uint_ge_0 [of DEFAULT_FINAL_FLUSH] by linarith
  with sum show ?thesis
    by (auto simp: budget_display_def budget_total_def shutdown_budget_def duration_add_def split: bind_split)
qed

lemma bounded_at_least:
  assumes "resolve_bounded_duration env flag label key file fallback least bound = Inr d"
  shows "least \<le> d"
  using assms by (auto simp: resolve_bounded_duration_def validate_duration_min_def Let_def split: sum.splits prod.splits if_splits)

text \<open>
  C5. A configured run's grace period and teardown deadline respect their lower bounds, and nothing
  bounds them above: the drive of a run that can be assembled panics, before it has recorded
  anything, exactly when the two and the final flush add up to more than a duration can hold.
\<close>

theorem configured_drive_panics:
  assumes "grace_from_env vars gflag gfile c0 = Inr c1" "teardown_deadline_from_env vars tflag tfile c1 = Inr c"
    and plan: "case assembled of Inl _ \<Rightarrow> True | Inr plan \<Rightarrow> \<exists>a. assemble (pl_pipeline plan) = Some (Inr a)"
  shows "GRACE_MIN \<le> dc_grace c \<and> TEARDOWN_DEADLINE_MIN \<le> dc_teardown_deadline c
    \<and> (drive env sink clock c pname assembled allow world = DrivePanics
        \<longleftrightarrow> uint DURATION_MAX < uint (dc_grace c) + uint (dc_teardown_deadline c) + uint DEFAULT_FINAL_FLUSH)"
proof -
  obtain g where g: "resolve_bounded_duration vars gflag GRACE_FLAG DAGR_GRACE gfile DEFAULT_GRACE GRACE_MIN ''1 ms'' = Inr g"
    "c1 = config_grace g c0"
    using assms(1) by (auto simp: grace_from_env_def map_sum_Inr)
  obtain t where t: "resolve_bounded_duration vars tflag TEARDOWN_DEADLINE_FLAG DAGR_TEARDOWN_DEADLINE tfile
      DEFAULT_TEARDOWN_DEADLINE TEARDOWN_DEADLINE_MIN ''1 s'' = Inr t" "c = config_teardown_deadline t c1"
    using assms(2) by (auto simp: teardown_deadline_from_env_def map_sum_Inr)
  have c: "dc_grace c = g" "dc_teardown_deadline c = t" by (simp_all add: t(2) g(2) config_teardown_deadline_def config_grace_def)
  have "drive env sink clock c pname assembled allow world = DrivePanics
      \<longleftrightarrow> budget_display (config_shutdown_budget c) = None"
    using plan by (auto simp: drive_def finish_drive_report Let_def split: sum.splits option.splits)
  then show ?thesis
    using bounded_at_least [OF g(1)] bounded_at_least [OF t(1)] by (simp add: c config_shutdown_budget_def budget_overflows)
qed

text \<open>The largest grace period an operator can write is too much.\<close>

theorem configured_drive_panics_witness:
  "\<exists>d c. parse_duration ''18446744073709551615s'' = Inr d
    \<and> grace_from_env (\<lambda>_. None) (Some d) None (config_new ''base'') = Inr c
    \<and> drive sample_env [] 5 c ''p'' (Inl []) [] one_world = DrivePanics"
proof -
  have "(- 1 :: u64) = 18446744073709551615" by simp
  then have most: "from_secs (- 1) = 18446744073709551615000000000" by (simp only: from_secs_def) simp
  have d: "parse_duration ''18446744073709551615s'' = Inr (from_secs (- 1))"
  proof -
    have "trim ''18446744073709551615s'' = ''18446744073709551615'' @ ''s''" by code_simp
    moreover have "u64_from_str ''18446744073709551615'' = Inr (- 1)"
      by (simp add: u64_from_str_def uint_from_str_def is_digit_def digit_val_def)
    moreover have "strip_suffix ''ms'' (''18446744073709551615'' @ ''s'') = None"
      "strip_suffix ''s'' (''18446744073709551615'' @ ''s'') = Some ''18446744073709551615''"
      by (simp_all add: strip_suffix_def)
    ultimately show ?thesis by (simp only: parse_duration_def Let_def) simp
  qed
  have g: "grace_from_env (\<lambda>_. None) (Some (from_secs (- 1))) None (config_new ''base'')
      = Inr (config_grace (from_secs (- 1)) (config_new ''base''))"
    by (simp add: grace_from_env_def resolve_bounded_duration_def validate_duration_min_def most GRACE_MIN_def word_le_def)
  let ?c = "config_teardown_deadline DEFAULT_TEARDOWN_DEADLINE (config_grace (from_secs (- 1)) (config_new ''base''))"
  have t: "teardown_deadline_from_env (\<lambda>_. None) None None (config_grace (from_secs (- 1)) (config_new ''base'')) = Inr ?c"
    by (simp add: teardown_deadline_from_env_def resolve_bounded_duration_def validate_duration_min_def env_value_def
        DEFAULT_TEARDOWN_DEADLINE_def TEARDOWN_DEADLINE_MIN_def secs_def)
  have same: "?c = config_grace (from_secs (- 1)) (config_new ''base'')"
    by (simp add: config_teardown_deadline_def config_grace_def config_new_def)
  have "uint DURATION_MAX < uint (dc_grace ?c) + uint (dc_teardown_deadline ?c) + uint DEFAULT_FINAL_FLUSH"
    by (simp add: config_teardown_deadline_def config_grace_def config_new_def most DURATION_MAX_def
        DEFAULT_TEARDOWN_DEADLINE_def DEFAULT_FINAL_FLUSH_def secs_def)
  with configured_drive_panics [OF g t, of "Inl []" sample_env "[]" 5 "''p''" "[]" one_world] d g same
  show ?thesis by simp
qed

end
