(* ===== verification/Config_File.thy ===== *)
theory Config_File
  imports Config
begin

text \<open>
  The configuration file (\<open>crates/cli/src/config_file.rs\<close>): discovery, profile selection, the profile
  tables and their layering.  The TOML parser is a library: what it returns for a text, and how it
  names what is wrong, are parameters, as are the files.  A table is the library's ordered map; a
  float is the text it is displayed as.
\<close>

section \<open>Values of the library\<close>

datatype TomlValue =
  TomlString string | TomlInteger "64 word" | TomlFloat string | TomlBoolean bool | TomlDatetime | TomlArray
| TomlTable "(string \<times> TomlValue) list"

record ConfigFiles =
  cf_is_file :: "string \<Rightarrow> bool"
  cf_read :: "string \<Rightarrow> string + string"
  cf_toml :: "string \<Rightarrow> string + (string \<times> TomlValue) list"

definition CONFIG_FLAG :: string where "CONFIG_FLAG = ''--dagr.config''"
definition PROFILE_FLAG :: string where "PROFILE_FLAG = ''--dagr.profile''"
definition DAGR_PROFILE :: string where "DAGR_PROFILE = ''DAGR_PROFILE''"
definition CONFIG_FILE_NAME :: string where "CONFIG_FILE_NAME = ''dagr.toml''"
definition DEFAULT_PROFILE :: string where "DEFAULT_PROFILE = ''default''"

definition FILE_KEYS :: "string list" where
  "FILE_KEYS = [''store'', ''grace'', ''teardown-deadline'', ''failure-mode'', ''pool.compute-threads'',
     ''pool.blocking-threads'', ''pool.memory'', ''pool.headroom-fraction'', ''executor'', ''max-pods'',
     ''force-roundtrip'', ''metastore'', ''metastore-store'', ''log-format'']"

definition parse_config_flag :: "argv \<Rightarrow> string + string option" where
  "parse_config_flag argv = parse_valued_flag Inr argv CONFIG_FLAG"

definition parse_profile_flag :: "argv \<Rightarrow> string + string option" where
  "parse_profile_flag argv = parse_valued_flag Inr argv PROFILE_FLAG"

section \<open>Profile tables\<close>

definition insert_known ::
  "string \<Rightarrow> string \<Rightarrow> string \<Rightarrow> string \<Rightarrow> (string, string) btree \<Rightarrow> EnvParseError + (string, string) btree" where
  "insert_known shown profile key raw m =
     (if key \<notin> set FILE_KEYS
      then Inl (parse_from (source_file shown profile key) []
             (''unknown key '' @ quoted key @ '' (known keys: '' @ join '', '' FILE_KEYS @ '') '' @ dash
              @ '' an unrecognized key is never silently ignored, and no key can select a flow or describe the graph''))
      else Inr (bt_insert key raw m))"

definition show_int :: "int \<Rightarrow> string" where
  "show_int i = (if i < 0 then CHR ''-'' # show_nat (nat (- i)) else show_nat (nat i))"

definition not_scalar :: "string \<Rightarrow> string \<Rightarrow> string \<Rightarrow> string \<Rightarrow> EnvParseError" where
  "not_scalar shown profile key kind =
     parse_from (source_file shown profile key) []
       (''the value must be a scalar (a string, integer, float, or boolean) '' @ dash @ '' got '' @ kind)"

definition dotted :: "string \<Rightarrow> string \<Rightarrow> string" where
  "dotted pre name = (if pre = [] then name else pre @ ''.'' @ name)"

text \<open>The entries of a table in order; the first that does not fit ends the walk.\<close>

fun flatten_profile ::
  "string \<Rightarrow> string \<Rightarrow> string \<Rightarrow> (string \<times> TomlValue) list \<Rightarrow> (string, string) btree
     \<Rightarrow> EnvParseError + (string, string) btree"
and flatten_value ::
  "string \<Rightarrow> string \<Rightarrow> string \<Rightarrow> TomlValue \<Rightarrow> (string, string) btree \<Rightarrow> EnvParseError + (string, string) btree" where
  "flatten_profile shown profile pre [] m = Inr m"
| "flatten_profile shown profile pre ((name, v) # rest) m =
     (case flatten_value shown profile (dotted pre name) v m of
        Inl err \<Rightarrow> Inl err
      | Inr m \<Rightarrow> flatten_profile shown profile pre rest m)"
| "flatten_value shown profile key (TomlTable nested) m = flatten_profile shown profile key nested m"
| "flatten_value shown profile key (TomlString s) m = insert_known shown profile key s m"
| "flatten_value shown profile key (TomlInteger i) m = insert_known shown profile key (show_int (sint i)) m"
| "flatten_value shown profile key (TomlFloat s) m = insert_known shown profile key s m"
| "flatten_value shown profile key (TomlBoolean b) m =
     insert_known shown profile key (if b then ''true'' else ''false'') m"
| "flatten_value shown profile key TomlDatetime m = Inl (not_scalar shown profile key ''a date-time'')"
| "flatten_value shown profile key TomlArray m = Inl (not_scalar shown profile key ''an array'')"

definition not_a_profile :: "string \<Rightarrow> string \<Rightarrow> EnvParseError" where
  "not_a_profile shown name =
     parse_from (File \<lparr>fs_path = shown, fs_profile = None, fs_key = Some name\<rparr>) []
       (''top-level entry '' @ quoted name @ '' is not a profile table; runtime keys live inside a profile (for example under `[''
        @ DEFAULT_PROFILE @ '']`)'')"

fun profiles_from ::
  "string \<Rightarrow> (string \<times> TomlValue) list \<Rightarrow> (string, (string, string) btree) btree
     \<Rightarrow> EnvParseError + (string, (string, string) btree) btree" where
  "profiles_from shown [] profiles = Inr profiles"
| "profiles_from shown ((name, v) # rest) profiles =
     (case v of
        TomlTable profile_table \<Rightarrow>
          (case flatten_profile shown name [] profile_table [] of
             Inl err \<Rightarrow> Inl err
           | Inr flat \<Rightarrow> profiles_from shown rest (bt_insert name flat profiles))
      | _ \<Rightarrow> Inl (not_a_profile shown name))"

definition parse_profiles ::
  "ConfigFiles \<Rightarrow> string \<Rightarrow> string \<Rightarrow> EnvParseError + (string, (string, string) btree) btree" where
  "parse_profiles fs shown contents =
     (case cf_toml fs contents of
        Inl e \<Rightarrow> Inl (parse_from (whole_file shown) [] (''not valid TOML: '' @ e))
      | Inr table \<Rightarrow> profiles_from shown table [])"

section \<open>Loading\<close>

definition select_profile :: "environment \<Rightarrow> string option \<Rightarrow> (ConfigSource \<times> string) option" where
  "select_profile env profile_flag =
     (case profile_flag of
        Some name \<Rightarrow> Some (FlagSource PROFILE_FLAG, name)
      | None \<Rightarrow> map_option (Pair (EnvSource DAGR_PROFILE)) (env_value env DAGR_PROFILE))"

definition path_join :: "string \<Rightarrow> string \<Rightarrow> string" where
  "path_join dir name = (if dir = [] \<or> last dir = CHR ''/'' then dir @ name else dir @ ''/'' @ name)"

definition discover :: "ConfigFiles \<Rightarrow> string \<Rightarrow> string option \<Rightarrow> EnvParseError + string option" where
  "discover fs dir explicit =
     (case explicit of
        Some p \<Rightarrow>
          if \<not> cf_is_file fs p
          then Inl (parse_from (FlagSource CONFIG_FLAG) p
                 (''the explicitly named configuration file '' @ quoted p
                  @ '' does not exist (an explicit --dagr.config path is never silently skipped)''))
          else Inr (Some p)
      | None \<Rightarrow>
          (let conventional = path_join dir CONFIG_FILE_NAME
           in Inr (if cf_is_file fs conventional then Some conventional else None)))"

definition overlay ::
  "string \<Rightarrow> (string, (string, string) btree) btree \<Rightarrow> string \<Rightarrow> FileTier \<Rightarrow> FileTier" where
  "overlay shown profiles profile_name tier =
     (case bt_get profiles profile_name of
        None \<Rightarrow> tier
      | Some flat \<Rightarrow>
          fold (\<lambda>(key, raw). bt_insert key \<lparr>fv_raw = raw, fv_path = shown, fv_profile = profile_name, fv_key = key\<rparr>)
            flat tier)"

definition selected_profile ::
  "string \<Rightarrow> (string, (string, string) btree) btree \<Rightarrow> (ConfigSource \<times> string) option
     \<Rightarrow> EnvParseError + string option" where
  "selected_profile shown profiles selection =
     (case selection of
        None \<Rightarrow> Inr None
      | Some (source, name) \<Rightarrow>
          if bt_get profiles name = None
          then Inl (parse_from source name
                 (''config file '' @ quoted shown @ '' defines no profile '' @ quoted name @ '' (profiles: ''
                  @ join '', '' (map fst profiles) @ '') '' @ dash @ '' an unknown profile never falls back to ''
                  @ quoted DEFAULT_PROFILE))
          else Inr (Some name))"

definition load_file_tier_from ::
  "ConfigFiles \<Rightarrow> environment \<Rightarrow> string \<Rightarrow> string option \<Rightarrow> string option \<Rightarrow> EnvParseError + FileTier" where
  "load_file_tier_from fs env dir explicit profile_flag =
     (let selection = select_profile env profile_flag
      in case discover fs dir explicit of
           Inl err \<Rightarrow> Inl err
         | Inr None \<Rightarrow>
             (case selection of
                Some (source, name) \<Rightarrow>
                  Inl (parse_from source name
                    (''profile '' @ quoted name @ '' was selected but no configuration file was found (no --dagr.config was given and no ./''
                     @ CONFIG_FILE_NAME @ '' exists)''))
              | None \<Rightarrow> Inr [])
         | Inr (Some shown) \<Rightarrow>
             (case cf_read fs shown of
                Inl e \<Rightarrow> Inl (parse_from (whole_file shown) [] (''the configuration file cannot be read: '' @ e))
              | Inr contents \<Rightarrow>
                  (case parse_profiles fs shown contents of
                     Inl err \<Rightarrow> Inl err
                   | Inr profiles \<Rightarrow>
                       (case selected_profile shown profiles selection of
                          Inl err \<Rightarrow> Inl err
                        | Inr selected \<Rightarrow>
                            (let tier = overlay shown profiles DEFAULT_PROFILE []
                             in Inr (case selected of
                                       Some name \<Rightarrow> if name \<noteq> DEFAULT_PROFILE then overlay shown profiles name tier else tier
                                     | None \<Rightarrow> tier))))))"

definition load_file_tier :: "ConfigFiles \<Rightarrow> environment \<Rightarrow> argv \<Rightarrow> EnvParseError + FileTier" where
  "load_file_tier fs env argv =
     (case parse_config_flag argv of
        Inl detail \<Rightarrow> Inl (parse_from (FlagSource CONFIG_FLAG) [] detail)
      | Inr explicit \<Rightarrow>
          (case parse_profile_flag argv of
             Inl detail \<Rightarrow> Inl (parse_from (FlagSource PROFILE_FLAG) [] detail)
           | Inr profile \<Rightarrow> load_file_tier_from fs env ''.'' explicit profile))"

section \<open>Layering\<close>

definition known_table :: "(string, string) btree \<Rightarrow> bool" where
  "known_table m \<longleftrightarrow> bt_ok m \<and> fst ` set m \<subseteq> set FILE_KEYS"

lemma known_table_Nil [simp]: "known_table []"
  by (simp add: known_table_def)

lemma insert_known_table: "insert_known shown profile key raw m = Inr m' \<Longrightarrow> known_table m \<Longrightarrow> known_table m'"
proof -
  assume i: "insert_known shown profile key raw m = Inr m'" and m: "known_table m"
  from i have "key \<in> set FILE_KEYS" "m' = bt_insert key raw m" by (simp_all add: insert_known_def split: if_splits)
  with m show "known_table m'" by (simp add: known_table_def bt_insert_keys)
qed

lemma flatten_known:
  "flatten_profile shown profile pre table m = Inr m' \<Longrightarrow> known_table m \<Longrightarrow> known_table m'"
  "flatten_value shown profile key v m = Inr m' \<Longrightarrow> known_table m \<Longrightarrow> known_table m'"
  by (induction shown profile pre table m and shown profile key v m arbitrary: m' and m' rule: flatten_profile_flatten_value.induct)
    (auto dest: insert_known_table split: sum.splits)

lemma profiles_known:
  assumes "profiles_from shown table profiles = Inr profiles'" "bt_ok profiles" "\<forall>f \<in> snd ` set profiles. known_table f"
  shows "bt_ok profiles' \<and> (\<forall>f \<in> snd ` set profiles'. known_table f)"
  using assms
proof (induction shown table profiles rule: profiles_from.induct)
  case (2 shown name v rest profiles)
  then obtain t flat where t: "v = TomlTable t" "flatten_profile shown name [] t [] = Inr flat"
    "profiles_from shown rest (bt_insert name flat profiles) = Inr profiles'"
    by (auto split: TomlValue.splits sum.splits)
  have "known_table flat" by (rule flatten_known(1) [OF t(2)]) simp
  moreover have "snd ` set (bt_insert name flat profiles) \<subseteq> insert flat (snd ` set profiles)"
    by (induction name flat profiles rule: bt_insert.induct) auto
  ultimately have "\<forall>f \<in> snd ` set (bt_insert name flat profiles). known_table f" using 2(4) by blast
  moreover have "bt_ok (bt_insert name flat profiles)" using 2(3) by simp
  ultimately show ?case using 2(1) [OF t(1,2,3)] by blast
qed simp

lemma insert_all_get:
  assumes "bt_ok m" "bt_ok flat"
  shows "bt_ok (fold (\<lambda>(k, raw). bt_insert k (g k raw)) flat m)
    \<and> bt_get (fold (\<lambda>(k, raw). bt_insert k (g k raw)) flat m) key
      = (case bt_get flat key of Some raw \<Rightarrow> Some (g key raw) | None \<Rightarrow> bt_get m key)"
  using assms
proof (induction flat arbitrary: m)
  case (Cons kr flat)
  obtain k raw where kr: "kr = (k, raw)" by fastforce
  have fresh: "bt_get flat k = None" using Cons.prems(2) by (auto simp: kr bt_ok_Cons bt_get_None_iff)
  from Cons.IH [of "bt_insert k (g k raw) m"] Cons.prems fresh show ?case
    by (auto simp: kr bt_ok_Cons bt_get_insert bt_get_Cons split: option.splits)
qed simp

text \<open>The value of a key in the first of some profiles that has it.\<close>

fun layered :: "string \<Rightarrow> (string, (string, string) btree) btree \<Rightarrow> string list \<Rightarrow> string \<Rightarrow> FileValue option" where
  "layered shown profiles [] key = None"
| "layered shown profiles (name # names) key =
     (case Option.bind (bt_get profiles name) (\<lambda>flat. bt_get flat key) of
        Some raw \<Rightarrow> Some \<lparr>fv_raw = raw, fv_path = shown, fv_profile = name, fv_key = key\<rparr>
      | None \<Rightarrow> layered shown profiles names key)"

definition layer_order :: "(ConfigSource \<times> string) option \<Rightarrow> string list" where
  "layer_order selection = (case selection of Some (_, name) \<Rightarrow> [name, DEFAULT_PROFILE] | None \<Rightarrow> [DEFAULT_PROFILE])"

lemma overlay_get:
  assumes "bt_ok tier" "\<forall>f \<in> snd ` set profiles. known_table f"
  shows "bt_ok (overlay shown profiles name tier)
    \<and> bt_get (overlay shown profiles name tier) key
      = (case Option.bind (bt_get profiles name) (\<lambda>flat. bt_get flat key) of
           Some raw \<Rightarrow> Some \<lparr>fv_raw = raw, fv_path = shown, fv_profile = name, fv_key = key\<rparr>
         | None \<Rightarrow> bt_get tier key)"
proof (cases "bt_get profiles name")
  case (Some flat)
  then have "bt_ok flat" using assms(2) bt_get_in_set by (force simp: known_table_def)
  from insert_all_get [OF assms(1) this] Some show ?thesis by (simp add: overlay_def)
qed (simp add: overlay_def assms(1))

text \<open>
  C6. A configuration file that loads gives every key the value of the selected profile, of the
  default profile for what that leaves out, and nothing else; only known keys get through, a selected
  profile exists, and without a file nothing was selected and no key has a value.
\<close>

theorem file_tier_layers:
  assumes "load_file_tier_from fs vars dir explicit profile_flag = Inr tier"
  shows "case discover fs dir explicit of
      Inl _ \<Rightarrow> False
    | Inr None \<Rightarrow> select_profile vars profile_flag = None \<and> tier = []
    | Inr (Some shown) \<Rightarrow> \<exists>contents profiles. cf_read fs shown = Inr contents \<and> parse_profiles fs shown contents = Inr profiles
        \<and> (\<forall>key. bt_get tier key = layered shown profiles (layer_order (select_profile vars profile_flag)) key)
        \<and> (\<forall>key. bt_get tier key \<noteq> None \<longrightarrow> key \<in> set FILE_KEYS)
        \<and> (\<forall>source name. select_profile vars profile_flag = Some (source, name) \<longrightarrow> bt_get profiles name \<noteq> None)"
proof (cases "discover fs dir explicit")
  case (Inl err)
  with assms show ?thesis by (simp add: load_file_tier_from_def Let_def)
next
  case (Inr found)
  show ?thesis
  proof (cases found)
    case None
    with Inr assms show ?thesis by (auto simp: load_file_tier_from_def Let_def split: option.splits prod.splits)
  next
    case (Some shown)
    let ?sel = "select_profile vars profile_flag"
    obtain contents where contents: "cf_read fs shown = Inr contents"
      using assms by (auto simp: load_file_tier_from_def Inr Some Let_def split: sum.splits)
    obtain profiles where profiles: "parse_profiles fs shown contents = Inr profiles"
      using assms by (auto simp: load_file_tier_from_def Inr Some contents Let_def split: sum.splits)
    obtain selected where selected: "selected_profile shown profiles ?sel = Inr selected"
      using assms by (auto simp: load_file_tier_from_def Inr Some contents profiles Let_def split: sum.splits)
    let ?base = "overlay shown profiles DEFAULT_PROFILE []"
    have tier: "tier = (case selected of
        Some name \<Rightarrow> if name \<noteq> DEFAULT_PROFILE then overlay shown profiles name ?base else ?base | None \<Rightarrow> ?base)"
      using assms by (simp add: load_file_tier_from_def Inr Some contents profiles selected Let_def)
    have known: "bt_ok profiles \<and> (\<forall>f \<in> snd ` set profiles. known_table f)"
    proof -
      obtain table where "profiles_from shown table [] = Inr profiles"
        using profiles by (auto simp: parse_profiles_def split: sum.splits)
      from profiles_known [OF this] show ?thesis by simp
    qed
    note base = overlay_get [of "[]" profiles shown DEFAULT_PROFILE]
    have sel: "map_option snd ?sel = selected"
      "\<forall>source name. ?sel = Some (source, name) \<longrightarrow> bt_get profiles name \<noteq> None"
      using selected by (auto simp: selected_profile_def split: option.splits prod.splits if_splits)
    have get: "bt_get tier key = layered shown profiles (layer_order ?sel) key" for key
    proof (cases selected)
      case None
      with sel(1) base known show ?thesis by (simp add: tier layer_order_def split: option.split)
    next
      case (Some name)
      then obtain source where s: "?sel = Some (source, name)" using sel(1) by auto
      have "bt_get (overlay shown profiles name ?base) key = layered shown profiles [name, DEFAULT_PROFILE] key"
        using overlay_get [of ?base profiles shown name] base known by (simp split: option.split)
      with Some s base known show ?thesis by (auto simp: tier layer_order_def split: option.split)
    qed
    have keys: "key \<in> set FILE_KEYS" if "layered shown profiles names key \<noteq> None" for names key
    proof -
      have "key \<in> set FILE_KEYS" if "bt_get profiles name = Some flat" "bt_get flat key = Some raw" for name flat raw
      proof -
        have "known_table flat" using known that(1) bt_get_in_set by force
        with that(2) show ?thesis using bt_get_in_set by (force simp: known_table_def)
      qed
      with that show ?thesis by (induction names) (auto split: option.splits bind_splits)
    qed
    show ?thesis using contents profiles get keys sel(2) by (auto simp: Inr Some)
  qed
qed

text \<open>A file with a default and another profile.\<close>

definition sample_files :: ConfigFiles where
  "sample_files = \<lparr>cf_is_file = \<lambda>p. p = ''./dagr.toml'', cf_read = \<lambda>_. Inr [],
     cf_toml = \<lambda>_. Inr [(''default'', TomlTable [(''grace'', TomlString ''25s''), (''max-pods'', TomlInteger 10)]),
       (''prod'', TomlTable [(''max-pods'', TomlInteger 50)])]\<rparr>"

theorem file_tier_layers_witness:
  "\<exists>tier. load_file_tier_from sample_files (\<lambda>_. None) ''.'' None (Some ''prod'') = Inr tier
    \<and> map_option fv_raw (bt_get tier ''max-pods'') = Some ''50'' \<and> map_option fv_raw (bt_get tier ''grace'') = Some ''25s''"
proof -
  have p: "parse_profiles sample_files ''./dagr.toml'' [] = Inr
      [(''default'', [(''grace'', ''25s''), (''max-pods'', ''10'')]), (''prod'', [(''max-pods'', ''50'')])]"
    by code_simp
  have d: "discover sample_files ''.'' None = Inr (Some ''./dagr.toml'')" by code_simp
  obtain tier where t: "load_file_tier_from sample_files (\<lambda>_. None) ''.'' None (Some ''prod'') = Inr tier"
    using p d by (simp add: load_file_tier_from_def select_profile_def selected_profile_def sample_files_def bt_simps Let_def)
  from file_tier_layers [OF t] p d
  have "\<forall>key. bt_get tier key = layered ''./dagr.toml'' [(''default'', [(''grace'', ''25s''), (''max-pods'', ''10'')]), (''prod'', [(''max-pods'', ''50'')])]
      [''prod'', DEFAULT_PROFILE] key"
    by (auto simp: sample_files_def select_profile_def layer_order_def)
  then show ?thesis using t by (simp add: bt_simps DEFAULT_PROFILE_def)
qed

end
