(* ===== verification/Fold.thy ===== *)
theory Fold
  imports Event_Stream
begin

text \<open>
  The fold (\<open>crates/artifact/src/fold.rs\<close>): the reader that turns the bytes of an event stream into a
  run artifact.  Attempts are assembled in one pass over the records with the last offset seen of each
  kind of event, nodes that never ran are covered from their terminal record or from the graph's roster,
  and the summary holds totals, retained values, abandoned work and the critical path.  The lemmas
  show that an attempt's phases partition its window, that every node is covered, that the critical
  path is at most the elapsed time, and that a run cut short anywhere after its first record folds.
\<close>

section \<open>Constants and errors\<close>

definition FOLD_READER_VERSION :: string where
  "FOLD_READER_VERSION = ''dagr.run-fold@1''"

definition ACCEPTED_STREAM_SCHEMA_VERSIONS :: "string list" where
  "ACCEPTED_STREAM_SCHEMA_VERSIONS = [''dagr.event-stream@1'']"

definition PHASE_READY_WAIT :: string where "PHASE_READY_WAIT = ''ready-wait''"
definition PHASE_PERMIT_WAIT :: string where "PHASE_PERMIT_WAIT = ''permit-wait''"
definition PHASE_EXECUTING :: string where "PHASE_EXECUTING = ''executing''"
definition PHASE_BACKOFF :: string where "PHASE_BACKOFF = ''backoff''"
definition UNKNOWN_WORKER :: string where "UNKNOWN_WORKER = ''unknown''"

datatype FoldError = CorruptRecord nat | MissingRunStarted

fun fold_error_display :: "FoldError \<Rightarrow> string" where
  "fold_error_display (CorruptRecord line) =
     ''corrupt event-stream record at line '' @ show_nat line @ '' (not the tolerated trailing partial)''"
| "fold_error_display MissingRunStarted = ''event stream has no run-started record; nothing to fold''"

section \<open>The artifact\<close>

record AttemptRecord =
  at_node :: string
  at_attempt :: u32
  at_status :: string
  at_phase_durations_ns :: "(string, u64) btree"
  at_worker :: string
  at_message :: "string option"
  at_error :: "Json option"
  at_metrics :: Json
  at_cost_declared :: "Json option"
  at_cost_measured :: "Json option"
  at_durable_reference :: "Json option"
  at_durable_reference_meta :: "Json option"
  at_satisfied_from_run :: "string option"
  at_originating_node :: "string option"
  at_inputs :: "Json list"

definition total_elapsed_ns :: "AttemptRecord \<Rightarrow> u64" where
  "total_elapsed_ns a = sum_list (bt_values (at_phase_durations_ns a))"

definition json_or_null :: "Json option \<Rightarrow> Json" where
  "json_or_null v = (case v of Some j \<Rightarrow> j | None \<Rightarrow> JNull)"

definition attempt_to_value :: "AttemptRecord \<Rightarrow> Json" where
  "attempt_to_value a = json_obj
     ([(''node'', JString (at_node a)), (''attempt'', json_u32 (at_attempt a)), (''status'', JString (at_status a)),
       (''phase_durations_ns'', json_obj (map (\<lambda>(k, v). (k, json_nat v)) (at_phase_durations_ns a))),
       (''worker'', JString (at_worker a)),
       (''message'', json_or_null (map_option JString (at_message a))),
       (''error'', json_or_null (at_error a)), (''metrics'', at_metrics a),
       (''cost_declared'', json_or_null (at_cost_declared a)),
       (''cost_measured'', json_or_null (at_cost_measured a))]
      @ opt_field ''durable_reference'' id (at_durable_reference a)
      @ opt_field ''durable_reference_meta'' id (at_durable_reference_meta a)
      @ opt_field ''satisfied_from_run'' JString (at_satisfied_from_run a)
      @ opt_field ''originating_node'' JString (at_originating_node a)
      @ (if at_inputs a \<noteq> [] then [(''inputs'', JArray (at_inputs a))] else []))"

definition consumed_uri :: "Json \<Rightarrow> string" where
  "consumed_uri v = (case Option.bind (j_get ''uri'' v) as_str of Some s \<Rightarrow> s | None \<Rightarrow> [])"

definition consumed_content_hash :: "Json \<Rightarrow> string option" where
  "consumed_content_hash v = Option.bind (j_get ''content_hash'' v) as_str"

record RunSummary =
  su_total_elapsed_ns :: u64
  su_critical_path_ns :: u64
  su_peak_slot_residency :: u64
  su_retained_values :: "string list"
  su_abandoned_pinned_time_ns :: u64
  su_abandoned_pinned_capacity :: u64

definition summary_to_value :: "RunSummary \<Rightarrow> Json" where
  "summary_to_value s = json_obj
     [(''total_elapsed_ns'', json_nat (su_total_elapsed_ns s)),
      (''critical_path_ns'', json_nat (su_critical_path_ns s)),
      (''peak_slot_residency'', json_nat (su_peak_slot_residency s)),
      (''retained_values'', JArray (map JString (su_retained_values s))),
      (''abandoned_pinned_time_ns'', json_nat (su_abandoned_pinned_time_ns s)),
      (''abandoned_pinned_capacity'', json_nat (su_abandoned_pinned_capacity s))]"

record ProducedOutput =
  po_node :: string
  po_attempt :: u32
  po_uri :: string
  po_content_hash :: "string option"
  po_size_bytes :: "u64 option"
  po_kind :: "string option"
  po_produced_at_offset_ns :: u64
  po_originating_run :: string

definition output_to_value :: "ProducedOutput \<Rightarrow> Json" where
  "output_to_value p = json_obj
     ([(''node'', JString (po_node p)), (''attempt'', json_u32 (po_attempt p)), (''uri'', JString (po_uri p))]
      @ opt_field ''content_hash'' JString (po_content_hash p)
      @ opt_field ''size_bytes'' json_nat (po_size_bytes p)
      @ opt_field ''kind'' JString (po_kind p)
      @ [(''produced_at_offset_ns'', json_nat (po_produced_at_offset_ns p)),
         (''originating_run'', JString (po_originating_run p))])"

record SubmittedAttempt =
  sa_node :: string
  sa_attempt :: u32
  sa_inputs :: "Json list option"
  sa_executor :: "string option"
  sa_target_name :: "string option"
  sa_observed_name :: "string option"
  sa_observed_uid :: "string option"
  sa_observed_host :: "string option"
  sa_structural_fingerprint :: "string option"
  sa_policy_hash :: "string option"
  sa_tool_version :: "string option"
  sa_image_digest :: "string option"
  sa_submitted_at_offset_ns :: u64
  sa_outcome_state :: "string option"

definition submitted_input_count :: "SubmittedAttempt \<Rightarrow> nat option" where
  "submitted_input_count s = map_option length (sa_inputs s)"

definition submitted_input_at :: "nat \<Rightarrow> SubmittedAttempt \<Rightarrow> Json option" where
  "submitted_input_at position s =
     Option.bind (sa_inputs s) (\<lambda>xs. if position < length xs then Some (xs ! position) else None)"

definition submitted_completed :: "SubmittedAttempt \<Rightarrow> bool" where
  "submitted_completed s \<longleftrightarrow> sa_outcome_state s \<noteq> None"

record RunArtifact =
  ra_header :: Json
  ra_overall_outcome :: string
  ra_interrupted :: bool
  ra_trailing_partial_discarded :: bool
  ra_errors :: "string list"
  ra_attempts :: "AttemptRecord list"
  ra_summary :: "RunSummary option"
  ra_outputs :: "ProducedOutput list"
  ra_submissions :: "SubmittedAttempt list"

definition string_or_empty :: "string option \<Rightarrow> string" where
  "string_or_empty s = (case s of Some t \<Rightarrow> t | None \<Rightarrow> [])"

definition string_field :: "Json \<Rightarrow> string \<Rightarrow> string option" where
  "string_field r field = Option.bind (j_get field r) as_str"

definition header_run_id :: "RunArtifact \<Rightarrow> string" where
  "header_run_id a = string_or_empty (string_field (ra_header a) ''run_id'')"

definition header_pipeline :: "RunArtifact \<Rightarrow> string" where
  "header_pipeline a = string_or_empty (string_field (ra_header a) ''pipeline'')"

definition header_fingerprint_structural :: "RunArtifact \<Rightarrow> string option" where
  "header_fingerprint_structural a = string_field (ra_header a) ''fingerprint_structural''"

definition header_fingerprint_policy :: "RunArtifact \<Rightarrow> string option" where
  "header_fingerprint_policy a = string_field (ra_header a) ''fingerprint_policy''"

definition header_parameters :: "RunArtifact \<Rightarrow> (string \<times> Json) list" where
  "header_parameters a =
     (case Option.bind (j_get ''parameters'' (ra_header a)) as_object of Some m \<Rightarrow> m | None \<Rightarrow> [])"

definition non_null :: "Json option \<Rightarrow> Json option" where
  "non_null v = Option.bind v (\<lambda>j. if is_null j then None else Some j)"

definition header_data_interval :: "RunArtifact \<Rightarrow> Json option" where
  "header_data_interval a = non_null (j_get ''data_interval'' (ra_header a))"

definition header_captured_environment :: "RunArtifact \<Rightarrow> Json" where
  "header_captured_environment a =
     (case j_get ''captured_environment'' (ra_header a) of Some v \<Rightarrow> v | None \<Rightarrow> JObject [])"

definition header_resumed_from :: "RunArtifact \<Rightarrow> string option" where
  "header_resumed_from a =
     Option.bind (Option.bind (j_get ''resume_lineage'' (ra_header a)) (j_get ''run_id'')) as_str"

definition artifact_to_value :: "RunArtifact \<Rightarrow> Json" where
  "artifact_to_value a =
     (let header = (case as_object (ra_header a) of Some m \<Rightarrow> m | None \<Rightarrow> []);
          header = bt_insert ''overall_outcome'' (JString (ra_overall_outcome a)) header;
          header = (if ra_errors a \<noteq> [] then bt_insert ''errors'' (JArray (map JString (ra_errors a))) header
                    else header)
      in json_obj
        [(''header'', JObject header),
         (''attempts'', JArray (map attempt_to_value (ra_attempts a))),
         (''outputs'', JArray (map output_to_value (ra_outputs a))),
         (''summary'', json_or_null (map_option summary_to_value (ra_summary a))),
         (''interrupted'', JBool (ra_interrupted a)),
         (''fold_reader'', json_obj
            [(''version'', JString FOLD_READER_VERSION),
             (''accepts'', JArray (map JString ACCEPTED_STREAM_SCHEMA_VERSIONS)),
             (''interrupted'', JBool (ra_interrupted a))])])"

definition to_canonical_json :: "float_text \<Rightarrow> RunArtifact \<Rightarrow> string" where
  "to_canonical_json ft a = to_canonical_string ft (artifact_to_value a)"

section \<open>Reading a record\<close>

definition kind_of :: "Json \<Rightarrow> string option" where
  "kind_of r = string_field r ''kind''"

definition offset_of :: "Json \<Rightarrow> u64" where
  "offset_of r = (case Option.bind (j_get ''offset_ns'' r) as_u64 of Some n \<Rightarrow> n | None \<Rightarrow> 0)"

definition record_node :: "Json \<Rightarrow> string option" where
  "record_node r = string_field r ''node''"

text \<open>\<open>u32::try_from\<close>\<close>

definition u32_try_from :: "u64 \<Rightarrow> u32 option" where
  "u32_try_from n = (if unat n \<le> u32_max then Some (ucast n) else None)"

definition record_attempt :: "Json \<Rightarrow> u32 option" where
  "record_attempt r = Option.bind (Option.bind (j_get ''attempt'' r) as_u64) u32_try_from"

definition or_one :: "u32 option \<Rightarrow> u32" where
  "or_one n = (case n of Some k \<Rightarrow> k | None \<Rightarrow> 1)"

definition u64_field :: "string \<Rightarrow> Json \<Rightarrow> u64 option" where
  "u64_field k r = Option.bind (j_get k r) as_u64"

definition as_bool :: "Json \<Rightarrow> bool option" where
  "as_bool v = (case v of JBool b \<Rightarrow> Some b | _ \<Rightarrow> None)"

definition is_object :: "Json \<Rightarrow> bool" where
  "is_object v \<longleftrightarrow> as_object v \<noteq> None"

definition consumed_inputs_of :: "Json \<Rightarrow> Json list" where
  "consumed_inputs_of r =
     (case Option.bind (j_get ''inputs'' r) as_array of Some xs \<Rightarrow> filter is_object xs | None \<Rightarrow> [])"

definition worker_of :: "Json \<Rightarrow> string" where
  "worker_of r =
     (case string_field r ''worker'' of
        Some w \<Rightarrow> w
      | None \<Rightarrow>
          (let pool = string_field r ''pool'';
               thread = Option.bind (j_get ''thread'' r) (\<lambda>v.
                 case as_u64 v of Some n \<Rightarrow> Some (show_nat (unat n)) | None \<Rightarrow> as_str v)
           in case (pool, thread) of
                (Some p, Some t) \<Rightarrow> p @ ''#'' @ t
              | (Some p, None) \<Rightarrow> p
              | (None, Some t) \<Rightarrow> UNKNOWN_WORKER @ ''#'' @ t
              | (None, None) \<Rightarrow> UNKNOWN_WORKER))"

definition metrics_of :: "Json \<Rightarrow> Json" where
  "metrics_of r =
     (case j_get ''metrics'' r of Some v \<Rightarrow> (if is_object v then v else JObject []) | None \<Rightarrow> JObject [])"

section \<open>Attempts\<close>

definition zero_phases :: "(string, u64) btree" where
  "zero_phases = collect_map
     [(PHASE_BACKOFF, 0), (PHASE_READY_WAIT, 0), (PHASE_PERMIT_WAIT, 0), (PHASE_EXECUTING, 0)]"

definition sat_sub :: "u64 \<Rightarrow> u64 \<Rightarrow> u64" where
  "sat_sub a b = (if b \<le> a then a - b else 0)"

definition sat_add :: "u64 \<Rightarrow> u64 \<Rightarrow> u64" where
  "sat_add a b = (if unat a + unat b \<le> u64_max then a + b else - 1)"

text \<open>What has been seen so far: the last offset of each kind of event per node.\<close>

record FoldState =
  fd_ready_at :: "(string, u64) btree"
  fd_admitted_at :: "(string, u64) btree"
  fd_started_at :: "(string, u64) btree"
  fd_prev_terminal_at :: "(string, u64) btree"
  fd_attempts :: "AttemptRecord list"
  fd_node_has_attempt :: "(string, bool) btree"
  fd_terminal :: "(string, Json) btree"

definition in_window :: "u64 option \<Rightarrow> u64 \<Rightarrow> u64 \<Rightarrow> u64" where
  "in_window at start outcome_off =
     (case at of Some a \<Rightarrow> (if a > start \<and> a \<le> outcome_off then a - start else 0) | None \<Rightarrow> 0)"

definition phases_of ::
  "u32 \<Rightarrow> string \<Rightarrow> u64 \<Rightarrow> (string, u64) btree \<Rightarrow> (string, u64) btree \<Rightarrow> (string, u64) btree
     \<Rightarrow> (string, u64) btree \<Rightarrow> (string, u64) btree" where
  "phases_of attempt node outcome_off ready_at admitted_at started_at prev_terminal_at =
     (let start = min (case bt_get started_at node of Some s \<Rightarrow> s | None \<Rightarrow> outcome_off) outcome_off;
          total = sat_sub outcome_off start;
          admitted_in = in_window (bt_get admitted_at node) start outcome_off;
          ready_in = in_window (bt_get ready_at node) start outcome_off;
          backoff = (case bt_get prev_terminal_at node of
              Some prev \<Rightarrow> (if attempt > 1 \<and> prev > start \<and> prev \<le> outcome_off then prev - start else 0)
            | None \<Rightarrow> 0);
          ready_wait = min ready_in total;
          permit_wait = min admitted_in (sat_sub total ready_wait);
          backoff = min backoff (sat_sub total (ready_wait + permit_wait));
          executing = total - ready_wait - permit_wait - backoff
      in collect_map
        [(PHASE_BACKOFF, backoff), (PHASE_READY_WAIT, ready_wait), (PHASE_PERMIT_WAIT, permit_wait),
         (PHASE_EXECUTING, executing)])"

definition build_attempt_record :: "Json \<Rightarrow> string \<Rightarrow> u64 \<Rightarrow> FoldState \<Rightarrow> AttemptRecord" where
  "build_attempt_record r node outcome_off s =
     (let attempt = or_one (record_attempt r) in
      \<lparr>at_node = node, at_attempt = attempt,
       at_status = (case string_field r ''status'' of Some st \<Rightarrow> st | None \<Rightarrow> ''failed''),
       at_phase_durations_ns = phases_of attempt node outcome_off (fd_ready_at s) (fd_admitted_at s)
         (fd_started_at s) (fd_prev_terminal_at s),
       at_worker = worker_of r, at_message = string_field r ''message'',
       at_error = non_null (j_get ''error'' r), at_metrics = metrics_of r,
       at_cost_declared = non_null (j_get ''cost_declared'' r),
       at_cost_measured = non_null (j_get ''cost_measured'' r),
       at_durable_reference = non_null (j_get ''durable_reference'' r),
       at_durable_reference_meta = non_null (j_get ''durable_reference_meta'' r),
       at_satisfied_from_run = string_field r ''satisfied_from_run'',
       at_originating_node = string_field r ''originating_node'',
       at_inputs = consumed_inputs_of r\<rparr>)"

definition synthesize_never_ran :: "string \<Rightarrow> Json \<Rightarrow> AttemptRecord" where
  "synthesize_never_ran node terminal =
     \<lparr>at_node = node, at_attempt = 1,
      at_status = (case string_field terminal ''state'' of Some st \<Rightarrow> st | None \<Rightarrow> ''upstream-failed''),
      at_phase_durations_ns = zero_phases, at_worker = UNKNOWN_WORKER,
      at_message = string_field terminal ''message'', at_error = non_null (j_get ''error'' terminal),
      at_metrics = JObject [], at_cost_declared = None, at_cost_measured = None,
      at_durable_reference = non_null (j_get ''durable_reference'' terminal),
      at_durable_reference_meta = non_null (j_get ''durable_reference_meta'' terminal),
      at_satisfied_from_run = string_field terminal ''satisfied_from_run'',
      at_originating_node = string_field terminal ''originating_node'', at_inputs = []\<rparr>"

definition never_reached :: "string \<Rightarrow> AttemptRecord" where
  "never_reached node =
     \<lparr>at_node = node, at_attempt = 1, at_status = ''upstream-failed'',
      at_phase_durations_ns = zero_phases, at_worker = UNKNOWN_WORKER, at_message = None, at_error = None,
      at_metrics = JObject [], at_cost_declared = None, at_cost_measured = None,
      at_durable_reference = None, at_durable_reference_meta = None, at_satisfied_from_run = None,
      at_originating_node = None, at_inputs = []\<rparr>"

definition attempts_step :: "Json \<Rightarrow> FoldState \<Rightarrow> FoldState" where
  "attempts_step r s =
     (case kind_of r of
        None \<Rightarrow> s
      | Some kind \<Rightarrow>
          (case record_node r of
             None \<Rightarrow> s
           | Some n \<Rightarrow>
               (let off = offset_of r in
                if kind = ''node-ready'' then s\<lparr>fd_ready_at := bt_insert n off (fd_ready_at s)\<rparr>
                else if kind = ''node-admitted'' then s\<lparr>fd_admitted_at := bt_insert n off (fd_admitted_at s)\<rparr>
                else if kind = ''attempt-started'' then s\<lparr>fd_started_at := bt_insert n off (fd_started_at s)\<rparr>
                else if kind = ''attempt-outcome'' then
                  s\<lparr>fd_prev_terminal_at := bt_insert n off (fd_prev_terminal_at s),
                    fd_node_has_attempt := bt_insert n True (fd_node_has_attempt s),
                    fd_attempts := fd_attempts s @ [build_attempt_record r n off s]\<rparr>
                else if kind = ''node-terminal'' then s\<lparr>fd_terminal := bt_insert n r (fd_terminal s)\<rparr>
                else s)))"

definition fold_state_new :: FoldState where
  "fold_state_new = \<lparr>fd_ready_at = [], fd_admitted_at = [], fd_started_at = [], fd_prev_terminal_at = [],
     fd_attempts = [], fd_node_has_attempt = [], fd_terminal = []\<rparr>"

definition cover_terminal :: "FoldState \<Rightarrow> AttemptRecord list" where
  "cover_terminal s = map (\<lambda>(n, r). synthesize_never_ran n r)
     (filter (\<lambda>(n, r). bt_get (fd_node_has_attempt s) n \<noteq> Some True) (fd_terminal s))"

definition cover_node :: "string \<Rightarrow> AttemptRecord list \<Rightarrow> AttemptRecord list" where
  "cover_node n attempts =
     (if \<exists>a \<in> set attempts. at_node a = n then attempts else attempts @ [never_reached n])"

definition assemble_attempts :: "Json list \<Rightarrow> string list \<Rightarrow> AttemptRecord list" where
  "assemble_attempts records graph_nodes =
     (let s = fold attempts_step records fold_state_new
      in fold cover_node graph_nodes (fd_attempts s @ cover_terminal s))"

section \<open>Outputs and submissions\<close>

definition output_of_record :: "Json \<Rightarrow> ProducedOutput" where
  "output_of_record r =
     \<lparr>po_node = string_or_empty (record_node r), po_attempt = or_one (record_attempt r),
      po_uri = string_or_empty (string_field r ''uri''), po_content_hash = string_field r ''content_hash'',
      po_size_bytes = u64_field ''size_bytes'' r, po_kind = string_field r ''output_kind'',
      po_produced_at_offset_ns =
        (case u64_field ''produced_at_offset_ns'' r of Some n \<Rightarrow> n | None \<Rightarrow> offset_of r),
      po_originating_run = string_or_empty (string_field r ''originating_run'')\<rparr>"

definition assemble_outputs :: "Json list \<Rightarrow> ProducedOutput list" where
  "assemble_outputs records =
     map output_of_record (filter (\<lambda>r. kind_of r = Some ''output-produced'') records)"

definition submission_inputs :: "Json \<Rightarrow> Json list option" where
  "submission_inputs r = Option.bind (j_get ''inputs'' r) as_array"

text \<open>A later record fills or replaces a field; an absence never erases one.\<close>

definition newer :: "'a option \<Rightarrow> 'a option \<Rightarrow> 'a option" where
  "newer old new' = (case new' of Some v \<Rightarrow> Some v | None \<Rightarrow> old)"

definition merge_submission :: "Json \<Rightarrow> SubmittedAttempt \<Rightarrow> SubmittedAttempt" where
  "merge_submission r s = s
     \<lparr>sa_inputs := newer (sa_inputs s) (submission_inputs r),
      sa_executor := newer (sa_executor s) (string_field r ''executor''),
      sa_target_name := newer (sa_target_name s) (string_field r ''target_name''),
      sa_observed_name := newer (sa_observed_name s) (string_field r ''observed_name''),
      sa_observed_uid := newer (sa_observed_uid s) (string_field r ''observed_uid''),
      sa_observed_host := newer (sa_observed_host s) (string_field r ''observed_host''),
      sa_structural_fingerprint := newer (sa_structural_fingerprint s) (string_field r ''structural_fingerprint''),
      sa_policy_hash := newer (sa_policy_hash s) (string_field r ''policy_hash''),
      sa_tool_version := newer (sa_tool_version s) (string_field r ''tool_version''),
      sa_image_digest := newer (sa_image_digest s) (string_field r ''image_digest'')\<rparr>"

definition submission_of_record ::
  "((string \<times> u32), string) btree \<Rightarrow> Json \<Rightarrow> string \<Rightarrow> u32 \<Rightarrow> SubmittedAttempt" where
  "submission_of_record outcomes r node attempt =
     \<lparr>sa_node = node, sa_attempt = attempt, sa_inputs = submission_inputs r,
      sa_executor = string_field r ''executor'', sa_target_name = string_field r ''target_name'',
      sa_observed_name = string_field r ''observed_name'', sa_observed_uid = string_field r ''observed_uid'',
      sa_observed_host = string_field r ''observed_host'',
      sa_structural_fingerprint = string_field r ''structural_fingerprint'',
      sa_policy_hash = string_field r ''policy_hash'', sa_tool_version = string_field r ''tool_version'',
      sa_image_digest = string_field r ''image_digest'', sa_submitted_at_offset_ns = offset_of r,
      sa_outcome_state = bt_get outcomes (node, attempt)\<rparr>"

definition record_key :: "string \<Rightarrow> Json \<Rightarrow> (string \<times> u32) option" where
  "record_key kind r =
     (if kind_of r \<noteq> Some kind then None
      else case (record_node r, record_attempt r) of
             (Some n, Some a) \<Rightarrow> Some (n, a)
           | _ \<Rightarrow> None)"

definition outcome_statuses :: "Json list \<Rightarrow> ((string \<times> u32), string) btree" where
  "outcome_statuses records = fold (\<lambda>r m.
     (case record_key ''attempt-outcome'' r of
        None \<Rightarrow> m
      | Some key \<Rightarrow> (case string_field r ''status'' of Some st \<Rightarrow> bt_insert key st m | None \<Rightarrow> m))) records []"

definition submission_step ::
  "((string \<times> u32), string) btree \<Rightarrow> Json \<Rightarrow> (string \<times> u32) list \<times> ((string \<times> u32), SubmittedAttempt) btree
     \<Rightarrow> (string \<times> u32) list \<times> ((string \<times> u32), SubmittedAttempt) btree" where
  "submission_step outcomes r = (\<lambda>(order, merged).
     (case record_key ''attempt-submitted'' r of
        None \<Rightarrow> (order, merged)
      | Some key \<Rightarrow>
          (case bt_get merged key of
             Some existing \<Rightarrow> (order, bt_modify key (merge_submission r) merged)
           | None \<Rightarrow> (order @ [key], bt_insert key (submission_of_record outcomes r (fst key) (snd key)) merged))))"

fun take_in_order :: "'k list \<Rightarrow> ('k, 'v) btree \<Rightarrow> 'v list" where
  "take_in_order [] m = []"
| "take_in_order (k # ks) m =
     (case bt_get m k of
        Some v \<Rightarrow> v # take_in_order ks (bt_remove k m)
      | None \<Rightarrow> take_in_order ks m)"

definition assemble_submissions :: "Json list \<Rightarrow> SubmittedAttempt list" where
  "assemble_submissions records =
     (let (order, merged) = fold (submission_step (outcome_statuses records)) records ([], [])
      in take_in_order order merged)"

section \<open>Summary\<close>

definition max_or_zero :: "u64 list \<Rightarrow> u64" where
  "max_or_zero xs = fold max xs 0"

definition entry_or :: "'k::linorder \<Rightarrow> 'v \<Rightarrow> ('v \<Rightarrow> 'v) \<Rightarrow> ('k, 'v) btree \<Rightarrow> ('k, 'v) btree" where
  "entry_or k d f m = bt_insert k (case bt_get m k of Some v \<Rightarrow> f v | None \<Rightarrow> d) m"

definition contributions :: "AttemptRecord list \<Rightarrow> (string, u64) btree" where
  "contributions attempts = fold (\<lambda>a m.
     (let exec' = (case bt_get (at_phase_durations_ns a) PHASE_EXECUTING of Some e \<Rightarrow> e | None \<Rightarrow> 0)
      in bt_insert (at_node a)
           ((case bt_get m (at_node a) of Some c \<Rightarrow> c | None \<Rightarrow> 0) + exec') m)) attempts []"

definition timing_step :: "Json \<Rightarrow> (string, u64) btree \<times> (string, u64) btree \<Rightarrow> (string, u64) btree \<times> (string, u64) btree"
where
  "timing_step r = (\<lambda>(ready_at, terminal_at).
     (case kind_of r of
        None \<Rightarrow> (ready_at, terminal_at)
      | Some kind \<Rightarrow>
          (case record_node r of
             None \<Rightarrow> (ready_at, terminal_at)
           | Some node \<Rightarrow>
               (let off = offset_of r in
                if kind = ''node-ready'' then (entry_or node off (\<lambda>x. min x off) ready_at, terminal_at)
                else if kind = ''node-terminal'' then (ready_at, bt_insert node off terminal_at)
                else if kind = ''attempt-outcome'' then (ready_at, entry_or node off (\<lambda>x. max x off) terminal_at)
                else (ready_at, terminal_at)))))"

definition ready_of :: "(string, u64) btree \<Rightarrow> (string, u64) btree \<Rightarrow> string \<Rightarrow> u64" where
  "ready_of ready_at terminal_at n =
     (case bt_get ready_at n of
        Some x \<Rightarrow> x
      | None \<Rightarrow> (case bt_get terminal_at n of Some x \<Rightarrow> x | None \<Rightarrow> 0))"

definition path_base :: "(string, u64) btree \<Rightarrow> u64 \<Rightarrow> string \<Rightarrow> (string, u64) btree \<Rightarrow> u64" where
  "path_base terminal_at ready_v v cp = fold (\<lambda>(u, cp_u) base.
     (if u = v then base
      else case bt_get terminal_at u of
             Some term_u \<Rightarrow> (if term_u \<le> ready_v then max base cp_u else base)
           | None \<Rightarrow> base)) cp 0"

definition path_step ::
  "(string, u64) btree \<Rightarrow> (string, u64) btree \<Rightarrow> (string, u64) btree \<Rightarrow> string
     \<Rightarrow> (string, u64) btree \<times> u64 \<Rightarrow> (string, u64) btree \<times> u64" where
  "path_step contribution ready_at terminal_at v = (\<lambda>(cp, best).
     (let base = path_base terminal_at (ready_of ready_at terminal_at v) v cp;
          contrib_v = (case bt_get contribution v of Some c \<Rightarrow> c | None \<Rightarrow> 0);
          cp_v = base + contrib_v
      in (bt_insert v cp_v cp, max best cp_v)))"

definition path_order :: "(string, u64) btree \<Rightarrow> (string, u64) btree \<Rightarrow> (string, u64) btree \<Rightarrow> string list" where
  "path_order contribution ready_at terminal_at =
     (let nodes = fold bs_insert (bt_keys contribution @ bt_keys ready_at @ bt_keys terminal_at) []
      in sort_key (\<lambda>n. (ready_of ready_at terminal_at n, n)) nodes)"

definition critical_path_ns :: "Json list \<Rightarrow> AttemptRecord list \<Rightarrow> u64" where
  "critical_path_ns records attempts =
     (let contribution = contributions attempts;
          (ready_at, terminal_at) = fold timing_step records ([], []);
          order = path_order contribution ready_at terminal_at
      in snd (fold (path_step contribution ready_at terminal_at) order ([], 0)))"

definition is_outcome :: "Json \<Rightarrow> bool" where
  "is_outcome r \<longleftrightarrow> kind_of r = Some ''attempt-outcome''"

definition retained_flags :: "Json list \<Rightarrow> (string, bool) btree" where
  "retained_flags records = fold (\<lambda>r m.
     (case (record_node r, Option.bind (j_get ''retained'' r) as_bool) of
        (Some node, Some flag) \<Rightarrow> bt_insert node flag m
      | _ \<Rightarrow> m)) (filter is_outcome records) []"

definition terminal_offsets :: "Json list \<Rightarrow> ((string \<times> u64), u64) btree" where
  "terminal_offsets records = fold (\<lambda>r m.
     (case (record_node r, u64_field ''attempt'' r) of
        (Some node, Some attempt) \<Rightarrow> bt_insert (node, attempt) (offset_of r) m
      | _ \<Rightarrow> m)) (filter is_outcome records) []"

definition zombie_step ::
  "((string \<times> u64), u64) btree \<Rightarrow> Json \<Rightarrow> u64 \<times> u64 \<Rightarrow> u64 \<times> u64" where
  "zombie_step terminal_off z = (\<lambda>(capacity, time).
     (let capacity = sat_add capacity (case u64_field ''pinned_capacity'' z of Some c \<Rightarrow> c | None \<Rightarrow> 0);
          time = (case (record_node z, u64_field ''attempt'' z) of
              (Some node, Some attempt) \<Rightarrow>
                (case bt_get terminal_off (node, attempt) of
                   Some toff \<Rightarrow> sat_add time (sat_sub (offset_of z) toff)
                 | None \<Rightarrow> time)
            | _ \<Rightarrow> time)
      in (capacity, time)))"

definition assemble_summary :: "Json list \<Rightarrow> AttemptRecord list \<Rightarrow> RunSummary" where
  "assemble_summary records attempts =
     (let (capacity, time) = fold (zombie_step (terminal_offsets records))
            (filter (\<lambda>r. kind_of r = Some ''zombie-at-exit'') records) (0, 0)
      in \<lparr>su_total_elapsed_ns = max_or_zero (map offset_of records),
          su_critical_path_ns = critical_path_ns records attempts,
          su_peak_slot_residency =
            max_or_zero (List.map_filter (u64_field ''slot_residency'') (filter is_outcome records)),
          su_retained_values = map fst (filter snd (retained_flags records)),
          su_abandoned_pinned_time_ns = time,
          su_abandoned_pinned_capacity = capacity\<rparr>)"

section \<open>The fold\<close>

definition outcome_and_errors :: "Json option \<Rightarrow> string \<times> string list" where
  "outcome_and_errors run_finished =
     (case run_finished of
        Some r \<Rightarrow>
          (case string_field r ''outcome'' of Some o' \<Rightarrow> o' | None \<Rightarrow> ''succeeded'',
           case Option.bind (j_get ''errors'' r) as_array of Some xs \<Rightarrow> List.map_filter as_str xs | None \<Rightarrow> [])
      | None \<Rightarrow> (''cancelled'', []))"

definition fold_records :: "Json list \<Rightarrow> bool \<Rightarrow> string list \<Rightarrow> FoldError + RunArtifact" where
  "fold_records records partial graph_nodes =
     (case find (\<lambda>r. kind_of r = Some ''run-started'') records of
        None \<Rightarrow> Inl MissingRunStarted
      | Some run_started \<Rightarrow>
          (let header = (case j_get ''header'' run_started of Some h \<Rightarrow> h | None \<Rightarrow> JObject []);
               run_finished = find (\<lambda>r. kind_of r = Some ''run-finished'') records;
               (overall_outcome, errors) = outcome_and_errors run_finished;
               pre_execution = (overall_outcome \<in> {''assembly-failed'', ''bootstrap-failed''});
               attempts = assemble_attempts records graph_nodes
           in Inr \<lparr>ra_header = header, ra_overall_outcome = overall_outcome,
                ra_interrupted = (run_finished = None), ra_trailing_partial_discarded = partial,
                ra_errors = errors,
                ra_attempts = (if pre_execution then [] else attempts),
                ra_summary = (if pre_execution then None else Some (assemble_summary records attempts)),
                ra_outputs = (if pre_execution then [] else assemble_outputs records),
                ra_submissions = (if pre_execution then [] else assemble_submissions records)\<rparr>))"

definition fold_stream :: "(string \<Rightarrow> 'p + Json) \<Rightarrow> string \<Rightarrow> string list \<Rightarrow> FoldError + RunArtifact" where
  "fold_stream parse stream_bytes graph_nodes =
     (case read_records parse stream_bytes of
        Inl e \<Rightarrow> Inl (CorruptRecord (re_line e))
      | Inr read \<Rightarrow> fold_records (rs_records read) (rs_trailing_partial_discarded read) graph_nodes)"

text \<open>What the artifact tells of its summary.\<close>

definition summary_retained_values :: "RunArtifact \<Rightarrow> string list" where
  "summary_retained_values a = (case ra_summary a of Some s \<Rightarrow> su_retained_values s | None \<Rightarrow> [])"

definition summary_peak_slot_residency :: "RunArtifact \<Rightarrow> u64" where
  "summary_peak_slot_residency a = (case ra_summary a of Some s \<Rightarrow> su_peak_slot_residency s | None \<Rightarrow> 0)"

definition summary_total_elapsed_ns :: "RunArtifact \<Rightarrow> u64" where
  "summary_total_elapsed_ns a = (case ra_summary a of Some s \<Rightarrow> su_total_elapsed_ns s | None \<Rightarrow> 0)"

definition summary_critical_path_ns :: "RunArtifact \<Rightarrow> u64" where
  "summary_critical_path_ns a = (case ra_summary a of Some s \<Rightarrow> su_critical_path_ns s | None \<Rightarrow> 0)"

definition summary_abandoned_pinned_time_ns :: "RunArtifact \<Rightarrow> u64" where
  "summary_abandoned_pinned_time_ns a =
     (case ra_summary a of Some s \<Rightarrow> su_abandoned_pinned_time_ns s | None \<Rightarrow> 0)"

definition summary_abandoned_pinned_capacity :: "RunArtifact \<Rightarrow> u64" where
  "summary_abandoned_pinned_capacity a =
     (case ra_summary a of Some s \<Rightarrow> su_abandoned_pinned_capacity s | None \<Rightarrow> 0)"

section \<open>The rows of a node\<close>

definition outcomes_of :: "string \<Rightarrow> Json list \<Rightarrow> Json list" where
  "outcomes_of n records = filter (\<lambda>r. kind_of r = Some ''attempt-outcome'' \<and> record_node r = Some n) records"

definition terminals_of :: "string \<Rightarrow> Json list \<Rightarrow> Json list" where
  "terminals_of n records = filter (\<lambda>r. kind_of r = Some ''node-terminal'' \<and> record_node r = Some n) records"

definition status_of :: "Json \<Rightarrow> string" where
  "status_of r = (case string_field r ''status'' of Some st \<Rightarrow> st | None \<Rightarrow> ''failed'')"

definition state_of :: "Json \<Rightarrow> string" where
  "state_of r = (case string_field r ''state'' of Some st \<Rightarrow> st | None \<Rightarrow> ''upstream-failed'')"

abbreviation rows_of :: "string \<Rightarrow> AttemptRecord list \<Rightarrow> AttemptRecord list" where
  "rows_of n \<equiv> filter (\<lambda>a. at_node a = n)"

abbreviation fold_state :: "Json list \<Rightarrow> FoldState" where
  "fold_state records \<equiv> fold attempts_step records fold_state_new"

lemma attempts_step_cases:
  obtains "attempts_step r s = s" "kind_of r \<noteq> Some ''attempt-outcome'' \<or> record_node r = None"
      "kind_of r \<noteq> Some ''node-terminal'' \<or> record_node r = None"
  | n where "kind_of r = Some ''node-ready''" "record_node r = Some n"
      "attempts_step r s = s\<lparr>fd_ready_at := bt_insert n (offset_of r) (fd_ready_at s)\<rparr>"
  | n where "kind_of r = Some ''node-admitted''" "record_node r = Some n"
      "attempts_step r s = s\<lparr>fd_admitted_at := bt_insert n (offset_of r) (fd_admitted_at s)\<rparr>"
  | n where "kind_of r = Some ''attempt-started''" "record_node r = Some n"
      "attempts_step r s = s\<lparr>fd_started_at := bt_insert n (offset_of r) (fd_started_at s)\<rparr>"
  | n where "kind_of r = Some ''attempt-outcome''" "record_node r = Some n"
      "attempts_step r s = s\<lparr>fd_prev_terminal_at := bt_insert n (offset_of r) (fd_prev_terminal_at s),
         fd_node_has_attempt := bt_insert n True (fd_node_has_attempt s),
         fd_attempts := fd_attempts s @ [build_attempt_record r n (offset_of r) s]\<rparr>"
  | n where "kind_of r = Some ''node-terminal''" "record_node r = Some n"
      "attempts_step r s = s\<lparr>fd_terminal := bt_insert n r (fd_terminal s)\<rparr>"
proof (cases "kind_of r = None \<or> record_node r = None")
  case True
  then show ?thesis by (intro that(1)) (auto simp: attempts_step_def split: option.split)
next
  case False
  then obtain k n where k: "kind_of r = Some k" "record_node r = Some n" by auto
  consider "k = ''node-ready''" | "k = ''node-admitted''" | "k = ''attempt-started''" | "k = ''attempt-outcome''"
    | "k = ''node-terminal''"
    | "k \<noteq> ''node-ready''" "k \<noteq> ''node-admitted''" "k \<noteq> ''attempt-started''" "k \<noteq> ''attempt-outcome''"
      "k \<noteq> ''node-terminal''"
    by blast
  then show ?thesis
  proof cases
    case 1
    with k show ?thesis by (intro that(2)) (simp_all add: attempts_step_def)
  next
    case 2
    with k show ?thesis by (intro that(3)) (simp_all add: attempts_step_def)
  next
    case 3
    with k show ?thesis by (intro that(4)) (simp_all add: attempts_step_def)
  next
    case 4
    with k show ?thesis by (intro that(5)) (simp_all add: attempts_step_def Let_def)
  next
    case 5
    with k show ?thesis by (intro that(6)) (simp_all add: attempts_step_def)
  next
    case 6
    with k show ?thesis by (intro that(1)) (simp_all add: attempts_step_def)
  qed
qed

lemma build_fields [simp]:
  "at_node (build_attempt_record r n off s) = n" "at_status (build_attempt_record r n off s) = status_of r"
  by (simp_all add: build_attempt_record_def status_of_def Let_def)

definition rows_inv :: "Json list \<Rightarrow> FoldState \<Rightarrow> bool" where
  "rows_inv records s \<longleftrightarrow> bt_ok (fd_node_has_attempt s) \<and> bt_ok (fd_terminal s) \<and>
     (\<forall>n. map at_status (rows_of n (fd_attempts s)) = map status_of (outcomes_of n records)
       \<and> (bt_get (fd_node_has_attempt s) n = Some True \<longleftrightarrow> outcomes_of n records \<noteq> [])
       \<and> bt_get (fd_terminal s) n =
           (if terminals_of n records = [] then None else Some (last (terminals_of n records))))"

lemma rows_inv_fold: "rows_inv records (fold_state records)"
proof (induction records rule: rev_induct)
  case Nil
  show ?case by (simp add: rows_inv_def fold_state_new_def outcomes_of_def terminals_of_def bt_simps)
next
  case (snoc r records)
  then show ?case
    by (cases rule: attempts_step_cases [of r "fold_state records"])
      (auto simp: rows_inv_def outcomes_of_def terminals_of_def bt_simps)
qed

lemma map_filter_assoc:
  assumes "distinct (map fst m)"
  shows "rows_of n (map (\<lambda>(k, r). synthesize_never_ran k r) (filter (\<lambda>(k, r). P k) m)) =
    (case map_of m n of Some r \<Rightarrow> if P n then [synthesize_never_ran n r] else [] | None \<Rightarrow> [])"
  using assms
proof (induction m)
  case (Cons kv m)
  obtain k v where kv: "kv = (k, v)" by (cases kv)
  have node: "at_node (synthesize_never_ran k v) = k" for k v by (simp add: synthesize_never_ran_def)
  show ?case
  proof (cases "k = n")
    case True
    then have "map_of m n = None" using Cons.prems by (simp add: kv map_of_eq_None_iff)
    with Cons True show ?thesis by (simp add: kv node)
  next
    case False
    with Cons show ?thesis by (simp add: kv node)
  qed
qed simp

lemma rows_cover_terminal:
  assumes "bt_ok (fd_terminal s)"
  shows "rows_of n (cover_terminal s) =
    (case bt_get (fd_terminal s) n of
       Some r \<Rightarrow> if bt_get (fd_node_has_attempt s) n \<noteq> Some True then [synthesize_never_ran n r] else []
     | None \<Rightarrow> [])"
proof -
  have "distinct (map fst (fd_terminal s))"
    using assms by (auto simp: bt_ok_def strict_sorted_iff)
  from map_filter_assoc [OF this] show ?thesis unfolding cover_terminal_def bt_get_def by simp
qed

lemma rows_cover_nodes:
  "rows_of n (fold cover_node ns as) =
     (if n \<in> set ns \<and> rows_of n as = [] then [never_reached n] else rows_of n as)"
proof (induction ns arbitrary: as)
  case (Cons m ns)
  have "rows_of n (cover_node m as) = (if n = m \<and> rows_of n as = [] then [never_reached n] else rows_of n as)"
    by (auto simp: cover_node_def never_reached_def filter_empty_conv)
  with Cons show ?case by auto
qed simp

lemma assemble_rows:
  "map at_status (rows_of n (assemble_attempts records graph_nodes)) =
    (if outcomes_of n records \<noteq> [] then map status_of (outcomes_of n records)
     else if terminals_of n records \<noteq> [] then [state_of (last (terminals_of n records))]
     else if n \<in> set graph_nodes then [''upstream-failed''] else [])"
proof -
  have inv: "rows_inv records (fold_state records)" by (rule rows_inv_fold)
  then have status: "map at_status (rows_of n (fd_attempts (fold_state records))) = map status_of (outcomes_of n records)"
    unfolding rows_inv_def by blast
  then have empty: "rows_of n (fd_attempts (fold_state records)) = [] \<longleftrightarrow> outcomes_of n records = []"
    by (auto dest: arg_cong [of _ _ length] simp del: length_map)
  have seen: "bt_ok (fd_terminal (fold_state records))"
    "bt_get (fd_terminal (fold_state records)) n =
       (if terminals_of n records = [] then None else Some (last (terminals_of n records)))"
    "bt_get (fd_node_has_attempt (fold_state records)) n = Some True \<longleftrightarrow> outcomes_of n records \<noteq> []"
    using inv unfolding rows_inv_def by blast+
  have rows: "rows_of n (fd_attempts (fold_state records) @ cover_terminal (fold_state records)) =
      rows_of n (fd_attempts (fold_state records)) @
      (if outcomes_of n records = [] \<and> terminals_of n records \<noteq> []
       then [synthesize_never_ran n (last (terminals_of n records))] else [])"
    using seen by (simp add: rows_cover_terminal)
  have all: "rows_of n (assemble_attempts records graph_nodes) =
      (if n \<in> set graph_nodes \<and> outcomes_of n records = [] \<and> terminals_of n records = [] then [never_reached n]
       else rows_of n (fd_attempts (fold_state records)) @
         (if outcomes_of n records = [] \<and> terminals_of n records \<noteq> []
          then [synthesize_never_ran n (last (terminals_of n records))] else []))"
    unfolding assemble_attempts_def Let_def rows_cover_nodes rows using empty by simp
  show ?thesis
  proof (cases "outcomes_of n records = []")
    case True
    with empty show ?thesis unfolding all by (simp add: synthesize_never_ran_def never_reached_def state_of_def)
  next
    case False
    with status show ?thesis unfolding all by simp
  qed
qed


text \<open>
  C30. The rows of every node, in an artifact of a run that executed: one per outcome record, in
  order and with its status; for a node without an outcome one row with its last terminal state; for
  a node of the graph with neither, and only then, one row that says upstream-failed, also when the
  node had started and the run was cut short.
\<close>

theorem fold_rows_exact:
  assumes "read_records parse bytes = Inr read" "fold_stream parse bytes graph_nodes = Inr a" "ra_summary a \<noteq> None"
  shows "map at_status (filter (\<lambda>t. at_node t = n) (ra_attempts a)) =
    (if outcomes_of n (rs_records read) \<noteq> [] then map status_of (outcomes_of n (rs_records read))
     else if terminals_of n (rs_records read) \<noteq> [] then [state_of (last (terminals_of n (rs_records read)))]
     else if n \<in> set graph_nodes then [''upstream-failed''] else [])"
proof -
  have "ra_attempts a = assemble_attempts (rs_records read) graph_nodes"
    using assms by (auto simp: fold_stream_def fold_records_def Let_def split: option.splits prod.splits if_splits)
  then show ?thesis by (simp only: assemble_rows)
qed

lemmas json_eval = kind_of_def record_node_def string_field_def as_str_def json_obj_def j_get_def collect_map_def
  bt_simps less_char_def

text \<open>A stream of one-byte records: the run starts, \<open>a\<close> fails and succeeds, \<open>b\<close> ends without an attempt.\<close>

definition sample_fold_parser :: "string \<Rightarrow> unit + Json" where
  "sample_fold_parser t =
     (let rec = (\<lambda>kind more. Inr (json_obj ([(''kind'', JString kind)] @ more))); name = (\<lambda>n. (''node'', JString n))
      in if t = ''s'' then rec ''run-started'' [(''header'', JObject [])]
         else if t = ''f'' then rec ''attempt-outcome'' [name ''a'', (''status'', JString ''failed'')]
         else if t = ''o'' then rec ''attempt-outcome'' [name ''a'', (''status'', JString ''succeeded'')]
         else if t = ''t'' then rec ''node-terminal'' [name ''b'', (''state'', JString ''skipped'')]
         else Inl ())"

definition sample_fold_stream :: string where
  "sample_fold_stream = ''s'' @ [CHR 0x0A] @ ''f'' @ [CHR 0x0A] @ ''o'' @ [CHR 0x0A] @ ''t'' @ [CHR 0x0A] @ ''torn''"

theorem fold_rows_exact_witness:
  "\<exists>a. fold_stream sample_fold_parser sample_fold_stream [''a'', ''b'', ''c''] = Inr a
     \<and> map at_status (rows_of ''a'' (ra_attempts a)) = [''failed'', ''succeeded'']
     \<and> map at_status (rows_of ''b'' (ra_attempts a)) = [''skipped'']
     \<and> map at_status (rows_of ''c'' (ra_attempts a)) = [''upstream-failed'']"
proof -
  let ?rs = "map (\<lambda>t. projr (sample_fold_parser t)) [''s'', ''f'', ''o'', ''t'']"
  have read: "read_records sample_fold_parser sample_fold_stream
      = Inr \<lparr>rs_records = ?rs, rs_trailing_partial_discarded = True\<rparr>"
    by (simp add: read_records_def sample_fold_stream_def sample_fold_parser_def Let_def)
  have "find (\<lambda>r. kind_of r = Some ''run-started'') ?rs = Some (hd ?rs)"
    "find (\<lambda>r. kind_of r = Some ''run-finished'') ?rs = None"
    by (simp_all add: json_eval sample_fold_parser_def)
  then obtain a where a: "fold_stream sample_fold_parser sample_fold_stream [''a'', ''b'', ''c''] = Inr a"
      "ra_summary a \<noteq> None"
    by (simp add: fold_stream_def read fold_records_def outcome_and_errors_def Let_def)
  have of: "outcomes_of ''a'' ?rs = [?rs ! 1, ?rs ! 2]" "outcomes_of ''b'' ?rs = []" "outcomes_of ''c'' ?rs = []"
    "terminals_of ''b'' ?rs = [?rs ! 3]" "terminals_of ''c'' ?rs = []"
    by (simp_all add: outcomes_of_def terminals_of_def json_eval sample_fold_parser_def)
  have states: "status_of (projr (sample_fold_parser ''f'')) = ''failed''"
    "status_of (projr (sample_fold_parser ''o'')) = ''succeeded''" "state_of (projr (sample_fold_parser ''t'')) = ''skipped''"
    by (simp_all add: status_of_def state_of_def json_eval sample_fold_parser_def)
  note rows = fold_rows_exact [OF read a, unfolded ReadStream.simps]
  from rows [of "''a''"] rows [of "''b''"] rows [of "''c''"] a(1) show ?thesis
    unfolding of by (simp add: states)
qed

section \<open>Phases partition the window of an attempt\<close>

lemma sat_sub_unat: "unat (sat_sub a b) = unat a - unat b"
  by (simp add: sat_sub_def unat_sub word_le_nat_alt)

lemma unat_min_word: "unat (min a b) = min (unat a) (unat (b :: 'a::len word))"
  by (simp add: min_def word_le_nat_alt)

lemma phases_exact:
  defines "window off started \<equiv> unat off - unat (min (case started of Some s \<Rightarrow> s | None \<Rightarrow> off) off)"
  obtains b e w r where
    "phases_of attempt node off ra aa sa pa =
       [(PHASE_BACKOFF, b), (PHASE_EXECUTING, e), (PHASE_PERMIT_WAIT, w), (PHASE_READY_WAIT, r)]"
    "unat b + unat e + unat w + unat r = window off (bt_get sa node)"
proof -
  define start where "start = min (case bt_get sa node of Some s \<Rightarrow> s | None \<Rightarrow> off) off"
  define total where "total = sat_sub off start"
  define r where "r = min (in_window (bt_get ra node) start off) total"
  define w where "w = min (in_window (bt_get aa node) start off) (sat_sub total r)"
  define b where "b = min (case bt_get pa node of
              Some prev \<Rightarrow> (if attempt > 1 \<and> prev > start \<and> prev \<le> off then prev - start else 0)
            | None \<Rightarrow> 0) (sat_sub total (r + w))"
  define e where "e = total - r - w - b"
  have r: "unat r \<le> unat total" by (simp add: r_def unat_min_word)
  have w: "unat w \<le> unat total - unat r" by (simp add: w_def unat_min_word sat_sub_unat)
  then have rw: "unat (r + w) = unat r + unat w" using r unsigned_less [of total, where 'a = nat]
    by (subst unat_add_lem [THEN iffD1]) simp_all
  have b: "unat b \<le> unat total - (unat r + unat w)" by (simp add: b_def unat_min_word sat_sub_unat rw)
  have 1: "unat (total - r) = unat total - unat r" using r by (simp add: unat_sub word_le_nat_alt)
  have 2: "unat (total - r - w) = unat total - unat r - unat w" using w 1 by (simp add: unat_sub word_le_nat_alt)
  have 3: "unat e = unat total - unat r - unat w - unat b" using b 2 by (simp add: e_def unat_sub word_le_nat_alt)
  have "phases_of attempt node off ra aa sa pa = collect_map
        [(PHASE_BACKOFF, b), (PHASE_READY_WAIT, r), (PHASE_PERMIT_WAIT, w), (PHASE_EXECUTING, e)]"
    by (simp add: phases_of_def Let_def flip: start_def total_def r_def w_def b_def e_def)
  also have "\<dots> = [(PHASE_BACKOFF, b), (PHASE_EXECUTING, e), (PHASE_PERMIT_WAIT, w), (PHASE_READY_WAIT, r)]"
    by (simp add: collect_map_def PHASE_BACKOFF_def PHASE_READY_WAIT_def PHASE_PERMIT_WAIT_def
        PHASE_EXECUTING_def less_char_def)
  finally show thesis
    using that [of b e w r] 3 r w b unfolding window_def start_def [symmetric] by (simp add: total_def sat_sub_unat)
qed

section \<open>Well-timed streams\<close>

definition node_record :: "string \<Rightarrow> string \<Rightarrow> Json \<Rightarrow> bool" where
  "node_record kind n r \<longleftrightarrow> kind_of r = Some kind \<and> record_node r = Some n"

abbreviation "is_ready_of \<equiv> node_record ''node-ready''"
abbreviation "is_started_of \<equiv> node_record ''attempt-started''"
abbreviation "is_outcome_of \<equiv> node_record ''attempt-outcome''"

definition is_end_of :: "string \<Rightarrow> Json \<Rightarrow> bool" where
  "is_end_of n r \<longleftrightarrow> is_outcome_of n r \<or> node_record ''node-terminal'' n r"

text \<open>
  The order a run emits in: offsets never go back, an outcome has the start of its attempt before it
  and before that the node's readiness, and a node does not become ready after it has ended.
\<close>

definition well_timed :: "Json list \<Rightarrow> bool" where
  "well_timed rs \<longleftrightarrow> sorted (map offset_of rs)
     \<and> (\<forall>i < length rs. \<forall>n. is_outcome_of n (rs ! i) \<longrightarrow>
          (\<exists>l j. l < j \<and> j < i \<and> is_ready_of n (rs ! l) \<and> is_started_of n (rs ! j)
             \<and> (\<forall>k. j < k \<and> k < i \<longrightarrow> \<not> is_outcome_of n (rs ! k))))
     \<and> (\<forall>k < length rs. \<forall>i < k. \<forall>n. is_end_of n (rs ! i) \<longrightarrow> \<not> is_ready_of n (rs ! k))"

lemma last_filter_nth:
  assumes "filter P rs \<noteq> []"
  obtains k where "k < length rs" "P (rs ! k)" "rs ! k = last (filter P rs)"
    "\<And>k'. k < k' \<Longrightarrow> k' < length rs \<Longrightarrow> \<not> P (rs ! k')"
proof -
  have "\<exists>k < length rs. P (rs ! k) \<and> rs ! k = last (filter P rs) \<and> (\<forall>k'. k < k' \<longrightarrow> k' < length rs \<longrightarrow> \<not> P (rs ! k'))"
    using assms
  proof (induction rs rule: rev_induct)
    case (snoc r rs)
    show ?case
    proof (cases "P r")
      case True
      then show ?thesis by (intro exI [of _ "length rs"]) simp
    next
      case False
      with snoc obtain k where k: "k < length rs" "P (rs ! k)" "rs ! k = last (filter P rs)"
        "\<forall>k'. k < k' \<longrightarrow> k' < length rs \<longrightarrow> \<not> P (rs ! k')" by auto
      with False show ?thesis by (intro exI [of _ k]) (auto simp: nth_append less_Suc_eq)
    qed
  qed simp
  then show thesis using that by blast
qed

lemma hd_filter_nth:
  assumes "filter P rs \<noteq> []"
  obtains k where "k < length rs" "P (rs ! k)" "rs ! k = hd (filter P rs)" "\<And>k'. k' < k \<Longrightarrow> \<not> P (rs ! k')"
proof -
  have "\<exists>k < length rs. P (rs ! k) \<and> rs ! k = hd (filter P rs) \<and> (\<forall>k' < k. \<not> P (rs ! k'))"
    using assms
  proof (induction rs)
    case (Cons r rs)
    show ?case
    proof (cases "P r")
      case True
      then show ?thesis by (intro exI [of _ 0]) simp
    next
      case False
      with Cons obtain k where k: "k < length rs" "P (rs ! k)" "rs ! k = hd (filter P rs)" "\<forall>k' < k. \<not> P (rs ! k')"
        by auto
      then show ?thesis using False by (intro exI [of _ "Suc k"]) (auto simp: less_Suc_eq_0_disj)
    qed
  qed simp
  then show thesis using that by blast
qed

lemma sorted_offsets:
  "sorted (map offset_of rs) \<Longrightarrow> i \<le> j \<Longrightarrow> j < length rs \<Longrightarrow> offset_of (rs ! i) \<le> offset_of (rs ! j)"
  using sorted_nth_mono [of "map offset_of rs" i j] by simp

lemma well_timed_prefix: "well_timed (rs @ [r]) \<Longrightarrow> well_timed rs"
proof -
  assume wt: "well_timed (rs @ [r])"
  have nth: "i < length rs \<Longrightarrow> (rs @ [r]) ! i = rs ! i" for i by (simp add: nth_append)
  have "sorted (map offset_of rs)" using wt by (simp add: well_timed_def sorted_append)
  moreover have "\<exists>l j. l < j \<and> j < i \<and> is_ready_of n (rs ! l) \<and> is_started_of n (rs ! j)
             \<and> (\<forall>k. j < k \<and> k < i \<longrightarrow> \<not> is_outcome_of n (rs ! k))"
    if "i < length rs" "is_outcome_of n (rs ! i)" for i n
  proof -
    from wt that nth obtain l j where lj: "l < j" "j < i" "is_ready_of n ((rs @ [r]) ! l)" "is_started_of n ((rs @ [r]) ! j)"
      and k: "\<And>k. j < k \<Longrightarrow> k < i \<Longrightarrow> \<not> is_outcome_of n ((rs @ [r]) ! k)"
      unfolding well_timed_def by (metis length_append_singleton less_Suc_eq)
    then have "l < length rs" "j < length rs" using that(1) by simp_all
    with lj nth have "is_ready_of n (rs ! l)" "is_started_of n (rs ! j)" by simp_all
    moreover have "\<not> is_outcome_of n (rs ! k)" if "j < k" "k < i" for k
      using k [OF that] nth [of k] that \<open>i < length rs\<close> by simp
    ultimately show ?thesis using lj(1,2) by blast
  qed
  moreover have "\<not> is_ready_of n (rs ! k)" if "k < length rs" "i < k" "is_end_of n (rs ! i)" for k i n
  proof -
    have "k < length (rs @ [r])" "is_end_of n ((rs @ [r]) ! i)" using that nth by simp_all
    with wt that(2) have "\<not> is_ready_of n ((rs @ [r]) ! k)" unfolding well_timed_def by blast
    with nth [OF that(1)] show ?thesis by simp
  qed
  ultimately show ?thesis unfolding well_timed_def by blast
qed

lemma kinds_distinct:
  "is_outcome_of n r \<Longrightarrow> \<not> is_started_of m r" "is_outcome_of n r \<Longrightarrow> \<not> is_ready_of m r"
  "is_started_of n r \<Longrightarrow> \<not> is_ready_of m r"
  by (simp_all add: node_record_def)

text \<open>The maps of the attempt pass hold the offset of the last record of their kind.\<close>

definition last_offset :: "(Json \<Rightarrow> bool) \<Rightarrow> Json list \<Rightarrow> u64 option" where
  "last_offset P rs = (if filter P rs = [] then None else Some (offset_of (last (filter P rs))))"

definition offsets_inv :: "Json list \<Rightarrow> FoldState \<Rightarrow> bool" where
  "offsets_inv rs s \<longleftrightarrow> bt_ok (fd_started_at s) \<and> (\<forall>n. bt_get (fd_started_at s) n = last_offset (is_started_of n) rs)"

lemma offsets_inv_fold: "offsets_inv rs (fold_state rs)"
proof (induction rs rule: rev_induct)
  case Nil
  show ?case by (simp add: offsets_inv_def fold_state_new_def last_offset_def bt_simps)
next
  case (snoc r rs)
  show ?case
  proof (cases "\<exists>n. is_started_of n r")
    case True
    then obtain n where n: "is_started_of n r" by blast
    then have "attempts_step r (fold_state rs) =
        (fold_state rs)\<lparr>fd_started_at := bt_insert n (offset_of r) (fd_started_at (fold_state rs))\<rparr>"
      by (simp add: attempts_step_def node_record_def)
    moreover have "is_started_of m r \<longleftrightarrow> m = n" for m using n by (auto simp: node_record_def)
    ultimately show ?thesis
      using snoc by (auto simp: offsets_inv_def last_offset_def bt_simps)
  next
    case False
    then have "fd_started_at (attempts_step r s) = fd_started_at s" for s
      by (cases rule: attempts_step_cases [of r s]) (auto simp: node_record_def)
    with snoc False show ?thesis by (auto simp: offsets_inv_def last_offset_def)
  qed
qed

definition exec_of :: "AttemptRecord \<Rightarrow> u64" where
  "exec_of a = (case bt_get (at_phase_durations_ns a) PHASE_EXECUTING of Some e \<Rightarrow> e | None \<Rightarrow> 0)"

definition exec_sum :: "string \<Rightarrow> AttemptRecord list \<Rightarrow> nat" where
  "exec_sum n attempts = sum_list (map (\<lambda>a. unat (exec_of a)) (rows_of n attempts))"

lemma exec_of_build:
  "unat (exec_of (build_attempt_record r n off s)) \<le>
     unat off - unat (min (case bt_get (fd_started_at s) n of Some x \<Rightarrow> x | None \<Rightarrow> off) off)"
proof -
  obtain b e w q where p: "phases_of (or_one (record_attempt r)) n off (fd_ready_at s) (fd_admitted_at s)
      (fd_started_at s) (fd_prev_terminal_at s) =
       [(PHASE_BACKOFF, b), (PHASE_EXECUTING, e), (PHASE_PERMIT_WAIT, w), (PHASE_READY_WAIT, q)]"
    "unat b + unat e + unat w + unat q =
       unat off - unat (min (case bt_get (fd_started_at s) n of Some x \<Rightarrow> x | None \<Rightarrow> off) off)"
    by (rule phases_exact)
  have "exec_of (build_attempt_record r n off s) = e"
    by (simp add: exec_of_def build_attempt_record_def Let_def p(1) bt_get_def PHASE_BACKOFF_def PHASE_EXECUTING_def)
  with p(2) show ?thesis by simp
qed

lemma outcomes_of_alt: "outcomes_of n rs = filter (is_outcome_of n) rs"
  by (simp add: outcomes_of_def node_record_def [abs_def])

lemma last_offset_ge:
  assumes "sorted (map offset_of rs)" "j < length rs" "P (rs ! j)"
  obtains x where "last_offset P rs = Some x" "offset_of (rs ! j) \<le> x"
proof -
  have ne: "filter P rs \<noteq> []" using assms(2,3) by (auto simp: filter_empty_conv)
  obtain k where k: "k < length rs" "rs ! k = last (filter P rs)" "\<And>k'. k < k' \<Longrightarrow> k' < length rs \<Longrightarrow> \<not> P (rs ! k')"
    by (rule last_filter_nth [OF ne]) blast
  then have "j \<le> k" using assms(2,3) by (meson not_le)
  from sorted_offsets [OF assms(1) this k(1)] k(2) ne that show thesis by (simp add: last_offset_def)
qed

lemma hd_filter_le:
  assumes "sorted (map offset_of rs)" "l < length rs" "P (rs ! l)"
  shows "offset_of (hd (filter P rs)) \<le> offset_of (rs ! l)"
proof -
  have ne: "filter P rs \<noteq> []" using assms(2,3) by (auto simp: filter_empty_conv)
  obtain k where k: "rs ! k = hd (filter P rs)" "\<And>k'. k' < k \<Longrightarrow> \<not> P (rs ! k')"
    by (rule hd_filter_nth [OF ne]) blast
  then have "k \<le> l" using assms(3) by (meson not_le)
  from sorted_offsets [OF assms(1) this assms(2)] k(1) show ?thesis by simp
qed

lemma exec_sum_step:
  "exec_sum n (fd_attempts (attempts_step r s)) =
     exec_sum n (fd_attempts s) + (if is_outcome_of n r then unat (exec_of (build_attempt_record r n (offset_of r) s)) else 0)"
  by (cases rule: attempts_step_cases [of r s]) (auto simp: exec_sum_def node_record_def)

lemma exec_window:
  assumes "well_timed rs" "outcomes_of n rs \<noteq> []"
  shows "filter (is_ready_of n) rs \<noteq> [] \<and>
    exec_sum n (fd_attempts (fold_state rs)) + unat (offset_of (hd (filter (is_ready_of n) rs)))
      \<le> unat (offset_of (last (outcomes_of n rs)))"
  using assms
proof (induction rs rule: rev_induct)
  case (snoc r rs)
  note wt = snoc.prems(1)
  have wt': "well_timed rs" by (rule well_timed_prefix [OF wt])
  have sorted: "sorted (map offset_of rs)" using wt' by (simp add: well_timed_def)
  show ?case
  proof (cases "is_outcome_of n r")
    case False
    with snoc.prems(2) have ne: "outcomes_of n rs \<noteq> []" by (simp add: outcomes_of_alt)
    with snoc.IH wt' False show ?thesis by (auto simp: exec_sum_step outcomes_of_alt)
  next
    case True
    have nth: "i < length rs \<Longrightarrow> (rs @ [r]) ! i = rs ! i" for i by (simp add: nth_append)
    from wt True obtain l j where lj: "l < j" "j < length rs" "is_ready_of n ((rs @ [r]) ! l)"
      "is_started_of n ((rs @ [r]) ! j)"
      and between: "\<And>k. j < k \<Longrightarrow> k < length rs \<Longrightarrow> \<not> is_outcome_of n ((rs @ [r]) ! k)"
      unfolding well_timed_def by (metis length_append_singleton lessI nth_append_length)
    have l: "l < length rs" "is_ready_of n (rs ! l)" and j: "is_started_of n (rs ! j)" using lj nth by simp_all
    obtain x where x: "last_offset (is_started_of n) rs = Some x" "offset_of (rs ! j) \<le> x"
      by (rule last_offset_ge [where P = "is_started_of n", OF sorted lj(2) j])
    have le: "offset_of q \<le> offset_of r" if "q \<in> set rs" for q
      using wt that by (auto simp: well_timed_def sorted_append)
    have xr: "x \<le> offset_of r"
      using x(1) le [of "last (filter (is_started_of n) rs)"] last_in_set [of "filter (is_started_of n) rs"]
      by (auto simp: last_offset_def split: if_splits)
    have e: "unat (exec_of (build_attempt_record r n (offset_of r) (fold_state rs))) \<le> unat (offset_of r) - unat x"
      using exec_of_build [of r n "offset_of r" "fold_state rs"] offsets_inv_fold [of rs] x(1) xr
      by (simp add: offsets_inv_def min_absorb1)
    have rne: "filter (is_ready_of n) rs \<noteq> []" using l by (auto simp: filter_empty_conv)
    have hdr: "offset_of (hd (filter (is_ready_of n) rs)) \<le> x"
      using hd_filter_le [where P = "is_ready_of n", OF sorted l] sorted_offsets [OF sorted _ lj(2), of l] lj(1) x(2) by simp
    have before: "exec_sum n (fd_attempts (fold_state rs)) + unat (offset_of (hd (filter (is_ready_of n) rs))) \<le> unat x"
    proof (cases "outcomes_of n rs = []")
      case True
      have "rows_of n (fd_attempts (fold_state rs)) = []"
        using rows_inv_fold [of rs] True unfolding rows_inv_def by (metis list.map_disc_iff)
      with hdr show ?thesis by (simp add: exec_sum_def word_le_nat_alt)
    next
      case False
      obtain k where k: "k < length rs" "is_outcome_of n (rs ! k)" "rs ! k = last (outcomes_of n rs)"
        using last_filter_nth [of "is_outcome_of n" rs] False by (metis outcomes_of_alt)
      have "k \<noteq> j" using k(2) j kinds_distinct(1) by blast
      moreover have "\<not> j < k" using between [of k] k(1,2) nth [OF k(1)] by auto
      ultimately have "offset_of (last (outcomes_of n rs)) \<le> x"
        using sorted_offsets [OF sorted _ lj(2), of k] k(3) x(2) by simp
      with snoc.IH [OF wt' False] show ?thesis by (simp add: word_le_nat_alt)
    qed
    have "\<not> is_ready_of n r" using True kinds_distinct(2) by blast
    with True rne before e xr show ?thesis
      by (simp add: exec_sum_step outcomes_of_alt word_le_nat_alt)
  qed
qed (simp add: outcomes_of_def)

section \<open>The critical path\<close>

lemma entry_or_get [bt_simps]:
  "bt_ok m \<Longrightarrow> bt_get (entry_or k d f m) k' =
     (if k' = k then Some (case bt_get m k of Some v \<Rightarrow> f v | None \<Rightarrow> d) else bt_get m k')"
  by (simp add: entry_or_def bt_simps)

lemma entry_or_ok [simp]: "bt_ok m \<Longrightarrow> bt_ok (entry_or k d f m)"
  by (simp add: entry_or_def bt_simps)

definition first_offset :: "(Json \<Rightarrow> bool) \<Rightarrow> Json list \<Rightarrow> u64 option" where
  "first_offset P rs = (if filter P rs = [] then None else Some (offset_of (hd (filter P rs))))"

definition timing_inv :: "Json list \<Rightarrow> (string, u64) btree \<times> (string, u64) btree \<Rightarrow> bool" where
  "timing_inv rs = (\<lambda>(ready_at, terminal_at). bt_ok ready_at \<and> bt_ok terminal_at
     \<and> (\<forall>n. bt_get ready_at n = first_offset (is_ready_of n) rs)
     \<and> (\<forall>n. bt_get terminal_at n = last_offset (is_end_of n) rs))"

lemma first_offset_snoc: "first_offset P (rs @ [r]) =
    (case first_offset P rs of Some x \<Rightarrow> Some x | None \<Rightarrow> if P r then Some (offset_of r) else None)"
  by (simp add: first_offset_def)

lemma last_offset_snoc: "last_offset P (rs @ [r]) = (if P r then Some (offset_of r) else last_offset P rs)"
  by (simp add: last_offset_def)

lemma offset_bounds:
  assumes "\<forall>q \<in> set rs. offset_of q \<le> M"
  shows "first_offset P rs = Some x \<Longrightarrow> x \<le> M" "last_offset P rs = Some x \<Longrightarrow> x \<le> M"
proof -
  have "offset_of (hd (filter P rs)) \<le> M" "offset_of (last (filter P rs)) \<le> M" if "filter P rs \<noteq> []"
    using assms hd_in_set [OF that] last_in_set [OF that] by auto
  then show "first_offset P rs = Some x \<Longrightarrow> x \<le> M" "last_offset P rs = Some x \<Longrightarrow> x \<le> M"
    by (auto simp: first_offset_def last_offset_def split: if_splits)
qed

lemma timing_inv_fold: "sorted (map offset_of rs) \<Longrightarrow> timing_inv rs (fold timing_step rs ([], []))"
proof (induction rs rule: rev_induct)
  case Nil
  show ?case by (simp add: timing_inv_def first_offset_def last_offset_def bt_simps)
next
  case (snoc r rs)
  obtain R T where RT: "fold timing_step rs ([], []) = (R, T)" by fastforce
  have inv: "timing_inv rs (R, T)" using snoc by (simp add: RT sorted_append)
  have le: "\<forall>q \<in> set rs. offset_of q \<le> offset_of r" using snoc.prems by (simp add: sorted_append)
  note bounds = offset_bounds [OF le]
  have ok: "bt_ok R" "bt_ok T" and R: "\<And>n. bt_get R n = first_offset (is_ready_of n) rs"
    and T: "\<And>n. bt_get T n = last_offset (is_end_of n) rs"
    using inv by (auto simp: timing_inv_def)
  have step: "fold timing_step (rs @ [r]) ([], []) = timing_step r (R, T)" by (simp add: RT)
  consider (ready) n where "is_ready_of n r" | (outcome) n where "is_outcome_of n r"
    | (terminal) n where "node_record ''node-terminal'' n r"
    | (none) "\<And>n. \<not> is_ready_of n r" "\<And>n. \<not> is_end_of n r"
    unfolding is_end_of_def by blast
  then show ?case
  proof cases
    case (ready n)
    have t: "timing_step r (R, T) = (entry_or n (offset_of r) (\<lambda>x. min x (offset_of r)) R, T)"
      using ready by (simp add: timing_step_def node_record_def Let_def)
    have "is_ready_of m r \<longleftrightarrow> m = n" "\<not> is_end_of m r" for m
      using ready by (auto simp: is_end_of_def node_record_def)
    then have "bt_get (entry_or n (offset_of r) (\<lambda>x. min x (offset_of r)) R) m = first_offset (is_ready_of m) (rs @ [r])"
      and "bt_get T m = last_offset (is_end_of m) (rs @ [r])" for m
      using bounds(1) [of "is_ready_of m"]
      by (simp_all add: entry_or_get ok first_offset_snoc last_offset_snoc R T min_absorb1 split: option.split)
    then show ?thesis unfolding step t timing_inv_def by (simp add: ok)
  next
    case (outcome n)
    have t: "timing_step r (R, T) = (R, entry_or n (offset_of r) (\<lambda>x. max x (offset_of r)) T)"
      using outcome by (simp add: timing_step_def node_record_def Let_def)
    have "\<not> is_ready_of m r" "is_end_of m r \<longleftrightarrow> m = n" for m
      using outcome by (auto simp: is_end_of_def node_record_def)
    then have "bt_get (entry_or n (offset_of r) (\<lambda>x. max x (offset_of r)) T) m = last_offset (is_end_of m) (rs @ [r])"
      and "bt_get R m = first_offset (is_ready_of m) (rs @ [r])" for m
      using bounds(2) [of "is_end_of m"]
      by (simp_all add: entry_or_get ok first_offset_snoc last_offset_snoc R T max_absorb2 split: option.split)
    then show ?thesis unfolding step t timing_inv_def by (simp add: ok)
  next
    case (terminal n)
    have t: "timing_step r (R, T) = (R, bt_insert n (offset_of r) T)"
      using terminal by (simp add: timing_step_def node_record_def Let_def)
    have "\<not> is_ready_of m r" "is_end_of m r \<longleftrightarrow> m = n" for m
      using terminal by (auto simp: is_end_of_def node_record_def)
    then show ?thesis
      unfolding step t timing_inv_def by (simp add: ok first_offset_snoc last_offset_snoc R T bt_simps split: option.split)
  next
    case none
    then have "timing_step r (R, T) = (R, T)"
      by (auto simp: timing_step_def is_end_of_def node_record_def Let_def split: option.splits)
    with none inv show ?thesis
      unfolding step by (simp add: timing_inv_def first_offset_snoc last_offset_snoc split: option.split)
  qed
qed


definition get_or_zero :: "(string, u64) btree \<Rightarrow> string \<Rightarrow> u64" where
  "get_or_zero m n = (case bt_get m n of Some c \<Rightarrow> c | None \<Rightarrow> 0)"

lemma contributions_exact:
  "bt_ok (contributions attempts)"
  "unat (get_or_zero (contributions attempts) n) = exec_sum n attempts mod 2 ^ 64"
  "n \<in> set (bt_keys (contributions attempts)) \<longleftrightarrow> (\<exists>a \<in> set attempts. at_node a = n)"
proof -
  let ?step = "\<lambda>a m. (let exec' = (case bt_get (at_phase_durations_ns a) PHASE_EXECUTING of Some e \<Rightarrow> e | None \<Rightarrow> 0)
      in bt_insert (at_node a) ((case bt_get m (at_node a) of Some c \<Rightarrow> c | None \<Rightarrow> 0) + exec') m)"
  have step: "?step a m = bt_insert (at_node a) (get_or_zero m (at_node a) + exec_of a) m" for a m
    by (simp add: get_or_zero_def exec_of_def)
  have all: "bt_ok (contributions attempts) \<and>
    (\<forall>n. unat (get_or_zero (contributions attempts) n) = exec_sum n attempts mod 2 ^ 64) \<and>
    (\<forall>n. bt_get (contributions attempts) n \<noteq> None \<longleftrightarrow> (\<exists>a \<in> set attempts. at_node a = n))"
  proof (induction attempts rule: rev_induct)
    case Nil
    show ?case by (simp add: contributions_def get_or_zero_def exec_sum_def)
  next
    case (snoc a as)
    have c: "contributions (as @ [a]) =
        bt_insert (at_node a) (get_or_zero (contributions as) (at_node a) + exec_of a) (contributions as)"
      unfolding contributions_def step by simp
    have sum: "exec_sum m (as @ [a]) = exec_sum m as + (if at_node a = m then unat (exec_of a) else 0)" for m
      by (simp add: exec_sum_def)
    have "unat (get_or_zero (contributions (as @ [a])) m) = exec_sum m (as @ [a]) mod 2 ^ 64" for m
    proof (cases "m = at_node a")
      case True
      have "get_or_zero (contributions (as @ [a])) m = get_or_zero (contributions as) m + exec_of a"
        using snoc True by (simp add: c get_or_zero_def)
      then show ?thesis using snoc True by (simp add: unat_word_ariths sum mod_add_left_eq)
    next
      case False
      then have "get_or_zero (contributions (as @ [a])) m = get_or_zero (contributions as) m"
        using snoc by (simp add: c get_or_zero_def)
      then show ?thesis using snoc False by (simp add: sum)
    qed
    moreover have "bt_ok (contributions (as @ [a]))" using snoc by (simp add: c)
    moreover have "bt_get (contributions (as @ [a])) m \<noteq> None \<longleftrightarrow> (\<exists>b \<in> set (as @ [a]). at_node b = m)" for m
      using snoc by (auto simp: c)
    ultimately show ?case by blast
  qed
  then show "bt_ok (contributions attempts)"
    "unat (get_or_zero (contributions attempts) n) = exec_sum n attempts mod 2 ^ 64" by blast+
  show "n \<in> set (bt_keys (contributions attempts)) \<longleftrightarrow> (\<exists>a \<in> set attempts. at_node a = n)"
    using all by (auto simp: bt_keys_def bt_get_def map_of_eq_None_iff)
qed

text \<open>The best base among the nodes already on a path that had ended when the node became ready.\<close>

definition precedes :: "(string, u64) btree \<Rightarrow> u64 \<Rightarrow> string \<Rightarrow> bool" where
  "precedes T rv u \<longleftrightarrow> (\<exists>t. bt_get T u = Some t \<and> t \<le> rv)"

lemma path_base_spec:
  shows "\<forall>(u, c) \<in> set cp. u \<noteq> v \<longrightarrow> precedes T rv u \<longrightarrow> c \<le> path_base T rv v cp"
    "path_base T rv v cp = 0 \<or> (\<exists>(u, c) \<in> set cp. precedes T rv u \<and> path_base T rv v cp = c)"
proof -
  have snoc: "path_base T rv v (cp @ [(u, c)]) =
      (if u \<noteq> v \<and> precedes T rv u then max (path_base T rv v cp) c else path_base T rv v cp)" for cp u c
    by (simp add: path_base_def precedes_def split: option.split)
  have "(\<forall>(u, c) \<in> set cp. u \<noteq> v \<longrightarrow> precedes T rv u \<longrightarrow> c \<le> path_base T rv v cp) \<and>
    (path_base T rv v cp = 0 \<or> (\<exists>(u, c) \<in> set cp. precedes T rv u \<and> path_base T rv v cp = c))"
  proof (induction cp rule: rev_induct)
    case Nil
    show ?case by (simp add: path_base_def)
  next
    case (snoc kv cp)
    obtain u c where kv: "kv = (u, c)" by (cases kv)
    show ?case
      using snoc by (auto simp: kv \<open>\<And>cp u c. path_base T rv v (cp @ [(u, c)]) = _\<close> max_def)
  qed
  then show "\<forall>(u, c) \<in> set cp. u \<noteq> v \<longrightarrow> precedes T rv u \<longrightarrow> c \<le> path_base T rv v cp"
    "path_base T rv v cp = 0 \<or> (\<exists>(u, c) \<in> set cp. precedes T rv u \<and> path_base T rv v cp = c)" by blast+
qed


text \<open>What the path pass needs of its maps: contributions fit between readiness and end, up to a bound.\<close>

definition path_maps_ok ::
  "(string, u64) btree \<Rightarrow> (string, u64) btree \<Rightarrow> (string, u64) btree \<Rightarrow> (string \<Rightarrow> nat) \<Rightarrow> nat \<Rightarrow> bool" where
  "path_maps_ok C R T E M \<longleftrightarrow> M < 2 ^ 64 \<and> (\<forall>v. unat (get_or_zero C v) = E v)
     \<and> (\<forall>v. E v = 0 \<or> (\<exists>t. bt_get T v = Some t \<and> unat (ready_of R T v) + E v \<le> unat t))
     \<and> (\<forall>v t. bt_get T v = Some t \<longrightarrow> unat (ready_of R T v) \<le> unat t \<and> unat t \<le> M)
     \<and> (\<forall>v. unat (ready_of R T v) \<le> M)"

lemma path_maps_end:
  assumes "path_maps_ok C R T E M"
  shows "unat (ready_of R T v) + E v \<le> M" "bt_get T v = Some t \<Longrightarrow> unat (ready_of R T v) + E v \<le> unat t"
  using assms unfolding path_maps_ok_def by (metis add.right_neutral le_trans option.inject)+

definition path_inv ::
  "(string, u64) btree \<Rightarrow> (string, u64) btree \<Rightarrow> (string \<Rightarrow> nat) \<Rightarrow> nat \<Rightarrow> string list
     \<Rightarrow> (string, u64) btree \<times> u64 \<Rightarrow> bool" where
  "path_inv R T E M vs = (\<lambda>(cp, best). bt_ok cp \<and> fst ` set cp = set vs
     \<and> (\<forall>v \<in> set vs. E v \<le> unat (get_or_zero cp v) \<and> get_or_zero cp v \<le> best
          \<and> unat (get_or_zero cp v) \<le> unat (ready_of R T v) + E v)
     \<and> unat best \<le> M
     \<and> (\<forall>j < length vs. \<forall>i < j. precedes T (ready_of R T (vs ! j)) (vs ! i) \<longrightarrow>
          unat (get_or_zero cp (vs ! i)) + E (vs ! j) \<le> unat (get_or_zero cp (vs ! j))))"

lemma map_of_sorted: "bt_ok m \<Longrightarrow> (u, c) \<in> set m \<Longrightarrow> get_or_zero m u = c"
  by (auto simp: get_or_zero_def bt_get_def bt_ok_def strict_sorted_iff)

lemma path_fold:
  assumes ok: "path_maps_ok C R T E M" and "distinct vs"
  shows "path_inv R T E M vs (fold (path_step C R T) vs ([], 0))"
  using assms(2)
proof (induction vs rule: rev_induct)
  case Nil
  show ?case by (simp add: path_inv_def)
next
  case (snoc v vs)
  obtain cp best where st: "fold (path_step C R T) vs ([], 0) = (cp, best)" by fastforce
  have v: "v \<notin> set vs" using snoc.prems by simp
  have cp_ok: "bt_ok cp" and dom: "fst ` set cp = set vs"
    and bound: "\<And>u. u \<in> set vs \<Longrightarrow> E u \<le> unat (get_or_zero cp u) \<and> get_or_zero cp u \<le> best
      \<and> unat (get_or_zero cp u) \<le> unat (ready_of R T u) + E u"
    and best: "unat best \<le> M"
    and order: "\<And>i j. j < length vs \<Longrightarrow> i < j \<Longrightarrow> precedes T (ready_of R T (vs ! j)) (vs ! i) \<Longrightarrow>
          unat (get_or_zero cp (vs ! i)) + E (vs ! j) \<le> unat (get_or_zero cp (vs ! j))"
    using snoc by (auto simp: path_inv_def st)
  define rv where "rv = ready_of R T v"
  define base where "base = path_base T rv v cp"
  define c where "c = base + get_or_zero C v"
  have step: "path_step C R T v (cp, best) = (bt_insert v c cp, max best c)"
    by (simp add: path_step_def Let_def c_def base_def rv_def get_or_zero_def)
  have "unat base \<le> unat rv"
  proof (cases "base = 0")
    case False
    then obtain u c' where u: "(u, c') \<in> set cp" "precedes T rv u" "base = c'"
      using path_base_spec(2) [of T rv v cp] by (auto simp: base_def)
    then obtain t where t: "bt_get T u = Some t" "t \<le> rv" by (auto simp: precedes_def)
    have "u \<in> set vs" using u(1) dom by force
    with bound [OF this] map_of_sorted [OF cp_ok u(1)] u(3) path_maps_end(2) [OF ok t(1)] t(2) show ?thesis
      by (simp add: word_le_nat_alt)
  qed simp
  moreover have "unat (get_or_zero C v) = E v" using ok by (simp add: path_maps_ok_def)
  moreover have "unat rv + E v \<le> M" "M < 2 ^ 64" using path_maps_end(1) [OF ok] ok by (simp_all add: rv_def path_maps_ok_def)
  ultimately have c: "unat c = unat base + E v" and cM: "unat c \<le> unat rv + E v"
    unfolding c_def by (subst (asm) unat_add_lem [of base "get_or_zero C v", THEN iffD1] | simp add: unat_word_ariths)+
  have get: "get_or_zero (bt_insert v c cp) u = (if u = v then c else get_or_zero cp u)" for u
    using cp_ok by (simp add: get_or_zero_def)
  have "fst ` set m = {k. bt_get m k \<noteq> None}" for m :: "(string, u64) btree"
    by (simp add: bt_get_def flip: dom_map_of_conv_image_fst) (simp add: dom_def)
  with cp_ok dom have "fst ` set (bt_insert v c cp) = set (vs @ [v])"
    by (auto simp: set_eq_iff)
  moreover have "E u \<le> unat (get_or_zero (bt_insert v c cp) u) \<and> get_or_zero (bt_insert v c cp) u \<le> max best c
      \<and> unat (get_or_zero (bt_insert v c cp) u) \<le> unat (ready_of R T u) + E u" if "u \<in> set (vs @ [v])" for u
    using that bound [of u] c cM v by (auto simp: get rv_def le_max_iff_disj)
  moreover have "unat (max best c) \<le> M"
    using best cM \<open>unat rv + E v \<le> M\<close> by (simp add: max_def)
  moreover have "unat (get_or_zero (bt_insert v c cp) ((vs @ [v]) ! i)) + E ((vs @ [v]) ! j)
      \<le> unat (get_or_zero (bt_insert v c cp) ((vs @ [v]) ! j))"
    if j: "j < length (vs @ [v])" and i: "i < j" and pre: "precedes T (ready_of R T ((vs @ [v]) ! j)) ((vs @ [v]) ! i)"
    for i j
  proof (cases "j = length vs")
    case False
    then have "j < length vs" using j by simp
    moreover have "vs ! i \<in> set vs" "vs ! j \<in> set vs" using i calculation by simp_all
    moreover have "vs ! i \<noteq> v" "vs ! j \<noteq> v" using calculation(2,3) v by metis+
    ultimately show ?thesis using order [of j i] i pre by (simp add: nth_append get)
  next
    case True
    define u where "u = vs ! i"
    have u: "u \<in> set vs" "u \<noteq> v" using i v True by (auto simp: u_def)
    then obtain c' where c': "(u, c') \<in> set cp" using dom by force
    have "precedes T rv u" using pre i True by (simp add: nth_append u_def rv_def)
    with path_base_spec(1) [of cp v T rv] c' u(2) have "c' \<le> base" by (auto simp: base_def)
    then have "unat (get_or_zero cp u) \<le> unat base"
      by (simp add: map_of_sorted [OF cp_ok c'] word_le_nat_alt)
    with u(2) i True c show ?thesis by (simp add: nth_append get flip: u_def)
  qed
  ultimately have "path_inv R T E M (vs @ [v]) (bt_insert v c cp, max best c)"
    using cp_ok by (simp add: path_inv_def)
  then show ?case by (simp add: st step)
qed


text \<open>A chain in time: each node had ended when the next became ready.\<close>

definition timing_chain :: "(string, u64) btree \<Rightarrow> (string, u64) btree \<Rightarrow> string list \<Rightarrow> bool" where
  "timing_chain R T vs \<longleftrightarrow> (\<forall>v \<in> set vs. bt_get T v \<noteq> None)
     \<and> successively (\<lambda>u v. precedes T (ready_of R T v) u) vs"

lemma chain_bound:
  assumes ok: "path_maps_ok C R T E M" and inv: "path_inv R T E M ns (cp, best)"
    and sorted: "sorted (map (\<lambda>n. (ready_of R T n, n)) ns)"
  shows "vs \<noteq> [] \<Longrightarrow> set vs \<subseteq> set ns \<Longrightarrow> timing_chain R T vs \<Longrightarrow> sum_list (map E vs) \<le> unat (get_or_zero cp (last vs))"
proof (induction "length vs" arbitrary: vs rule: less_induct)
  case less
  show ?case
  proof (cases vs rule: rev_cases)
    case Nil
    with less.prems(1) show ?thesis by simp
  next
    case (snoc us v)
    have v: "v \<in> set ns" using less.prems(2) snoc by simp
    show ?thesis
    proof (cases us rule: rev_cases)
      case Nil
      with v inv show ?thesis by (auto simp: snoc path_inv_def)
    next
      case us: (snoc ws u)
      have u: "u \<in> set ns" using less.prems(2) snoc us by simp
      have chain: "timing_chain R T us" and uv: "precedes T (ready_of R T v) u"
        using less.prems(3) by (auto simp: timing_chain_def snoc us successively_append_iff)
      obtain t where t: "bt_get T u = Some t" "t \<le> ready_of R T v" using uv by (auto simp: precedes_def)
      have ru: "unat (ready_of R T u) + E u \<le> unat t" by (rule path_maps_end(2) [OF ok t(1)])
      show ?thesis
      proof (cases "(ready_of R T u, u) < (ready_of R T v, v)")
        case True
        obtain i j where ij: "i < length ns" "ns ! i = u" "j < length ns" "ns ! j = v"
          using u v by (metis in_set_conv_nth)
        have "i < j"
        proof (rule ccontr)
          assume "\<not> i < j"
          then have "map (\<lambda>n. (ready_of R T n, n)) ns ! j \<le> map (\<lambda>n. (ready_of R T n, n)) ns ! i"
            by (intro sorted_nth_mono [OF sorted]) (use ij in simp_all)
          with ij have "(ready_of R T v, v) \<le> (ready_of R T u, u)" by (simp del: less_eq_prod_simp)
          with True show False by (meson leD)
        qed
        with inv ij uv have "unat (get_or_zero cp u) + E v \<le> unat (get_or_zero cp v)"
          by (auto simp: path_inv_def)
        moreover have "sum_list (map E us) \<le> unat (get_or_zero cp (last us))"
          by (rule less.hyps [OF _ _ _ chain]) (use snoc us less.prems(2) in auto)
        ultimately show ?thesis by (simp add: snoc us)
      next
        case False
        then have "ready_of R T v \<le> ready_of R T u" by (auto simp: less_prod_def not_less)
        with t(2) ru have E: "E u = 0" and eq: "ready_of R T u = ready_of R T v"
          by (simp_all add: word_le_nat_alt antisym flip: word_unat_eq_iff)
        have "timing_chain R T (ws @ [v])"
          using less.prems(3) chain eq by (auto simp: timing_chain_def snoc us successively_append_iff)
        then have "sum_list (map E (ws @ [v])) \<le> unat (get_or_zero cp (last (ws @ [v])))"
          by (intro less.hyps) (use snoc us less.prems(2) in auto)
        with E show ?thesis by (simp add: snoc us)
      qed
    qed
  qed
qed

lemma exec_zero [simp]: "exec_of (synthesize_never_ran n r) = 0" "exec_of (never_reached n) = 0"
proof -
  have "bt_get zero_phases PHASE_EXECUTING = Some 0"
    by (simp add: zero_phases_def collect_map_def bt_get_def PHASE_BACKOFF_def PHASE_READY_WAIT_def
        PHASE_PERMIT_WAIT_def PHASE_EXECUTING_def less_char_def)
  then show "exec_of (synthesize_never_ran n r) = 0" "exec_of (never_reached n) = 0"
    by (simp_all add: exec_of_def synthesize_never_ran_def never_reached_def)
qed

lemma exec_sum_append [simp]: "exec_sum n (as @ bs) = exec_sum n as + exec_sum n bs"
  by (simp add: exec_sum_def)

lemma exec_sum_zero: "(\<And>a. a \<in> set as \<Longrightarrow> exec_of a = 0) \<Longrightarrow> exec_sum n as = 0"
  by (auto simp: exec_sum_def intro!: sum_list_nonneg_eq_0_iff [THEN iffD2])

lemma exec_sum_assemble: "exec_sum n (assemble_attempts rs g) = exec_sum n (fd_attempts (fold_state rs))"
proof -
  have "exec_sum n (fold cover_node g as) = exec_sum n as" for as
  proof (induction g arbitrary: as)
    case (Cons m g)
    have "exec_sum n (cover_node m as) = exec_sum n as"
      by (simp add: cover_node_def) (simp add: exec_sum_def)
    with Cons show ?case by simp
  qed simp
  moreover have "exec_sum n (cover_terminal s) = 0" for s
    by (rule exec_sum_zero) (auto simp: cover_terminal_def)
  ultimately show ?thesis by (simp add: assemble_attempts_def Let_def)
qed

lemma max_or_zero_ge: "x \<in> set xs \<Longrightarrow> x \<le> max_or_zero xs"
proof -
  have "y \<le> fold max xs y \<and> (\<forall>x \<in> set xs. x \<le> fold max xs y)" for y
  proof (induction xs arbitrary: y)
    case (Cons a xs)
    from Cons [of "max a y"] show ?case by auto
  qed simp
  then show "x \<in> set xs \<Longrightarrow> x \<le> max_or_zero xs" by (simp add: max_or_zero_def)
qed


lemma fold_maps_ok:
  assumes wt: "well_timed rs" and RT: "fold timing_step rs ([], []) = (R, T)"
  shows "path_maps_ok (contributions (assemble_attempts rs g)) R T (\<lambda>v. exec_sum v (assemble_attempts rs g))
     (unat (max_or_zero (map offset_of rs)))"
proof -
  let ?M = "max_or_zero (map offset_of rs)" and ?E = "\<lambda>v. exec_sum v (assemble_attempts rs g)"
  have sorted: "sorted (map offset_of rs)" using wt by (simp add: well_timed_def)
  have R: "bt_get R v = first_offset (is_ready_of v) rs" and T: "bt_get T v = last_offset (is_end_of v) rs" for v
    using timing_inv_fold [OF sorted] by (simp_all add: RT timing_inv_def)
  have le: "\<forall>q \<in> set rs. offset_of q \<le> ?M" by (auto intro: max_or_zero_ge)
  note bounds = offset_bounds [OF le]
  have ready_T: "ready_of R T v \<le> t" if "bt_get T v = Some t" for v t
  proof (cases "filter (is_ready_of v) rs = []")
    case True
    then show ?thesis using that by (simp add: ready_of_def R first_offset_def)
  next
    case False
    obtain i where i: "i < length rs" "is_ready_of v (rs ! i)" "rs ! i = hd (filter (is_ready_of v) rs)"
      by (rule hd_filter_nth [OF False]) blast
    have ends: "filter (is_end_of v) rs \<noteq> []" "t = offset_of (last (filter (is_end_of v) rs))"
      using that by (auto simp: T last_offset_def split: if_splits)
    obtain k where k: "k < length rs" "is_end_of v (rs ! k)" "rs ! k = last (filter (is_end_of v) rs)"
      by (rule last_filter_nth [OF ends(1)]) blast
    have "\<not> k < i" using wt i k unfolding well_timed_def by blast
    then have "offset_of (rs ! i) \<le> offset_of (rs ! k)" using sorted_offsets [OF sorted _ k(1)] by simp
    with False i(3) k(3) ends(2) show ?thesis by (simp add: ready_of_def R first_offset_def)
  qed
  have ready_M: "ready_of R T v \<le> ?M" for v
    using bounds(1) [of "is_ready_of v"] bounds(2) [of "is_end_of v"]
    by (auto simp: ready_of_def R T split: option.split)
  have window: "?E v = 0 \<or> (\<exists>t. bt_get T v = Some t \<and> unat (ready_of R T v) + ?E v \<le> unat t)" for v
  proof (cases "outcomes_of v rs = []")
    case True
    then have "rows_of v (fd_attempts (fold_state rs)) = []"
      using rows_inv_fold [of rs] unfolding rows_inv_def by (metis list.map_disc_iff)
    then have "?E v = 0" unfolding exec_sum_assemble by (simp add: exec_sum_def)
    then show ?thesis ..
  next
    case False
    from exec_window [OF wt False] have ready: "filter (is_ready_of v) rs \<noteq> []"
      and sum: "?E v + unat (offset_of (hd (filter (is_ready_of v) rs))) \<le> unat (offset_of (last (outcomes_of v rs)))"
      by (simp_all add: exec_sum_assemble)
    obtain k where k: "k < length rs" "is_outcome_of v (rs ! k)" "rs ! k = last (outcomes_of v rs)"
      using last_filter_nth [of "is_outcome_of v" rs] False by (metis outcomes_of_alt)
    have "is_end_of v (rs ! k)" using k(2) by (simp add: is_end_of_def)
    from last_offset_ge [where P = "is_end_of v", OF sorted k(1) this] obtain t where
      t: "bt_get T v = Some t" "offset_of (rs ! k) \<le> t" by (auto simp: T)
    have "ready_of R T v = offset_of (hd (filter (is_ready_of v) rs))"
      using ready by (simp add: ready_of_def R first_offset_def)
    with sum t k(3) show ?thesis by (intro disjI2 exI [of _ t]) (simp add: word_le_nat_alt)
  qed
  have "unat (get_or_zero (contributions (assemble_attempts rs g)) v) = ?E v" for v
  proof -
    have "?E v < 2 ^ 64"
    proof (cases "?E v = 0")
      case False
      with window [of v] obtain t :: u64 where "unat (ready_of R T v) + ?E v \<le> unat t" by blast
      then have "?E v \<le> unat t" by simp
      also have "unat t < 2 ^ 64" using unsigned_less [of t, where 'a = nat] by simp
      finally show ?thesis .
    qed simp
    then show ?thesis by (simp add: contributions_exact(2))
  qed
  with window ready_T ready_M bounds(2) show ?thesis
    using unsigned_less [of ?M, where 'a = nat] by (auto simp: path_maps_ok_def T word_le_nat_alt)
qed

lemma path_order_set:
  "bt_ok C \<Longrightarrow> set (path_order C R T) = set (bt_keys C) \<union> set (bt_keys R) \<union> set (bt_keys T)"
  "distinct (path_order C R T)" "sorted (map (\<lambda>n. (ready_of R T n, n)) (path_order C R T))"
proof -
  have "bs_ok (fold bs_insert (bt_keys C @ bt_keys R @ bt_keys T) [])" by (rule bs_ok_fold_insert) simp
  then show "distinct (path_order C R T)" by (simp add: path_order_def bs_ok_def Let_def)
  show "sorted (map (\<lambda>n. (ready_of R T n, n)) (path_order C R T))" by (simp add: path_order_def Let_def)
  show "set (path_order C R T) = set (bt_keys C) \<union> set (bt_keys R) \<union> set (bt_keys T)"
    by (auto simp: path_order_def Let_def set_fold_bs_insert simp del: fold_append)
qed

lemma critical_path_sandwich:
  assumes "well_timed records" "fold timing_step records ([], []) = (R, T)"
  shows "unat (critical_path_ns records (assemble_attempts records g)) \<le> unat (max_or_zero (map offset_of records))"
    and "timing_chain R T vs \<Longrightarrow>
      (\<Sum>v\<leftarrow>vs. exec_sum v (assemble_attempts records g)) \<le> unat (critical_path_ns records (assemble_attempts records g))"
proof -
  define as where "as = assemble_attempts records g"
  define ns where "ns = path_order (contributions as) R T"
  obtain cp best where st: "fold (path_step (contributions as) R T) ns ([], 0) = (cp, best)" by fastforce
  have cpn: "critical_path_ns records as = best"
    by (simp add: critical_path_ns_def assms(2) Let_def st flip: ns_def)
  note ok = fold_maps_ok [OF assms, of g, folded as_def]
  have inv: "path_inv R T (\<lambda>v. exec_sum v as) (unat (max_or_zero (map offset_of records))) ns (cp, best)"
    using path_fold [OF ok path_order_set(2) [of "contributions as" R T]] by (simp add: st flip: ns_def)
  then show "unat (critical_path_ns records (assemble_attempts records g)) \<le> unat (max_or_zero (map offset_of records))"
    unfolding as_def [symmetric] cpn by (simp add: path_inv_def)
  show "(\<Sum>v\<leftarrow>vs. exec_sum v (assemble_attempts records g)) \<le> unat (critical_path_ns records (assemble_attempts records g))"
    if chain: "timing_chain R T vs"
  proof (cases "vs = []")
    case False
    have "set vs \<subseteq> set (bt_keys T)"
      using chain by (force simp: timing_chain_def bt_keys_def bt_get_def dest: map_of_SomeD)
    then have sub: "set vs \<subseteq> set ns" by (auto simp: ns_def path_order_set contributions_exact)
    have "(\<Sum>v\<leftarrow>vs. exec_sum v as) \<le> unat (get_or_zero cp (last vs))"
      by (rule chain_bound [OF ok inv _ False sub chain]) (simp add: ns_def path_order_set)
    moreover have "get_or_zero cp (last vs) \<le> best"
      using inv sub False by (auto simp: path_inv_def subset_iff)
    ultimately show ?thesis unfolding as_def [symmetric] cpn by (simp add: word_le_nat_alt)
  qed simp
qed

text \<open>
  C29. The critical path of a well-timed run lies between the executing time along every chain of nodes
  that ended before the next became ready, and the elapsed time of the run: it never under-reports a
  dependency chain and no sum on the way overflows.
\<close>

theorem critical_path_bounds:
  assumes "well_timed records" "fold timing_step records ([], []) = (R, T)"
  shows "unat (su_critical_path_ns (assemble_summary records (assemble_attempts records g)))
      \<le> unat (su_total_elapsed_ns (assemble_summary records (assemble_attempts records g)))
    \<and> (\<forall>vs. timing_chain R T vs \<longrightarrow> (\<Sum>v\<leftarrow>vs. exec_sum v (assemble_attempts records g))
        \<le> unat (su_critical_path_ns (assemble_summary records (assemble_attempts records g))))"
  using critical_path_sandwich(1) [OF assms, of g] critical_path_sandwich(2) [OF assms, where g = g]
  by (simp add: assemble_summary_def Let_def split: prod.split)


text \<open>Two nodes in a row: \<open>a\<close> runs from 0 to 5, \<open>b\<close> from 6 to 9.\<close>

definition tick_record :: "string \<Rightarrow> string \<Rightarrow> u64 \<Rightarrow> Json" where
  "tick_record kind n off = JObject [(''kind'', JString kind), (''node'', JString n), (''offset_ns'', json_nat off)]"

lemma tick_record_simps [simp]:
  "kind_of (tick_record k n off) = Some k" "record_node (tick_record k n off) = Some n"
  "offset_of (tick_record k n off) = off"
  by (simp_all add: tick_record_def kind_of_def record_node_def offset_of_def string_field_def j_get_def bt_simps
      as_str_def json_nat_def as_u64_def)

definition two_nodes :: "Json list" where
  "two_nodes =
    [tick_record ''node-ready'' ''a'' 0, tick_record ''attempt-started'' ''a'' 0, tick_record ''attempt-outcome'' ''a'' 5,
     tick_record ''node-ready'' ''b'' 5, tick_record ''attempt-started'' ''b'' 6, tick_record ''attempt-outcome'' ''b'' 9]"

lemma two_nodes_well_timed: "well_timed two_nodes"
proof -
  have len: "i < length two_nodes \<longleftrightarrow> i = 0 \<or> i = 1 \<or> i = 2 \<or> i = 3 \<or> i = 4 \<or> i = 5" for i
    by (auto simp: two_nodes_def)
  have outcome: "is_outcome_of n (two_nodes ! i) \<longleftrightarrow> i = 2 \<and> n = ''a'' \<or> i = 5 \<and> n = ''b''" if "i < length two_nodes" for n i
    using that unfolding len by (elim disjE) (auto simp: two_nodes_def node_record_def)
  have ready: "is_ready_of n (two_nodes ! i) \<longleftrightarrow> i = 0 \<and> n = ''a'' \<or> i = 3 \<and> n = ''b''" if "i < length two_nodes" for n i
    using that unfolding len by (elim disjE) (auto simp: two_nodes_def node_record_def)
  have ends: "is_end_of n (two_nodes ! i) \<longleftrightarrow> is_outcome_of n (two_nodes ! i)" if "i < length two_nodes" for n i
    using that unfolding len by (elim disjE) (simp_all add: two_nodes_def is_end_of_def node_record_def)
  have "sorted (map offset_of two_nodes)" by (simp add: two_nodes_def)
  moreover have "\<exists>l j. l < j \<and> j < i \<and> is_ready_of n (two_nodes ! l) \<and> is_started_of n (two_nodes ! j)
             \<and> (\<forall>k. j < k \<and> k < i \<longrightarrow> \<not> is_outcome_of n (two_nodes ! k))"
    if "i < length two_nodes" "is_outcome_of n (two_nodes ! i)" for i n
    using that(2) unfolding outcome [OF that(1)]
  proof (elim disjE conjE)
    assume "i = 2" "n = ''a''"
    then show ?thesis by (intro exI [of _ 0] exI [of _ 1]) (auto simp: two_nodes_def node_record_def)
  next
    assume "i = 5" "n = ''b''"
    then show ?thesis by (intro exI [of _ 3] exI [of _ 4]) (auto simp: two_nodes_def node_record_def)
  qed
  moreover have "\<not> is_ready_of n (two_nodes ! k)" if "k < length two_nodes" "i < k" "is_end_of n (two_nodes ! i)" for k i n
  proof -
    have "i < length two_nodes" using that by simp
    with that(3) have "i = 2 \<and> n = ''a'' \<or> i = 5 \<and> n = ''b''" by (simp add: ends outcome)
    with that(2) show ?thesis unfolding ready [OF that(1)] by auto
  qed
  ultimately show ?thesis unfolding well_timed_def by blast
qed

theorem critical_path_bounds_witness:
  "8 \<le> unat (su_critical_path_ns (assemble_summary two_nodes (assemble_attempts two_nodes [])))
   \<and> unat (su_total_elapsed_ns (assemble_summary two_nodes (assemble_attempts two_nodes []))) = 9"
proof -
  obtain R T where RT: "fold timing_step two_nodes ([], []) = (R, T)" by fastforce
  then have R: "R = [(''a'', 0), (''b'', 5)]" and T: "T = [(''a'', 5), (''b'', 9)]"
    by (auto simp: two_nodes_def timing_step_def entry_or_def bt_simps less_char_def)
  have "timing_chain R T [''a'', ''b'']"
    by (simp add: timing_chain_def R T precedes_def ready_of_def bt_simps)
  moreover have "(\<Sum>v\<leftarrow>[''a'', ''b'']. exec_sum v (assemble_attempts two_nodes [])) = 8"
    by code_simp
  moreover have "unat (su_total_elapsed_ns (assemble_summary two_nodes (assemble_attempts two_nodes []))) = 9"
    by (simp add: assemble_summary_def max_or_zero_def two_nodes_def split: prod.split)
  ultimately show ?thesis
    using critical_path_bounds [OF two_nodes_well_timed RT, of "[]"] by metis
qed


section \<open>What the phases say\<close>

text \<open>
  The four phases of an attempt partition its window exactly: whatever was seen before, they add
  up, without a wrap, to the time from the attempt's start to its outcome, and to zero when the start
  is unknown or later.
\<close>

theorem attempt_phases_partition:
  "unat (total_elapsed_ns (build_attempt_record r n off s)) =
     unat off - unat (case bt_get (fd_started_at s) n of Some x \<Rightarrow> x | None \<Rightarrow> off)
   \<and> sum_list (map unat (bt_values (at_phase_durations_ns (build_attempt_record r n off s)))) =
     unat (total_elapsed_ns (build_attempt_record r n off s))
   \<and> bt_keys (at_phase_durations_ns (build_attempt_record r n off s)) =
     [PHASE_BACKOFF, PHASE_EXECUTING, PHASE_PERMIT_WAIT, PHASE_READY_WAIT]"
proof -
  let ?start = "case bt_get (fd_started_at s) n of Some x \<Rightarrow> x | None \<Rightarrow> off"
  obtain b e w q where p: "phases_of (or_one (record_attempt r)) n off (fd_ready_at s) (fd_admitted_at s)
      (fd_started_at s) (fd_prev_terminal_at s) =
       [(PHASE_BACKOFF, b), (PHASE_EXECUTING, e), (PHASE_PERMIT_WAIT, w), (PHASE_READY_WAIT, q)]"
    "unat b + unat e + unat w + unat q = unat off - unat (min ?start off)"
    by (rule phases_exact)
  have "unat off - unat (min ?start off) = unat off - unat ?start" by (simp add: unat_min_word)
  with p(2) have sum: "unat b + unat e + unat w + unat q = unat off - unat ?start" by simp
  also have "unat off - unat ?start < 2 ^ 64" using unsigned_less [of off, where 'a = nat] by simp
  finally have "unat (b + (e + (w + q))) = unat b + unat e + unat w + unat q"
    by (simp add: unat_word_ariths mod_add_right_eq add.assoc)
  with p(1) sum show ?thesis
    by (simp add: build_attempt_record_def Let_def total_elapsed_ns_def bt_values_def bt_keys_def)
qed

section \<open>Folding what a crash left\<close>

lemma kind_of_event: "kind_of (event_record run_id seq wall ns event) = Some (fst (event_wire event run_id))"
  by (simp add: kind_of_def string_field_def record_envelope as_str_def)

lemma kind_of_stamped:
  "i < length events \<Longrightarrow> kind_of (stamped env run_id seq c events ! i) = Some (fst (event_wire (events ! i) run_id))"
proof (induction events arbitrary: i seq c)
  case (Cons event events)
  then show ?case by (cases i) (auto simp: kind_of_event Let_def split: prod.splits)
qed simp

lemma run_finished_kind: "fst (event_wire event run_id) = ''run-finished'' \<longleftrightarrow> (\<exists>outcome. event = EvRunFinished outcome)"
  by (cases event) auto

lemma find_finished:
  assumes "m \<le> length events"
  shows "find (\<lambda>r. kind_of r = Some ''run-finished'') (take m (stamped env run_id seq c events)) = None
    \<longleftrightarrow> (\<forall>outcome. EvRunFinished outcome \<notin> set (take m events))"
proof -
  have "(\<forall>r \<in> set (take m (stamped env run_id seq c events)). kind_of r \<noteq> Some ''run-finished'')
      \<longleftrightarrow> (\<forall>i < m. kind_of (stamped env run_id seq c events ! i) \<noteq> Some ''run-finished'')"
    using assms by (auto simp: set_conv_nth)
  also have "\<dots> \<longleftrightarrow> (\<forall>i < m. \<not> (\<exists>outcome. events ! i = EvRunFinished outcome))"
    using assms by (auto simp: kind_of_stamped run_finished_kind)
  also have "\<dots> \<longleftrightarrow> (\<forall>outcome. EvRunFinished outcome \<notin> set (take m events))"
    unfolding nth_image [OF assms, symmetric]
  proof (intro iffI allI impI notI)
    fix outcome assume "\<forall>i < m. \<not> (\<exists>outcome. events ! i = EvRunFinished outcome)" "EvRunFinished outcome \<in> (!) events ` {0..<m}"
    then show False by (metis atLeastLessThan_iff imageE)
  next
    fix i assume "\<forall>outcome. EvRunFinished outcome \<notin> (!) events ` {0..<m}" "i < m"
      "\<exists>outcome. events ! i = EvRunFinished outcome"
    then show False by (metis atLeastLessThan_iff imageI zero_le)
  qed
  finally show ?thesis unfolding find_None_iff by blast
qed

lemma fold_records_started:
  assumes "find (\<lambda>r. kind_of r = Some ''run-started'') records = Some r" "j_get ''header'' r = Some header"
  obtains a where "fold_records records partial nodes = Inr a" "ra_header a = header"
    "ra_interrupted a \<longleftrightarrow> find (\<lambda>r. kind_of r = Some ''run-finished'') records = None"
    "ra_trailing_partial_discarded a = partial"
    "ra_overall_outcome a = fst (outcome_and_errors (find (\<lambda>r. kind_of r = Some ''run-finished'') records))"
proof -
  obtain out errs where "outcome_and_errors (find (\<lambda>r. kind_of r = Some ''run-finished'') records) = (out, errs)"
    by fastforce
  then have "\<exists>a. fold_records records partial nodes = Inr a \<and> ra_header a = header
      \<and> (ra_interrupted a \<longleftrightarrow> find (\<lambda>r. kind_of r = Some ''run-finished'') records = None)
      \<and> ra_trailing_partial_discarded a = partial
      \<and> ra_overall_outcome a = fst (outcome_and_errors (find (\<lambda>r. kind_of r = Some ''run-finished'') records))"
    using assms by (simp add: fold_records_def Let_def)
  then show thesis by (elim exE conjE) (rule that)
qed

lemma header_of_started:
  "j_get ''header'' (event_record run_id seq wall ns (EvRunStarted h)) = Some (run_started_header h run_id)"
  by (simp add: event_record_def json_obj_def j_get_def collect_map_def bt_simps less_char_def)

lemma started_header_fields:
  "j_get ''run_id'' (run_started_header h run_id) = Some (JString run_id)"
  "j_get ''pipeline'' (run_started_header h run_id) = Some (JString (rh_pipeline h))"
  by (simp_all add: run_started_header_def json_obj_def j_get_def collect_map_def bt_simps less_char_def)

lemma fold_started:
  assumes "find (\<lambda>r. kind_of r = Some ''run-started'') rs = Some (event_record run_id seq wall ns (EvRunStarted h))"
  shows "\<exists>a. fold_records rs torn nodes = Inr a \<and> header_run_id a = run_id \<and> header_pipeline a = rh_pipeline h
    \<and> (ra_interrupted a \<longleftrightarrow> find (\<lambda>r. kind_of r = Some ''run-finished'') rs = None)
    \<and> ra_trailing_partial_discarded a = torn
    \<and> ra_overall_outcome a = fst (outcome_and_errors (find (\<lambda>r. kind_of r = Some ''run-finished'') rs))"
proof -
  obtain a where a: "fold_records rs torn nodes = Inr a" and header: "ra_header a = run_started_header h run_id"
    and rest: "ra_interrupted a \<longleftrightarrow> find (\<lambda>r. kind_of r = Some ''run-finished'') rs = None"
      "ra_trailing_partial_discarded a = torn"
      "ra_overall_outcome a = fst (outcome_and_errors (find (\<lambda>r. kind_of r = Some ''run-finished'') rs))"
    by (rule fold_records_started [OF assms header_of_started])
  have "header_run_id a = run_id" "header_pipeline a = rh_pipeline h"
    by (simp_all add: header_run_id_def header_pipeline_def header string_field_def started_header_fields
        as_str_def string_or_empty_def)
  with a rest show ?thesis by (intro exI [of _ a] conjI) assumption+
qed

lemma fold_recovers:
  assumes "float_text_ok (se_float_text env)"
    and bytes: "bytes = concat (map (line_of (se_float_text env)) (stamped env run_id 0 c (EvRunStarted h # events)))"
    and "\<forall>r \<in> set (stamped env run_id 0 c (EvRunStarted h # events)). recordable parse (se_float_text env) r"
  shows "\<exists>m torn. cut_at (se_float_text env) (stamped env run_id 0 c (EvRunStarted h # events)) (take k bytes) m torn
    \<and> (if m = 0 then fold_stream parse (take k bytes) nodes = Inl MissingRunStarted
       else \<exists>a. fold_stream parse (take k bytes) nodes = Inr a
         \<and> header_run_id a = run_id \<and> header_pipeline a = rh_pipeline h
         \<and> (ra_interrupted a \<longleftrightarrow> (\<forall>outcome. EvRunFinished outcome \<notin> set (take m (EvRunStarted h # events))))
         \<and> ra_trailing_partial_discarded a = torn
         \<and> ra_overall_outcome a = fst (outcome_and_errors (find (\<lambda>r. kind_of r = Some ''run-finished'')
             (take m (stamped env run_id 0 c (EvRunStarted h # events))))))"
proof -
  let ?events = "EvRunStarted h # events"
  let ?rs = "stamped env run_id 0 c ?events"
  obtain m torn where m: "read_records parse (take k bytes)
      = Inr \<lparr>rs_records = take m ?rs, rs_trailing_partial_discarded = torn\<rparr>"
    "cut_at (se_float_text env) ?rs (take k bytes) m torn"
    using read_torn_stream [OF assms(1,3), of k] unfolding bytes by blast
  have len: "m \<le> length ?events" using m(2) unfolding cut_at_def length_stamped by blast
  have fold: "fold_stream parse (take k bytes) nodes = fold_records (take m ?rs) torn nodes"
    by (simp add: fold_stream_def m(1))
  show ?thesis
  proof (cases m)
    case 0
    with m(2) show ?thesis by (intro exI [of _ m] exI [of _ torn]) (simp add: fold fold_records_def)
  next
    case (Suc j)
    obtain ns c1 where 1: "se_elapsed_ns env c = (ns, c1)" by fastforce
    obtain wall c2 where 2: "se_wall env c1 = (wall, c2)" by fastforce
    obtain rest where r: "?rs = event_record run_id 0 wall ns (EvRunStarted h) # rest"
      using 1 2 by simp
    have first: "find (\<lambda>r. kind_of r = Some ''run-started'') (take m ?rs) = Some (event_record run_id 0 wall ns (EvRunStarted h))"
      unfolding r Suc by (simp add: kind_of_event)
    from fold_started [OF first, of torn nodes] m(2) show ?thesis
      unfolding fold find_finished [OF len] by (intro exI [of _ m] exI [of _ torn]) (simp add: Suc)
  qed
qed

text \<open>Among the records that a run offers to its sink, only the first says that the run started.\<close>

lemma fold_offered:
  assumes "set rs \<subseteq> fst ` set (offered env (EvRunStarted h # events) (writer_new sink c run_id pipeline))"
    and "\<forall>h'. EvRunStarted h' \<notin> set events"
  shows "if \<forall>r \<in> set rs. kind_of r \<noteq> Some ''run-started'' then fold_records rs torn nodes = Inl MissingRunStarted
    else \<exists>a. fold_records rs torn nodes = Inr a
      \<and> header_run_id a = run_id \<and> header_pipeline a = rh_pipeline h
      \<and> (ra_interrupted a \<longleftrightarrow> (\<forall>r \<in> set rs. kind_of r \<noteq> Some ''run-finished''))
      \<and> ra_trailing_partial_discarded a = torn"
proof (cases "find (\<lambda>r. kind_of r = Some ''run-started'') rs")
  case None
  then have "\<forall>r \<in> set rs. kind_of r \<noteq> Some ''run-started''" by (simp add: find_None_iff)
  then show ?thesis by (simp add: fold_records_def None)
next
  case (Some r)
  let ?w = "writer_new sink c run_id pipeline"
  from Some have r: "r \<in> set rs" "kind_of r = Some ''run-started''"
    using nth_mem by (fastforce simp: find_Some_iff)+
  then have "r \<in> fst ` set (offered env (EvRunStarted h # events) ?w)" using assms(1) by blast
  then obtain x where "r = fst x" "x \<in> set (offered env (EvRunStarted h # events) ?w)" by (rule imageE)
  then have "(r, snd x) \<in> set (offered env (EvRunStarted h # events) ?w)" by (simp only: prod.collapse)
  then obtain ev seq wall ns where ev: "ev \<in> set (EvRunStarted h # events)" "r = event_record (ew_run_id ?w) seq wall ns ev"
    using offered_event by blast
  with r(2) have "\<exists>h'. ev = EvRunStarted h'" by (cases ev) (simp_all add: kind_of_event)
  with ev assms(2) have "r = event_record run_id seq wall ns (EvRunStarted h)" by (auto simp: writer_new_def)
  from fold_started [OF Some [unfolded this], of torn nodes] obtain a where
    a: "fold_records rs torn nodes = Inr a" "header_run_id a = run_id" "header_pipeline a = rh_pipeline h"
    "ra_interrupted a \<longleftrightarrow> (\<forall>r \<in> set rs. kind_of r \<noteq> Some ''run-finished'')"
    "ra_trailing_partial_discarded a = torn"
    unfolding find_None_iff by blast
  have "\<not> (\<forall>r \<in> set rs. kind_of r \<noteq> Some ''run-started'')" using r by blast
  then show ?thesis by (simp only: if_False) (intro exI [of _ a] conjI a)
qed

text \<open>
  C21. The fold of what a run left on a disk that takes a line whole, refuses it without a trace, or
  fills up in the middle of one, cut at any byte: as long as no whole record says that the run started
  there is nothing to fold; from then on the fold succeeds, names the run and its pipeline, and calls
  the run interrupted exactly when no whole record finishes it.  The records it folds are those the
  sink took, all of them when nothing was cut, and at most one more.
\<close>

theorem fold_after_crash:
  assumes "float_text_ok (se_float_text env)" "orderly_sink contents full env"
    and "\<not> full sink" "contents sink = []"
    and "w = writer_new sink c run_id pipeline" "bytes = contents (ew_sink (emit_all env (EvRunStarted h # events) w))"
    and "\<forall>(r, ok) \<in> set (offered env (EvRunStarted h # events) w). recordable parse (se_float_text env) r"
    and "\<forall>h'. EvRunStarted h' \<notin> set events"
  shows "\<exists>rs m torn. cut_at (se_float_text env) rs (take k bytes) m torn
    \<and> take (length (taken env (EvRunStarted h # events) w)) rs = taken env (EvRunStarted h # events) w
    \<and> length rs \<le> length (taken env (EvRunStarted h # events) w) + 1
    \<and> (length bytes \<le> k \<longrightarrow> length (taken env (EvRunStarted h # events) w) \<le> m)
    \<and> (if \<forall>r \<in> set (take m rs). kind_of r \<noteq> Some ''run-started''
       then fold_stream parse (take k bytes) nodes = Inl MissingRunStarted
       else \<exists>a. fold_stream parse (take k bytes) nodes = Inr a
         \<and> header_run_id a = run_id \<and> header_pipeline a = rh_pipeline h
         \<and> (ra_interrupted a \<longleftrightarrow> (\<forall>r \<in> set (take m rs). kind_of r \<noteq> Some ''run-finished''))
         \<and> ra_trailing_partial_discarded a = torn)"
proof -
  let ?taken = "taken env (EvRunStarted h # events) w"
  obtain rs m torn where
    read: "read_records parse (take k bytes) = Inr \<lparr>rs_records = take m rs, rs_trailing_partial_discarded = torn\<rparr>"
    and cut: "cut_at (se_float_text env) rs (take k bytes) m torn" "take (length ?taken) rs = ?taken"
      "length rs \<le> length ?taken + 1" "length bytes \<le> k \<longrightarrow> length ?taken \<le> m"
    and sub: "set rs \<subseteq> fst ` set (offered env (EvRunStarted h # events) w)"
    using stream_recovers [OF assms(1-7), of k] by blast
  have fold: "fold_stream parse (take k bytes) nodes = fold_records (take m rs) torn nodes"
    by (simp add: fold_stream_def read)
  have "set (take m rs) \<subseteq> fst ` set (offered env (EvRunStarted h # events) w)"
    using sub set_take_subset [of m rs] by (rule subset_trans [rotated])
  from fold_offered [OF this [unfolded assms(5)] assms(8), of torn nodes] cut show ?thesis
    unfolding fold by (intro exI [of _ rs] exI [of _ m] exI [of _ torn] conjI)
qed

text \<open>A stream whose only record is its first; cut before it there is no run to fold.\<close>

definition sample_header :: RunStartedHeader where
  "sample_header = \<lparr>rh_pipeline = ''p'', rh_fingerprint_structural = None, rh_fingerprint_policy = None,
     rh_fingerprint_algorithm_version = 1, rh_parameters = [], rh_data_interval = None, rh_captured_env = [],
     rh_resumed_from = None\<rparr>"

definition sample_started :: Json where
  "sample_started = event_record ''r'' 0 ''now'' 5 (EvRunStarted sample_header)"

definition sample_started_parser :: "string \<Rightarrow> unit + Json" where
  "sample_started_parser t = (if t = write_canonical plain_float_text sample_started then Inr sample_started else Inl ())"

lemma sample_started_recordable: "recordable sample_started_parser plain_float_text sample_started"
proof -
  have "json_ok sample_started"
    by (simp add: sample_started_def sample_header_def event_record_def run_started_header_def
        string_map_def json_obj_def json_nat_def json_u32_def collect_map_def number_ok_def bt_ok_def less_char_def)
  moreover have "take n xs \<noteq> xs" if "n < length xs" for n and xs :: string
    using that by (metis length_take min.absorb4 nat_less_le)
  ultimately show ?thesis
    by (auto simp: recordable_def reads_def sample_started_parser_def sample_started_def event_record_def json_obj_def)
qed

theorem fold_after_crash_witness:
  "\<exists>w bytes a. w = writer_new [] 5 ''r'' ''p'' \<and> bytes = ew_sink (emit_all sample_env [EvRunStarted sample_header] w)
     \<and> fold_stream sample_started_parser bytes [] = Inr a \<and> header_run_id a = ''r'' \<and> header_pipeline a = ''p''"
proof -
  define w :: "(string, u64) EventStreamWriter" where "w = writer_new [] 5 ''r'' ''p''"
  define bytes where "bytes = ew_sink (emit_all sample_env [EvRunStarted sample_header] w)"
  have off: "offered sample_env [EvRunStarted sample_header] w = [(sample_started, True)]"
    by (simp add: w_def sample_env_def writer_new_def emit_writer_def next_record_def sample_started_def Let_def)
  then have tak: "taken sample_env [EvRunStarted sample_header] w = [sample_started]" by (simp add: taken_def)
  have sink: "orderly_sink id (\<lambda>_. False) sample_env" "se_float_text sample_env = plain_float_text"
    by (simp_all add: orderly_sink_def sample_env_def)
  have hyp: "\<forall>(r, ok) \<in> set (offered sample_env [EvRunStarted sample_header] w). recordable sample_started_parser (se_float_text sample_env) r"
    unfolding off sink(2) using sample_started_recordable by simp
  have bytes: "bytes = id (ew_sink (emit_all sample_env [EvRunStarted sample_header] w))" by (simp add: bytes_def)
  note crash = fold_after_crash [OF _ sink(1) _ _ w_def bytes hyp, unfolded sink(2) tak, OF plain_float_text_ok,
      of "length bytes" "[]", unfolded take_all [OF order.refl]]
  from crash obtain rs m torn where c: "take 1 rs = [sample_started]" "1 \<le> m"
      "if \<forall>r \<in> set (take m rs). kind_of r \<noteq> Some ''run-started''
       then fold_stream sample_started_parser bytes [] = Inl MissingRunStarted
       else \<exists>a. fold_stream sample_started_parser bytes [] = Inr a \<and> header_run_id a = ''r''
         \<and> header_pipeline a = rh_pipeline sample_header
         \<and> (ra_interrupted a \<longleftrightarrow> (\<forall>r \<in> set (take m rs). kind_of r \<noteq> Some ''run-finished''))
         \<and> ra_trailing_partial_discarded a = torn"
    by auto
  from c(1,2) have "sample_started \<in> set (take m rs)" by (cases rs; cases m) auto
  moreover have "kind_of sample_started = Some ''run-started''" by (simp add: sample_started_def kind_of_event)
  ultimately have "\<not> (\<forall>r \<in> set (take m rs). kind_of r \<noteq> Some ''run-started'')" by blast
  with c(3) obtain a where "fold_stream sample_started_parser bytes [] = Inr a" "header_run_id a = ''r''"
    "header_pipeline a = rh_pipeline sample_header" by auto
  then show ?thesis
    by (intro exI [of _ w] exI [of _ bytes] exI [of _ a] conjI w_def bytes_def) (simp_all add: sample_header_def)
qed

end
