(* ===== verification/Contract.thy ===== *)
theory Contract
  imports Config_File Fold
begin

text \<open>
  The command surface (\<open>crates/cli/src/contract.rs\<close>): the verbs, how the flow's name is found among the
  arguments, the help text, the banner switch, the reserved flags, the typed parameters, and the verbs
  that only check or fold.  The argument parser is a library: what it makes of the arguments is a
  parameter.  What a verb prints is the first part of its result.
\<close>

section \<open>Verbs\<close>

datatype Verb = Graph_Verb | Validate | Render | Run | SingleNode | ExecNode | Resume_Verb | Fold_Verb | Prune

fun verb_name :: "Verb \<Rightarrow> string" where
  "verb_name Graph_Verb = ''graph''"
| "verb_name Validate = ''validate''"
| "verb_name Render = ''render''"
| "verb_name Run = ''run''"
| "verb_name SingleNode = ''single-node''"
| "verb_name ExecNode = ''exec-node''"
| "verb_name Resume_Verb = ''resume''"
| "verb_name Fold_Verb = ''fold''"
| "verb_name Prune = ''prune''"

fun verb_summary :: "Verb \<Rightarrow> string" where
  "verb_summary Graph_Verb = ''emit this binary's graph artifact (no run store)''"
| "verb_summary Validate = ''run assembly only and report every problem''"
| "verb_summary Render = ''render a diagram from a graph artifact (optionally overlaying a run)''"
| "verb_summary Run = ''mint run identity, open the store, and execute the pipeline''"
| "verb_summary SingleNode = ''replay a single node from a prior run''"
| "verb_summary ExecNode = ''run one attempt of one node from supplied references (machine-facing)''"
| "verb_summary Resume_Verb = ''resume a prior run (not yet implemented '' @ dash @ '' reserved for T58)''"
| "verb_summary Fold_Verb = ''fold an event stream into a run artifact (crashed-run path)''"
| "verb_summary Prune = ''delete old runs from the run store by count or age''"

definition verb_table :: "Verb list" where
  "verb_table = [Graph_Verb, Validate, Render, Run, SingleNode, ExecNode, Resume_Verb, Fold_Verb, Prune]"

definition verb_from_name :: "string \<Rightarrow> Verb option" where
  "verb_from_name name = List.find (\<lambda>v. verb_name v = name) verb_table"

text \<open>A field of twelve columns, filled on the right.\<close>

definition pad12 :: "string \<Rightarrow> string" where
  "pad12 s = s @ replicate (12 - length s) CHR '' ''"

definition help_text :: string where
  "help_text =
     ''dagr '' @ dash @ '' a pipeline binary. Available verbs:'' @ [CHR 0x0A, CHR 0x0A]
     @ concat (map (\<lambda>v. ''  '' @ pad12 (verb_name v) @ '' '' @ verb_summary v @ [CHR 0x0A]) verb_table)
     @ [CHR 0x0A] @ ''Run `dagr <verb> --help` for a verb's options.'' @ [CHR 0x0A]"

section \<open>The flow's name\<close>

definition VALUE_FLAGS :: "string list" where
  "VALUE_FLAGS =
     [''run-id'', ''store'', ''grace'', ''teardown-deadline'', ''failure-mode'', ''dagr.pool.compute-threads'',
      ''dagr.pool.blocking-threads'', ''dagr.pool.memory'', ''dagr.headroom-fraction'', ''dagr.pod-launch-retries'',
      ''dagr.metastore-store'', ''data-interval'', ''run'', ''node'', ''attempt'', ''blob-store'', ''input'',
      ''image-digest'', ''expect-structural'', ''dagr.blob.endpoint'', ''dagr.blob.bucket'', ''dagr.blob.region'',
      ''dagr.blob.prefix'', ''reclaim-blobs'', ''dagr.config'', ''dagr.profile'', ''dagr.log-format'']"

definition flag_takes_value :: "string \<Rightarrow> bool" where
  "flag_takes_value flag \<longleftrightarrow> flag \<in> set VALUE_FLAGS"

definition minus_first :: "string \<Rightarrow> bool" where
  "minus_first tok = starts_with ''-'' tok"

function first_positional :: "string list \<Rightarrow> string option" where
  "first_positional [] = None"
| "first_positional (tok # toks) =
     (case strip_prefix ''--'' tok of
        Some flag \<Rightarrow>
          first_positional (if CHR ''='' \<notin> set flag \<and> flag_takes_value flag then drop 1 toks else toks)
      | None \<Rightarrow> if minus_first tok then first_positional toks else Some tok)"
  by pat_completeness auto
termination by (relation "measure length") auto

record Cli =
  cl_verb :: Verb
  cl_flow_name :: "string option"

datatype ParseOutcome = Parsed Cli | Help ExitCode string | ParseError ExitCode string

datatype ClapErrorKind = DisplayHelp | DisplayVersion | DisplayHelpOnMissingArgumentOrSubcommand | OtherErrorKind

text \<open>What the argument parser answers: an error with its text, or the verb's name with the arguments
  after it, if there was a verb.\<close>

type_synonym clap = "argv \<Rightarrow> (ClapErrorKind \<times> string) + (string \<times> string list) option"

definition parse_cli :: "clap \<Rightarrow> argv \<Rightarrow> ParseOutcome" where
  "parse_cli clap raw_args =
     (if length raw_args \<le> 1 then Help Success help_text
      else case clap raw_args of
        Inr (Some (name, args)) \<Rightarrow>
          (case verb_from_name name of
             Some verb \<Rightarrow> Parsed \<lparr>cl_verb = verb, cl_flow_name = first_positional args\<rparr>
           | None \<Rightarrow> ParseError InvalidUsage (''unknown verb '' @ quoted name))
      | Inr None \<Rightarrow> Help Success help_text
      | Inl (kind, message) \<Rightarrow>
          if kind \<in> {DisplayHelp, DisplayVersion, DisplayHelpOnMissingArgumentOrSubcommand}
          then Help Success help_text else ParseError InvalidUsage message)"

section \<open>The banner switch\<close>

definition NO_BANNER_FLAG :: string where "NO_BANNER_FLAG = ''--no-banner''"
definition NO_BANNER_ENV :: string where "NO_BANNER_ENV = ''DAGR_NO_BANNER''"

fun split_banner_flag :: "argv \<Rightarrow> bool \<times> argv" where
  "split_banner_flag [] = (False, [])"
| "split_banner_flag (arg # argv) =
     (let (present, kept) = split_banner_flag argv
      in if arg = Some NO_BANNER_FLAG then (True, kept) else (present, arg # kept))"

text \<open>Here the environment is the one of raw bytes.\<close>

definition banner_suppressed_by_env :: "environment \<Rightarrow> bool" where
  "banner_suppressed_by_env env_os =
     (let is_set = (\<lambda>name. case env_os name of Some v \<Rightarrow> v \<noteq> [] | None \<Rightarrow> False)
      in is_set NO_BANNER_ENV \<or> is_set ''NO_COLOR'')"

section \<open>Reserved flags and parameters\<close>

definition reserved_flag_names :: "string list" where
  "reserved_flag_names =
     [''help'', ''version'', ''run-id'', ''store'', ''grace'', ''teardown-deadline'', ''failure-mode'',
      ''dagr.pool.compute-threads'', ''dagr.pool.blocking-threads'', ''dagr.pool.memory'', ''dagr.headroom-fraction'',
      ''dagr.metastore'', ''dagr.metastore-store'', ''dagr.force-roundtrip'', ''dagr.executor'', ''dagr.max-pods'',
      ''dagr.pod-launch-retries'', ''dagr.blob.endpoint'', ''dagr.blob.bucket'', ''dagr.blob.region'',
      ''dagr.blob.prefix'', ''reclaim-blobs'', ''dagr.config'', ''dagr.profile'', ''dagr.log-format'',
      ''data-interval'', ''force'', ''run'', ''no-banner'']"

datatype ParamType = Str_Param | Int_Param | Bool_Param

record ParamSpec =
  ps_name :: string
  ps_ty :: ParamType
  ps_description :: string

definition param_str :: "string \<Rightarrow> string \<Rightarrow> ParamSpec" where
  "param_str name description = \<lparr>ps_name = name, ps_ty = Str_Param, ps_description = description\<rparr>"

definition param_int :: "string \<Rightarrow> string \<Rightarrow> ParamSpec" where
  "param_int name description = \<lparr>ps_name = name, ps_ty = Int_Param, ps_description = description\<rparr>"

definition param_boolean :: "string \<Rightarrow> string \<Rightarrow> ParamSpec" where
  "param_boolean name description = \<lparr>ps_name = name, ps_ty = Bool_Param, ps_description = description\<rparr>"

record LibraryFlagCollision =
  lc_flag :: string

definition collision_display :: "LibraryFlagCollision \<Rightarrow> string" where
  "collision_display c =
     ''pipeline parameter `--'' @ lc_flag c @ ''` collides with the reserved library flag `--'' @ lc_flag c
     @ ''`; library-owned flags live in a reserved namespace and cannot be shadowed (arch.md C26) '' @ dash
     @ '' rename the pipeline parameter''"

fun check_reserved_collision :: "ParamSpec list \<Rightarrow> LibraryFlagCollision + unit" where
  "check_reserved_collision [] = Inr ()"
| "check_reserved_collision (param # params) =
     (case List.find (\<lambda>r. r = ps_name param) reserved_flag_names of
        Some reserved \<Rightarrow> Inl \<lparr>lc_flag = reserved\<rparr>
      | None \<Rightarrow> check_reserved_collision params)"

definition value_fits :: "ParamType \<Rightarrow> string \<Rightarrow> bool" where
  "value_fits ty v =
     (case ty of Str_Param \<Rightarrow> True | Int_Param \<Rightarrow> parse_i64 v \<noteq> None | Bool_Param \<Rightarrow> v = ''true'' \<or> v = ''false'')"

fun validate_params_from ::
  "ParamSpec list \<Rightarrow> (string, string) btree \<Rightarrow> (string, string) btree \<Rightarrow> ExitCode + (string, string) btree" where
  "validate_params_from [] supplied acc = Inr acc"
| "validate_params_from (spec # specs) supplied acc =
     (case bt_get supplied (ps_name spec) of
        None \<Rightarrow> validate_params_from specs supplied acc
      | Some v \<Rightarrow>
          if value_fits (ps_ty spec) v
          then validate_params_from specs supplied (bt_insert (ps_name spec) v acc)
          else Inl InvalidUsage)"

definition validate_params :: "ParamSpec list \<Rightarrow> (string, string) btree \<Rightarrow> ExitCode + (string, string) btree" where
  "validate_params specs supplied = validate_params_from specs supplied []"

section \<open>Verbs that check and fold\<close>

definition writeln :: "string \<Rightarrow> string" where "writeln s = s @ [CHR 0x0A]"

text \<open>None is a panic of assembly.\<close>

definition validate_verb :: "Pipeline \<Rightarrow> (string \<times> ExitCode) option" where
  "validate_verb pipeline =
     (case assemble pipeline of
        None \<Rightarrow> None
      | Some (Inr _) \<Rightarrow> Some (writeln ''assembly succeeded: the pipeline is valid'', Success)
      | Some (Inl problems) \<Rightarrow>
          Some (writeln (''assembly failed with '' @ show_nat (length problems) @ '' problem(s):'')
                @ concat (map (\<lambda>problem. writeln (''  - '' @ pr_message problem)) problems), AssemblyFailure))"

definition fold_verb ::
  "(string \<Rightarrow> 'p + Json) \<Rightarrow> float_text \<Rightarrow> string \<Rightarrow> string list \<Rightarrow> string \<times> ExitCode" where
  "fold_verb parse ft stream_bytes graph_nodes =
     (case fold_stream parse stream_bytes graph_nodes of
        Inr artifact \<Rightarrow> (writeln (to_canonical_json ft artifact), Success)
      | Inl e \<Rightarrow> (writeln (''cannot fold event stream: '' @ fold_error_display e), InvalidUsage))"

section \<open>What the flow's name is taken from\<close>

text \<open>The ways an argument before the flow's name is written.\<close>

datatype Argument = Valued string string | Inline string string | Toggle string

fun argument_tokens :: "Argument \<Rightarrow> string list" where
  "argument_tokens (Valued flag v) = [''--'' @ flag, v]"
| "argument_tokens (Inline flag v) = [''--'' @ flag @ ''='' @ v]"
| "argument_tokens (Toggle flag) = [''--'' @ flag]"

fun argument_ok :: "Argument \<Rightarrow> bool" where
  "argument_ok (Valued flag v) \<longleftrightarrow> CHR ''='' \<notin> set flag \<and> \<not> minus_first v"
| "argument_ok (Inline flag v) \<longleftrightarrow> True"
| "argument_ok (Toggle flag) \<longleftrightarrow> CHR ''='' \<notin> set flag \<and> \<not> flag_takes_value flag"

fun misread_value :: "Argument \<Rightarrow> string option" where
  "misread_value (Valued flag v) = (if flag_takes_value flag then None else Some v)"
| "misread_value _ = None"

text \<open>The flags whose value the configuration scans for.\<close>

definition SCANNED_FLAGS :: "string list" where
  "SCANNED_FLAGS =
     [STORE_FLAG, GRACE_FLAG, TEARDOWN_DEADLINE_FLAG, FAILURE_MODE_FLAG, POOL_COMPUTE_THREADS_FLAG,
      POOL_BLOCKING_THREADS_FLAG, POOL_MEMORY_FLAG, HEADROOM_FLAG, EXECUTOR_FLAG, MAX_PODS_FLAG,
      POD_LAUNCH_RETRIES_FLAG, BLOB_ENDPOINT_FLAG, BLOB_BUCKET_FLAG, BLOB_REGION_FLAG, BLOB_PREFIX_FLAG,
      CONFIG_FLAG, PROFILE_FLAG, LOG_FORMAT_FLAG]"

lemmas scanned_flags = SCANNED_FLAGS_def STORE_FLAG_def GRACE_FLAG_def TEARDOWN_DEADLINE_FLAG_def FAILURE_MODE_FLAG_def
  POOL_COMPUTE_THREADS_FLAG_def POOL_BLOCKING_THREADS_FLAG_def POOL_MEMORY_FLAG_def HEADROOM_FLAG_def EXECUTOR_FLAG_def
  MAX_PODS_FLAG_def POD_LAUNCH_RETRIES_FLAG_def BLOB_ENDPOINT_FLAG_def BLOB_BUCKET_FLAG_def BLOB_REGION_FLAG_def
  BLOB_PREFIX_FLAG_def CONFIG_FLAG_def PROFILE_FLAG_def LOG_FORMAT_FLAG_def

lemma scanned_reserved: "\<forall>flag \<in> set SCANNED_FLAGS. drop 2 flag \<in> set reserved_flag_names"
  by (simp add: scanned_flags reserved_flag_names_def)

lemma scanned_unlisted: "filter (\<lambda>flag. \<not> flag_takes_value (drop 2 flag)) SCANNED_FLAGS = [EXECUTOR_FLAG, MAX_PODS_FLAG]"
  by (simp add: scanned_flags flag_takes_value_def VALUE_FLAGS_def)

lemma not_minus: "\<not> minus_first v \<Longrightarrow> strip_prefix ''--'' v = None"
  by (cases v) (auto simp: minus_first_def starts_with_def)

lemma first_positional_plain: "\<not> minus_first v \<Longrightarrow> first_positional (v # toks) = Some v"
  by (simp add: not_minus)

lemma first_positional_argument:
  "argument_ok a \<Longrightarrow> first_positional (argument_tokens a @ toks) =
     (case misread_value a of Some v \<Rightarrow> Some v | None \<Rightarrow> first_positional toks)"
  by (cases a) (auto simp: first_positional_plain not_minus)

text \<open>
  C8. Where the flow's name is found: after any flags, with a value beside or inside them or none,
  the name is the first other word, except that the value of a flag that is not in the table of
  valued flags is taken for it; of the flags whose value the configuration scans for, all reserved,
  exactly the executor and the pod ceiling are not in the table.
\<close>

theorem flow_name_found:
  assumes "list_all argument_ok args" "\<not> minus_first name"
  shows "first_positional (concat (map argument_tokens args) @ name # rest) =
      Some (case List.map_filter misread_value args of v # _ \<Rightarrow> v | [] \<Rightarrow> name)
    \<and> filter (\<lambda>flag. \<not> flag_takes_value (drop 2 flag)) SCANNED_FLAGS = [EXECUTOR_FLAG, MAX_PODS_FLAG]
    \<and> (\<forall>flag \<in> set SCANNED_FLAGS. drop 2 flag \<in> set reserved_flag_names)"
proof -
  have "first_positional (concat (map argument_tokens args) @ name # rest) =
      Some (case List.map_filter misread_value args of v # _ \<Rightarrow> v | [] \<Rightarrow> name)"
    using assms(1)
  proof (induction args)
    case Nil
    show ?case using assms(2) by (simp add: not_minus map_filter_simps)
  next
    case (Cons a args)
    then show ?case by (simp add: first_positional_argument map_filter_simps split: option.split)
  qed
  then show ?thesis using scanned_unlisted scanned_reserved by blast
qed

text \<open>\<open>run --store s --dagr.executor k8s etl\<close> selects a flow called \<open>k8s\<close>; the executor is read all the same.\<close>

theorem flow_name_found_witness:
  "first_positional [''--store'', ''s'', ''--dagr.executor'', ''k8s'', ''etl''] = Some ''k8s''
   \<and> first_positional [''--store'', ''s'', ''--dagr.executor=k8s'', ''etl''] = Some ''etl''
   \<and> scan_flag EXECUTOR_FLAG (map Some [''--store'', ''s'', ''--dagr.executor'', ''k8s'', ''etl'']) = Inr (Some ''k8s'')"
proof -
  have m: "\<not> minus_first ''s''" "\<not> minus_first ''etl''" "\<not> minus_first ''k8s''" by (simp_all add: minus_first_def starts_with_def)
  have t: "flag_takes_value ''store''" "\<not> flag_takes_value ''dagr.executor''"
    by (simp_all add: flag_takes_value_def VALUE_FLAGS_def)
  have "first_positional [''--store'', ''s'', ''--dagr.executor'', ''k8s'', ''etl''] = Some ''k8s''"
    using flow_name_found [of "[Valued ''store'' ''s'', Valued ''dagr.executor'' ''k8s'']" "''etl''" "[]"] m t
    by (simp add: map_filter_simps)
  moreover have "first_positional [''--store'', ''s'', ''--dagr.executor=k8s'', ''etl''] = Some ''etl''"
    using flow_name_found [of "[Valued ''store'' ''s'', Inline ''dagr.executor'' ''k8s'']" "''etl''" "[]"] m t
    by (simp add: map_filter_simps)
  ultimately show ?thesis by (simp add: EXECUTOR_FLAG_def)
qed

section \<open>Parameters\<close>

lemma check_reserved_exact:
  "check_reserved_collision params = Inr () \<longleftrightarrow> (\<forall>param \<in> set params. ps_name param \<notin> set reserved_flag_names)"
proof (induction params)
  case (Cons param params)
  have "List.find (\<lambda>r. r = k) ks = (if k \<in> set ks then Some k else None)" for k and ks :: "string list"
    by (induction ks) auto
  with Cons show ?case by simp
qed simp

lemma validate_params_exact:
  "validate_params_from specs supplied acc =
     (if \<exists>spec \<in> set specs. \<exists>v. bt_get supplied (ps_name spec) = Some v \<and> \<not> value_fits (ps_ty spec) v
      then Inl InvalidUsage
      else Inr (fold (\<lambda>spec m. case bt_get supplied (ps_name spec) of Some v \<Rightarrow> bt_insert (ps_name spec) v m | None \<Rightarrow> m)
                  specs acc))"
  by (induction specs supplied acc rule: validate_params_from.induct) (auto split: option.splits)

end
