(* ===== verification/Stream_Schema.thy ===== *)
theory Stream_Schema
  imports Event_Stream
begin

text \<open>
  The published schema of the event stream (\<open>schemas/event-stream/v1.schema.json\<close>) as a predicate on
  JSON values: the required keys of every record and of each kind, and the types of their values; its
  bounds on lengths and numbers are left out.  Every record the writer builds conforms to it.
\<close>

section \<open>The schema\<close>

definition has_field :: "string \<Rightarrow> (Json \<Rightarrow> bool) \<Rightarrow> Json \<Rightarrow> bool" where
  "has_field k P r = (case j_get k r of Some v \<Rightarrow> P v | None \<Rightarrow> False)"

definition may_have :: "string \<Rightarrow> (Json \<Rightarrow> bool) \<Rightarrow> Json \<Rightarrow> bool" where
  "may_have k P r = (case j_get k r of Some v \<Rightarrow> P v | None \<Rightarrow> True)"

definition a_string :: "Json \<Rightarrow> bool" where
  "a_string v = (case v of JString _ \<Rightarrow> True | _ \<Rightarrow> False)"

definition an_integer :: "Json \<Rightarrow> bool" where
  "an_integer v = (case v of JNumber (PosInt _) \<Rightarrow> True | _ \<Rightarrow> False)"

definition a_scalar :: "Json \<Rightarrow> bool" where
  "a_scalar v = (case v of JString _ \<Rightarrow> True | JNumber _ \<Rightarrow> True | JBool _ \<Rightarrow> True | _ \<Rightarrow> False)"

definition an_object :: "(Json \<Rightarrow> bool) \<Rightarrow> Json \<Rightarrow> bool" where
  "an_object P v = (case v of JObject m \<Rightarrow> list_all (\<lambda>kv. P (snd kv)) m | _ \<Rightarrow> False)"

definition an_array :: "(Json \<Rightarrow> bool) \<Rightarrow> Json \<Rightarrow> bool" where
  "an_array P v = (case v of JArray vs \<Rightarrow> list_all P vs | _ \<Rightarrow> False)"

abbreviation any_object :: "Json \<Rightarrow> bool" where
  "any_object \<equiv> an_object (\<lambda>_. True)"

definition stream_kinds :: "string list" where
  "stream_kinds = [''run-started'', ''node-ready'', ''node-admitted'', ''attempt-started'', ''attempt-succeeded'',
     ''attempt-failed'', ''attempt-outcome'', ''output-produced'', ''attempt-submitted'', ''node-terminal'',
     ''zombie-at-exit'', ''run-finished'']"

definition header_conforms :: "Json \<Rightarrow> bool" where
  "header_conforms h \<longleftrightarrow> any_object h
     \<and> has_field ''run_id'' a_string h \<and> has_field ''pipeline'' a_string h
     \<and> has_field ''fingerprint_structural'' a_string h \<and> has_field ''fingerprint_policy'' a_string h
     \<and> has_field ''fingerprint_algorithm_version'' an_integer h
     \<and> has_field ''parameters'' any_object h
     \<and> has_field ''data_interval'' (\<lambda>v. v = JNull \<or> any_object v) h
     \<and> has_field ''captured_environment'' (an_object a_scalar) h
     \<and> has_field ''resume_lineage'' (\<lambda>v. v = JNull \<or> any_object v) h
     \<and> j_get ''overall_outcome'' h = None \<and> j_get ''summary'' h = None"

definition reference_conforms :: "Json \<Rightarrow> bool" where
  "reference_conforms v \<longleftrightarrow> any_object v \<and> has_field ''uri'' a_string v \<and> may_have ''content_hash'' a_string v"

definition body_conforms :: "string \<Rightarrow> Json \<Rightarrow> bool" where
  "body_conforms kind r \<longleftrightarrow>
     (if kind = ''run-started'' then has_field ''header'' header_conforms r
      else if kind = ''zombie-at-exit'' then has_field ''node'' a_string r \<and> has_field ''attempt'' an_integer r
      else if kind = ''output-produced'' then
        has_field ''node'' a_string r \<and> has_field ''attempt'' an_integer r \<and> has_field ''uri'' a_string r
        \<and> has_field ''produced_at_offset_ns'' an_integer r \<and> has_field ''originating_run'' a_string r
        \<and> may_have ''content_hash'' a_string r \<and> may_have ''size_bytes'' an_integer r \<and> may_have ''output_kind'' a_string r
      else if kind = ''attempt-submitted'' then
        has_field ''node'' a_string r \<and> has_field ''attempt'' an_integer r
        \<and> has_field ''inputs'' (an_array reference_conforms) r
        \<and> list_all (\<lambda>k. may_have k a_string r)
            [''executor'', ''target_name'', ''observed_name'', ''observed_uid'', ''observed_host'',
             ''structural_fingerprint'', ''policy_hash'', ''tool_version'', ''image_digest'']
      else if kind = ''attempt-outcome'' then may_have ''inputs'' (an_array reference_conforms) r
      else True)"

definition conforms :: "Json \<Rightarrow> bool" where
  "conforms r \<longleftrightarrow> any_object r
     \<and> j_get ''schema_version'' r = Some (JString ''dagr.event-stream@1'')
     \<and> has_field ''run_id'' a_string r \<and> has_field ''seq'' an_integer r
     \<and> has_field ''wall'' a_string r \<and> has_field ''offset_ns'' an_integer r
     \<and> (case j_get ''kind'' r of Some (JString kind) \<Rightarrow> kind \<in> set stream_kinds \<and> body_conforms kind r | _ \<Rightarrow> False)"

section \<open>What the writer builds conforms\<close>

lemma get_fold_insert:
  "bt_ok m \<Longrightarrow> bt_get (fold (\<lambda>(k, v). bt_insert k v) kvs m) key
     = (case map_of (rev kvs) key of Some v \<Rightarrow> Some v | None \<Rightarrow> bt_get m key)"
proof (induction kvs arbitrary: m)
  case (Cons kv kvs)
  obtain k v where kv: "kv = (k, v)" by fastforce
  have "bt_ok (bt_insert k v m)" using Cons.prems by simp
  from Cons.IH [OF this] Cons.prems show ?case by (simp add: kv map_add_def split: option.split)
qed simp

lemma get_obj: "j_get key (json_obj kvs) = map_of (rev kvs) key"
  by (simp add: j_get_def json_obj_def collect_map_def get_fold_insert split: option.split)

lemma rev_opt_field [simp]: "rev (opt_field name f x) = opt_field name f x"
  by (simp add: opt_field_def split: option.split)

lemma map_of_opt_field [simp]: "map_of (opt_field name f x) key = (if key = name then map_option f x else None)"
  by (simp add: opt_field_def split: option.split)

lemma object_values [simp]: "any_object (json_obj kvs)"
  by (simp add: an_object_def json_obj_def list_all_iff)

lemma value_types [simp]:
  "a_string (JString s)" "an_integer (json_nat n)" "an_integer (json_u32 k)" "any_object (string_map m)"
  by (simp_all add: a_string_def an_integer_def json_nat_def json_u32_def string_map_def)

lemma insert_values: "set (bt_insert k v m) \<subseteq> insert (k, v) (set m)"
  by (induction k v m rule: bt_insert.induct) auto

lemma collected_values:
  fixes kvs :: "(string \<times> 'v) list"
  assumes "\<forall>kv \<in> set kvs. P (snd kv)" "\<forall>kv \<in> set m. P (snd kv)"
  shows "\<forall>kv \<in> set (fold (\<lambda>(k, v). bt_insert k v) kvs m). P (snd kv)"
  using assms
proof (induction kvs arbitrary: m)
  case (Cons kv kvs)
  have "\<forall>x \<in> set (bt_insert (fst kv) (snd kv) m). P (snd x)"
    using insert_values [of "fst kv" "snd kv" m] Cons.prems by fastforce
  with Cons show ?case by (simp add: case_prod_unfold)
qed simp

lemma string_values [simp]: "an_object a_scalar (string_map m)"
proof -
  have "\<forall>kv \<in> set (fold (\<lambda>(k, v). bt_insert k v) (map (\<lambda>(k, v). (k, JString v)) m) []). a_scalar (snd kv)"
    by (rule collected_values) (auto simp: a_scalar_def)
  then show ?thesis by (simp add: an_object_def string_map_def json_obj_def collect_map_def list_all_iff)
qed

lemma header_conforming [simp]: "header_conforms (run_started_header h run_id)"
  by (simp add: header_conforms_def run_started_header_def has_field_def get_obj map_add_def split: option.split)

lemma reference_conforming [simp]: "reference_conforms (consumed_input_value x)"
  by (simp add: reference_conforms_def consumed_input_value_def has_field_def may_have_def get_obj map_add_def split: option.split)

lemma references_conforming [simp]: "an_array reference_conforms (JArray (map consumed_input_value xs))"
  by (simp add: an_array_def list_all_iff)

lemma get_body:
  assumes "event_wire ev run_id = (kind, fs)" "key \<notin> set envelope_keys"
  shows "j_get key (event_record run_id seq wall ns ev) = map_of (rev fs) key"
  using assms by (auto simp: event_record_def get_obj map_add_def envelope_keys_def split: option.split)

lemma body_conforming: "body_conforms (fst (event_wire ev run_id)) (event_record run_id seq wall ns ev)"
proof (cases ev)
  case (EvAttemptOutcome r)
  have "may_have ''inputs'' (an_array reference_conforms) (event_record run_id seq wall ns (EvAttemptOutcome r))"
    by (simp add: may_have_def get_body [OF prod.collapse [symmetric]] envelope_keys_def attempt_outcome_fields_def map_add_def
        split: option.split)
  then show ?thesis by (simp add: EvAttemptOutcome body_conforms_def)
next
  case (EvAttemptSubmitted r)
  then show ?thesis
    by (simp add: body_conforms_def has_field_def may_have_def get_body [OF prod.collapse [symmetric]] envelope_keys_def
        attempt_submitted_fields_def map_add_def split: option.split)
next
  case (EvOutputProduced r)
  then show ?thesis
    by (simp add: body_conforms_def has_field_def may_have_def get_body [OF prod.collapse [symmetric]] envelope_keys_def
        output_produced_fields_def map_add_def split: option.split)
qed (simp_all add: body_conforms_def has_field_def get_body [OF prod.collapse [symmetric]] envelope_keys_def node_attempt_fields_def)

lemma record_conforms: "conforms (event_record run_id seq wall ns ev)"
proof -
  have "any_object (event_record run_id seq wall ns ev)"
    by (simp add: event_record_def split: prod.split)
  moreover have "fst (event_wire ev run_id) \<in> set stream_kinds"
    by (cases ev) (simp_all add: stream_kinds_def)
  ultimately show ?thesis
    by (simp add: conforms_def record_envelope body_conforming has_field_def EVENT_STREAM_SCHEMA_VERSION_def)
qed

section \<open>The lines a sink took\<close>

text \<open>A sink that can tell which lines it took; it may refuse any of them.\<close>

definition keeps_lines :: "('s \<Rightarrow> string list) \<Rightarrow> ('s, 'c, 'e) StreamEnv \<Rightarrow> bool" where
  "keeps_lines lines_of env \<longleftrightarrow>
     (\<forall>line s. case se_append_line env line s of (answer, s') \<Rightarrow>
        lines_of s' = (if isl answer then lines_of s else lines_of s @ [line]))
     \<and> (\<forall>s. lines_of (snd (se_flush env s)) = lines_of s)"

lemma lines_taken:
  assumes "keeps_lines lines_of env"
  shows "lines_of (ew_sink (emit_all env events w)) = lines_of (ew_sink w) @ map (line_of (se_float_text env)) (taken env events w)"
proof (induction events arbitrary: w)
  case (Cons ev events)
  have "lines_of (ew_sink (snd (emit_writer env ev w))) = lines_of (ew_sink w)
      @ (if isl (fst (emit_writer env ev w)) then [] else [line_of (se_float_text env) (next_record env ev w)])"
    by (rule emit_writer_cases [of env ev w]) (use assms in \<open>fastforce simp: keeps_lines_def split: prod.splits\<close>)+
  then show ?case by (simp add: Cons taken_Cons)
qed simp

lemma taken_nth:
  assumes "i < length (taken env events w)"
  shows "\<exists>ev \<in> set events. \<exists>wall ns. taken env events w ! i = event_record (ew_run_id w) (ew_next_seq w + of_nat i) wall ns ev"
  using assms
proof (induction events arbitrary: w i)
  case (Cons ev events)
  let ?w = "snd (emit_writer env ev w)"
  show ?case
  proof (rule emit_writer_cases [of env ev w])
    fix s assume t: "fst (emit_writer env ev w) = Inr ()" "ew_next_seq ?w = ew_next_seq w + 1" "ew_run_id ?w = ew_run_id w"
    have all: "taken env (ev # events) w = next_record env ev w # taken env events ?w" by (simp add: taken_Cons t(1))
    show ?thesis
    proof (cases i)
      case 0
      then show ?thesis using next_record_event [of env ev w] by (simp add: all)
    next
      case (Suc j)
      with Cons.prems Cons.IH [of j ?w] show ?thesis unfolding all t(2,3) by (auto simp: add.assoc)
    qed
  next
    fix s e assume t: "isl (fst (emit_writer env ev w))" "ew_next_seq ?w = ew_next_seq w" "ew_run_id ?w = ew_run_id w"
    have all: "taken env (ev # events) w = taken env events ?w" by (simp add: taken_Cons t(1))
    show ?thesis using Cons.prems Cons.IH [of i ?w] unfolding all t(2,3) by auto
  qed
qed simp

end
