(* ===== verification/Run_Record.thy ===== *)
theory Run_Record
  imports Drive Fold Stream_Schema
begin

text \<open>
  What a drive leaves on disk.  Between its first and last record a drive writes only records of
  nodes, attempts and outputs; so the stream's file, cut at any byte, folds to an artifact that is
  interrupted exactly when the last record did not make it.
\<close>

section \<open>Well-typed records\<close>

lemma collect_map_ok_values: "list_all (\<lambda>kv. json_ok (snd kv)) kvs \<Longrightarrow> list_all (\<lambda>kv. json_ok (snd kv)) (collect_map kvs)"
proof -
  have insert: "list_all (\<lambda>kv. json_ok (snd kv)) (bt_insert k v m)"
    if "list_all (\<lambda>kv. json_ok (snd kv)) m" "json_ok v" for k v m
    using that by (induction k v m rule: bt_insert.induct) auto
  have "list_all (\<lambda>kv. json_ok (snd kv)) (fold (\<lambda>(k, v). bt_insert k v) kvs m)"
    if "list_all (\<lambda>kv. json_ok (snd kv)) kvs" "list_all (\<lambda>kv. json_ok (snd kv)) m" for m
    using that by (induction kvs arbitrary: m) (auto simp: insert)
  then show "list_all (\<lambda>kv. json_ok (snd kv)) kvs \<Longrightarrow> list_all (\<lambda>kv. json_ok (snd kv)) (collect_map kvs)"
    by (simp add: collect_map_def)
qed

lemma json_obj_ok [simp]: "list_all (\<lambda>kv. json_ok (snd kv)) kvs \<Longrightarrow> json_ok (json_obj kvs)"
  by (simp add: json_obj_def collect_map_ok_values)

lemma opt_field_ok [simp]: "(\<And>v. x = Some v \<Longrightarrow> json_ok (f v)) \<Longrightarrow> list_all (\<lambda>kv. json_ok (snd kv)) (opt_field name f x)"
  by (simp add: opt_field_def split: option.split)

lemma number_values_ok [simp]: "json_ok (json_nat n)" "json_ok (json_u32 k)"
  by (simp_all add: json_nat_def json_u32_def number_ok_def)

lemma string_map_ok [simp]: "json_ok (string_map m)"
  unfolding string_map_def by (rule json_obj_ok) (simp add: list_all_iff case_prod_unfold)

lemma consumed_ok [simp]: "json_ok (consumed_input_value x)"
  unfolding consumed_input_value_def by (rule json_obj_ok) simp

lemma meta_ok [simp]: "json_ok (meta_to_value m)"
  unfolding meta_to_value_def by (rule json_obj_ok) simp

lemma header_ok [simp]: "json_ok (run_started_header h run_id)"
  unfolding run_started_header_def by (rule json_obj_ok) (simp split: option.split)

text \<open>The only values a record carries as they are given: those of an attempt's outcome.\<close>

definition outcome_typed :: "AttemptOutcomeRecord \<Rightarrow> bool" where
  "outcome_typed r \<longleftrightarrow> list_all (\<lambda>x. pred_option json_ok x)
     [ar_error r, ar_metrics r, ar_cost_declared r, ar_cost_measured r, ar_durable_reference r, ar_durable_reference_meta r]"

definition event_typed :: "Event \<Rightarrow> bool" where
  "event_typed ev \<longleftrightarrow> (case ev of EvAttemptOutcome r \<Rightarrow> outcome_typed r | _ \<Rightarrow> True)"

lemma event_record_ok:
  assumes "event_typed ev" shows "json_ok (event_record run_id seq wall ns ev)"
proof -
  have "list_all (\<lambda>kv. json_ok (snd kv)) (snd (event_wire ev run_id))"
    using assms
    by (cases ev) (auto simp: event_typed_def outcome_typed_def node_attempt_fields_def attempt_outcome_fields_def
        output_produced_fields_def attempt_submitted_fields_def list_all_iff pred_option_def opt_field_def split: option.splits)
  then show ?thesis by (cases "event_wire ev run_id") (auto simp: event_record_def intro!: json_obj_ok)
qed

lemma outcome_new_typed [simp]: "outcome_typed (attempt_outcome_record_new node attempt status)"
  by (simp add: outcome_typed_def attempt_outcome_record_new_def)

lemma outcome_setters_typed [simp]:
  "outcome_typed (record_consumed_inputs inputs r) = outcome_typed r"
  "outcome_typed r \<Longrightarrow> outcome_typed (record_durable_reference reference r)"
  "outcome_typed r \<Longrightarrow> outcome_typed (record_durable_reference_meta meta r)"
  "outcome_typed (r\<lparr>ar_message := message\<rparr>) = outcome_typed r"
  by (auto simp: outcome_typed_def record_consumed_inputs_def record_durable_reference_def record_durable_reference_meta_def
      pred_option_def)

lemma closing_typed: "closing_outcome_record node ev = Some r \<Longrightarrow> outcome_typed r"
  by (auto simp: closing_outcome_record_def split: AttemptEvent.splits)

section \<open>The records between the first and the last\<close>

definition inner_event :: "Event \<Rightarrow> bool" where
  "inner_event ev \<longleftrightarrow> event_typed ev \<and> (\<forall>h outcome. ev \<noteq> EvRunStarted h \<and> ev \<noteq> EvRunFinished outcome)"

definition appended :: "Event list \<Rightarrow> Event list \<Rightarrow> bool" where
  "appended pre evs \<longleftrightarrow> (\<exists>mid. evs = pre @ mid \<and> list_all inner_event mid)"

lemma appended_refl [simp]: "appended pre pre"
  by (simp add: appended_def)

lemma appended_snoc [simp]: "appended pre evs \<Longrightarrow> inner_event ev \<Longrightarrow> appended pre (evs @ [ev])"
  by (auto simp: appended_def)

abbreviation framed :: "Event list \<Rightarrow> LoopState \<Rightarrow> bool" where
  "framed pre s \<equiv> appended pre (ls_log s)"

lemma inner_attempt_event [simp]: "inner_event (attempt_event_wire ev)"
  by (cases ev) (simp_all add: inner_event_def event_typed_def)

lemma inner_node_events [simp]:
  "inner_event (EvNodeReady node)" "inner_event (EvNodeTerminal node st)" "outcome_typed r \<Longrightarrow> inner_event (EvAttemptOutcome r)"
  "inner_event (EvOutputProduced output)" "inner_event (EvZombieAtExit node attempt)"
  by (simp_all add: inner_event_def event_typed_def)

lemma framed_fold: "(\<And>x s. framed pre s \<Longrightarrow> framed pre (f x s)) \<Longrightarrow> framed pre s \<Longrightarrow> framed pre (fold f xs s)"
  by (induction xs arbitrary: s) simp_all

lemma framed_write [simp]: "framed pre s \<Longrightarrow> inner_event ev \<Longrightarrow> framed pre (write_log ev s)"
  by (simp add: write_log_def)

lemma same_log [simp]:
  "ls_log (count_in s) = ls_log s" "ls_log (send d s) = ls_log s" "ls_log (record_terminal node st s) = ls_log s"
  "ls_log (push_zombie node attempt s) = ls_log s" "ls_log (cancel_node node s) = ls_log s"
  "ls_log (reject_over_demand node s) = ls_log s" "ls_log (reject_zombie_pinned node s) = ls_log s"
  "ls_log (snd (arm_unkillable_deadline e node cls fate permit s)) = ls_log s"
  by (simp_all add: count_in_def send_def record_terminal_def push_zombie_def cancel_node_def reject_over_demand_def
      reject_zombie_pinned_def arm_unkillable_deadline_def Let_def split: option.split)

lemma framed_admit [simp]: "framed pre s \<Longrightarrow> framed pre (admit e node permit s)"
  by (simp add: admit_def write_log_def arm_unkillable_deadline_def Let_def split: option.split prod.split)

lemma framed_offer [simp]: "framed pre s \<Longrightarrow> framed pre (offer_or_pend e node s)"
  by (simp add: offer_or_pend_def Let_def split: option.split prod.split)

lemma framed_drain_at: "framed pre s \<Longrightarrow> framed pre (drain_pending_at e i s)"
proof (induction e i s rule: drain_pending_at.induct)
  case (1 e i s)
  then show ?case
    by (subst drain_pending_at.simps) (auto simp: Let_def split: option.split prod.split)
qed

lemma framed_drain [simp]: "framed pre s \<Longrightarrow> framed pre (drain_pending e s)"
  by (simp add: drain_pending_def framed_drain_at)

lemma framed_decision: "framed pre s \<Longrightarrow> framed pre (apply_decision e decision s)"
  by (simp add: apply_decision_def Let_def split: Decision.split option.split)

lemma framed_notify [simp]: "framed pre s \<Longrightarrow> framed pre (notify_and_apply e node st s)"
  by (simp add: notify_and_apply_def apply_decisions_def framed_decision framed_fold split: prod.split)

lemma cancel_all_log [simp]: "ls_log (cancel_all names s) = ls_log s"
proof -
  have "ls_log (fold cancel_node names s) = ls_log s" by (induction names arbitrary: s) simp_all
  then show ?thesis by (simp add: cancel_all_def)
qed

lemma enter_cancellation_log [simp]: "ls_log (enter_cancellation e origin full s) = ls_log s"
  by (simp add: enter_cancellation_def cancel_pending_default_nodes_def Let_def split: prod.split)

lemma framed_record_event:
  "framed pre (fst x) \<Longrightarrow> framed pre (fst (record_event e d reclassified consumed ev x))"
  by (cases x) (auto simp: record_event_def write_attempt_event_def Let_def closing_typed split: option.split)

lemma framed_record_outcome [simp]: "framed pre s \<Longrightarrow> framed pre (snd (record_attempt_outcome e d s))"
proof -
  assume s: "framed pre s"
  have folded: "framed pre (fst (fold (record_event e d r c) evs x))" if "framed pre (fst x)" for r c evs x
    using that by (induction evs arbitrary: x) (simp_all add: framed_record_event)
  define r where "r \<longleftrightarrow> ls_draining s \<and> bt_get (ls_terminal s) (ad_node d) = None"
  define c where "c = consumed_inputs_for (le_pipeline e) (ad_node d) (ls_produced s)"
  obtain s1 k where f: "fold (record_event e d r c) (ad_events d) (s, 1) = (s1, k)" by fastforce
  have "framed pre s1" using folded [of "(s, 1)" r c "ad_events d"] s by (simp add: f)
  then show ?thesis
    unfolding record_attempt_outcome_def Let_def r_def [symmetric] c_def [symmetric] f by (cases r) simp_all
qed

lemma framed_settle [simp]: "framed pre s \<Longrightarrow> framed pre (settle e d s)"
proof -
  assume s: "framed pre s"
  let ?s = "s\<lparr>ls_in_flight := ls_in_flight s - 1, ls_live := removeAll (ad_node d) (ls_live s)\<rparr>"
  have "framed pre (snd (record_attempt_outcome e d ?s))" using s by simp
  then show ?thesis
    by (cases "record_attempt_outcome e d ?s") (auto simp: settle_def Let_def)
qed

lemma mark_unkillable_log: "mark_unkillable_timeout node cell fate s = (m, s') \<Longrightarrow> ls_log s' = ls_log s"
  by (auto simp: mark_unkillable_timeout_def Let_def split: option.splits prod.splits if_splits)

lemma framed_done [simp]: "framed pre s \<Longrightarrow> framed pre (handle_done e d s)"
  by (auto simp: handle_done_def Let_def dest: mark_unkillable_log split: DoneKind.split option.split prod.split)

lemma reject_all_log [simp]: "ls_log (reject_all_pinned s) = ls_log s"
proof -
  have "ls_log (fold reject_zombie_pinned ns s) = ls_log s" for ns s by (induction ns arbitrary: s) simp_all
  then show ?thesis by (simp add: reject_all_pinned_def)
qed

lemma loop_head_log [simp]: "ls_log (loop_head e s) = ls_log s"
  by (simp add: loop_head_def Let_def split: option.split)

lemma framed_turn [simp]: "framed pre s \<Longrightarrow> framed pre (loop_turn e s)"
  by (auto simp: loop_turn_def nothing_received_def Let_def split: Phase.split option.split list.split)

lemma framed_act: "framed pre s \<Longrightarrow> framed pre (act e a s)"
  by (cases a) (auto simp: attempt_returns_def hold_release_def attempt_reports_def timer_fires_def interrupt_def
      trigger_request_def set_fate_def Let_def split: option.split PermitHold.split)

lemma framed_start: "framed pre s \<Longrightarrow> framed pre (loop_start e pre_satisfied s)"
proof -
  assume s: "framed pre s"
  have "framed pre (pre_satisfy e x s)" if "framed pre s" for x s
    using that by (cases x) (simp add: pre_satisfy_def Let_def)
  moreover have "framed pre (offer_initial e i s)" if "framed pre s" for i s
    using that by (simp add: offer_initial_def split: option.split)
  ultimately show ?thesis using s by (simp add: loop_start_def Let_def framed_fold)
qed

lemma framed_end: "framed pre s \<Longrightarrow> framed pre (loop_end s)"
proof -
  assume s: "framed pre s"
  have "framed pre (abandon_node n s)" if "framed pre s" for n s
    using that by (simp add: abandon_node_def)
  moreover have "framed pre ((\<lambda>(node, attempt). write_log (EvZombieAtExit node attempt)) z s)" if "framed pre s" for z s
    using that by (cases z) simp
  ultimately show ?thesis using s by (simp add: loop_end_def abandon_leftover_def Let_def framed_fold)
qed

lemma run_loop_appended:
  assumes "run_loop e tracker adm runners fates tr pre_satisfied now acts evs = Some r"
  shows "appended evs (lr_log r)"
proof -
  let ?s0 = "loop_start e pre_satisfied (initial_loop_state tracker adm runners fates tr now evs)"
  have "framed evs (initial_loop_state tracker adm runners fates tr now evs)"
    by (simp add: initial_loop_state_def split: prod.split)
  then have "framed evs (loop_end (fold (act e) acts ?s0))"
    by (intro framed_end framed_fold framed_act framed_start)
  then show ?thesis using assms by (auto simp: run_loop_def Let_def split: if_splits)
qed

section \<open>The records of a drive\<close>

lemma teardown_appended: "appended evs (td_log t) \<Longrightarrow> appended evs (td_log (run_teardown_phase p runners cov t))"
proof -
  have wr: "appended evs (td_log (td_write ev t))" if "appended evs (td_log t)" "inner_event ev" for ev t
    using that by (simp add: td_write_def)
  have rec: "td_log (td_record node st t) = td_log t" for node st t by (simp add: td_record_def)
  have "appended evs (td_log (teardown_event d b ev t))" if "appended evs (td_log t)" for d b ev t
    using that by (simp add: teardown_event_def Let_def wr closing_typed split: option.split)
  then have events: "appended evs (td_log (fold (teardown_event d b) xs t))" if "appended evs (td_log t)" for d b xs t
    using that by (induction xs arbitrary: t) simp_all
  have "appended evs (td_log (run_teardown runners cov nc t))" if "appended evs (td_log t)" for nc t
    using that by (cases nc)
      (simp add: run_teardown_def record_teardown_outcome_def Let_def wr rec events split: option.split prod.split)
  then have "appended evs (td_log (fold (run_teardown runners cov) ncs t))" if "appended evs (td_log t)" for ncs t
    using that by (induction ncs arbitrary: t) simp_all
  then show "appended evs (td_log t) \<Longrightarrow> appended evs (td_log (run_teardown_phase p runners cov t))"
    by (simp add: run_teardown_phase_def)
qed

lemma drive_plan_log:
  assumes "drive_plan c run_id plan a world evs = Some r"
  shows "\<exists>mid. dr_log r = evs @ mid @ [EvRunFinished (dr_outcome r)] \<and> list_all inner_event mid"
  using assms
proof (cases rule: drive_plan_cases)
  case 1
  then show ?thesis by (intro exI [of _ "[]"]) (simp add: ends_early_def)
next
  case (2 lr)
  have "appended evs (td_log \<lparr>td_log = lr_log lr, td_terminal = lr_terminal lr\<rparr>)" using run_loop_appended [OF 2(4)] by simp
  from teardown_appended [OF this] show ?thesis
    unfolding 2(5) after_loop_def Let_def by (auto simp: appended_def)
qed

text \<open>What a drive records, when it comes to its end: early, or after the loop.\<close>

definition drive_records ::
  "RunConfig \<Rightarrow> string \<Rightarrow> Problem list + RunPlan \<Rightarrow> string list \<Rightarrow> DriveWorld \<Rightarrow> DriveRecords option" where
  "drive_records c pname assembled allow world =
     (let captured = capture_env (dw_env world) allow
      in case assembled of
           Inl _ \<Rightarrow> Some (ends_early [EvRunStarted (header_of c pname captured None)] AssemblyFailed)
         | Inr plan \<Rightarrow>
             (case assemble (pl_pipeline plan) of
                Some (Inr a) \<Rightarrow> drive_plan c (resolve_run_id (dw_minted world) c) plan a world
                  [EvRunStarted (header_of c pname captured (Some (aa_fingerprint a)))]
              | _ \<Rightarrow> None))"

lemma drive_recorded:
  assumes "drive env sink clock c pname assembled allow world = Finished rep w"
  obtains r where "drive_records c pname assembled allow world = Some r"
    "finish_drive env (resolve_run_id (dw_minted world) c)
       (stream_path (dc_base c) (writer_new sink clock (resolve_run_id (dw_minted world) c) pname))
       (writer_new sink clock (resolve_run_id (dw_minted world) c) pname) r = Finished rep w"
proof (cases assembled)
  case (Inl ps)
  then show ?thesis
    using assms by (intro that) (auto simp: drive_records_def drive_def Let_def split: if_splits)
next
  case (Inr plan)
  obtain a evs r where f: "assemble (pl_pipeline plan) = Some (Inr a)"
    "evs = [EvRunStarted (header_of c pname (capture_env (dw_env world) allow) (Some (aa_fingerprint a)))]"
    "drive_plan c (resolve_run_id (dw_minted world) c) plan a world evs = Some r"
    "finish_drive env (resolve_run_id (dw_minted world) c)
       (stream_path (dc_base c) (writer_new sink clock (resolve_run_id (dw_minted world) c) pname))
       (writer_new sink clock (resolve_run_id (dw_minted world) c) pname) r = Finished rep w"
    by (rule drive_finishes [OF assms [unfolded Inr]])
  have "drive_records c pname assembled allow world = Some r"
    using f(3) by (simp add: drive_records_def Inr f(1) f(2))
  then show ?thesis using f(4) by (rule that)
qed

lemma drive_records_log:
  assumes "drive_records c pname assembled allow world = Some r"
  obtains h mid where "dr_log r = EvRunStarted h # mid @ [EvRunFinished (dr_outcome r)]"
    "list_all inner_event mid" "rh_pipeline h = pname"
proof (cases assembled)
  case (Inl ps)
  then show ?thesis using assms that [of _ "[]"] by (auto simp: drive_records_def ends_early_def header_of_def)
next
  case (Inr plan)
  with assms obtain a where "drive_plan c (resolve_run_id (dw_minted world) c) plan a world
      [EvRunStarted (header_of c pname (capture_env (dw_env world) allow) (Some (aa_fingerprint a)))] = Some r"
    by (auto simp: drive_records_def Let_def split: option.splits sum.splits)
  from drive_plan_log [OF this] that show ?thesis by (auto simp: header_of_def)
qed

section \<open>Every record is well typed\<close>

lemma stamped_nth:
  "i < length events \<Longrightarrow> \<exists>wall ns. stamped env run_id seq c events ! i = event_record run_id (seq + of_nat i) wall ns (events ! i)"
proof (induction events arbitrary: i seq c)
  case (Cons ev events)
  obtain ns c1 where 1: "se_elapsed_ns env c = (ns, c1)" by fastforce
  obtain wall c2 where 2: "se_wall env c1 = (wall, c2)" by fastforce
  show ?case
  proof (cases i)
    case (Suc j)
    with Cons.prems Cons.IH [of j "seq + 1" c2] show ?thesis by (auto simp: 1 2 add.assoc)
  qed (auto simp: 1 2)
qed simp

lemma drive_log_typed:
  assumes "drive_records c pname assembled allow world = Some r" "i < length (dr_log r)"
  shows "event_typed (dr_log r ! i)"
proof -
  obtain h mid where evs: "dr_log r = EvRunStarted h # mid @ [EvRunFinished (dr_outcome r)]" and mid: "list_all inner_event mid"
    by (rule drive_records_log [OF assms(1)])
  have "list_all event_typed (dr_log r)"
    using mid unfolding evs by (auto simp: event_typed_def inner_event_def list_all_iff)
  then show ?thesis using assms(2) by (simp add: list_all_length)
qed

lemma stamped_typed:
  assumes "drive_records c pname assembled allow world = Some r" "i < length (dr_log r)"
  shows "json_ok (stamped env run_id 0 clock (dr_log r) ! i) \<and> (\<exists>m. stamped env run_id 0 clock (dr_log r) ! i = JObject m)"
proof -
  obtain wall ns where x: "stamped env run_id 0 clock (dr_log r) ! i = event_record run_id (0 + of_nat i) wall ns (dr_log r ! i)"
    using stamped_nth [OF assms(2), of env run_id 0 clock] by blast
  show ?thesis
    unfolding x using event_record_ok [OF drive_log_typed [OF assms]] by (auto simp: event_record_def json_obj_def split: prod.split)
qed

section \<open>On disk\<close>

text \<open>A file that takes every line; a flush that leaves its bytes, whether it succeeds or not.\<close>

definition durable_sink :: "(string, 'c, 'e) StreamEnv \<Rightarrow> bool" where
  "durable_sink env \<longleftrightarrow> (\<forall>line s. se_append_line env line s = (Inr (), s @ line)) \<and> (\<forall>s. snd (se_flush env s) = s)"

lemma flush_keeps: "durable_sink env \<Longrightarrow> ew_sink (snd (final_flush env w)) = ew_sink w"
proof -
  assume d: "durable_sink env"
  obtain res sink where f: "se_flush env (ew_sink w) = (res, sink)" by fastforce
  then have "sink = ew_sink w" using d unfolding durable_sink_def by (metis snd_conv)
  then show ?thesis by (cases res) (simp_all add: final_flush_def finish_writer_def f fault_def Let_def)
qed

lemma drive_bytes:
  assumes "durable_sink env"
  shows "ew_sink (snd (final_flush env (emit_all env evs (writer_new [] c run_id pname))))
    = concat (map (line_of (se_float_text env)) (stamped env run_id 0 c evs))"
  using emit_all_bytes [of env evs "writer_new [] c run_id pname"] assms
  by (simp add: flush_keeps [OF assms] durable_sink_def writer_new_def)

lemma stamped_append:
  "\<exists>c'. stamped env run_id seq c (xs @ ys) = stamped env run_id seq c xs @ stamped env run_id (seq + of_nat (length xs)) c' ys"
proof (induction xs arbitrary: seq c)
  case (Cons x xs)
  obtain ns c1 where 1: "se_elapsed_ns env c = (ns, c1)" by fastforce
  obtain wall c2 where 2: "se_wall env c1 = (wall, c2)" by fastforce
  from Cons [of "seq + 1" c2] show ?case by (auto simp: 1 2 add.assoc)
qed auto

lemma find_skips: "find P xs = None \<Longrightarrow> find P (xs @ ys) = find P ys"
  by (induction xs) (simp_all split: if_splits)

text \<open>The outcome the fold reads is the one of the only finishing record.\<close>

lemma folded_outcome:
  assumes "list_all inner_event mid"
  shows "outcome_and_errors (find (\<lambda>r. kind_of r = Some ''run-finished'')
      (stamped env run_id 0 c (EvRunStarted h # mid @ [EvRunFinished out]))) = (run_outcome_as_str out, [])"
proof -
  define evs where "evs = EvRunStarted h # mid"
  have inner: "EvRunFinished outcome \<notin> set evs" for outcome
    using assms by (auto simp: evs_def list_all_iff inner_event_def)
  obtain c' where split: "stamped env run_id 0 c (evs @ [EvRunFinished out])
      = stamped env run_id 0 c evs @ stamped env run_id (0 + of_nat (length evs)) c' [EvRunFinished out]"
    using stamped_append [of env run_id 0 c evs "[EvRunFinished out]"] by blast
  have "find (\<lambda>r. kind_of r = Some ''run-finished'') (stamped env run_id 0 c evs) = None"
    using find_finished [of "length evs" evs env run_id 0 c] inner by simp
  then have "find (\<lambda>r. kind_of r = Some ''run-finished'') (stamped env run_id 0 c (evs @ [EvRunFinished out]))
      = find (\<lambda>r. kind_of r = Some ''run-finished'') (stamped env run_id (0 + of_nat (length evs)) c' [EvRunFinished out])"
    unfolding split by (rule find_skips)
  moreover obtain ns c1 where 1: "se_elapsed_ns env c' = (ns, c1)" by fastforce
  moreover obtain wall c2 where 2: "se_wall env c1 = (wall, c2)" by fastforce
  moreover have "string_field (event_record run_id seq wall ns (EvRunFinished out)) ''outcome'' = Some (run_outcome_as_str out)"
    "j_get ''errors'' (event_record run_id seq wall ns (EvRunFinished out)) = None" for seq wall ns
    by (simp_all add: string_field_def event_record_def json_obj_def j_get_def collect_map_def bt_simps less_char_def as_str_def)
  ultimately show ?thesis
    by (simp add: kind_of_event outcome_and_errors_def evs_def)
qed

text \<open>
  C2. What a drive leaves on disk tells how it ended: on a sink that takes every line, its stream,
  cut at any byte, folds, once the first record is whole, to an artifact that names the run and its
  pipeline; it is interrupted exactly when the last record is not whole, and says cancelled then and
  otherwise the outcome the drive reported.
\<close>

theorem drive_stream_folds:
  assumes "float_text_ok (se_float_text env)" and sink: "durable_sink env"
    and drive: "drive env [] clock c pname assembled allow world = Finished rep w"
    and rec: "drive_records c pname assembled allow world = Some r"
    and readable: "\<forall>x \<in> set (stamped env (rp_run_id rep) 0 clock (dr_log r)). reads parse (se_float_text env) x"
  shows "\<exists>m torn. cut_at (se_float_text env) (stamped env (rp_run_id rep) 0 clock (dr_log r)) (take k (ew_sink w)) m torn
    \<and> (if m = 0 then fold_stream parse (take k (ew_sink w)) nodes = Inl MissingRunStarted
       else \<exists>a. fold_stream parse (take k (ew_sink w)) nodes = Inr a
         \<and> header_run_id a = rp_run_id rep \<and> header_pipeline a = pname
         \<and> (ra_interrupted a \<longleftrightarrow> m < length (dr_log r)) \<and> ra_trailing_partial_discarded a = torn
         \<and> ra_overall_outcome a = (if m < length (dr_log r) then ''cancelled'' else run_outcome_as_str (rp_outcome rep)))"
proof -
  let ?id = "resolve_run_id (dw_minted world) c"
  let ?v = "emit_all env (dr_log r) (writer_new [] clock ?id pname)"
  obtain r' where "drive_records c pname assembled allow world = Some r'" and
    fin: "finish_drive env ?id (stream_path (dc_base c) (writer_new ([] :: string) clock ?id pname)) (writer_new [] clock ?id pname) r' = Finished rep w"
    by (rule drive_recorded [OF drive]) (rule that)
  with rec have "r' = r" by simp
  with fin have rep: "rp_run_id rep = ?id" "rp_outcome rep = dr_outcome r" and w: "w = snd (final_flush env ?v)"
    by (auto simp: finish_drive_report Let_def)
  obtain h mid where evs: "dr_log r = EvRunStarted h # mid @ [EvRunFinished (dr_outcome r)]"
    and mid: "list_all inner_event mid" and h: "rh_pipeline h = pname"
    by (rule drive_records_log [OF rec])
  have last: "(\<forall>outcome. EvRunFinished outcome \<notin> set (take m (dr_log r))) \<longleftrightarrow> m < length (dr_log r)"
    if "m \<le> length (dr_log r)" for m
  proof (cases "m < length (dr_log r)")
    case True
    then have "set (take m (dr_log r)) \<subseteq> insert (EvRunStarted h) (set mid)"
      using set_take_subset [of "m - 1" mid] by (cases m) (auto simp: evs)
    with mid True show ?thesis by (auto simp: list_all_iff inner_event_def)
  qed (use that in \<open>auto simp: evs\<close>)
  have bytes: "ew_sink w = concat (map (line_of (se_float_text env))
      (stamped env ?id 0 clock (EvRunStarted h # mid @ [EvRunFinished (dr_outcome r)])))"
    unfolding w evs [symmetric] by (rule drive_bytes [OF sink])
  have "\<forall>x \<in> set (stamped env ?id 0 clock (dr_log r)). recordable parse (se_float_text env) x"
    using readable stamped_typed [OF rec, of _ env ?id clock] unfolding rep(1) recordable_def by (metis in_set_conv_nth length_stamped)
  with fold_recovers [OF assms(1) bytes, of parse k nodes]
  obtain m torn where m: "cut_at (se_float_text env) (stamped env ?id 0 clock (dr_log r)) (take k (ew_sink w)) m torn"
    and folded: "if m = 0 then fold_stream parse (take k (ew_sink w)) nodes = Inl MissingRunStarted
       else \<exists>a. fold_stream parse (take k (ew_sink w)) nodes = Inr a
         \<and> header_run_id a = ?id \<and> header_pipeline a = pname
         \<and> (ra_interrupted a \<longleftrightarrow> (\<forall>outcome. EvRunFinished outcome \<notin> set (take m (dr_log r))))
         \<and> ra_trailing_partial_discarded a = torn
         \<and> ra_overall_outcome a = fst (outcome_and_errors (find (\<lambda>r. kind_of r = Some ''run-finished'')
             (take m (stamped env ?id 0 clock (dr_log r)))))"
    unfolding evs [symmetric] h by blast
  have len: "m \<le> length (dr_log r)" using m by (simp add: cut_at_def)
  have out: "fst (outcome_and_errors (find (\<lambda>r. kind_of r = Some ''run-finished'') (take m (stamped env ?id 0 clock (dr_log r)))))
      = (if m < length (dr_log r) then ''cancelled'' else run_outcome_as_str (rp_outcome rep))"
  proof (cases "m < length (dr_log r)")
    case True
    with last [OF len] find_finished [OF len, of env ?id 0 clock] show ?thesis by (simp add: outcome_and_errors_def)
  next
    case False
    with len have "take m (stamped env ?id 0 clock (dr_log r)) = stamped env ?id 0 clock (dr_log r)" by simp
    with False folded_outcome [OF mid, of env ?id clock h "dr_outcome r"] show ?thesis by (simp add: evs [symmetric] rep(2))
  qed
  show ?thesis
    using m folded unfolding last [OF len] out rep(1) by blast
qed

text \<open>
  C28. Every line that a drive's sink took, whatever lines it refused, is one canonical record that
  conforms to the published schema of the event stream (its bounds on lengths and numbers apart): the
  keys it requires of every record and of each kind, with their types.  It carries the run's id, and its
  sequence number is the number of lines taken before it.
\<close>

theorem drive_stream_conforms:
  assumes "keeps_lines lines_of env" "lines_of sink = []"
    and "drive env sink clock c pname assembled allow world = Finished rep w"
    and "i < length (lines_of (ew_sink w))"
  shows "\<exists>x. lines_of (ew_sink w) ! i = line_of (se_float_text env) x \<and> conforms x
    \<and> j_get ''run_id'' x = Some (JString (rp_run_id rep)) \<and> j_get ''seq'' x = Some (json_nat (of_nat i))"
proof -
  let ?w = "writer_new sink clock (resolve_run_id (dw_minted world) c) pname"
  obtain r where "finish_drive env (resolve_run_id (dw_minted world) c) (stream_path (dc_base c) ?w) ?w r = Finished rep w"
    by (rule drive_recorded [OF assms(3)]) (rule that)
  then have rep: "rp_run_id rep = resolve_run_id (dw_minted world) c" and w: "w = snd (final_flush env (emit_all env (dr_log r) ?w))"
    by (auto simp: finish_drive_report Let_def)
  have start: "ew_run_id ?w = rp_run_id rep" "ew_next_seq ?w = 0" "ew_sink ?w = sink"
    by (simp_all add: rep writer_new_def)
  have "lines_of (ew_sink w) = lines_of (ew_sink (emit_all env (dr_log r) ?w))"
  proof -
    obtain res s where f: "se_flush env (ew_sink (emit_all env (dr_log r) ?w)) = (res, s)" by fastforce
    then have "lines_of s = lines_of (ew_sink (emit_all env (dr_log r) ?w))"
      using assms(1) unfolding keeps_lines_def by (metis snd_conv)
    then show ?thesis unfolding w by (cases res) (simp_all add: final_flush_def finish_writer_def f fault_def Let_def)
  qed
  then have lines: "lines_of (ew_sink w) = map (line_of (se_float_text env)) (taken env (dr_log r) ?w)"
    using lines_taken [OF assms(1), of "dr_log r" ?w] assms(2) by (simp add: start(3))
  with assms(4) have i: "i < length (taken env (dr_log r) ?w)" by simp
  from taken_nth [OF i] obtain ev wall ns where
    x: "taken env (dr_log r) ?w ! i = event_record (rp_run_id rep) (of_nat i) wall ns ev"
    unfolding start by auto
  show ?thesis
    by (intro exI [of _ "taken env (dr_log r) ?w ! i"]) (simp add: lines i x record_conforms record_envelope)
qed

text \<open>The whole stream is not a cut of fewer records.\<close>

lemma cut_whole:
  assumes "cut_at ft rs (concat (map (line_of ft) rs)) m torn" shows "m = length rs"
proof (rule ccontr)
  assume "m \<noteq> length rs"
  with assms have m: "m < length rs" by (auto simp: cut_at_def)
  have "concat (map (line_of ft) rs) = concat (map (line_of ft) (take m rs)) @ line_of ft (rs ! m) @ concat (map (line_of ft) (drop (Suc m) rs))"
    by (subst id_take_nth_drop [OF m]) simp
  from this [THEN arg_cong [where f = length]] assms show False
    by (auto simp: cut_at_def line_of_def Let_def split: if_splits dest!: arg_cong [where f = length])
qed

text \<open>An assembly that failed: two records.\<close>

definition early_records :: "Event list" where
  "early_records = [EvRunStarted (header_of (config_new ''base'') ''p'' [] None), EvRunFinished AssemblyFailed]"

definition early_world :: DriveWorld where
  "early_world = \<lparr>dw_env = \<lambda>_. None, dw_minted = ''r'', dw_remote_compiled = False, dw_schedule = [], dw_now = 0\<rparr>"

definition early_started :: Json where
  "early_started = event_record ''r'' 0 ''now'' 5 (EvRunStarted (header_of (config_new ''base'') ''p'' [] None))"

definition early_finished :: Json where
  "early_finished = event_record ''r'' 1 ''now'' 12 (EvRunFinished AssemblyFailed)"

definition early_parser :: "string \<Rightarrow> unit + Json" where
  "early_parser t =
     (if t = write_canonical plain_float_text early_started then Inr early_started
      else if t = write_canonical plain_float_text early_finished then Inr early_finished else Inl ())"

lemma early_texts:
  "take 3 (write_canonical plain_float_text early_started) = [CHR 0x7B, CHR 0x22, CHR ''h'']"
  "take 3 (write_canonical plain_float_text early_finished) = [CHR 0x7B, CHR 0x22, CHR ''k'']"
  by code_simp+

lemma early_long:
  "2 < length (write_canonical plain_float_text early_started)" "2 < length (write_canonical plain_float_text early_finished)"
  using early_texts [THEN arg_cong [where f = length]] by simp_all

lemma early_no_prefix:
  assumes "{x, y} = {early_started, early_finished}" "n < length (write_canonical plain_float_text x)" "0 < n"
  shows "early_parser (take n (write_canonical plain_float_text x)) = Inl ()"
    "early_parser (write_canonical plain_float_text x) = Inr x"
proof -
  let ?t = "write_canonical plain_float_text"
  have own: "take n (?t x) \<noteq> ?t x" using assms(2) by (metis length_take min.absorb4 nat_less_le)
  have x: "x = early_started \<and> y = early_finished \<or> x = early_finished \<and> y = early_started"
    using assms(1) by (auto simp: doubleton_eq_iff)
  have three: "take 3 (?t x) \<noteq> take 3 (?t y)" using x early_texts by auto
  have len: "2 < length (?t y)" using early_long x by auto
  have other: "take n (?t x) \<noteq> ?t y"
  proof
    assume eq: "take n (?t x) = ?t y"
    then have "2 < n" using len by (metis length_take min_less_iff_conj)
    then have "take 3 (take n (?t x)) = take 3 (?t x)" by simp
    with eq three show False by simp
  qed
  from own other x show "early_parser (take n (?t x)) = Inl ()" by (auto simp: early_parser_def)
  from three x show "early_parser (?t x) = Inr x" by (auto simp: early_parser_def)
qed

lemma early_recordable: "x \<in> {early_started, early_finished} \<Longrightarrow> recordable early_parser plain_float_text x"
proof -
  assume x: "x \<in> {early_started, early_finished}"
  then obtain y where y: "{x, y} = {early_started, early_finished}" by auto
  have "json_ok early_started" "json_ok early_finished"
    by (simp_all add: early_started_def early_finished_def header_of_def config_new_def event_record_def run_started_header_def
        string_map_def json_obj_def json_nat_def json_u32_def collect_map_def number_ok_def bt_ok_def less_char_def)
  moreover have "\<exists>m. early_started = JObject m" "\<exists>m. early_finished = JObject m"
    by (simp_all add: early_started_def early_finished_def event_record_def json_obj_def split: prod.split)
  moreover have "1 < length (write_canonical plain_float_text x)"
    using x early_long by auto
  ultimately show ?thesis
    using x early_no_prefix [OF y] by (auto simp: recordable_def reads_def)
qed

lemma early_drive:
  "drive_records (config_new ''base'') ''p'' (Inl []) [] early_world = Some
     (ends_early [EvRunStarted (header_of (config_new ''base'') ''p'' [] None)] AssemblyFailed)"
  by (simp add: drive_records_def capture_env_def)

lemma early_stamped:
  "stamped sample_env ''r'' 0 5 (dr_log (ends_early [EvRunStarted (header_of (config_new ''base'') ''p'' [] None)] AssemblyFailed))
   = [early_started, early_finished]"
  by (simp add: sample_env_def early_started_def early_finished_def ends_early_def)

theorem drive_stream_folds_witness:
  "\<exists>rep w a. drive sample_env [] 5 (config_new ''base'') ''p'' (Inl []) [] early_world = Finished rep w
     \<and> fold_stream early_parser (ew_sink w) [] = Inr a \<and> header_run_id a = ''r''
     \<and> ra_overall_outcome a = ''assembly-failed'' \<and> \<not> ra_interrupted a"
proof -
  have budget: "budget_display (config_shutdown_budget (config_new ''base'')) \<noteq> None"
    by (simp add: budget_display_def budget_total_def config_shutdown_budget_def shutdown_budget_def config_new_def
        DEFAULT_GRACE_def DEFAULT_TEARDOWN_DEADLINE_def DEFAULT_FINAL_FLUSH_def duration_add_def secs_def DURATION_MAX_def)
  have id: "resolve_run_id (dw_minted early_world) (config_new ''base'') = ''r''"
    by (simp add: resolve_run_id_def config_new_def early_world_def)
  note r = early_drive
  obtain rep w where d: "drive sample_env [] 5 (config_new ''base'') ''p'' (Inl []) [] early_world = Finished rep w"
    using budget by (simp add: drive_def finish_drive_report Let_def)
  have rep: "rp_run_id rep = ''r''" "rp_outcome rep = AssemblyFailed"
    by (rule drive_recorded [OF d], use r in \<open>auto simp: finish_drive_report Let_def id ends_early_def\<close>)+
  note st = early_stamped
  have sink: "durable_sink sample_env" "se_float_text sample_env = plain_float_text"
    by (simp_all add: durable_sink_def sample_env_def)
  have hyp: "\<forall>x \<in> set (stamped sample_env (rp_run_id rep) 0 5 (dr_log (ends_early [EvRunStarted (header_of (config_new ''base'') ''p'' [] None)] AssemblyFailed))).
      reads early_parser (se_float_text sample_env) x"
    unfolding rep st sink using early_recordable by (simp add: recordable_def)
  note folds = drive_stream_folds [OF _ sink(1) d r hyp, unfolded sink rep st, OF plain_float_text_ok, of "length (ew_sink w)" "[]"]
  have bytes: "ew_sink w = concat (map (line_of plain_float_text) [early_started, early_finished])"
    by (rule drive_recorded [OF d], use r drive_bytes [OF sink(1), of _ 5 "''r''" "''p''"] st sink(2) in
        \<open>auto simp: finish_drive_report Let_def id\<close>)
  have two: "length (dr_log (ends_early [EvRunStarted (header_of (config_new ''base'') ''p'' [] None)] AssemblyFailed)) = 2"
    by (simp add: ends_early_def)
  have whole: "take (length (ew_sink w)) (ew_sink w) = ew_sink w" by simp
  from folds [unfolded two whole] obtain m torn where c: "cut_at plain_float_text [early_started, early_finished] (ew_sink w) m torn"
    and f: "if m = 0 then fold_stream early_parser (ew_sink w) [] = Inl MissingRunStarted
      else \<exists>a. fold_stream early_parser (ew_sink w) [] = Inr a \<and> header_run_id a = ''r'' \<and> header_pipeline a = ''p''
        \<and> (ra_interrupted a \<longleftrightarrow> m < 2) \<and> ra_trailing_partial_discarded a = torn
        \<and> ra_overall_outcome a = (if m < 2 then ''cancelled'' else run_outcome_as_str AssemblyFailed)"
    by blast
  have "m = 2" using cut_whole [OF c [unfolded bytes]] by simp
  with f d show ?thesis by auto
qed

text \<open>A sink that refuses the first line: the finishing record is then record zero.\<close>

definition lines_env :: "(string list \<times> bool, u64, unit) StreamEnv" where
  "lines_env = \<lparr>se_append_line = \<lambda>line (ls, ready). if ready then (Inr (), (ls @ [line], True)) else (Inl (), (ls, True)),
     se_flush = \<lambda>s. (Inr (), s), se_elapsed_ns = \<lambda>c. (c, c + 7), se_wall = \<lambda>c. (''now'', c), se_float_text = plain_float_text\<rparr>"

theorem drive_stream_conforms_witness:
  "\<exists>rep w x. drive lines_env ([], False) 5 (config_new ''base'') ''p'' (Inl []) [] early_world = Finished rep w
     \<and> fst (ew_sink w) = [line_of plain_float_text x] \<and> conforms x \<and> j_get ''seq'' x = Some (json_nat 0)"
proof -
  have budget: "budget_display (config_shutdown_budget (config_new ''base'')) \<noteq> None"
    by (simp add: budget_display_def budget_total_def config_shutdown_budget_def shutdown_budget_def config_new_def
        DEFAULT_GRACE_def DEFAULT_TEARDOWN_DEADLINE_def DEFAULT_FINAL_FLUSH_def duration_add_def secs_def DURATION_MAX_def)
  obtain rep w where d: "drive lines_env ([], False) 5 (config_new ''base'') ''p'' (Inl []) [] early_world = Finished rep w"
    and one: "length (fst (ew_sink w)) = 1"
    using budget by (simp add: drive_def finish_drive_report Let_def ends_early_def lines_env_def emit_writer_def
        writer_new_def final_flush_def finish_writer_def fault_def)
  have keeps: "keeps_lines fst lines_env" by (simp add: keeps_lines_def lines_env_def split: prod.split)
  have ft: "se_float_text lines_env = plain_float_text" by (simp add: lines_env_def)
  from drive_stream_conforms [OF keeps _ d, of 0] one obtain x where
    x: "fst (ew_sink w) ! 0 = line_of plain_float_text x" "conforms x" "j_get ''seq'' x = Some (json_nat 0)"
    by (auto simp: ft)
  from one x(1) have "fst (ew_sink w) = [line_of plain_float_text x]" by (cases "fst (ew_sink w)") auto
  with d x show ?thesis by blast
qed

text \<open>
  The driver goes on writing after an append that failed: a torn line is joined with the next one,
  and the stream does not fold any more.
\<close>

definition flaky_env :: "(string, u64, unit) StreamEnv" where
  "flaky_env = sample_env\<lparr>se_append_line := \<lambda>line s. if s = [] then (Inl (), take 5 line) else (Inr (), s @ line)\<rparr>"

lemma appends_after_fault:
  "file_sink flaky_env"
  "fold_stream early_parser (ew_sink (emit_all flaky_env early_records (writer_new [] 5 ''r'' ''p''))) [] = Inl (CorruptRecord 0)"
  subgoal by (auto simp: file_sink_def flaky_env_def)
  subgoal by code_simp
  done

end
