(* ===== verification/Resume_Verb.thy ===== *)
theory Resume_Verb
  imports Contract Run_Record Resume
begin

text \<open>
  The resume verb and the check before a single node is replayed (\<open>crates/cli/src/contract.rs\<close>): reading
  the prior run's artifact, deriving parameters and interval, planning, and the artifact of the
  resumed run.  The JSON parser and the text of a JSON value are parameters.
\<close>

section \<open>Options and outcome\<close>

definition TOOL_VERSION :: string where "TOOL_VERSION = ''dagr@1''"

record ResumeOptions =
  ro_new_run_id :: string
  ro_tool_version :: string
  ro_store_present :: bool
  ro_force :: bool
  ro_param_overrides :: "(string, string) btree"
  ro_interval_override :: "(string \<times> string) option"

datatype ResumeOutcome = Resumed Json ResumePlan | Refused ExitCode string

definition refused :: "string \<Rightarrow> ResumeOutcome" where
  "refused message = Refused ResumeRefusal message"

definition resume_verb_stub :: "string \<times> ExitCode" where
  "resume_verb_stub =
     (writeln (''resume is not yet implemented for this binary: the C27 resume algorithm (`dagr_cli::contract::resume_verb`) lands in T58, but this binary has not wired it to a pipeline. ''
        @ ''The verb is recognized and its refusal code is reserved. Refusing.''), ResumeRefusal)"

section \<open>Reading the prior artifact\<close>

type_synonym json_text = "Json \<Rightarrow> string"

definition reference_to_string :: "json_text \<Rightarrow> Json \<Rightarrow> string" where
  "reference_to_string show_json v = (case v of JString s \<Rightarrow> s | other \<Rightarrow> show_json other)"

definition read_prior_parameters :: "json_text \<Rightarrow> Json \<Rightarrow> (string, string) btree" where
  "read_prior_parameters show_json header =
     (case Option.bind (j_get ''parameters'' header) as_object of
        Some obj \<Rightarrow>
          fold (\<lambda>(k, v) out. bt_insert k (case v of JString s \<Rightarrow> s | other \<Rightarrow> show_json other) out) obj []
      | None \<Rightarrow> [])"

fun derive_overrides ::
  "(string, string) btree \<Rightarrow> bool \<Rightarrow> (string \<times> string) list \<Rightarrow> (string, string) btree \<times> bool
     \<Rightarrow> string + (string, string) btree \<times> bool" where
  "derive_overrides prior force [] acc = Inr acc"
| "derive_overrides prior force ((name, supplied) # overrides) (derived, forced) =
     (case bt_get prior name of
        Some prior_value \<Rightarrow>
          if prior_value \<noteq> supplied \<and> \<not> force
          then Inl (''resume refused: parameter '' @ quoted name @ '' conflicts with the prior run (prior=''
                 @ quoted prior_value @ '', supplied='' @ quoted supplied
                 @ ''). Resume derives parameters from the prior artifact; pass --force to override the conflict.'')
          else if prior_value \<noteq> supplied
          then derive_overrides prior force overrides (bt_insert name supplied derived, True)
          else derive_overrides prior force overrides (bt_insert name supplied derived, forced)
      | None \<Rightarrow> derive_overrides prior force overrides (bt_insert name supplied derived, forced))"

definition derive_parameters ::
  "(string, string) btree \<Rightarrow> (string, string) btree \<Rightarrow> bool \<Rightarrow> string + (string, string) btree \<times> bool" where
  "derive_parameters prior overrides force = derive_overrides prior force overrides (prior, False)"

definition derive_interval ::
  "json_text \<Rightarrow> Json \<Rightarrow> (string \<times> string) option \<Rightarrow> bool \<Rightarrow> string + Json \<times> bool" where
  "derive_interval show_json prior override_interval force =
     (case override_interval of
        None \<Rightarrow> Inr (prior, False)
      | Some (start_at, end_at) \<Rightarrow>
          (let supplied = json_obj [(''start'', JString start_at), (''end'', JString end_at)]
           in if \<not> is_null prior \<and> prior \<noteq> supplied
              then if \<not> force
                then Inl (''resume refused: the supplied data interval ['' @ start_at @ '', '' @ end_at
                       @ ''] conflicts with the prior run's interval ('' @ show_json prior
                       @ ''). Pass --force to override the conflict.'')
                else Inr (supplied, True)
              else Inr (supplied, False)))"

text \<open>Base sixteen, as the standard library reads it: one leading plus, letters of either case.\<close>

definition hex_value :: "char \<Rightarrow> nat option" where
  "hex_value c =
     (let n = (of_char c :: nat)
      in if 48 \<le> n \<and> n \<le> 57 then Some (n - 48)
         else if 97 \<le> n \<and> n \<le> 102 then Some (n - 87)
         else if 65 \<le> n \<and> n \<le> 70 then Some (n - 55) else None)"

fun hex_digits :: "nat \<Rightarrow> string \<Rightarrow> nat option" where
  "hex_digits acc [] = Some acc"
| "hex_digits acc (c # s) =
     (case hex_value c of
        None \<Rightarrow> None
      | Some d \<Rightarrow> if acc * 16 + d < 2 ^ 64 then hex_digits (acc * 16 + d) s else None)"

definition u64_from_hex :: "string \<Rightarrow> u64 option" where
  "u64_from_hex s =
     (let digits = (if s \<noteq> [] \<and> hd s = CHR ''+'' then tl s else s)
      in if digits = [] then None else map_option of_nat (hex_digits 0 digits))"

definition after_last_colon :: "string \<Rightarrow> string" where
  "after_last_colon s = rev (takeWhile (\<lambda>c. c \<noteq> CHR '':'') (rev s))"

definition parse_fingerprint :: "Json \<Rightarrow> string \<Rightarrow> u64 option" where
  "parse_fingerprint header field =
     Option.bind (string_field header field) (\<lambda>raw. u64_from_hex (after_last_colon raw))"

definition terminal_from_str :: "string \<Rightarrow> TerminalState" where
  "terminal_from_str status =
     (if status = ''succeeded'' then Succeeded
      else if status = ''timed-out'' then TimedOut
      else if status = ''skipped'' then Skipped
      else if status = ''upstream-skipped'' then UpstreamSkipped
      else if status = ''upstream-failed'' then UpstreamFailed
      else if status = ''cancelled'' then Cancelled
      else if status = ''abandoned'' then Abandoned
      else if status = ''satisfied-from-prior'' then SatisfiedFromPrior
      else Failed)"

definition prior_node :: "json_text \<Rightarrow> string \<Rightarrow> Json \<Rightarrow> PriorNode" where
  "prior_node show_json prior_run_id a =
     \<lparr>pr_terminal = terminal_from_str (unwrap_or (string_field a ''status'') ''failed''),
      pr_durable_reference = map_option (reference_to_string show_json) (non_null (j_get ''durable_reference'' a)),
      pr_content_hash = Option.bind (j_get ''durable_reference_meta'' a) (\<lambda>m. string_field m ''content_hash''),
      pr_originating_run = unwrap_or (string_field a ''satisfied_from_run'') prior_run_id\<rparr>"

definition insert_prior_node ::
  "json_text \<Rightarrow> string \<Rightarrow> Json \<Rightarrow> (string, PriorNode) btree \<Rightarrow> (string, PriorNode) btree" where
  "insert_prior_node show_json prior_run_id a nodes =
     (case string_field a ''node'' of
        None \<Rightarrow> nodes
      | Some node \<Rightarrow> bt_insert node (prior_node show_json prior_run_id a) nodes)"

definition build_prior_run :: "json_text \<Rightarrow> Json \<Rightarrow> Json \<Rightarrow> string \<Rightarrow> PriorRun" where
  "build_prior_run show_json header artifact prior_run_id =
     \<lparr>pr_structural_fingerprint = unwrap_or (parse_fingerprint header ''fingerprint_structural'') (- 1),
      pr_policy_hash = unwrap_or (parse_fingerprint header ''fingerprint_policy'') (- 1),
      pr_algorithm_version = unwrap_or (u64_field ''fingerprint_algorithm_version'' header) 0,
      pr_tool_version = unwrap_or (string_field header ''tool_version'') TOOL_VERSION,
      pr_nodes = fold (insert_prior_node show_json prior_run_id)
        (unwrap_or (Option.bind (j_get ''attempts'' artifact) as_array) []) []\<rparr>"

section \<open>The resumed artifact\<close>

definition resumed_header ::
  "string \<Rightarrow> Json \<Rightarrow> (string, string) btree \<Rightarrow> Json \<Rightarrow> bool \<Rightarrow> string \<Rightarrow> Json" where
  "resumed_header new_run_id prior_header parameters data_interval forced parent_run_id =
     (let lineage_root = unwrap_or
            (Option.bind (j_get ''resume_lineage'' prior_header) (\<lambda>l. string_field l ''lineage_root_run_id'')) parent_run_id;
          pipeline = unwrap_or (string_field prior_header ''pipeline'') []
      in json_obj
        ([(''run_id'', JString new_run_id), (''pipeline'', JString pipeline)]
         @ concat (map (\<lambda>f. opt_field f id (j_get f prior_header))
             [''fingerprint_structural'', ''fingerprint_policy'', ''fingerprint_algorithm_version''])
         @ [(''tool_version'', JString TOOL_VERSION), (''parameters'', string_map parameters),
            (''data_interval'', data_interval),
            (''captured_environment'', unwrap_or (j_get ''captured_environment'' prior_header) (JObject [])),
            (''resume_lineage'', json_obj
               [(''parent_run_id'', JString parent_run_id), (''lineage_root_run_id'', JString lineage_root)])]
         @ (if forced then [(''resume_forced'', JBool True)] else [])
         @ [(''overall_outcome'', JString ''succeeded'')]))"

definition resumed_attempt :: "PriorRun \<Rightarrow> string \<times> string \<Rightarrow> Json" where
  "resumed_attempt prior = (\<lambda>(node, origin). json_obj
     ([(''node'', JString node), (''attempt'', json_nat 1), (''status'', JString ''satisfied-from-prior''),
       (''phase_durations_ns'', json_obj [(''executing'', json_nat 0)]), (''worker'', JString ''resume''),
       (''satisfied_from_run'', JString origin)]
      @ (case bt_get (pr_nodes prior) node of
           None \<Rightarrow> []
         | Some pn \<Rightarrow>
             opt_field ''durable_reference'' JString (pr_durable_reference pn)
             @ opt_field ''durable_reference_meta'' (\<lambda>h. json_obj [(''content_hash'', JString h)]) (pr_content_hash pn))))"

definition resumed_output :: "PriorRun \<Rightarrow> string \<times> string \<Rightarrow> Json list" where
  "resumed_output prior = (\<lambda>(node, origin).
     case bt_get (pr_nodes prior) node of
       None \<Rightarrow> []
     | Some pn \<Rightarrow>
         (case pr_durable_reference pn of
            None \<Rightarrow> []
          | Some reference \<Rightarrow> [json_obj
              ([(''node'', JString node), (''attempt'', json_nat 1), (''uri'', JString reference)]
               @ opt_field ''content_hash'' JString (pr_content_hash pn)
               @ [(''produced_at_offset_ns'', json_nat 0), (''originating_run'', JString origin)])]))"

definition build_resumed_artifact ::
  "string \<Rightarrow> Json \<Rightarrow> (string, string) btree \<Rightarrow> Json \<Rightarrow> bool \<Rightarrow> string \<Rightarrow> PriorRun \<Rightarrow> ResumePlan \<Rightarrow> Json" where
  "build_resumed_artifact new_run_id prior_header parameters data_interval forced parent_run_id prior plan =
     json_obj
       [(''header'', resumed_header new_run_id prior_header parameters data_interval forced parent_run_id),
        (''attempts'', JArray (map (resumed_attempt prior) (rp_satisfied plan))),
        (''outputs'', JArray (concat (map (resumed_output prior) (rp_satisfied plan)))),
        (''summary'', JNull)]"

section \<open>The verb\<close>

definition resume_verb ::
  "(string \<Rightarrow> string + Json) \<Rightarrow> json_text \<Rightarrow> Pipeline \<Rightarrow> string \<Rightarrow> ResumeOptions \<Rightarrow> probe \<Rightarrow> ResumeOutcome" where
  "resume_verb parse show_json pipeline prior_run_bytes options probe =
     (if \<not> ro_store_present options
      then refused (''resume refused: the prior run's run store is gone '' @ dash
             @ '' a run whose store no longer exists is not resumable (arch.md C27). Resume requires the original run to have used a durable run store.'')
      else case parse prior_run_bytes of
        Inl e \<Rightarrow> refused (''resume refused: cannot read the prior run artifact: '' @ e)
      | Inr prior_json \<Rightarrow>
          (let header = unwrap_or (j_get ''header'' prior_json) JNull;
               prior_run_id = unwrap_or (string_field header ''run_id'') []
           in if prior_run_id = [] then refused ''resume refused: the prior run artifact carries no run identity.''
              else case derive_parameters (read_prior_parameters show_json header) (ro_param_overrides options) (ro_force options) of
                Inl message \<Rightarrow> refused message
              | Inr (parameters, forced_params) \<Rightarrow>
                  (case derive_interval show_json (unwrap_or (j_get ''data_interval'' header) JNull)
                          (ro_interval_override options) (ro_force options) of
                     Inl message \<Rightarrow> refused message
                   | Inr (data_interval, forced_interval) \<Rightarrow>
                       (let prior = build_prior_run show_json header prior_json prior_run_id
                        in case plan_resume pipeline prior (ro_tool_version options) probe of
                             Inl refusal \<Rightarrow> refused (refusal_display refusal)
                           | Inr plan \<Rightarrow>
                               Resumed (build_resumed_artifact (ro_new_run_id options) header parameters data_interval
                                   (forced_params \<or> forced_interval) prior_run_id prior plan) plan))))"

section \<open>Replaying a single node\<close>

fun first_undurable :: "Json list \<Rightarrow> string list \<Rightarrow> string option" where
  "first_undurable attempts [] = None"
| "first_undurable attempts (input # inputs) =
     (if \<exists>a \<in> set attempts. string_field a ''node'' = Some input \<and> non_null (j_get ''durable_reference'' a) \<noteq> None
      then first_undurable attempts inputs else Some input)"

definition single_node_refusal_check ::
  "(string \<Rightarrow> string + Json) \<Rightarrow> string \<Rightarrow> string \<Rightarrow> string list \<Rightarrow> (string \<times> ExitCode) option" where
  "single_node_refusal_check parse prior_run_bytes node inputs =
     (if inputs = [] then None
      else case parse prior_run_bytes of
        Inl e \<Rightarrow> Some (writeln (''cannot read prior run artifact: '' @ e), InvalidUsage)
      | Inr prior \<Rightarrow>
          map_option (\<lambda>input. (writeln (''cannot replay node '' @ quoted node @ '': its input '' @ quoted input
               @ '' is not durable '' @ dash
               @ '' the prior run recorded no durable reference for it, so its value cannot be rehydrated (arch.md C26/C27). Refusing.''),
             ResumeRefusal))
            (first_undurable (unwrap_or (Option.bind (j_get ''attempts'' prior) as_array) []) inputs))"

section \<open>Objects\<close>

lemma collect_map_get: "bt_get (collect_map kvs) k = map_of (rev kvs) k"
proof -
  have "bt_get (fold (\<lambda>(k, v). bt_insert k v) kvs m) k = (case map_of (rev kvs) k of Some v \<Rightarrow> Some v | None \<Rightarrow> bt_get m k)"
    if "bt_ok m" for m
    using that by (induction kvs arbitrary: m) (auto simp: map_add_def split: option.split)
  then show ?thesis by (simp add: collect_map_def split: option.split)
qed

lemma j_get_obj: "j_get k (json_obj kvs) = map_of (rev kvs) k"
  by (simp add: json_obj_def j_get_def collect_map_get)

lemma map_of_opt [simp]: "map_of (rev (opt_field name f x)) k = (if k = name then map_option f x else None)"
  by (simp add: opt_field_def split: option.split)

lemma string_field_obj: "string_field (json_obj kvs) k = Option.bind (map_of (rev kvs) k) as_str"
  by (simp add: string_field_def j_get_obj)

lemma prior_nodes_get:
  assumes "bt_ok m"
  shows "bt_ok (fold (insert_prior_node show_json run) xs m)
    \<and> bt_get (fold (insert_prior_node show_json run) xs m) n =
       (case rev (filter (\<lambda>a. string_field a ''node'' = Some n) xs) of
          [] \<Rightarrow> bt_get m n | a # _ \<Rightarrow> Some (prior_node show_json run a))"
  using assms
proof (induction xs arbitrary: m)
  case (Cons x xs)
  have "bt_ok (insert_prior_node show_json run x m)" using Cons.prems by (simp add: insert_prior_node_def split: option.split)
  from Cons.IH [OF this] Cons.prems show ?case by (auto simp: insert_prior_node_def split: option.splits list.splits)
qed simp

section \<open>Hexadecimal text reads back\<close>

lemma hex_value_char: "d < 16 \<Longrightarrow> hex_value (hex_char d) = Some d"
  by (simp add: hex_value_def of_char_hex Let_def)

lemma nibble: "unat (drop_bit (4 * i) w AND 0xf) = unat (w :: u64) div 16 ^ i mod 16"
proof -
  have "drop_bit (4 * i) w AND 0xf = take_bit 4 (drop_bit (4 * i) w)" by (simp add: take_bit_eq_mask mask_eq_exp_minus_1)
  moreover have "take_bit 64 (unat w) = unat w" using unsigned_less [of w, where 'a = nat] by (simp add: take_bit_nat_eq_self)
  then have "unat (take_bit 4 (drop_bit (4 * i) w)) = take_bit 4 (drop_bit (4 * i) (unat w))"
    by (simp add: unsigned_take_bit_eq unsigned_drop_bit_eq)
  ultimately show ?thesis by (simp add: take_bit_eq_mod drop_bit_eq_div power_mult)
qed

lemma hex_digits_nibbles:
  "hex_digits (unat w div 16 ^ n) (map (\<lambda>i. hex_char (unat (drop_bit (4 * i) (w :: u64) AND 0xf))) (rev [0..<n])) = Some (unat w)"
proof (induction n)
  case (Suc n)
  let ?d = "unat w div 16 ^ n mod 16"
  have eq: "unat w div (16 * 16 ^ n) * 16 + ?d = unat w div 16 ^ n"
    by (simp only: mult.commute [of 16] div_mult2_eq div_mult_mod_eq)
  have "unat w div 16 ^ n < 2 ^ 64"
    using unsigned_less [of w, where 'a = nat] by (auto intro: le_less_trans [OF div_le_dividend])
  with Suc show ?case by (simp add: nibble hex_value_char eq)
qed simp

lemma hex16_text: "hex16 w \<noteq> [] \<and> (\<forall>c \<in> set (hex16 w). c \<noteq> CHR ''+'' \<and> c \<noteq> CHR '':'')"
proof -
  have "hex_char d \<noteq> CHR ''+'' \<and> hex_char d \<noteq> CHR '':''" if "d < 16" for d
    using hex_value_char [OF that] by (auto simp: hex_value_def)
  moreover have "unat (drop_bit (4 * i) w AND 0xf) < 16" for i by (simp add: nibble)
  ultimately show ?thesis by (auto simp: hex16_def)
qed

lemma u64_from_hex_hex16: "u64_from_hex (hex16 w) = Some w"
proof -
  have "hd (hex16 w) \<noteq> CHR ''+''" using hex16_text [of w] by (meson list.set_sel(1))
  moreover have "unat w div 16 ^ 16 = 0" using unsigned_less [of w, where 'a = nat] by simp
  then have "hex_digits 0 (hex16 w) = Some (unat w)"
    using hex_digits_nibbles [of w 16] by (simp add: hex16_def)
  ultimately show ?thesis using hex16_text [of w] by (simp add: u64_from_hex_def)
qed

lemma after_last_colon_none: "CHR '':'' \<notin> set s \<Longrightarrow> after_last_colon s = s"
proof -
  assume s: "CHR '':'' \<notin> set s"
  have "takeWhile (\<lambda>c. c \<noteq> CHR '':'') (rev s) = rev s" by (rule takeWhile_eq_all_conv [THEN iffD2]) (use s in auto)
  then show ?thesis unfolding after_last_colon_def by (metis rev_rev_ident)
qed

lemma parse_fingerprint_hex16:
  "string_field header field = Some (hex16 w) \<Longrightarrow> parse_fingerprint header field = Some w"
proof -
  have "after_last_colon (hex16 w) = hex16 w" using hex16_text [of w] after_last_colon_none by blast
  then show "string_field header field = Some (hex16 w) \<Longrightarrow> ?thesis" by (simp add: parse_fingerprint_def u64_from_hex_hex16)
qed

section \<open>Parameters and interval\<close>

text \<open>An override conflicts when the prior run had another value.\<close>

definition param_conflict :: "(string, string) btree \<Rightarrow> (string \<times> string) list \<Rightarrow> bool" where
  "param_conflict prior overrides \<longleftrightarrow>
     (\<exists>(name, supplied) \<in> set overrides. \<exists>v. bt_get prior name = Some v \<and> v \<noteq> supplied)"

definition interval_conflict :: "Json \<Rightarrow> (string \<times> string) option \<Rightarrow> bool" where
  "interval_conflict prior override_interval =
     (case override_interval of
        None \<Rightarrow> False
      | Some (s, e) \<Rightarrow> prior \<noteq> JNull \<and> prior \<noteq> json_obj [(''start'', JString s), (''end'', JString e)])"

lemma derive_overrides_exact:
  "case derive_overrides prior force overrides (derived, forced) of
     Inl _ \<Rightarrow> \<not> force \<and> param_conflict prior overrides
   | Inr (derived', forced') \<Rightarrow> (force \<or> \<not> param_conflict prior overrides)
       \<and> derived' = fold (\<lambda>(k, v). bt_insert k v) overrides derived
       \<and> (forced' \<longleftrightarrow> forced \<or> param_conflict prior overrides)"
proof (induction overrides arbitrary: derived forced)
  case (Cons o' overrides)
  obtain name supplied where o': "o' = (name, supplied)" by fastforce
  have c: "param_conflict prior (o' # overrides) \<longleftrightarrow>
      (\<exists>v. bt_get prior name = Some v \<and> v \<noteq> supplied) \<or> param_conflict prior overrides"
    by (auto simp: param_conflict_def o')
  from Cons.IH [of "bt_insert name supplied derived" forced] Cons.IH [of "bt_insert name supplied derived" True]
  show ?case unfolding c by (auto simp: o' split: option.splits sum.splits prod.splits)
qed (simp add: param_conflict_def)

lemma derive_interval_exact:
  "case derive_interval show_json prior override_interval force of
     Inl _ \<Rightarrow> \<not> force \<and> interval_conflict prior override_interval
   | Inr _ \<Rightarrow> force \<or> \<not> interval_conflict prior override_interval"
  by (auto simp: derive_interval_def interval_conflict_def is_null_def Let_def split: option.splits prod.splits)

section \<open>When a resume is refused\<close>

definition prior_header :: "Json \<Rightarrow> Json" where
  "prior_header prior_json = unwrap_or (j_get ''header'' prior_json) JNull"

definition prior_id :: "Json \<Rightarrow> string" where
  "prior_id prior_json = unwrap_or (string_field (prior_header prior_json) ''run_id'') []"

definition prior_of :: "json_text \<Rightarrow> Json \<Rightarrow> PriorRun" where
  "prior_of show_json prior_json = build_prior_run show_json (prior_header prior_json) prior_json (prior_id prior_json)"

lemma resume_verb_cases:
  "case resume_verb parse show_json p bytes options probe of
     Refused code message \<Rightarrow> code = ResumeRefusal \<and>
       (\<not> ro_store_present options \<or> (case parse bytes of
          Inl _ \<Rightarrow> True
        | Inr j \<Rightarrow> prior_id j = []
            \<or> \<not> ro_force options \<and> (param_conflict (read_prior_parameters show_json (prior_header j)) (ro_param_overrides options)
                \<or> interval_conflict (unwrap_or (j_get ''data_interval'' (prior_header j)) JNull) (ro_interval_override options))
            \<or> (\<exists>refusal. plan_resume p (prior_of show_json j) (ro_tool_version options) probe = Inl refusal
                 \<and> message = refusal_display refusal)))
   | Resumed artifact plan \<Rightarrow> ro_store_present options \<and> (\<exists>j di forced. parse bytes = Inr j \<and> prior_id j \<noteq> []
       \<and> (ro_force options \<or> \<not> param_conflict (read_prior_parameters show_json (prior_header j)) (ro_param_overrides options)
            \<and> \<not> interval_conflict (unwrap_or (j_get ''data_interval'' (prior_header j)) JNull) (ro_interval_override options))
       \<and> plan_resume p (prior_of show_json j) (ro_tool_version options) probe = Inr plan
       \<and> artifact = build_resumed_artifact (ro_new_run_id options) (prior_header j)
           (fold (\<lambda>(k, v). bt_insert k v) (ro_param_overrides options) (read_prior_parameters show_json (prior_header j)))
           di forced (prior_id j) (prior_of show_json j) plan)"
proof (cases "ro_store_present options")
  case store: True
  show ?thesis
  proof (cases "parse bytes")
    case (Inr j)
    let ?ps = "read_prior_parameters show_json (prior_header j)"
    let ?iv = "unwrap_or (j_get ''data_interval'' (prior_header j)) JNull"
    note d = derive_overrides_exact [where prior = ?ps and force = "ro_force options" and overrides = "ro_param_overrides options" and derived = ?ps and forced = False]
    note i = derive_interval_exact [where show_json = show_json and prior = ?iv and override_interval = "ro_interval_override options" and force = "ro_force options"]
    have v: "resume_verb parse show_json p bytes options probe =
       (if prior_id j = [] then refused ''resume refused: the prior run artifact carries no run identity.''
        else case derive_parameters ?ps (ro_param_overrides options) (ro_force options) of
          Inl message \<Rightarrow> refused message
        | Inr (parameters, forced_params) \<Rightarrow>
            (case derive_interval show_json ?iv (ro_interval_override options) (ro_force options) of
               Inl message \<Rightarrow> refused message
             | Inr (data_interval, forced_interval) \<Rightarrow>
                 (case plan_resume p (prior_of show_json j) (ro_tool_version options) probe of
                    Inl refusal \<Rightarrow> refused (refusal_display refusal)
                  | Inr plan \<Rightarrow>
                      Resumed (build_resumed_artifact (ro_new_run_id options) (prior_header j) parameters data_interval
                        (forced_params \<or> forced_interval) (prior_id j) (prior_of show_json j) plan) plan)))"
      unfolding resume_verb_def prior_of_def prior_id_def prior_header_def Let_def using store Inr by simp
    show ?thesis unfolding v using store Inr d i
      by (auto simp: refused_def derive_parameters_def split: sum.splits prod.splits)
  qed (simp add: resume_verb_def refused_def store)
qed (simp add: resume_verb_def refused_def)

section \<open>The resumed artifact reads back\<close>

lemma as_str_JString [simp]: "as_str (JString s) = Some s"
  by (simp add: as_str_def)

lemma is_null_JString [simp]: "\<not> is_null (JString s)"
  by (simp add: is_null_def)

lemma resumed_attempt_fields:
  "string_field (resumed_attempt prior (n, origin)) ''node'' = Some n"
  "string_field (resumed_attempt prior (n, origin)) ''status'' = Some ''satisfied-from-prior''"
  "string_field (resumed_attempt prior (n, origin)) ''satisfied_from_run'' = Some origin"
  "j_get ''durable_reference'' (resumed_attempt prior (n, origin)) =
     map_option JString (Option.bind (bt_get (pr_nodes prior) n) pr_durable_reference)"
  "Option.bind (j_get ''durable_reference_meta'' (resumed_attempt prior (n, origin))) (\<lambda>m. string_field m ''content_hash'') =
     Option.bind (bt_get (pr_nodes prior) n) pr_content_hash"
  by (cases "bt_get (pr_nodes prior) n"; simp add: resumed_attempt_def string_field_obj j_get_obj string_field_def map_add_def
      split: option.split)+

lemma resumed_prior_node:
  "prior_node show_json run (resumed_attempt prior (n, origin)) =
     \<lparr>pr_terminal = SatisfiedFromPrior,
      pr_durable_reference = Option.bind (bt_get (pr_nodes prior) n) pr_durable_reference,
      pr_content_hash = Option.bind (bt_get (pr_nodes prior) n) pr_content_hash,
      pr_originating_run = origin\<rparr>"
  by (cases "Option.bind (bt_get (pr_nodes prior) n) pr_durable_reference")
    (simp_all add: prior_node_def resumed_attempt_fields unwrap_or_def terminal_from_str_def non_null_def reference_to_string_def)

lemma rows_of_resumed:
  "bt_ok m \<Longrightarrow> filter (\<lambda>a. string_field a ''node'' = Some n) (map (resumed_attempt prior) m) =
     (case bt_get m n of None \<Rightarrow> [] | Some origin \<Rightarrow> [resumed_attempt prior (n, origin)])"
proof (induction m)
  case (Cons kv m)
  obtain k v where kv: "kv = (k, v)" by fastforce
  show ?case
  proof (cases "k = n")
    case True
    then have "bt_get m n = None" using Cons.prems by (auto simp: kv bt_ok_Cons bt_get_None_iff)
    with Cons True show ?thesis by (simp add: kv bt_ok_Cons bt_get_Cons resumed_attempt_fields)
  qed (use Cons in \<open>auto simp: kv bt_ok_Cons bt_get_Cons resumed_attempt_fields\<close>)
qed simp

lemma header_kept:
  assumes "f \<in> {''fingerprint_structural'', ''fingerprint_policy'', ''fingerprint_algorithm_version''}"
  shows "j_get f (resumed_header new_run_id h params di forced parent) = j_get f h"
  using assms
  by (auto simp: resumed_header_def Let_def j_get_obj map_add_def split: option.split)

lemma resumed_header_fields:
  "j_get ''run_id'' (resumed_header new_run_id h params di forced parent) = Some (JString new_run_id)"
  "j_get ''tool_version'' (resumed_header new_run_id h params di forced parent) = Some (JString TOOL_VERSION)"
  "j_get ''parameters'' (resumed_header new_run_id h params di forced parent) = Some (string_map params)"
  "j_get ''data_interval'' (resumed_header new_run_id h params di forced parent) = Some di"
  by (auto simp: resumed_header_def Let_def j_get_obj map_add_def split: option.split)

lemma resumed_reads_back:
  assumes "bt_ok (rp_satisfied plan)"
    and artifact_def: "artifact = build_resumed_artifact new_run_id h params di forced parent prior plan"
  shows "prior_header artifact = resumed_header new_run_id h params di forced parent"
    "bt_get (pr_nodes (prior_of show_json artifact)) n =
       map_option (\<lambda>origin. \<lparr>pr_terminal = SatisfiedFromPrior,
          pr_durable_reference = Option.bind (bt_get (pr_nodes prior) n) pr_durable_reference,
          pr_content_hash = Option.bind (bt_get (pr_nodes prior) n) pr_content_hash, pr_originating_run = origin\<rparr>)
        (bt_get (rp_satisfied plan) n)"
proof -
  show h: "prior_header artifact = resumed_header new_run_id h params di forced parent"
    by (simp add: prior_header_def artifact_def build_resumed_artifact_def j_get_obj unwrap_or_def)
  have "unwrap_or (Option.bind (j_get ''attempts'' artifact) as_array) [] = map (resumed_attempt prior) (rp_satisfied plan)"
    by (simp add: artifact_def build_resumed_artifact_def j_get_obj unwrap_or_def as_array_def)
  then show "bt_get (pr_nodes (prior_of show_json artifact)) n =
       map_option (\<lambda>origin. \<lparr>pr_terminal = SatisfiedFromPrior,
          pr_durable_reference = Option.bind (bt_get (pr_nodes prior) n) pr_durable_reference,
          pr_content_hash = Option.bind (bt_get (pr_nodes prior) n) pr_content_hash, pr_originating_run = origin\<rparr>)
        (bt_get (rp_satisfied plan) n)"
    using prior_nodes_get [of "[]" show_json "prior_id artifact" "map (resumed_attempt prior) (rp_satisfied plan)" n]
    unfolding rows_of_resumed [OF assms(1)]
    by (simp add: prior_of_def build_prior_run_def resumed_prior_node split: option.split)
qed

lemma mark_satisfied_ok: "bt_ok (mark_satisfied_from_prior prior g must_run)"
proof -
  have "bt_ok m \<Longrightarrow> bt_ok (fold (\<lambda>name satisfied.
         if name \<in> set must_run then satisfied
         else
           case bt_get (pr_nodes prior) name of
             Some pn \<Rightarrow>
               if pr_terminal pn = Succeeded
               then bt_insert name (pr_originating_run pn) satisfied else satisfied
           | None \<Rightarrow> satisfied) names m)" for names m
    by (induction names arbitrary: m) (simp_all split: option.split)
  then show ?thesis by (simp add: mark_satisfied_from_prior_def)
qed

lemma plan_satisfied_ok: "plan_resume p prior tool probe = Inr plan \<Longrightarrow> bt_ok (rp_satisfied plan)"
  by (auto simp: plan_resume_def Let_def mark_satisfied_ok split: if_splits sum.splits)

section \<open>What a resume decides\<close>

text \<open>What a resume needs: a store, an artifact that names its run, no conflict that is not forced, and a plan.\<close>

definition resumable ::
  "(string \<Rightarrow> string + Json) \<Rightarrow> json_text \<Rightarrow> Pipeline \<Rightarrow> string \<Rightarrow> ResumeOptions \<Rightarrow> probe \<Rightarrow> Json \<Rightarrow> ResumePlan \<Rightarrow> bool" where
  "resumable parse show_json p bytes options probe j plan \<longleftrightarrow>
     ro_store_present options \<and> parse bytes = Inr j \<and> prior_id j \<noteq> []
     \<and> (ro_force options \<or> \<not> param_conflict (read_prior_parameters show_json (prior_header j)) (ro_param_overrides options)
          \<and> \<not> interval_conflict (unwrap_or (j_get ''data_interval'' (prior_header j)) JNull) (ro_interval_override options))
     \<and> plan_resume p (prior_of show_json j) (ro_tool_version options) probe = Inr plan"

text \<open>
  C7. The resume verb goes on exactly when the prior run's store is there, its artifact is readable
  and names its run, no parameter and no interval that was given contradicts the prior run unless
  force was, and the plan is accepted; everything else is refused with the code of a resume refusal.
\<close>

theorem resume_verb_decides:
  "case resume_verb parse show_json p bytes options probe of
     Resumed artifact plan \<Rightarrow> \<exists>j. resumable parse show_json p bytes options probe j plan
   | Refused code message \<Rightarrow> code = ResumeRefusal \<and> (\<nexists>j plan. resumable parse show_json p bytes options probe j plan)"
proof (cases "resume_verb parse show_json p bytes options probe")
  case (Refused code message)
  from resume_verb_cases [where parse = parse and show_json = show_json and p = p and bytes = bytes and options = options and probe = probe] show ?thesis
    unfolding Refused by (auto simp: resumable_def)
next
  case (Resumed artifact plan)
  from resume_verb_cases [where parse = parse and show_json = show_json and p = p and bytes = bytes and options = options and probe = probe] show ?thesis
    unfolding Resumed by (auto simp: resumable_def)
qed

lemma read_parameters_ok: "bt_ok (read_prior_parameters show_json h)"
proof -
  have "bt_ok m \<Longrightarrow> bt_ok (fold (\<lambda>(k, v) out. bt_insert k (case v of JString s \<Rightarrow> s | other \<Rightarrow> show_json other) out) obj m)" for obj :: "(string \<times> Json) list" and m
    by (induction obj arbitrary: m) auto
  then show ?thesis by (simp add: read_prior_parameters_def split: option.split)
qed

lemma read_string_map:
  assumes "j_get ''parameters'' h = Some (string_map params)" "bt_ok params"
  shows "read_prior_parameters show_json h = params"
proof -
  have "fold (\<lambda>(k, v) out. bt_insert k (case v of JString s \<Rightarrow> s | other \<Rightarrow> show_json other) out) (map (\<lambda>(k, v). (k, JString v)) kvs) m
      = fold (\<lambda>(k, v). bt_insert k v) kvs m" for kvs :: "(string \<times> string) list" and m
    by (induction kvs arbitrary: m) auto
  with assms collect_map_id [OF assms(2)] show ?thesis
    by (simp add: read_prior_parameters_def string_map_def json_obj_def as_object_def collect_map_values)
      (simp add: collect_map_def)
qed

text \<open>
  C4. The artifact of a resumed run reads back as a prior run of its own: it carries the new run's
  identity and the fingerprints of the prior run, its parameters are the overrides over the prior
  ones, and its nodes are exactly the satisfied ones, each with the reference and the content hash of
  the prior run and the run its success came from.
\<close>

theorem resumed_artifact_reads_back:
  assumes "resume_verb parse show_json p bytes options probe = Resumed artifact plan" "bt_ok (ro_param_overrides options)"
  shows "\<exists>j. resumable parse show_json p bytes options probe j plan
    \<and> prior_id artifact = ro_new_run_id options
    \<and> pr_structural_fingerprint (prior_of show_json artifact) = pr_structural_fingerprint (prior_of show_json j)
    \<and> pr_policy_hash (prior_of show_json artifact) = pr_policy_hash (prior_of show_json j)
    \<and> pr_algorithm_version (prior_of show_json artifact) = pr_algorithm_version (prior_of show_json j)
    \<and> pr_tool_version (prior_of show_json artifact) = TOOL_VERSION
    \<and> (\<forall>k. bt_get (read_prior_parameters show_json (prior_header artifact)) k =
         (case bt_get (ro_param_overrides options) k of
            Some v \<Rightarrow> Some v | None \<Rightarrow> bt_get (read_prior_parameters show_json (prior_header j)) k))
    \<and> (\<forall>n. bt_get (pr_nodes (prior_of show_json artifact)) n =
         map_option (\<lambda>origin. \<lparr>pr_terminal = SatisfiedFromPrior,
            pr_durable_reference = Option.bind (bt_get (pr_nodes (prior_of show_json j)) n) pr_durable_reference,
            pr_content_hash = Option.bind (bt_get (pr_nodes (prior_of show_json j)) n) pr_content_hash,
            pr_originating_run = origin\<rparr>) (bt_get (rp_satisfied plan) n))"
proof -
  from resume_verb_cases [where parse = parse and show_json = show_json and p = p and bytes = bytes and options = options and probe = probe]
  obtain j di forced where
    r: "resumable parse show_json p bytes options probe j plan" and
    artifact: "artifact = build_resumed_artifact (ro_new_run_id options) (prior_header j)
       (fold (\<lambda>(k, v). bt_insert k v) (ro_param_overrides options) (read_prior_parameters show_json (prior_header j)))
       di forced (prior_id j) (prior_of show_json j) plan"
    unfolding assms(1) by (auto simp: resumable_def)
  have ok: "bt_ok (rp_satisfied plan)" using r plan_satisfied_ok by (auto simp: resumable_def)
  note again = resumed_reads_back [OF ok artifact]
  let ?ps = "fold (\<lambda>(k, v). bt_insert k v) (ro_param_overrides options) (read_prior_parameters show_json (prior_header j))"
  note ps = insert_all_get [OF read_parameters_ok assms(2), of "\<lambda>k v. v"]
  have params: "read_prior_parameters show_json (prior_header artifact) = ?ps"
    unfolding again(1) by (rule read_string_map [OF resumed_header_fields(3)]) (use ps in simp)
  have given: "bt_get (read_prior_parameters show_json (prior_header artifact)) k =
      (case bt_get (ro_param_overrides options) k of
         Some v \<Rightarrow> Some v | None \<Rightarrow> bt_get (read_prior_parameters show_json (prior_header j)) k)" for k
    unfolding params using ps by (simp split: option.split)
  have gates: "pr_structural_fingerprint (prior_of show_json artifact) = pr_structural_fingerprint (prior_of show_json j)"
    "pr_policy_hash (prior_of show_json artifact) = pr_policy_hash (prior_of show_json j)"
    "pr_algorithm_version (prior_of show_json artifact) = pr_algorithm_version (prior_of show_json j)"
    "pr_tool_version (prior_of show_json artifact) = TOOL_VERSION"
    unfolding prior_of_def build_prior_run_def again(1) parse_fingerprint_def string_field_def u64_field_def PriorRun.simps
    by (simp_all only: header_kept resumed_header_fields insertI1 insertI2 bind.simps as_str_JString)
      (simp add: unwrap_or_def)
  have id: "prior_id artifact = ro_new_run_id options"
    by (simp add: prior_id_def again(1) string_field_def resumed_header_fields unwrap_or_def)
  show ?thesis using r id gates given again(2) by blast
qed

text \<open>The node \<open>a\<close> succeeded and left a reference, \<open>b\<close> failed.\<close>

definition sample_prior_json :: Json where
  "sample_prior_json = json_obj
     [(''header'', json_obj
        [(''run_id'', JString ''r''),
         (''fingerprint_structural'', JString (''fnv:'' @ hex16 (fp_structural (compute_fingerprint (resume_pipe True))))),
         (''fingerprint_policy'', JString (hex16 0)), (''fingerprint_algorithm_version'', json_nat 1),
         (''tool_version'', JString ''1''), (''parameters'', json_obj [(''day'', JString ''mon''), (''k'', JString ''v'')])]),
      (''attempts'', JArray
        [json_obj [(''node'', JString ''a''), (''status'', JString ''succeeded''), (''durable_reference'', JString ''ref'')],
         json_obj [(''node'', JString ''b''), (''status'', JString ''failed'')]])]"

definition sample_options :: ResumeOptions where
  "sample_options = \<lparr>ro_new_run_id = ''s'', ro_tool_version = ''1'', ro_store_present = True, ro_force = True,
     ro_param_overrides = [(''day'', ''tue'')], ro_interval_override = None\<rparr>"

lemma after_last_colon_prefix: "CHR '':'' \<notin> set s \<Longrightarrow> after_last_colon (pre @ CHR '':'' # s) = s"
proof -
  assume s: "CHR '':'' \<notin> set s"
  have "takeWhile (\<lambda>c. c \<noteq> CHR '':'') (rev s @ CHR '':'' # rev pre) = rev s"
    by (subst takeWhile_append2) (use s in auto)
  then show ?thesis unfolding after_last_colon_def by simp
qed

lemma parse_fingerprint_fnv:
  "string_field header field = Some (''fnv:'' @ hex16 w) \<Longrightarrow> parse_fingerprint header field = Some w"
proof -
  have "CHR '':'' \<notin> set (hex16 w)" using hex16_text [of w] by blast
  from after_last_colon_prefix [OF this, of "''fnv''"]
  show "string_field header field = Some (''fnv:'' @ hex16 w) \<Longrightarrow> ?thesis" by (simp add: parse_fingerprint_def u64_from_hex_hex16)
qed

lemma sample_prior: "prior_id sample_prior_json = ''r'' \<and> prior_of show_json sample_prior_json = resume_prior True"
proof -
  let ?h = "prior_header sample_prior_json"
  have h: "?h = json_obj
        [(''run_id'', JString ''r''),
         (''fingerprint_structural'', JString (''fnv:'' @ hex16 (fp_structural (compute_fingerprint (resume_pipe True))))),
         (''fingerprint_policy'', JString (hex16 0)), (''fingerprint_algorithm_version'', json_nat 1),
         (''tool_version'', JString ''1''), (''parameters'', json_obj [(''day'', JString ''mon''), (''k'', JString ''v'')])]"
    by (simp add: prior_header_def sample_prior_json_def j_get_obj unwrap_or_def)
  have "parse_fingerprint ?h ''fingerprint_structural'' = Some (fp_structural (compute_fingerprint (resume_pipe True)))"
    by (rule parse_fingerprint_fnv) (simp add: h string_field_obj)
  moreover have "parse_fingerprint ?h ''fingerprint_policy'' = Some 0"
    by (rule parse_fingerprint_hex16) (simp add: h string_field_obj)
  moreover have "string_field ?h ''run_id'' = Some ''r''" "string_field ?h ''tool_version'' = Some ''1''"
    "u64_field ''fingerprint_algorithm_version'' ?h = Some 1"
    by (simp_all add: h string_field_obj u64_field_def j_get_obj as_u64_def json_nat_def)
  moreover have "fold (insert_prior_node show_json ''r'')
      (unwrap_or (Option.bind (j_get ''attempts'' sample_prior_json) as_array) []) [] = pr_nodes (resume_prior True)"
    by (simp add: sample_prior_json_def j_get_obj as_array_def unwrap_or_def insert_prior_node_def prior_node_def string_field_obj
        non_null_def reference_to_string_def terminal_from_str_def resume_prior_def bt_simps less_char_def)
  ultimately show ?thesis
    by (simp add: prior_id_def prior_of_def build_prior_run_def unwrap_or_def) (simp add: resume_prior_def)
qed

theorem resumed_artifact_reads_back_witness:
  "\<exists>artifact plan. resume_verb (\<lambda>_. Inr sample_prior_json) (\<lambda>_. []) (resume_pipe True) [] sample_options (\<lambda>n r h. RefPresent)
       = Resumed artifact plan
     \<and> bt_get (pr_nodes (prior_of (\<lambda>_. []) artifact)) ''a'' = Some
         \<lparr>pr_terminal = SatisfiedFromPrior, pr_durable_reference = Some ''ref'', pr_content_hash = None, pr_originating_run = ''r''\<rparr>
     \<and> bt_get (pr_nodes (prior_of (\<lambda>_. []) artifact)) ''b'' = None
     \<and> bt_get (read_prior_parameters (\<lambda>_. []) (prior_header artifact)) ''day'' = Some ''tue''"
proof -
  have gates: "pr_algorithm_version (resume_prior True) = 1" "pr_tool_version (resume_prior True) = ''1''"
    "pr_structural_fingerprint (resume_prior True) = fp_structural (compute_fingerprint (resume_pipe True))"
    by (simp_all add: resume_prior_def)
  have names: "gr_node_names (graph_of (resume_pipe True)) = [''a'', ''b'']" by code_simp
  obtain plan where p: "plan_resume (resume_pipe True) (resume_prior True) ''1'' (\<lambda>n r h. RefPresent) = Inr plan"
    "rp_satisfied plan = mark_satisfied_from_prior (resume_prior True) (graph_of (resume_pipe True)) [''b'']"
    by (simp add: plan_resume_def Let_def gates resume_gates resume_resolved)
  have sat: "bt_get (rp_satisfied plan) ''a'' = Some ''r''" "bt_get (rp_satisfied plan) ''b'' = None"
    by (simp_all add: p(2) mark_satisfied_get names prior_success_def resume_prior_def bt_simps)
  have "resumable (\<lambda>_. Inr sample_prior_json) (\<lambda>_. []) (resume_pipe True) [] sample_options (\<lambda>n r h. RefPresent) sample_prior_json plan"
    using p(1) sample_prior by (simp add: resumable_def sample_options_def)
  then obtain artifact plan' where v: "resume_verb (\<lambda>_. Inr sample_prior_json) (\<lambda>_. []) (resume_pipe True) [] sample_options
      (\<lambda>n r h. RefPresent) = Resumed artifact plan'"
    using resume_verb_cases [where parse = "\<lambda>_. Inr sample_prior_json" and show_json = "\<lambda>_. []" and p = "resume_pipe True"
        and bytes = "[]" and options = sample_options and probe = "\<lambda>n r h. RefPresent"]
    by (cases "resume_verb (\<lambda>_. Inr sample_prior_json) (\<lambda>_. []) (resume_pipe True) [] sample_options (\<lambda>n r h. RefPresent)")
      (auto simp: resumable_def)
  have "bt_ok (ro_param_overrides sample_options)" by (simp add: sample_options_def bt_ok_Cons)
  from resumed_artifact_reads_back [OF v this] obtain j where j:
    "resumable (\<lambda>_. Inr sample_prior_json) (\<lambda>_. []) (resume_pipe True) [] sample_options (\<lambda>n r h. RefPresent) j plan'"
    "\<forall>k. bt_get (read_prior_parameters (\<lambda>_. []) (prior_header artifact)) k =
         (case bt_get (ro_param_overrides sample_options) k of
            Some v \<Rightarrow> Some v | None \<Rightarrow> bt_get (read_prior_parameters (\<lambda>_. []) (prior_header j)) k)"
    "\<forall>n. bt_get (pr_nodes (prior_of (\<lambda>_. []) artifact)) n =
         map_option (\<lambda>origin. \<lparr>pr_terminal = SatisfiedFromPrior,
            pr_durable_reference = Option.bind (bt_get (pr_nodes (prior_of (\<lambda>_. []) j)) n) pr_durable_reference,
            pr_content_hash = Option.bind (bt_get (pr_nodes (prior_of (\<lambda>_. []) j)) n) pr_content_hash,
            pr_originating_run = origin\<rparr>) (bt_get (rp_satisfied plan') n)"
    by blast
  have jj: "j = sample_prior_json" "plan' = plan" using j(1) p(1) sample_prior by (auto simp: resumable_def sample_options_def)
  have "bt_get (pr_nodes (resume_prior True)) ''a'' = Some
      \<lparr>pr_terminal = Succeeded, pr_durable_reference = Some ''ref'', pr_content_hash = None, pr_originating_run = ''r''\<rparr>"
    by (simp add: resume_prior_def bt_simps)
  then show ?thesis using v j(2,3) sat sample_prior unfolding jj
    by (intro exI [of _ artifact] exI [of _ plan]) (simp add: sample_options_def bt_simps)
qed

text \<open>
  The lineage of a run that was recorded while it ran names its parent under another key than the
  one the verb reads, so the root of its lineage is lost.
\<close>

lemma lineage_root_lost:
  assumes "rh_resumed_from h = Some parent"
  shows "Option.bind (j_get ''resume_lineage'' (resumed_header new_run_id (run_started_header h run_id) params di forced run_id))
      (\<lambda>l. string_field l ''lineage_root_run_id'') = Some run_id"
    "header_resumed_from (a\<lparr>ra_header := resumed_header new_run_id (run_started_header h run_id) params di forced run_id\<rparr>) = None"
  using assms
  by (simp_all add: resumed_header_def Let_def j_get_obj map_add_def string_field_obj run_started_header_def unwrap_or_def
      header_resumed_from_def split: option.split)

end
