(* ===== verification/Resume_Record.thy ===== *)
theory Resume_Record
  imports Resume_Verb
begin

text \<open>
  From a drive to its resume: what the driver recorded, folded, is a prior run that the same pipeline
  can be resumed from, and a resume leaves out only nodes that the stream shows to have succeeded.
\<close>

section \<open>The prior run of a folded artifact\<close>

lemma filter_values:
  "filter (\<lambda>a. string_field a ''node'' = Some n) (map attempt_to_value ts) = map attempt_to_value (rows_of n ts)"
proof -
  have "string_field (attempt_to_value t) ''node'' = Some (at_node t)" for t
    by (simp add: attempt_to_value_def string_field_obj map_add_def split: option.split)
  then show ?thesis by (induction ts) simp_all
qed

lemma value_status: "string_field (attempt_to_value t) ''status'' = Some (at_status t)"
  by (simp add: attempt_to_value_def string_field_obj map_add_def split: option.split)

lemma artifact_attempts:
  "unwrap_or (Option.bind (j_get ''attempts'' (artifact_to_value a)) as_array) [] = map attempt_to_value (ra_attempts a)"
  by (simp add: artifact_to_value_def Let_def j_get_obj unwrap_or_def as_array_def)

lemma terminal_succeeded: "terminal_from_str s = Succeeded \<longleftrightarrow> s = ''succeeded''"
  by (simp add: terminal_from_str_def)

lemma folded_success:
  "prior_success (prior_of show_json (artifact_to_value a)) n \<noteq> None \<longleftrightarrow>
     rows_of n (ra_attempts a) \<noteq> [] \<and> at_status (last (rows_of n (ra_attempts a))) = ''succeeded''"
proof -
  let ?rows = "rows_of n (ra_attempts a)"
  have get: "bt_get (pr_nodes (prior_of show_json (artifact_to_value a))) n =
      (case rev (map attempt_to_value ?rows) of
         [] \<Rightarrow> None | v # _ \<Rightarrow> Some (prior_node show_json (prior_id (artifact_to_value a)) v))"
    using prior_nodes_get [of "[]" show_json "prior_id (artifact_to_value a)" "map attempt_to_value (ra_attempts a)" n]
    by (simp add: prior_of_def build_prior_run_def artifact_attempts filter_values split: list.split)
  show ?thesis
  proof (cases ?rows rule: rev_cases)
    case Nil
    then show ?thesis using get by (simp add: prior_success_def)
  next
    case (snoc ts t)
    then show ?thesis using get
      by (simp add: prior_success_def prior_node_def value_status unwrap_or_def terminal_succeeded)
  qed
qed

lemma artifact_header:
  assumes "ra_header a = run_started_header h run_id" "k \<noteq> ''overall_outcome''" "k \<noteq> ''errors''"
  shows "j_get k (prior_header (artifact_to_value a)) = j_get k (run_started_header h run_id)"
proof -
  obtain m where m: "run_started_header h run_id = JObject m" "bt_ok m"
    by (simp add: run_started_header_def json_obj_def)
  have "prior_header (artifact_to_value a) = JObject
      (let header = bt_insert ''overall_outcome'' (JString (ra_overall_outcome a)) m
       in if ra_errors a \<noteq> [] then bt_insert ''errors'' (JArray (map JString (ra_errors a))) header else header)"
    by (simp add: prior_header_def artifact_to_value_def Let_def j_get_obj unwrap_or_def assms(1) m(1) as_object_def)
  then show ?thesis using assms(2,3) m by (simp add: j_get_def Let_def)
qed

lemma recorded_gates:
  assumes "ra_header a = run_started_header h run_id"
    "rh_fingerprint_structural h = Some (hex16 s)" "rh_fingerprint_algorithm_version h = 1"
  shows "prior_id (artifact_to_value a) = run_id"
    "pr_structural_fingerprint (prior_of show_json (artifact_to_value a)) = s"
    "pr_algorithm_version (prior_of show_json (artifact_to_value a)) = 1"
    "pr_tool_version (prior_of show_json (artifact_to_value a)) = TOOL_VERSION"
proof -
  let ?h = "prior_header (artifact_to_value a)"
  note get = artifact_header [OF assms(1)]
  have f: "string_field ?h ''run_id'' = Some run_id" "string_field ?h ''fingerprint_structural'' = Some (hex16 s)"
    "u64_field ''fingerprint_algorithm_version'' ?h = Some 1" "string_field ?h ''tool_version'' = None"
    by (simp_all add: string_field_def u64_field_def get run_started_header_def j_get_obj assms as_u64_def json_u32_def)
  show "prior_id (artifact_to_value a) = run_id" by (simp add: prior_id_def f unwrap_or_def)
  show "pr_structural_fingerprint (prior_of show_json (artifact_to_value a)) = s"
    by (simp add: prior_of_def build_prior_run_def parse_fingerprint_hex16 [OF f(2)] unwrap_or_def)
  show "pr_algorithm_version (prior_of show_json (artifact_to_value a)) = 1"
    "pr_tool_version (prior_of show_json (artifact_to_value a)) = TOOL_VERSION"
    by (simp_all add: prior_of_def build_prior_run_def f unwrap_or_def)
qed

section \<open>From a row to the event it comes from\<close>

text \<open>The events that say a node succeeded.\<close>

definition success_event :: "string \<Rightarrow> Event \<Rightarrow> bool" where
  "success_event n ev \<longleftrightarrow> ev = EvNodeTerminal n WSucceeded
     \<or> (\<exists>o'. ev = EvAttemptOutcome o' \<and> ar_node o' = n \<and> ar_status o' = ''succeeded'')"

lemma outcome_record_fields:
  "string_field (event_record run_id seq wall ns (EvAttemptOutcome o')) ''node'' = Some (ar_node o')"
  "string_field (event_record run_id seq wall ns (EvAttemptOutcome o')) ''status'' = Some (ar_status o')"
  by (simp_all add: event_record_def attempt_outcome_fields_def string_field_obj map_add_def split: option.split)

lemma terminal_record_fields:
  "string_field (event_record run_id seq wall ns (EvNodeTerminal m st)) ''node'' = Some m"
  "string_field (event_record run_id seq wall ns (EvNodeTerminal m st)) ''state'' = Some (wire_state_as_str st)"
  by (simp_all add: event_record_def string_field_obj)

lemma outcome_success:
  assumes "x \<in> set (outcomes_of n [event_record run_id seq wall ns ev])" "status_of x = ''succeeded''"
  shows "success_event n ev"
proof -
  from assms(1) have x: "x = event_record run_id seq wall ns ev" "fst (event_wire ev run_id) = ''attempt-outcome''"
    "string_field x ''node'' = Some n"
    by (auto simp: outcomes_of_def kind_of_event record_node_def split: if_splits)
  then obtain o' where ev: "ev = EvAttemptOutcome o'" by (cases ev) auto
  with x assms(2) show ?thesis by (simp add: success_event_def outcome_record_fields status_of_def)
qed

lemma terminal_success:
  assumes "x \<in> set (terminals_of n [event_record run_id seq wall ns ev])" "state_of x = ''succeeded''"
  shows "success_event n ev"
proof -
  from assms(1) have x: "x = event_record run_id seq wall ns ev" "fst (event_wire ev run_id) = ''node-terminal''"
    "string_field x ''node'' = Some n"
    by (auto simp: terminals_of_def kind_of_event record_node_def split: if_splits)
  then obtain m st where ev: "ev = EvNodeTerminal m st" by (cases ev) auto
  with x assms(2) show ?thesis by (cases st) (simp_all add: success_event_def terminal_record_fields state_of_def)
qed

lemma row_success:
  assumes "rows_of n (assemble_attempts (take m (stamped env run_id 0 c events)) nodes) \<noteq> []"
    and "at_status (last (rows_of n (assemble_attempts (take m (stamped env run_id 0 c events)) nodes))) = ''succeeded''"
  shows "\<exists>ev \<in> set events. success_event n ev"
proof -
  let ?rows = "rows_of n (assemble_attempts (take m (stamped env run_id 0 c events)) nodes)"
  let ?rs = "take m (stamped env run_id 0 c events)"
  have last: "last (map at_status ?rows) = ''succeeded''" using assms by (simp add: last_map)
  have event: "\<exists>ev \<in> set events. \<exists>seq wall ns. x = event_record run_id seq wall ns ev" if "x \<in> set ?rs" for x
  proof -
    from that obtain i where i: "i < length events" "x = stamped env run_id 0 c events ! i"
      by (metis in_set_takeD in_set_conv_nth length_stamped)
    with stamped_nth [OF i(1), of env run_id 0 c] show ?thesis by (metis nth_mem)
  qed
  have outs: "\<exists>ev \<in> set events. success_event n ev" if "x \<in> set (outcomes_of n ?rs)" "status_of x = ''succeeded''" for x
  proof -
    have "x \<in> set ?rs" using that(1) by (simp add: outcomes_of_def)
    from event [OF this] obtain ev seq wall ns where ev: "ev \<in> set events" "x = event_record run_id seq wall ns ev" by blast
    moreover have "x \<in> set (outcomes_of n [x])" using that(1) by (auto simp: outcomes_of_def)
    ultimately show ?thesis using outcome_success that(2) by blast
  qed
  have ends: "\<exists>ev \<in> set events. success_event n ev" if "x \<in> set (terminals_of n ?rs)" "state_of x = ''succeeded''" for x
  proof -
    have "x \<in> set ?rs" using that(1) by (simp add: terminals_of_def)
    from event [OF this] obtain ev seq wall ns where ev: "ev \<in> set events" "x = event_record run_id seq wall ns ev" by blast
    moreover have "x \<in> set (terminals_of n [x])" using that(1) by (auto simp: terminals_of_def)
    ultimately show ?thesis using terminal_success that(2) by blast
  qed
  show ?thesis
  proof (cases "outcomes_of n ?rs = []")
    case False
    with last have "status_of (last (outcomes_of n ?rs)) = ''succeeded''" by (simp add: assemble_rows last_map)
    with outs False show ?thesis using last_in_set by blast
  next
    case True
    show ?thesis
    proof (cases "terminals_of n ?rs = []")
      case False
      with True last have "state_of (last (terminals_of n ?rs)) = ''succeeded''" by (simp add: assemble_rows)
      with ends False show ?thesis using last_in_set by blast
    next
      case none: True
      have "map at_status ?rows = (if n \<in> set nodes then [''upstream-failed''] else [])" by (simp add: assemble_rows True none)
      with last assms(1) show ?thesis by (auto split: if_splits)
    qed
  qed
qed

section \<open>Resuming a recorded run\<close>

text \<open>What the first record of a drive says, and what is folded of a stream that was cut.\<close>

lemma plan_log_header:
  assumes "drive_records c pname (Inr plan) allow world = Some r"
  obtains a mid where "assemble (pl_pipeline plan) = Some (Inr a)"
    "dr_log r = EvRunStarted (header_of c pname (capture_env (dw_env world) allow) (Some (compute_fingerprint (pl_pipeline plan)))) # mid"
proof -
  from assms obtain a where a: "assemble (pl_pipeline plan) = Some (Inr a)" and
    d: "drive_plan c (resolve_run_id (dw_minted world) c) plan a world
      [EvRunStarted (header_of c pname (capture_env (dw_env world) allow) (Some (aa_fingerprint a)))] = Some r"
    by (auto simp: drive_records_def Let_def split: option.splits sum.splits)
  have "aa_fingerprint a = compute_fingerprint (pl_pipeline plan)"
    using a by (auto simp: assemble_def Let_def split: if_splits option.splits)
  with drive_plan_log [OF d] that [OF a] show thesis by auto
qed

lemma recorded_fold:
  assumes ft: "float_text_ok (se_float_text env)" and sink: "durable_sink env"
    and drive: "drive env [] clock c pname assembled allow world = Finished rep w"
    and rec: "drive_records c pname assembled allow world = Some r"
    and readable: "\<forall>x \<in> set (stamped env (rp_run_id rep) 0 clock (dr_log r)). reads parse (se_float_text env) x"
    and fold: "fold_stream parse (take k (ew_sink w)) nodes = Inr a"
  obtains m partial where "fold_records (take m (stamped env (rp_run_id rep) 0 clock (dr_log r))) partial nodes = Inr a"
proof -
  let ?id = "resolve_run_id (dw_minted world) c"
  let ?v = "emit_all env (dr_log r) (writer_new [] clock ?id pname)"
  obtain r' where "drive_records c pname assembled allow world = Some r'" and
    fin: "finish_drive env ?id (stream_path (dc_base c) (writer_new ([] :: string) clock ?id pname)) (writer_new [] clock ?id pname) r' = Finished rep w"
    by (rule drive_recorded [OF drive]) (rule that)
  with rec have "r' = r" by simp
  with fin have rep: "rp_run_id rep = ?id" and w: "w = snd (final_flush env ?v)"
    by (auto simp: finish_drive_report Let_def)
  have bytes: "ew_sink w = concat (map (line_of (se_float_text env)) (stamped env ?id 0 clock (dr_log r)))"
    unfolding w by (rule drive_bytes [OF sink])
  have "\<forall>x \<in> set (stamped env ?id 0 clock (dr_log r)). recordable parse (se_float_text env) x"
    using readable stamped_typed [OF rec, of _ env ?id clock] unfolding rep recordable_def by (metis in_set_conv_nth length_stamped)
  from read_torn_stream [OF ft this, of k] obtain m torn where
    "read_records parse (take k (ew_sink w)) = Inr \<lparr>rs_records = take m (stamped env ?id 0 clock (dr_log r)), rs_trailing_partial_discarded = torn\<rparr>"
    unfolding bytes by blast
  with fold have "fold_records (take m (stamped env ?id 0 clock (dr_log r))) torn nodes = Inr a" by (simp add: fold_stream_def)
  then show thesis by (rule that [unfolded rep])
qed

lemma recorded_header:
  assumes "fold_records (take m (stamped env run_id 0 c (EvRunStarted h # events))) partial nodes = Inr a"
  shows "ra_header a = run_started_header h run_id"
proof (cases m)
  case 0
  with assms show ?thesis by (simp add: fold_records_def)
next
  case (Suc j)
  obtain ns c1 where 1: "se_elapsed_ns env c = (ns, c1)" by fastforce
  obtain wall c2 where 2: "se_wall env c1 = (wall, c2)" by fastforce
  obtain rest where r: "stamped env run_id 0 c (EvRunStarted h # events) = event_record run_id 0 wall ns (EvRunStarted h) # rest"
    using 1 2 by simp
  have first: "find (\<lambda>r. kind_of r = Some ''run-started'') (take m (stamped env run_id 0 c (EvRunStarted h # events)))
      = Some (event_record run_id 0 wall ns (EvRunStarted h))"
    unfolding r Suc by (simp add: kind_of_event)
  show ?thesis by (rule fold_records_started [OF first header_of_started, of partial nodes]) (use assms in auto)
qed

lemma fold_attempts_rows:
  assumes "fold_records records partial nodes = Inr a" "rows_of n (ra_attempts a) \<noteq> []"
  shows "ra_attempts a = assemble_attempts records nodes"
  using assms by (auto simp: fold_records_def Let_def split: option.splits prod.splits if_splits)

text \<open>
  C3. A recorded run can be resumed by the pipeline that ran it.  Take what a drive left on disk, cut
  at any byte, and fold it: a resume without overrides gets past the structural gates; the tool
  version it is checked against is never one the run recorded but always this build's own; a resume
  that goes on leaves out only nodes for which the drive recorded a success, and otherwise some
  node's durable output is gone or changed.
\<close>

theorem recorded_run_resumes:
  assumes "float_text_ok (se_float_text env)" "durable_sink env"
    and "drive env [] clock c pname (Inr plan) allow world = Finished rep w"
    and rec: "drive_records c pname (Inr plan) allow world = Some r"
    and "\<forall>x \<in> set (stamped env (rp_run_id rep) 0 clock (dr_log r)). reads parse (se_float_text env) x"
    and "fold_stream parse (take k (ew_sink w)) nodes = Inr a"
    and art: "parse_artifact (to_canonical_json (se_float_text env) a) = Inr (artifact_to_value a)"
    and options: "ro_store_present options" "ro_param_overrides options = []" "ro_interval_override options = None" "rp_run_id rep \<noteq> []"
  shows "case resume_verb parse_artifact show_json (pl_pipeline plan) (to_canonical_json (se_float_text env) a) options probe of
      Refused code message \<Rightarrow> (\<exists>refusal. message = refusal_display refusal
        \<and> (if ro_tool_version options \<noteq> TOOL_VERSION then refusal = ToolVersionMismatch TOOL_VERSION (ro_tool_version options)
           else (\<exists>node reference. refusal = DanglingReference node reference)
             \<or> (\<exists>node reference expected actual. refusal = MutatedReference node reference expected actual)))
    | Resumed artifact resume_plan \<Rightarrow> ro_tool_version options = TOOL_VERSION
        \<and> (\<forall>n \<in> set (gr_node_names (graph_of (pl_pipeline plan))).
             n \<in> set (rp_must_run resume_plan) \<or> (\<exists>ev \<in> set (dr_log r). success_event n ev))"
proof -
  let ?p = "pl_pipeline plan"
  let ?j = "artifact_to_value a"
  let ?prior = "prior_of show_json ?j"
  obtain m partial where f: "fold_records (take m (stamped env (rp_run_id rep) 0 clock (dr_log r))) partial nodes = Inr a"
    by (rule recorded_fold [OF assms(1-6)])
  obtain mid where log: "dr_log r = EvRunStarted (header_of c pname (capture_env (dw_env world) allow) (Some (compute_fingerprint ?p))) # mid"
    by (rule plan_log_header [OF rec])
  have header: "ra_header a = run_started_header
      (header_of c pname (capture_env (dw_env world) allow) (Some (compute_fingerprint ?p))) (rp_run_id rep)"
    by (rule recorded_header [OF f [unfolded log]])
  note gates = recorded_gates [OF header, of "fp_structural (compute_fingerprint ?p)"]
  have gates: "prior_id ?j = rp_run_id rep" "pr_structural_fingerprint ?prior = fp_structural (compute_fingerprint ?p)"
    "pr_algorithm_version ?prior = fp_algorithm_version (compute_fingerprint ?p)" "pr_tool_version ?prior = TOOL_VERSION"
    using gates by (simp_all add: header_of_def resume_gates)
  have success: "\<exists>ev \<in> set (dr_log r). success_event n ev" if "prior_success ?prior n \<noteq> None" for n
  proof -
    from that have rows: "rows_of n (ra_attempts a) \<noteq> []" "at_status (last (rows_of n (ra_attempts a))) = ''succeeded''"
      unfolding folded_success by simp_all
    from fold_attempts_rows [OF f rows(1)] rows show ?thesis
      using row_success [of n m env "rp_run_id rep" clock "dr_log r" nodes] by simp
  qed
  have verb: "resume_verb parse_artifact show_json ?p (to_canonical_json (se_float_text env) a) options probe =
      (case plan_resume ?p ?prior (ro_tool_version options) probe of
         Inl refusal \<Rightarrow> refused (refusal_display refusal)
       | Inr resume_plan \<Rightarrow> Resumed (build_resumed_artifact (ro_new_run_id options) (prior_header ?j)
           (read_prior_parameters show_json (prior_header ?j)) (unwrap_or (j_get ''data_interval'' (prior_header ?j)) JNull)
           False (prior_id ?j) ?prior resume_plan) resume_plan)"
    using options gates(1) unfolding resume_verb_def prior_of_def prior_id_def prior_header_def Let_def art
    by (simp add: derive_parameters_def derive_interval_def split: sum.split)
  show ?thesis
  proof (cases "plan_resume ?p ?prior (ro_tool_version options) probe")
    case (Inl e)
    have "if ro_tool_version options \<noteq> TOOL_VERSION then e = ToolVersionMismatch TOOL_VERSION (ro_tool_version options)
      else (\<exists>n ref. e = DanglingReference n ref) \<or> (\<exists>n ref h b. e = MutatedReference n ref h b)"
      using Inl resolve_demand_exact [where prior = ?prior and g = "graph_of ?p" and seed = "compute_seed ?p ?prior (graph_of ?p)" and probe = probe]
      by (auto simp: plan_resume_def Let_def gates refusal_ok_def split: if_splits sum.splits)
    then show ?thesis unfolding verb Inl refused_def sum.case ResumeOutcome.case by blast
  next
    case (Inr resume_plan)
    have "n \<in> set (rp_must_run resume_plan) \<or> prior_success ?prior n \<noteq> None" if "n \<in> set (gr_node_names (graph_of ?p))" for n
    proof (cases "prior_success ?prior n = None")
      case True
      with that have "n \<in> set (compute_seed ?p ?prior (graph_of ?p))" by (simp add: compute_seed_exact)
      then have "n \<in> must_rerun ?prior (graph_of ?p) (compute_seed ?p ?prior (graph_of ?p))" by (rule must_rerun.seeded)
      moreover have "set (rp_must_run resume_plan) = must_rerun ?prior (graph_of ?p) (compute_seed ?p ?prior (graph_of ?p))"
        using Inr resolve_demand_exact [where prior = ?prior and g = "graph_of ?p" and seed = "compute_seed ?p ?prior (graph_of ?p)" and probe = probe]
        by (auto simp: plan_resume_def Let_def split: if_splits sum.splits)
      ultimately show ?thesis by simp
    qed simp
    moreover have "ro_tool_version options = TOOL_VERSION"
      using Inr by (auto simp: plan_resume_def Let_def gates split: if_splits)
    ultimately show ?thesis using success unfolding verb Inr sum.case ResumeOutcome.case by blast
  qed
qed

section \<open>A run that is resumed\<close>

text \<open>A parser that knows the texts of some records.\<close>

lemma object_unique:
  assumes ft: "float_text_ok ft" and ok: "json_ok (JObject m)" "json_ok (JObject m')"
    and eq: "write_canonical ft (JObject m) @ r = write_canonical ft (JObject m') @ r'"
  shows "m = m' \<and> r = r'"
proof (rule items_unique [where close = "CHR ''}''" and enc = "\<lambda>(k, v). write_json_string k @ CHR '':'' # write_canonical ft v"])
  let ?enc = "\<lambda>(k, v). write_json_string k @ CHR '':'' # write_canonical ft v"
  fix x y q q'
  assume a: "x \<in> set m" "y \<in> set m'" "follow q" "follow q'" "?enc x @ q = ?enc y @ q'"
  obtain k v k' v' where xy: "x = (k, v)" "y = (k', v')" by (cases x; cases y)
  with a(5) have "write_json_string k @ CHR '':'' # write_canonical ft v @ q
      = write_json_string k' @ CHR '':'' # write_canonical ft v' @ q'" by simp
  from string_unique [OF this] have kv: "k = k'" "write_canonical ft v @ q = write_canonical ft v' @ q'" by simp_all
  have "v = v' \<and> q = q'" by (rule canonical_unique [OF ft _ _ a(3,4) kv(2)]) (use a(1,2) xy ok in \<open>auto simp: list_all_iff\<close>)
  with kv xy show "x = y \<and> q = q'" by simp
next
  show "(case x of (k, v) \<Rightarrow> write_json_string k @ CHR '':'' # write_canonical ft v) @ s \<noteq> CHR ''}'' # q" for x s q
    by (cases x) (simp add: object_entry_start)
qed (use ok eq in \<open>auto simp: write_canonical_object simp del: write_canonical.simps(6)\<close>)

definition list_parser :: "float_text \<Rightarrow> Json list \<Rightarrow> string \<Rightarrow> unit + Json" where
  "list_parser ft rs t = (case List.find (\<lambda>r. write_canonical ft r = t) rs of Some r \<Rightarrow> Inr r | None \<Rightarrow> Inl ())"

lemma list_parser_reads:
  assumes ft: "float_text_ok ft" and rs: "\<forall>x \<in> set rs. json_ok x \<and> (\<exists>m. x = JObject m)" and r: "r \<in> set rs"
  shows "reads (list_parser ft rs) ft r"
proof -
  have unique: "x = y \<and> t = []" if "x \<in> set rs" "y \<in> set rs" "write_canonical ft x @ t = write_canonical ft y" for x y t
    using object_unique [OF ft, of _ _ t "[]"] rs that by (metis append_Nil2)
  have "list_parser ft rs (write_canonical ft r) = Inr r"
  proof (cases "List.find (\<lambda>x. write_canonical ft x = write_canonical ft r) rs")
    case None
    with r show ?thesis by (auto simp: find_None_iff)
  next
    case (Some x)
    then have "x \<in> set rs" "write_canonical ft x = write_canonical ft r" by (auto simp: find_Some_iff)
    with unique [of x r "[]"] r Some show ?thesis by (simp add: list_parser_def)
  qed
  moreover have "list_parser ft rs (take n (write_canonical ft r)) = Inl ()" if "n < length (write_canonical ft r)" for n
  proof (cases "List.find (\<lambda>x. write_canonical ft x = take n (write_canonical ft r)) rs")
    case (Some x)
    then have "x \<in> set rs" "write_canonical ft x @ drop n (write_canonical ft r) = write_canonical ft r" by (auto simp: find_Some_iff)
    with unique [of x r] r that show ?thesis by fastforce
  qed (simp add: list_parser_def)
  ultimately show ?thesis by (simp add: reads_def)
qed

definition fresh_options :: ResumeOptions where
  "fresh_options = \<lparr>ro_new_run_id = ''s'', ro_tool_version = TOOL_VERSION, ro_store_present = True, ro_force = False,
     ro_param_overrides = [], ro_interval_override = None\<rparr>"

text \<open>The run of one node is read back whole, and resumed with a probe that finds every reference gone.\<close>

theorem recorded_run_resumes_witness:
  "\<exists>rep w r (parse :: string \<Rightarrow> unit + Json) a. drive sample_env [] 5 one_config ''p'' (Inr one_plan) [] one_world = Finished rep w
     \<and> drive_records one_config ''p'' (Inr one_plan) [] one_world = Some r
     \<and> fold_stream parse (ew_sink w) [''a''] = Inr a
     \<and> (case resume_verb (\<lambda>_. Inr (artifact_to_value a)) (\<lambda>_. []) one_node
           (to_canonical_json plain_float_text a) fresh_options (\<lambda>_ _ _. RefAbsent) of
          Refused code message \<Rightarrow> (\<exists>refusal. message = refusal_display refusal
            \<and> ((\<exists>node reference. refusal = DanglingReference node reference)
               \<or> (\<exists>node reference expected actual. refusal = MutatedReference node reference expected actual)))
        | Resumed artifact resume_plan \<Rightarrow>
            ''a'' \<in> set (rp_must_run resume_plan) \<or> (\<exists>ev \<in> set (dr_log r). success_event ''a'' ev))"
proof -
  obtain rep w where d: "drive sample_env [] 5 one_config ''p'' (Inr one_plan) [] one_world = Finished rep w"
    by (rule one_drive)
  obtain r where r: "drive_records one_config ''p'' (Inr one_plan) [] one_world = Some r"
    and fin: "finish_drive sample_env (resolve_run_id (dw_minted one_world) one_config)
       (stream_path (dc_base one_config) (writer_new ([] :: string) (5 :: u64) (resolve_run_id (dw_minted one_world) one_config) ''p''))
       (writer_new [] 5 (resolve_run_id (dw_minted one_world) one_config) ''p'') r = Finished rep w"
    by (rule drive_recorded [OF d])
  have id: "rp_run_id rep = ''r''"
    using fin by (auto simp: finish_drive_report Let_def resolve_run_id_def one_config_def config_grace_def config_new_def one_world_def)
  let ?rs = "stamped sample_env (rp_run_id rep) 0 5 (dr_log r)"
  let ?parse = "list_parser plain_float_text ?rs"
  have sink: "durable_sink sample_env" "se_float_text sample_env = plain_float_text" by (simp_all add: durable_sink_def sample_env_def)
  have ok: "\<forall>x \<in> set ?rs. json_ok x \<and> (\<exists>m. x = JObject m)"
    using stamped_typed [OF r, of _ sample_env "rp_run_id rep" 5] by (metis in_set_conv_nth length_stamped)
  then have reads: "\<forall>x \<in> set ?rs. reads ?parse (se_float_text sample_env) x"
    using list_parser_reads [OF plain_float_text_ok ok] by (simp add: sink(2))
  have "\<exists>a. fold_stream ?parse (take (length (ew_sink w)) (ew_sink w)) [''a''] = Inr a"
  proof -
    obtain mid where log: "dr_log r = EvRunStarted (header_of one_config ''p'' (capture_env (dw_env one_world) [])
        (Some (compute_fingerprint (pl_pipeline one_plan)))) # mid"
      by (rule plan_log_header [OF r])
    have bytes: "ew_sink w = concat (map (line_of plain_float_text) ?rs)"
      using fin drive_bytes [OF sink(1), of "dr_log r" 5 "rp_run_id rep" "''p''"] sink(2)
      by (auto simp: finish_drive_report Let_def)
    have "\<forall>x \<in> set ?rs. recordable ?parse plain_float_text x" using ok reads by (simp add: recordable_def sink(2))
    from read_torn_stream [OF plain_float_text_ok this, of "length (ew_sink w)"] obtain m torn where
      m: "cut_at plain_float_text ?rs (ew_sink w) m torn"
      "read_records ?parse (ew_sink w) = Inr \<lparr>rs_records = take m ?rs, rs_trailing_partial_discarded = torn\<rparr>"
      unfolding bytes [symmetric] by auto
    have m: "read_records ?parse (ew_sink w) = Inr \<lparr>rs_records = ?rs, rs_trailing_partial_discarded = torn\<rparr>"
      using m cut_whole [OF m(1) [unfolded bytes]] by simp
    obtain ns c1 where 1: "se_elapsed_ns sample_env 5 = (ns, c1)" by fastforce
    obtain wall c2 where 2: "se_wall sample_env c1 = (wall, c2)" by fastforce
    have "find (\<lambda>r. kind_of r = Some ''run-started'') ?rs = Some (hd ?rs)"
      unfolding log by (simp add: 1 2 kind_of_event)
    moreover obtain h where "j_get ''header'' (hd ?rs) = Some h" unfolding log by (simp add: 1 2 header_of_started)
    ultimately obtain a where "fold_records ?rs torn [''a''] = Inr a" by (rule fold_records_started)
    then show ?thesis by (simp add: fold_stream_def m)
  qed
  then obtain a where a: "fold_stream ?parse (take (length (ew_sink w)) (ew_sink w)) [''a''] = Inr a" by blast
  have opts: "ro_store_present fresh_options" "ro_param_overrides fresh_options = []" "ro_interval_override fresh_options = None"
    "rp_run_id rep \<noteq> []"
    by (simp_all add: fresh_options_def id)
  have plan: "pl_pipeline one_plan = one_node" by (simp add: one_plan_def plan_new_def)
  have "float_text_ok (se_float_text sample_env)" by (simp add: sink(2) plain_float_text_ok)
  note res = recorded_run_resumes [OF this sink(1) d r reads a refl opts, where show_json = "\<lambda>_. []" and probe = "\<lambda>_ _ _. RefAbsent"]
  have "ro_tool_version fresh_options = TOOL_VERSION" by (simp add: fresh_options_def)
  moreover have "''a'' \<in> set (gr_node_names (graph_of one_node))" by code_simp
  ultimately have "case resume_verb (\<lambda>_. Inr (artifact_to_value a)) (\<lambda>_. []) one_node
      (to_canonical_json plain_float_text a) fresh_options (\<lambda>_ _ _. RefAbsent) of
        Refused code message \<Rightarrow> (\<exists>refusal. message = refusal_display refusal
          \<and> ((\<exists>node reference. refusal = DanglingReference node reference)
             \<or> (\<exists>node reference expected actual. refusal = MutatedReference node reference expected actual)))
      | Resumed artifact resume_plan \<Rightarrow>
          ''a'' \<in> set (rp_must_run resume_plan) \<or> (\<exists>ev \<in> set (dr_log r). success_event ''a'' ev)"
    using res unfolding plan sink(2)
    by (cases "resume_verb (\<lambda>_. Inr (artifact_to_value a)) (\<lambda>_. []) one_node
        (to_canonical_json plain_float_text a) fresh_options (\<lambda>_ _ _. RefAbsent)") simp_all
  moreover have "fold_stream ?parse (ew_sink w) [''a''] = Inr a" using a by simp
  ultimately show ?thesis using d r
    by (intro exI [of _ rep] exI [of _ w] exI [of _ r] exI [of _ ?parse] exI [of _ a] conjI)
qed

end
