(* ===== verification/Digest.thy ===== *)
theory Digest
  imports Scratch
begin

text \<open>
  The content address (\<open>crates/blob/src/digest.rs\<close>): SHA-256 as the code streams it, block by block, and
  HMAC over it (\<open>crates/blob/src/hmac.rs\<close>).  The lemmas show that hashing in pieces, however they are
  cut, is the function of the standard on the whole message: padding, splitting into blocks and folding
  the compression over them.
\<close>

section \<open>The compression function\<close>

definition ALGORITHM :: string where "ALGORITHM = ''sha256''"

definition SHA_H0 :: "u32 list" where
  "SHA_H0 = [0x6a09e667, 0xbb67ae85, 0x3c6ef372, 0xa54ff53a, 0x510e527f, 0x9b05688c, 0x1f83d9ab, 0x5be0cd19]"

definition SHA_K :: "u32 list" where
  "SHA_K =
     [0x428a2f98, 0x71374491, 0xb5c0fbcf, 0xe9b5dba5, 0x3956c25b, 0x59f111f1, 0x923f82a4, 0xab1c5ed5,
      0xd807aa98, 0x12835b01, 0x243185be, 0x550c7dc3, 0x72be5d74, 0x80deb1fe, 0x9bdc06a7, 0xc19bf174,
      0xe49b69c1, 0xefbe4786, 0x0fc19dc6, 0x240ca1cc, 0x2de92c6f, 0x4a7484aa, 0x5cb0a9dc, 0x76f988da,
      0x983e5152, 0xa831c66d, 0xb00327c8, 0xbf597fc7, 0xc6e00bf3, 0xd5a79147, 0x06ca6351, 0x14292967,
      0x27b70a85, 0x2e1b2138, 0x4d2c6dfc, 0x53380d13, 0x650a7354, 0x766a0abb, 0x81c2c92e, 0x92722c85,
      0xa2bfe8a1, 0xa81a664b, 0xc24b8b70, 0xc76c51a3, 0xd192e819, 0xd6990624, 0xf40e3585, 0x106aa070,
      0x19a4c116, 0x1e376c08, 0x2748774c, 0x34b0bcb5, 0x391c0cb3, 0x4ed8aa4a, 0x5b9cca4f, 0x682e6ff3,
      0x748f82ee, 0x78a5636f, 0x84c87814, 0x8cc70208, 0x90befffa, 0xa4506ceb, 0xbef9a3f7, 0xc67178f2]"

definition be_word :: "u8 list \<Rightarrow> u32" where
  "be_word chunk = fold (\<lambda>b w. push_bit 8 w OR ucast b) chunk 0"

fun chunks_exact4 :: "u8 list \<Rightarrow> u8 list list" where
  "chunks_exact4 (a # b # c # d # rest) = [a, b, c, d] # chunks_exact4 rest"
| "chunks_exact4 _ = []"

text \<open>\<open>to_be_bytes\<close> of a word of \<open>n\<close> bytes.\<close>

definition be_bytes :: "nat \<Rightarrow> 'a::len word \<Rightarrow> u8 list" where
  "be_bytes n w = map (\<lambda>i. ucast (drop_bit (8 * i) w)) (rev [0..<n])"

definition schedule_word :: "u32 list \<Rightarrow> nat \<Rightarrow> u32" where
  "schedule_word w i =
     (let s0 = word_rotr 7 (w ! (i - 15)) XOR word_rotr 18 (w ! (i - 15)) XOR drop_bit 3 (w ! (i - 15));
          s1 = word_rotr 17 (w ! (i - 2)) XOR word_rotr 19 (w ! (i - 2)) XOR drop_bit 10 (w ! (i - 2))
      in w ! (i - 16) + s0 + w ! (i - 7) + s1)"

definition schedule :: "u8 list \<Rightarrow> u32 list" where
  "schedule block =
     fold (\<lambda>i w. w[i := schedule_word w i]) [16..<64] (map be_word (chunks_exact4 block) @ replicate 48 0)"

definition compress_round :: "u32 \<times> u32 \<Rightarrow> u32 list \<Rightarrow> u32 list" where
  "compress_round = (\<lambda>(k, wi) v.
     let s1 = word_rotr 6 (v ! 4) XOR word_rotr 11 (v ! 4) XOR word_rotr 25 (v ! 4);
         ch = (v ! 4 AND v ! 5) XOR (NOT (v ! 4) AND v ! 6);
         temp1 = v ! 7 + s1 + ch + k + wi;
         s0 = word_rotr 2 (v ! 0) XOR word_rotr 13 (v ! 0) XOR word_rotr 22 (v ! 0);
         maj = (v ! 0 AND v ! 1) XOR (v ! 0 AND v ! 2) XOR (v ! 1 AND v ! 2);
         temp2 = s0 + maj
     in [temp1 + temp2, v ! 0, v ! 1, v ! 2, v ! 3 + temp1, v ! 4, v ! 5, v ! 6])"

definition compress :: "u32 list \<Rightarrow> u8 list \<Rightarrow> u32 list" where
  "compress state block =
     map (\<lambda>(slot, v). slot + v) (zip state (fold compress_round (zip SHA_K (schedule block)) state))"

section \<open>The streaming hasher\<close>

record Sha256 =
  sh_state :: "u32 list"
  sh_block :: "u8 list"
  sh_filled :: nat
  sh_total_bits :: u64

definition sha_new :: Sha256 where
  "sha_new = \<lparr>sh_state = SHA_H0, sh_block = replicate 64 0, sh_filled = 0, sh_total_bits = 0\<rparr>"

definition flush_block :: "Sha256 \<Rightarrow> Sha256" where
  "flush_block s =
     (if sh_filled s = 64 then s\<lparr>sh_state := compress (sh_state s) (sh_block s), sh_filled := 0\<rparr> else s)"

text \<open>
  The loop of \<open>update\<close>.  Between its turns the block is never full, so nothing is left to take exactly
  when the rest is empty.
\<close>

function update_loop :: "Sha256 \<Rightarrow> u8 list \<Rightarrow> Sha256" where
  "update_loop s rest =
     (let taken = min (64 - sh_filled s) (length rest)
      in if taken = 0 then s
         else update_loop
           (flush_block (s\<lparr>sh_block := take (sh_filled s) (sh_block s) @ take taken rest
                              @ drop (sh_filled s + taken) (sh_block s),
                           sh_filled := sh_filled s + taken\<rparr>))
           (drop taken rest))"
  by pat_completeness auto
termination by (relation "measure (\<lambda>(s, rest). length rest)") auto

declare update_loop.simps [simp del]

definition sha_update :: "u8 list \<Rightarrow> Sha256 \<Rightarrow> Sha256" where
  "sha_update bytes s = update_loop (s\<lparr>sh_total_bits := sh_total_bits s + of_nat (length bytes) * 8\<rparr>) bytes"

definition update_raw_byte :: "u8 \<Rightarrow> Sha256 \<Rightarrow> Sha256" where
  "update_raw_byte b s = flush_block (s\<lparr>sh_block := (sh_block s)[sh_filled s := b], sh_filled := sh_filled s + 1\<rparr>)"

definition update_raw :: "u8 list \<Rightarrow> Sha256 \<Rightarrow> Sha256" where
  "update_raw bytes s = fold update_raw_byte bytes s"

text \<open>The zeros of the padding; the block is never full, so the place 56 is reached.\<close>

function pad_zeros :: "Sha256 \<Rightarrow> Sha256" where
  "pad_zeros s = (if sh_filled s = 56 \<or> 64 \<le> sh_filled s then s else pad_zeros (update_raw [0] s))"
  by pat_completeness auto
termination
  by (relation "measure (\<lambda>s. if sh_filled s \<le> 56 then 56 - sh_filled s else 120 - sh_filled s)")
    (auto simp: update_raw_def update_raw_byte_def flush_block_def)

declare pad_zeros.simps [simp del]

definition sha_finish :: "Sha256 \<Rightarrow> u8 list" where
  "sha_finish s =
     (let bits = sh_total_bits s;
          s = update_raw (be_bytes 8 bits) (pad_zeros (update_raw [0x80] s))
      in concat (map (be_bytes 4) (sh_state s)))"

definition sha256 :: "u8 list \<Rightarrow> u8 list" where
  "sha256 bytes = sha_finish (sha_update bytes sha_new)"

definition to_hex :: "u8 list \<Rightarrow> string" where
  "to_hex digest = concat (map hex_byte digest)"

section \<open>HMAC\<close>

definition hmac_block :: "u8 list \<Rightarrow> u8 list" where
  "hmac_block key =
     (let k = (if length key > 64 then sha_finish (sha_update key sha_new) else key)
      in k @ replicate (64 - length k) 0)"

definition hmac_sha256 :: "u8 list \<Rightarrow> u8 list \<Rightarrow> u8 list" where
  "hmac_sha256 key message =
     (let block = hmac_block key;
          inner_pad = map (\<lambda>b. 0x36 XOR b) block;
          outer_pad = map (\<lambda>b. 0x5c XOR b) block;
          inner = sha_finish (sha_update message (sha_update inner_pad sha_new))
      in sha_finish (sha_update inner (sha_update outer_pad sha_new)))"

section \<open>The function of the standard\<close>

text \<open>A message is padded with a one, zeros and its length in bits, cut into blocks, and folded.\<close>

definition sha_padded :: "u8 list \<Rightarrow> u8 list" where
  "sha_padded m = m @ [0x80] @ replicate ((119 - length m mod 64) mod 64) 0 @ be_bytes 8 (of_nat (8 * length m) :: u64)"

function message_blocks :: "u8 list \<Rightarrow> u8 list list" where
  "message_blocks m = (if m = [] then [] else take 64 m # message_blocks (drop 64 m))"
  by pat_completeness auto
termination by (relation "measure length") auto

declare message_blocks.simps [simp del]

definition sha256_standard :: "u8 list \<Rightarrow> u8 list" where
  "sha256_standard m = concat (map (be_bytes 4) (foldl compress SHA_H0 (message_blocks (sha_padded m))))"

definition hmac_standard :: "u8 list \<Rightarrow> u8 list \<Rightarrow> u8 list" where
  "hmac_standard key message =
     (let k = (if length key > 64 then sha256_standard key else key);
          block = k @ replicate (64 - length k) 0
      in sha256_standard (map (\<lambda>b. 0x5c XOR b) block @ sha256_standard (map (\<lambda>b. 0x36 XOR b) block @ message)))"

section \<open>Streaming is the function of the standard\<close>

text \<open>What a hasher holds after it has taken in the bytes of a message.\<close>

definition absorbed :: "u8 list \<Rightarrow> Sha256 \<Rightarrow> bool" where
  "absorbed m s \<longleftrightarrow> sh_filled s = length m mod 64 \<and> length (sh_block s) = 64
     \<and> take (sh_filled s) (sh_block s) = drop (length m - length m mod 64) m
     \<and> sh_state s = foldl compress SHA_H0 (message_blocks (take (length m - length m mod 64) m))"

lemma absorbed_new: "absorbed [] sha_new"
  by (simp add: absorbed_def sha_new_def message_blocks.simps [of "[]"])

lemma message_blocks_append:
  "length a mod 64 = 0 \<Longrightarrow> message_blocks (a @ b) = message_blocks a @ message_blocks b"
proof (induction a rule: message_blocks.induct)
  case (1 m)
  show ?case
  proof (cases "m = []")
    case False
    then have "64 \<le> length m" using 1(2) by (metis length_greater_0_conv linorder_not_le mod_less neq0_conv)
    with 1 False show ?thesis
      by (subst (1 2) message_blocks.simps) (simp add: mod_if [of "length m" 64])
  qed (simp add: message_blocks.simps [of "[]"])
qed

lemma message_blocks_single: "length b = 64 \<Longrightarrow> message_blocks b = [b]"
  by (subst message_blocks.simps) (auto simp: message_blocks.simps [of "[]"])

text \<open>One step takes in a piece that fits into the block.\<close>

lemma absorb_piece:
  assumes s: "absorbed m s" and piece: "length piece \<le> 64 - sh_filled s"
    and s': "s' = flush_block (s\<lparr>sh_block := take (sh_filled s) (sh_block s) @ piece @ drop (sh_filled s + length piece) (sh_block s),
        sh_filled := sh_filled s + length piece\<rparr>)"
  shows "absorbed (m @ piece) s'"
proof -
  let ?n = "length m mod 64"
  define whole where "whole = take (length m - ?n) m"
  define part where "part = drop (length m - ?n) m"
  have n: "?n < 64" "?n \<le> length m" by simp_all
  have split: "m = whole @ part" "length part = ?n" "length whole = length m - ?n" by (simp_all add: whole_def part_def)
  have w64: "length whole mod 64 = 0" using n by (simp add: split(3) minus_mod_eq_mult_div)
  have f: "sh_filled s = ?n" "length (sh_block s) = 64" "take ?n (sh_block s) = part"
    "sh_state s = foldl compress SHA_H0 (message_blocks whole)"
    using s by (auto simp: absorbed_def whole_def part_def)
  show ?thesis
  proof (cases "?n + length piece = 64")
    case True
    have len: "length (m @ piece) mod 64 = 0"
    proof -
      have "length (m @ piece) = length whole + 64" unfolding length_append split(3) using True n(2) by linarith
      then show ?thesis using w64 by simp
    qed
    have block: "take ?n (sh_block s) @ piece @ drop (?n + length piece) (sh_block s) = part @ piece" using f True by simp
    have "message_blocks (m @ piece) = message_blocks whole @ [part @ piece]"
      using message_blocks_append [OF w64, of "part @ piece"] message_blocks_single [of "part @ piece"] True split(2)
      by (subst split(1)) simp
    then show ?thesis using len True f split(2) by (simp add: absorbed_def s' flush_block_def block)
  next
    case False
    then have less: "?n + length piece < 64" using piece f(1) n by simp
    have len: "length (m @ piece) mod 64 = ?n + length piece"
    proof -
      have "length (m @ piece) = length whole + (?n + length piece)" unfolding length_append split(3) using n(2) by linarith
      then have "length (m @ piece) mod 64 = (?n + length piece) mod 64"
        using w64 by (metis add_0 mod_add_left_eq)
      with less show ?thesis by simp
    qed
    have "length (m @ piece) - length (m @ piece) mod 64 = length whole"
      unfolding len unfolding length_append split(3) using n(2) by linarith
    moreover have "m @ piece = whole @ part @ piece" by (subst split(1)) simp
    ultimately have "take (length (m @ piece) - length (m @ piece) mod 64) (m @ piece) = whole"
      "drop (length (m @ piece) - length (m @ piece) mod 64) (m @ piece) = part @ piece" by simp_all
    with len False f split(2) less show ?thesis by (simp add: absorbed_def s' flush_block_def)
  qed
qed

lemma flush_block_bits [simp]: "sh_total_bits (flush_block s) = sh_total_bits s"
  by (simp add: flush_block_def)

lemma absorbed_bits [simp]: "absorbed m (s\<lparr>sh_total_bits := n\<rparr>) = absorbed m s"
  by (simp add: absorbed_def)

lemma absorb_loop: "absorbed m s \<Longrightarrow> absorbed (m @ rest) (update_loop s rest) \<and> sh_total_bits (update_loop s rest) = sh_total_bits s"
proof (induction s rest arbitrary: m rule: update_loop.induct)
  case (1 s rest)
  let ?t = "min (64 - sh_filled s) (length rest)"
  have filled: "sh_filled s < 64" using 1(2) by (simp add: absorbed_def)
  show ?case
  proof (cases "?t = 0")
    case True
    with filled have "rest = []" by (auto simp: min_def split: if_splits)
    with 1(2) True show ?thesis by (subst (1 2) update_loop.simps) (simp add: Let_def)
  next
    case False
    let ?s = "flush_block (s\<lparr>sh_block := take (sh_filled s) (sh_block s) @ take ?t rest @ drop (sh_filled s + ?t) (sh_block s),
        sh_filled := sh_filled s + ?t\<rparr>)"
    have "absorbed (m @ take ?t rest) ?s" by (rule absorb_piece [OF 1(2)]) simp_all
    from 1(1) [OF refl False this] False show ?thesis
      by (subst (1 2) update_loop.simps) (simp add: Let_def del: min_less_iff_conj)
  qed
qed

lemma absorb_byte: "absorbed m s \<Longrightarrow> absorbed (m @ [b]) (update_raw_byte b s)"
proof -
  assume s: "absorbed m s"
  then have filled: "sh_filled s < 64" "length (sh_block s) = 64" by (simp_all add: absorbed_def)
  then have "(sh_block s)[sh_filled s := b] = take (sh_filled s) (sh_block s) @ [b] @ drop (sh_filled s + length [b]) (sh_block s)"
    by (simp add: upd_conv_take_nth_drop)
  then show ?thesis using filled by (intro absorb_piece [OF s]) (simp_all add: update_raw_byte_def)
qed

lemma absorb_raw: "absorbed m s \<Longrightarrow> absorbed (m @ bytes) (update_raw bytes s)"
proof (induction bytes arbitrary: m s)
  case (Cons b bytes)
  from Cons.IH [OF absorb_byte [OF Cons.prems]] show ?case by (simp add: update_raw_def)
qed (simp add: update_raw_def)

text \<open>The arithmetic of the padding: how many zeros reach place 56, after one more byte and in all.\<close>

lemma zeros_step:
  assumes "n mod 64 \<noteq> (56 :: nat)"
  shows "(120 - n mod 64) mod 64 = Suc ((120 - Suc n mod 64) mod 64)"
proof -
  obtain r where r: "n mod 64 = r" "r < 64" by simp
  have s: "Suc n mod 64 = (if r = 63 then 0 else Suc r)" using r(1) by (simp add: mod_Suc)
  consider "r < 56" | "56 < r" "r < 63" | "r = 63" using assms r by linarith
  then show ?thesis
  proof cases
    case 1
    then have "120 - r = 64 + (56 - r)" "120 - Suc r = 64 + (55 - r)" by simp_all
    then have "(120 - r) mod 64 = (56 - r) mod 64" "(120 - Suc r) mod 64 = (55 - r) mod 64" by (metis mod_add_self1)+
    with 1 show ?thesis by (simp add: r s)
  qed (use r in \<open>simp_all add: s\<close>)
qed

lemma zeros_first: "(120 - Suc n mod 64) mod 64 = (119 - n mod 64) mod (64 :: nat)"
  by (simp add: mod_Suc)

lemma zeros_total: "(n + Suc ((119 - n mod 64) mod 64 + 8)) mod 64 = (0 :: nat)"
proof -
  define q r where "q = n div 64" and "r = n mod 64"
  then have n: "n = 64 * q + r" "n mod 64 = r" "r < 64" by simp_all
  have "(119 - r) mod 64 = (if r < 56 then 55 - r else 119 - r)"
    using le_mod_geq [of 64 "119 - r"] n(3) by auto
  then have "n + Suc ((119 - r) mod 64 + 8) = 64 * (if r < 56 then q + 1 else q + 2)"
    using n(1,3) by (auto split: if_splits)
  then show ?thesis by (simp add: n(2))
qed

lemma absorb_zeros: "absorbed m s \<Longrightarrow> absorbed (m @ replicate ((120 - length m mod 64) mod 64) 0) (pad_zeros s)"
proof (induction s arbitrary: m rule: pad_zeros.induct)
  case (1 s)
  then have f: "sh_filled s = length m mod 64" by (simp add: absorbed_def)
  show ?case
  proof (cases "length m mod 64 = 56")
    case True
    with 1(2) f show ?thesis by (subst pad_zeros.simps) simp
  next
    case False
    have "\<not> (sh_filled s = 56 \<or> 64 \<le> sh_filled s)" using False f by simp
    from 1(1) [OF this absorb_raw [OF 1(2), of "[0]"]]
    have "absorbed ((m @ [0]) @ replicate ((120 - length (m @ [0]) mod 64) mod 64) 0) (pad_zeros s)"
      using \<open>\<not> (sh_filled s = 56 \<or> 64 \<le> sh_filled s)\<close> by (subst pad_zeros.simps) simp
    moreover have "(120 - length m mod 64) mod 64 = Suc ((120 - length (m @ [0]) mod 64) mod 64)"
      using zeros_step [OF False] by simp
    ultimately show ?thesis by simp
  qed
qed

lemma absorbed_whole: "absorbed m s \<Longrightarrow> length m mod 64 = 0 \<Longrightarrow> sh_state s = foldl compress SHA_H0 (message_blocks m)"
  by (simp add: absorbed_def)

lemma length_be_bytes [simp]: "length (be_bytes n w) = n"
  by (simp add: be_bytes_def)

lemma padded_length: "length (sha_padded m) mod 64 = 0"
  using zeros_total [of "length m"] by (simp add: sha_padded_def)

lemma finish_standard:
  assumes "absorbed m s" "sh_total_bits s = of_nat (8 * length m)"
  shows "sha_finish s = sha256_standard m"
proof -
  have "absorbed (((m @ [0x80]) @ replicate ((120 - length (m @ [0x80]) mod 64) mod 64) 0) @ be_bytes 8 (sh_total_bits s))
      (update_raw (be_bytes 8 (sh_total_bits s)) (pad_zeros (update_raw [0x80] s)))"
    by (intro absorb_raw absorb_zeros assms(1))
  moreover have "(120 - length (m @ [0x80 :: u8]) mod 64) mod 64 = (119 - length m mod 64) mod 64"
    using zeros_first [of "length m"] by simp
  ultimately have "absorbed (sha_padded m) (update_raw (be_bytes 8 (sh_total_bits s)) (pad_zeros (update_raw [0x80] s)))"
    by (simp only: sha_padded_def assms(2) append_assoc)
  from absorbed_whole [OF this padded_length] show ?thesis by (simp add: sha_finish_def sha256_standard_def Let_def)
qed

lemma more_bits: "of_nat (8 * length (m :: u8 list)) + of_nat (length piece) * 8 = (of_nat (8 * length (m @ piece)) :: u64)"
proof -
  have "8 * length (m @ piece) = 8 * length m + length piece * 8" by simp
  then show ?thesis by (simp only: of_nat_add of_nat_mult of_nat_numeral)
qed

lemma sha_update_absorbs:
  assumes "absorbed m s" "sh_total_bits s = of_nat (8 * length m)"
  shows "absorbed (m @ piece) (sha_update piece s) \<and> sh_total_bits (sha_update piece s) = of_nat (8 * length (m @ piece))"
proof -
  let ?s = "s\<lparr>sh_total_bits := sh_total_bits s + of_nat (length piece) * 8\<rparr>"
  have "sh_total_bits ?s = of_nat (8 * length (m @ piece))" unfolding assms(2) more_bits by simp
  moreover have "absorbed m ?s" using assms(1) by simp
  ultimately show ?thesis using absorb_loop [of m ?s piece] unfolding sha_update_def by metis
qed

lemma updates_absorb:
  "absorbed m s \<Longrightarrow> sh_total_bits s = of_nat (8 * length m) \<Longrightarrow>
    absorbed (m @ concat pieces) (fold sha_update pieces s) \<and> sh_total_bits (fold sha_update pieces s) = of_nat (8 * length (m @ concat pieces))"
proof (induction pieces arbitrary: m s)
  case (Cons piece pieces)
  note step = sha_update_absorbs [OF Cons.prems, of piece]
  from Cons.IH [OF conjunct1 [OF step] conjunct2 [OF step]] show ?case by (simp only: fold.simps o_apply concat.simps append_assoc)
qed simp

lemma sha_stream: "sha_finish (fold sha_update ps sha_new) = sha256_standard (concat ps)"
proof -
  have "absorbed ([] @ concat ps) (fold sha_update ps sha_new) \<and> sh_total_bits (fold sha_update ps sha_new) = of_nat (8 * length ([] @ concat ps))"
    by (rule updates_absorb [OF absorbed_new]) (simp add: sha_new_def)
  then show ?thesis using finish_standard by simp
qed

lemma sha256_is_standard: "sha256 bytes = sha256_standard bytes"
  using sha_stream [of "[bytes]"] by (simp add: sha256_def)

text \<open>A digest has 32 bytes.\<close>

lemma compress_length: "length st = 8 \<Longrightarrow> length (compress st block) = 8"
proof -
  assume st: "length st = 8"
  have "length (fold compress_round ps v) = 8" if "length v = 8" for ps v
    using that by (induction ps arbitrary: v) (auto simp: compress_round_def Let_def)
  with st show ?thesis by (simp add: compress_def)
qed

lemma length_sha256 [simp]: "length (sha256 bytes) = 32"
proof -
  have "length (foldl compress st bs) = 8" if "length st = 8" for st bs
    using that by (induction bs arbitrary: st) (simp_all add: compress_length)
  from this [of SHA_H0] have 8: "length (foldl compress SHA_H0 bs) = 8" for bs by (simp add: SHA_H0_def)
  have "length (concat (map (be_bytes 4) ws)) = 4 * length ws" for ws :: "u32 list" by (induction ws) simp_all
  then show ?thesis by (simp add: sha256_is_standard sha256_standard_def 8)
qed

text \<open>
  C40. Hashing in pieces is SHA-256 of the whole: however a message is cut into updates, the digest is
  the standard's function of their concatenation, padding, length field and block boundaries
  included; and the keyed hash is the standard's construction over it.
\<close>

theorem sha256_streams:
  "sha_finish (fold sha_update pieces sha_new) = sha256_standard (concat pieces)
   \<and> hmac_sha256 key message = hmac_standard key message"
proof -
  have "hmac_sha256 key message = hmac_standard key message"
    using sha_stream [of "[key]"] sha_stream [of "[map (\<lambda>b. 0x36 XOR b) (hmac_block key), message]"]
      sha_stream [of "[map (\<lambda>b. 0x5c XOR b) (hmac_block key), sha256_standard (map (\<lambda>b. 0x36 XOR b) (hmac_block key) @ message)]"]
    by (simp add: hmac_sha256_def hmac_standard_def hmac_block_def Let_def)
  with sha_stream show ?thesis by simp
qed

end
