(* ===== verification/Blob_Store.thy ===== *)
theory Blob_Store
  imports Digest Std_Text
begin

text \<open>
  The blob port (\<open>crates/blob/src/store.rs\<close>) and its local backend (\<open>crates/blob/src/local.rs\<close>): content
  keys, self-describing references, the three classes of failure, and the operations of the port over
  the file system of the scratch store, whose calls may fail or crash.  The lemmas show that a reference
  is read back as it was written, that a put is atomic and a get never returns other bytes than the
  key's, that a probe measures what is stored however the reads cut the file, and that removing one blob
  leaves every other one, which the locale states as the law a collector needs.
\<close>

section \<open>Keys\<close>

record BlobKey =
  bk_algorithm :: string
  bk_hex :: string

definition blob_key_of :: "u8 list \<Rightarrow> BlobKey" where
  "blob_key_of bytes = \<lparr>bk_algorithm = ALGORITHM, bk_hex = to_hex (sha256 bytes)\<rparr>"

definition key_matches :: "BlobKey \<Rightarrow> u8 list \<Rightarrow> bool" where
  "key_matches k bytes \<longleftrightarrow> bk_algorithm k = ALGORITHM \<and> bk_hex k = to_hex (sha256 bytes)"

definition is_hex_lower :: "char \<Rightarrow> bool" where
  "is_hex_lower c \<longleftrightarrow> (let n = of_char c :: nat in (48 \<le> n \<and> n \<le> 57) \<or> (97 \<le> n \<and> n \<le> 102))"

definition key_from_parts :: "string \<Rightarrow> string \<Rightarrow> BlobKey option" where
  "key_from_parts algorithm hex =
     (if algorithm \<noteq> ALGORITHM \<or> length hex \<noteq> 64 then None
      else if \<not> list_all is_hex_lower hex then None
      else Some \<lparr>bk_algorithm = algorithm, bk_hex = hex\<rparr>)"

definition key_display :: "BlobKey \<Rightarrow> string" where
  "key_display k = bk_algorithm k @ '':'' @ bk_hex k"

text \<open>The derived order: the algorithm first, then the digest.\<close>

definition sort_keys :: "BlobKey list \<Rightarrow> BlobKey list" where
  "sort_keys = sort_key (\<lambda>k. (bk_algorithm k, bk_hex k))"

section \<open>References\<close>

definition REFERENCE_SCHEME_PREFIX :: string where
  "REFERENCE_SCHEME_PREFIX = ''dagr-blob+''"

record BlobRef =
  br_backend :: string
  br_container :: string
  br_key :: BlobKey

record BlobRefError =
  bre_reference :: string
  bre_reason :: string

text \<open>\<open>split_once\<close> at a string and \<open>rsplit_once\<close> at a character.\<close>

fun split_once_str :: "string \<Rightarrow> string \<Rightarrow> (string \<times> string) option" where
  "split_once_str sep s =
     (case strip_prefix sep s of
        Some rest \<Rightarrow> Some ([], rest)
      | None \<Rightarrow> (case s of [] \<Rightarrow> None
                 | c # s' \<Rightarrow> map_option (\<lambda>(a, b). (c # a, b)) (split_once_str sep s')))"

declare split_once_str.simps [simp del]

definition rsplit_once :: "char \<Rightarrow> string \<Rightarrow> (string \<times> string) option" where
  "rsplit_once c s =
     (if c \<in> set s then Some (rev (tl (dropWhile (\<lambda>x. x \<noteq> c) (rev s))), rev (takeWhile (\<lambda>x. x \<noteq> c) (rev s)))
      else None)"

definition blob_ref_parse :: "string \<Rightarrow> BlobRefError + BlobRef" where
  "blob_ref_parse text0 =
     (let refuse = (\<lambda>reason. Inl \<lparr>bre_reference = text0, bre_reason = reason\<rparr>) in
      case strip_prefix REFERENCE_SCHEME_PREFIX text0 of
        None \<Rightarrow> refuse ''it does not start with `dagr-blob+`''
      | Some after_prefix \<Rightarrow>
          (case split_once_str ''://'' after_prefix of
             None \<Rightarrow> refuse ''no `<backend>://` separator''
           | Some (backend, rest) \<Rightarrow>
               if backend = [] then refuse ''the backend name is empty''
               else
                 (case Option.bind (rsplit_once CHR ''/'' rest)
                     (\<lambda>(head, hex). map_option (\<lambda>(container, algorithm). (container, algorithm, hex)) (rsplit_once CHR ''/'' head)) of
                    None \<Rightarrow> refuse ''no trailing `/<algorithm>/<hex>` content address''
                  | Some (container, algorithm, hex) \<Rightarrow>
                      if container = [] then refuse ''the container is empty''
                      else
                        (case key_from_parts algorithm hex of
                           None \<Rightarrow> refuse (''`'' @ algorithm @ ''/'' @ hex @ ''` is not a content address this build can verify (expected `''
                             @ ALGORITHM @ ''` and 64 hex digits)'')
                         | Some key \<Rightarrow> Inr \<lparr>br_backend = backend, br_container = container, br_key = key\<rparr>))))"

definition blob_ref_display :: "BlobRef \<Rightarrow> string" where
  "blob_ref_display r =
     REFERENCE_SCHEME_PREFIX @ br_backend r @ ''://'' @ br_container r @ ''/'' @ bk_algorithm (br_key r) @ ''/'' @ bk_hex (br_key r)"

definition blob_ref_error_display :: "BlobRefError \<Rightarrow> string" where
  "blob_ref_error_display e = ''`'' @ bre_reference e @ ''` is not a dagr blob reference: '' @ bre_reason e"

section \<open>Failures\<close>

datatype BlobErrorClass = BlobAbsent | BlobTransient | BlobCorrupt

fun blob_class_str :: "BlobErrorClass \<Rightarrow> string" where
  "blob_class_str BlobAbsent = ''absent''"
| "blob_class_str BlobTransient = ''transient''"
| "blob_class_str BlobCorrupt = ''corrupt''"

record BlobError =
  be_class :: BlobErrorClass
  be_message :: string
  be_source :: "IoError option"

definition blob_error_new :: "BlobErrorClass \<Rightarrow> string \<Rightarrow> BlobError" where
  "blob_error_new c message = \<lparr>be_class = c, be_message = message, be_source = None\<rparr>"

definition blob_with_source :: "IoError \<Rightarrow> BlobError \<Rightarrow> BlobError" where
  "blob_with_source e err = err\<lparr>be_source := Some e\<rparr>"

definition blob_error_display :: "BlobError \<Rightarrow> string" where
  "blob_error_display e = ''blob '' @ blob_class_str (be_class e) @ '': '' @ be_message e"

record BlobStat =
  bst_size_bytes :: u64
  bst_content_hash :: string

section \<open>The local store\<close>

text \<open>
  A store is opened on the spelling of a directory, which its references carry, and works on the
  directory the operating system resolves that spelling to, \<open>locate\<close>.
\<close>

definition BLOB_BACKEND :: string where "BLOB_BACKEND = ''file''"

definition HASH_CHUNK :: nat where "HASH_CHUNK = 65536"

record LocalFsBlob =
  lb_root :: string
  lb_dir :: path

definition blob_open :: "(string \<Rightarrow> path) \<Rightarrow> string \<Rightarrow> LocalFsBlob" where
  "blob_open locate root = \<lparr>lb_root = root, lb_dir = locate root\<rparr>"

text \<open>\<open>hex.get(a..b)\<close>; a key's digest is ASCII.\<close>

definition str_get :: "nat \<Rightarrow> nat \<Rightarrow> string \<Rightarrow> string option" where
  "str_get a b s = (if a \<le> b \<and> b \<le> length s then Some (take (b - a) (drop a s)) else None)"

definition object_path :: "LocalFsBlob \<Rightarrow> BlobKey \<Rightarrow> path" where
  "object_path s k =
     (let hex = bk_hex k;
          aa = (case str_get 0 2 hex of Some x \<Rightarrow> x | None \<Rightarrow> ''00'');
          bb = (case str_get 2 4 hex of Some x \<Rightarrow> x | None \<Rightarrow> ''00'')
      in lb_dir s @ [bk_algorithm k, aa, bb, hex])"

text \<open>The name of the temporary file; \<open>fs_counter\<close> is the process's counter of this module.\<close>

definition blob_tmp_name :: "path \<Rightarrow> u32 \<Rightarrow> u64 \<Rightarrow> string" where
  "blob_tmp_name final_path pid counter =
     ''.'' @ (case file_name final_path of Some n \<Rightarrow> n | None \<Rightarrow> ''blob'') @ ''.tmp.''
     @ show_nat (unat pid) @ ''.'' @ show_nat (unat counter)"

definition blob_write_tmp :: "path \<Rightarrow> path \<Rightarrow> u8 list \<Rightarrow> bool \<Rightarrow> unit io" where
  "blob_write_tmp tmp_path final_path bytes stop_before_rename =
     io_then (file_create tmp_path) (\<lambda>_.
     io_then (file_write_all tmp_path bytes) (\<lambda>_.
     io_then (file_sync tmp_path) (\<lambda>_.
     if stop_before_rename then (\<lambda>fs. (Inr (), fs)) else fs_rename tmp_path final_path)))"

definition write_object :: "LocalFsBlob \<Rightarrow> BlobKey \<Rightarrow> u8 list \<Rightarrow> bool \<Rightarrow> unit io" where
  "write_object s k bytes stop_before_rename =
     (let final_path = object_path s k; dir = butlast final_path in
      io_then (create_dir_all dir) (\<lambda>_ fs.
        let (counter, fs) = next_tmp_counter fs;
            tmp_path = dir @ [blob_tmp_name final_path (fs_pid fs) counter];
            (write_result, fs) = blob_write_tmp tmp_path final_path bytes stop_before_rename fs
        in case write_result of
             Inl e \<Rightarrow> (Inl e, snd (fs_remove_file tmp_path fs))
           | Inr _ \<Rightarrow> if stop_before_rename then (Inr (), fs) else (Inr (), snd (file_sync dir fs))))"

definition blob_classify :: "(IoError \<Rightarrow> string) \<Rightarrow> IoError \<Rightarrow> BlobKey \<Rightarrow> string \<Rightarrow> BlobError" where
  "blob_classify show_io e k what =
     (if e = NotFound then blob_with_source e (blob_error_new BlobAbsent (''no object under `'' @ key_display k @ ''`''))
      else blob_with_source e (blob_error_new BlobTransient
        (''could not '' @ what @ '' `'' @ key_display k @ ''`: '' @ show_io e)))"

definition blob_put :: "(IoError \<Rightarrow> string) \<Rightarrow> LocalFsBlob \<Rightarrow> u8 list \<Rightarrow> Fs \<Rightarrow> (BlobError + BlobKey) \<times> Fs" where
  "blob_put show_io s bytes fs =
     (let k = blob_key_of bytes in
      case write_object s k bytes False fs of
        (Inl e, fs) \<Rightarrow> (Inl (blob_with_source e (blob_error_new BlobTransient
            (''could not write `'' @ key_display k @ ''` under `'' @ lb_root s @ ''`: '' @ show_io e))), fs)
      | (Inr _, fs) \<Rightarrow> (Inr k, fs))"

definition blob_get :: "(IoError \<Rightarrow> string) \<Rightarrow> LocalFsBlob \<Rightarrow> BlobKey \<Rightarrow> Fs \<Rightarrow> (BlobError + u8 list) \<times> Fs" where
  "blob_get show_io s k fs =
     (case fs_read (object_path s k) fs of
        (Inl e, fs) \<Rightarrow> (Inl (blob_classify show_io e k ''read''), fs)
      | (Inr bytes, fs) \<Rightarrow>
          if \<not> key_matches k bytes
          then (Inl (blob_error_new BlobCorrupt (''the object stored for `'' @ key_display k @ ''` hashes to `''
                  @ key_display (blob_key_of bytes) @ ''` '' @ [CHR 0xE2, CHR 0x80, CHR 0x94] @ '' it was not written by this key, so its bytes are not returned'')), fs)
          else (Inr bytes, fs))"

text \<open>
  The probe reads the open file piece by piece: \<open>cuts\<close> says how many bytes each read delivers, at
  least one and at most the buffer's size, and once it is used up the buffer is filled.
\<close>

definition file_open :: "path \<Rightarrow> FsEntry io" where
  "file_open p = sys no_effect (\<lambda>fs. case fs_at fs p of None \<Rightarrow> (Inl NotFound, fs) | Some e \<Rightarrow> (Inr e, fs))"

function read_pieces :: "nat list \<Rightarrow> u8 list \<Rightarrow> u8 list list" where
  "read_pieces cuts bytes =
     (if bytes = [] then []
      else
        let n = (case cuts of [] \<Rightarrow> HASH_CHUNK | c # _ \<Rightarrow> max 1 (min c HASH_CHUNK))
        in take n bytes # read_pieces (tl cuts) (drop n bytes))"
  by pat_completeness auto
termination by (relation "measure (length \<circ> snd)") (auto simp: HASH_CHUNK_def split: list.splits)

declare read_pieces.simps [simp del]

fun head_loop :: "u8 list list \<Rightarrow> Sha256 \<Rightarrow> u64 \<Rightarrow> (Sha256 \<times> u64) io" where
  "head_loop [] hasher measured fs = sys no_effect (\<lambda>fs. (Inr (hasher, measured), fs)) fs"
| "head_loop (chunk # rest) hasher measured fs =
     io_then (sys no_effect (\<lambda>fs. (Inr chunk, fs)))
       (\<lambda>chunk. head_loop rest (sha_update chunk hasher)
          (if unat measured + length chunk < 2 ^ 64 then measured + of_nat (length chunk) else - 1)) fs"

definition blob_head ::
  "(IoError \<Rightarrow> string) \<Rightarrow> nat list \<Rightarrow> LocalFsBlob \<Rightarrow> BlobKey \<Rightarrow> Fs \<Rightarrow> (BlobError + BlobStat) \<times> Fs" where
  "blob_head show_io cuts s k fs =
     (case file_open (object_path s k) fs of
        (Inl e, fs) \<Rightarrow> (Inl (blob_classify show_io e k ''open''), fs)
      | (Inr DirEntry, fs) \<Rightarrow>
          (Inl (blob_classify show_io OtherError k ''read''), snd (sys no_effect (\<lambda>fs. (Inr (), fs)) fs))
      | (Inr (FileEntry bytes), fs) \<Rightarrow>
          (case head_loop (read_pieces cuts bytes) sha_new 0 fs of
             (Inl e, fs) \<Rightarrow> (Inl (blob_classify show_io e k ''read''), fs)
           | (Inr (hasher, measured), fs) \<Rightarrow>
               (Inr \<lparr>bst_size_bytes = measured, bst_content_hash = bk_algorithm k @ '':'' @ to_hex (sha_finish hasher)\<rparr>, fs)))"

definition blob_reference :: "LocalFsBlob \<Rightarrow> BlobKey \<Rightarrow> BlobRef" where
  "blob_reference s k = \<lparr>br_backend = BLOB_BACKEND, br_container = lb_root s, br_key = k\<rparr>"

text \<open>
  The enumeration descends from the algorithm's directory: \<open>Down\<close> a directory to read, \<open>Item\<close> an entry
  of its iterator to look at next.  \<open>metadata\<close> follows the path without reading it.
\<close>

datatype Visit = Down path | Item path

definition fs_metadata :: "path \<Rightarrow> FsEntry io" where
  "fs_metadata p = file_open p"

definition item_key :: "path \<Rightarrow> BlobKey option" where
  "item_key p = (case file_name p of None \<Rightarrow> None | Some name \<Rightarrow> key_from_parts ALGORITHM name)"

partial_function (option) collect_objects ::
  "Visit list \<Rightarrow> BlobKey list \<Rightarrow> Fs \<Rightarrow> ((IoError + BlobKey list) \<times> Fs) option" where
  "collect_objects visits out fs =
     (case visits of
        [] \<Rightarrow> Some (Inr out, fs)
      | Down dir # rest \<Rightarrow>
          (case fs_read_dir dir fs of
             (Inl e, fs) \<Rightarrow> Some (Inl e, fs)
           | (Inr names, fs) \<Rightarrow> collect_objects (map (\<lambda>n. Item (dir @ [n])) names @ rest) out fs)
      | Item p # rest \<Rightarrow>
          (case io_then (next_entry (last p)) (\<lambda>_. entry_is_file p) fs of
             (Inl e, fs) \<Rightarrow> Some (Inl e, fs)
           | (Inr is_file, fs) \<Rightarrow>
               if \<not> is_file then collect_objects (Down p # rest) out fs
               else collect_objects rest (case item_key p of None \<Rightarrow> out | Some k \<Rightarrow> out @ [k]) fs))"

declare collect_objects.simps [code]

definition list_failure :: "(IoError \<Rightarrow> string) \<Rightarrow> LocalFsBlob \<Rightarrow> IoError \<Rightarrow> BlobError" where
  "list_failure show_io s e = blob_with_source e (blob_error_new BlobTransient
     (''could not enumerate the blob container `'' @ lb_root s @ ''`: '' @ show_io e))"

definition blob_list :: "(IoError \<Rightarrow> string) \<Rightarrow> LocalFsBlob \<Rightarrow> Fs \<Rightarrow> ((BlobError + BlobKey list) \<times> Fs) option" where
  "blob_list show_io s fs =
     (let algorithm_root = lb_dir s @ [ALGORITHM]
      in case fs_metadata algorithm_root fs of
           (Inl NotFound, fs) \<Rightarrow> Some (Inr [], fs)
         | (Inl e, fs) \<Rightarrow> Some (Inl (list_failure show_io s e), fs)
         | (Inr _, fs) \<Rightarrow>
             map_option (\<lambda>(r, fs). (case r of Inl e \<Rightarrow> Inl (list_failure show_io s e) | Inr ks \<Rightarrow> Inr (sort_keys ks), fs))
               (collect_objects [Down algorithm_root] [] fs))"

definition blob_delete :: "(IoError \<Rightarrow> string) \<Rightarrow> LocalFsBlob \<Rightarrow> BlobKey \<Rightarrow> Fs \<Rightarrow> (BlobError + unit) \<times> Fs" where
  "blob_delete show_io s k fs =
     (case fs_remove_file (object_path s k) fs of
        (Inr _, fs) \<Rightarrow> (Inr (), fs)
      | (Inl NotFound, fs) \<Rightarrow> (Inr (), fs)
      | (Inl e, fs) \<Rightarrow> (Inl (blob_with_source e (blob_error_new BlobTransient
          (''could not reclaim `'' @ key_display k @ ''` from `'' @ lb_root s @ ''`: '' @ show_io e))), fs))"

section \<open>Keys and references are read back as written\<close>

definition valid_key :: "BlobKey \<Rightarrow> bool" where
  "valid_key k \<longleftrightarrow> key_from_parts (bk_algorithm k) (bk_hex k) = Some k"

lemma key_from_parts_Some:
  "key_from_parts a h = Some k \<longleftrightarrow> a = ALGORITHM \<and> length h = 64 \<and> list_all is_hex_lower h \<and> k = \<lparr>bk_algorithm = a, bk_hex = h\<rparr>"
  by (auto simp: key_from_parts_def)

lemma valid_key_iff: "valid_key k \<longleftrightarrow> bk_algorithm k = ALGORITHM \<and> length (bk_hex k) = 64 \<and> list_all is_hex_lower (bk_hex k)"
  by (auto simp: valid_key_def key_from_parts_Some)

lemma hex_lower_plain: "is_hex_lower c \<Longrightarrow> c \<noteq> CHR ''/'' \<and> c \<noteq> CHR ''.''"
  by (auto simp: is_hex_lower_def)

lemma hex_char_lower: "n < 16 \<Longrightarrow> is_hex_lower (hex_char n)"
  by (simp add: is_hex_lower_def of_char_hex)

lemma hex_byte_lower: "list_all is_hex_lower (hex_byte b)"
proof -
  have "unat b < 2 ^ LENGTH(8)" by (rule unsigned_less)
  then show ?thesis using hex_char_lower [of "unat b div 16"] hex_char_lower [of "unat b mod 16"]
    by (simp add: hex_byte_def unat_high_nibble unat_low_nibble)
qed

lemma to_hex_lower: "list_all is_hex_lower (to_hex d) \<and> length (to_hex d) = 2 * length d"
  using hex_byte_lower by (induction d) (simp_all add: to_hex_def)

lemma valid_key_of [simp]: "valid_key (blob_key_of bytes)"
  using to_hex_lower [of "sha256 bytes"] by (simp add: valid_key_iff blob_key_of_def length_sha256)

lemma key_of_matches: "key_matches k bytes \<longleftrightarrow> k = blob_key_of bytes"
  by (auto simp: key_matches_def blob_key_of_def intro: BlobKey.equality)

lemma rsplit_once_Some: "rsplit_once c s = Some (a, b) \<longleftrightarrow> s = a @ [c] @ b \<and> c \<notin> set b"
proof
  assume r: "rsplit_once c s = Some (a, b)"
  then have c: "c \<in> set (rev s)" by (simp add: rsplit_once_def split: if_splits)
  then obtain d where d: "dropWhile (\<lambda>x. x \<noteq> c) (rev s) = c # d"
    by (metis (mono_tags, lifting) dropWhile_eq_Nil_conv hd_dropWhile list.collapse)
  have "s = rev (takeWhile (\<lambda>x. x \<noteq> c) (rev s) @ dropWhile (\<lambda>x. x \<noteq> c) (rev s))" by simp
  then have "s = rev d @ [c] @ rev (takeWhile (\<lambda>x. x \<noteq> c) (rev s))" by (simp only: d) simp
  then show "s = a @ [c] @ b \<and> c \<notin> set b"
    using r d by (auto simp: rsplit_once_def dest: set_takeWhileD split: if_splits)
next
  assume s: "s = a @ [c] @ b \<and> c \<notin> set b"
  then have b: "x \<noteq> c" if "x \<in> set (rev b)" for x using that by auto
  have "takeWhile (\<lambda>x. x \<noteq> c) (rev s) = rev b" "dropWhile (\<lambda>x. x \<noteq> c) (rev s) = c # rev a"
    using s takeWhile_append2 [of "rev b", OF b] dropWhile_append2 [of "rev b", OF b] by simp_all
  with s show "rsplit_once c s = Some (a, b)" by (simp add: rsplit_once_def)
qed

lemma strip_prefix_None: "strip_prefix p s = None \<longleftrightarrow> take (length p) s \<noteq> p"
  by (metis append_take_drop_id append_eq_conv_conj not_None_eq strip_prefix_Some)

lemma split_once_str_parts:
  "split_once_str sep s = Some (a, b) \<Longrightarrow> sep \<noteq> [] \<Longrightarrow> s = a @ sep @ b \<and> \<not> contains_str sep a"
proof (induction sep s arbitrary: a rule: split_once_str.induct)
  case (1 sep s)
  show ?case
  proof (cases "strip_prefix sep s")
    case None
    with 1(2) obtain c s' a' where s: "s = c # s'" "split_once_str sep s' = Some (a', b)" "a = c # a'"
      by (subst (asm) split_once_str.simps) (auto split: list.splits)
    from 1(1) [OF None s(1,2) 1(3)] have p: "s' = a' @ sep @ b" "\<not> contains_str sep a'" by simp_all
    have "take (length sep) (c # a') \<noteq> sep"
    proof
      assume t: "take (length sep) (c # a') = sep"
      then have "length sep \<le> length (c # a')" by (metis length_take min.cobounded1 min_def nat_le_linear)
      then have "take (length sep) s = sep" using t by (simp add: s(1) p(1) take_Cons' split: if_splits)
      with None show False by (simp add: strip_prefix_None)
    qed
    with p s show ?thesis by (subst contains_str.simps) simp
  next
    case (Some rest)
    with 1(2,3) show ?thesis
      by (subst (asm) split_once_str.simps, subst contains_str.simps) (auto simp: strip_prefix_Some)
  qed
qed

lemma split_once_scheme: "\<not> contains_str ''://'' a \<Longrightarrow> split_once_str ''://'' (a @ ''://'' @ b) = Some (a, b)"
proof (induction a)
  case Nil
  then show ?case by (subst split_once_str.simps) simp
next
  case (Cons c a)
  from Cons.prems have a: "\<not> contains_str ''://'' a" "take (length ''://'') (c # a) \<noteq> ''://''"
    unfolding contains_str.simps [of _ "c # a"] by simp_all
  have "strip_prefix ''://'' (c # a @ ''://'' @ b) = None"
  proof (cases a)
    case (Cons d a')
    with a(2) show ?thesis by (cases a') auto
  qed auto
  with Cons.IH [OF a(1)] show ?case by (subst split_once_str.simps) simp
qed

definition wf_reference :: "BlobRef \<Rightarrow> bool" where
  "wf_reference r \<longleftrightarrow> br_backend r \<noteq> [] \<and> \<not> contains_str ''://'' (br_backend r) \<and> br_container r \<noteq> [] \<and> valid_key (br_key r)"

lemma parsed_reference:
  assumes p: "blob_ref_parse t = Inr r"
  shows "t = blob_ref_display r \<and> wf_reference r"
proof -
  from p obtain backend rest head hex container algorithm key where
    1: "t = REFERENCE_SCHEME_PREFIX @ backend @ ''://'' @ rest" "\<not> contains_str ''://'' backend" "backend \<noteq> []"
    and 2: "rest = head @ [CHR ''/''] @ hex" "head = container @ [CHR ''/''] @ algorithm" "container \<noteq> []"
    and 3: "key_from_parts algorithm hex = Some key" "r = \<lparr>br_backend = backend, br_container = container, br_key = key\<rparr>"
    by (auto simp: blob_ref_parse_def Let_def strip_prefix_Some rsplit_once_Some bind_eq_Some_conv
        dest!: split_once_str_parts split: option.splits if_splits)
  from 1 2 3 show ?thesis
    by (auto simp: wf_reference_def blob_ref_display_def valid_key_def key_from_parts_Some)
qed

lemma displayed_reference:
  assumes r: "wf_reference r"
  shows "blob_ref_parse (blob_ref_display r) = Inr r"
proof -
  from r have k: "bk_algorithm (br_key r) = ALGORITHM" "list_all is_hex_lower (bk_hex (br_key r))"
    by (simp_all add: wf_reference_def valid_key_iff)
  have parts: "key_from_parts (bk_algorithm (br_key r)) (bk_hex (br_key r)) = Some (br_key r)"
    using r by (simp add: wf_reference_def valid_key_def)
  have h: "rsplit_once CHR ''/'' (br_container r @ ''/'' @ bk_algorithm (br_key r) @ ''/'' @ bk_hex (br_key r))
      = Some (br_container r @ ''/'' @ bk_algorithm (br_key r), bk_hex (br_key r))"
    using k(2) hex_lower_plain by (auto simp: rsplit_once_Some list_all_iff)
  have a: "rsplit_once CHR ''/'' (br_container r @ ''/'' @ bk_algorithm (br_key r)) = Some (br_container r, bk_algorithm (br_key r))"
    by (simp add: rsplit_once_Some k(1) ALGORITHM_def)
  from r show ?thesis
    by (simp add: wf_reference_def blob_ref_parse_def blob_ref_display_def split_once_scheme [simplified] h [simplified] a [simplified] parts)
qed

text \<open>
  A reference has one text: a text parses to a reference exactly when it is that reference as it is
  displayed, with a backend that is not empty and has no separator in it, a container that is not
  empty, and a content address this build can verify; everything else is refused.
\<close>

theorem blob_reference_text:
  "blob_ref_parse t = Inr r \<longleftrightarrow>
     t = blob_ref_display r \<and> br_backend r \<noteq> [] \<and> \<not> contains_str ''://'' (br_backend r)
     \<and> br_container r \<noteq> [] \<and> valid_key (br_key r)"
  using parsed_reference [of t r] displayed_reference [of r] by (auto simp: wf_reference_def)

section \<open>Put, get and probe\<close>

lemma object_path_eq [simp]: "object_path s k = object_path s k' \<longleftrightarrow> k = k'"
  by (auto simp: object_path_def Let_def intro: BlobKey.equality)

lemma object_path_last: "\<exists>dir. object_path s k = dir @ [bk_hex k]"
  by (auto simp: object_path_def Let_def)

lemma object_path_length: "length (object_path s k) = length (lb_dir s) + 4"
  by (simp add: object_path_def Let_def)

lemma write_object_atomic:
  assumes "valid_key k"
  shows "write_object s k bytes False = atomic_write (butlast (object_path s k)) (object_path s k) bytes"
proof -
  have "bk_hex k \<noteq> ''..''" using assms by (auto simp: valid_key_iff)
  then have "file_name (object_path s k) = Some (bk_hex k)" by (simp add: file_name_def object_path_def Let_def)
  then have tmp: "blob_tmp_name (object_path s k) = tmp_name_of (object_path s k)"
    by (intro ext) (simp add: blob_tmp_name_def tmp_name_of_def)
  have "blob_write_tmp t f b False = write_and_rename t f b" for t f b
    by (simp add: blob_write_tmp_def write_and_rename_def)
  then show ?thesis by (simp only: write_object_def atomic_write_def tmp Let_def if_False)
qed

lemma put_result: "blob_put show_io s bytes fs = (Inr k, fs') \<Longrightarrow> k = blob_key_of bytes"
  by (auto simp: blob_put_def Let_def split: prod.splits sum.splits)

text \<open>What a put leaves under a key, whatever faults strike.\<close>

lemma put_at:
  assumes p: "blob_put show_io s bytes fs = (r, fs')" and k': "valid_key k'"
  shows "fs_at fs' (object_path s k') = (if r = Inr k' then Some (FileEntry bytes) else fs_at fs (object_path s k'))"
proof -
  let ?k = "blob_key_of bytes"
  let ?dir = "butlast (object_path s ?k)"
  have path: "object_path s ?k = ?dir @ [bk_hex ?k]" using object_path_last [of s ?k] by auto
  obtain w f where w: "atomic_write ?dir (?dir @ [bk_hex ?k]) bytes fs = (w, f)" by fastforce
  then have f: "fs' = f" and r: "r = (case w of Inl e \<Rightarrow> Inl (blob_with_source e (blob_error_new BlobTransient
            (''could not write `'' @ key_display ?k @ ''` under `'' @ lb_root s @ ''`: '' @ show_io e))) | Inr _ \<Rightarrow> Inr ?k)"
    using p by (auto simp: blob_put_def Let_def write_object_atomic path [symmetric] split: sum.splits)
  show ?thesis
  proof (cases "k' = ?k")
    case True
    then show ?thesis using atomic_write_spec(1) [OF w] r f path by (cases w) auto
  next
    case False
    have "fs_at f (object_path s k') = fs_at fs (object_path s k')"
    proof (rule atomic_write_spec(2) [OF w])
      show "object_path s k' \<notin> set (dir_prefixes ?dir)"
        using dir_prefixes_length [of "object_path s k'" ?dir] by (auto simp: object_path_length)
      show "object_path s k' \<noteq> ?dir @ [bk_hex ?k]" using False path by (metis object_path_eq)
      obtain d where d: "object_path s k' = d @ [bk_hex k']" using object_path_last by blast
      have "CHR ''.'' \<notin> set (bk_hex k')" using k' hex_lower_plain by (auto simp: valid_key_iff list_all_iff)
      then show "object_path s k' \<noteq> ?dir @ [tmp_name_of (?dir @ [bk_hex ?k]) pid c]" for pid c
        by (auto simp: d tmp_name_of_def)
    qed
    then show ?thesis using False r f by (cases w) auto
  qed
qed

text \<open>What a later process reads under a key.\<close>

definition stored_blob :: "(IoError \<Rightarrow> string) \<Rightarrow> LocalFsBlob \<Rightarrow> BlobKey \<Rightarrow> Fs \<Rightarrow> BlobError + u8 list" where
  "stored_blob show_io s k fs = fst (blob_get show_io s k (restart fs))"

lemma stored_blob_conv:
  "stored_blob show_io s k fs =
     (case fs_at fs (object_path s k) of
        None \<Rightarrow> Inl (blob_classify show_io NotFound k ''read'')
      | Some DirEntry \<Rightarrow> Inl (blob_classify show_io OtherError k ''read'')
      | Some (FileEntry bytes) \<Rightarrow> fst (blob_get show_io s k (restart fs)))"
  by (auto simp: stored_blob_def restart_def blob_get_def fs_read_def sys_def fs_simps split: option.split FsEntry.split)

lemma blob_get_Inr: "blob_get show_io s k fs = (Inr bytes, fs') \<Longrightarrow> fs_at fs (object_path s k) = Some (FileEntry bytes) \<and> k = blob_key_of bytes"
  by (auto simp: blob_get_def key_of_matches dest: fs_read_Inr split: prod.splits sum.splits if_splits)

lemma stored_blob_at: "fs_at fs' (object_path s k) = fs_at fs (object_path s k) \<Longrightarrow> stored_blob show_io s k fs' = stored_blob show_io s k fs"
  by (auto simp: stored_blob_def restart_def blob_get_def fs_read_def sys_def fs_simps split: option.split FsEntry.split)

lemma stored_blob_file: "fs_at fs (object_path s (blob_key_of bytes)) = Some (FileEntry bytes) \<Longrightarrow> stored_blob show_io s (blob_key_of bytes) fs = Inr bytes"
  by (simp add: stored_blob_def restart_def blob_get_def fs_read_def sys_def fs_simps key_of_matches)

text \<open>
  A put is atomic and a get is verified, under every schedule of failures and crashes: after a put
  that reported success a later process reads the bytes under their content address, every other key
  reads as before, and so does every key after a put that failed; and no get ever returns bytes that do
  not hash to the key it was asked for.
\<close>

theorem blob_put_get:
  assumes "blob_put show_io s bytes fs = (r, fs')" "valid_key k"
  shows "stored_blob show_io s k fs' = (if r = Inr k then Inr bytes else stored_blob show_io s k fs)
    \<and> (r = Inr k' \<longrightarrow> k' = blob_key_of bytes)
    \<and> (blob_get show_io s k g = (Inr b, g') \<longrightarrow> k = blob_key_of b)"
  using put_at [OF assms] put_result assms(1) stored_blob_at [of fs' s k fs show_io] stored_blob_file [of fs' s bytes show_io]
    blob_get_Inr by auto

definition blob_sample :: LocalFsBlob where
  "blob_sample = \<lparr>lb_root = ''/b'', lb_dir = [''b'']\<rparr>"

definition key_sample :: BlobKey where
  "key_sample = \<lparr>bk_algorithm = ALGORITHM, bk_hex = replicate 64 CHR ''0''\<rparr>"

lemma valid_key_sample: "valid_key key_sample"
  by code_simp

theorem blob_put_get_witness:
  "stored_blob (\<lambda>e. []) blob_sample key_sample (snd (blob_put (\<lambda>e. []) blob_sample [1] fs_sample)) =
     (if fst (blob_put (\<lambda>e. []) blob_sample [1] fs_sample) = Inr key_sample then Inr [1]
      else stored_blob (\<lambda>e. []) blob_sample key_sample fs_sample)"
  using blob_put_get [OF surjective_pairing valid_key_sample] by metis

lemma read_pieces_concat: "concat (read_pieces cuts bytes) = bytes"
proof (induction cuts bytes rule: read_pieces.induct)
  case (1 cuts bytes)
  then show ?case by (cases "bytes = []") (subst read_pieces.simps, simp add: Let_def)+
qed

lemma head_loop_Inr:
  "head_loop ps h n fs = (Inr (h', n'), fs') \<Longrightarrow>
    h' = fold sha_update ps h \<and> unat n' = min (unat n + length (concat ps)) (2 ^ 64 - 1)"
proof (induction ps h n fs rule: head_loop.induct)
  case (1 h n fs)
  have "unat n < 2 ^ LENGTH(64)" by (rule unsigned_less)
  with 1 show ?case by (auto elim!: sys_InrE)
next
  case (2 chunk rest h n fs)
  let ?n = "if unat n + length chunk < 2 ^ 64 then n + of_nat (length chunk) else - 1"
  from 2(2) obtain f where f: "head_loop rest (sha_update chunk h) ?n f = (Inr (h', n'), fs')"
    by (auto simp: io_then_def elim!: sys_InrE split: prod.splits sum.splits)
  have "unat ?n = min (unat n + length chunk) (2 ^ 64 - 1)"
  proof (cases "unat n + length chunk < 2 ^ 64")
    case True
    then show ?thesis by (simp add: unat_word_ariths unat_of_nat)
  next
    case False
    then show ?thesis by (simp add: unsigned_minus_1_eq_mask mask_eq_exp_minus_1)
  qed
  with 2(1) f show ?case by fastforce
qed

text \<open>
  A probe measures what is stored: whatever the sizes of the reads and whatever faults strike, a
  probe that succeeds reports the digest of the bytes that are there and their number, clamped to what
  64 bits hold, also when they are not what was written under the key.
\<close>

theorem blob_head_measures:
  assumes "blob_head show_io cuts s k fs = (Inr st, fs')" "valid_key k"
  shows "\<exists>bytes. fs_at fs (object_path s k) = Some (FileEntry bytes)
     \<and> bst_content_hash st = key_display (blob_key_of bytes) \<and> unat (bst_size_bytes st) = min (length bytes) (2 ^ 64 - 1)"
proof -
  from assms(1) obtain bytes f h n where
    b: "fs_at fs (object_path s k) = Some (FileEntry bytes)"
    and l: "head_loop (read_pieces cuts bytes) sha_new 0 f = (Inr (h, n), fs')"
    and st: "st = \<lparr>bst_size_bytes = n, bst_content_hash = bk_algorithm k @ '':'' @ to_hex (sha_finish h)\<rparr>"
    by (auto simp: blob_head_def file_open_def fs_simps elim!: sys_InrE
        split: prod.splits sum.splits FsEntry.splits option.splits)
  from head_loop_Inr [OF l] have "sha_finish h = sha256 bytes" "unat n = min (length bytes) (2 ^ 64 - 1)"
    by (simp_all add: sha_stream read_pieces_concat sha256_is_standard)
  with b st assms(2) show ?thesis by (simp add: key_display_def blob_key_of_def valid_key_iff)
qed

definition blob_fs_sample :: Fs where
  "blob_fs_sample = \<lparr>fs_entries = [(object_path blob_sample key_sample, FileEntry [7])], fs_faults = [Fine], fs_crashed = False,
     fs_pid = 7, fs_counter = 0\<rparr>"

text \<open>The object was overwritten: the probe says what is there now.\<close>

theorem blob_head_measures_witness:
  "\<exists>st fs'. blob_head (\<lambda>e. []) [] blob_sample key_sample blob_fs_sample = (Inr st, fs')
     \<and> bst_content_hash st = key_display (blob_key_of [7]) \<and> unat (bst_size_bytes st) = 1"
proof -
  have at: "fs_at blob_fs_sample (object_path blob_sample key_sample) = Some (FileEntry [7])"
    by (simp add: fs_at_def blob_fs_sample_def)
  have "\<exists>st fs'. blob_head (\<lambda>e. []) [] blob_sample key_sample blob_fs_sample = (Inr st, fs')"
    by (simp add: blob_head_def file_open_def sys_def fs_at_def blob_fs_sample_def io_then_def read_pieces.simps [of _ "[7]"]
        read_pieces.simps [of _ "[]"] HASH_CHUNK_def)
  then obtain st fs' where h: "blob_head (\<lambda>e. []) [] blob_sample key_sample blob_fs_sample = (Inr st, fs')" by blast
  with blob_head_measures [OF h valid_key_sample] at show ?thesis by auto
qed

section \<open>Enumerating and removing\<close>

text \<open>Reading calls leave the entries as they are.\<close>

lemma reading_entries:
  "(\<And>fs. snd (m fs) = fs) \<Longrightarrow> fs_entries (snd (sys no_effect m fs)) = fs_entries fs"
  by (auto simp: sys_def no_effect_def split: list.split Fault.split)

lemma fs_read_entries [simp]: "fs_entries (snd (fs_read p fs)) = fs_entries fs"
  unfolding fs_read_def by (rule reading_entries) (simp split: option.split FsEntry.split)

lemma fs_read_dir_entries [simp]: "fs_entries (snd (fs_read_dir p fs)) = fs_entries fs"
  unfolding fs_read_dir_def by (rule reading_entries) (simp split: option.split FsEntry.split)

lemma file_open_entries [simp]: "fs_entries (snd (file_open p fs)) = fs_entries fs"
  unfolding file_open_def by (rule reading_entries) (simp split: option.split)

lemma entry_is_file_entries [simp]: "fs_entries (snd (entry_is_file p fs)) = fs_entries fs"
  unfolding entry_is_file_def by (rule reading_entries) (simp split: option.split FsEntry.split)

lemma next_entry_entries [simp]: "fs_entries (snd (next_entry p fs)) = fs_entries fs"
  unfolding next_entry_def by (rule reading_entries) simp

lemma fs_at_entries: "fs_entries fs' = fs_entries fs \<Longrightarrow> fs_at fs' = fs_at fs"
  by (rule ext) (simp add: fs_at_def)

lemma fs_read_dir_lists: "fs_read_dir d fs = (Inr ns, fs') \<Longrightarrow> fs_at fs d = Some DirEntry \<and> ns = dir_children d fs"
  unfolding fs_read_dir_def
  by (auto elim!: sys_InrE simp: fs_simps dir_children_def split: option.splits FsEntry.splits)

lemma fs_at_dom: "fs_at fs p \<noteq> None \<longleftrightarrow> p \<in> fst ` set (fs_entries fs)"
  by (simp add: fs_at_def map_of_eq_None_iff)

lemma under_append: "under d p \<longleftrightarrow> (\<exists>q. p = d @ q)"
  by (auto simp: under_def) (metis append_take_drop_id)

lemma child_path: "length p = Suc (length d) \<and> under d p \<and> last p = n \<longleftrightarrow> p = d @ [n]" for p :: path
proof
  assume p: "length p = Suc (length d) \<and> under d p \<and> last p = n"
  then obtain q where "p = d @ q" by (auto simp: under_append)
  with p show "p = d @ [n]" by (cases q) auto
qed (simp add: under_def)

lemma dir_children_iff: "n \<in> set (dir_children d fs) \<longleftrightarrow> fs_at fs (d @ [n]) \<noteq> None"
proof -
  define ps where "ps = map fst (fs_entries fs)"
  have "n \<in> set (dir_children d fs) \<longleftrightarrow> (\<exists>p \<in> set ps. length p = Suc (length d) \<and> under d p \<and> last p = n)"
    unfolding dir_children_def ps_def [symmetric] by auto
  then show ?thesis unfolding child_path fs_at_dom by (auto simp: ps_def)
qed

text \<open>A file system is a tree (\<open>fs_tree\<close>): what lies above an entry is a directory.\<close>

lemma fs_treeD:
  assumes tree: "fs_tree fs"
  shows "fs_at fs (p @ q) \<noteq> None \<Longrightarrow> q \<noteq> [] \<Longrightarrow> p \<noteq> [] \<Longrightarrow> fs_at fs p = Some DirEntry"
proof (induction q rule: rev_induct)
  case (snoc x q)
  obtain e where "(p @ q @ [x], e) \<in> set (fs_entries fs)" using snoc.prems(1) by (auto simp: fs_at_def dest: map_of_SomeD)
  then have "fs_at fs (p @ q) = Some DirEntry" using tree snoc.prems(3) by (fastforce simp: fs_tree_def butlast_append)
  with snoc show ?case by (cases "q = []") auto
qed simp

lemma fs_tree_entries: "fs_entries fs' = fs_entries fs \<Longrightarrow> fs_tree fs' = fs_tree fs"
  by (simp add: fs_tree_def fs_at_def)

text \<open>The keys an enumeration of a directory reports: the files at or below it whose name is a content address.\<close>

definition keys_below :: "Fs \<Rightarrow> path \<Rightarrow> BlobKey set" where
  "keys_below fs d = {k. \<exists>q b. fs_at fs (d @ q) = Some (FileEntry b) \<and> item_key (d @ q) = Some k}"

fun visit_path :: "Visit \<Rightarrow> path" where
  "visit_path (Down p) = p"
| "visit_path (Item p) = p"

lemma keys_below_dir:
  assumes "fs_tree fs" "fs_at fs d = Some DirEntry"
  shows "keys_below fs d = (\<Union>n \<in> set (dir_children d fs). keys_below fs (d @ [n]))"
proof (rule set_eqI)
  fix k
  show "k \<in> keys_below fs d \<longleftrightarrow> k \<in> (\<Union>n \<in> set (dir_children d fs). keys_below fs (d @ [n]))"
  proof
    assume "k \<in> keys_below fs d"
    then obtain q b where q: "fs_at fs (d @ q) = Some (FileEntry b)" "item_key (d @ q) = Some k" by (auto simp: keys_below_def)
    with assms(2) obtain n q' where n: "q = n # q'" by (cases q) auto
    have "fs_at fs (d @ [n]) \<noteq> None" using q(1) n fs_treeD [OF assms(1), of "d @ [n]" q'] by (cases q') auto
    with q n show "k \<in> (\<Union>n \<in> set (dir_children d fs). keys_below fs (d @ [n]))"
      by (auto simp: dir_children_iff keys_below_def intro!: bexI [of _ n] exI [of _ q'])
  qed (auto simp: keys_below_def)
qed

lemma keys_below_file:
  assumes "fs_tree fs" "fs_at fs p = Some (FileEntry b)" "p \<noteq> []"
  shows "keys_below fs p = set_option (item_key p)"
proof -
  have "q = []" if "fs_at fs (p @ q) = Some e" for q e using fs_treeD [OF assms(1), of p q] assms(2,3) that by (cases "q = []") auto
  then have "fs_at fs (p @ q) = Some (FileEntry c) \<longleftrightarrow> q = [] \<and> c = b" for q c using assms(2) by (cases "q = []") auto
  then show ?thesis by (simp add: keys_below_def set_eq_iff)
qed

text \<open>An enumeration that succeeds is complete, whatever faults strike.\<close>

definition visited_all :: "Visit list \<Rightarrow> BlobKey list \<Rightarrow> Fs \<Rightarrow> (IoError + BlobKey list) \<times> Fs \<Rightarrow> bool" where
  "visited_all visits out fs = (\<lambda>(r, fs'). fs_entries fs' = fs_entries fs
     \<and> (\<forall>ks. r = Inr ks \<longrightarrow> fs_tree fs \<longrightarrow> (\<forall>p. Item p \<in> set visits \<longrightarrow> p \<noteq> []) \<longrightarrow>
          set ks = set out \<union> (\<Union>v \<in> set visits. keys_below fs (visit_path v))))"

lemma keys_below_entries: "fs_entries fs' = fs_entries fs \<Longrightarrow> keys_below fs' = keys_below fs"
  by (rule ext) (simp add: keys_below_def fs_at_def)

lemma visited_all_from:
  "fs_entries g = fs_entries fs \<Longrightarrow> visited_all visits out g = visited_all visits out fs"
  using fs_tree_entries [of g fs] keys_below_entries [of g fs] by (simp add: visited_all_def)

lemma visited_down:
  assumes "fs_at fs d = Some DirEntry" "visited_all (map (\<lambda>n. Item (d @ [n])) (dir_children d fs) @ rest) out fs r"
  shows "visited_all (Down d # rest) out fs r"
  using assms(2) keys_below_dir [OF _ assms(1)] by (auto simp: visited_all_def)

lemma visited_item_dir: "visited_all (Down p # rest) out fs r \<Longrightarrow> visited_all (Item p # rest) out fs r"
  by (auto simp: visited_all_def)

lemma visited_item_file:
  assumes "fs_at fs p = Some (FileEntry b)"
    "visited_all rest (case item_key p of None \<Rightarrow> out | Some k \<Rightarrow> out @ [k]) fs r"
  shows "visited_all (Item p # rest) out fs r"
  using assms(2) keys_below_file [OF _ assms(1)] by (auto simp: visited_all_def split: option.splits)

lemma item_call:
  assumes "io_then (next_entry n) (\<lambda>_. entry_is_file p) fs = (r, fs')"
  shows "fs_entries fs' = fs_entries fs" and "r = Inr a \<Longrightarrow> a = (\<exists>c. fs_at fs p = Some (FileEntry c))"
proof -
  obtain r1 f1 where 1: "next_entry n fs = (r1, f1)" by fastforce
  have e: "fs_entries f1 = fs_entries fs" using next_entry_entries [of n fs] 1 by simp
  obtain r2 f2 where 2: "entry_is_file p f1 = (r2, f2)" by fastforce
  have "fs_entries f2 = fs_entries f1" using entry_is_file_entries [of p f1] 2 by simp
  then show "fs_entries fs' = fs_entries fs" using assms 1 2 e by (auto simp: io_then_def split: sum.splits)
  show "r = Inr a \<Longrightarrow> a = (\<exists>c. fs_at fs p = Some (FileEntry c))"
    using assms 1 fs_at_entries [OF e] entry_is_file_Inr [of p f1 a fs'] by (auto simp: io_then_def split: sum.splits)
qed

lemma collect_objects_visits:
  assumes "collect_objects visits out fs = Some r"
  shows "visited_all visits out fs r"
proof (rule collect_objects.raw_induct [where P = visited_all, OF _ assms])
  fix collect visits out fs r
  assume IH: "\<And>visits out fs r. collect visits out fs = Some r \<Longrightarrow> visited_all visits out fs r"
  assume body: "(case visits of
        [] \<Rightarrow> Some (Inr out, fs)
      | Down dir # rest \<Rightarrow>
          (case fs_read_dir dir fs of
             (Inl e, fs) \<Rightarrow> Some (Inl e, fs)
           | (Inr names, fs) \<Rightarrow> collect (map (\<lambda>n. Item (dir @ [n])) names @ rest) out fs)
      | Item p # rest \<Rightarrow>
          (case io_then (next_entry (last p)) (\<lambda>_. entry_is_file p) fs of
             (Inl e, fs) \<Rightarrow> Some (Inl e, fs)
           | (Inr is_file, fs) \<Rightarrow>
               if \<not> is_file then collect (Down p # rest) out fs
               else collect rest (case item_key p of None \<Rightarrow> out | Some k \<Rightarrow> out @ [k]) fs)) = Some r"
  show "visited_all visits out fs r"
  proof (cases visits)
    case Nil
    with body show ?thesis by (auto simp: visited_all_def)
  next
    case (Cons v rest)
    show ?thesis
    proof (cases v)
      case (Down d)
      obtain x f where x: "fs_read_dir d fs = (x, f)" by fastforce
      then have e: "fs_entries f = fs_entries fs" using fs_read_dir_entries [of d fs] by simp
      show ?thesis
      proof (cases x)
        case (Inl err)
        with body x Cons Down e show ?thesis by (auto simp: visited_all_def)
      next
        case (Inr names)
        with body x Cons Down have "collect (map (\<lambda>n. Item (d @ [n])) names @ rest) out f = Some r" by simp
        from IH [OF this] fs_read_dir_lists [of d fs names f] x Inr show ?thesis
          by (auto simp: Cons Down visited_all_from [OF e] intro: visited_down)
      qed
    next
      case (Item p)
      obtain x f where x: "io_then (next_entry (last p)) (\<lambda>_. entry_is_file p) fs = (x, f)" by fastforce
      note e = item_call [OF x]
      show ?thesis
      proof (cases x)
        case (Inl err)
        with body x Cons Item e(1) show ?thesis by (auto simp: visited_all_def)
      next
        case (Inr is_file)
        with body x Cons Item have b: "(if \<not> is_file then collect (Down p # rest) out f
            else collect rest (case item_key p of None \<Rightarrow> out | Some k \<Rightarrow> out @ [k]) f) = Some r" by simp
        show ?thesis
        proof (cases is_file)
          case False
          with b IH [of "Down p # rest" out f r] show ?thesis
            by (simp add: Cons Item visited_all_from [OF e(1)] visited_item_dir)
        next
          case True
          with e(2) Inr obtain c where "fs_at fs p = Some (FileEntry c)" by blast
          with True b IH [of rest _ f r] show ?thesis
            by (auto simp: Cons Item visited_all_from [OF e(1)] intro!: visited_item_file)
        qed
      qed
    qed
  qed
qed

text \<open>And it always ends: no entry lies deeper than the deepest one.\<close>

lemma collect_items_end:
  assumes "\<And>p out fs. p \<in> set ps \<Longrightarrow> fs_entries fs = es \<Longrightarrow>
      (\<forall>rest. (\<forall>out fs. fs_entries fs = es \<longrightarrow> collect_objects rest out fs \<noteq> None) \<longrightarrow> collect_objects (Down p # rest) out fs \<noteq> None)"
    and "\<And>out fs. fs_entries fs = es \<Longrightarrow> collect_objects rest out fs \<noteq> None" and "fs_entries fs = es"
  shows "collect_objects (map Item ps @ rest) out fs \<noteq> None"
  using assms
proof (induction ps arbitrary: out fs)
  case (Cons p ps)
  obtain x f where x: "io_then (next_entry (last p)) (\<lambda>_. entry_is_file p) fs = (x, f)" by fastforce
  have e: "fs_entries f = es" using item_call(1) [OF x] Cons.prems(3) by simp
  have tail: "collect_objects (map Item ps @ rest) out fs \<noteq> None" if "fs_entries fs = es" for out fs
    using Cons.IH Cons.prems(1,2) that by simp
  have "collect_objects (Down p # map Item ps @ rest) out f \<noteq> None" using Cons.prems(1) [of p f] e tail by simp
  with tail [OF e] show ?case by (subst list.map, subst append_Cons, subst collect_objects.simps) (auto simp: x split: sum.split)
qed simp

lemma collect_ends:
  assumes "\<forall>p \<in> fst ` set es. length p \<le> length d + n" "fs_entries fs = es"
    and "\<And>out fs. fs_entries fs = es \<Longrightarrow> collect_objects rest out fs \<noteq> None"
  shows "collect_objects (Down d # rest) out fs \<noteq> None"
  using assms
proof (induction n arbitrary: d fs rest out)
  case (0 d fs rest out)
  obtain x f where x: "fs_read_dir d fs = (x, f)" by fastforce
  have e: "fs_entries f = es" using fs_read_dir_entries [of d fs] x 0(2) by simp
  have "dir_children d fs = []"
  proof (rule ccontr)
    assume "dir_children d fs \<noteq> []"
    then obtain m where "m \<in> set (dir_children d fs)" by (cases "dir_children d fs") auto
    then show False using 0(1,2) unfolding dir_children_iff fs_at_dom by fastforce
  qed
  then have "x = Inr ns \<Longrightarrow> ns = []" for ns using fs_read_dir_lists [of d fs ns f] x by simp
  with 0(3) [OF e] show ?case by (subst collect_objects.simps) (auto simp: x split: sum.split)
next
  case (Suc n d fs rest out)
  obtain x f where x: "fs_read_dir d fs = (x, f)" by fastforce
  have e: "fs_entries f = es" using fs_read_dir_entries [of d fs] x Suc.prems(2) by simp
  have "collect_objects (map Item (map (\<lambda>n. d @ [n]) ns) @ rest) out f \<noteq> None" for ns
    by (rule collect_items_end [OF _ _ e]) (use Suc.IH Suc.prems(1,3) in auto)
  then show ?case by (subst collect_objects.simps) (auto simp: x comp_def split: sum.split)
qed

lemma collect_down_ends: "collect_objects [Down d] out fs \<noteq> None"
proof (rule collect_ends [OF _ refl])
  show "\<forall>p \<in> fst ` set (fs_entries fs). length p \<le> length d + Max (length ` fst ` set (fs_entries fs))"
    by (auto intro!: trans_le_add2 Max_ge)
  show "collect_objects [] out fs' \<noteq> None" for out fs' by (subst collect_objects.simps) simp
qed

lemma file_open_result:
  "file_open p fs = (Inr e, fs') \<Longrightarrow> fs_at fs p = Some e" "file_open p fs = (Inl NotFound, fs') \<Longrightarrow> fs_at fs p = None"
  unfolding file_open_def sys_def
  by (auto simp: fs_simps split: if_splits list.splits Fault.splits option.splits)

lemma keys_below_absent:
  assumes "fs_tree fs" "fs_at fs d = None" "d \<noteq> []"
  shows "keys_below fs d = {}"
proof -
  have "fs_at fs (d @ q) = None" for q
    using fs_treeD [OF assms(1), of d q] assms(2,3) by (cases "q = []"; cases "fs_at fs (d @ q)") auto
  then show ?thesis by (simp add: keys_below_def)
qed

lemma blob_list_result:
  assumes "blob_list show_io s fs = Some (r, fs')"
  shows "fs_entries fs' = fs_entries fs"
    and "r = Inr ks \<Longrightarrow> fs_tree fs \<Longrightarrow> set ks = keys_below fs (lb_dir s @ [ALGORITHM])"
proof -
  let ?root = "lb_dir s @ [ALGORITHM]"
  obtain x f where x: "fs_metadata ?root fs = (x, f)" by fastforce
  then have e: "fs_entries f = fs_entries fs" using file_open_entries [of ?root fs] by (simp add: fs_metadata_def)
  have c: "visited_all [Down ?root] [] fs (y, g)" if "collect_objects [Down ?root] [] f = Some (y, g)" for y g
    using collect_objects_visits [OF that] visited_all_from [OF e] by simp
  show "fs_entries fs' = fs_entries fs"
  proof (cases x)
    case (Inl err)
    with assms x e show ?thesis by (auto simp: blob_list_def split: IoError.splits)
  next
    case (Inr entry)
    with assms x obtain y where "collect_objects [Down ?root] [] f = Some (y, fs')" by (auto simp: blob_list_def)
    from c [OF this] show ?thesis by (simp add: visited_all_def)
  qed
  show "set ks = keys_below fs ?root" if r: "r = Inr ks" and tree: "fs_tree fs"
  proof (cases x)
    case (Inl err)
    with assms x r have "err = NotFound" "ks = []" by (auto simp: blob_list_def split: IoError.splits)
    with x Inl keys_below_absent [OF tree, of ?root] file_open_result(2) [of ?root fs f] show ?thesis
      by (simp add: fs_metadata_def)
  next
    case (Inr entry)
    with assms x obtain y where y: "collect_objects [Down ?root] [] f = Some (y, fs')"
      "r = (case y of Inl e \<Rightarrow> Inl (list_failure show_io s e) | Inr ks \<Rightarrow> Inr (sort_keys ks))" by (auto simp: blob_list_def)
    from c [OF y(1)] y(2) r tree show ?thesis by (auto simp: visited_all_def sort_keys_def split: sum.splits)
  qed
qed

lemma blob_list_ends: "blob_list show_io s fs \<noteq> None"
proof -
  have "\<exists>f y. collect_objects [Down d] [] g = Some (y, f)" for d g using collect_down_ends [of d "[]" g] by fast
  then show ?thesis by (simp add: blob_list_def Let_def split: prod.split sum.split IoError.split)
qed

lemma keys_below_valid: "k \<in> keys_below fs d \<Longrightarrow> valid_key k"
  by (auto simp: keys_below_def item_key_def valid_key_iff key_from_parts_Some split: option.splits)

lemma blob_delete_frame: "blob_delete show_io s k fs = (r, fs') \<Longrightarrow> q \<noteq> object_path s k \<Longrightarrow> fs_at fs' q = fs_at fs q"
  using fs_remove_file_frame [of q "object_path s k" fs]
  by (auto simp: blob_delete_def split: prod.splits sum.splits IoError.splits)

lemma blob_delete_at:
  "blob_delete show_io s k fs = (Inr u, fs') \<Longrightarrow> fs_at fs' (object_path s k) = None"
  "blob_delete show_io s k fs = (Inl e, fs') \<Longrightarrow> fs_at fs' (object_path s k) = fs_at fs (object_path s k)"
  using fs_remove_file_result [of "object_path s k" fs] fs_remove_file_NotFound [of "object_path s k" fs]
  by (fastforce simp: blob_delete_def split: prod.splits sum.splits IoError.splits)+

text \<open>
  The reclaim half of the port: what a collector relies on.  Listing removes nothing and returns; removing
  one blob leaves the others, and the blob itself unless the removal succeeded.
\<close>

locale blob_container =
  fixes held :: "'s \<Rightarrow> BlobKey \<Rightarrow> 'e option"
    and listing :: "'s \<Rightarrow> ((BlobError + BlobKey list) \<times> 's) option"
    and remove :: "BlobKey \<Rightarrow> 's \<Rightarrow> (BlobError + unit) \<times> 's"
  assumes listing_ends: "listing st \<noteq> None"
    and listing_keeps: "listing st = Some (listed, st') \<Longrightarrow> held st' k = held st k"
    and remove_others: "remove k st = (r, st') \<Longrightarrow> k' \<noteq> k \<Longrightarrow> held st' k' = held st k'"
    and remove_done: "remove k st = (Inr (), st') \<Longrightarrow> held st' k = None"
    and remove_failed: "remove k st = (Inl e, st') \<Longrightarrow> held st' k = held st k"
begin

text \<open>Removing a blob again changes nothing.\<close>

lemma remove_twice:
  assumes "remove k st = (Inr (), st')" "remove k st' = (r, st'')"
  shows "held st'' k' = held st' k'"
proof (cases "k' = k")
  case True
  with assms remove_done [OF assms(1)] remove_done [of k st' st''] remove_failed [of k st' _ st''] show ?thesis
    by (cases r) auto
qed (rule remove_others [OF assms(2)])

end

definition blob_held :: "LocalFsBlob \<Rightarrow> Fs \<Rightarrow> BlobKey \<Rightarrow> FsEntry option" where
  "blob_held s fs k = fs_at fs (object_path s k)"

interpretation local_store: blob_container "blob_held s" "blob_list show_io s" "blob_delete show_io s" for s show_io
proof
  show "blob_list show_io s st = Some (r, st') \<Longrightarrow> blob_held s st' k = blob_held s st k" for st r st' k
    using blob_list_result(1) by (simp add: blob_held_def fs_at_def)
qed (simp_all add: blob_held_def blob_list_ends blob_delete_frame blob_delete_at del: not_None_eq)

end
