(* ===== verification/Byte_Text.thy ===== *)
theory Byte_Text
  imports Std_Text
begin

text \<open>
  Bytes as text: which byte sequences are UTF-8, as the standard library's \<open>str::from_utf8\<close> decides it, and
  the two directions between the bytes of a file or a message and a string.
\<close>

text \<open>\<open>str::from_utf8\<close>, by the table of well-formed byte sequences.\<close>

definition utf8_cont :: "nat \<Rightarrow> bool" where
  "utf8_cont n \<longleftrightarrow> 128 \<le> n \<and> n \<le> 191"

fun utf8_valid :: "nat list \<Rightarrow> bool" where
  "utf8_valid [] = True"
| "utf8_valid (a # r) =
     (if a < 128 then utf8_valid r
      else if 194 \<le> a \<and> a \<le> 223 then (case r of b # r \<Rightarrow> utf8_cont b \<and> utf8_valid r | _ \<Rightarrow> False)
      else if 224 \<le> a \<and> a \<le> 239 then
        (case r of b # c # r \<Rightarrow> (if a = 224 then 160 \<le> b \<and> b \<le> 191 else if a = 237 then 128 \<le> b \<and> b \<le> 159 else utf8_cont b)
             \<and> utf8_cont c \<and> utf8_valid r
         | _ \<Rightarrow> False)
      else if 240 \<le> a \<and> a \<le> 244 then
        (case r of b # c # d # r \<Rightarrow> (if a = 240 then 144 \<le> b \<and> b \<le> 191 else if a = 244 then 128 \<le> b \<and> b \<le> 143 else utf8_cont b)
             \<and> utf8_cont c \<and> utf8_cont d \<and> utf8_valid r
         | _ \<Rightarrow> False)
      else False)"

definition text_of_bytes :: "u8 list \<Rightarrow> string option" where
  "text_of_bytes bytes = (if utf8_valid (map unat bytes) then Some (map (\<lambda>b. char_of (unat b)) bytes) else None)"

definition bytes_of_text :: "string \<Rightarrow> u8 list" where
  "bytes_of_text t = map (\<lambda>c. of_nat (of_char c)) t"

text \<open>A string of the program: its bytes are UTF-8.\<close>

definition is_text :: "string \<Rightarrow> bool" where
  "is_text t \<longleftrightarrow> utf8_valid (map of_char t)"

lemma unat_of_char [simp]: "unat (of_nat (of_char c) :: u8) = of_char c"
  by (simp add: unat_of_nat)

lemma byte_of_char [simp]: "of_nat (of_char (char_of (unat (b :: u8)))) = b"
proof -
  have "unat b < 2 ^ LENGTH(8)" by (rule unsigned_less)
  then show ?thesis by simp
qed

lemma length_bytes_of_text [simp]: "length (bytes_of_text t) = length t"
  by (simp add: bytes_of_text_def)

lemma text_of_bytes_Some: "text_of_bytes bs = Some t \<longleftrightarrow> is_text t \<and> bs = bytes_of_text t"
proof
  assume "text_of_bytes bs = Some t"
  then have valid: "utf8_valid (map unat bs)" and t: "t = map (\<lambda>b. char_of (unat b)) bs" by (simp_all add: text_of_bytes_def split: if_splits)
  have "unat b < 2 ^ LENGTH(8)" for b :: u8 by (rule unsigned_less)
  then have "(of_char (char_of (unat b)) :: nat) = unat b" for b :: u8 by simp
  then have "map of_char t = map unat bs" unfolding t map_map comp_def by metis
  with valid have "is_text t" by (simp only: is_text_def)
  moreover have "bs = bytes_of_text t" unfolding t bytes_of_text_def map_map comp_def byte_of_char by simp
  ultimately show "is_text t \<and> bs = bytes_of_text t" ..
next
  assume "is_text t \<and> bs = bytes_of_text t"
  then show "text_of_bytes bs = Some t" by (simp add: text_of_bytes_def is_text_def bytes_of_text_def comp_def)
qed

end
