(* ===== verification/Payload.thy ===== *)
theory Payload
  imports Byte_Text
begin

text \<open>
  The payload codec (\<open>crates/core/src/payload.rs\<close>): the classified refusals, the read cursor, the body
  codecs of the primitives, the containers and the pairs, and the self-describing envelope.  A codec is
  the dictionary of the trait: the two functions and whether the type has size zero.  The locale states what
  makes a codec canonical; the lemmas prove it of every codec of the file, so that an encoding decodes to the
  value it was made from, and nothing else decodes.
\<close>

section \<open>Refusals\<close>

type_synonym u16 = "16 word"

datatype CodecError =
  TypeMismatch string string
| UnsupportedVersion u16 u16
| Truncated string nat nat
| TrailingGarbage nat nat
| Malformed string string "string option"
| FieldError string string CodecError

definition malformed :: "string \<Rightarrow> string \<Rightarrow> CodecError" where
  "malformed ctx detail = Malformed ctx detail None"

definition malformed_from :: "string \<Rightarrow> string \<Rightarrow> string \<Rightarrow> CodecError" where
  "malformed_from ctx detail source = Malformed ctx detail (Some source)"

definition in_field :: "string \<Rightarrow> string \<Rightarrow> CodecError \<Rightarrow> CodecError" where
  "in_field type_name field source = FieldError type_name field source"

fun codec_root :: "CodecError \<Rightarrow> CodecError" where
  "codec_root (FieldError _ _ source) = codec_root source"
| "codec_root other = other"

fun codec_error_display :: "CodecError \<Rightarrow> string" where
  "codec_error_display (TypeMismatch expected found) =
     ''payload type mismatch: these bytes were encoded from `'' @ found @ ''`, but a `'' @ expected @ ''` was expected ''
     @ [CHR 0xE2, CHR 0x80, CHR 0x94]
     @ '' the encoded envelope carries the author-declared stable name, so a value encoded from another type is refused rather than misread''"
| "codec_error_display (UnsupportedVersion expected found) =
     ''unsupported payload format version: found '' @ show_nat (unat found) @ '', expected '' @ show_nat (unat expected)
     @ '' (this build encodes and decodes version '' @ show_nat (unat expected) @ '')''"
| "codec_error_display (Truncated ctx needed available) =
     ''truncated payload while decoding `'' @ ctx @ ''`: '' @ show_nat needed @ '' more byte(s) needed, '' @ show_nat available @ '' available''"
| "codec_error_display (TrailingGarbage consumed whole) =
     ''trailing bytes after a complete payload: '' @ show_nat consumed @ '' of '' @ show_nat whole @ '' byte(s) consumed, ''
     @ show_nat (whole - consumed) @ '' left over''"
| "codec_error_display (Malformed ctx detail _) = ''malformed payload while decoding `'' @ ctx @ ''`: '' @ detail"
| "codec_error_display (FieldError type_name field source) =
     ''while decoding field `'' @ field @ ''` of `'' @ type_name @ ''`: '' @ codec_error_display source"

section \<open>The read cursor\<close>

record Cursor =
  cu_bytes :: "u8 list"
  cu_position :: nat

definition cursor_new :: "u8 list \<Rightarrow> Cursor" where
  "cursor_new bytes = \<lparr>cu_bytes = bytes, cu_position = 0\<rparr>"

definition cursor_remaining :: "Cursor \<Rightarrow> nat" where
  "cursor_remaining c = length (cu_bytes c) - cu_position c"

definition cursor_is_empty :: "Cursor \<Rightarrow> bool" where
  "cursor_is_empty c \<longleftrightarrow> cursor_remaining c = 0"

text \<open>A read answers a value and the cursor after it; a refusal ends the decode, whatever the cursor.\<close>

type_synonym 'a decoder = "Cursor \<Rightarrow> CodecError + 'a \<times> Cursor"

definition cursor_take :: "nat \<Rightarrow> string \<Rightarrow> u8 list decoder" where
  "cursor_take n ctx c =
     (if cursor_remaining c < n then Inl (Truncated ctx n (cursor_remaining c))
      else Inr (take n (drop (cu_position c) (cu_bytes c)), c\<lparr>cu_position := cu_position c + n\<rparr>))"

definition dec_then :: "'a decoder \<Rightarrow> ('a \<Rightarrow> 'b decoder) \<Rightarrow> 'b decoder" where
  "dec_then d k c = (case d c of Inl e \<Rightarrow> Inl e | Inr (v, c) \<Rightarrow> k v c)"

definition dec_return :: "'a \<Rightarrow> 'a decoder" where
  "dec_return v c = Inr (v, c)"

definition dec_refuse :: "CodecError \<Rightarrow> 'a decoder" where
  "dec_refuse e c = Inl e"

definition take_byte :: "string \<Rightarrow> u8 decoder" where
  "take_byte ctx = dec_then (cursor_take 1 ctx) (\<lambda>bytes. dec_return (bytes ! 0))"

section \<open>Integers\<close>

text \<open>\<open>to_le_bytes\<close> and \<open>from_le_bytes\<close>; the signed types have the same bytes as the unsigned ones of their width.\<close>

definition to_le_bytes :: "'a::len word \<Rightarrow> u8 list" where
  "to_le_bytes w = map (\<lambda>i. ucast (drop_bit (8 * i) w)) [0..<LENGTH('a) div 8]"

definition from_le_bytes :: "u8 list \<Rightarrow> 'a::len word" where
  "from_le_bytes bytes = foldr (\<lambda>b w. push_bit 8 w OR ucast b) bytes 0"

definition decode_int_in :: "string \<Rightarrow> 'a::len word decoder" where
  "decode_int_in ctx = dec_then (cursor_take (LENGTH('a) div 8) ctx) (\<lambda>bytes. dec_return (from_le_bytes bytes))"

text \<open>A length that a 64-bit platform can address: every \<open>u64\<close> is one.\<close>

definition take_len :: "string \<Rightarrow> nat decoder" where
  "take_len ctx = dec_then (decode_int_in ctx :: u64 decoder) (\<lambda>raw. dec_return (unat raw))"

section \<open>Codecs\<close>

record 'a Codec =
  encode_body :: "'a \<Rightarrow> u8 list"
  decode_body :: "'a decoder"
  zero_sized :: bool

definition int_codec :: "string \<Rightarrow> 'a::len word Codec" where
  "int_codec ty = \<lparr>encode_body = to_le_bytes, decode_body = decode_int_in ty, zero_sized = False\<rparr>"

text \<open>\<open>usize\<close> and \<open>isize\<close> travel with 64 bits, which a 64-bit platform holds.\<close>

definition usize_codec :: "u64 Codec" where
  "usize_codec = \<lparr>encode_body = to_le_bytes, decode_body = decode_int_in ''usize'', zero_sized = False\<rparr>"

definition isize_codec :: "u64 Codec" where
  "isize_codec = \<lparr>encode_body = to_le_bytes, decode_body = decode_int_in ''isize'', zero_sized = False\<rparr>"

definition decode_bool :: "bool decoder" where
  "decode_bool = dec_then (take_byte ''bool'') (\<lambda>b.
     if b = 0 then dec_return False else if b = 1 then dec_return True
     else dec_refuse (malformed ''bool'' (''expected 0 or 1, found '' @ show_nat (unat b))))"

definition bool_codec :: "bool Codec" where
  "bool_codec = \<lparr>encode_body = (\<lambda>v. [if v then 1 else 0]), decode_body = decode_bool, zero_sized = False\<rparr>"

definition unit_codec :: "unit Codec" where
  "unit_codec = \<lparr>encode_body = (\<lambda>_. []), decode_body = dec_return (), zero_sized = True\<rparr>"

definition encode_len :: "nat \<Rightarrow> u8 list" where
  "encode_len n = to_le_bytes (of_nat n :: u64)"

definition encode_str :: "string \<Rightarrow> u8 list" where
  "encode_str s = encode_len (length s) @ bytes_of_text s"

definition decode_str :: "string \<Rightarrow> string decoder" where
  "decode_str ctx = dec_then (take_len ctx) (\<lambda>n. dec_then (cursor_take n ctx) (\<lambda>bytes.
     case text_of_bytes bytes of
       Some s \<Rightarrow> dec_return s
     | None \<Rightarrow> dec_refuse (malformed_from ctx ''the bytes are not valid UTF-8'' ''invalid utf-8'')))"

definition string_codec :: "string Codec" where
  "string_codec = \<lparr>encode_body = encode_str, decode_body = decode_str ''String'', zero_sized = False\<rparr>"

definition encode_option :: "'a Codec \<Rightarrow> 'a option \<Rightarrow> u8 list" where
  "encode_option t v = (case v of None \<Rightarrow> [0] | Some x \<Rightarrow> 1 # encode_body t x)"

definition decode_option :: "'a Codec \<Rightarrow> 'a option decoder" where
  "decode_option t = dec_then (take_byte ''Option'') (\<lambda>b.
     if b = 0 then dec_return None
     else if b = 1 then dec_then (decode_body t) (\<lambda>v. dec_return (Some v))
     else dec_refuse (malformed ''Option'' (''expected the tag 0 or 1, found '' @ show_nat (unat b))))"

definition option_codec :: "'a Codec \<Rightarrow> 'a option Codec" where
  "option_codec t = \<lparr>encode_body = encode_option t, decode_body = decode_option t, zero_sized = False\<rparr>"

definition check_element_count :: "bool \<Rightarrow> nat \<Rightarrow> string \<Rightarrow> unit decoder" where
  "check_element_count zst count ctx c =
     (if \<not> zst \<and> cursor_remaining c < count then Inl (Truncated ctx count (cursor_remaining c)) else Inr ((), c))"

fun decode_n :: "'a decoder \<Rightarrow> nat \<Rightarrow> 'a list decoder" where
  "decode_n d 0 = dec_return []"
| "decode_n d (Suc n) = dec_then d (\<lambda>v. dec_then (decode_n d n) (\<lambda>vs. dec_return (v # vs)))"

definition encode_vec :: "'a Codec \<Rightarrow> 'a list \<Rightarrow> u8 list" where
  "encode_vec t vs = encode_len (length vs) @ concat (map (encode_body t) vs)"

definition decode_vec :: "'a Codec \<Rightarrow> 'a list decoder" where
  "decode_vec t = dec_then (take_len ''Vec'') (\<lambda>count.
     dec_then (check_element_count (zero_sized t) count ''Vec'') (\<lambda>_. decode_n (decode_body t) count))"

definition vec_codec :: "'a Codec \<Rightarrow> 'a list Codec" where
  "vec_codec t = \<lparr>encode_body = encode_vec t, decode_body = decode_vec t, zero_sized = False\<rparr>"

definition encode_map :: "'k Codec \<Rightarrow> 'v Codec \<Rightarrow> ('k, 'v) btree \<Rightarrow> u8 list" where
  "encode_map kc vc m = encode_len (length m) @ concat (map (\<lambda>(k, v). encode_body kc k @ encode_body vc v) m)"

fun decode_entries :: "'k::linorder Codec \<Rightarrow> 'v Codec \<Rightarrow> nat \<Rightarrow> ('k, 'v) btree \<Rightarrow> ('k, 'v) btree decoder" where
  "decode_entries kc vc 0 m = dec_return m"
| "decode_entries kc vc (Suc n) m = dec_then (decode_body kc) (\<lambda>key.
     if m \<noteq> [] \<and> fst (last m) \<ge> key
     then dec_refuse (malformed ''BTreeMap'' ''the entries are not in strictly ascending key order (a canonical encoding has exactly one byte string per value)'')
     else dec_then (decode_body vc) (\<lambda>v. decode_entries kc vc n (bt_insert key v m)))"

definition decode_map :: "'k::linorder Codec \<Rightarrow> 'v Codec \<Rightarrow> ('k, 'v) btree decoder" where
  "decode_map kc vc = dec_then (take_len ''BTreeMap'') (\<lambda>count.
     dec_then (check_element_count (zero_sized kc) count ''BTreeMap'') (\<lambda>_. decode_entries kc vc count []))"

definition map_codec :: "'k::linorder Codec \<Rightarrow> 'v Codec \<Rightarrow> ('k, 'v) btree Codec" where
  "map_codec kc vc = \<lparr>encode_body = encode_map kc vc, decode_body = decode_map kc vc, zero_sized = False\<rparr>"

text \<open>A tuple is its elements in order; the wider ones are pairs whose second part is the rest.\<close>

definition pair_codec :: "'a Codec \<Rightarrow> 'b Codec \<Rightarrow> ('a \<times> 'b) Codec" where
  "pair_codec a b =
     \<lparr>encode_body = (\<lambda>(x, y). encode_body a x @ encode_body b y),
      decode_body = dec_then (decode_body a) (\<lambda>x. dec_then (decode_body b) (\<lambda>y. dec_return (x, y))),
      zero_sized = (zero_sized a \<and> zero_sized b)\<rparr>"

section \<open>The envelope\<close>

definition MAGIC :: "u8 list" where "MAGIC = [0x64, 0x67, 0x72, 0x50]"

definition FORMAT_VERSION :: u16 where "FORMAT_VERSION = 1"

definition payload_encode :: "string \<Rightarrow> 'a Codec \<Rightarrow> 'a \<Rightarrow> u8 list" where
  "payload_encode stable_name t v = MAGIC @ to_le_bytes FORMAT_VERSION @ encode_str stable_name @ encode_body t v"

definition payload_decode :: "string \<Rightarrow> 'a Codec \<Rightarrow> u8 list \<Rightarrow> CodecError + 'a" where
  "payload_decode stable_name t bytes =
     (case dec_then (cursor_take (length MAGIC) stable_name) (\<lambda>magic.
         if magic \<noteq> MAGIC then dec_refuse (malformed stable_name ''these bytes are not an encoded dagr payload (wrong leading magic)'')
         else dec_then (decode_int_in stable_name :: u16 decoder) (\<lambda>version.
           if version \<noteq> FORMAT_VERSION then dec_refuse (UnsupportedVersion FORMAT_VERSION version)
           else dec_then (decode_str stable_name) (\<lambda>name.
             if name \<noteq> stable_name then dec_refuse (TypeMismatch stable_name name)
             else decode_body t))) (cursor_new bytes) of
        Inl e \<Rightarrow> Inl e
      | Inr (v, c) \<Rightarrow>
          if \<not> cursor_is_empty c then Inl (TrailingGarbage (cu_position c) (length bytes)) else Inr v)"

definition payload_round_trip :: "string \<Rightarrow> 'a Codec \<Rightarrow> 'a \<Rightarrow> CodecError + 'a" where
  "payload_round_trip stable_name t v = payload_decode stable_name t (payload_encode stable_name t v)"

section \<open>What the input starts with\<close>

definition starts :: "u8 list \<Rightarrow> Cursor \<Rightarrow> bool" where
  "starts p c \<longleftrightarrow> take (length p) (drop (cu_position c) (cu_bytes c)) = p"

definition advance :: "nat \<Rightarrow> Cursor \<Rightarrow> Cursor" where
  "advance n c = c\<lparr>cu_position := cu_position c + n\<rparr>"

named_theorems decode_simps \<open>when a read succeeds, and with what\<close>

lemma cursor_take_Inr [decode_simps]: "cursor_take n ctx c = Inr (bs, c') \<longleftrightarrow> length bs = n \<and> starts bs c \<and> c' = advance n c"
  by (auto simp: cursor_take_def starts_def advance_def cursor_remaining_def)

lemma dec_then_Inr [decode_simps]: "dec_then d k c = Inr (v, c') \<longleftrightarrow> (\<exists>x c1. d c = Inr (x, c1) \<and> k x c1 = Inr (v, c'))"
  by (auto simp: dec_then_def split: sum.split)

lemma dec_return_Inr [decode_simps]: "dec_return x c = Inr (v, c') \<longleftrightarrow> v = x \<and> c' = c"
  by (auto simp: dec_return_def)

lemma dec_refuse_Inr [decode_simps]: "dec_refuse e c = Inr r \<longleftrightarrow> False"
  by (simp add: dec_refuse_def)

lemma if_Inr [decode_simps]: "(if b then d else d') c = Inr r \<longleftrightarrow> (if b then d c = Inr r else d' c = Inr r)"
  by simp

lemma starts_Nil [simp]: "starts [] c"
  by (simp add: starts_def)

lemma advance_0 [simp]: "advance 0 c = c"
  by (simp add: advance_def)

lemma advance_advance [simp]: "advance m (advance n c) = advance (n + m) c"
  by (simp add: advance_def add.assoc)

lemma starts_append: "starts (p @ q) c \<longleftrightarrow> starts p c \<and> starts q (advance (length p) c)"
proof -
  define u where "u = drop (cu_position c) (cu_bytes c)"
  have d: "drop (cu_position c + length p) (cu_bytes c) = drop (length p) u" by (simp add: u_def add.commute)
  have "take (length p + length q) u = p @ q \<longleftrightarrow> take (length p) u = p \<and> take (length q) (drop (length p) u) = q"
  proof
    assume a: "take (length p + length q) u = p @ q"
    have "take (length p) u = take (length p) (take (length p + length q) u)" by simp
    moreover have "take (length q) (drop (length p) u) = drop (length p) (take (length p + length q) u)" by (simp add: drop_take)
    ultimately show "take (length p) u = p \<and> take (length q) (drop (length p) u) = q" by (simp add: a)
  qed (simp add: take_add)
  then show ?thesis by (simp add: starts_def advance_def d flip: u_def)
qed

lemma starts_Cons: "starts (b # q) c \<longleftrightarrow> starts [b] c \<and> starts q (advance 1 c)"
  using starts_append [of "[b]" q c] by simp

lemma starts_length: "starts p c \<Longrightarrow> length p \<le> cursor_remaining c"
  unfolding starts_def cursor_remaining_def by (metis length_drop length_take min.cobounded1)

lemma take_byte_Inr [decode_simps]: "take_byte ctx c = Inr (b, c') \<longleftrightarrow> starts [b] c \<and> c' = advance 1 c"
  by (auto simp: take_byte_def decode_simps length_Suc_conv)

section \<open>Integers are their bytes\<close>

lemma bit_from_le_bytes:
  "bit (from_le_bytes bs :: 'a::len word) n \<longleftrightarrow> n < LENGTH('a) \<and> n div 8 < length bs \<and> bit (bs ! (n div 8)) (n mod 8)"
proof (induction bs arbitrary: n)
  case (Cons b bs)
  have step: "bit (from_le_bytes (b # bs) :: 'a word) n \<longleftrightarrow>
      (8 \<le> n \<and> n < LENGTH('a) \<and> bit (from_le_bytes bs :: 'a word) (n - 8)) \<or> (n < LENGTH('a) \<and> bit b n)"
    by (auto simp: from_le_bytes_def bit_or_iff bit_push_bit_iff bit_ucast_iff dest: bit_imp_le_length)
  show ?case
  proof (cases "n < 8")
    case True
    then show ?thesis by (auto simp: step)
  next
    case False
    then obtain m where m: "n = m + 8" using le_iff_add [of 8 n] by (auto simp: add.commute)
    have "\<not> bit b n" using False bit_imp_le_length [of b n] by auto
    moreover have "n div 8 = Suc (m div 8)" "n mod 8 = m mod 8" "n - 8 = m" by (simp_all add: m)
    ultimately show ?thesis unfolding step using False by (auto simp: Cons.IH intro: less_imp_diff_less)
  qed
qed (simp add: from_le_bytes_def)

lemma length_to_le_bytes [simp]: "length (to_le_bytes (w :: 'a::len word)) = LENGTH('a) div 8"
  by (simp add: to_le_bytes_def)

lemma from_to_le_bytes:
  assumes "LENGTH('a) mod 8 = 0"
  shows "from_le_bytes (to_le_bytes w) = (w :: 'a::len word)"
proof (rule bit_word_eqI)
  fix n assume n: "n < LENGTH('a)"
  have "LENGTH('a) = LENGTH('a) div 8 * 8" using assms by presburger
  then have d: "n div 8 < LENGTH('a) div 8" using n less_mult_imp_div_less [of n "LENGTH('a) div 8" 8] by simp
  then show "bit (from_le_bytes (to_le_bytes w) :: 'a word) n = bit w n"
    using n by (simp add: bit_from_le_bytes to_le_bytes_def bit_ucast_iff bit_drop_bit_eq)
qed

lemma to_from_le_bytes:
  assumes "LENGTH('a) mod 8 = 0" "length bs = LENGTH('a) div 8"
  shows "to_le_bytes (from_le_bytes bs :: 'a::len word) = bs"
proof (rule nth_equalityI)
  fix i assume "i < length (to_le_bytes (from_le_bytes bs :: 'a word))"
  then have i: "i < LENGTH('a) div 8" by simp
  show "to_le_bytes (from_le_bytes bs :: 'a word) ! i = bs ! i"
  proof (rule bit_word_eqI)
    fix k assume k: "k < LENGTH(8)"
    have "8 * i + k < LENGTH('a)" using i k assms(1) by simp
    then show "bit (to_le_bytes (from_le_bytes bs :: 'a word) ! i) k = bit (bs ! i) k"
      using i k assms(2) by (simp add: to_le_bytes_def bit_ucast_iff bit_drop_bit_eq bit_from_le_bytes)
  qed
qed (simp add: assms(2))

lemma decode_int_Inr:
  assumes "LENGTH('a) mod 8 = 0"
  shows "(decode_int_in ctx :: 'a::len word decoder) c = Inr (w, c') \<longleftrightarrow> starts (to_le_bytes w) c \<and> c' = advance (LENGTH('a) div 8) c"
proof
  assume "decode_int_in ctx c = Inr (w, c')"
  then show "starts (to_le_bytes w) c \<and> c' = advance (LENGTH('a) div 8) c"
    using to_from_le_bytes [OF assms] by (auto simp: decode_int_in_def decode_simps)
next
  assume "starts (to_le_bytes w) c \<and> c' = advance (LENGTH('a) div 8) c"
  then show "decode_int_in ctx c = Inr (w, c')"
    using from_to_le_bytes [OF assms, of w] by (auto simp: decode_int_in_def decode_simps intro!: exI [of _ "to_le_bytes w"])
qed

lemma take_len_Inr [decode_simps]:
  "take_len ctx c = Inr (n, c') \<longleftrightarrow> n < 2 ^ 64 \<and> starts (encode_len n) c \<and> c' = advance 8 c"
proof -
  have "(\<exists>w :: u64. unat w = n \<and> P w) \<longleftrightarrow> n < 2 ^ 64 \<and> P (of_nat n)" for P
  proof
    assume "\<exists>w :: u64. unat w = n \<and> P w"
    then obtain w :: u64 where w: "unat w = n" "P w" by blast
    have "unat w < 2 ^ LENGTH(64)" by (rule unsigned_less)
    with w show "n < 2 ^ 64 \<and> P (of_nat n)" by auto
  next
    assume "n < 2 ^ 64 \<and> P (of_nat n)"
    then show "\<exists>w :: u64. unat w = n \<and> P w" by (intro exI [of _ "of_nat n"]) (simp add: unat_of_nat)
  qed
  from this [of "\<lambda>w. starts (to_le_bytes w) c \<and> c' = advance 8 c"] show ?thesis
    by (auto simp: take_len_def decode_simps decode_int_Inr encode_len_def)
qed

lemma length_encode_len [simp]: "length (encode_len n) = 8"
  by (simp add: encode_len_def)

section \<open>Canonical codecs\<close>

text \<open>
  A codec is canonical on the values that fit when its decoder answers a value exactly when the input
  starts with that value's encoding, and reads that far; and a type that has a size has no empty
  encoding, which the check of an element count rests on.
\<close>

locale canonical_codec =
  fixes t :: "'a Codec" and fits :: "'a \<Rightarrow> bool"
  assumes exact: "decode_body t c = Inr (v, c') \<longleftrightarrow> fits v \<and> starts (encode_body t v) c \<and> c' = advance (length (encode_body t v)) c"
    and sized: "\<not> zero_sized t \<Longrightarrow> fits v \<Longrightarrow> encode_body t v \<noteq> []"
begin

text \<open>Counted decoding is exact on lists.\<close>

lemma decode_n_exact:
  "decode_n (decode_body t) n c = Inr (vs, c') \<longleftrightarrow>
     length vs = n \<and> list_all fits vs \<and> starts (concat (map (encode_body t) vs)) c \<and> c' = advance (length (concat (map (encode_body t) vs))) c"
proof (induction n arbitrary: c vs)
  case 0
  then show ?case by (auto simp: decode_simps)
next
  case (Suc n)
  show ?case by (cases vs) (auto simp: decode_simps exact Suc.IH starts_append)
qed

lemma elements_bound: "\<not> zero_sized t \<Longrightarrow> list_all fits vs \<Longrightarrow> length vs \<le> length (concat (map (encode_body t) vs))"
proof (induction vs)
  case (Cons v vs)
  then have "encode_body t v \<noteq> []" using sized by simp
  then have "1 \<le> length (encode_body t v)" by (cases "encode_body t v") auto
  with Cons show ?case by simp
qed simp

end

text \<open>The codecs of the file.\<close>

lemma to_le_bytes_not_Nil: "8 \<le> LENGTH('a) \<Longrightarrow> to_le_bytes (w :: 'a::len word) \<noteq> []"
  using length_to_le_bytes [of w] by fastforce

lemma int_canonical:
  assumes "LENGTH('a) mod 8 = 0" "8 \<le> LENGTH('a)"
  shows "canonical_codec (int_codec ty :: 'a::len word Codec) (\<lambda>_. True)"
  by unfold_locales (simp_all add: int_codec_def decode_int_Inr [OF assms(1)] to_le_bytes_not_Nil [OF assms(2)])

interpretation u8_codec: canonical_codec "int_codec ''u8'' :: u8 Codec" "\<lambda>_. True"
  by (rule int_canonical) simp_all

interpretation u32_codec: canonical_codec "int_codec ''u32'' :: u32 Codec" "\<lambda>_. True"
  by (rule int_canonical) simp_all

interpretation u64_codec: canonical_codec "int_codec ''u64'' :: u64 Codec" "\<lambda>_. True"
  by (rule int_canonical) simp_all

interpretation usize_codec: canonical_codec usize_codec "\<lambda>_. True"
  by unfold_locales (simp_all add: usize_codec_def decode_int_Inr to_le_bytes_not_Nil)

interpretation isize_codec: canonical_codec isize_codec "\<lambda>_. True"
  by unfold_locales (simp_all add: isize_codec_def decode_int_Inr to_le_bytes_not_Nil)

interpretation bool_codec: canonical_codec bool_codec "\<lambda>_. True"
proof
  fix c v c'
  show "decode_body bool_codec c = Inr (v, c') \<longleftrightarrow> True \<and> starts (encode_body bool_codec v) c \<and> c' = advance (length (encode_body bool_codec v)) c"
    by (cases v) (auto simp: bool_codec_def decode_bool_def decode_simps split: if_splits intro: exI [of _ 0])
qed (simp add: bool_codec_def)

interpretation unit_codec: canonical_codec unit_codec "\<lambda>_. True"
  by unfold_locales (auto simp: unit_codec_def decode_simps)

definition fits_string :: "string \<Rightarrow> bool" where
  "fits_string s \<longleftrightarrow> is_text s \<and> length s < 2 ^ 64"

lemma decode_str_Inr [decode_simps]:
  "decode_str ctx c = Inr (s, c') \<longleftrightarrow> fits_string s \<and> starts (encode_str s) c \<and> c' = advance (length (encode_str s)) c"
proof -
  have str: "(case text_of_bytes bs of Some s \<Rightarrow> dec_return s | None \<Rightarrow> dec_refuse e) c1 = Inr (s, c')
      \<longleftrightarrow> is_text s \<and> bs = bytes_of_text s \<and> c' = c1" for bs e c1
  proof (cases "text_of_bytes bs")
    case None
    then show ?thesis using text_of_bytes_Some [of bs s] by (auto simp: decode_simps)
  next
    case (Some t)
    then have "is_text s \<and> bs = bytes_of_text s \<longleftrightarrow> s = t" using text_of_bytes_Some [of bs s] by auto
    then show ?thesis by (simp add: Some decode_simps conj_assoc [symmetric])
  qed
  have parts: "decode_str ctx c = Inr (s, c') \<longleftrightarrow> (\<exists>n. n < 2 ^ 64 \<and> starts (encode_len n) c
      \<and> (\<exists>bs. length bs = n \<and> starts bs (advance 8 c) \<and> is_text s \<and> bs = bytes_of_text s \<and> c' = advance n (advance 8 c)))"
    unfolding decode_str_def dec_then_Inr take_len_Inr cursor_take_Inr str by blast
  have whole: "starts (encode_str s) c \<longleftrightarrow> starts (encode_len (length s)) c \<and> starts (bytes_of_text s) (advance 8 c)"
    "length (encode_str s) = 8 + length s"
    by (simp_all add: encode_str_def starts_append)
  show ?thesis unfolding parts whole fits_string_def
    by (metis advance_advance length_bytes_of_text)
qed

interpretation string_codec: canonical_codec string_codec fits_string
  by unfold_locales (auto simp: string_codec_def decode_simps encode_str_def encode_len_def to_le_bytes_not_Nil)

lemma encode_len_not_Nil [simp]: "encode_len n \<noteq> []"
  using length_encode_len [of n] by fastforce

context canonical_codec
begin

text \<open>Options, vectors and maps of canonical codecs are canonical.\<close>

lemma option_canonical: "canonical_codec (option_codec t) (pred_option fits)"
proof
  fix c v c'
  show "decode_body (option_codec t) c = Inr (v, c') \<longleftrightarrow> pred_option fits v \<and> starts (encode_body (option_codec t) v) c
      \<and> c' = advance (length (encode_body (option_codec t) v)) c"
  proof (cases v)
    case None
    then show ?thesis by (auto simp: option_codec_def decode_option_def encode_option_def decode_simps split: if_splits intro: exI [of _ 0])
  next
    case (Some x)
    then show ?thesis
      by (auto simp: option_codec_def decode_option_def encode_option_def decode_simps exact starts_Cons [of 1 "encode_body t x"] split: if_splits)
  qed
qed (simp add: option_codec_def encode_option_def split: option.split)

lemma check_element_count_Inr: "check_element_count z n ctx c = Inr (u, c') \<longleftrightarrow> (z \<or> n \<le> cursor_remaining c) \<and> c' = c"
  by (auto simp: check_element_count_def)

lemma vec_canonical: "canonical_codec (vec_codec t) (\<lambda>vs. list_all fits vs \<and> length vs < 2 ^ 64)"
proof
  fix c vs c'
  have bound: "zero_sized t \<or> length vs \<le> cursor_remaining (advance 8 c)"
    if "list_all fits vs" "starts (concat (map (encode_body t) vs)) (advance 8 c)"
    using that starts_length [OF that(2)] elements_bound [of vs] by linarith
  show "decode_body (vec_codec t) c = Inr (vs, c') \<longleftrightarrow> (list_all fits vs \<and> length vs < 2 ^ 64) \<and> starts (encode_body (vec_codec t) vs) c
      \<and> c' = advance (length (encode_body (vec_codec t) vs)) c"
    using bound by (auto simp: vec_codec_def decode_vec_def encode_vec_def decode_simps decode_n_exact check_element_count_Inr starts_append)
qed (simp add: vec_codec_def encode_vec_def)

end

lemma bt_insert_last: "(\<forall>k' \<in> fst ` set m. k' < k) \<Longrightarrow> bt_insert k v m = m @ [(k, v)]"
  by (induction k v m rule: bt_insert.induct) (auto dest: order.asym)

lemma bt_ok_snoc: "bt_ok (m @ [kv]) \<longleftrightarrow> bt_ok m \<and> (\<forall>k \<in> fst ` set m. k < fst kv)"
  by (auto simp: bt_ok_def sorted_wrt_append)

lemma bt_ok_prefix: "bt_ok (m @ n) \<Longrightarrow> bt_ok m"
  by (simp add: bt_ok_def sorted_wrt_append)

lemma below_last: "bt_ok m \<Longrightarrow> \<not> (m \<noteq> [] \<and> fst (last m) \<ge> k) \<longleftrightarrow> (\<forall>k' \<in> fst ` set m. k' < k)"
  by (cases m rule: rev_cases) (auto simp: bt_ok_snoc not_le intro: order.strict_trans)

lemma decode_entries_exact:
  assumes "canonical_codec kc fk" "canonical_codec vc fv"
  shows "bt_ok m \<Longrightarrow> decode_entries kc vc n m c = Inr (m', c') \<longleftrightarrow>
    (\<exists>es. m' = m @ es \<and> length es = n \<and> bt_ok (m @ es) \<and> list_all (\<lambda>(k, v). fk k \<and> fv v) es
      \<and> starts (concat (map (\<lambda>(k, v). encode_body kc k @ encode_body vc v) es)) c
      \<and> c' = advance (length (concat (map (\<lambda>(k, v). encode_body kc k @ encode_body vc v) es))) c)"
proof (induction n arbitrary: m c)
  case 0
  then show ?case by (auto simp: decode_simps)
next
  case (Suc n)
  note exact = canonical_codec.exact [OF assms(1)] canonical_codec.exact [OF assms(2)]
  let ?e = "\<lambda>es. concat (map (\<lambda>(k, v). encode_body kc k @ encode_body vc v) es)"
  let ?rest = "\<lambda>k v es. bt_ok (m @ (k, v) # es) \<and> list_all (\<lambda>(k, v). fk k \<and> fv v) es
      \<and> starts (?e es) (advance (length (encode_body kc k @ encode_body vc v)) c)
      \<and> c' = advance (length (encode_body kc k @ encode_body vc v) + length (?e es)) c"
  have IH: "decode_entries kc vc n (m @ [(k, v)]) (advance (length (encode_body kc k @ encode_body vc v)) c) = Inr (m', c')
      \<longleftrightarrow> (\<exists>es. m' = m @ (k, v) # es \<and> length es = n \<and> ?rest k v es)"
    if "\<forall>k' \<in> fst ` set m. k' < k" for k v
  proof -
    have "bt_ok (m @ [(k, v)])" using Suc.prems that by (simp add: bt_ok_snoc)
    from Suc.IH [OF this] show ?thesis by simp
  qed
  have less: "\<forall>k' \<in> fst ` set m. k' < k" if "bt_ok (m @ (k, v) # es)" for k v es
    using that bt_ok_prefix [of "m @ [(k, v)]" es] by (simp add: bt_ok_snoc)
  have entry: "(\<forall>k' \<in> fst ` set m. k' < k) \<and> fk k \<and> fv v \<and> starts (encode_body kc k @ encode_body vc v) c
        \<and> decode_entries kc vc n (m @ [(k, v)]) (advance (length (encode_body kc k @ encode_body vc v)) c) = Inr (m', c')
      \<longleftrightarrow> (\<exists>es. m' = m @ (k, v) # es \<and> length es = n \<and> fk k \<and> fv v \<and> starts (encode_body kc k @ encode_body vc v) c \<and> ?rest k v es)"
    for k v
  proof (cases "\<forall>k' \<in> fst ` set m. k' < k")
    case True
    show ?thesis unfolding IH [OF True] using True by blast
  next
    case False
    with less [of k v] show ?thesis by blast
  qed
  have "decode_entries kc vc (Suc n) m c = Inr (m', c') \<longleftrightarrow>
      (\<exists>k v. (\<forall>k' \<in> fst ` set m. k' < k) \<and> fk k \<and> fv v \<and> starts (encode_body kc k @ encode_body vc v) c
        \<and> decode_entries kc vc n (m @ [(k, v)]) (advance (length (encode_body kc k @ encode_body vc v)) c) = Inr (m', c'))"
    using below_last [OF Suc.prems] bt_insert_last [of m] by (auto simp: decode_simps exact starts_append)
  also have "\<dots> \<longleftrightarrow> (\<exists>k v es. m' = m @ (k, v) # es \<and> length es = n \<and> fk k \<and> fv v
      \<and> starts (encode_body kc k @ encode_body vc v) c \<and> ?rest k v es)"
    using entry by simp
  also have "\<dots> \<longleftrightarrow> (\<exists>es. m' = m @ es \<and> length es = Suc n \<and> bt_ok (m @ es) \<and> list_all (\<lambda>(k, v). fk k \<and> fv v) es
      \<and> starts (?e es) c \<and> c' = advance (length (?e es)) c)"
  proof (intro iffI; elim exE conjE)
    fix k v es
    assume a: "m' = m @ (k, v) # es" "length es = n" "fk k" "fv v" "starts (encode_body kc k @ encode_body vc v) c"
      "bt_ok (m @ (k, v) # es)" "list_all (\<lambda>(k, v). fk k \<and> fv v) es"
      "starts (?e es) (advance (length (encode_body kc k @ encode_body vc v)) c)"
      "c' = advance (length (encode_body kc k @ encode_body vc v) + length (?e es)) c"
    then show "\<exists>es. m' = m @ es \<and> length es = Suc n \<and> bt_ok (m @ es) \<and> list_all (\<lambda>(k, v). fk k \<and> fv v) es
        \<and> starts (?e es) c \<and> c' = advance (length (?e es)) c"
      by (intro exI [of _ "(k, v) # es"]) (simp add: starts_append add.assoc)
  next
    fix es
    assume a: "m' = m @ es" "length es = Suc n" "bt_ok (m @ es)" "list_all (\<lambda>(k, v). fk k \<and> fv v) es"
      "starts (?e es) c" "c' = advance (length (?e es)) c"
    then obtain k v es' where es: "es = (k, v) # es'" "length es' = n" by (cases es) auto
    from a show "\<exists>k v es. m' = m @ (k, v) # es \<and> length es = n \<and> fk k \<and> fv v
        \<and> starts (encode_body kc k @ encode_body vc v) c \<and> ?rest k v es"
      by (intro exI [of _ k] exI [of _ v] exI [of _ es']) (simp add: es starts_append add.assoc)
  qed
  finally show ?case .
qed

lemma entries_bound:
  assumes "canonical_codec kc fk" "\<not> zero_sized kc" "list_all (\<lambda>(k, v). fk k \<and> fv v) es"
  shows "length es \<le> length (concat (map (\<lambda>(k, v). encode_body kc k @ encode_body vc v) es))"
proof -
  have "length es \<le> length (concat (map (encode_body kc) (map fst es)))"
  proof (rule order_trans [OF _ canonical_codec.elements_bound [OF assms(1,2)]])
    show "list_all fk (map fst es)" using assms(3) by (auto simp: list_all_iff)
  qed simp
  also have "\<dots> \<le> length (concat (map (\<lambda>(k, v). encode_body kc k @ encode_body vc v) es))"
    by (induction es) auto
  finally show ?thesis .
qed

lemma map_canonical:
  assumes k: "canonical_codec kc fk" and v: "canonical_codec vc fv"
  shows "canonical_codec (map_codec kc vc) (\<lambda>m. bt_ok m \<and> list_all (\<lambda>(k, v). fk k \<and> fv v) m \<and> length m < 2 ^ 64)"
proof
  fix c m c'
  let ?e = "\<lambda>es. concat (map (\<lambda>(k, v). encode_body kc k @ encode_body vc v) es)"
  have parts: "decode_body (map_codec kc vc) c = Inr (m, c') \<longleftrightarrow> (\<exists>n. n < 2 ^ 64 \<and> starts (encode_len n) c
      \<and> (zero_sized kc \<or> n \<le> cursor_remaining (advance 8 c)) \<and> length m = n \<and> bt_ok m \<and> list_all (\<lambda>(k, v). fk k \<and> fv v) m
      \<and> starts (?e m) (advance 8 c) \<and> c' = advance (length (?e m)) (advance 8 c))"
    by (auto simp: map_codec_def decode_map_def dec_then_Inr take_len_Inr canonical_codec.check_element_count_Inr [OF k]
        decode_entries_exact [OF k v])
  have whole: "starts (encode_body (map_codec kc vc) m) c \<longleftrightarrow> starts (encode_len (length m)) c \<and> starts (?e m) (advance 8 c)"
    "length (encode_body (map_codec kc vc) m) = 8 + length (?e m)"
    by (simp_all add: map_codec_def encode_map_def starts_append)
  have bound: "zero_sized kc \<or> length m \<le> cursor_remaining (advance 8 c)"
    if "list_all (\<lambda>(k, v). fk k \<and> fv v) m" "starts (?e m) (advance 8 c)"
    using entries_bound [OF k _ that(1), of vc] starts_length [OF that(2)] by linarith
  show "decode_body (map_codec kc vc) c = Inr (m, c') \<longleftrightarrow> (bt_ok m \<and> list_all (\<lambda>(k, v). fk k \<and> fv v) m \<and> length m < 2 ^ 64)
      \<and> starts (encode_body (map_codec kc vc) m) c \<and> c' = advance (length (encode_body (map_codec kc vc) m)) c"
    unfolding parts whole advance_advance using bound by blast
qed (simp add: map_codec_def encode_map_def)

lemma pair_canonical:
  assumes a: "canonical_codec a fa" and b: "canonical_codec b fb"
  shows "canonical_codec (pair_codec a b) (\<lambda>(x, y). fa x \<and> fb y)"
proof
  fix c v c'
  show "decode_body (pair_codec a b) c = Inr (v, c') \<longleftrightarrow> (case v of (x, y) \<Rightarrow> fa x \<and> fb y) \<and> starts (encode_body (pair_codec a b) v) c
      \<and> c' = advance (length (encode_body (pair_codec a b) v)) c"
    by (cases v) (auto simp: pair_codec_def decode_simps canonical_codec.exact [OF a] canonical_codec.exact [OF b] starts_append)
  show "\<not> zero_sized (pair_codec a b) \<Longrightarrow> (case v of (x, y) \<Rightarrow> fa x \<and> fb y) \<Longrightarrow> encode_body (pair_codec a b) v \<noteq> []"
    using canonical_codec.sized [OF a] canonical_codec.sized [OF b] by (cases v) (auto simp: pair_codec_def)
qed

section \<open>The envelope is exact\<close>

lemma payload_decode_iff:
  assumes "canonical_codec t fits" "fits_string stable_name"
  shows "payload_decode stable_name t bytes = Inr v \<longleftrightarrow> fits v \<and> bytes = payload_encode stable_name t v"
proof -
  let ?c = "cursor_new bytes"
  let ?read = "dec_then (cursor_take (length MAGIC) stable_name) (\<lambda>magic.
         if magic \<noteq> MAGIC then dec_refuse (malformed stable_name ''these bytes are not an encoded dagr payload (wrong leading magic)'')
         else dec_then (decode_int_in stable_name :: u16 decoder) (\<lambda>version.
           if version \<noteq> FORMAT_VERSION then dec_refuse (UnsupportedVersion FORMAT_VERSION version)
           else dec_then (decode_str stable_name) (\<lambda>name.
             if name \<noteq> stable_name then dec_refuse (TypeMismatch stable_name name)
             else decode_body t)))"
  have read: "?read ?c = Inr (v, c') \<longleftrightarrow> fits v \<and> starts (payload_encode stable_name t v) ?c
      \<and> c' = advance (length (payload_encode stable_name t v)) ?c" for c'
    using assms(2)
    by (auto simp: decode_simps decode_int_Inr canonical_codec.exact [OF assms(1)] payload_encode_def starts_append add.assoc
        intro!: exI [of _ MAGIC])
  have "payload_decode stable_name t bytes = Inr v \<longleftrightarrow> (\<exists>c'. ?read ?c = Inr (v, c') \<and> cursor_is_empty c')"
    unfolding payload_decode_def by (auto split: sum.split)
  also have "\<dots> \<longleftrightarrow> fits v \<and> starts (payload_encode stable_name t v) ?c \<and> length bytes \<le> length (payload_encode stable_name t v)"
    unfolding read by (auto simp: cursor_is_empty_def cursor_remaining_def advance_def cursor_new_def)
  also have "\<dots> \<longleftrightarrow> fits v \<and> bytes = payload_encode stable_name t v"
    by (auto simp: starts_def cursor_new_def)
  finally show ?thesis .
qed

text \<open>
  C37. A payload decodes to a value exactly when the bytes are that value's encoding under the type's own
  stable name: what was encoded comes back, and bytes of another type or version, cut short, with bytes
  left over or in any other form than the canonical one are refused.
\<close>

theorem payload_exact:
  assumes "canonical_codec t fits" "fits_string stable_name"
  shows "payload_decode stable_name t bytes = Inr v \<longleftrightarrow> fits v \<and> bytes = payload_encode stable_name t v"
  by (rule payload_decode_iff [OF assms])

text \<open>A map of lists of optional pairs, empty and not.\<close>

definition report_codec :: "(string, (u64 \<times> bool) option list) btree Codec" where
  "report_codec = map_codec string_codec (vec_codec (option_codec (pair_codec (int_codec ''u64'') bool_codec)))"

lemma report_canonical:
  "canonical_codec report_codec (\<lambda>m. bt_ok m \<and> list_all (\<lambda>(k, v). fits_string k
     \<and> list_all (pred_option (\<lambda>(x, y). True \<and> True)) v \<and> length v < 2 ^ 64) m \<and> length m < 2 ^ 64)"
  unfolding report_codec_def
  by (intro map_canonical canonical_codec.vec_canonical canonical_codec.option_canonical pair_canonical
      string_codec.canonical_codec_axioms u64_codec.canonical_codec_axioms bool_codec.canonical_codec_axioms)

theorem payload_exact_witness:
  "payload_round_trip ''Report'' report_codec [(''a'', [Some (7, True), None]), (''b'', [])] = Inr [(''a'', [Some (7, True), None]), (''b'', [])]"
proof -
  have str: "fits_string ''Report''" "fits_string ''a''" "fits_string ''b''"
    by (simp_all add: fits_string_def is_text_def)
  then show ?thesis unfolding payload_round_trip_def
    by (subst payload_exact [OF report_canonical str(1)]) (simp add: bt_ok_def)
qed

end
