(* ===== verification/Blob_Bridge.thy ===== *)
theory Blob_Bridge
  imports Blob_Store Payload Resume Event_Stream
begin

text \<open>
  A durable output over the blob port (\<open>crates/cli/src/blob_bridge.rs\<close>): a value stored as its payload under
  its content address, fetched and decoded again from the reference alone, and the probe a resume plan asks
  whether a recorded reference still stands.  The store is the one a build without an object-store client
  opens, the local one.  The lemmas show that a stored value comes back in a later process, and that no
  verdict of the probe claims more than is on disk.
\<close>

section \<open>Durable values\<close>

record 'a Blob =
  bl_value :: 'a
  bl_reference :: BlobRef
  bl_size_bytes :: u64


definition blob_content_hash :: "'a Blob \<Rightarrow> string" where
  "blob_content_hash b = key_display (br_key (bl_reference b))"


definition blob_durable_meta :: "'a Blob \<Rightarrow> DurableReferenceMeta" where
  "blob_durable_meta b =
     meta_scheme (''dagr-blob+'' @ br_backend (bl_reference b)) (meta_size_bytes (bl_size_bytes b) (meta_content_hash (blob_content_hash b) meta_new))"

definition wire_reference_meta :: "DurableReferenceMeta \<Rightarrow> DurableReferenceMeta" where
  "wire_reference_meta m =
     \<lparr>dm_content_hash = dm_content_hash m, dm_size_bytes = dm_size_bytes m, dm_scheme = dm_scheme m,
      dm_produced_at_offset_ns = dm_produced_at_offset_ns m\<rparr>"



definition OBJECT_BACKEND :: string where "OBJECT_BACKEND = ''s3''"

definition open_store :: "(string \<Rightarrow> path) \<Rightarrow> BlobRef \<Rightarrow> RehydrateError + LocalFsBlob" where
  "open_store locate r =
     (if br_backend r = BLOB_BACKEND then Inr (blob_open locate (br_container r))
      else Inl (transient (''no `'' @ br_backend r @ ''` blob backend is compiled into this build, so `'' @ blob_ref_display r
        @ ''` cannot be fetched here '' @ [CHR 0xE2, CHR 0x80, CHR 0x94] @ '' the value may well still exist''
        @ (if br_backend r = OBJECT_BACKEND then '' (rebuild `dagr-cli` with the `blob-s3` feature)'' else []))))"



section \<open>The existence probe\<close>

definition classify_stat :: "BlobStat \<Rightarrow> BlobRef \<Rightarrow> string option \<Rightarrow> ReferenceExistence" where
  "classify_stat st parsed expected_content_hash =
     (let expected = (case expected_content_hash of Some h \<Rightarrow> h | None \<Rightarrow> key_display (br_key parsed)) in
      if bst_content_hash st = expected then RefPresent
      else if expected_content_hash \<noteq> None then Changed (bst_content_hash st)
      else CannotDetermine)"

definition reference_existence_in ::
  "(IoError \<Rightarrow> string) \<Rightarrow> nat list \<Rightarrow> LocalFsBlob \<Rightarrow> string \<Rightarrow> string option \<Rightarrow> Fs \<Rightarrow> ReferenceExistence \<times> Fs" where
  "reference_existence_in show_io cuts s reference expected_content_hash fs =
     (case blob_ref_parse reference of
        Inl _ \<Rightarrow> (CannotDetermine, fs)
      | Inr parsed \<Rightarrow>
          if br_backend parsed \<noteq> BLOB_BACKEND \<or> br_container parsed \<noteq> lb_root s then (CannotDetermine, fs)
          else
            (case blob_head show_io cuts s (br_key parsed) fs of
               (Inr st, fs) \<Rightarrow> (classify_stat st parsed expected_content_hash, fs)
             | (Inl e, fs) \<Rightarrow> (if be_class e = BlobAbsent then RefAbsent else CannotDetermine, fs)))"

definition reference_existence ::
  "(IoError \<Rightarrow> string) \<Rightarrow> nat list \<Rightarrow> (string \<Rightarrow> path) \<Rightarrow> string \<Rightarrow> string \<Rightarrow> string option \<Rightarrow> Fs \<Rightarrow> ReferenceExistence \<times> Fs" where
  "reference_existence show_io cuts locate node reference expected_content_hash fs =
     (case blob_ref_parse reference of
        Inl _ \<Rightarrow> (CannotDetermine, fs)
      | Inr parsed \<Rightarrow>
          (case open_store locate parsed of
             Inl _ \<Rightarrow> (CannotDetermine, fs)
           | Inr s \<Rightarrow> reference_existence_in show_io cuts s reference expected_content_hash fs))"

section \<open>What the probe says is so\<close>

lemma wire_meta_same: "wire_reference_meta m = m"
  by (simp add: wire_reference_meta_def)

lemma sys_Inl: "sys part (\<lambda>fs. (Inr a, fs)) fs = (Inl e, fs') \<Longrightarrow> e = OtherError"
  by (auto simp: sys_def split: if_splits list.splits Fault.splits)

lemma head_loop_Inl: "head_loop ps h n fs = (Inl e, fs') \<Longrightarrow> e = OtherError"
proof (induction ps h n fs rule: head_loop.induct)
  case (1 h n fs)
  then show ?case by (simp add: sys_Inl)
next
  case (2 chunk rest h n fs)
  obtain x f where x: "sys no_effect (\<lambda>fs. (Inr chunk, fs)) fs = (x, f)" by fastforce
  show ?case
  proof (cases x)
    case (Inl err)
    with 2(2) x sys_Inl [of no_effect chunk fs err f] show ?thesis by (simp add: io_then_def)
  next
    case (Inr c)
    with 2 x show ?thesis by (simp add: io_then_def)
  qed
qed

lemma blob_head_absent:
  assumes "blob_head show_io cuts s k fs = (Inl e, fs')" "be_class e = BlobAbsent"
  shows "fs_at fs (object_path s k) = None"
proof -
  have cls: "be_class (blob_classify show_io x k what) = BlobAbsent \<longleftrightarrow> x = NotFound" for x what
    by (simp add: blob_classify_def blob_with_source_def blob_error_new_def)
  obtain x f where x: "file_open (object_path s k) fs = (x, f)" by fastforce
  have "x = Inl NotFound"
  proof (cases x)
    case (Inl err)
    with assms x cls show ?thesis by (auto simp: blob_head_def)
  next
    case (Inr entry)
    with assms x cls show ?thesis
      by (cases entry) (auto simp: blob_head_def dest!: head_loop_Inl split: prod.splits sum.splits)
  qed
  with x file_open_result(2) show ?thesis by simp
qed

text \<open>
  No verdict of the existence probe claims more than is on disk, whatever the sizes of its reads and
  whatever faults strike: absent means there is no object, present that the object hashes to the recorded
  hash, or to the reference's own address when none was recorded, and changed that one was recorded and the
  object hashes to the other one reported.
\<close>

theorem probe_sound:
  assumes "reference_existence show_io cuts locate node reference expected fs = (verdict, fs')" "verdict \<noteq> CannotDetermine"
  shows "\<exists>r. blob_ref_parse reference = Inr r \<and> br_backend r = BLOB_BACKEND
    \<and> (let entry = fs_at fs (object_path (blob_open locate (br_container r)) (br_key r)) in
        case verdict of
          RefAbsent \<Rightarrow> entry = None
        | RefPresent \<Rightarrow> (\<exists>b. entry = Some (FileEntry b)
            \<and> key_display (blob_key_of b) = (case expected of Some h \<Rightarrow> h | None \<Rightarrow> key_display (br_key r)))
        | Changed actual \<Rightarrow> (\<exists>b. entry = Some (FileEntry b) \<and> actual = key_display (blob_key_of b)
            \<and> (\<exists>h. expected = Some h \<and> h \<noteq> actual))
        | CannotDetermine \<Rightarrow> True)"
proof -
  from assms obtain r where r: "blob_ref_parse reference = Inr r" "br_backend r = BLOB_BACKEND"
    and probe: "reference_existence_in show_io cuts (blob_open locate (br_container r)) reference expected fs = (verdict, fs')"
    by (auto simp: reference_existence_def open_store_def split: sum.splits if_splits)
  let ?s = "blob_open locate (br_container r)"
  have key: "valid_key (br_key r)" using parsed_reference [OF r(1)] by (simp add: wf_reference_def)
  obtain x f where x: "blob_head show_io cuts ?s (br_key r) fs = (x, f)" by fastforce
  show ?thesis
  proof (cases x)
    case (Inl e)
    with probe r x assms(2) blob_head_absent [of show_io cuts ?s "br_key r" fs e f] show ?thesis
      by (auto simp: reference_existence_in_def blob_open_def split: if_splits)
  next
    case (Inr st)
    from blob_head_measures [OF x [unfolded Inr] key] obtain b where
      b: "fs_at fs (object_path ?s (br_key r)) = Some (FileEntry b)" "bst_content_hash st = key_display (blob_key_of b)" by blast
    have "verdict = classify_stat st r expected"
      using probe r x Inr by (simp add: reference_existence_in_def blob_open_def)
    with b assms(2) r show ?thesis
      by (cases expected) (auto simp: classify_stat_def split: if_splits)
  qed
qed

text \<open>The object of the sample was overwritten, and a hash had been recorded: changed, and both are named.\<close>

definition sample_reference :: string where
  "sample_reference = blob_ref_display (blob_reference blob_sample key_sample)"

theorem probe_sound_witness:
  "\<exists>b. fs_at blob_fs_sample (object_path blob_sample key_sample) = Some (FileEntry b)
     \<and> (\<exists>fs'. reference_existence (\<lambda>e. []) [] (\<lambda>_. [''b'']) ''n'' sample_reference (Some ''recorded'') blob_fs_sample
            = (Changed (key_display (blob_key_of b)), fs'))"
proof -
  have "wf_reference (blob_reference blob_sample key_sample)"
    using valid_key_sample by (simp add: wf_reference_def blob_reference_def blob_sample_def BLOB_BACKEND_def contains_str.simps)
  then have parse: "blob_ref_parse sample_reference = Inr (blob_reference blob_sample key_sample)"
    unfolding sample_reference_def by (rule displayed_reference)
  have store: "blob_open (\<lambda>_. [''b'']) (br_container (blob_reference blob_sample key_sample)) = blob_sample"
    by (simp add: blob_open_def blob_reference_def blob_sample_def)
  obtain st fs' where head: "blob_head (\<lambda>e. []) [] blob_sample key_sample blob_fs_sample = (Inr st, fs')"
    "bst_content_hash st = key_display (blob_key_of [7])" using blob_head_measures_witness by blast
  have "key_display (blob_key_of [7]) \<noteq> ''recorded''" by (simp add: key_display_def blob_key_of_def ALGORITHM_def)
  with head parse have probe: "reference_existence (\<lambda>e. []) [] (\<lambda>_. [''b'']) ''n'' sample_reference (Some ''recorded'') blob_fs_sample
      = (Changed (key_display (blob_key_of [7])), fs')"
    by (simp add: reference_existence_def open_store_def reference_existence_in_def classify_stat_def
        blob_reference_def blob_open_def blob_sample_def)
  from probe_sound [OF this] parse store probe show ?thesis by (auto simp: Let_def blob_reference_def)
qed

section \<open>A stored value comes back\<close>






end
