(* ===== verification/Blob_Gc.thy ===== *)
theory Blob_Gc
  imports Blob_Store Byte_Text Contract
begin

text \<open>
  Collecting blobs by reachability (\<open>crates/cli/src/blob_gc.rs\<close>): the walk over the run store, the
  references of a whole artifact document, the plan, its application and the body of the verb.  The lemmas
  show that a plan is exactly the difference of what the container holds and what the retained artifacts
  reference, that the verb changes nothing but objects no retained artifact references, and where a
  failing look at a file or another spelling of the container makes a referenced blob collectable.
\<close>

section \<open>The plan and the refusals\<close>

definition RECLAIM_BLOBS_FLAG :: string where "RECLAIM_BLOBS_FLAG = ''--reclaim-blobs''"

definition OBJECT_STORE_SCHEME :: string where "OBJECT_STORE_SCHEME = ''s3://''"

definition LISTING_PREFIX :: string where "LISTING_PREFIX = ''blob-reclaim ''"

definition RUN_ARTIFACT_FILE_NAME :: string where "RUN_ARTIFACT_FILE_NAME = ''run.json''"

record ReclaimPlan =
  rp_container :: string
  rp_artifacts :: "path list"
  rp_reachable :: "string list"
  rp_reclaimable :: "BlobKey list"

definition plan_render :: "ReclaimPlan \<Rightarrow> bool \<Rightarrow> string" where
  "plan_render plan deleted =
     concat (map (\<lambda>k. writeln (LISTING_PREFIX @ key_display k)) (rp_reclaimable plan))
     @ writeln (''prune: '' @ show_nat (length (rp_reclaimable plan)) @ '' blob(s) reclaimable in '' @ quoted (rp_container plan)
         @ ''; '' @ show_nat (length (rp_reachable plan)) @ '' reachable from '' @ show_nat (length (rp_artifacts plan))
         @ '' retained run artifact(s); ''
         @ (if deleted then ''deleted''
            else ''dry run '' @ dash @ '' nothing was deleted (re-run with `--reclaim-blobs delete`)''))"

datatype ReclaimRefusal =
  MissingStoreBase path
| UnreadableArtifact path string
| UnfoldedRun path
| StoreUnreadable string string
| DeleteFailed BlobKey string
| UnsupportedBackend string string

fun reclaim_refusal_display :: "(path \<Rightarrow> string) \<Rightarrow> ReclaimRefusal \<Rightarrow> string" where
  "reclaim_refusal_display show_path (MissingStoreBase p) =
     ''the run store base '' @ quoted (show_path p) @ '' does not exist, so no run artifact could be read. Reclaiming against it would treat every blob as unreferenced ''
     @ dash @ '' check `--store`''"
| "reclaim_refusal_display show_path (UnreadableArtifact p reason) =
     ''the run artifact '' @ quoted (show_path p) @ '' could not be read ('' @ reason
     @ ''), so which blobs it references is unknown. Nothing was reclaimed: unknown reachability is not an excuse to guess''"
| "reclaim_refusal_display show_path (UnfoldedRun p) =
     ''the run directory '' @ quoted (show_path p) @ '' has an event stream but no '' @ quoted RUN_ARTIFACT_FILE_NAME
     @ '', so its durable references are still only in the stream. Run `fold` on it first; until then its blobs would look unreferenced when they are not''"
| "reclaim_refusal_display show_path (StoreUnreadable container reason) =
     ''the blob container '' @ quoted container @ '' could not be enumerated ('' @ reason
     @ ''). Nothing was reclaimed: an empty listing from a store that could not be read is indistinguishable from an empty store''"
| "reclaim_refusal_display show_path (DeleteFailed k reason) =
     quoted (key_display k) @ '' could not be reclaimed ('' @ reason
     @ ''). The reclaim stopped there; the blobs it had already removed were unreferenced and re-running is safe''"
| "reclaim_refusal_display show_path (UnsupportedBackend container feature) =
     quoted container @ '' names an object store, and this build has no client for one '' @ dash
     @ '' rebuild `dagr-cli` with the '' @ quoted feature @ '' feature''"

section \<open>References of a document\<close>

fun collect_references :: "string \<Rightarrow> string \<Rightarrow> Json \<Rightarrow> string list \<Rightarrow> string list" where
  "collect_references backend container (JString t) reachable =
     (case blob_ref_parse t of
        Inr r \<Rightarrow> if br_backend r = backend \<and> br_container r = container then bs_insert (bk_hex (br_key r)) reachable else reachable
      | Inl _ \<Rightarrow> reachable)"
| "collect_references backend container (JArray items) reachable =
     fold (\<lambda>item. collect_references backend container item) items reachable"
| "collect_references backend container (JObject members) reachable =
     fold (\<lambda>field. collect_references backend container (snd field)) members reachable"
| "collect_references backend container _ reachable = reachable"

section \<open>The walk over the run store\<close>

text \<open>\<open>is_file\<close> and \<open>is_dir\<close>: a look that fails says no.\<close>

definition path_is_file :: "path \<Rightarrow> Fs \<Rightarrow> bool \<times> Fs" where
  "path_is_file p fs = (case fs_metadata p fs of (Inr (FileEntry _), fs) \<Rightarrow> (True, fs) | (_, fs) \<Rightarrow> (False, fs))"

definition path_is_dir :: "path \<Rightarrow> Fs \<Rightarrow> bool \<times> Fs" where
  "path_is_dir p fs = (case fs_metadata p fs of (Inr DirEntry, fs) \<Rightarrow> (True, fs) | (_, fs) \<Rightarrow> (False, fs))"

definition read_to_string :: "(IoError \<Rightarrow> string) \<Rightarrow> path \<Rightarrow> Fs \<Rightarrow> (string + string) \<times> Fs" where
  "read_to_string show_io p fs =
     (case fs_read p fs of
        (Inl e, fs) \<Rightarrow> (Inl (show_io e), fs)
      | (Inr bytes, fs) \<Rightarrow>
          (case text_of_bytes bytes of None \<Rightarrow> (Inl ''stream did not contain valid UTF-8'', fs) | Some t \<Rightarrow> (Inr t, fs)))"

text \<open>The entries that are directories; an entry the iterator fails on is skipped.\<close>

fun child_dirs :: "path \<Rightarrow> string list \<Rightarrow> Fs \<Rightarrow> path list \<times> Fs" where
  "child_dirs dir [] fs = ([], fs)"
| "child_dirs dir (name # names) fs =
     (case next_entry name fs of
        (Inl _, fs) \<Rightarrow> child_dirs dir names fs
      | (Inr name, fs) \<Rightarrow>
          let (is_dir, fs) = path_is_dir (dir @ [name]) fs;
              (rest, fs) = child_dirs dir names fs
          in (if is_dir then (dir @ [name]) # rest else rest, fs))"

text \<open>
  One call of \<open>walk_run_store\<close> up to its recursive calls: the directories left to walk, and the two
  accumulators.  \<open>parse\<close> is \<open>serde_json::from_str\<close>.
\<close>

definition visit_run_dir ::
  "(IoError \<Rightarrow> string) \<Rightarrow> (string \<Rightarrow> string + Json) \<Rightarrow> string \<Rightarrow> string \<Rightarrow> path \<Rightarrow> path list \<Rightarrow> string list \<Rightarrow> Fs
    \<Rightarrow> (ReclaimRefusal + path list \<times> path list \<times> string list) \<times> Fs" where
  "visit_run_dir show_io parse backend container dir artifacts reachable fs =
     (let artifact = dir @ [RUN_ARTIFACT_FILE_NAME];
          (is_file, fs) = path_is_file artifact fs
      in if is_file then
           (case read_to_string show_io artifact fs of
              (Inl reason, fs) \<Rightarrow> (Inl (UnreadableArtifact artifact reason), fs)
            | (Inr t, fs) \<Rightarrow>
                (case parse t of
                   Inl reason \<Rightarrow> (Inl (UnreadableArtifact artifact reason), fs)
                 | Inr v \<Rightarrow> (Inr ([], artifacts @ [artifact], collect_references backend container v reachable), fs)))
         else
           let (is_file, fs) = path_is_file (dir @ [EVENTS_FILE_NAME]) fs
           in if is_file then (Inl (UnfoldedRun dir), fs)
              else
                (case fs_read_dir dir fs of
                   (Inl e, fs) \<Rightarrow> (Inl (UnreadableArtifact dir (show_io e)), fs)
                 | (Inr names, fs) \<Rightarrow>
                     let (children, fs) = child_dirs dir names fs in (Inr (sort children, artifacts, reachable), fs)))"

text \<open>The recursion in its order: what is left to walk is the head's children, then its siblings.\<close>

partial_function (option) walk_run_store ::
  "(IoError \<Rightarrow> string) \<Rightarrow> (string \<Rightarrow> string + Json) \<Rightarrow> string \<Rightarrow> string \<Rightarrow> path list \<Rightarrow> path list \<Rightarrow> string list \<Rightarrow> Fs
    \<Rightarrow> ((ReclaimRefusal + path list \<times> string list) \<times> Fs) option" where
  "walk_run_store show_io parse backend container dirs artifacts reachable fs =
     (case dirs of
        [] \<Rightarrow> Some (Inr (artifacts, reachable), fs)
      | dir # rest \<Rightarrow>
          (case visit_run_dir show_io parse backend container dir artifacts reachable fs of
             (Inl refusal, fs) \<Rightarrow> Some (Inl refusal, fs)
           | (Inr (children, artifacts, reachable), fs) \<Rightarrow>
               walk_run_store show_io parse backend container (children @ rest) artifacts reachable fs))"

declare walk_run_store.simps [code]

section \<open>Planning and applying\<close>

text \<open>The store is any that implements the port: its backend, its container and its two reclaim operations.\<close>

definition plan_reclaim ::
  "(IoError \<Rightarrow> string) \<Rightarrow> (string \<Rightarrow> string + Json) \<Rightarrow> path \<Rightarrow> string \<Rightarrow> string
    \<Rightarrow> (Fs \<Rightarrow> ((BlobError + BlobKey list) \<times> Fs) option) \<Rightarrow> Fs \<Rightarrow> ((ReclaimRefusal + ReclaimPlan) \<times> Fs) option" where
  "plan_reclaim show_io parse base backend container listing fs =
     (let (is_dir, fs) = path_is_dir base fs
      in if \<not> is_dir then Some (Inl (MissingStoreBase base), fs)
         else
           Option.bind (walk_run_store show_io parse backend container [base] [] [] fs) (\<lambda>(walked, fs).
             case walked of
               Inl refusal \<Rightarrow> Some (Inl refusal, fs)
             | Inr (artifacts, reachable) \<Rightarrow>
                 Option.bind (listing fs) (\<lambda>(listed, fs).
                   case listed of
                     Inl err \<Rightarrow> Some (Inl (StoreUnreadable container (blob_error_display err)), fs)
                   | Inr found \<Rightarrow>
                       Some (Inr \<lparr>rp_container = container, rp_artifacts = sort artifacts, rp_reachable = reachable,
                         rp_reclaimable = sort_keys (filter (\<lambda>k. bk_hex k \<notin> set reachable) found)\<rparr>, fs))))"

fun apply_reclaim ::
  "(BlobKey \<Rightarrow> 's \<Rightarrow> (BlobError + unit) \<times> 's) \<Rightarrow> BlobKey list \<Rightarrow> BlobKey list \<Rightarrow> 's \<Rightarrow> (ReclaimRefusal + BlobKey list) \<times> 's" where
  "apply_reclaim remove [] deleted st = (Inr deleted, st)"
| "apply_reclaim remove (k # ks) deleted st =
     (case remove k st of
        (Inl err, st) \<Rightarrow> (Inl (DeleteFailed k (blob_error_display err)), st)
      | (Inr _, st) \<Rightarrow> apply_reclaim remove ks (deleted @ [k]) st)"

section \<open>The body of the verb\<close>

datatype ReclaimMode = DryRun | DeleteMode

definition reclaim_mode_parse :: "string \<Rightarrow> ReclaimMode option" where
  "reclaim_mode_parse v = (if v = ''dry-run'' then Some DryRun else if v = ''delete'' then Some DeleteMode else None)"

fun reclaim_flag_value :: "string list \<Rightarrow> string \<Rightarrow> string option" where
  "reclaim_flag_value [] flag = None"
| "reclaim_flag_value (arg # args) flag =
     (case strip_prefix (flag @ ''='') arg of
        Some v \<Rightarrow> Some v
      | None \<Rightarrow> if arg = flag then (case args of [] \<Rightarrow> None | v # _ \<Rightarrow> Some v) else reclaim_flag_value args flag)"

definition reclaim_finish ::
  "(BlobKey \<Rightarrow> Fs \<Rightarrow> (BlobError + unit) \<times> Fs) \<Rightarrow> ReclaimPlan \<Rightarrow> ReclaimMode \<Rightarrow> Fs \<Rightarrow> (ReclaimRefusal + string \<times> ExitCode) \<times> Fs" where
  "reclaim_finish remove plan mode fs =
     (case mode of
        DryRun \<Rightarrow> (Inr (plan_render plan False, Success), fs)
      | DeleteMode \<Rightarrow>
          (case apply_reclaim remove (rp_reclaimable plan) [] fs of
             (Inl refusal, fs) \<Rightarrow> (Inl refusal, fs)
           | (Inr _, fs) \<Rightarrow> (Inr (plan_render plan True, Success), fs)))"

text \<open>The arm for object stores of a build without a client for them.\<close>

definition object_store_reclaim :: "string \<Rightarrow> ReclaimRefusal + string \<times> ExitCode" where
  "object_store_reclaim container = Inl (UnsupportedBackend (OBJECT_STORE_SCHEME @ container) ''blob-s3'')"

definition run_reclaim ::
  "(IoError \<Rightarrow> string) \<Rightarrow> (string \<Rightarrow> string + Json) \<Rightarrow> (string \<Rightarrow> path) \<Rightarrow> string \<Rightarrow> string \<Rightarrow> ReclaimMode \<Rightarrow> Fs
    \<Rightarrow> ((ReclaimRefusal + string \<times> ExitCode) \<times> Fs) option" where
  "run_reclaim show_io parse locate base container mode fs =
     (case strip_prefix OBJECT_STORE_SCHEME container of
        Some rest \<Rightarrow> Some (object_store_reclaim rest, fs)
      | None \<Rightarrow>
          let store = blob_open locate container in
          map_option (\<lambda>(planned, fs).
              case planned of Inl refusal \<Rightarrow> (Inl refusal, fs) | Inr plan \<Rightarrow> reclaim_finish (blob_delete show_io store) plan mode fs)
            (plan_reclaim show_io parse (locate base) BLOB_BACKEND (lb_root store) (blob_list show_io store) fs))"

definition reclaim_blobs_verb ::
  "(IoError \<Rightarrow> string) \<Rightarrow> (string \<Rightarrow> string + Json) \<Rightarrow> (path \<Rightarrow> string) \<Rightarrow> (string \<Rightarrow> path) \<Rightarrow> string list \<Rightarrow> Fs
    \<Rightarrow> ((string \<times> ExitCode) \<times> Fs) option" where
  "reclaim_blobs_verb show_io parse show_path locate argv fs =
     (case reclaim_flag_value argv RECLAIM_BLOBS_FLAG of
        None \<Rightarrow> Some (([], Success), fs)
      | Some raw_mode \<Rightarrow>
          (case reclaim_mode_parse raw_mode of
             None \<Rightarrow>
               Some ((writeln (''dagr prune: `'' @ RECLAIM_BLOBS_FLAG @ '' '' @ raw_mode @ ''` is not a reclaim mode '' @ dash
                   @ '' use `dry-run` (list what would be reclaimed) or `delete` (reclaim it). Nothing was deleted''), InvalidUsage), fs)
           | Some mode \<Rightarrow>
               (case reclaim_flag_value argv ''--blob-store'' of
                  None \<Rightarrow>
                    Some ((writeln (''dagr prune: '' @ quoted RECLAIM_BLOBS_FLAG @ '' needs `--blob-store <container>` '' @ dash
                        @ '' the run store says which blobs are still referenced, but not where they are''), InvalidUsage), fs)
                | Some container \<Rightarrow>
                    let base = (case reclaim_flag_value argv ''--store'' of Some b \<Rightarrow> b | None \<Rightarrow> DEFAULT_STORE_BASE) in
                    map_option (\<lambda>(r, fs).
                        (case r of Inr answer \<Rightarrow> answer
                         | Inl refusal \<Rightarrow> (writeln (''dagr prune: '' @ reclaim_refusal_display show_path refusal), BootstrapFailure), fs))
                      (run_reclaim show_io parse locate base container mode fs))))"

section \<open>The references of a document are all its strings that parse as one\<close>

fun doc_strings :: "Json \<Rightarrow> string list" where
  "doc_strings (JString t) = [t]"
| "doc_strings (JArray items) = concat (map doc_strings items)"
| "doc_strings (JObject members) = concat (map (\<lambda>m. doc_strings (snd m)) members)"
| "doc_strings _ = []"

definition refs_in :: "string \<Rightarrow> string \<Rightarrow> Json \<Rightarrow> string set" where
  "refs_in backend container v =
     {bk_hex (br_key r) | r. blob_ref_display r \<in> set (doc_strings v) \<and> wf_reference r \<and> br_backend r = backend \<and> br_container r = container}"

lemma parse_iff: "blob_ref_parse t = Inr r \<longleftrightarrow> t = blob_ref_display r \<and> wf_reference r"
  using parsed_reference displayed_reference by auto

lemma set_fold_union: "(\<And>x acc. x \<in> set xs \<Longrightarrow> set (f x acc) = g x \<union> set acc) \<Longrightarrow> set (fold f xs acc) = (\<Union>x \<in> set xs. g x) \<union> set acc"
  by (induction xs arbitrary: acc) auto

lemma collect_references_set:
  "set (collect_references backend container v reachable) = refs_in backend container v \<union> set reachable"
proof (induction backend container v reachable rule: collect_references.induct)
  case (1 backend container t reachable)
  show ?case
  proof (cases "blob_ref_parse t")
    case (Inl e)
    then have "\<not> (t = blob_ref_display r \<and> wf_reference r)" for r using parse_iff [of t r] by simp
    with Inl show ?thesis by (auto simp: refs_in_def)
  next
    case (Inr r)
    then have e: "t = blob_ref_display r' \<and> wf_reference r' \<longleftrightarrow> r' = r" for r' using parse_iff [of t r'] by auto
    have "refs_in backend container (JString t) = {bk_hex (br_key r') | r'. (t = blob_ref_display r' \<and> wf_reference r')
        \<and> br_backend r' = backend \<and> br_container r' = container}" by (auto simp: refs_in_def)
    also have "\<dots> = (if br_backend r = backend \<and> br_container r = container then {bk_hex (br_key r)} else {})"
      unfolding e by auto
    finally have "refs_in backend container (JString t) = \<dots>" .
    with Inr show ?thesis by simp
  qed
next
  case (2 backend container items reachable)
  then have "set (fold (\<lambda>item. collect_references backend container item) items reachable)
      = (\<Union>v \<in> set items. refs_in backend container v) \<union> set reachable" by (intro set_fold_union) blast
  moreover have "(\<Union>v \<in> set items. refs_in backend container v) = refs_in backend container (JArray items)"
    by (auto simp: refs_in_def)
  ultimately show ?case by simp
next
  case (3 backend container members reachable)
  then have "set (fold (\<lambda>field. collect_references backend container (snd field)) members reachable)
      = (\<Union>m \<in> set members. refs_in backend container (snd m)) \<union> set reachable" by (intro set_fold_union) blast
  moreover have "(\<Union>m \<in> set members. refs_in backend container (snd m)) = refs_in backend container (JObject members)"
    by (auto simp: refs_in_def)
  ultimately show ?case by simp
qed (simp_all add: refs_in_def)

section \<open>Looking without failures\<close>

text \<open>\<open>fs_calm\<close>: no call fails from here on.\<close>

definition fs_calm :: "Fs \<Rightarrow> bool" where
  "fs_calm fs \<longleftrightarrow> fs_faults fs = [] \<and> \<not> fs_crashed fs"

lemma sys_calm: "fs_calm fs \<Longrightarrow> sys part m fs = m fs"
  by (simp add: fs_calm_def sys_def)

definition is_file_at :: "Fs \<Rightarrow> path \<Rightarrow> bool" where
  "is_file_at fs p \<longleftrightarrow> (\<exists>b. fs_at fs p = Some (FileEntry b))"

lemma path_is_file_calm: "fs_calm fs \<Longrightarrow> path_is_file p fs = (is_file_at fs p, fs)"
  by (auto simp: path_is_file_def fs_metadata_def file_open_def sys_calm is_file_at_def split: option.split FsEntry.split)

lemma path_is_dir_calm: "fs_calm fs \<Longrightarrow> path_is_dir p fs = (fs_at fs p = Some DirEntry, fs)"
  by (auto simp: path_is_dir_def fs_metadata_def file_open_def sys_calm split: option.split FsEntry.split)

lemma child_dirs_calm:
  "fs_calm fs \<Longrightarrow> child_dirs dir names fs = (map (\<lambda>n. dir @ [n]) (filter (\<lambda>n. fs_at fs (dir @ [n]) = Some DirEntry) names), fs)"
  by (induction names) (auto simp: next_entry_def sys_calm path_is_dir_calm)

lemma fs_read_calm: "fs_calm fs \<Longrightarrow> fs_at fs p = Some (FileEntry b) \<Longrightarrow> fs_read p fs = (Inr b, fs)"
  by (simp add: fs_read_def sys_calm)

lemma fs_read_dir_calm: "fs_calm fs \<Longrightarrow> fs_read_dir d fs = (r, fs') \<Longrightarrow> fs' = fs"
  by (auto simp: fs_read_dir_def sys_calm split: option.splits FsEntry.splits)

section \<open>The walk is exact\<close>

text \<open>
  The run artifacts at or below a directory: the files of that name with none in a directory above
  them, and the document each holds.
\<close>

definition run_artifact :: "Fs \<Rightarrow> path \<Rightarrow> path \<Rightarrow> bool" where
  "run_artifact fs d p \<longleftrightarrow> (\<exists>q. p = d @ q @ [RUN_ARTIFACT_FILE_NAME] \<and> is_file_at fs p
     \<and> (\<forall>n < length q. \<not> is_file_at fs (d @ take n q @ [RUN_ARTIFACT_FILE_NAME])))"

definition doc_at :: "(string \<Rightarrow> string + Json) \<Rightarrow> Fs \<Rightarrow> path \<Rightarrow> Json option" where
  "doc_at parse fs p =
     (case fs_at fs p of
        Some (FileEntry b) \<Rightarrow>
          (case text_of_bytes b of None \<Rightarrow> None | Some t \<Rightarrow> (case parse t of Inl _ \<Rightarrow> None | Inr v \<Rightarrow> Some v))
      | _ \<Rightarrow> None)"

definition refs_at :: "(string \<Rightarrow> string + Json) \<Rightarrow> string \<Rightarrow> string \<Rightarrow> Fs \<Rightarrow> path \<Rightarrow> string set" where
  "refs_at parse backend container fs p = (case doc_at parse fs p of None \<Rightarrow> {} | Some v \<Rightarrow> refs_in backend container v)"

lemma run_artifact_here: "is_file_at fs (d @ [RUN_ARTIFACT_FILE_NAME]) \<Longrightarrow> run_artifact fs d p \<longleftrightarrow> p = d @ [RUN_ARTIFACT_FILE_NAME]"
proof
  assume h: "is_file_at fs (d @ [RUN_ARTIFACT_FILE_NAME])" and "run_artifact fs d p"
  then obtain q where q: "p = d @ q @ [RUN_ARTIFACT_FILE_NAME]" "\<forall>n < length q. \<not> is_file_at fs (d @ take n q @ [RUN_ARTIFACT_FILE_NAME])"
    by (auto simp: run_artifact_def)
  from q(2) h have "q = []" by (cases q) (auto dest: spec [of _ 0])
  with q show "p = d @ [RUN_ARTIFACT_FILE_NAME]" by simp
qed (auto simp: run_artifact_def intro!: exI [of _ "[]"])

lemma run_artifact_below:
  assumes "fs_tree fs" "\<not> is_file_at fs (d @ [RUN_ARTIFACT_FILE_NAME])"
  shows "run_artifact fs d p \<longleftrightarrow> (\<exists>n \<in> set (dir_children d fs). fs_at fs (d @ [n]) = Some DirEntry \<and> run_artifact fs (d @ [n]) p)"
proof
  assume "run_artifact fs d p"
  then obtain q where q: "p = d @ q @ [RUN_ARTIFACT_FILE_NAME]" "is_file_at fs p"
    "\<And>n. n < length q \<Longrightarrow> \<not> is_file_at fs (d @ take n q @ [RUN_ARTIFACT_FILE_NAME])" by (auto simp: run_artifact_def)
  with assms(2) obtain n q' where n: "q = n # q'" by (cases q) auto
  have "fs_at fs ((d @ [n]) @ q' @ [RUN_ARTIFACT_FILE_NAME]) \<noteq> None" using q(1,2) n by (auto simp: is_file_at_def)
  then have "fs_at fs (d @ [n]) = Some DirEntry" by (rule fs_treeD [OF assms(1)]) simp_all
  moreover have "run_artifact fs (d @ [n]) p" using q(1,2) q(3) [of "Suc _"] n by (auto simp: run_artifact_def intro!: exI [of _ q'])
  ultimately show "\<exists>n \<in> set (dir_children d fs). fs_at fs (d @ [n]) = Some DirEntry \<and> run_artifact fs (d @ [n]) p"
    by (auto simp: dir_children_iff intro!: bexI [of _ n])
next
  assume "\<exists>n \<in> set (dir_children d fs). fs_at fs (d @ [n]) = Some DirEntry \<and> run_artifact fs (d @ [n]) p"
  then obtain n q where q: "p = d @ (n # q) @ [RUN_ARTIFACT_FILE_NAME]" "is_file_at fs p"
    "\<And>m. m < length q \<Longrightarrow> \<not> is_file_at fs (d @ (n # take m q) @ [RUN_ARTIFACT_FILE_NAME])" by (auto simp: run_artifact_def)
  have "\<not> is_file_at fs (d @ take m (n # q) @ [RUN_ARTIFACT_FILE_NAME])" if "m < length (n # q)" for m
    using that assms(2) q(3) by (cases m) auto
  with q show "run_artifact fs d p" unfolding run_artifact_def by blast
qed

text \<open>What a walk that succeeds has collected.\<close>

definition artifacts_below :: "Fs \<Rightarrow> path list \<Rightarrow> path set" where
  "artifacts_below fs dirs = {p. \<exists>d \<in> set dirs. run_artifact fs d p}"

definition walk_exact ::
  "(string \<Rightarrow> string + Json) \<Rightarrow> string \<Rightarrow> string \<Rightarrow> path list \<Rightarrow> path list \<Rightarrow> string list \<Rightarrow> Fs
    \<Rightarrow> (ReclaimRefusal + path list \<times> string list) \<times> Fs \<Rightarrow> bool" where
  "walk_exact parse backend container dirs artifacts reachable fs = (\<lambda>(r, fs').
     fs_calm fs \<longrightarrow> fs_tree fs \<longrightarrow> fs' = fs \<and> (\<forall>arts reach. r = Inr (arts, reach) \<longrightarrow>
       set arts = set artifacts \<union> artifacts_below fs dirs
       \<and> set reach = set reachable \<union> (\<Union>p \<in> artifacts_below fs dirs. refs_at parse backend container fs p)
       \<and> (\<forall>p \<in> artifacts_below fs dirs. doc_at parse fs p \<noteq> None)))"

lemma visit_calm:
  assumes "fs_calm fs" "visit_run_dir show_io parse backend container dir artifacts reachable fs = (r, fs')"
  shows "fs' = fs" and "r = Inr (children, arts, reach) \<Longrightarrow>
      (if is_file_at fs (dir @ [RUN_ARTIFACT_FILE_NAME])
       then \<exists>v. doc_at parse fs (dir @ [RUN_ARTIFACT_FILE_NAME]) = Some v \<and> children = []
              \<and> arts = artifacts @ [dir @ [RUN_ARTIFACT_FILE_NAME]] \<and> reach = collect_references backend container v reachable
       else arts = artifacts \<and> reach = reachable
              \<and> set children = {dir @ [n] | n. n \<in> set (dir_children dir fs) \<and> fs_at fs (dir @ [n]) = Some DirEntry})"
proof -
  let ?p = "dir @ [RUN_ARTIFACT_FILE_NAME]"
  have "fs' = fs \<and> (r = Inr (children, arts, reach) \<longrightarrow>
      (if is_file_at fs ?p
       then \<exists>v. doc_at parse fs ?p = Some v \<and> children = [] \<and> arts = artifacts @ [?p] \<and> reach = collect_references backend container v reachable
       else arts = artifacts \<and> reach = reachable
              \<and> set children = {dir @ [n] | n. n \<in> set (dir_children dir fs) \<and> fs_at fs (dir @ [n]) = Some DirEntry}))"
  proof (cases "is_file_at fs ?p")
    case True
    then obtain b where b: "fs_at fs ?p = Some (FileEntry b)" by (auto simp: is_file_at_def)
    with assms True show ?thesis
      by (auto simp: visit_run_dir_def path_is_file_calm read_to_string_def fs_read_calm [OF assms(1) b] doc_at_def
          split: option.splits sum.splits)
  next
    case False
    show ?thesis
    proof (cases "is_file_at fs (dir @ [EVENTS_FILE_NAME])")
      case True
      with assms False show ?thesis by (auto simp: visit_run_dir_def path_is_file_calm)
    next
      case no_events: False
      obtain x f where x: "fs_read_dir dir fs = (x, f)" by fastforce
      have "f = fs" using fs_read_dir_calm [OF assms(1) x] .
      with assms False no_events x fs_read_dir_lists [of dir fs _ f] show ?thesis
        by (auto simp: visit_run_dir_def path_is_file_calm child_dirs_calm split: sum.splits)
    qed
  qed
  then show "fs' = fs" and "r = Inr (children, arts, reach) \<Longrightarrow>
      (if is_file_at fs ?p
       then \<exists>v. doc_at parse fs ?p = Some v \<and> children = [] \<and> arts = artifacts @ [?p] \<and> reach = collect_references backend container v reachable
       else arts = artifacts \<and> reach = reachable
              \<and> set children = {dir @ [n] | n. n \<in> set (dir_children dir fs) \<and> fs_at fs (dir @ [n]) = Some DirEntry})"
    by blast+
qed

lemma walk_step_file:
  assumes "is_file_at fs (dir @ [RUN_ARTIFACT_FILE_NAME])" "doc_at parse fs (dir @ [RUN_ARTIFACT_FILE_NAME]) = Some v"
    "walk_exact parse backend container rest (artifacts @ [dir @ [RUN_ARTIFACT_FILE_NAME]])
       (collect_references backend container v reachable) fs r"
  shows "walk_exact parse backend container (dir # rest) artifacts reachable fs r"
proof -
  let ?p = "dir @ [RUN_ARTIFACT_FILE_NAME]"
  have "artifacts_below fs (dir # rest) = insert ?p (artifacts_below fs rest)"
    using run_artifact_here [OF assms(1)] by (auto simp: artifacts_below_def)
  moreover have "refs_at parse backend container fs ?p = refs_in backend container v" by (simp add: refs_at_def assms(2))
  ultimately show ?thesis using assms(2,3) by (auto simp: walk_exact_def collect_references_set)
qed

lemma walk_step_dir:
  assumes "\<not> is_file_at fs (dir @ [RUN_ARTIFACT_FILE_NAME])"
    "set children = {dir @ [n] | n. n \<in> set (dir_children dir fs) \<and> fs_at fs (dir @ [n]) = Some DirEntry}"
    "walk_exact parse backend container (children @ rest) artifacts reachable fs r"
  shows "walk_exact parse backend container (dir # rest) artifacts reachable fs r"
proof -
  have "artifacts_below fs (dir # rest) = artifacts_below fs (children @ rest)" if "fs_tree fs"
    using run_artifact_below [OF that assms(1)] by (auto simp: artifacts_below_def assms(2))
  with assms(3) show ?thesis by (simp add: walk_exact_def case_prod_beta)
qed

lemma walk_run_store_exact:
  assumes "walk_run_store show_io parse backend container dirs artifacts reachable fs = Some r"
  shows "walk_exact parse backend container dirs artifacts reachable fs r"
proof (rule walk_run_store.raw_induct [where P = "\<lambda>(show_io :: IoError \<Rightarrow> string) parse. walk_exact parse", OF _ assms])
  fix walk and show_io :: "IoError \<Rightarrow> string" and parse backend container dirs artifacts reachable fs r
  assume IH: "\<And>(show_io :: IoError \<Rightarrow> string) parse backend container dirs artifacts reachable fs r.
      walk show_io parse backend container dirs artifacts reachable fs = Some r \<Longrightarrow> walk_exact parse backend container dirs artifacts reachable fs r"
  assume body: "(case dirs of
        [] \<Rightarrow> Some (Inr (artifacts, reachable), fs)
      | dir # rest \<Rightarrow>
          (case visit_run_dir show_io parse backend container dir artifacts reachable fs of
             (Inl refusal, fs) \<Rightarrow> Some (Inl refusal, fs)
           | (Inr (children, artifacts, reachable), fs) \<Rightarrow>
               walk show_io parse backend container (children @ rest) artifacts reachable fs)) = Some r"
  show "walk_exact parse backend container dirs artifacts reachable fs r"
  proof (cases dirs)
    case Nil
    with body show ?thesis by (auto simp: walk_exact_def artifacts_below_def)
  next
    case (Cons dir rest)
    obtain x f where x: "visit_run_dir show_io parse backend container dir artifacts reachable fs = (x, f)" by fastforce
    show ?thesis
    proof (cases "fs_calm fs")
      case False
      then show ?thesis by (simp add: walk_exact_def case_prod_beta)
    next
      case calm: True
      note v = visit_calm [OF calm x]
      show ?thesis
      proof (cases x)
        case (Inl refusal)
        with body x v(1) Cons show ?thesis by (auto simp: walk_exact_def)
      next
        case (Inr y)
        obtain children arts reach where y: "y = (children, arts, reach)" by (cases y)
        have "walk_exact parse backend container (children @ rest) arts reach fs r"
          using body x v(1) Cons Inr y IH by simp
        with v(2) [of children arts reach] Inr y show ?thesis
          by (auto simp: Cons intro: walk_step_file walk_step_dir split: if_splits)
      qed
    qed
  qed
qed

text \<open>The walk ends: no directory lies deeper than the deepest entry.\<close>

lemma entries_snd:
  "file_open p fs = (a, fs') \<Longrightarrow> fs_entries fs' = fs_entries fs"
  "fs_read p fs = (b, fs') \<Longrightarrow> fs_entries fs' = fs_entries fs"
  "fs_read_dir p fs = (c, fs') \<Longrightarrow> fs_entries fs' = fs_entries fs"
  "next_entry n fs = (d, fs') \<Longrightarrow> fs_entries fs' = fs_entries fs"
  using file_open_entries [of p fs] fs_read_entries [of p fs] fs_read_dir_entries [of p fs] next_entry_entries [of n fs] by simp_all

lemma path_is_entries:
  "path_is_file p fs = (a, fs') \<Longrightarrow> fs_entries fs' = fs_entries fs"
  "path_is_dir p fs = (a, fs') \<Longrightarrow> fs_entries fs' = fs_entries fs"
  by (auto simp: path_is_file_def path_is_dir_def fs_metadata_def dest: entries_snd split: prod.splits sum.splits FsEntry.splits)

lemma read_to_string_entries: "read_to_string show_io p fs = (a, fs') \<Longrightarrow> fs_entries fs' = fs_entries fs"
  by (auto simp: read_to_string_def dest: entries_snd split: prod.splits sum.splits option.splits)

lemma child_dirs_frame:
  "child_dirs dir names fs = (cs, fs') \<Longrightarrow> fs_entries fs' = fs_entries fs \<and> set cs \<subseteq> {dir @ [n] | n. n \<in> set names}"
proof (induction names arbitrary: fs fs' cs)
  case (Cons name names)
  obtain x f where x: "next_entry name fs = (x, f)" by fastforce
  note f = entries_snd(4) [OF x]
  show ?case
  proof (cases x)
    case (Inl e)
    with x f Cons.IH [of f cs fs'] Cons.prems show ?thesis by auto
  next
    case (Inr m)
    then have "m = name" using next_entry_Inr x by simp
    obtain y f' where y: "path_is_dir (dir @ [name]) f = (y, f')" by fastforce
    obtain cs' f'' where c: "child_dirs dir names f' = (cs', f'')" by fastforce
    have "cs = (if y then (dir @ [name]) # cs' else cs')" "fs' = f''"
      using Cons.prems x Inr \<open>m = name\<close> y c by simp_all
    with Cons.IH [OF c] f path_is_entries(2) [OF y] show ?thesis by auto
  qed
qed simp

lemma visit_frame:
  assumes "visit_run_dir show_io parse backend container dir artifacts reachable fs = (r, fs')"
  shows "fs_entries fs' = fs_entries fs \<and> (\<forall>children arts reach. r = Inr (children, arts, reach) \<longrightarrow>
      set children \<subseteq> {dir @ [n] | n. n \<in> set (dir_children dir fs)})"
proof -
  let ?p = "dir @ [RUN_ARTIFACT_FILE_NAME]"
  obtain a f where a: "path_is_file ?p fs = (a, f)" by fastforce
  note fe = path_is_entries(1) [OF a]
  show ?thesis
  proof (cases a)
    case True
    with assms a fe show ?thesis
      by (auto simp: visit_run_dir_def Let_def dest!: read_to_string_entries split: prod.splits sum.splits)
  next
    case False
    obtain b g where b: "path_is_file (dir @ [EVENTS_FILE_NAME]) f = (b, g)" by fastforce
    obtain c h where c: "fs_read_dir dir g = (c, h)" by fastforce
    have e: "fs_entries g = fs_entries fs" "fs_entries h = fs_entries fs"
      using path_is_entries(1) [OF b] entries_snd(3) [OF c] fe by simp_all
    have "dir_children dir g = dir_children dir fs" by (simp add: dir_children_def e(1))
    then have ns: "c = Inr names \<Longrightarrow> names = dir_children dir fs" for names using fs_read_dir_lists [of dir g names h] c by simp
    show ?thesis
    proof (cases b)
      case True
      with assms a False b e show ?thesis by (auto simp: visit_run_dir_def)
    next
      case no_events: False
      show ?thesis
      proof (cases c)
        case (Inl err)
        with assms a False b no_events c e show ?thesis by (auto simp: visit_run_dir_def)
      next
        case (Inr names)
        obtain cs k where k: "child_dirs dir names h = (cs, k)" by fastforce
        with assms a False b no_events c Inr have r: "r = Inr (sort cs, artifacts, reachable)" "fs' = k"
          by (simp_all add: visit_run_dir_def)
        with child_dirs_frame [OF k] e ns [OF Inr] show ?thesis by auto
      qed
    qed
  qed
qed

lemma walk_ends:
  assumes "\<forall>p \<in> fst ` set es. length p \<le> length d + n" "fs_entries fs = es"
    and "\<And>arts reach fs. fs_entries fs = es \<Longrightarrow> walk_run_store show_io parse backend container rest arts reach fs \<noteq> None"
  shows "walk_run_store show_io parse backend container (d # rest) arts reach fs \<noteq> None"
  using assms
proof (induction n arbitrary: d fs rest arts reach)
  case (0 d fs rest arts reach)
  obtain x f where x: "visit_run_dir show_io parse backend container d arts reach fs = (x, f)" by fastforce
  have "dir_children d fs = []"
  proof (rule ccontr)
    assume "dir_children d fs \<noteq> []"
    then obtain m where "m \<in> set (dir_children d fs)" by (cases "dir_children d fs") auto
    then show False using 0(1,2) unfolding dir_children_iff fs_at_dom by fastforce
  qed
  with visit_frame [OF x] 0(2) 0(3) show ?case
    by (subst walk_run_store.simps) (auto simp: x split: sum.split)
next
  case (Suc n d fs rest arts reach)
  obtain x f where x: "visit_run_dir show_io parse backend container d arts reach fs = (x, f)" by fastforce
  have "walk_run_store show_io parse backend container (cs @ rest) arts reach f \<noteq> None"
    if "set cs \<subseteq> {d @ [n] | n. n \<in> set (dir_children d fs)}" "fs_entries f = es" for cs arts reach f
    using that
  proof (induction cs arbitrary: arts reach f)
    case (Cons c cs)
    then have "length c = Suc (length d)" by auto
    with Suc.prems(1) have "\<forall>p \<in> fst ` set es. length p \<le> length c + n" by simp
    from Suc.IH [OF this Cons.prems(2), of "cs @ rest"] Cons show ?case by simp
  qed (use Suc.prems(3) in simp)
  with visit_frame [OF x] Suc.prems(2) show ?case
    by (subst walk_run_store.simps) (auto simp: x split: sum.split)
qed

lemma walk_run_store_ends: "walk_run_store show_io parse backend container [d] arts reach fs \<noteq> None"
proof (rule walk_ends [OF _ refl])
  show "\<forall>p \<in> fst ` set (fs_entries fs). length p \<le> length d + Max (length ` fst ` set (fs_entries fs))"
    by (auto intro!: trans_le_add2 Max_ge)
  show "walk_run_store show_io parse backend container [] a b fs' \<noteq> None" for a b fs'
    by (subst walk_run_store.simps) simp
qed

section \<open>What the verb does to the store\<close>

text \<open>The client of the port's law: applying a plan spares what is not in it and removes what is.\<close>

context blob_container
begin

lemma apply_spares: "apply_reclaim remove ks deleted st = (r, st') \<Longrightarrow> k \<notin> set ks \<Longrightarrow> held st' k = held st k"
proof (induction ks arbitrary: deleted st)
  case (Cons c ks)
  obtain x st1 where x: "remove c st = (x, st1)" by fastforce
  have "held st1 k = held st k" using remove_others [OF x] Cons.prems(2) by simp
  with Cons x show ?case by (cases x) auto
qed simp

lemma apply_keeps_gone:
  assumes "apply_reclaim remove ks deleted st = (r, st')" "held st k = None"
  shows "held st' k = None"
  using assms
proof (induction ks arbitrary: deleted st)
  case (Cons c ks)
  obtain x st1 where x: "remove c st = (x, st1)" by fastforce
  have "held st1 k = None"
    using remove_others [OF x, of k] remove_done [of c st st1] remove_failed [of c st _ st1] Cons.prems(2) x
    by (cases "k = c"; cases x) auto
  with Cons x show ?case by (cases x) auto
qed simp

lemma apply_removes: "apply_reclaim remove ks deleted st = (Inr ds, st') \<Longrightarrow> ds = deleted @ ks \<and> (\<forall>k \<in> set ks. held st' k = None)"
proof (induction ks arbitrary: deleted st)
  case (Cons c ks)
  obtain x st1 where x: "remove c st = (x, st1)" by fastforce
  then obtain u where u: "x = Inr u" using Cons.prems by (cases x) auto
  then have rest: "apply_reclaim remove ks (deleted @ [c]) st1 = (Inr ds, st')" using Cons.prems x by simp
  have "held st1 c = None" using remove_done [of c st st1] x u by simp
  then have "held st' c = None" by (rule apply_keeps_gone [OF rest])
  with Cons.IH [OF rest] show ?case by simp
qed simp

end

lemma plan_reclaim_parts:
  assumes "plan_reclaim show_io parse base BLOB_BACKEND (lb_root s) (blob_list show_io s) fs = Some (r, fs')"
  shows "fs_calm fs \<Longrightarrow> fs_tree fs \<Longrightarrow> fs_entries fs' = fs_entries fs"
    and "r = Inr plan \<Longrightarrow> fs_calm fs \<Longrightarrow> fs_tree fs \<Longrightarrow>
      fs_at fs base = Some DirEntry
      \<and> set (rp_artifacts plan) = {p. run_artifact fs base p}
      \<and> (\<forall>p. run_artifact fs base p \<longrightarrow> doc_at parse fs p \<noteq> None)
      \<and> set (rp_reachable plan) = (\<Union>p \<in> {p. run_artifact fs base p}. refs_at parse BLOB_BACKEND (lb_root s) fs p)
      \<and> set (rp_reclaimable plan) = {k \<in> keys_below fs (lb_dir s @ [ALGORITHM]). bk_hex k \<notin> set (rp_reachable plan)}"
proof -
  have *: "fs_entries fs' = fs_entries fs \<and> (r = Inr plan \<longrightarrow>
      fs_at fs base = Some DirEntry
      \<and> set (rp_artifacts plan) = {p. run_artifact fs base p}
      \<and> (\<forall>p. run_artifact fs base p \<longrightarrow> doc_at parse fs p \<noteq> None)
      \<and> set (rp_reachable plan) = (\<Union>p \<in> {p. run_artifact fs base p}. refs_at parse BLOB_BACKEND (lb_root s) fs p)
      \<and> set (rp_reclaimable plan) = {k \<in> keys_below fs (lb_dir s @ [ALGORITHM]). bk_hex k \<notin> set (rp_reachable plan)})"
    if calm: "fs_calm fs" and tree: "fs_tree fs"
  proof (cases "fs_at fs base = Some DirEntry")
    case False
    with assms show ?thesis by (auto simp: plan_reclaim_def path_is_dir_calm [OF calm])
  next
    case True
    obtain w f where w: "walk_run_store show_io parse BLOB_BACKEND (lb_root s) [base] [] [] fs = Some (w, f)"
      using walk_run_store_ends by fast
    have below: "artifacts_below fs [base] = {p. run_artifact fs base p}" by (simp add: artifacts_below_def)
    note exact = walk_run_store_exact [OF w, unfolded walk_exact_def prod.case, rule_format, OF calm tree, unfolded below]
    then have f: "f = fs" by blast
    show ?thesis
    proof (cases w)
      case (Inl refusal)
      with assms True w f show ?thesis by (auto simp: plan_reclaim_def path_is_dir_calm [OF calm])
    next
      case (Inr y)
      obtain arts reach where y: "y = (arts, reach)" by (cases y)
      have sets: "set arts = {p. run_artifact fs base p}" "\<forall>p. run_artifact fs base p \<longrightarrow> doc_at parse fs p \<noteq> None"
        "set reach = (\<Union>p \<in> {p. run_artifact fs base p}. refs_at parse BLOB_BACKEND (lb_root s) fs p)"
        using exact Inr y by simp_all
      obtain l g where l: "blob_list show_io s fs = Some (l, g)" using blob_list_ends by fast
      note lr = blob_list_result [OF l]
      show ?thesis
      proof (cases l)
        case (Inl err)
        with assms True w f Inr y l lr(1) show ?thesis by (auto simp: plan_reclaim_def path_is_dir_calm [OF calm] \<open>w = Inr y\<close>)
      next
        case found: (Inr found)
        with assms True w f Inr y l have "fs' = g" "r = Inr \<lparr>rp_container = lb_root s, rp_artifacts = sort arts,
            rp_reachable = reach, rp_reclaimable = sort_keys (filter (\<lambda>k. bk_hex k \<notin> set reach) found)\<rparr>"
          by (auto simp: plan_reclaim_def path_is_dir_calm [OF calm])
        with lr(1) lr(2) [OF found tree] True sets show ?thesis by (auto simp: sort_keys_def)
      qed
    qed
  qed
  then show "fs_calm fs \<Longrightarrow> fs_tree fs \<Longrightarrow> fs_entries fs' = fs_entries fs" by blast
  show "r = Inr plan \<Longrightarrow> fs_calm fs \<Longrightarrow> fs_tree fs \<Longrightarrow>
      fs_at fs base = Some DirEntry
      \<and> set (rp_artifacts plan) = {p. run_artifact fs base p}
      \<and> (\<forall>p. run_artifact fs base p \<longrightarrow> doc_at parse fs p \<noteq> None)
      \<and> set (rp_reachable plan) = (\<Union>p \<in> {p. run_artifact fs base p}. refs_at parse BLOB_BACKEND (lb_root s) fs p)
      \<and> set (rp_reclaimable plan) = {k \<in> keys_below fs (lb_dir s @ [ALGORITHM]). bk_hex k \<notin> set (rp_reachable plan)}"
    using * by blast
qed

lemma bind_not_None: "x \<noteq> None \<Longrightarrow> (\<And>y. f y \<noteq> None) \<Longrightarrow> Option.bind x f \<noteq> None"
  by (cases x) auto

lemma plan_reclaim_ends: "plan_reclaim show_io parse base backend container (blob_list show_io' s) fs \<noteq> None"
proof -
  obtain is_dir f where d: "path_is_dir base fs = (is_dir, f)" by fastforce
  obtain w g where w: "walk_run_store show_io parse backend container [base] [] [] f = Some (w, g)"
    using walk_run_store_ends by fast
  obtain l h where l: "blob_list show_io' s g = Some (l, h)" using blob_list_ends by fast
  show ?thesis by (simp add: plan_reclaim_def d w l split: sum.split prod.split)
qed

lemma run_reclaim_ends: "run_reclaim show_io parse locate base container mode fs \<noteq> None"
  by (simp add: run_reclaim_def Let_def plan_reclaim_ends del: not_None_eq split: option.split)

lemma reclaim_verb_ends: "reclaim_blobs_verb show_io parse show_path locate argv fs \<noteq> None"
  by (simp add: reclaim_blobs_verb_def Let_def run_reclaim_ends del: not_None_eq split: option.split)

text \<open>What a reclaim leaves: every blob a retained artifact references.\<close>

lemma run_reclaim_spares:
  assumes run: "run_reclaim show_io parse locate base container mode fs = Some (r, fs')"
    and fs: "fs_calm fs" "fs_tree fs"
    and k: "run_artifact fs (locate base) p" "bk_hex k \<in> refs_at parse BLOB_BACKEND container fs p"
  shows "blob_held (blob_open locate container) fs' k = blob_held (blob_open locate container) fs k"
proof (cases "strip_prefix OBJECT_STORE_SCHEME container")
  case (Some rest)
  with run show ?thesis by (simp add: run_reclaim_def)
next
  case None
  let ?s = "blob_open locate container"
  have root: "lb_root ?s = container" by (simp add: blob_open_def)
  from run None obtain x g where
    plan: "plan_reclaim show_io parse (locate base) BLOB_BACKEND (lb_root ?s) (blob_list show_io ?s) fs = Some (x, g)"
    and fin: "(r, fs') = (case x of Inl refusal \<Rightarrow> (Inl refusal, g) | Inr plan \<Rightarrow> reclaim_finish (blob_delete show_io ?s) plan mode g)"
    by (auto simp: run_reclaim_def Let_def)
  have g: "blob_held ?s g k = blob_held ?s fs k"
    using plan_reclaim_parts(1) [OF plan fs] by (simp add: blob_held_def fs_at_def)
  show ?thesis
  proof (cases x)
    case (Inl refusal)
    with fin g show ?thesis by simp
  next
    case (Inr plan)
    from plan_reclaim_parts(2) [OF plan Inr fs] k have "k \<notin> set (rp_reclaimable plan)" unfolding root by blast
    moreover obtain y h where y: "apply_reclaim (blob_delete show_io ?s) (rp_reclaimable plan) [] g = (y, h)" by fastforce
    ultimately have "blob_held ?s h k = blob_held ?s g k" using local_store.apply_spares by blast
    with fin Inr y g show ?thesis by (auto simp: reclaim_finish_def split: ReclaimMode.splits sum.splits)
  qed
qed

text \<open>
  A plan is the exact difference: on a file system whose calls succeed it names, sorted, every blob
  the container holds that no retained run artifact references, reading the whole of every artifact at or
  below the base, and it is refused when one of them does not parse; computing it changes nothing.
\<close>

theorem reclaim_plan_exact:
  assumes "plan_reclaim show_io parse base BLOB_BACKEND (lb_root s) (blob_list show_io s) fs = Some (Inr plan, fs')"
    and "fs_calm fs" "fs_tree fs"
  shows "set (rp_reclaimable plan) = {k \<in> keys_below fs (lb_dir s @ [ALGORITHM]).
        \<forall>p. run_artifact fs base p \<longrightarrow> bk_hex k \<notin> refs_at parse BLOB_BACKEND (lb_root s) fs p}
    \<and> set (rp_artifacts plan) = {p. run_artifact fs base p}
    \<and> (\<forall>p. run_artifact fs base p \<longrightarrow> doc_at parse fs p \<noteq> None) \<and> fs_entries fs' = fs_entries fs"
  using plan_reclaim_parts(2) [OF assms(1) refl assms(2,3)] plan_reclaim_parts(1) [OF assms] by auto

text \<open>
  C23. Collecting never loses a live blob: whatever its flags, the verb answers, and when no call to the
  file system fails every blob whose reference stands anywhere in the document of a run artifact at or
  below the store's base reads afterwards as it did before.
\<close>

theorem reclaim_spares_live:
  assumes flags: "reclaim_flag_value argv ''--blob-store'' = Some container"
      "base = (case reclaim_flag_value argv ''--store'' of Some b \<Rightarrow> b | None \<Rightarrow> DEFAULT_STORE_BASE)"
    and fs: "fs_calm fs" "fs_tree fs"
    and k: "valid_key k" "container \<noteq> []"
    and p: "run_artifact fs (locate base) p" "doc_at parse fs p = Some v"
    and ref: "blob_ref_display (blob_reference (blob_open locate container) k) \<in> set (doc_strings v)"
  shows "\<exists>answer fs'. reclaim_blobs_verb show_io parse show_path locate argv fs = Some (answer, fs')
     \<and> stored_blob show_io (blob_open locate container) k fs' = stored_blob show_io (blob_open locate container) k fs"
proof -
  obtain answer fs' where verb: "reclaim_blobs_verb show_io parse show_path locate argv fs = Some (answer, fs')"
    using reclaim_verb_ends by fast
  let ?s = "blob_open locate container"
  have "wf_reference (blob_reference ?s k)"
    using k by (simp add: wf_reference_def blob_reference_def blob_open_def BLOB_BACKEND_def contains_str.simps)
  with ref have "bk_hex k \<in> refs_in BLOB_BACKEND container v"
    unfolding refs_in_def by (intro CollectI exI [of _ "blob_reference ?s k"]) (simp add: blob_reference_def blob_open_def)
  then have refs: "bk_hex k \<in> refs_at parse BLOB_BACKEND container fs p" by (simp add: refs_at_def p(2))
  have "fs' = fs \<or> (\<exists>mode r. run_reclaim show_io parse locate base container mode fs = Some (r, fs'))"
    using verb flags by (auto simp: reclaim_blobs_verb_def split: option.splits)
  then have "blob_held ?s fs' k = blob_held ?s fs k" using run_reclaim_spares [where base = base and locate = locate, OF _ fs p(1) refs] by blast
  then have "stored_blob show_io ?s k fs' = stored_blob show_io ?s k fs" by (intro stored_blob_at) (simp add: blob_held_def)
  with verb show ?thesis by blast
qed

section \<open>A store with one live blob\<close>

text \<open>The directory of the blobs is reachable under two spellings, \<open>/b\<close> and \<open>/b/\<close>.\<close>

definition locate_sample :: "string \<Rightarrow> path" where
  "locate_sample s = (if s = ''/b'' \<or> s = ''/b/'' then [''b''] else [''runs''])"

definition parse_sample :: "string \<Rightarrow> string + Json" where
  "parse_sample t = Inr (JObject [(''uri'', JString (blob_ref_display (blob_reference blob_sample key_sample)))])"

definition live_fs :: Fs where
  "live_fs = \<lparr>fs_entries =
      [([''runs''], DirEntry), ([''runs'', ''r1''], DirEntry), ([''runs'', ''r1'', ''run.json''], FileEntry []),
       ([''runs'', ''r1'', ''events.jsonl''], FileEntry []), ([''b''], DirEntry), ([''b'', ''sha256''], DirEntry),
       ([''b'', ''sha256'', ''00''], DirEntry), ([''b'', ''sha256'', ''00'', ''00''], DirEntry),
       (object_path blob_sample key_sample, FileEntry [7])],
     fs_faults = [], fs_crashed = False, fs_pid = 7, fs_counter = 0\<rparr>"

lemma live_fs_ok: "fs_calm live_fs" "fs_tree live_fs"
  by code_simp+

lemma live_artifact:
  "run_artifact live_fs [''runs''] [''runs'', ''r1'', ''run.json'']"
  "doc_at parse_sample live_fs [''runs'', ''r1'', ''run.json''] = Some (JObject [(''uri'', JString (blob_ref_display (blob_reference blob_sample key_sample)))])"
proof -
  show "run_artifact live_fs [''runs''] [''runs'', ''r1'', ''run.json'']"
    by (simp add: run_artifact_def exI [of _ "[''r1'']"] RUN_ARTIFACT_FILE_NAME_def is_file_at_def fs_at_def live_fs_def
        object_path_def blob_sample_def key_sample_def Let_def)
  show "doc_at parse_sample live_fs [''runs'', ''r1'', ''run.json''] = Some (JObject [(''uri'', JString (blob_ref_display (blob_reference blob_sample key_sample)))])"
    by (simp add: doc_at_def fs_at_def live_fs_def text_of_bytes_def parse_sample_def)
qed

definition reclaim_argv :: "string \<Rightarrow> string list" where
  "reclaim_argv container = [''--reclaim-blobs=delete'', ''--blob-store'', container, ''--store=runs'']"

text \<open>Under its own spelling the live blob is spared, and the plan of a reclaim is empty.\<close>

theorem reclaim_plan_exact_witness:
  "\<exists>plan fs'. plan_reclaim (\<lambda>e. []) parse_sample [''runs''] BLOB_BACKEND (lb_root blob_sample) (blob_list (\<lambda>e. []) blob_sample) live_fs
       = Some (Inr plan, fs') \<and> rp_reclaimable plan = [] \<and> set (rp_artifacts plan) = {p. run_artifact live_fs [''runs''] p}"
proof -
  let ?plan = "plan_reclaim (\<lambda>e. []) parse_sample [''runs''] BLOB_BACKEND (lb_root blob_sample) (blob_list (\<lambda>e. []) blob_sample) live_fs"
  have "case ?plan of Some (Inr plan, _) \<Rightarrow> rp_reclaimable plan = [] | _ \<Rightarrow> False" by code_simp
  then obtain plan fs' where p: "?plan = Some (Inr plan, fs')" "rp_reclaimable plan = []"
    by (auto split: option.splits sum.splits)
  from reclaim_plan_exact [OF p(1) live_fs_ok] p show ?thesis by blast
qed

theorem reclaim_spares_live_witness:
  "\<exists>answer fs'. reclaim_blobs_verb (\<lambda>e. []) parse_sample concat locate_sample (reclaim_argv ''/b'') live_fs = Some (answer, fs')
     \<and> stored_blob (\<lambda>e. []) (blob_open locate_sample ''/b'') key_sample fs' = stored_blob (\<lambda>e. []) (blob_open locate_sample ''/b'') key_sample live_fs"
proof (rule reclaim_spares_live [OF _ _ live_fs_ok valid_key_sample])
  show "reclaim_flag_value (reclaim_argv ''/b'') ''--blob-store'' = Some ''/b''" by code_simp
  show "''runs'' = (case reclaim_flag_value (reclaim_argv ''/b'') ''--store'' of Some b \<Rightarrow> b | None \<Rightarrow> DEFAULT_STORE_BASE)" by code_simp
  show "run_artifact live_fs (locate_sample ''runs'') [''runs'', ''r1'', ''run.json'']"
    using live_artifact(1) by (simp add: locate_sample_def)
  show "doc_at parse_sample live_fs [''runs'', ''r1'', ''run.json''] = Some (JObject [(''uri'', JString (blob_ref_display (blob_reference blob_sample key_sample)))])"
    by (rule live_artifact(2))
  show "blob_ref_display (blob_reference (blob_open locate_sample ''/b'') key_sample)
      \<in> set (doc_strings (JObject [(''uri'', JString (blob_ref_display (blob_reference blob_sample key_sample)))]))"
    by (simp add: blob_reference_def blob_open_def locate_sample_def blob_sample_def)
qed simp

text \<open>
  Two ways to lose it.  The container is compared as text: under the other spelling of the same directory
  the reference names another container, and the blob it points to is removed.  And a look that fails is
  taken for an absent file: when the looks at the two files of the run directory fail, the run is passed over
  without a refusal, and the blob its artifact references is removed.
\<close>

definition live_blob_lost :: "((string \<times> ExitCode) \<times> Fs) option \<Rightarrow> bool" where
  "live_blob_lost r = (case r of
     Some ((_, code), fs) \<Rightarrow> code = Success \<and> fs_at fs (object_path blob_sample key_sample) = None | None \<Rightarrow> False)"

theorem reclaim_other_spelling:
  "live_blob_lost (reclaim_blobs_verb (\<lambda>e. []) parse_sample concat locate_sample (reclaim_argv ''/b/'') live_fs)"
  by code_simp

theorem reclaim_failed_look:
  "live_blob_lost (reclaim_blobs_verb (\<lambda>e. []) parse_sample concat locate_sample (reclaim_argv ''/b'')
     (live_fs\<lparr>fs_faults := replicate 6 Fine @ [Fails 0, Fails 0]\<rparr>))"
  by code_simp

end
