(* ===== verification/Spec2Isabelle.thy ===== *)
theory Spec2Isabelle
  imports Slot Errors Attempt Resume Timestamps Resume_Record Blob_Bridge Blob_Gc
begin

text \<open>
  dagr, a task-graph runtime in Rust.

  A pipeline author registers nodes (tasks with typed data edges, ordering edges and policies) in a
  flow; finishing the flow freezes a pipeline; assembly validates it and precomputes what a run
  needs; a run then lets the readiness tracker decide which node may start, the admission controller
  charge its cost against the pools, the attempt runner execute it with deadline and retries, and the
  output slot hold its value for the consumers.  A durable scratch store survives attempts and
  resumes, and the resume core plans which nodes of an earlier run need not run again.  What happens is
  appended to an event stream, one canonical JSON record per line; folding the stream, whole or cut by
  a crash, gives the artifact of the run that reports and resumes read.  The driver puts the parts
  together: it checks that every node can ever be admitted, runs the loop that admits, receives,
  cancels and drains, runs the teardowns, and closes the stream.  Values that outlive a run are kept in a
  blob store under the hash of their encoding; a resume probes and fetches them by reference, and a
  collector deletes those that no retained run references.

  \<^bold>\<open>Theories and the code they model\<close> (paths under \<open>src/crates\<close>)

  \<^item> \<open>Prelude\<close>: machine integer types, Rust's ordered maps and sets as sorted lists with their laws,
    hexadecimal text, and the two interfaces that several components share: \<open>keyed_store\<close> (a map with
    lookup and insertion) and \<open>invariant_machine\<close> (operations that keep an invariant).
  \<^item> \<open>Vocabulary\<close>: node identities by FNV-1a (\<open>core/src/handle.rs\<close>), terminal states
    (\<open>core/src/context.rs\<close>), trigger rules, receive modes and policies (\<open>core/src/assembly.rs\<close>,
    \<open>core/src/binding.rs\<close>).
  \<^item> \<open>Flow\<close>: the registrars and \<open>finish\<close> (\<open>core/src/flow.rs\<close>); a builder state is the record of its
    vectors, a registration returns the error or the new state.  Lemmas: what can be built is acyclic
    and closed.
  \<^item> \<open>Assembly\<close>: every check, the Kahn execution order and the consumer counts
    (\<open>core/src/assembly.rs\<close>).  Lemmas: the checks are exact, the order is the greedy topological one.
  \<^item> \<open>Encoding\<close>: canonical bytes, fingerprint, \<open>assemble\<close> (\<open>core/src/assembly.rs\<close>).  Lemmas: the
    encodings are injective, \<open>assemble\<close> is total and never panics.
  \<^item> \<open>Readiness\<close>, \<open>Readiness_Session\<close>: the tracker (\<open>core/src/readiness.rs\<close>), its invariant, and
    sessions of notifications: decisions are right, made once and never revised, and a session makes
    progress over pipelines that are \<open>trackable\<close>.  Assembly accepts two shapes that are not, a data and an
    ordering edge to the same upstream and ordering after a teardown, and \<open>stuck_shapes\<close> shows that they
    stall.
  \<^item> \<open>Admission\<close>: the four pools, permits and residency leases (\<open>core/src/admission.rs\<close>):
    conservation, completeness of a poll, no deadlock.
  \<^item> \<open>Slot\<close>: the residency ledger and the output slot (\<open>core/src/slot.rs\<close>): reads after a fill return the
    value while leases are out, and the ledger carries a slot's residency exactly while it holds its value,
    unless a take panics.
  \<^item> \<open>Errors\<close>: task and rehydration errors (\<open>core/src/error.rs\<close>).
  \<^item> \<open>Scratch\<close>: the durable scratch store (\<open>core/src/scratch.rs\<close>), over a file system whose every
    operation may fail or be the last one before a crash: a put is atomic, carry-forward copies.
  \<^item> \<open>Context\<close>: cancellation tokens, resource registry and bootstrap validation
    (\<open>core/src/context.rs\<close>); the token tree refines the specification by ancestors.
  \<^item> \<open>Attempt\<close>: one attempt, the deadline race, panic capture and the retry loop
    (\<open>core/src/execution.rs\<close>).  A future is a value of the codatatype \<open>Body\<close>, whose polls may go on
    for ever; awaiting it is a \<open>partial_function\<close>, and a call that never returns is \<open>None\<close>.  The locale of a single attempt is interpreted by both runners.
  \<^item> \<open>Resume\<close>: gates, seed, downstream closure and demand resolution (\<open>core/src/resume.rs\<close>); the
    plan refines the inductive set of nodes that must run again.
  \<^item> \<open>Json\<close>: JSON values and their canonical text (\<open>artifact/src/canonical.rs\<close>), which determines
    the value and fits on one line.
  \<^item> \<open>Event_Stream\<close>: the events, their wire records, the writer over a sink that may fail, and the
    reader (\<open>artifact/src/event_stream.rs\<close>).  \<open>emit_all\<close> is what the driver does with the writer: it goes
    on after a failed append.  On a disk that takes a line whole, refuses it without a trace or fills up
    inside one, the file, cut at any byte, reads back; \<open>Run_Record.appends_after_fault\<close> shows that on a file
    where a piece of a line is followed by more lines it does not.  \<open>Stream_Schema\<close>: the published schema
    (\<open>schemas/event-stream/v1.schema.json\<close>) as a predicate, which every record the writer builds meets.
  \<^item> \<open>Timestamps\<close>: the wall-clock text (\<open>artifact/src/event_stream.rs\<close>), against a calendar that
    counts days.
  \<^item> \<open>Fold\<close>: from stream bytes to run artifact (\<open>artifact/src/fold.rs\<close>): attempt rows, phases,
    submissions, outputs and the summary with its critical path; composed with the writer and reader.
  \<^item> \<open>Std_Text\<close>: what the code uses of the standard library's text functions: trimming, splitting,
    parsing of integers.
  \<^item> \<open>Pool_Limits\<close>: pool capacities from container limits and pins, and the bootstrap check
    (\<open>core/src/limits.rs\<close>): it refuses exactly the runs with a node that could never be admitted.
  \<^item> \<open>Driver\<close>: the run loop (\<open>cli/src/driver.rs\<close>).  Its state is the loop's local variables, the
    message channel, the attempts that were dispatched, the timers and the log of records; what
    happens (a turn of the loop, an attempt that returns or reports, a timer, an interrupt, time that
    passes) is an \<open>Action\<close>, and a run is a list of actions.  The permit of an attempt is released
    before its report, as two actions.
  \<^item> \<open>Driver_Places\<close>, \<open>Driver_Loop\<close>: the bookkeeping invariant (where every node is, what is counted)
    and that every action keeps it; \<open>Driver_Run\<close>: stopping and draining never go back.
  \<^item> \<open>Run_Guarantees\<close>, \<open>Run_Capacity\<close>: the guarantees of a run: the in-flight count is exact, the loop
    never waits for nothing, an interrupt ends it, a successful run left no node out, pools balance.
  \<^item> \<open>Drive\<close>: a whole drive (\<open>cli/src/driver.rs\<close>, \<open>cli/src/executor.rs\<close>, \<open>cli/src/remote_guard.rs\<close>) with
    its early ends, the teardown phase and the final flush; \<open>Run_Record\<close>: what it leaves on disk, through
    writer, reader and fold.
  \<^item> \<open>Config\<close>: the knobs of a run (\<open>cli/src/config.rs\<close>): flag over environment over file over
    default, the parsers, the lower bounds and what no upper bound allows; exit codes.  \<open>Config_File\<close>: the profile loader (\<open>cli/src/config_file.rs\<close>), which
    layers the selected profile over the default one and lets only known keys through.
  \<^item> \<open>Contract\<close>: the command surface (\<open>cli/src/contract.rs\<close>): verbs, where the flow's name is found,
    reserved flags, parameters, the verbs that check and fold.  \<open>Resume_Verb\<close>: the resume verb, from the
    prior artifact's JSON to the resumed one, which reads back.  \<open>Resume_Record\<close>: drive, stream, fold
    and resume together: a recorded run passes the gates, and only recorded successes are left out.
  \<^item> \<open>Digest\<close>: SHA-256 over a stream and the keyed hash (\<open>blob/src/digest.rs\<close>, \<open>blob/src/hmac.rs\<close>), equal
    to the standard's functions of the whole message.  \<open>Byte_Text\<close>: UTF-8 text as bytes.
  \<^item> \<open>Payload\<close>: the codec of values (\<open>core/src/payload.rs\<close>): the locale \<open>canonical_codec\<close> (a value has one
    encoding, which reads back and leaves the rest), interpreted by every codec of the file, and the envelope.
  \<^item> \<open>Blob_Store\<close>: content addresses, references and the store on the local file system
    (\<open>blob/src/store.rs\<close>, \<open>blob/src/local.rs\<close>), over the file system of \<open>Scratch\<close>: puts are atomic, gets are
    verified.  \<open>Blob_Bridge\<close>: stored values and the existence probe (\<open>cli/src/blob_bridge.rs\<close>).
  \<^item> \<open>Blob_Gc\<close>: the collector (\<open>cli/src/blob_gc.rs\<close>): the walk over the run store, the references of an
    artifact, the plan and the verb; what is referenced is kept, and two ways in which it is not.

  \<^bold>\<open>Bounds and fuel.\<close>  Loops of the code that could run for ever are written with
  \<open>partial_function (option)\<close>, and the theorems about them include that they return; the other loops,
  the retry loop among them, are total functions with a measure.  Machine integers keep their width and
  wrap as in the code, with two exceptions.  The lease counters of a slot (\<open>open_leases\<close>, \<open>terminal_count\<close>,
  \<open>returned_count\<close>, \<open>total_consumers\<close>, \<open>u32\<close> in the code) are the natural numbers they count; the model is
  the code as long as fewer than \<open>2 ^ 32\<close> leases are taken out on one slot.  Points in time, and the
  deadlines computed from them, are natural numbers of nanoseconds; the code adds a grace period to
  \<open>Instant::now()\<close>, which panics when the clock cannot represent the sum, for a grace of about \<open>2 ^ 63\<close>
  seconds or more; the model is the code below that.

  A schedule of the run loop is any finite list of actions; the theorem that an interrupt ends the run
  says how many turns are enough.

  \<^bold>\<open>Not modelled.\<close>  The argument parser, remote execution on a cluster,
  object storage (of the blob stores only the local one is modelled), the metastore, the renderers and the derive macros are other parts of the
  repository.  Values of task outputs, user code, clocks, file systems, the environment and the TOML and JSON parsers are parameters of the model;
  thread pools and channels are, as far as the loop sees them, the actions of its schedule.  Flushing a
  file to the disk has no effect in the file-system model, where what was written is what a later process
  reads: that the code syncs before a rename is modelled as a call that may fail, not as durability against
  a loss of power.
\<close>

end
